(* ===== verification/Prelude.thy ===== *)
theory Prelude
  imports Main "HOL-Library.Word" "HOL-Library.Code_Target_Nat"
begin

text \<open>
  Shared vocabulary of the development.

  The interpreter's code fails in three ways that the model keeps apart: a Rust panic (a failed
  \<open>assert!\<close>, \<open>unwrap\<close> of \<open>None\<close>, an index out of range, a checked integer overflow), an
  \<open>Err\<close> value of \<open>Result\<close> (for the borrow trackers: undefined behaviour of the interpreted program),
  and a loop of the model that used up its fuel. \<open>outcome\<close> is the result type of all fallible
  operations, \<open>obind\<close> is the \<open>?\<close> operator, \<open>unwrap\<close> and \<open>check\<close> are \<open>Option::unwrap\<close> and
  \<open>assert!\<close>. The rest of the theory holds facts about lists that several components use.
\<close>

section \<open>Outcomes\<close>

datatype ('e, 'a) outcome = Ok 'a | Err 'e | Panic | Diverge

fun obind :: "('e, 'a) outcome \<Rightarrow> ('a \<Rightarrow> ('e, 'b) outcome) \<Rightarrow> ('e, 'b) outcome" where
  "obind (Ok x) f = f x"
| "obind (Err e) f = Err e"
| "obind Panic f = Panic"
| "obind Diverge f = Diverge"

definition unwrap :: "'a option \<Rightarrow> ('e, 'a) outcome" where
  "unwrap x = (case x of None \<Rightarrow> Panic | Some y \<Rightarrow> Ok y)"

definition check :: "bool \<Rightarrow> ('e, unit) outcome" where
  "check b = (if b then Ok () else Panic)"

text \<open>Indexing a vector panics out of range.\<close>

definition vec_get :: "'a list \<Rightarrow> nat \<Rightarrow> ('e, 'a) outcome" where
  "vec_get xs i = (if i < length xs then Ok (xs ! i) else Panic)"

text \<open>Addition of \<open>u64\<close> values, kept as natural numbers: overflow is a panic.\<close>

definition add_u64 :: "nat \<Rightarrow> nat \<Rightarrow> ('e, nat) outcome" where
  "add_u64 a b = (if a + b < 2 ^ 64 then Ok (a + b) else Panic)"

text \<open>Counters of type \<open>u16\<close>, with overflow checks.\<close>

definition add_u16 :: "nat \<Rightarrow> nat \<Rightarrow> ('e, nat) outcome" where
  "add_u16 a b = (if a + b < 2 ^ 16 then Ok (a + b) else Panic)"

definition sub_u16 :: "nat \<Rightarrow> nat \<Rightarrow> ('e, nat) outcome" where
  "sub_u16 a b = (if b \<le> a then Ok (a - b) else Panic)"

text \<open>\<open>Result::map_err\<close>\<close>

fun map_err :: "('e \<Rightarrow> 'f) \<Rightarrow> ('e, 'a) outcome \<Rightarrow> ('f, 'a) outcome" where
  "map_err f (Ok x) = Ok x"
| "map_err f (Err e) = Err (f e)"
| "map_err f Panic = Panic"
| "map_err f Diverge = Diverge"

text \<open>\<open>Vec::insert\<close> panics if the position lies beyond the end.\<close>

definition vec_insert :: "nat \<Rightarrow> 'a \<Rightarrow> 'a list \<Rightarrow> ('e, 'a list) outcome" where
  "vec_insert i x xs = (if i \<le> length xs then Ok (take i xs @ x # drop i xs) else Panic)"

fun is_Ok :: "('e, 'a) outcome \<Rightarrow> bool" where
  "is_Ok (Ok x) = True"
| "is_Ok _ = False"

text \<open>\<open>std::cmp::Ordering\<close>.\<close>

datatype ordering = Less | Equal | Greater

text \<open>A fallible loop over a list with an accumulator.\<close>

fun ofold :: "('a \<Rightarrow> 's \<Rightarrow> ('e, 's) outcome) \<Rightarrow> 'a list \<Rightarrow> 's \<Rightarrow> ('e, 's) outcome" where
  "ofold f [] s = Ok s"
| "ofold f (x # xs) s = obind (f x s) (ofold f xs)"

text \<open>\<open>Iterator::position\<close>: the first index whose element satisfies the predicate.\<close>

definition position :: "('a \<Rightarrow> bool) \<Rightarrow> 'a list \<Rightarrow> nat option" where
  "position P xs = find (\<lambda>i. P (xs ! i)) [0..<length xs]"

named_theorems outcome_simps \<open>unfolding of the elementary fallible operations\<close>

lemma unwrap_simps [simp]: "unwrap (Some x) = Ok x" "unwrap None = Panic"
  by (simp_all add: unwrap_def)

lemma unwrap_eq_Ok [simp]: "unwrap x = Ok y \<longleftrightarrow> x = Some y"
  by (cases x) auto

lemma check_simps [simp]: "check True = Ok ()" "check False = Panic"
  by (simp_all add: check_def)

lemma check_eq_Ok [simp]: "check b = Ok u \<longleftrightarrow> b"
  by (cases b) auto

lemma obind_eq_Ok: "obind m f = Ok y \<longleftrightarrow> (\<exists>x. m = Ok x \<and> f x = Ok y)"
  by (cases m) auto

lemma obind_eq_Err: "obind m f = Err e \<longleftrightarrow> m = Err e \<or> (\<exists>x. m = Ok x \<and> f x = Err e)"
  by (cases m) auto

lemma obind_eq_Panic: "obind m f = Panic \<longleftrightarrow> m = Panic \<or> (\<exists>x. m = Ok x \<and> f x = Panic)"
  by (cases m) auto

lemma map_err_eq_Ok [simp]: "map_err f m = Ok x \<longleftrightarrow> m = Ok x"
  by (cases m) auto

lemma obind_assoc: "obind (obind m f) g = obind m (\<lambda>x. obind (f x) g)"
  by (cases m) auto

lemma obind_Ok_right [simp]: "obind m Ok = m"
  by (cases m) auto

lemma obind_check [simp]: "obind (check b) f = (if b then f () else Panic)"
  by (cases b) auto

lemma obind_unwrap: "obind (unwrap x) f = (case x of None \<Rightarrow> Panic | Some y \<Rightarrow> f y)"
  by (cases x) auto

lemma obind_cong [fundef_cong]:
  "m = m' \<Longrightarrow> (\<And>x. m' = Ok x \<Longrightarrow> f x = f' x) \<Longrightarrow> obind m f = obind m' f'"
  by (cases m') auto

lemma vec_get_Ok [simp]: "i < length xs \<Longrightarrow> vec_get xs i = Ok (xs ! i)"
  by (simp add: vec_get_def)

lemma vec_get_Panic [simp]: "length xs \<le> i \<Longrightarrow> vec_get xs i = Panic"
  by (simp add: vec_get_def)

lemma vec_insert_Ok [simp]: "i \<le> length xs \<Longrightarrow> vec_insert i x xs = Ok (take i xs @ x # drop i xs)"
  by (simp add: vec_insert_def)

lemma add_u64_Ok [simp]: "a + b < 2 ^ 64 \<Longrightarrow> add_u64 a b = Ok (a + b)"
  by (simp add: add_u64_def)

lemma ofold_Nil_fun [simp]: "ofold f [] = Ok"
  by (simp add: fun_eq_iff)

lemma ofold_append: "ofold f (xs @ ys) s = obind (ofold f xs s) (ofold f ys)"
  by (induction xs arbitrary: s) (simp_all add: obind_assoc fun_eq_iff cong: obind_cong)

lemma ofold_cong [fundef_cong]:
  "xs = ys \<Longrightarrow> s = t \<Longrightarrow> (\<And>x u. x \<in> set ys \<Longrightarrow> f x u = g x u) \<Longrightarrow> ofold f xs s = ofold g ys t"
proof (induction ys arbitrary: xs s t)
  case Nil
  then show ?case by simp
next
  case (Cons y ys)
  then show ?case by (auto intro!: obind_cong)
qed

text \<open>An invariant kept by the body of a loop is kept by the loop.\<close>

lemma ofold_invariant:
  assumes "ofold f xs s = Ok t" and "P s"
    and "\<And>x u v. x \<in> set xs \<Longrightarrow> P u \<Longrightarrow> f x u = Ok v \<Longrightarrow> P v"
  shows "P t"
  using assms
proof (induction xs arbitrary: s)
  case Nil
  then show ?case by simp
next
  case (Cons x xs)
  from Cons.prems(1) obtain u where "f x s = Ok u" and "ofold f xs u = Ok t"
    by (auto simp: obind_eq_Ok)
  with Cons show ?case by (metis list.set_intros(1) list.set_intros(2))
qed

text \<open>Two computations that fail alike and return related values.\<close>

lemma rel_obind:
  "rel_outcome (=) R m n \<Longrightarrow> (\<And>x y. R x y \<Longrightarrow> rel_outcome (=) S (f x) (g y)) \<Longrightarrow>
    rel_outcome (=) S (obind m f) (obind n g)"
  by (cases m; cases n) auto

lemma rel_ofold:
  assumes "R s t" "\<And>x u v. x \<in> set xs \<Longrightarrow> R u v \<Longrightarrow> rel_outcome (=) R (f x u) (g x v)"
  shows "rel_outcome (=) R (ofold f xs s) (ofold g xs t)"
  using assms
proof (induction xs arbitrary: s t)
  case Nil
  then show ?case by simp
next
  case (Cons x xs)
  show ?case unfolding ofold.simps
    by (rule rel_obind [where R = R]) (use Cons in auto)
qed

lemma rel_outcome_Ok: "rel_outcome (=) R m n \<Longrightarrow> m = Ok x \<Longrightarrow> \<exists>y. n = Ok y \<and> R x y"
  by (cases n) auto

lemma rel_outcome_right:
  "rel_outcome (=) R m (Ok y) \<longleftrightarrow> (\<exists>x. m = Ok x \<and> R x y)" "rel_outcome (=) R m (Err e) \<longleftrightarrow> m = Err e"
  "rel_outcome (=) R m Panic \<longleftrightarrow> m = Panic" "rel_outcome (=) R m Diverge \<longleftrightarrow> m = Diverge"
  by (cases m; auto)+

lemma rel_outcome_refl: "(\<And>x. m = Ok x \<Longrightarrow> R x x) \<Longrightarrow> rel_outcome (=) R m m"
  by (cases m) auto

lemmas outcome_eqs = obind_eq_Ok obind_eq_Err obind_eq_Panic

declare obind_unwrap [outcome_simps] vec_get_def [outcome_simps] vec_insert_def [outcome_simps]
  add_u64_def [outcome_simps]

section \<open>Lists\<close>

lemma position_Some:
  "position P xs = Some i \<longleftrightarrow> i < length xs \<and> P (xs ! i) \<and> (\<forall>j<i. \<not> P (xs ! j))"
  by (auto simp: position_def find_Some_iff)

lemma position_None: "position P xs = None \<longleftrightarrow> (\<forall>x\<in>set xs. \<not> P x)"
  by (simp add: position_def find_None_iff all_set_conv_all_nth)

lemma list_update_append_mid: "(xs @ x # ys)[length xs := z] = xs @ z # ys"
  by simp

lemma nth_append_mid: "(xs @ x # ys) ! length xs = x"
  by simp

lemma split_at: "i < length xs \<Longrightarrow> xs = take i xs @ xs ! i # drop (Suc i) xs"
  by (rule id_take_nth_drop)

lemma upt_split: "a \<le> b \<Longrightarrow> b \<le> c \<Longrightarrow> [a..<c] = [a..<b] @ [b..<c]"
  by (metis le_add_diff_inverse upt_add_eq_append)

end
