(* ===== verification/Binary_Search.thy ===== *)
theory Binary_Search
  imports Prelude
begin

text \<open>
  The standard library's \<open>slice::binary_search_by\<close>, which both range maps call. The interface
  between the search and its clients is the locale \<open>ordered_slice\<close>: the client promises that its
  comparison function runs through \<open>Less\<close>, at most one \<open>Equal\<close>, \<open>Greater\<close> along the slice, and gets
  back exactly where the matching element is, or where one would have to be inserted.
\<close>

function bs_loop :: "('a \<Rightarrow> ordering) \<Rightarrow> 'a list \<Rightarrow> nat \<Rightarrow> nat \<Rightarrow> nat" where
  "bs_loop f xs base sz =
     (if 1 < sz
      then let half = sz div 2; mid = base + half;
               base' = (if f (xs ! mid) = Greater then base else mid)
           in bs_loop f xs base' (sz - half)
      else base)"
  by pat_completeness auto
termination
  by (relation "measure (\<lambda>(f, xs, base, sz). sz)") auto

declare bs_loop.simps [simp del]

text \<open>\<open>Inr\<close> is Rust's \<open>Ok\<close> (found), \<open>Inl\<close> is \<open>Err\<close> (the insertion point).\<close>

definition binary_search_by :: "('a \<Rightarrow> ordering) \<Rightarrow> 'a list \<Rightarrow> nat + nat" where
  "binary_search_by f xs =
     (if xs = [] then Inl 0
      else let base = bs_loop f xs 0 (length xs) in
        case f (xs ! base) of
          Equal \<Rightarrow> Inr base
        | Less \<Rightarrow> Inl (base + 1)
        | Greater \<Rightarrow> Inl base)"

lemma bs_loop_step:
  "1 < sz \<Longrightarrow> bs_loop f xs base sz =
     bs_loop f xs (if f (xs ! (base + sz div 2)) = Greater then base else base + sz div 2) (sz - sz div 2)"
  by (subst bs_loop.simps) (simp add: Let_def)

lemma bs_loop_stop: "sz \<le> 1 \<Longrightarrow> bs_loop f xs base sz = base"
  by (subst bs_loop.simps) simp

lemma bs_loop_bounds:
  "0 < sz \<Longrightarrow> base \<le> bs_loop f xs base sz \<and> bs_loop f xs base sz < base + sz"
proof (induction sz arbitrary: base rule: less_induct)
  case (less sz)
  show ?case
  proof (cases "1 < sz")
    case True
    let ?b = "if f (xs ! (base + sz div 2)) = Greater then base else base + sz div 2"
    from True less.IH [of "sz - sz div 2" ?b]
    have "?b \<le> bs_loop f xs ?b (sz - sz div 2) \<and> bs_loop f xs ?b (sz - sz div 2) < ?b + (sz - sz div 2)"
      by simp
    with True show ?thesis
      unfolding bs_loop_step [OF True] by (auto split: if_splits)
  next
    case False
    with less.prems show ?thesis by (simp add: bs_loop_stop)
  qed
qed

locale ordered_slice =
  fixes cmp :: "'k \<Rightarrow> 'a \<Rightarrow> ordering" and inv :: "'a list \<Rightarrow> bool"
  assumes ordered: "inv xs \<Longrightarrow> i < j \<Longrightarrow> j < length xs \<Longrightarrow> cmp k (xs ! i) = Less \<or> cmp k (xs ! j) = Greater"
begin

lemma loop_invariant:
  assumes "inv xs"
    and "0 < sz" "base + sz \<le> length xs" "base = 0 \<or> cmp k (xs ! base) \<noteq> Greater"
    and "\<forall>i<length xs. base + sz \<le> i \<longrightarrow> cmp k (xs ! i) = Greater"
  shows "(bs_loop (cmp k) xs base sz = 0 \<or> cmp k (xs ! bs_loop (cmp k) xs base sz) \<noteq> Greater) \<and>
    (\<forall>i<length xs. bs_loop (cmp k) xs base sz < i \<longrightarrow> cmp k (xs ! i) = Greater)"
  using assms(2-)
proof (induction sz arbitrary: base rule: less_induct)
  case (less sz)
  show ?case
  proof (cases "1 < sz")
    case True
    let ?mid = "base + sz div 2"
    let ?b = "if cmp k (xs ! ?mid) = Greater then base else ?mid"
    have tail: "cmp k (xs ! i) = Greater" if "i < length xs" "?b + (sz - sz div 2) \<le> i" for i
    proof (cases "cmp k (xs ! ?mid) = Greater \<and> ?mid < i")
      case mid: True
      with that ordered [OF assms(1), of ?mid i k] show ?thesis by auto
    next
      case False
      with that less.prems True show ?thesis
        by (cases "i = ?mid") (auto split: if_splits)
    qed
    show ?thesis
      unfolding bs_loop_step [OF True]
    proof (rule less.IH)
      show "sz - sz div 2 < sz" "0 < sz - sz div 2" using True by simp_all
      show "?b + (sz - sz div 2) \<le> length xs" "?b = 0 \<or> cmp k (xs ! ?b) \<noteq> Greater"
        using less.prems by auto
      show "\<forall>i<length xs. ?b + (sz - sz div 2) \<le> i \<longrightarrow> cmp k (xs ! i) = Greater"
        using tail by blast
    qed
  next
    case False
    with less.prems have "sz = 1" by simp
    with less.prems show ?thesis by (simp add: bs_loop_stop)
  qed
qed

lemma search_base:
  fixes k
  assumes "inv xs" "xs \<noteq> []"
  defines "b \<equiv> bs_loop (cmp k) xs 0 (length xs)"
  shows "b < length xs" "b = 0 \<or> cmp k (xs ! b) \<noteq> Greater"
    "i < length xs \<Longrightarrow> b < i \<Longrightarrow> cmp k (xs ! i) = Greater"
    "i < b \<Longrightarrow> cmp k (xs ! i) = Less"
proof -
  have inv: "(b = 0 \<or> cmp k (xs ! b) \<noteq> Greater) \<and> (\<forall>i<length xs. b < i \<longrightarrow> cmp k (xs ! i) = Greater)"
    unfolding b_def using assms(1,2) by (intro loop_invariant) auto
  show lt: "b < length xs"
    unfolding b_def using bs_loop_bounds [of "length xs" 0 "cmp k" xs] assms(2) by simp
  from inv show "b = 0 \<or> cmp k (xs ! b) \<noteq> Greater"
    "i < length xs \<Longrightarrow> b < i \<Longrightarrow> cmp k (xs ! i) = Greater" by auto
  show "cmp k (xs ! i) = Less" if "i < b"
    using ordered [OF assms(1) that lt, of k] inv that by auto
qed

text \<open>What the search returns: the position of the match, or a position that separates the slice.\<close>

lemma search_found:
  assumes "inv xs" "binary_search_by (cmp k) xs = Inr i"
  shows "i < length xs \<and> cmp k (xs ! i) = Equal"
  using assms(2) search_base(1) [OF assms(1)]
  by (auto simp: binary_search_by_def Let_def split: if_splits ordering.splits)

lemma search_not_found:
  assumes "inv xs" "binary_search_by (cmp k) xs = Inl i"
  shows "i \<le> length xs \<and> (\<forall>j<i. cmp k (xs ! j) = Less) \<and>
    (\<forall>j<length xs. i \<le> j \<longrightarrow> cmp k (xs ! j) = Greater)"
proof (cases "xs = []")
  case True
  with assms show ?thesis by (simp add: binary_search_by_def)
next
  case False
  note base = search_base [OF assms(1) False, where k = k]
  let ?b = "bs_loop (cmp k) xs 0 (length xs)"
  show ?thesis
  proof (cases "cmp k (xs ! ?b)")
    case Less
    with assms False have "i = Suc ?b" by (simp add: binary_search_by_def Let_def)
    with base Less show ?thesis by (auto simp: less_Suc_eq)
  next
    case Equal
    with assms False show ?thesis by (simp add: binary_search_by_def Let_def)
  next
    case Greater
    with assms False base(2) have "i = 0" "?b = 0" by (auto simp: binary_search_by_def Let_def)
    with base Greater show ?thesis by (metis gr_zeroI less_nat_zero_code zero_le)
  qed
qed

lemma search_complete:
  assumes "inv xs" "i < length xs" "cmp k (xs ! i) = Equal"
  shows "binary_search_by (cmp k) xs = Inr i"
proof (cases "binary_search_by (cmp k) xs")
  case (Inl j)
  from search_not_found [OF assms(1) this] assms show ?thesis
    by (metis linorder_not_less ordering.distinct(1) ordering.distinct(5))
next
  case (Inr j)
  from search_found [OF assms(1) Inr] assms ordered [of xs i j k] ordered [of xs j i k] Inr show ?thesis
    by (metis nat_neq_iff ordering.distinct(1) ordering.distinct(5))
qed

end

end
