(* ===== verification/Dedup_Range_Map.thy ===== *)
theory Dedup_Range_Map
  imports Binary_Search
begin

text \<open>
  \<open>src/data_structures/dedup_range_map.rs\<close>: a map from byte offsets to data, stored as a vector of
  adjacent ranges. Both borrow trackers keep one of these per allocation.

  A map is its vector of elements. The source compares data with \<open>PartialEq\<close>, which for the borrow
  stacks ignores the lookup cache and for the permission maps ignores trailing holes; the operations
  that merge ranges take that comparison as the parameter \<open>eq\<close>. An iterator over mutable references is
  modelled by the map after the splitting and merging together with the index range of the slice that
  it yields; \<open>DedupRangeMap_for_each\<close> is the loop over that slice.
\<close>

section \<open>Model\<close>

record 'a elem =
  range_start :: nat
  range_end :: nat
  data :: 'a

type_synonym 'a DedupRangeMap = "'a elem list"

definition DedupRangeMap_new :: "nat \<Rightarrow> 'a \<Rightarrow> 'a DedupRangeMap" where
  "DedupRangeMap_new sz init =
     (if sz > 0 then [\<lparr>range_start = 0, range_end = sz, data = init\<rparr>] else [])"

definition DedupRangeMap_size :: "'a DedupRangeMap \<Rightarrow> nat" where
  "DedupRangeMap_size v = (if v = [] then 0 else range_end (last v))"

definition elem_cmp :: "nat \<Rightarrow> 'a elem \<Rightarrow> ordering" where
  "elem_cmp offset elem =
     (if offset < range_start elem then Greater
      else if offset \<ge> range_end elem then Less
      else Equal)"

definition DedupRangeMap_find_offset :: "'a DedupRangeMap \<Rightarrow> nat \<Rightarrow> ('e, nat) outcome" where
  "DedupRangeMap_find_offset v offset =
     (case binary_search_by (elem_cmp offset) v of Inr idx \<Rightarrow> Ok idx | Inl _ \<Rightarrow> Panic)"

definition DedupRangeMap_iter ::
  "'a DedupRangeMap \<Rightarrow> nat \<Rightarrow> nat \<Rightarrow> ('e, ((nat \<times> nat) \<times> 'a) list) outcome" where
  "DedupRangeMap_iter v offset len =
     obind (if len = 0 then Ok []
            else obind (DedupRangeMap_find_offset v offset) (\<lambda>first_idx. Ok (drop first_idx v)))
       (\<lambda>slice. obind (add_u64 offset len)
         (\<lambda>end. obind (check (end \<le> DedupRangeMap_size v))
           (\<lambda>_. Ok (map (\<lambda>elem. ((range_start elem, range_end elem), data elem))
                  (takeWhile (\<lambda>elem. range_start elem < end) slice)))))"

definition DedupRangeMap_iter_all :: "'a DedupRangeMap \<Rightarrow> ((nat \<times> nat) \<times> 'a) list" where
  "DedupRangeMap_iter_all v = map (\<lambda>elem. ((range_start elem, range_end elem), data elem)) v"

definition DedupRangeMap_split_index ::
  "'a DedupRangeMap \<Rightarrow> nat \<Rightarrow> nat \<Rightarrow> ('e, 'a DedupRangeMap \<times> bool) outcome" where
  "DedupRangeMap_split_index v index split_offset =
     obind (vec_get v index) (\<lambda>elem.
       if split_offset = range_start elem \<or> split_offset = range_end elem then Ok (v, False)
       else obind (check (range_start elem \<le> split_offset \<and> split_offset < range_end elem)) (\<lambda>_.
         let second = \<lparr>range_start = split_offset, range_end = range_end elem, data = data elem\<rparr> in
         obind (vec_insert (index + 1) second (v[index := elem\<lparr>range_end := split_offset\<rparr>]))
           (\<lambda>v'. Ok (v', True))))"

text \<open>
  The scan of \<open>iter_mut\<close>: looks for the last element of the range and merges runs of equal
  neighbours on the way. It returns the map and the first index past the range.
\<close>

function iter_mut_scan ::
  "('a \<Rightarrow> 'a \<Rightarrow> bool) \<Rightarrow> nat \<Rightarrow> 'a DedupRangeMap \<Rightarrow> nat \<Rightarrow> nat \<Rightarrow> nat \<Rightarrow> ('e, 'a DedupRangeMap \<times> nat) outcome"
where
  "iter_mut_scan eq stop v equal_since_idx successful_merge_count end_idx =
     (if end_idx \<ge> length v then Panic
      else
        let done = (range_end (v ! end_idx) \<ge> stop); end_idx = end_idx + 1 in
        if \<not> (done \<or> end_idx < length v) then Panic
        else if successful_merge_count > 0 \<and>
            (done \<or> \<not> eq (data (v ! end_idx)) (data (v ! equal_since_idx)))
        then
          let removed_elems = end_idx - equal_since_idx - 1 in
          if removed_elems > 0
          then
            let equal_until = range_end (v ! (end_idx - 1));
                w = v[equal_since_idx := (v ! equal_since_idx)\<lparr>range_end := equal_until\<rparr>];
                w = take (equal_since_idx + 1) w @ drop end_idx w;
                end_idx = end_idx - removed_elems
            in if done then Ok (w, end_idx)
               else iter_mut_scan eq stop w end_idx (successful_merge_count + removed_elems) end_idx
          else if done then Ok (v, end_idx)
               else iter_mut_scan eq stop v end_idx (successful_merge_count - 1) end_idx
        else if done then Ok (v, end_idx)
             else iter_mut_scan eq stop v equal_since_idx successful_merge_count end_idx)"
  by pat_completeness auto
termination
  by (relation "measure (\<lambda>(eq, stop, v, since, count, end_idx). length v - end_idx)") auto

declare iter_mut_scan.simps [simp del]

definition DedupRangeMap_iter_mut ::
  "('a \<Rightarrow> 'a \<Rightarrow> bool) \<Rightarrow> 'a DedupRangeMap \<Rightarrow> nat \<Rightarrow> nat \<Rightarrow> ('e, 'a DedupRangeMap \<times> nat \<times> nat) outcome" where
  "DedupRangeMap_iter_mut eq v offset len =
     (if len = 0 then Ok (v, 0, 0)
      else
        obind (DedupRangeMap_find_offset v offset) (\<lambda>first_idx.
        obind (DedupRangeMap_split_index v first_idx offset) (\<lambda>(v, split).
        let first_idx = (if split then first_idx + 1 else first_idx) in
        obind (add_u64 offset len) (\<lambda>stop.
        obind (iter_mut_scan eq stop v first_idx 3 first_idx) (\<lambda>(v, end_idx).
        let end_idx = end_idx - 1 in
        obind (DedupRangeMap_split_index v end_idx stop) (\<lambda>(v, _).
        Ok (v, first_idx, end_idx + 1)))))))"

text \<open>One step of a loop over the yielded slice, and the loop.\<close>

definition elem_visit ::
  "(nat \<times> nat \<Rightarrow> 'a \<Rightarrow> 's \<Rightarrow> ('e, 'a \<times> 's) outcome) \<Rightarrow> nat \<Rightarrow> 'a DedupRangeMap \<times> 's \<Rightarrow>
     ('e, 'a DedupRangeMap \<times> 's) outcome" where
  "elem_visit f i = (\<lambda>(v, s).
     obind (vec_get v i) (\<lambda>elem.
     obind (f (range_start elem, range_end elem) (data elem) s) (\<lambda>(d, s).
     Ok (v[i := elem\<lparr>data := d\<rparr>], s))))"

definition DedupRangeMap_for_each ::
  "('a \<Rightarrow> 'a \<Rightarrow> bool) \<Rightarrow> (nat \<times> nat \<Rightarrow> 'a \<Rightarrow> 's \<Rightarrow> ('e, 'a \<times> 's) outcome) \<Rightarrow>
     'a DedupRangeMap \<Rightarrow> nat \<Rightarrow> nat \<Rightarrow> 's \<Rightarrow> ('e, 'a DedupRangeMap \<times> 's) outcome" where
  "DedupRangeMap_for_each eq f v offset len s =
     obind (DedupRangeMap_iter_mut eq v offset len) (\<lambda>(v, first_idx, end_idx).
       ofold (elem_visit f) [first_idx..<end_idx] (v, s))"

text \<open>\<open>iter_mut_all\<close>: the same loop over the whole vector, without splitting or merging.\<close>

definition DedupRangeMap_iter_mut_all ::
  "(nat \<times> nat \<Rightarrow> 'a \<Rightarrow> 's \<Rightarrow> ('e, 'a \<times> 's) outcome) \<Rightarrow> 'a DedupRangeMap \<Rightarrow> 's \<Rightarrow>
     ('e, 'a DedupRangeMap \<times> 's) outcome" where
  "DedupRangeMap_iter_mut_all f v s = ofold (elem_visit f) [0..<length v] (v, s)"

definition merge_push :: "('a \<Rightarrow> 'a \<Rightarrow> bool) \<Rightarrow> 'a elem \<Rightarrow> 'a DedupRangeMap \<Rightarrow> ('e, 'a DedupRangeMap) outcome" where
  "merge_push eq elem v =
     (if v \<noteq> [] \<and> eq (data (last v)) (data elem)
      then obind (check (range_end (last v) = range_start elem))
             (\<lambda>_. Ok (butlast v @ [(last v)\<lparr>range_end := range_end elem\<rparr>]))
      else Ok (v @ [elem]))"

definition DedupRangeMap_merge_adjacent_thorough ::
  "('a \<Rightarrow> 'a \<Rightarrow> bool) \<Rightarrow> 'a DedupRangeMap \<Rightarrow> ('e, 'a DedupRangeMap) outcome" where
  "DedupRangeMap_merge_adjacent_thorough eq v = ofold (merge_push eq) v []"

section \<open>Invariant and abstraction\<close>

text \<open>
  The elements are adjacent, none is empty, and they start at a given offset. \<open>chain_end\<close> is where
  they stop, and \<open>lookup\<close> is the function from offsets to data that the vector stands for.
\<close>

fun contiguous :: "nat \<Rightarrow> 'a DedupRangeMap \<Rightarrow> bool" where
  "contiguous s [] = True"
| "contiguous s (e # v) = (range_start e = s \<and> s < range_end e \<and> contiguous (range_end e) v)"

fun chain_end :: "nat \<Rightarrow> 'a DedupRangeMap \<Rightarrow> nat" where
  "chain_end s [] = s"
| "chain_end s (e # v) = chain_end (range_end e) v"

definition covers :: "'a elem \<Rightarrow> nat \<Rightarrow> bool" where
  "covers e i \<longleftrightarrow> range_start e \<le> i \<and> i < range_end e"

fun lookup :: "'a DedupRangeMap \<Rightarrow> nat \<Rightarrow> 'a option" where
  "lookup [] i = None"
| "lookup (e # v) i = (if covers e i then Some (data e) else lookup v i)"

definition map_inv :: "'a DedupRangeMap \<Rightarrow> bool" where
  "map_inv v \<longleftrightarrow> contiguous 0 v \<and> DedupRangeMap_size v < 2 ^ 64"

lemma contiguous_append [simp]: "contiguous s (u @ v) \<longleftrightarrow> contiguous s u \<and> contiguous (chain_end s u) v"
  by (induction u arbitrary: s) auto

lemma chain_end_append [simp]: "chain_end s (u @ v) = chain_end (chain_end s u) v"
  by (induction u arbitrary: s) auto

lemma chain_end_ge: "contiguous s v \<Longrightarrow> s \<le> chain_end s v"
  by (induction v arbitrary: s) (auto, fastforce)

lemma chain_end_last: "v \<noteq> [] \<Longrightarrow> chain_end s v = range_end (last v)"
  by (induction v arbitrary: s) auto

lemma size_chain_end: "DedupRangeMap_size v = chain_end 0 v"
  by (simp add: DedupRangeMap_size_def chain_end_last)

lemma contiguous_bounds:
  "contiguous s v \<Longrightarrow> e \<in> set v \<Longrightarrow> s \<le> range_start e \<and> range_start e < range_end e \<and> range_end e \<le> chain_end s v"
proof (induction v arbitrary: s)
  case Nil
  then show ?case by simp
next
  case (Cons x v)
  then show ?case using chain_end_ge [of "range_end x" v] by fastforce
qed

lemma lookup_append: "lookup (u @ v) i = (case lookup u i of None \<Rightarrow> lookup v i | Some d \<Rightarrow> Some d)"
  by (induction u) auto

lemma lookup_outside: "contiguous s v \<Longrightarrow> i < s \<or> chain_end s v \<le> i \<Longrightarrow> lookup v i = None"
proof (induction v arbitrary: s)
  case Nil
  then show ?case by simp
next
  case (Cons e v)
  then show ?case using chain_end_ge [of "range_end e" v] by (auto simp: covers_def)
qed

lemma lookup_inside: "contiguous s v \<Longrightarrow> s \<le> i \<Longrightarrow> i < chain_end s v \<Longrightarrow> \<exists>d. lookup v i = Some d"
  by (induction v arbitrary: s) (auto simp: covers_def)

lemma lookup_Some_iff:
  assumes "map_inv v"
  shows "(\<exists>d. lookup v i = Some d) \<longleftrightarrow> i < DedupRangeMap_size v"
  using assms lookup_inside [of 0 v i] lookup_outside [of 0 v i]
  by (cases "i < DedupRangeMap_size v") (auto simp: map_inv_def size_chain_end)

lemma contiguous_order:
  assumes "contiguous s v" "i < j" "j < length v"
  shows "range_end (v ! i) \<le> range_start (v ! j)"
proof -
  have v: "v = take j v @ v ! j # drop (Suc j) v"
    using assms(3) by (rule id_take_nth_drop)
  from assms(1) have "contiguous s (take j v @ v ! j # drop (Suc j) v)"
    by (simp only: v [symmetric])
  then have c: "contiguous s (take j v)" "range_start (v ! j) = chain_end s (take j v)"
    by simp_all
  have "v ! i \<in> set (take j v)"
    using assms nth_mem [of i "take j v"] by simp
  with c contiguous_bounds [of s "take j v" "v ! i"] show ?thesis by simp
qed

interpretation elems: ordered_slice elem_cmp "\<lambda>v. \<exists>s. contiguous s v"
proof unfold_locales
  fix v :: "'a DedupRangeMap" and i j offset
  assume "\<exists>s. contiguous s v" "i < j" "j < length v"
  then obtain s where "contiguous s v" by blast
  with \<open>i < j\<close> \<open>j < length v\<close>
  show "elem_cmp offset (v ! i) = Less \<or> elem_cmp offset (v ! j) = Greater"
    using contiguous_order [of s v i j] contiguous_bounds [of s v "v ! i"]
    by (auto simp: elem_cmp_def)
qed

lemma elem_cmp_Equal [simp]: "elem_cmp offset e = Equal \<longleftrightarrow> covers e offset"
  by (auto simp: elem_cmp_def covers_def)

lemma covers_unique:
  assumes "contiguous s v" "i < length v" "j < length v" "covers (v ! i) k" "covers (v ! j) k"
  shows "i = j"
  using assms contiguous_order [of s v i j] contiguous_order [of s v j i]
  by (cases i j rule: linorder_cases) (auto simp: covers_def)

lemma covering_elem:
  "contiguous s v \<Longrightarrow> s \<le> k \<Longrightarrow> k < chain_end s v \<Longrightarrow> \<exists>i<length v. covers (v ! i) k"
proof (induction v arbitrary: s)
  case Nil
  then show ?case by simp
next
  case (Cons e v)
  show ?case
  proof (cases "k < range_end e")
    case True
    with Cons.prems show ?thesis by (intro exI [of _ 0]) (simp add: covers_def)
  next
    case False
    with Cons obtain i where "i < length v" "covers (v ! i) k" by force
    then show ?thesis by (intro exI [of _ "Suc i"]) simp
  qed
qed

lemma lookup_nth: "contiguous s v \<Longrightarrow> i < length v \<Longrightarrow> covers (v ! i) k \<Longrightarrow> lookup v k = Some (data (v ! i))"
proof (induction v arbitrary: s i)
  case Nil
  then show ?case by simp
next
  case (Cons e v)
  show ?case
  proof (cases i)
    case 0
    with Cons.prems show ?thesis by simp
  next
    case (Suc j)
    with Cons.prems have "\<not> covers e k"
      using covers_unique [of s "e # v" 0 i k] by auto
    with Cons Suc show ?thesis by auto
  qed
qed

text \<open>\<open>find_offset\<close> returns the index of the element that covers the offset.\<close>

lemma find_offset_covers:
  assumes "contiguous 0 v" "i < length v" "covers (v ! i) offset"
  shows "DedupRangeMap_find_offset v offset = Ok i"
proof -
  from assms have "binary_search_by (elem_cmp offset) v = Inr i"
    by (intro elems.search_complete) auto
  then show ?thesis by (simp add: DedupRangeMap_find_offset_def)
qed

lemma find_offset_Ok:
  assumes "contiguous 0 v" "offset < DedupRangeMap_size v"
  shows "\<exists>i<length v. DedupRangeMap_find_offset v offset = Ok i \<and> covers (v ! i) offset"
  using assms covering_elem [of 0 v offset] find_offset_covers [of v _ offset]
  by (auto simp: size_chain_end)

section \<open>Splitting and merging keep what the map stands for\<close>

definition same_lookup :: "('a \<Rightarrow> 'a \<Rightarrow> bool) \<Rightarrow> 'a DedupRangeMap \<Rightarrow> 'a DedupRangeMap \<Rightarrow> bool" where
  "same_lookup eq v w \<longleftrightarrow> (\<forall>i. rel_option eq (lookup v i) (lookup w i))"

lemma same_lookup_refl: "equivp eq \<Longrightarrow> same_lookup eq v v"
  by (simp add: same_lookup_def equivp_reflp option.rel_refl)

lemma same_lookup_eq: "equivp eq \<Longrightarrow> lookup v = lookup w \<Longrightarrow> same_lookup eq v w"
  by (simp add: same_lookup_def equivp_reflp option.rel_refl)

lemma same_lookup_trans: "equivp eq \<Longrightarrow> same_lookup eq u v \<Longrightarrow> same_lookup eq v w \<Longrightarrow> same_lookup eq u w"
  unfolding same_lookup_def by (metis equivp_def option.rel_transp transpD transpI equivp_transp)

lemma split_index_inside:
  assumes "range_start e < off" "off < range_end e"
  shows "DedupRangeMap_split_index (A @ e # B) (length A) off =
    Ok (A @ e\<lparr>range_end := off\<rparr> # \<lparr>range_start = off, range_end = range_end e, data = data e\<rparr> # B, True)"
  using assms by (simp add: DedupRangeMap_split_index_def Let_def)

lemma split_index_edge:
  assumes "off = range_start e \<or> off = range_end e"
  shows "DedupRangeMap_split_index (A @ e # B) (length A) off = Ok (A @ e # B, False)"
  using assms by (simp add: DedupRangeMap_split_index_def)

lemma lookup_split:
  assumes "range_start e < off" "off < range_end e"
  shows "lookup (A @ e\<lparr>range_end := off\<rparr> # \<lparr>range_start = off, range_end = range_end e, data = data e\<rparr> # B) =
    lookup (A @ e # B)"
  using assms by (auto simp: fun_eq_iff lookup_append covers_def split: option.split)

lemma lookup_in_set: "lookup v i = Some d \<Longrightarrow> \<exists>e\<in>set v. covers e i \<and> d = data e"
  by (induction v) (auto split: if_splits)

lemma lookup_run:
  assumes "equivp eq" and "contiguous s (x # M)" and "\<forall>m\<in>set M. eq (data m) (data x)"
  shows "rel_option eq (lookup (x # M) i) (lookup [x\<lparr>range_end := chain_end s (x # M)\<rparr>] i)"
proof (cases "s \<le> i \<and> i < chain_end s (x # M)")
  case True
  then obtain d where d: "lookup (x # M) i = Some d"
    using lookup_inside [OF assms(2)] by blast
  then have "eq d (data x)"
    using lookup_in_set [OF d] assms(1,3) by (auto simp: equivp_reflp)
  with d True assms(2) show ?thesis by (simp add: covers_def)
next
  case False
  then have "lookup (x # M) i = None"
    by (intro lookup_outside [OF assms(2)]) linarith
  with False assms(2) show ?thesis by (auto simp: covers_def)
qed

lemma merge_run:
  assumes "equivp eq" and "contiguous 0 (A @ x # M @ B)" and "\<forall>m\<in>set M. eq (data m) (data x)"
    and w: "w = A @ x\<lparr>range_end := range_end (last (x # M))\<rparr> # B"
  shows "contiguous 0 w" "chain_end 0 w = chain_end 0 (A @ x # M @ B)" "same_lookup eq (A @ x # M @ B) w"
proof -
  let ?s = "chain_end 0 A"
  have c: "contiguous ?s (x # M)" using assms(2) by simp
  have end_eq: "range_end (last (x # M)) = chain_end ?s (x # M)"
    by (simp add: chain_end_last)
  have "?s < chain_end ?s (x # M)"
    using c chain_end_ge [of "range_end x" M] by simp
  with assms(2) show "contiguous 0 w" unfolding w end_eq by simp
  show "chain_end 0 w = chain_end 0 (A @ x # M @ B)" unfolding w end_eq by simp
  have "rel_option eq (lookup (A @ (x # M) @ B) i) (lookup (A @ [x\<lparr>range_end := chain_end ?s (x # M)\<rparr>] @ B) i)" for i
    using lookup_run [OF assms(1) c assms(3), of i] assms(1)
    unfolding lookup_append [of A] lookup_append [of "x # M"] lookup_append [of "[_]"]
    by (auto split: option.split simp: option.rel_refl equivp_reflp simp del: lookup.simps)
  then show "same_lookup eq (A @ x # M @ B) w"
    unfolding same_lookup_def w end_eq by simp
qed

lemma run_decomp:
  assumes "since \<le> k" "k < length v"
  shows "v = take since v @ v ! since # drop (Suc since) (take (Suc k) v) @ drop (Suc k) v"
proof -
  have "drop since v = v ! since # drop (Suc since) v"
    using assms by (simp add: Cons_nth_drop_Suc)
  moreover have "drop (Suc since) v = drop (Suc since) (take (Suc k) v) @ drop (Suc k) v"
    using assms drop_append [of "Suc since" "take (Suc k) v" "drop (Suc k) v"] by simp
  ultimately show ?thesis by (metis append_take_drop_id)
qed

lemma merge_indices:
  assumes "equivp eq" "contiguous 0 v" "since \<le> k" "k < length v"
    and "\<forall>i. since \<le> i \<and> i \<le> k \<longrightarrow> eq (data (v ! i)) (data (v ! since))"
    and w: "w = take (since + 1) (v[since := (v ! since)\<lparr>range_end := range_end (v ! k)\<rparr>]) @
              drop (Suc k) (v[since := (v ! since)\<lparr>range_end := range_end (v ! k)\<rparr>])"
  shows "contiguous 0 w" "chain_end 0 w = chain_end 0 v" "same_lookup eq v w"
    "length w = since + (length v - k)" "w ! since = (v ! since)\<lparr>range_end := range_end (v ! k)\<rparr>"
    "\<And>i. k < i \<Longrightarrow> i < length v \<Longrightarrow> w ! (since + (i - k)) = v ! i"
    "take since w = take since v"
proof -
  let ?A = "take since v" and ?x = "v ! since" and ?M = "drop (Suc since) (take (Suc k) v)" and ?B = "drop (Suc k) v"
  have last: "last (?x # ?M) = v ! k"
    using assms(3,4) by (cases "since = k") (auto simp: last_conv_nth)
  have w': "w = ?A @ ?x\<lparr>range_end := range_end (last (?x # ?M))\<rparr> # ?B"
    unfolding w last using assms(3,4) by (simp add: take_Suc_conv_app_nth)
  have "\<forall>m\<in>set ?M. eq (data m) (data ?x)"
    using assms(3-5) by (auto simp: in_set_conv_nth)
  from merge_run [OF assms(1) _ this w'] assms(2) run_decomp [OF assms(3,4)]
  show "contiguous 0 w" "chain_end 0 w = chain_end 0 v" "same_lookup eq v w" by metis+
  show "length w = since + (length v - k)" "w ! since = ?x\<lparr>range_end := range_end (v ! k)\<rparr>"
    "take since w = take since v"
    using assms(3,4) unfolding w' last by (auto simp: nth_append)
  show "w ! (since + (i - k)) = v ! i" if "k < i" "i < length v" for i
    using that assms(3,4) unfolding w' by (auto simp: nth_append)
qed

lemma contiguous_adjacent:
  assumes "contiguous s v" "Suc i < length v"
  shows "range_start (v ! Suc i) = range_end (v ! i)"
proof -
  have "v = take (Suc i) v @ v ! Suc i # drop (Suc (Suc i)) v"
    using assms(2) by (rule id_take_nth_drop)
  with assms(1) have "range_start (v ! Suc i) = chain_end s (take (Suc i) v)"
    by (metis contiguous_append contiguous.simps(2))
  also have "\<dots> = range_end (v ! i)"
    using assms(2) by (subst chain_end_last) (auto simp: take_Suc_conv_app_nth)
  finally show ?thesis .
qed

lemma contiguous_nth: "contiguous s v \<Longrightarrow> i < length v \<Longrightarrow> range_start (v ! i) < range_end (v ! i)"
  using contiguous_bounds [of s v "v ! i"] by simp

lemma not_done_next:
  assumes "contiguous 0 v" "k < length v" "range_end (v ! k) < stop" "stop \<le> chain_end 0 v"
  shows "Suc k < length v" "range_start (v ! Suc k) < stop"
proof -
  show *: "Suc k < length v"
  proof (rule ccontr)
    assume "\<not> Suc k < length v"
    with assms(2) have "k = length v - 1" "v \<noteq> []" by auto
    then have "v ! k = last v" "v \<noteq> []" by (simp_all add: last_conv_nth)
    with assms(3,4) show False by (simp add: chain_end_last)
  qed
  from contiguous_adjacent [OF assms(1) *] assms(3) show "range_start (v ! Suc k) < stop" by simp
qed

text \<open>
  The scan: it ends, keeps the invariant and the lookups, does not touch what lies before the range,
  and the element before the returned index contains the last byte of the range.
\<close>

definition scan_post ::
  "('a \<Rightarrow> 'a \<Rightarrow> bool) \<Rightarrow> nat \<Rightarrow> nat \<Rightarrow> 'a DedupRangeMap \<Rightarrow> ('e, 'a DedupRangeMap \<times> nat) outcome \<Rightarrow> bool" where
  "scan_post eq stop first v r \<longleftrightarrow> (\<exists>w k. r = Ok (w, k) \<and> contiguous 0 w \<and>
     chain_end 0 w = chain_end 0 v \<and> same_lookup eq v w \<and> first < k \<and> k \<le> length w \<and>
     range_start (w ! (k - 1)) < stop \<and> stop \<le> range_end (w ! (k - 1)) \<and>
     range_start (w ! first) = range_start (v ! first))"

lemma scan_post_trans:
  assumes "equivp eq" "same_lookup eq v w" "chain_end 0 w = chain_end 0 v"
    and "range_start (w ! first) = range_start (v ! first)" "scan_post eq stop first w r"
  shows "scan_post eq stop first v r"
proof -
  obtain u k where "r = Ok (u, k)" "contiguous 0 u" "chain_end 0 u = chain_end 0 w" "same_lookup eq w u"
    "first < k" "k \<le> length u" "range_start (u ! (k - 1)) < stop" "stop \<le> range_end (u ! (k - 1))"
    "range_start (u ! first) = range_start (w ! first)"
    using assms(5) unfolding scan_post_def by blast
  moreover have "same_lookup eq v u"
    by (rule same_lookup_trans) fact+
  ultimately show ?thesis
    unfolding scan_post_def using assms(3,4) by auto
qed

lemma scan_step:
  assumes "end_idx < length v" "stop \<le> range_end (v ! end_idx) \<or> Suc end_idx < length v" "since \<le> end_idx"
  shows "iter_mut_scan eq stop v since count end_idx =
    (if 0 < count \<and> (stop \<le> range_end (v ! end_idx) \<or> \<not> eq (data (v ! Suc end_idx)) (data (v ! since)))
     then if since < end_idx
       then let w = take (since + 1) (v[since := (v ! since)\<lparr>range_end := range_end (v ! end_idx)\<rparr>]) @
                  drop (Suc end_idx) (v[since := (v ! since)\<lparr>range_end := range_end (v ! end_idx)\<rparr>])
            in if stop \<le> range_end (v ! end_idx) then Ok (w, Suc since)
               else iter_mut_scan eq stop w (Suc since) (count + (end_idx - since)) (Suc since)
       else if stop \<le> range_end (v ! end_idx) then Ok (v, Suc end_idx)
            else iter_mut_scan eq stop v (Suc end_idx) (count - 1) (Suc end_idx)
     else if stop \<le> range_end (v ! end_idx) then Ok (v, Suc end_idx)
          else iter_mut_scan eq stop v since count (Suc end_idx))"
proof -
  have "Suc end_idx - (end_idx - since) = Suc since" using assms(3) by simp
  with assms show ?thesis
    by (cases "stop \<le> range_end (v ! end_idx)"; subst iter_mut_scan.simps; simp add: Let_def)
qed

lemma iter_mut_scan_correct:
  fixes v :: "'a DedupRangeMap"
  assumes "equivp eq"
  shows "\<lbrakk>contiguous 0 v; first \<le> since; since \<le> end_idx; end_idx < length v;
      range_start (v ! end_idx) < stop; stop \<le> chain_end 0 v;
      0 < count \<longrightarrow> (\<forall>i. since \<le> i \<and> i \<le> end_idx \<longrightarrow> eq (data (v ! i)) (data (v ! since)))\<rbrakk>
    \<Longrightarrow> scan_post eq stop first v
      (iter_mut_scan eq stop v since count end_idx :: ('e, 'a DedupRangeMap \<times> nat) outcome)"
proof (induction "length v - end_idx" arbitrary: v since count end_idx rule: less_induct)
  case less
  note prems = less.prems
  let ?scan = "iter_mut_scan eq stop ::
    'a DedupRangeMap \<Rightarrow> nat \<Rightarrow> nat \<Rightarrow> nat \<Rightarrow> ('e, 'a DedupRangeMap \<times> nat) outcome"
  let ?Ok = "Ok :: 'a DedupRangeMap \<times> nat \<Rightarrow> ('e, 'a DedupRangeMap \<times> nat) outcome"
  let ?done = "stop \<le> range_end (v ! end_idx)"
  have next_idx: "Suc end_idx < length v \<and> range_start (v ! Suc end_idx) < stop" if "\<not> ?done"
    using not_done_next [OF prems(1,4) _ prems(6)] that by simp
  have step: "?done \<or> Suc end_idx < length v" using next_idx by blast
  note unfold = scan_step [OF prems(4) step prems(3)]
  have finished: "scan_post eq stop first v (?Ok (v, Suc end_idx))" if ?done
    using that prems same_lookup_refl [OF assms] by (auto simp: scan_post_def)
  show ?case
  proof (cases "0 < count \<and> (?done \<or> \<not> eq (data (v ! Suc end_idx)) (data (v ! since)))")
    case block: True
    show ?thesis
    proof (cases "since < end_idx")
      case merge: True
      let ?u = "v[since := (v ! since)\<lparr>range_end := range_end (v ! end_idx)\<rparr>]"
      define w where "w = take (since + 1) ?u @ drop (Suc end_idx) ?u"
      have same: "\<forall>i. since \<le> i \<and> i \<le> end_idx \<longrightarrow> eq (data (v ! i)) (data (v ! since))"
        using prems(7) block by simp
      note m = merge_indices [OF assms prems(1,3,4) same w_def]
      have w_first: "range_start (w ! first) = range_start (v ! first)"
        using m(5) nth_take [of first since w] nth_take [of first since v] m(7) prems(2)
        by (cases "first = since") auto
      have start: "range_start (v ! since) < stop"
        using contiguous_order [OF prems(1) merge prems(4)] prems(1,4,5) merge
          contiguous_nth [OF prems(1), of since] by simp
      show ?thesis
      proof (cases ?done)
        case True
        have "scan_post eq stop first v (?Ok (w, Suc since))"
          using m w_first start True prems(2,4) by (auto simp: scan_post_def)
        with block merge True show ?thesis by (simp add: unfold Let_def w_def)
      next
        case False
        with next_idx have n: "Suc end_idx < length v" "range_start (v ! Suc end_idx) < stop" by auto
        have "w ! Suc since = v ! Suc end_idx" using m(6) [of "Suc end_idx"] n by simp
        then have "scan_post eq stop first w
            (?scan w (Suc since) (count + (end_idx - since)) (Suc since))"
          using m(1,2,4) n prems merge assms by (intro less.hyps) (auto simp: equivp_reflp le_antisym)
        then have "scan_post eq stop first v
            (?scan w (Suc since) (count + (end_idx - since)) (Suc since))"
          using scan_post_trans [OF assms m(3,2) w_first] by blast
        with block merge False show ?thesis by (simp add: unfold Let_def w_def)
      qed
    next
      case False
      have "scan_post eq stop first v (?scan v (Suc end_idx) (count - 1) (Suc end_idx))"
        if "\<not> ?done"
        using next_idx [OF that] prems assms
        by (intro less.hyps) (auto simp: equivp_reflp le_antisym)
      with block False finished show ?thesis by (simp add: unfold)
    qed
  next
    case False
    have "scan_post eq stop first v (?scan v since count (Suc end_idx))" if "\<not> ?done"
      using next_idx [OF that] prems assms False
      by (intro less.hyps) (auto simp: le_Suc_eq)
    with False finished show ?thesis by (auto simp: unfold)
  qed
qed

lemma split_index_correct:
  fixes v :: "'a DedupRangeMap"
  assumes "contiguous 0 v" "i < length v" "range_start (v ! i) \<le> off" "off \<le> range_end (v ! i)"
  shows "\<exists>w b. DedupRangeMap_split_index v i off = (Ok (w, b) :: ('e, 'a DedupRangeMap \<times> bool) outcome) \<and>
    contiguous 0 w \<and> chain_end 0 w = chain_end 0 v \<and> lookup w = lookup v \<and>
    i < length w \<and> (\<forall>j\<le>i. range_start (w ! j) = range_start (v ! j)) \<and>
    (if b then Suc i < length w \<and> range_start (w ! Suc i) = off \<and> range_end (w ! i) = off
     else w = v \<and> (off = range_start (v ! i) \<or> off = range_end (v ! i)))"
proof -
  let ?A = "take i v" and ?e = "v ! i" and ?B = "drop (Suc i) v"
  have v: "v = ?A @ ?e # ?B" and i: "i = length ?A" using assms(2) by (simp_all add: id_take_nth_drop)
  show ?thesis
  proof (cases "off = range_start ?e \<or> off = range_end ?e")
    case True
    then have "DedupRangeMap_split_index v i off = (Ok (v, False) :: ('e, 'a DedupRangeMap \<times> bool) outcome)"
      using split_index_edge [of off ?e ?A ?B] v i by metis
    with assms True show ?thesis by auto
  next
    case False
    with assms(3,4) have in_e: "range_start ?e < off" "off < range_end ?e" by auto
    let ?w = "?A @ ?e\<lparr>range_end := off\<rparr> # \<lparr>range_start = off, range_end = range_end ?e, data = data ?e\<rparr> # ?B"
    have "DedupRangeMap_split_index v i off = (Ok (?w, True) :: ('e, 'a DedupRangeMap \<times> bool) outcome)"
      using split_index_inside [OF in_e, of ?A ?B] v i by metis
    moreover have "contiguous 0 (?A @ ?e # ?B)" using assms(1) v by metis
    then have "contiguous 0 ?w" using in_e by simp
    moreover have "chain_end 0 ?w = chain_end 0 (?A @ ?e # ?B)" by simp
    then have "chain_end 0 ?w = chain_end 0 v" using v by metis
    moreover have "lookup ?w = lookup v" using lookup_split [OF in_e, of ?A ?B] v by metis
    moreover have "\<forall>j\<le>i. range_start (?w ! j) = range_start (v ! j)"
      using assms(2) by (auto simp: nth_append)
    ultimately show ?thesis using assms(2)
      by (intro exI [of _ ?w] exI [of _ True]) (auto simp: nth_append)
  qed
qed

lemma iter_mut_correct:
  fixes v :: "'a DedupRangeMap"
  assumes "equivp eq" "map_inv v" "0 < len" "offset + len \<le> DedupRangeMap_size v"
  shows "\<exists>w a b. DedupRangeMap_iter_mut eq v offset len = (Ok (w, a, b) :: ('e, 'a DedupRangeMap \<times> nat \<times> nat) outcome) \<and>
    map_inv w \<and> DedupRangeMap_size w = DedupRangeMap_size v \<and> same_lookup eq v w \<and>
    a < b \<and> b \<le> length w \<and> range_start (w ! a) = offset \<and> range_end (w ! (b - 1)) = offset + len"
proof -
  let ?stop = "offset + len"
  have c: "contiguous 0 v" and sz: "chain_end 0 v < 2 ^ 64" and stop: "?stop \<le> chain_end 0 v"
    using assms(2,4) by (simp_all add: map_inv_def size_chain_end)
  obtain i where i: "i < length v" "DedupRangeMap_find_offset v offset = (Ok i :: ('e, nat) outcome)"
    "covers (v ! i) offset"
    using find_offset_Ok [OF c, of offset] assms(3,4) by auto
  obtain u b where u: "DedupRangeMap_split_index v i offset = (Ok (u, b) :: ('e, 'a DedupRangeMap \<times> bool) outcome)"
    "contiguous 0 u" "chain_end 0 u = chain_end 0 v" "lookup u = lookup v" "i < length u"
    "\<forall>j\<le>i. range_start (u ! j) = range_start (v ! j)"
    "if b then Suc i < length u \<and> range_start (u ! Suc i) = offset \<and> range_end (u ! i) = offset
     else u = v \<and> (offset = range_start (v ! i) \<or> offset = range_end (v ! i))"
    using split_index_correct [OF c i(1), of offset, where 'e = 'e] i(3) by (auto simp: covers_def)
  let ?a = "if b then i + 1 else i"
  have a: "?a < length u" "range_start (u ! ?a) = offset"
    using u(5,6,7) i(3) by (auto simp: covers_def split: if_splits)
  have "scan_post eq ?stop ?a u (iter_mut_scan eq ?stop u ?a 3 ?a :: ('e, 'a DedupRangeMap \<times> nat) outcome)"
    using a u(2,3) stop assms(1,3) by (intro iter_mut_scan_correct) (auto simp: equivp_reflp le_antisym)
  then obtain w k where w: "iter_mut_scan eq ?stop u ?a 3 ?a = (Ok (w, k) :: ('e, 'a DedupRangeMap \<times> nat) outcome)"
    "contiguous 0 w" "chain_end 0 w = chain_end 0 u" "same_lookup eq u w" "?a < k" "k \<le> length w"
    "range_start (w ! (k - 1)) < ?stop" "?stop \<le> range_end (w ! (k - 1))"
    "range_start (w ! ?a) = range_start (u ! ?a)"
    unfolding scan_post_def by blast
  obtain x b' where x: "DedupRangeMap_split_index w (k - 1) ?stop = (Ok (x, b') :: ('e, 'a DedupRangeMap \<times> bool) outcome)"
    "contiguous 0 x" "chain_end 0 x = chain_end 0 w" "lookup x = lookup w" "k - 1 < length x"
    "\<forall>j\<le>k - 1. range_start (x ! j) = range_start (w ! j)"
    "if b' then Suc (k - 1) < length x \<and> range_start (x ! Suc (k - 1)) = ?stop \<and> range_end (x ! (k - 1)) = ?stop
     else x = w \<and> (?stop = range_start (w ! (k - 1)) \<or> ?stop = range_end (w ! (k - 1)))"
    using split_index_correct [OF w(2), of "k - 1" ?stop, where 'e = 'e] w(5-8) by fastforce
  have x_end: "range_end (x ! (k - 1)) = ?stop" using x(7) w(7) by (auto split: if_splits)
  have "same_lookup eq v x"
    using w(4) u(4) x(4) by (simp add: same_lookup_def)
  moreover have "DedupRangeMap_iter_mut eq v offset len = (Ok (x, ?a, k) :: ('e, 'a DedupRangeMap \<times> nat \<times> nat) outcome)"
    using i u(1) w(1,5) x(1) stop sz assms(3) by (simp add: DedupRangeMap_iter_mut_def Let_def)
  moreover have "range_start (x ! ?a) = offset"
    using x(6) w(5,9) a(2) by simp
  ultimately show ?thesis
    using x(2,3,5) w(3,5) u(3) sz x_end
    by (intro exI [of _ x] exI [of _ ?a] exI [of _ k]) (simp add: map_inv_def size_chain_end)
qed

section \<open>Loops over the yielded slice\<close>

definition same_ranges :: "'a DedupRangeMap \<Rightarrow> 'a DedupRangeMap \<Rightarrow> bool" where
  "same_ranges v w \<longleftrightarrow> list_all2 (\<lambda>e e'. range_start e = range_start e' \<and> range_end e = range_end e') v w"

lemma same_ranges_contiguous:
  "same_ranges v w \<Longrightarrow> contiguous s w = contiguous s v \<and> chain_end s w = chain_end s v"
  unfolding same_ranges_def by (induction v w arbitrary: s rule: list_all2_induct) auto

lemma same_ranges_refl: "same_ranges v v"
  by (simp add: same_ranges_def list_all2_same)

lemma same_ranges_update:
  "same_ranges v w \<Longrightarrow> same_ranges v (w[i := (w ! i)\<lparr>data := d\<rparr>])"
  unfolding same_ranges_def by (cases "i < length w") (auto simp: list_all2_conv_all_nth nth_list_update)

lemma same_ranges_covers:
  "same_ranges v w \<Longrightarrow> i < length v \<Longrightarrow> covers (w ! i) k \<longleftrightarrow> covers (v ! i) k"
  by (auto simp: same_ranges_def list_all2_conv_all_nth covers_def)

lemma visit_slice:
  assumes "ofold (elem_visit f) [a..<b] (v, s) = Ok (w, t)" "b \<le> length v"
  shows "same_ranges v w \<and> (\<forall>i<length v. \<not> (a \<le> i \<and> i < b) \<longrightarrow> w ! i = v ! i) \<and>
    (\<forall>i. a \<le> i \<and> i < b \<longrightarrow>
      (\<exists>x y. f (range_start (v ! i), range_end (v ! i)) (data (v ! i)) x = Ok (data (w ! i), y)))"
  using assms
proof (induction "b - a" arbitrary: a v s)
  case 0
  then show ?case by (auto simp: same_ranges_refl)
next
  case (Suc n)
  then have ab: "a < b" "a < length v" by auto
  with Suc.prems(1) obtain d y where f: "f (range_start (v ! a), range_end (v ! a)) (data (v ! a)) s = Ok (d, y)"
    and rest: "ofold (elem_visit f) [Suc a..<b] (v[a := (v ! a)\<lparr>data := d\<rparr>], y) = Ok (w, t)"
    by (auto simp: upt_conv_Cons elem_visit_def obind_eq_Ok)
  let ?u = "v[a := (v ! a)\<lparr>data := d\<rparr>]"
  have IH: "same_ranges ?u w" "\<forall>i<length v. \<not> (Suc a \<le> i \<and> i < b) \<longrightarrow> w ! i = ?u ! i"
    "\<forall>i. Suc a \<le> i \<and> i < b \<longrightarrow>
      (\<exists>x y. f (range_start (?u ! i), range_end (?u ! i)) (data (?u ! i)) x = Ok (data (w ! i), y))"
    using Suc.hyps(1) [OF _ rest] Suc.hyps(2) Suc.prems(2) by auto
  have "same_ranges v ?u" by (rule same_ranges_update) (rule same_ranges_refl)
  with IH(1) have "same_ranges v w"
    by (auto simp: same_ranges_def list_all2_conv_all_nth)
  moreover have "\<exists>x y. f (range_start (v ! i), range_end (v ! i)) (data (v ! i)) x = Ok (data (w ! i), y)"
    if "a \<le> i" "i < b" for i
  proof (cases "i = a")
    case True
    with f IH(2) ab have "data (w ! i) = d" by simp
    with True f show ?thesis by auto
  next
    case False
    with that IH(3) show ?thesis by force
  qed
  moreover have "\<forall>i<length v. \<not> (a \<le> i \<and> i < b) \<longrightarrow> w ! i = v ! i"
    using IH(2) ab by (metis Suc_leD nth_list_update_neq order_refl)
  ultimately show ?case by blast
qed

text \<open>
  The contract that the clients of the map rely on: a loop over a range keeps the invariant and the
  size, leaves every byte outside the range alone, and runs its body exactly once for every byte
  inside it. \<open>sim\<close> is the comparison up to which the map may replace stored data.
\<close>

locale ranged_state =
  fixes sim :: "'a \<Rightarrow> 'a \<Rightarrow> bool"
    and inv :: "'m \<Rightarrow> bool"
    and bytes :: "'m \<Rightarrow> nat"
    and at :: "'m \<Rightarrow> nat \<Rightarrow> 'a option"
    and each :: "(nat \<times> nat \<Rightarrow> 'a \<Rightarrow> 's \<Rightarrow> ('e, 'a \<times> 's) outcome) \<Rightarrow> 'm \<Rightarrow> nat \<Rightarrow> nat \<Rightarrow> 's \<Rightarrow> ('e, 'm \<times> 's) outcome"
  assumes at_defined: "inv m \<Longrightarrow> (\<exists>d. at m i = Some d) \<longleftrightarrow> i < bytes m"
    and each_inv: "inv m \<Longrightarrow> off + len \<le> bytes m \<Longrightarrow> each f m off len s = Ok (m', s') \<Longrightarrow>
      inv m' \<and> bytes m' = bytes m"
    and each_outside: "inv m \<Longrightarrow> off + len \<le> bytes m \<Longrightarrow> each f m off len s = Ok (m', s') \<Longrightarrow>
      \<not> (off \<le> i \<and> i < off + len) \<Longrightarrow> rel_option sim (at m i) (at m' i)"
    and each_inside: "inv m \<Longrightarrow> off + len \<le> bytes m \<Longrightarrow> each f m off len s = Ok (m', s') \<Longrightarrow>
      off \<le> i \<Longrightarrow> i < off + len \<Longrightarrow>
      \<exists>d0 d r x d' y. at m i = Some d0 \<and> sim d0 d \<and> f r d x = Ok (d', y) \<and> at m' i = Some d'"
begin

text \<open>A property of the data that the body keeps holds for every byte after the loop.\<close>

lemma each_preserves:
  assumes "inv m" "off + len \<le> bytes m" "each f m off len s = Ok (m', s')"
    and sim: "\<And>d d'. P d \<Longrightarrow> sim d d' \<Longrightarrow> P d'"
    and body: "\<And>r d x d' y. P d \<Longrightarrow> f r d x = Ok (d', y) \<Longrightarrow> P d'"
    and all: "\<And>i d. at m i = Some d \<Longrightarrow> P d"
    and "at m' i = Some d"
  shows "P d"
proof (cases "off \<le> i \<and> i < off + len")
  case True
  with each_inside [OF assms(1-3), of i] assms(7) obtain d0 d1 r x y where
    "at m i = Some d0" "sim d0 d1" "f r d1 x = Ok (d, y)" by auto
  with sim body all show ?thesis by blast
next
  case False
  with each_outside [OF assms(1-3), of i] assms(7) obtain d0 where "at m i = Some d0" "sim d0 d"
    by (auto simp: option_rel_Some2)
  with sim all show ?thesis by blast
qed

text \<open>A property the body establishes holds for every byte of the range.\<close>

lemma each_establishes:
  assumes "inv m" "off + len \<le> bytes m" "each f m off len s = Ok (m', s')"
    and body: "\<And>r d x d' y. f r d x = Ok (d', y) \<Longrightarrow> Q d'"
    and "off \<le> i" "i < off + len"
  shows "\<exists>d. at m' i = Some d \<and> Q d"
  using each_inside [OF assms(1-3,5,6)] body by blast

end

lemma slice_covers:
  assumes c: "contiguous s u" and i: "i < length u" "covers (u ! i) k" and ab: "a < b" "b \<le> length u"
  shows "(a \<le> i \<and> i < b) \<longleftrightarrow> (range_start (u ! a) \<le> k \<and> k < range_end (u ! (b - 1)))"
proof -
  have "range_start (u ! a) \<le> k" if "a \<le> i"
    using that i contiguous_order [OF c, of a i] contiguous_nth [OF c, of a]
    by (cases "a = i") (auto simp: covers_def)
  moreover have "k < range_start (u ! a)" if "i < a"
    using that i ab contiguous_order [OF c, of i a] by (simp add: covers_def)
  moreover have "k < range_end (u ! (b - 1))" if "i < b"
  proof (cases "i = b - 1")
    case False
    with that ab have "i < b - 1" "b - 1 < length u" by simp_all
    with i ab contiguous_order [OF c, of i "b - 1"] contiguous_nth [OF c, of "b - 1"]
    show ?thesis by (simp add: covers_def)
  qed (use i in \<open>simp add: covers_def\<close>)
  moreover have "range_end (u ! (b - 1)) \<le> k" if "b \<le> i"
  proof -
    from that ab have "b - 1 < i" by simp
    with i contiguous_order [OF c, of "b - 1" i] show ?thesis by (simp add: covers_def)
  qed
  ultimately show ?thesis by (meson not_le)
qed

lemma for_each_result:
  fixes v :: "'a DedupRangeMap"
  assumes eq: "equivp eq" and inv: "map_inv v" and len: "offset + len \<le> DedupRangeMap_size v"
    and each: "DedupRangeMap_for_each eq f v offset len s = (Ok (w, t) :: ('e, 'a DedupRangeMap \<times> 's) outcome)"
  shows "map_inv w \<and> DedupRangeMap_size w = DedupRangeMap_size v \<and>
    (\<forall>k. if offset \<le> k \<and> k < offset + len
      then \<exists>d0 d r x d' y. lookup v k = Some d0 \<and> eq d0 d \<and> f r d x = Ok (d', y) \<and> lookup w k = Some d'
      else rel_option eq (lookup v k) (lookup w k))"
proof (cases "len = 0")
  case True
  with each inv eq show ?thesis
    by (auto simp: DedupRangeMap_for_each_def DedupRangeMap_iter_mut_def option.rel_refl equivp_reflp)
next
  case False
  then obtain u a b where u: "DedupRangeMap_iter_mut eq v offset len = (Ok (u, a, b) :: ('e, 'a DedupRangeMap \<times> nat \<times> nat) outcome)"
    "map_inv u" "DedupRangeMap_size u = DedupRangeMap_size v" "same_lookup eq v u" "a < b" "b \<le> length u"
    "range_start (u ! a) = offset" "range_end (u ! (b - 1)) = offset + len"
    using iter_mut_correct [OF eq inv _ len, where 'e = 'e] by blast
  with each have visit: "ofold (elem_visit f) [a..<b] (u, s) = Ok (w, t)"
    by (simp add: DedupRangeMap_for_each_def)
  note w = visit_slice [OF visit u(6)]
  have cu: "contiguous 0 u" using u(2) by (simp add: map_inv_def)
  have cw: "contiguous 0 w" "chain_end 0 w = chain_end 0 u" "length w = length u"
    using w cu same_ranges_contiguous [of u w 0] by (auto simp: same_ranges_def list_all2_lengthD)
  have step: "if offset \<le> k \<and> k < offset + len
      then \<exists>d0 d r x d' y. lookup v k = Some d0 \<and> eq d0 d \<and> f r d x = Ok (d', y) \<and> lookup w k = Some d'
      else rel_option eq (lookup v k) (lookup w k)" for k
  proof (cases "k < chain_end 0 u")
    case True
    then obtain i where i: "i < length u" "covers (u ! i) k"
      using covering_elem [OF cu] by auto
    then have iw: "covers (w ! i) k" using w same_ranges_covers by blast
    have l: "lookup u k = Some (data (u ! i))" "lookup w k = Some (data (w ! i))"
      using lookup_nth [OF cu i] lookup_nth [OF cw(1) _ iw] i cw(3) by simp_all
    have sim: "rel_option eq (lookup v k) (lookup u k)" using u(4) by (simp add: same_lookup_def)
    have "(a \<le> i \<and> i < b) \<longleftrightarrow> (offset \<le> k \<and> k < offset + len)"
      using slice_covers [OF cu i u(5,6)] u(7,8) by simp
    moreover have "\<exists>d0. lookup v k = Some d0 \<and> eq d0 (data (u ! i))"
      using sim l(1) by (auto simp: option_rel_Some2)
    moreover have "a \<le> i \<and> i < b \<Longrightarrow> \<exists>x y. f (range_start (u ! i), range_end (u ! i)) (data (u ! i)) x = Ok (data (w ! i), y)"
      "\<not> (a \<le> i \<and> i < b) \<Longrightarrow> w ! i = u ! i" using w i(1) by blast+
    ultimately show ?thesis
      using l sim by (cases "a \<le> i \<and> i < b") (simp, blast, auto)
  next
    case False
    then have "lookup w k = None" "lookup v k = None"
      using lookup_outside [OF cw(1), of k] cw(2) inv u(3) lookup_outside [of 0 v k]
      by (auto simp: map_inv_def size_chain_end)
    moreover have "\<not> (offset \<le> k \<and> k < offset + len)"
      using False len u(3) by (simp add: size_chain_end)
    ultimately show ?thesis by simp
  qed
  have "map_inv w \<and> DedupRangeMap_size w = DedupRangeMap_size v"
    using cw u(2,3) by (simp add: map_inv_def size_chain_end)
  with step show ?thesis by blast
qed

lemma ranged_state_for_each:
  assumes "equivp eq"
  shows "ranged_state eq map_inv DedupRangeMap_size lookup (DedupRangeMap_for_each eq)"
proof
  fix m :: "'a DedupRangeMap" and i
  assume "map_inv m"
  then show "(\<exists>d. lookup m i = Some d) \<longleftrightarrow> i < DedupRangeMap_size m" by (rule lookup_Some_iff)
next
  fix m m' :: "'a DedupRangeMap" and off len and s s' :: 's and i
    and f :: "nat \<times> nat \<Rightarrow> 'a \<Rightarrow> 's \<Rightarrow> ('e, 'a \<times> 's) outcome"
  assume a: "map_inv m" "off + len \<le> DedupRangeMap_size m" "DedupRangeMap_for_each eq f m off len s = Ok (m', s')"
  note r = for_each_result [OF assms a]
  from r show "map_inv m' \<and> DedupRangeMap_size m' = DedupRangeMap_size m" by blast
  from r show "rel_option eq (lookup m i) (lookup m' i)" if "\<not> (off \<le> i \<and> i < off + len)"
    using that by presburger
  from r show "\<exists>d0 d r x d' y. lookup m i = Some d0 \<and> eq d0 d \<and> f r d x = Ok (d', y) \<and> lookup m' i = Some d'"
    if "off \<le> i" "i < off + len" using that by presburger
qed

interpretation plain_map: ranged_state "(=)" map_inv DedupRangeMap_size lookup "DedupRangeMap_for_each (=)"
  by (rule ranged_state_for_each) (rule identity_equivp)

section \<open>Properties of all stored data\<close>

text \<open>The map only copies data, so a predicate on all of them is kept even if the equality used for merging
  does not respect it.\<close>

definition every :: "('a \<Rightarrow> bool) \<Rightarrow> 'a DedupRangeMap \<Rightarrow> bool" where
  "every P v \<longleftrightarrow> (\<forall>e\<in>set v. P (data e))"

lemma every_update: "every P v \<Longrightarrow> (i < length v \<Longrightarrow> P (data e)) \<Longrightarrow> every P (v[i := e])"
  by (cases "i < length v") (auto simp: every_def list_update_beyond dest!: subsetD [OF set_update_subset_insert])

lemma every_nth: "every P v \<Longrightarrow> i < length v \<Longrightarrow> P (data (v ! i))"
  by (simp add: every_def)

lemma every_take_drop: "every P v \<Longrightarrow> every P (take n v)" "every P v \<Longrightarrow> every P (drop n v)"
  "every P (v @ w) \<longleftrightarrow> every P v \<and> every P w" "every P (e # v) \<longleftrightarrow> P (data e) \<and> every P v"
  by (auto simp: every_def dest: in_set_takeD in_set_dropD)

lemma every_merge:
  assumes "every P v"
  shows "every P (take (since + 1) (v[since := (v ! since)\<lparr>range_end := r\<rparr>]) @ drop n (v[since := (v ! since)\<lparr>range_end := r\<rparr>]))"
proof -
  have "every P (v[since := (v ! since)\<lparr>range_end := r\<rparr>])" using assms by (auto intro!: every_update simp: every_nth)
  then show ?thesis unfolding every_take_drop(3) by (blast intro: every_take_drop(1,2))
qed

lemma every_split:
  assumes "DedupRangeMap_split_index v i k = Ok (w, b)" "every P v"
  shows "every P w"
proof (cases "i < length v \<and> w \<noteq> v")
  case True
  let ?v = "v[i := (v ! i)\<lparr>range_end := k\<rparr>]"
  have "every P ?v" using assms(2) by (auto intro!: every_update simp: every_nth)
  moreover have "w = take (i + 1) ?v @ \<lparr>range_start = k, range_end = range_end (v ! i), data = data (v ! i)\<rparr> # drop (i + 1) ?v"
    using assms(1) True by (auto simp: DedupRangeMap_split_index_def outcome_eqs Let_def vec_get_def vec_insert_def split: if_splits)
  ultimately show ?thesis using every_nth [OF assms(2), of i] True assms(2)
    by (simp add: every_take_drop(3,4) every_take_drop(1,2) del: take_Suc)
next
  case False
  with assms show ?thesis by (auto simp: DedupRangeMap_split_index_def vec_get_def split: if_splits)
qed

lemma scan_Ok_bounds:
  "iter_mut_scan eq stop v since count e = Ok r \<Longrightarrow> e < length v \<and> (stop \<le> range_end (v ! e) \<or> Suc e < length v)"
  by (subst (asm) iter_mut_scan.simps) (auto simp: Let_def split: if_splits)

lemma every_scan:
  "iter_mut_scan eq stop v since count e = (Ok (w, e') :: ('e, _) outcome) \<Longrightarrow> since \<le> e \<Longrightarrow> every P v \<Longrightarrow> every P w"
proof (induction "length v - e" arbitrary: v since count e rule: less_induct)
  case less
  have b: "e < length v" "stop \<le> range_end (v ! e) \<or> Suc e < length v"
    using scan_Ok_bounds [OF less.prems(1)] by auto
  let ?m = "take (since + 1) (v[since := (v ! since)\<lparr>range_end := range_end (v ! e)\<rparr>]) @
    drop (Suc e) (v[since := (v ! since)\<lparr>range_end := range_end (v ! e)\<rparr>])"
  have m: "every P ?m" by (rule every_merge [OF less.prems(3)])
  have "every P w" if "iter_mut_scan eq stop v s c (Suc e) = (Ok (w, e') :: ('e, _) outcome)" "s \<le> Suc e" for s c
    using less.hyps [OF diff_less_mono2 [OF lessI b(1)] that less.prems(3)] .
  moreover have "every P w" if "iter_mut_scan eq stop ?m (Suc since) c (Suc since) = (Ok (w, e') :: ('e, _) outcome)" "since < e" for c
    using less.hyps [of ?m "Suc since" "Suc since" c] that b(1) m by simp
  ultimately show ?case
    using less.prems(1) m less.prems(2,3) unfolding scan_step [OF b less.prems(2)] Let_def
    by (auto split: if_splits simp del: take_Suc)
qed

lemma every_iter_mut:
  assumes "DedupRangeMap_iter_mut eq v off len = (Ok (w, a, b) :: ('e, _) outcome)" "every P v"
  shows "every P w"
proof (cases "len = 0")
  case False
  with assms(1) obtain i v1 s v2 k v3 s' where "DedupRangeMap_split_index v i off = (Ok (v1, s) :: ('e, _) outcome)"
    "iter_mut_scan eq (off + len) v1 (if s then i + 1 else i) 3 (if s then i + 1 else i) = (Ok (v2, k) :: ('e, _) outcome)"
    "DedupRangeMap_split_index v2 (k - 1) (off + len) = (Ok (v3, s') :: ('e, _) outcome)" "w = v3"
    unfolding DedupRangeMap_iter_mut_def Let_def by (auto simp: obind_eq_Ok add_u64_def split: if_splits prod.splits)
  with assms(2) show ?thesis by (metis every_split every_scan order_refl)
qed (use assms in \<open>simp add: DedupRangeMap_iter_mut_def\<close>)

lemma every_elem_visit:
  assumes "every P v" "elem_visit f i (v, s) = Ok (w, t)" and body: "\<And>r d x d' y. P d \<Longrightarrow> f r d x = Ok (d', y) \<Longrightarrow> P d'"
  shows "every P w"
proof -
  from assms(2) obtain d where i: "i < length v" "f (range_start (v ! i), range_end (v ! i)) (data (v ! i)) s = Ok (d, t)"
    "w = v[i := (v ! i)\<lparr>data := d\<rparr>]"
    by (auto simp: elem_visit_def outcome_eqs vec_get_def split: if_splits)
  with body [OF every_nth [OF assms(1) i(1)] i(2)] assms(1) show ?thesis by (auto intro!: every_update)
qed

lemma every_visit:
  assumes "every P v" "ofold (elem_visit f) is (v, s) = Ok (w, t)" "\<And>r d x d' y. P d \<Longrightarrow> f r d x = Ok (d', y) \<Longrightarrow> P d'"
  shows "every P w"
proof -
  have "every P (fst (w, t))"
    using assms(2) by (rule ofold_invariant) (use assms(1) every_elem_visit [OF _ _ assms(3)] in auto)
  then show ?thesis by simp
qed

lemma every_for_each:
  assumes "every P v" "DedupRangeMap_for_each eq f v off len s = Ok (w, t)"
    and "\<And>r d x d' y. P d \<Longrightarrow> f r d x = Ok (d', y) \<Longrightarrow> P d'"
  shows "every P w"
proof -
  from assms(2) obtain u a b where "DedupRangeMap_iter_mut eq v off len = (Ok (u, a, b) :: ('b, _) outcome)"
    "ofold (elem_visit f) [a..<b] (u, s) = Ok (w, t)"
    by (auto simp: DedupRangeMap_for_each_def outcome_eqs)
  note r = this
  show ?thesis by (rule every_visit [OF every_iter_mut [OF r(1) assms(1)] r(2)]) (rule assms(3))
qed

text \<open>A loop visits every element once, so the body only sees data that the map held before.\<close>

lemma visit_guard:
  assumes "\<And>i. a \<le> i \<Longrightarrow> i < b \<Longrightarrow> i < length v \<Longrightarrow> P (data (v ! i))"
  shows "ofold (elem_visit (\<lambda>r d x. if P d then f r d x else Panic)) [a..<b] (v, s) = ofold (elem_visit f) [a..<b] (v, s)"
  using assms
proof (induction "b - a" arbitrary: a v s)
  case (Suc n)
  then have u: "[a..<b] = a # [Suc a..<b]" by (simp add: upt_conv_Cons)
  have e: "elem_visit (\<lambda>r d x. if P d then f r d x else Panic) a (v, s) = elem_visit f a (v, s)"
    using Suc.prems [of a] Suc.hyps(2) by (auto simp: elem_visit_def vec_get_def)
  show ?case unfolding u ofold.simps e
  proof (rule obind_cong [OF refl])
    fix y assume y: "elem_visit f a (v, s) = Ok y"
    then obtain e t where y': "y = (v[a := e], t)" by (auto simp: elem_visit_def outcome_eqs)
    have "P (data (v[a := e] ! i))" if "Suc a \<le> i" "i < b" "i < length (v[a := e])" for i
      using Suc.prems [of i] that by simp
    then show "ofold (elem_visit (\<lambda>r d x. if P d then f r d x else Panic)) [Suc a..<b] y = ofold (elem_visit f) [Suc a..<b] y"
      unfolding y' using Suc.hyps by (intro Suc.hyps(1)) auto
  qed
qed simp

lemma for_each_guard:
  assumes "every P v"
  shows "DedupRangeMap_for_each eq (\<lambda>r d x. if P d then f r d x else Panic) v off len s = DedupRangeMap_for_each eq f v off len s"
  unfolding DedupRangeMap_for_each_def
proof (rule obind_cong [OF refl], clarify)
  fix u a b assume "DedupRangeMap_iter_mut eq v off len = (Ok (u, a, b) :: ('b, _) outcome)"
  from every_iter_mut [OF this assms] every_nth
  show "ofold (elem_visit (\<lambda>r d x. if P d then f r d x else Panic)) [a..<b] (u, s) = ofold (elem_visit f) [a..<b] (u, s)"
    by (intro visit_guard) blast
qed

lemma for_each_inside:
  fixes v :: "'a DedupRangeMap"
  assumes "equivp eq" "map_inv v" "off + len \<le> DedupRangeMap_size v" "every P v"
    and "DedupRangeMap_for_each eq f v off len s = Ok (w, t)" and "off \<le> k" "k < off + len"
  shows "\<exists>d0 d r x d' y. lookup v k = Some d0 \<and> eq d0 d \<and> P d \<and> f r d x = Ok (d', y) \<and> lookup w k = Some d'"
proof -
  have "DedupRangeMap_for_each eq (\<lambda>r d x. if P d then f r d x else Panic) v off len s = Ok (w, t)"
    unfolding for_each_guard [OF assms(4)] by fact
  note r = for_each_result [OF assms(1-3) this, THEN conjunct2, THEN conjunct2, THEN spec, of k]
  have "off \<le> k \<and> k < off + len" using assms(6,7) by simp
  from r [unfolded if_P [OF this]] obtain d0 d r x d' y where
    "lookup v k = Some d0" "eq d0 d" "(if P d then f r d x else Panic) = Ok (d', y)" "lookup w k = Some d'" by blast
  then show ?thesis by (metis outcome.distinct(3))
qed

lemma for_each_elements:
  fixes v :: "'a DedupRangeMap"
  assumes "equivp eq" "map_inv v" "off + len \<le> DedupRangeMap_size v" "every P v"
    and each: "DedupRangeMap_for_each eq f v off len s = (Ok (w, t) :: ('e, _) outcome)"
    and body: "\<And>r d x d' y. P d \<Longrightarrow> f r d x = Ok (d', y) \<Longrightarrow> Q d'" and rest: "\<And>d. P d \<Longrightarrow> Q d"
  shows "every Q w"
proof (cases "len = 0")
  case True
  with assms(4) each rest show ?thesis by (auto simp: DedupRangeMap_for_each_def DedupRangeMap_iter_mut_def every_def)
next
  case False
  then obtain u a b where u: "DedupRangeMap_iter_mut eq v off len = (Ok (u, a, b) :: ('e, _) outcome)" "b \<le> length u"
    using iter_mut_correct [OF assms(1,2) _ assms(3), where 'e = 'e] by blast
  with each have "ofold (elem_visit f) [a..<b] (u, s) = Ok (w, t)" by (simp add: DedupRangeMap_for_each_def)
  note w = visit_slice [OF this u(2)]
  then have len: "length w = length u" by (auto simp: same_ranges_def dest: list_all2_lengthD)
  have P: "P (data (u ! i))" if "i < length u" for i using every_nth [OF every_iter_mut [OF u(1) assms(4)] that] .
  have "Q (data (w ! i))" if i: "i < length w" for i
  proof (cases "a \<le> i \<and> i < b")
    case True
    with w obtain x y where "f (range_start (u ! i), range_end (u ! i)) (data (u ! i)) x = Ok (data (w ! i), y)" by blast
    with P i len body show ?thesis by metis
  next
    case False
    with w i len P rest show ?thesis by metis
  qed
  then show ?thesis by (auto simp: every_def in_set_conv_nth)
qed

lemma DedupRangeMap_new_inv:
  "sz < 2 ^ 64 \<Longrightarrow> map_inv (DedupRangeMap_new sz d)" "DedupRangeMap_size (DedupRangeMap_new sz d) = sz"
  "k < sz \<Longrightarrow> lookup (DedupRangeMap_new sz d) k = Some d"
  by (auto simp: map_inv_def DedupRangeMap_new_def DedupRangeMap_size_def covers_def)

text \<open>Loops that keep a property of the accumulator, and where a loop that fails stopped.\<close>

lemma visit_threaded:
  assumes "b \<le> length v" "\<And>i. a \<le> i \<Longrightarrow> i < b \<Longrightarrow> P (data (v ! i))" "S s"
    and body: "\<And>r d x d' y. P d \<Longrightarrow> S x \<Longrightarrow> f r d x = Ok (d', y) \<Longrightarrow> S y"
  defines "at \<equiv> \<lambda>i. f (range_start (v ! i), range_end (v ! i)) (data (v ! i))"
  shows "case ofold (elem_visit f) [a..<b] (v, s) of
      Ok (w, t) \<Rightarrow> S t \<and> (\<forall>i. a \<le> i \<and> i < b \<longrightarrow> (\<exists>x y. S x \<and> at i x = Ok (data (w ! i), y)))
    | Err e \<Rightarrow> \<exists>i x. a \<le> i \<and> i < b \<and> S x \<and> at i x = Err e
    | Panic \<Rightarrow> \<exists>i x. a \<le> i \<and> i < b \<and> S x \<and> at i x = Panic
    | Diverge \<Rightarrow> \<exists>i x. a \<le> i \<and> i < b \<and> S x \<and> at i x = Diverge"
  unfolding at_def using assms(1-3)
proof (induction "b - a" arbitrary: a v s)
  case 0
  then show ?case by auto
next
  case (Suc n)
  then have u: "[a..<b] = a # [Suc a..<b]" and a: "a < length v" "a < b" by (simp_all add: upt_conv_Cons)
  have Pa: "P (data (v ! a))" using Suc.prems(2) a by simp
  show ?case
  proof (cases "f (range_start (v ! a), range_end (v ! a)) (data (v ! a)) s")
    case (Ok y)
    obtain d t where y: "y = (d, t)" by (cases y)
    let ?v = "v[a := (v ! a)\<lparr>data := d\<rparr>]"
    have run: "ofold (elem_visit f) [a..<b] (v, s) = ofold (elem_visit f) [Suc a..<b] (?v, t)"
      using a Ok by (simp add: u elem_visit_def y)
    have "S t" using body [OF Pa Suc.prems(3)] Ok y by simp
    with Suc.hyps Suc.prems have IH: "case ofold (elem_visit f) [Suc a..<b] (?v, t) of
        Ok (w, t) \<Rightarrow> S t \<and> (\<forall>i. Suc a \<le> i \<and> i < b \<longrightarrow> (\<exists>x y. S x \<and>
          f (range_start (?v ! i), range_end (?v ! i)) (data (?v ! i)) x = Ok (data (w ! i), y)))
      | Err e \<Rightarrow> \<exists>i x. Suc a \<le> i \<and> i < b \<and> S x \<and> f (range_start (?v ! i), range_end (?v ! i)) (data (?v ! i)) x = Err e
      | Panic \<Rightarrow> \<exists>i x. Suc a \<le> i \<and> i < b \<and> S x \<and> f (range_start (?v ! i), range_end (?v ! i)) (data (?v ! i)) x = Panic
      | Diverge \<Rightarrow> \<exists>i x. Suc a \<le> i \<and> i < b \<and> S x \<and> f (range_start (?v ! i), range_end (?v ! i)) (data (?v ! i)) x = Diverge"
      by (intro Suc.hyps(1)) auto
    have same: "f (range_start (?v ! i), range_end (?v ! i)) (data (?v ! i)) = f (range_start (v ! i), range_end (v ! i)) (data (v ! i))"
      if "Suc a \<le> i" for i using that by simp
    show ?thesis
    proof (cases "ofold (elem_visit f) [Suc a..<b] (?v, t)")
      case Ok': (Ok z)
      obtain w t' where z: "z = (w, t')" by (cases z)
      have "w ! a = ?v ! a" using visit_slice [OF Ok' [unfolded z]] Suc.prems(1) a by simp
      then have da: "data (w ! a) = d" using a by simp
      have "\<exists>x y. S x \<and> f (range_start (v ! i), range_end (v ! i)) (data (v ! i)) x = Ok (data (w ! i), y)" if "a \<le> i" "i < b" for i
      proof (cases "i = a")
        case True
        then show ?thesis using Ok Suc.prems(3) y da by auto
      next
        case False
        then have "Suc a \<le> i" using that by simp
        with IH Ok' z same [OF this] that show ?thesis by auto
      qed
      with IH Ok' z show ?thesis unfolding run by simp
    next
      case (Err e)
      with IH obtain i x where "Suc a \<le> i" "i < b" "S x" "f (range_start (?v ! i), range_end (?v ! i)) (data (?v ! i)) x = Err e" by auto
      with same show ?thesis unfolding run Err by (auto intro!: exI [of _ i] exI [of _ x])
    next
      case Panic
      with IH obtain i x where "Suc a \<le> i" "i < b" "S x" "f (range_start (?v ! i), range_end (?v ! i)) (data (?v ! i)) x = Panic" by auto
      with same show ?thesis unfolding run Panic by (auto intro!: exI [of _ i] exI [of _ x])
    next
      case Diverge
      with IH obtain i x where "Suc a \<le> i" "i < b" "S x" "f (range_start (?v ! i), range_end (?v ! i)) (data (?v ! i)) x = Diverge" by auto
      with same show ?thesis unfolding run Diverge by (auto intro!: exI [of _ i] exI [of _ x])
    qed
  qed (use a u Suc.prems(3) in \<open>auto simp: elem_visit_def intro!: exI [of _ a] exI [of _ s]\<close>)
qed

lemma for_each_threaded:
  fixes v :: "'a DedupRangeMap"
  assumes eq: "equivp eq" and inv: "map_inv v" and len: "off + len \<le> DedupRangeMap_size v" and P: "every P v" and s: "S s"
    and body: "\<And>r d x d' y. P d \<Longrightarrow> S x \<Longrightarrow> f r d x = Ok (d', y) \<Longrightarrow> S y \<and> Q d'" and rest: "\<And>d. P d \<Longrightarrow> Q d"
  defines "visits \<equiv> \<lambda>k d x. off \<le> k \<and> k < off + len \<and> P d \<and> S x \<and> (\<exists>d0. lookup v k = Some d0 \<and> eq d0 d)"
  shows "case DedupRangeMap_for_each eq f v off len s of
      Ok (w, t) \<Rightarrow> map_inv w \<and> DedupRangeMap_size w = DedupRangeMap_size v \<and> S t \<and> every Q w \<and>
        (\<forall>k. if off \<le> k \<and> k < off + len
           then \<exists>d r x d' y. visits k d x \<and> f r d x = Ok (d', y) \<and> lookup w k = Some d'
           else rel_option eq (lookup v k) (lookup w k))
    | Err e \<Rightarrow> \<exists>k d r x. visits k d x \<and> f r d x = Err e
    | Panic \<Rightarrow> \<exists>k d r x. visits k d x \<and> f r d x = Panic
    | Diverge \<Rightarrow> \<exists>k d r x. visits k d x \<and> f r d x = Diverge"
proof (cases "len = 0")
  case True
  with inv eq s P rest show ?thesis
    by (auto simp: DedupRangeMap_for_each_def DedupRangeMap_iter_mut_def option.rel_refl equivp_reflp every_def)
next
  case False
  then obtain u a b where u: "DedupRangeMap_iter_mut eq v off len = (Ok (u, a, b) :: ('c, _) outcome)"
    "map_inv u" "DedupRangeMap_size u = DedupRangeMap_size v" "same_lookup eq v u" "a < b" "b \<le> length u"
    "range_start (u ! a) = off" "range_end (u ! (b - 1)) = off + len"
    using iter_mut_correct [OF eq inv _ len, where 'e = 'c] by blast
  have run: "DedupRangeMap_for_each eq f v off len s = ofold (elem_visit f) [a..<b] (u, s)"
    by (simp add: DedupRangeMap_for_each_def u(1))
  have cu: "contiguous 0 u" using u(2) by (simp add: map_inv_def)
  have Pu: "P (data (u ! i))" if "i < length u" for i using every_nth [OF every_iter_mut [OF u(1) P] that] .
  have at: "\<exists>d0. lookup v k = Some d0 \<and> eq d0 (data (u ! i))" if "i < length u" "covers (u ! i) k" for i k
    using u(4) lookup_nth [OF cu that] by (auto simp: same_lookup_def option_rel_Some2 dest: spec [of _ k])
  have visited: "\<exists>k. visits k (data (u ! i)) x" if "a \<le> i" "i < b" "S x" for i x
  proof -
    let ?k = "range_start (u ! i)"
    have i: "i < length u" "covers (u ! i) ?k" using that u(6) contiguous_nth [OF cu, of i] by (auto simp: covers_def)
    then have "off \<le> ?k \<and> ?k < off + len" using slice_covers [OF cu i u(5,6)] that u(7,8) by simp
    with at [OF i] Pu [OF i(1)] that show ?thesis unfolding visits_def by blast
  qed
  note th = visit_threaded [where f = f and P = P and S = S and v = u and a = a and b = b and s = s, OF u(6) _ s conjunct1 [OF body]]
  have th: "case ofold (elem_visit f) [a..<b] (u, s) of
      Ok (w, t) \<Rightarrow> S t \<and> (\<forall>i. a \<le> i \<and> i < b \<longrightarrow> (\<exists>x y. S x \<and> f (range_start (u ! i), range_end (u ! i)) (data (u ! i)) x = Ok (data (w ! i), y)))
    | Err e \<Rightarrow> \<exists>i x. a \<le> i \<and> i < b \<and> S x \<and> f (range_start (u ! i), range_end (u ! i)) (data (u ! i)) x = Err e
    | Panic \<Rightarrow> \<exists>i x. a \<le> i \<and> i < b \<and> S x \<and> f (range_start (u ! i), range_end (u ! i)) (data (u ! i)) x = Panic
    | Diverge \<Rightarrow> \<exists>i x. a \<le> i \<and> i < b \<and> S x \<and> f (range_start (u ! i), range_end (u ! i)) (data (u ! i)) x = Diverge"
    by (rule th) (use Pu u(6) in auto)
  show ?thesis
  proof (cases "ofold (elem_visit f) [a..<b] (u, s)")
    case (Ok z)
    obtain w t where z: "z = (w, t)" by (cases z)
    note w = visit_slice [OF Ok [unfolded z] u(6)]
    have each: "DedupRangeMap_for_each eq f v off len s = Ok (w, t)" using run Ok z by simp
    have st: "S t" and vis: "\<And>i. a \<le> i \<Longrightarrow> i < b \<Longrightarrow> \<exists>x y. S x \<and> f (range_start (u ! i), range_end (u ! i)) (data (u ! i)) x = Ok (data (w ! i), y)"
      using th Ok z by auto
    have wl: "length w = length u" using w by (auto simp: same_ranges_def dest: list_all2_lengthD)
    have cw: "contiguous 0 w" using w cu same_ranges_contiguous [of u w 0] by blast
    have "Q (data (w ! i))" if "i < length w" for i
    proof (cases "a \<le> i \<and> i < b")
      case True
      with vis [of i] Pu [of i] body that wl show ?thesis by fastforce
    next
      case False
      then show ?thesis using w that wl Pu rest by metis
    qed
    then have qw: "every Q w" by (auto simp: every_def in_set_conv_nth)
    have "\<exists>d r x d' y. visits k d x \<and> f r d x = Ok (d', y) \<and> lookup w k = Some d'" if k: "off \<le> k" "k < off + len" for k
    proof -
      have "k < chain_end 0 u" using k len u(3) by (simp add: size_chain_end)
      then obtain i where i: "i < length u" "covers (u ! i) k" using covering_elem [OF cu] by auto
      then have ab: "a \<le> i" "i < b" using slice_covers [OF cu i u(5,6)] k u(7,8) by simp_all
      have "covers (w ! i) k" using i w same_ranges_covers by blast
      then have "lookup w k = Some (data (w ! i))" using lookup_nth [OF cw] i wl by simp
      with vis [OF ab] at [OF i] Pu [OF i(1)] k show ?thesis unfolding visits_def by blast
    qed
    with for_each_result [OF eq inv len each] st qw show ?thesis unfolding each by simp
  qed (use th visited run in \<open>auto, blast+\<close>)
qed
text \<open>Loops over the whole map.\<close>

lemma iter_mut_all_pointwise:
  assumes inv: "map_inv v" and each: "DedupRangeMap_iter_mut_all f v s = Ok (w, t)"
  shows "map_inv w" "DedupRangeMap_size w = DedupRangeMap_size v" "same_ranges v w"
    "lookup v k = None \<Longrightarrow> lookup w k = None"
    "lookup v k = Some d \<Longrightarrow> \<exists>r x d' y. f r d x = Ok (d', y) \<and> lookup w k = Some d'"
proof -
  note vw = visit_slice [OF each [unfolded DedupRangeMap_iter_mut_all_def] order_refl]
  have c: "contiguous 0 v" "contiguous 0 w" "chain_end 0 w = chain_end 0 v" "length w = length v"
    using vw inv same_ranges_contiguous [of v w 0] by (auto simp: map_inv_def same_ranges_def list_all2_lengthD)
  with inv vw show "map_inv w" "DedupRangeMap_size w = DedupRangeMap_size v" "same_ranges v w"
    by (simp_all add: map_inv_def size_chain_end)
  then show "lookup w k = None" if "lookup v k = None"
    using that lookup_Some_iff [OF inv, of k] lookup_Some_iff [of w k] by (metis not_None_eq)
  show "\<exists>r x d' y. f r d x = Ok (d', y) \<and> lookup w k = Some d'" if l: "lookup v k = Some d"
  proof -
    from l have "k < chain_end 0 v" using lookup_outside [OF c(1), of k] by (metis not_less option.distinct(1))
    then obtain i where i: "i < length v" "covers (v ! i) k" using covering_elem [OF c(1)] by auto
    then have "covers (w ! i) k" using vw same_ranges_covers by blast
    with i c have "lookup w k = Some (data (w ! i))" "d = data (v ! i)" using lookup_nth [OF c(1) i] l lookup_nth [OF c(2)] by simp_all
    with vw i show ?thesis by (metis le0)
  qed
qed

lemma iter_elements:
  assumes "map_inv v" "DedupRangeMap_iter v off len = (Ok xs :: ('e, _) outcome)" "((a, b), d) \<in> set xs"
  shows "a < b" "b \<le> DedupRangeMap_size v" "d \<in> data ` set v"
proof -
  from assms(2,3) obtain e where e: "e \<in> set v" "a = range_start e" "b = range_end e" "d = data e"
    by (auto simp: DedupRangeMap_iter_def outcome_eqs split: if_splits dest!: set_takeWhileD in_set_dropD)
  with contiguous_bounds [of 0 v e] assms(1) show "a < b" "b \<le> DedupRangeMap_size v" "d \<in> data ` set v"
    by (auto simp: map_inv_def size_chain_end)
qed

lemma iter_whole:
  assumes "map_inv v" "DedupRangeMap_iter v 0 (DedupRangeMap_size v) = (Ok xs :: ('e, _) outcome)"
  shows "xs = map (\<lambda>e. ((range_start e, range_end e), data e)) v"
proof (cases v)
  case Nil
  with assms(2) show ?thesis by (auto simp: DedupRangeMap_iter_def DedupRangeMap_size_def obind_eq_Ok)
next
  case (Cons e u)
  have c: "contiguous 0 v" using assms(1) by (simp add: map_inv_def)
  then have "covers (v ! 0) 0" using Cons by (simp add: covers_def)
  with find_offset_covers [OF c, of 0 0] Cons have f: "DedupRangeMap_find_offset v 0 = (Ok 0 :: ('e, _) outcome)" by simp
  have "takeWhile (\<lambda>e. range_start e < DedupRangeMap_size v) v = v"
    using contiguous_bounds [OF c] by (force simp: takeWhile_eq_all_conv size_chain_end)
  moreover have "DedupRangeMap_size v \<noteq> 0" using contiguous_bounds [OF c, of e] Cons by (simp add: size_chain_end)
  ultimately show ?thesis using assms(2) f by (auto simp: DedupRangeMap_iter_def obind_eq_Ok add_u64_def simp del: takeWhile_eq_all_conv split: if_splits)
qed

lemma iter_mut_all_pure:
  "DedupRangeMap_iter_mut_all (\<lambda>_ d u. Ok (h d, ())) v () = Ok (map (\<lambda>e. e\<lparr>data := h (data e)\<rparr>) v, ())"
proof -
  let ?u = "\<lambda>e. e\<lparr>data := h (data e)\<rparr>"
  have "k \<le> length v \<Longrightarrow> ofold (elem_visit (\<lambda>_ d u. Ok (h d, ()))) [k..<length v] (map ?u (take k v) @ drop k v, ()) = Ok (map ?u v, ())" for k
  proof (induction "length v - k" arbitrary: k)
    case (Suc n)
    then have k: "k < length v" "[k..<length v] = k # [Suc k..<length v]" by (auto simp: upt_conv_Cons)
    have "(map ?u (take k v) @ drop k v) ! k = v ! k" using k by (simp add: nth_append)
    moreover have "(map ?u (take k v) @ drop k v)[k := ?u (v ! k)] = map ?u (take (Suc k) v) @ drop (Suc k) v"
      using k by (simp add: list_update_append take_Suc_conv_app_nth Cons_nth_drop_Suc [symmetric])
    ultimately show ?case using k Suc by (simp add: elem_visit_def vec_get_def)
  qed simp
  from this [of 0] show ?thesis by (simp add: DedupRangeMap_iter_mut_all_def)
qed

lemma lookup_map_data: "lookup (map (\<lambda>e. e\<lparr>data := h (data e)\<rparr>) v) k = map_option h (lookup v k)"
  by (induction v) (auto simp: covers_def)

section \<open>Thorough merging\<close>

abbreviation unmerged :: "('a \<Rightarrow> 'a \<Rightarrow> bool) \<Rightarrow> 'a DedupRangeMap \<Rightarrow> bool" where
  "unmerged eq \<equiv> successively (\<lambda>x y. \<not> eq (data x) (data y))"

lemma merge_push_fold:
  fixes v :: "'a DedupRangeMap"
  assumes "equivp eq"
  shows "contiguous 0 (acc @ v) \<Longrightarrow> unmerged eq acc \<Longrightarrow>
    \<exists>w. ofold (merge_push eq) v acc = (Ok w :: ('e, 'a DedupRangeMap) outcome) \<and> contiguous 0 w \<and>
      chain_end 0 w = chain_end 0 (acc @ v) \<and> same_lookup eq (acc @ v) w \<and> unmerged eq w"
proof (induction v arbitrary: acc)
  case Nil
  then show ?case using same_lookup_refl [OF assms] by simp
next
  case (Cons e v)
  show ?case
  proof (cases "acc \<noteq> [] \<and> eq (data (last acc)) (data e)")
    case True
    then obtain A x where acc: "acc = A @ [x]" by (metis append_butlast_last_id)
    let ?y = "x\<lparr>range_end := range_end e\<rparr>"
    have c: "contiguous 0 (A @ x # [e] @ v)" using Cons.prems(1) acc by simp
    have sim: "\<forall>m\<in>set [e]. eq (data m) (data x)" using True acc assms by (auto simp: equivp_symp)
    note m = merge_run [OF assms c sim refl]
    have "unmerged eq (A @ [?y])"
      using Cons.prems(2) acc by (auto simp: successively_append_iff)
    with Cons.IH [of "A @ [?y]"] m obtain w where w:
      "ofold (merge_push eq) v (A @ [?y]) = (Ok w :: ('e, 'a DedupRangeMap) outcome)" "contiguous 0 w"
      "chain_end 0 w = chain_end 0 (acc @ e # v)" "same_lookup eq (A @ ?y # v) w" "unmerged eq w"
      using acc by auto
    have "range_end x = range_start e" using c by simp
    with w(1) True have "ofold (merge_push eq) (e # v) acc = (Ok w :: ('e, 'a DedupRangeMap) outcome)"
      by (simp add: acc merge_push_def)
    moreover have "same_lookup eq (acc @ e # v) w"
      using same_lookup_trans [OF assms _ w(4)] m(3) acc by simp
    ultimately show ?thesis using w by auto
  next
    case False
    with Cons.prems(2) have "unmerged eq (acc @ [e])" by (auto simp: successively_append_iff)
    with Cons.IH [of "acc @ [e]"] Cons.prems(1) False show ?thesis by (auto simp: merge_push_def)
  qed
qed

section \<open>Properties\<close>

text \<open>C2: \<open>iter_mut\<close> on a non-empty range inside the map always succeeds; the slice that it yields
  starts exactly at the offset and ends exactly at the end of the range, so that changes through the
  iterator cannot leak out of the range; the map stays well-formed with the same size; and at every
  byte the stored data are unchanged up to the equality used for merging.\<close>

theorem iter_mut_exact:
  fixes v :: "'a DedupRangeMap"
  assumes "equivp eq" "map_inv v" "0 < len" "offset + len \<le> DedupRangeMap_size v"
  shows "\<exists>w a b. DedupRangeMap_iter_mut eq v offset len = (Ok (w, a, b) :: (unit, _) outcome) \<and>
    map_inv w \<and> DedupRangeMap_size w = DedupRangeMap_size v \<and>
    (\<forall>i. rel_option eq (lookup v i) (lookup w i)) \<and>
    a < b \<and> b \<le> length w \<and> range_start (w ! a) = offset \<and> range_end (w ! (b - 1)) = offset + len"
  using iter_mut_correct [OF assms, where 'e = unit] by (simp add: same_lookup_def)

theorem iter_mut_exact_witness:
  "let v = [\<lparr>range_start = 0, range_end = 4, data = 7\<rparr>, \<lparr>range_start = 4, range_end = 9, data = (7::nat)\<rparr>] in
   equivp ((=) :: nat \<Rightarrow> nat \<Rightarrow> bool) \<and> map_inv v \<and> 2 + 5 \<le> DedupRangeMap_size v \<and>
   (\<exists>w a b. DedupRangeMap_iter_mut (=) v 2 5 = (Ok (w, a, b) :: (unit, _) outcome) \<and> map_inv w \<and>
      a < b \<and> range_start (w ! a) = 2 \<and> range_end (w ! (b - 1)) = 7)"
proof -
  let ?v = "[\<lparr>range_start = 0, range_end = 4, data = 7\<rparr>, \<lparr>range_start = 4, range_end = 9, data = (7::nat)\<rparr>]"
  have "equivp ((=) :: nat \<Rightarrow> nat \<Rightarrow> bool)" "map_inv ?v" "0 < (5::nat)" "2 + 5 \<le> DedupRangeMap_size ?v"
    by (simp_all add: identity_equivp map_inv_def DedupRangeMap_size_def)
  with iter_mut_exact [OF this] show ?thesis by auto
qed

text \<open>A loop over a range of the map runs its body exactly once for every byte inside the range,
  on the data stored there, and stores the result; every byte outside keeps its data. Both up to the
  equality used for merging.\<close>

theorem for_each_pointwise:
  fixes v :: "'a DedupRangeMap"
  assumes "equivp eq" "map_inv v" "offset + len \<le> DedupRangeMap_size v"
    and "DedupRangeMap_for_each eq f v offset len s = Ok (w, t)"
  shows "map_inv w \<and> DedupRangeMap_size w = DedupRangeMap_size v \<and>
    (\<forall>k. if offset \<le> k \<and> k < offset + len
      then \<exists>d0 d r x d' y. lookup v k = Some d0 \<and> eq d0 d \<and> f r d x = Ok (d', y) \<and> lookup w k = Some d'
      else rel_option eq (lookup v k) (lookup w k))"
  using assms by (rule for_each_result)

theorem for_each_pointwise_witness:
  "let v = [\<lparr>range_start = 0, range_end = 4, data = (1::nat)\<rparr>];
       f = (\<lambda>r d s. Ok (d + 1, s + 1)) :: nat \<times> nat \<Rightarrow> nat \<Rightarrow> nat \<Rightarrow> (unit, nat \<times> nat) outcome;
       w = [\<lparr>range_start = 0, range_end = 1, data = 1\<rparr>, \<lparr>range_start = 1, range_end = 3, data = 2\<rparr>,
            \<lparr>range_start = 3, range_end = 4, data = 1\<rparr>]
   in DedupRangeMap_for_each (=) f v 1 2 0 = Ok (w, 1) \<and> lookup w 1 \<noteq> lookup v 1 \<and>
      rel_option (=) (lookup v 3) (lookup w 3)"
proof -
  let ?v = "[\<lparr>range_start = 0, range_end = 4, data = (1::nat)\<rparr>]"
  let ?f = "(\<lambda>r d s. Ok (d + 1, s + 1)) :: nat \<times> nat \<Rightarrow> nat \<Rightarrow> nat \<Rightarrow> (unit, nat \<times> nat) outcome"
  let ?w = "[\<lparr>range_start = 0, range_end = 1, data = 1\<rparr>, \<lparr>range_start = 1, range_end = 3, data = 2\<rparr>,
            \<lparr>range_start = 3, range_end = 4, data = (1::nat)\<rparr>]"
  have run: "DedupRangeMap_for_each (=) ?f ?v 1 2 0 = Ok (?w, 1)" by code_simp
  have hyps: "map_inv ?v" "1 + 2 \<le> DedupRangeMap_size ?v"
    by (simp_all add: map_inv_def DedupRangeMap_size_def)
  from for_each_pointwise [OF identity_equivp hyps run]
  have "rel_option (=) (lookup ?v 3) (lookup ?w 3)" by (elim conjE allE [of _ 3]) simp
  with run show ?thesis by (simp add: covers_def)
qed

text \<open>C3: \<open>merge_adjacent_thorough\<close> never trips its assertion on a well-formed map; it keeps the size
  and the data at every byte, and afterwards no two neighbouring elements hold equal data.\<close>

theorem merge_adjacent_thorough_correct:
  fixes v :: "'a DedupRangeMap"
  assumes "equivp eq" "map_inv v"
  shows "\<exists>w. DedupRangeMap_merge_adjacent_thorough eq v = (Ok w :: (unit, _) outcome) \<and> map_inv w \<and>
    DedupRangeMap_size w = DedupRangeMap_size v \<and> (\<forall>i. rel_option eq (lookup v i) (lookup w i)) \<and>
    unmerged eq w"
  using merge_push_fold [OF assms(1), of "[]" v, where 'e = unit] assms(2)
  by (auto simp: DedupRangeMap_merge_adjacent_thorough_def map_inv_def size_chain_end same_lookup_def)

theorem merge_adjacent_thorough_correct_witness:
  "let v = [\<lparr>range_start = 0, range_end = 4, data = 7\<rparr>, \<lparr>range_start = 4, range_end = 9, data = (7::nat)\<rparr>] in
   map_inv v \<and> (\<exists>w. DedupRangeMap_merge_adjacent_thorough (=) v = (Ok w :: (unit, _) outcome) \<and>
     DedupRangeMap_size w = 9 \<and> unmerged (=) w)"
proof -
  let ?v = "[\<lparr>range_start = 0, range_end = 4, data = 7\<rparr>, \<lparr>range_start = 4, range_end = 9, data = (7::nat)\<rparr>]"
  have "map_inv ?v" by (simp add: map_inv_def DedupRangeMap_size_def)
  moreover have "DedupRangeMap_size ?v = 9" by (simp add: DedupRangeMap_size_def)
  ultimately show ?thesis
    using merge_adjacent_thorough_correct [OF identity_equivp, of ?v] by (simp only: Let_def) metis
qed

end
