(* ===== verification/Range_Object_Map.thy ===== *)
theory Range_Object_Map
  imports Binary_Search
begin

text \<open>
  \<open>src/data_structures/range_object_map.rs\<close>: a vector of objects at disjoint, non-empty byte ranges,
  sorted by position. The store buffers of the weak memory emulation live in such a map. The ranges are
  the compiler's \<open>AllocRange\<close> (a start and a size); a sum that leaves \<open>u64\<close> and a difference below zero
  panic. The ranges of stored elements are parts of an allocation, so their ends are plain sums.
\<close>

section \<open>Model\<close>

record AllocRange =
  start :: nat
  bytes :: nat

definition range_stop :: "AllocRange \<Rightarrow> nat" where
  "range_stop r = start r + bytes r"

definition AllocRange_end :: "AllocRange \<Rightarrow> ('e, nat) outcome" where
  "AllocRange_end r = add_u64 (start r) (bytes r)"

record 'a ObjElem =
  obj_range :: AllocRange
  obj_data :: 'a

type_synonym 'a RangeObjectMap = "'a ObjElem list"

datatype AccessType =
    PerfectlyOverlapping nat
  | EmptyAt nat
  | ImperfectlyOverlapping nat nat

definition RangeObjectMap_new :: "'a RangeObjectMap" where
  "RangeObjectMap_new = []"

definition obj_cmp :: "nat \<Rightarrow> 'a ObjElem \<Rightarrow> ordering" where
  "obj_cmp offset elem =
     (if offset < start (obj_range elem) then Greater
      else if offset \<ge> range_stop (obj_range elem) then Less
      else Equal)"

definition RangeObjectMap_find_offset :: "'a RangeObjectMap \<Rightarrow> nat \<Rightarrow> nat + nat" where
  "RangeObjectMap_find_offset v offset = binary_search_by (obj_cmp offset) v"

text \<open>\<open>range.end() - Size::from_bytes(1)\<close>\<close>

definition last_offset :: "AllocRange \<Rightarrow> ('e, nat) outcome" where
  "last_offset r = obind (AllocRange_end r) (\<lambda>e. obind (check (1 \<le> e)) (\<lambda>_. Ok (e - 1)))"

definition access_type :: "'a RangeObjectMap \<Rightarrow> AllocRange \<Rightarrow> ('e, AccessType) outcome" where
  "access_type v rng =
     (case RangeObjectMap_find_offset v (start rng) of
        Inr pos \<Rightarrow>
          obind (vec_get v pos) (\<lambda>elem.
          if start (obj_range elem) = start rng \<and> bytes (obj_range elem) = bytes rng
          then Ok (PerfectlyOverlapping pos)
          else obind (last_offset rng) (\<lambda>last.
            let end_pos = (case RangeObjectMap_find_offset v last of
                             Inr inclusive_pos \<Rightarrow> inclusive_pos + 1
                           | Inl exclusive_pos \<Rightarrow> exclusive_pos)
            in Ok (ImperfectlyOverlapping pos end_pos)))
      | Inl pos \<Rightarrow>
          obind (last_offset rng) (\<lambda>last.
          case RangeObjectMap_find_offset v last of
            Inl end_pos \<Rightarrow>
              if pos = end_pos then Ok (EmptyAt pos) else Ok (ImperfectlyOverlapping pos end_pos)
          | Inr end_pos \<Rightarrow> Ok (ImperfectlyOverlapping pos (end_pos + 1))))"

definition insert_at_pos ::
  "'a RangeObjectMap \<Rightarrow> nat \<Rightarrow> AllocRange \<Rightarrow> 'a \<Rightarrow> ('e, 'a RangeObjectMap) outcome" where
  "insert_at_pos v pos rng d =
     obind (vec_insert pos \<lparr>obj_range = rng, obj_data = d\<rparr> v) (\<lambda>v.
     obind (if pos > 0
            then obind (vec_get v (pos - 1)) (\<lambda>prev. check (range_stop (obj_range prev) \<le> start rng))
            else Ok ()) (\<lambda>_.
     obind (if pos < length v - 1
            then obind (AllocRange_end rng) (\<lambda>stop.
                   obind (vec_get v (pos + 1)) (\<lambda>next. check (stop \<le> start (obj_range next))))
            else Ok ()) (\<lambda>_.
     Ok v)))"

text \<open>\<open>Vec::drain\<close> and \<open>Vec::remove\<close> panic out of range.\<close>

definition remove_pos_range :: "'a RangeObjectMap \<Rightarrow> nat \<Rightarrow> nat \<Rightarrow> ('e, 'a RangeObjectMap) outcome" where
  "remove_pos_range v a b = obind (check (a \<le> b \<and> b \<le> length v)) (\<lambda>_. Ok (take a v @ drop b v))"

definition remove_from_pos :: "'a RangeObjectMap \<Rightarrow> nat \<Rightarrow> ('e, 'a RangeObjectMap) outcome" where
  "remove_from_pos v pos = obind (check (pos < length v)) (\<lambda>_. Ok (take pos v @ drop (pos + 1) v))"

definition RangeObjectMap_iter :: "'a RangeObjectMap \<Rightarrow> 'a list" where
  "RangeObjectMap_iter v = map obj_data v"

definition RangeObjectMap_index :: "'a RangeObjectMap \<Rightarrow> nat \<Rightarrow> ('e, 'a) outcome" where
  "RangeObjectMap_index v pos = obind (vec_get v pos) (\<lambda>e. Ok (obj_data e))"

text \<open>An assignment through \<open>IndexMut\<close>.\<close>

definition RangeObjectMap_index_mut :: "('a \<Rightarrow> 'a) \<Rightarrow> 'a RangeObjectMap \<Rightarrow> nat \<Rightarrow> ('e, 'a RangeObjectMap) outcome" where
  "RangeObjectMap_index_mut f v pos =
     obind (vec_get v pos) (\<lambda>e. Ok (v[pos := e\<lparr>obj_data := f (obj_data e)\<rparr>]))"

section \<open>Invariant\<close>

abbreviation ordered_objs :: "'a ObjElem \<Rightarrow> 'a ObjElem \<Rightarrow> bool" where
  "ordered_objs x y \<equiv> range_stop (obj_range x) \<le> start (obj_range y)"

definition object_inv :: "'a RangeObjectMap \<Rightarrow> bool" where
  "object_inv v \<longleftrightarrow> sorted_wrt ordered_objs v \<and> (\<forall>x\<in>set v. 0 < bytes (obj_range x))"

text \<open>Two ranges share a byte.\<close>

definition overlap :: "AllocRange \<Rightarrow> AllocRange \<Rightarrow> bool" where
  "overlap r s \<longleftrightarrow> start r < range_stop s \<and> start s < range_stop r"

lemma object_inv_nth:
  "object_inv v \<Longrightarrow> i < j \<Longrightarrow> j < length v \<Longrightarrow> ordered_objs (v ! i) (v ! j)"
  "object_inv v \<Longrightarrow> i < length v \<Longrightarrow> start (obj_range (v ! i)) < range_stop (obj_range (v ! i))"
proof -
  show "object_inv v \<Longrightarrow> i < j \<Longrightarrow> j < length v \<Longrightarrow> ordered_objs (v ! i) (v ! j)"
    unfolding object_inv_def by (blast dest: sorted_wrt_nth_less)
  show "object_inv v \<Longrightarrow> i < length v \<Longrightarrow> start (obj_range (v ! i)) < range_stop (obj_range (v ! i))"
    by (simp add: object_inv_def range_stop_def)
qed

interpretation objs: ordered_slice obj_cmp object_inv
proof
  fix v :: "'a RangeObjectMap" and i j k
  assume a: "object_inv v" "i < j" "j < length v"
  from object_inv_nth(1) [OF a] object_inv_nth(2) [OF a(1), of i] object_inv_nth(2) [OF a(1,3)] a(2,3)
  show "obj_cmp k (v ! i) = Less \<or> obj_cmp k (v ! j) = Greater"
    by (auto simp: obj_cmp_def)
qed

lemma object_inv_remove: "object_inv v \<Longrightarrow> a \<le> b \<Longrightarrow> object_inv (take a v @ drop b v)"
proof -
  assume i: "object_inv v" and ab: "a \<le> b"
  have s: "sorted_wrt ordered_objs (take a v @ take (b - a) (drop a v) @ drop b v)"
    using i ab by (simp add: object_inv_def flip: take_add append_assoc)
  then have "sorted_wrt ordered_objs (take a v @ drop b v)"
    by (simp add: sorted_wrt_append)
  with i show ?thesis by (auto simp: object_inv_def dest: in_set_takeD in_set_dropD)
qed

lemma object_inv_insert:
  assumes i: "object_inv v" and r: "0 < bytes rng" and pos: "pos \<le> length v"
    and before: "\<forall>j<pos. range_stop (obj_range (v ! j)) \<le> start rng"
    and after: "\<forall>j<length v. pos \<le> j \<longrightarrow> range_stop rng \<le> start (obj_range (v ! j))"
  shows "object_inv (take pos v @ \<lparr>obj_range = rng, obj_data = d\<rparr> # drop pos v)"
proof -
  have "range_stop (obj_range x) \<le> start rng" if "x \<in> set (take pos v)" for x
    using that before pos by (auto simp: in_set_conv_nth)
  moreover have "range_stop rng \<le> start (obj_range y)" if "y \<in> set (drop pos v)" for y
    using that after by (auto simp: in_set_conv_nth)
  moreover have "sorted_wrt ordered_objs (take pos v @ drop pos v)"
    using i unfolding object_inv_def append_take_drop_id by blast
  ultimately show ?thesis
    using i r unfolding object_inv_def sorted_wrt_append
    by (auto dest: in_set_takeD in_set_dropD)
qed

text \<open>The first element that ends behind an offset, and the first one that starts behind it.\<close>

definition first_ending :: "'a RangeObjectMap \<Rightarrow> nat \<Rightarrow> nat" where
  "first_ending v off = (case RangeObjectMap_find_offset v off of Inl p \<Rightarrow> p | Inr p \<Rightarrow> p)"

definition first_starting :: "'a RangeObjectMap \<Rightarrow> nat \<Rightarrow> nat" where
  "first_starting v off = (case RangeObjectMap_find_offset v off of Inl p \<Rightarrow> p | Inr p \<Rightarrow> p + 1)"

lemma first_ending:
  assumes "object_inv v" "j < length v"
  shows "j < first_ending v off \<longleftrightarrow> range_stop (obj_range (v ! j)) \<le> off"
proof (cases "RangeObjectMap_find_offset v off")
  case (Inl p)
  then have "binary_search_by (obj_cmp off) v = Inl p" by (simp add: RangeObjectMap_find_offset_def)
  note objs.search_not_found [OF assms(1) this]
  with assms(2) have "(j < p \<longrightarrow> obj_cmp off (v ! j) = Less) \<and> (p \<le> j \<longrightarrow> obj_cmp off (v ! j) = Greater)" by blast
  with object_inv_nth(2) [OF assms] Inl show ?thesis
    by (auto simp: first_ending_def obj_cmp_def split: if_splits)
next
  case (Inr p)
  then have "binary_search_by (obj_cmp off) v = Inr p" by (simp add: RangeObjectMap_find_offset_def)
  then have p: "p < length v" "start (obj_range (v ! p)) \<le> off" "off < range_stop (obj_range (v ! p))"
    using objs.search_found [OF assms(1), of off p] by (auto simp: obj_cmp_def split: if_splits)
  consider "j < p" | "j = p" | "p < j" by linarith
  then show ?thesis
    using p Inr assms(2) object_inv_nth(1) [OF assms(1), of j p] object_inv_nth(1) [OF assms(1), of p j]
      object_inv_nth(2) [OF assms]
    by cases (auto simp: first_ending_def)
qed

lemma first_starting:
  assumes "object_inv v" "j < length v"
  shows "j < first_starting v off \<longleftrightarrow> start (obj_range (v ! j)) \<le> off"
proof (cases "RangeObjectMap_find_offset v off")
  case (Inl p)
  then have "binary_search_by (obj_cmp off) v = Inl p" by (simp add: RangeObjectMap_find_offset_def)
  note objs.search_not_found [OF assms(1) this]
  with assms(2) have "(j < p \<longrightarrow> obj_cmp off (v ! j) = Less) \<and> (p \<le> j \<longrightarrow> obj_cmp off (v ! j) = Greater)" by blast
  with object_inv_nth(2) [OF assms] Inl show ?thesis
    by (auto simp: first_starting_def obj_cmp_def split: if_splits)
next
  case (Inr p)
  then have "binary_search_by (obj_cmp off) v = Inr p" by (simp add: RangeObjectMap_find_offset_def)
  then have p: "p < length v" "start (obj_range (v ! p)) \<le> off" "off < range_stop (obj_range (v ! p))"
    using objs.search_found [OF assms(1), of off p] by (auto simp: obj_cmp_def split: if_splits)
  consider "j < p" | "j = p" | "p < j" by linarith
  then show ?thesis
    using p Inr assms(2) object_inv_nth(1) [OF assms(1), of j p] object_inv_nth(1) [OF assms(1), of p j]
      object_inv_nth(2) [OF assms]
    by cases (auto simp: first_starting_def)
qed

lemma search_in_bounds:
  assumes "object_inv v"
  shows "first_starting v off \<le> length v" "first_ending v off \<le> first_starting v off"
    "RangeObjectMap_find_offset v off = Inr p \<Longrightarrow> p < length v"
  using objs.search_found [OF assms, of off] objs.search_not_found [OF assms, of off]
  by (auto simp: first_starting_def first_ending_def RangeObjectMap_find_offset_def Suc_le_eq split: sum.split)

text \<open>The elements that share a byte with a range are a slice of the vector.\<close>

lemma overlap_slice:
  assumes "object_inv v" "0 < bytes rng" "j < length v"
  shows "overlap rng (obj_range (v ! j)) \<longleftrightarrow>
    first_ending v (start rng) \<le> j \<and> j < first_starting v (range_stop rng - 1)"
  using first_ending [OF assms(1,3), of "start rng"] first_starting [OF assms(1,3), of "range_stop rng - 1"] assms(2)
  by (auto simp: overlap_def range_stop_def)

lemma last_offset_Ok: "0 < bytes rng \<Longrightarrow> range_stop rng < 2 ^ 64 \<Longrightarrow> last_offset rng = Ok (range_stop rng - 1)"
  by (simp add: last_offset_def AllocRange_end_def range_stop_def)

text \<open>\<open>access_type\<close> in terms of the slice of overlapping elements.\<close>

lemma access_type_slice:
  fixes rng
  assumes i: "object_inv v" and r: "0 < bytes rng" "range_stop rng < 2 ^ 64"
  defines "a \<equiv> first_ending v (start rng)" and "b \<equiv> first_starting v (range_stop rng - 1)"
  shows "access_type v rng =
    (if a < length v \<and> obj_range (v ! a) = rng then Ok (PerfectlyOverlapping a)
     else if a = b then Ok (EmptyAt a) else Ok (ImperfectlyOverlapping a b))"
proof (cases "RangeObjectMap_find_offset v (start rng)")
  case (Inl p)
  then have a: "a = p" by (simp add: a_def first_ending_def)
  have "start rng < start (obj_range (v ! p))" if "p < length v"
    using first_starting [OF i that, of "start rng"] Inl by (simp add: first_starting_def)
  then have ne: "\<not> (a < length v \<and> obj_range (v ! a) = rng)" using a by auto
  show ?thesis
  proof (cases "RangeObjectMap_find_offset v (range_stop rng - 1)")
    case q: (Inl q)
    with a ne Inl show ?thesis
      by (auto simp: access_type_def last_offset_Ok [OF r] b_def first_starting_def)
  next
    case q: (Inr q)
    have "a \<noteq> b"
    proof
      assume "a = b"
      with q a have "q < first_ending v (start rng)" by (simp add: b_def first_starting_def a_def)
      with first_ending [OF i search_in_bounds(3) [OF i q]]
      have "range_stop (obj_range (v ! q)) \<le> start rng" by simp
      moreover have "range_stop rng - 1 < range_stop (obj_range (v ! q))"
        using first_ending [OF i search_in_bounds(3) [OF i q], of "range_stop rng - 1"] q
        by (simp add: first_ending_def)
      ultimately show False using r(1) by (simp add: range_stop_def)
    qed
    with a ne Inl q show ?thesis
      by (simp add: access_type_def last_offset_Ok [OF r] b_def first_starting_def)
  qed
next
  case (Inr p)
  have p: "p < length v" by (rule search_in_bounds(3) [OF i Inr])
  from Inr have a: "a = p" by (simp add: a_def first_ending_def)
  have "p < first_starting v (start rng)" using Inr by (simp add: first_starting_def)
  then have "start (obj_range (v ! p)) \<le> range_stop rng - 1"
    using first_starting [OF i p, of "start rng"] r(1) by (simp add: range_stop_def)
  with first_starting [OF i p, of "range_stop rng - 1"] a have "a \<noteq> b" by (simp add: b_def)
  with Inr p a show ?thesis
    by (simp add: access_type_def last_offset_Ok [OF r] b_def first_starting_def Let_def)
qed

lemma first_ending_own:
  assumes i: "object_inv v" and j: "j < length v" "obj_range (v ! j) = rng" and r: "0 < bytes rng"
  shows "first_ending v (start rng) = j"
proof -
  let ?a = "first_ending v (start rng)"
  have "\<not> j < ?a" using first_ending [OF i j(1)] j(2) r by (auto simp: range_stop_def)
  moreover have "\<not> ?a < j"
  proof
    assume "?a < j"
    with object_inv_nth(1) [OF i this j(1)] first_ending [OF i, of ?a "start rng"] j show False
      by simp
  qed
  ultimately show ?thesis by simp
qed

lemma slice_ordered:
  assumes i: "object_inv v" and r: "0 < bytes rng"
  shows "first_ending v (start rng) \<le> first_starting v (range_stop rng - 1)" (is "?a \<le> ?b")
proof (rule ccontr)
  assume "\<not> ?a \<le> ?b"
  then have ba: "?b < ?a" by simp
  then have "?b < length v"
    using search_in_bounds [OF i, of "start rng"] by linarith
  with ba show False
    using first_ending [OF i, of ?b "start rng"] first_starting [OF i, of ?b "range_stop rng - 1"]
      object_inv_nth(2) [OF i, of ?b] r by (simp add: range_stop_def)
qed

lemma beside_slice:
  assumes "object_inv v" "0 < bytes rng" "j < length v"
  shows "j < first_ending v (start rng) \<Longrightarrow> range_stop (obj_range (v ! j)) \<le> start rng"
    "first_starting v (range_stop rng - 1) \<le> j \<Longrightarrow> range_stop rng \<le> start (obj_range (v ! j))"
  using first_ending [OF assms(1,3), of "start rng"] first_starting [OF assms(1,3), of "range_stop rng - 1"] assms(2)
  by (auto simp: range_stop_def)

lemma insert_no_overlap:
  assumes i: "object_inv v" and r: "0 < bytes rng" "range_stop rng < 2 ^ 64" and pos: "pos \<le> length v"
    and before: "\<forall>j<pos. range_stop (obj_range (v ! j)) \<le> start rng"
    and after: "\<forall>j<length v. pos \<le> j \<longrightarrow> range_stop rng \<le> start (obj_range (v ! j))"
  shows "\<exists>w. insert_at_pos v pos rng d = Ok w \<and> object_inv w \<and>
    w = take pos v @ \<lparr>obj_range = rng, obj_data = d\<rparr> # drop pos v"
proof -
  have "range_stop (obj_range (v ! (pos - 1))) \<le> start rng" if "0 < pos" using before that by simp
  moreover have "range_stop rng \<le> start (obj_range (v ! pos))" if "pos < length v" using after that by simp
  ultimately have "insert_at_pos v pos rng d = Ok (take pos v @ \<lparr>obj_range = rng, obj_data = d\<rparr> # drop pos v)"
    using pos r(2) by (cases pos) (auto simp: insert_at_pos_def AllocRange_end_def nth_append range_stop_def
        Cons_nth_drop_Suc [symmetric])
  with object_inv_insert [OF i r(1) pos before after, of d] show ?thesis by blast
qed

section \<open>Properties\<close>

text \<open>C8: \<open>access_type\<close> classifies a non-empty range exactly. It answers \<open>PerfectlyOverlapping\<close> with the
  position of the object at just this range; \<open>Empty\<close> only if no object shares a byte with the range, and
  then inserting at the reported position succeeds and keeps the objects sorted and disjoint; and
  otherwise the non-empty slice of exactly those objects that share a byte with the range.\<close>

theorem access_type_exact:
  assumes "object_inv v" "0 < bytes rng" "range_stop rng < 2 ^ 64"
  shows "case (access_type v rng :: (unit, _) outcome) of
      Ok (PerfectlyOverlapping p) \<Rightarrow> p < length v \<and> obj_range (v ! p) = rng
    | Ok (EmptyAt p) \<Rightarrow> (\<forall>x\<in>set v. \<not> overlap rng (obj_range x)) \<and>
        (\<exists>w. insert_at_pos v p rng d = (Ok w :: (unit, _) outcome) \<and> object_inv w)
    | Ok (ImperfectlyOverlapping a b) \<Rightarrow> a < b \<and> b \<le> length v \<and>
        (\<forall>j<length v. overlap rng (obj_range (v ! j)) \<longleftrightarrow> a \<le> j \<and> j < b) \<and>
        (\<forall>x\<in>set v. obj_range x \<noteq> rng)
    | _ \<Rightarrow> False"
proof -
  let ?a = "first_ending v (start rng)" and ?b = "first_starting v (range_stop rng - 1)"
  note slice = overlap_slice [OF assms(1,2)]
  have hit: "?a < length v \<and> obj_range (v ! ?a) = rng" if "j < length v" "obj_range (v ! j) = rng" for j
    using first_ending_own [OF assms(1) that assms(2)] that by simp
  have le: "?b \<le> length v" by (rule search_in_bounds(1) [OF assms(1)])
  have ab: "?a \<le> ?b" by (rule slice_ordered [OF assms(1,2)])
  show ?thesis
  proof (cases "?a < length v \<and> obj_range (v ! ?a) = rng")
    case True
    then show ?thesis by (simp add: access_type_slice [OF assms])
  next
    case False
    show ?thesis
    proof (cases "?a = ?b")
      case True
      have "\<exists>w. insert_at_pos v ?a rng d = (Ok w :: (unit, _) outcome) \<and> object_inv w"
        using insert_no_overlap [OF assms, of ?a d] beside_slice [OF assms(1,2)] le True by (metis less_le_trans)
      moreover have "\<forall>x\<in>set v. \<not> overlap rng (obj_range x)"
        using slice True by (auto simp: in_set_conv_nth)
      ultimately show ?thesis using False True by (simp add: access_type_slice [OF assms])
    next
      case ne: False
      have "\<forall>x\<in>set v. obj_range x \<noteq> rng" using hit False by (metis in_set_conv_nth)
      then show ?thesis using False ne ab le slice by (simp add: access_type_slice [OF assms])
    qed
  qed
qed

theorem access_type_exact_witness:
  "let v = [\<lparr>obj_range = \<lparr>start = 4, bytes = 4\<rparr>, obj_data = ()\<rparr>, \<lparr>obj_range = \<lparr>start = 10, bytes = 2\<rparr>, obj_data = ()\<rparr>] in
   object_inv v \<and> access_type v \<lparr>start = 6, bytes = 8\<rparr> = (Ok (ImperfectlyOverlapping 0 2) :: (unit, _) outcome) \<and>
   (\<forall>j<2. overlap \<lparr>start = 6, bytes = 8\<rparr> (obj_range (v ! j)))"
proof -
  let ?v = "[\<lparr>obj_range = \<lparr>start = 4, bytes = 4\<rparr>, obj_data = ()\<rparr>, \<lparr>obj_range = \<lparr>start = 10, bytes = 2\<rparr>, obj_data = ()\<rparr>]"
  let ?r = "\<lparr>start = 6, bytes = 8\<rparr>"
  have i: "object_inv ?v" by (simp add: object_inv_def range_stop_def)
  have run: "access_type ?v ?r = (Ok (ImperfectlyOverlapping 0 2) :: (unit, _) outcome)" by code_simp
  have "0 < bytes ?r" "range_stop ?r < 2 ^ 64" by (simp_all add: range_stop_def)
  from access_type_exact [OF i this] run i show ?thesis by (auto simp: Let_def less_Suc_eq numeral_2_eq_2)
qed

text \<open>Dropping the objects that a range overlaps imperfectly makes room for it: afterwards the range
  is empty at the position where the slice began, and an object inserted there is found again by a
  second look at the same range.\<close>

theorem replace_overlapping:
  assumes "object_inv v" "0 < bytes rng" "range_stop rng < 2 ^ 64"
    and "access_type v rng = (Ok (ImperfectlyOverlapping a b) :: (unit, _) outcome)"
  shows "\<exists>u w. remove_pos_range v a b = (Ok u :: (unit, _) outcome) \<and> object_inv u \<and>
    insert_at_pos u a rng d = (Ok w :: (unit, _) outcome) \<and> object_inv w \<and>
    access_type w rng = (Ok (PerfectlyOverlapping a) :: (unit, _) outcome) \<and>
    RangeObjectMap_index w a = (Ok d :: (unit, _) outcome)"
proof -
  note cls = access_type_slice [OF assms(1-3), where 'b = unit]
  have a: "a = first_ending v (start rng)" and b: "b = first_starting v (range_stop rng - 1)"
    using assms(4) by (auto simp: cls split: if_splits)
  have le: "a < b" "b \<le> length v"
    using assms(4) slice_ordered [OF assms(1,2)] search_in_bounds(1) [OF assms(1)]
    by (auto simp: cls a b split: if_splits)
  let ?u = "take a v @ drop b v"
  have u: "object_inv ?u" by (rule object_inv_remove [OF assms(1)]) (use le in simp)
  have au: "a \<le> length ?u" using le by simp
  have "\<forall>j<a. range_stop (obj_range (?u ! j)) \<le> start rng"
    using beside_slice(1) [OF assms(1,2)] le a by (auto simp: nth_append)
  moreover have "\<forall>j<length ?u. a \<le> j \<longrightarrow> range_stop rng \<le> start (obj_range (?u ! j))"
    using beside_slice(2) [OF assms(1,2)] le b by (auto simp: nth_append)
  ultimately obtain w where w: "insert_at_pos ?u a rng d = (Ok w :: (unit, _) outcome)" "object_inv w"
    "w = take a ?u @ \<lparr>obj_range = rng, obj_data = d\<rparr> # drop a ?u"
    using insert_no_overlap [OF u assms(2,3) _, of a d] au by blast
  have len: "length (take a ?u) = a" using le by simp
  have at: "a < length w" "w ! a = \<lparr>obj_range = rng, obj_data = d\<rparr>"
    using len w(3) by (simp, metis nth_append_length)
  have "access_type w rng = (Ok (PerfectlyOverlapping a) :: (unit, _) outcome)"
    using access_type_slice [OF w(2) assms(2,3)] first_ending_own [OF w(2) at(1) _ assms(2)] at by simp
  moreover have "remove_pos_range v a b = (Ok ?u :: (unit, _) outcome)"
    using le by (simp add: remove_pos_range_def)
  moreover have "RangeObjectMap_index w a = (Ok d :: (unit, _) outcome)"
    using at by (simp add: RangeObjectMap_index_def)
  ultimately show ?thesis using u w by blast
qed

theorem replace_overlapping_witness:
  "let v = [\<lparr>obj_range = \<lparr>start = 4, bytes = 4\<rparr>, obj_data = CHR ''x''\<rparr>]; r = \<lparr>start = 6, bytes = 8\<rparr> in
   access_type v r = (Ok (ImperfectlyOverlapping 0 1) :: (unit, _) outcome) \<and>
   (\<exists>u w. remove_pos_range v 0 1 = (Ok u :: (unit, _) outcome) \<and>
     insert_at_pos u 0 r CHR ''y'' = (Ok w :: (unit, _) outcome) \<and>
     RangeObjectMap_index w 0 = (Ok CHR ''y'' :: (unit, _) outcome))"
proof -
  let ?v = "[\<lparr>obj_range = \<lparr>start = 4, bytes = 4\<rparr>, obj_data = CHR ''x''\<rparr>]"
  let ?r = "\<lparr>start = 6, bytes = 8\<rparr>"
  have run: "access_type ?v ?r = (Ok (ImperfectlyOverlapping 0 1) :: (unit, _) outcome)" by code_simp
  have "object_inv ?v" "0 < bytes ?r" "range_stop ?r < 2 ^ 64" by (simp_all add: object_inv_def range_stop_def)
  from replace_overlapping [OF this run, of "CHR ''y''"] run show ?thesis unfolding Let_def by blast
qed

end
