(* ===== verification/Borrow_Tracker.thy ===== *)
theory Borrow_Tracker
  imports Prelude
begin

text \<open>
  The state that both borrow trackers share, \<open>src/borrow_tracker/mod.rs\<close>: pointer tags, protectors and
  the per-frame list of protected tags. \<open>BorTag\<close> is \<open>NonZero<u64>\<close>; the constructor function rejects 0
  and the successor is checked. The hash maps of the global state are only looked up and updated, so
  they are partial functions. Emitting a diagnostic for a tracked tag has no effect on the state.
  \<open>AllocId\<close> and \<open>RetagMode\<close> are types of the compiler.
\<close>

section \<open>Model\<close>

datatype AccessKind = Read | Write

type_synonym BorTag = "64 word"

type_synonym AllocId = nat

datatype ProvenanceExtra = Concrete BorTag | Wildcard

datatype RetagMode = RetagDefault | RetagFnEntry | RetagTwoPhase | RetagRaw | RetagNone

definition BorTag_new :: "64 word \<Rightarrow> BorTag option" where
  "BorTag_new i = (if i = 0 then None else Some i)"

definition BorTag_get :: "BorTag \<Rightarrow> 64 word" where
  "BorTag_get tag = tag"

definition BorTag_succ :: "BorTag \<Rightarrow> BorTag option" where
  "BorTag_succ tag = (if tag = - 1 then None else Some (tag + 1))"

definition BorTag_one :: BorTag where
  "BorTag_one = 1"

record FrameState =
  frame_protected_tags :: "(AllocId \<times> BorTag) list"

datatype ProtectorKind = WeakProtector | StrongProtector

record TreeBorrowsParams =
  precise_interior_mut :: bool
  implicit_writes :: bool
  box_custom_allocator_unique :: bool

datatype BorrowTrackerMethod = StackedBorrows | TreeBorrows TreeBorrowsParams

record GlobalStateInner =
  borrow_tracker_method :: BorrowTrackerMethod
  retag_mode :: RetagMode
  next_ptr_tag :: BorTag
  root_ptr_tags :: "AllocId \<rightharpoonup> BorTag"
  protected_tags :: "BorTag \<rightharpoonup> ProtectorKind"
  tracked_pointer_tags :: "BorTag set"

definition GlobalStateInner_new :: "BorrowTrackerMethod \<Rightarrow> BorTag set \<Rightarrow> GlobalStateInner" where
  "GlobalStateInner_new method tracked =
     \<lparr>borrow_tracker_method = method, retag_mode = RetagDefault, next_ptr_tag = BorTag_one,
      root_ptr_tags = Map.empty, protected_tags = Map.empty, tracked_pointer_tags = tracked\<rparr>"

definition new_ptr :: "GlobalStateInner \<Rightarrow> ('e, GlobalStateInner \<times> BorTag) outcome" where
  "new_ptr g =
     (let aid = next_ptr_tag g in
      obind (unwrap (BorTag_succ aid)) (\<lambda>next. Ok (g\<lparr>next_ptr_tag := next\<rparr>, aid)))"

definition new_frame :: "GlobalStateInner \<Rightarrow> FrameState" where
  "new_frame g = \<lparr>frame_protected_tags = []\<rparr>"

definition end_call :: "GlobalStateInner \<Rightarrow> FrameState \<Rightarrow> GlobalStateInner" where
  "end_call g frame =
     fold (\<lambda>(_, tag) g. g\<lparr>protected_tags := (protected_tags g)(tag := None)\<rparr>) (frame_protected_tags frame) g"

definition root_ptr_tag :: "GlobalStateInner \<Rightarrow> AllocId \<Rightarrow> ('e, GlobalStateInner \<times> BorTag) outcome" where
  "root_ptr_tag g aid =
     (case root_ptr_tags g aid of
        Some tag \<Rightarrow> Ok (g, tag)
      | None \<Rightarrow>
          obind (new_ptr g) (\<lambda>(g, tag).
          obind (check (root_ptr_tags g aid = None)) (\<lambda>_.
          Ok (g\<lparr>root_ptr_tags := (root_ptr_tags g)(aid \<mapsto> tag)\<rparr>, tag))))"

text \<open>Which allocations are live is decided by the interpreter's memory, a parameter here.\<close>

definition remove_unreachable_allocs :: "GlobalStateInner \<Rightarrow> (AllocId \<Rightarrow> bool) \<Rightarrow> GlobalStateInner" where
  "remove_unreachable_allocs g is_live =
     g\<lparr>root_ptr_tags := (\<lambda>aid. if is_live aid then root_ptr_tags g aid else None)\<rparr>"

definition get_bortag :: "GlobalStateInner \<Rightarrow> AllocId \<Rightarrow> BorTag option" where
  "get_bortag g aid = root_ptr_tags g aid"

definition get_tree_borrows_params :: "BorrowTrackerMethod \<Rightarrow> ('e, TreeBorrowsParams) outcome" where
  "get_tree_borrows_params m = (case m of TreeBorrows params \<Rightarrow> Ok params | StackedBorrows \<Rightarrow> Panic)"

text \<open>Both retags register a protector: in the frame, and in the global table.\<close>

definition protect_tag ::
  "GlobalStateInner \<Rightarrow> FrameState \<Rightarrow> AllocId \<Rightarrow> BorTag \<Rightarrow> ProtectorKind \<Rightarrow> GlobalStateInner \<times> FrameState" where
  "protect_tag g frame alloc_id new_tag protect =
     (g\<lparr>protected_tags := (protected_tags g)(new_tag \<mapsto> protect)\<rparr>,
      frame\<lparr>frame_protected_tags := frame_protected_tags frame @ [(alloc_id, new_tag)]\<rparr>)"

definition is_protected :: "GlobalStateInner \<Rightarrow> BorTag \<Rightarrow> bool" where
  "is_protected g tag = (protected_tags g tag \<noteq> None)"

section \<open>Lemmas\<close>

definition global_inv :: "GlobalStateInner \<Rightarrow> bool" where
  "global_inv g \<longleftrightarrow> next_ptr_tag g \<noteq> 0 \<and>
     (\<forall>aid tag. root_ptr_tags g aid = Some tag \<longrightarrow> tag \<noteq> 0 \<and> tag < next_ptr_tag g) \<and>
     (\<forall>a b tag. root_ptr_tags g a = Some tag \<longrightarrow> root_ptr_tags g b = Some tag \<longrightarrow> a = b) \<and>
     (\<forall>tag. is_protected g tag \<longrightarrow> tag < next_ptr_tag g)"

lemma BorTag_succ_greater:
  assumes "BorTag_succ tag = Some t" shows "tag < t \<and> t \<noteq> 0"
proof -
  from assms have t: "t = 1 + tag" "tag \<noteq> - 1" by (auto simp: BorTag_succ_def split: if_splits)
  then have "1 + tag \<noteq> 0" by (metis add_eq_0_iff)
  with t show ?thesis by (simp add: word_less_nat_alt unatSuc)
qed

lemma new_ptr_Ok:
  assumes "new_ptr g = Ok (g', tag)"
  shows "tag = next_ptr_tag g" "tag < next_ptr_tag g'" "next_ptr_tag g' \<noteq> 0"
    "g' = g\<lparr>next_ptr_tag := next_ptr_tag g'\<rparr>"
  using assms BorTag_succ_greater [of "next_ptr_tag g"] by (auto simp: new_ptr_def Let_def outcome_eqs)

lemma global_inv_new: "global_inv (GlobalStateInner_new m t)"
  by (simp add: global_inv_def GlobalStateInner_new_def is_protected_def BorTag_one_def)

lemma global_inv_new_ptr:
  assumes i: "global_inv g" and r: "new_ptr g = Ok (g', tag)"
  shows "global_inv g'" "root_ptr_tags g' = root_ptr_tags g"
proof -
  note r = new_ptr_Ok [OF r]
  show roots: "root_ptr_tags g' = root_ptr_tags g" by (subst r(4)) simp
  have prots: "protected_tags g' = protected_tags g" by (subst r(4)) simp
  have "tag < next_ptr_tag g'" if "tag < next_ptr_tag g" for tag using r(1,2) that by (metis order.strict_trans)
  then show "global_inv g'"
    using i r(3) by (auto simp: global_inv_def is_protected_def roots prots)
qed

lemma root_ptr_tag_Ok:
  assumes i: "global_inv g" and r: "root_ptr_tag g aid = Ok (g', tag)"
  shows "global_inv g'" "get_bortag g' aid = Some tag" "a \<noteq> aid \<Longrightarrow> get_bortag g' a = get_bortag g a"
    "root_ptr_tags g aid = None \<Longrightarrow> tag = next_ptr_tag g \<and> tag < next_ptr_tag g'"
    "root_ptr_tags g aid = Some t \<Longrightarrow> g' = g \<and> tag = t"
proof -
  have *: "global_inv g' \<and> get_bortag g' aid = Some tag \<and> (a \<noteq> aid \<longrightarrow> get_bortag g' a = get_bortag g a) \<and>
    (root_ptr_tags g aid = None \<longrightarrow> tag = next_ptr_tag g \<and> tag < next_ptr_tag g') \<and>
    (\<forall>t. root_ptr_tags g aid = Some t \<longrightarrow> g' = g \<and> tag = t)" for a
  proof (cases "root_ptr_tags g aid")
    case (Some t)
    with r i show ?thesis by (simp add: root_ptr_tag_def get_bortag_def)
  next
    case None
    with r obtain g1 where g1: "new_ptr g = (Ok (g1, tag) :: ('a, _) outcome)"
      "g' = g1\<lparr>root_ptr_tags := (root_ptr_tags g1)(aid \<mapsto> tag)\<rparr>"
      by (auto simp: root_ptr_tag_def outcome_eqs split: if_splits)
    note n = new_ptr_Ok [OF g1(1)] and gi = global_inv_new_ptr [OF i g1(1)]
    have fresh: "root_ptr_tags g1 b \<noteq> Some tag" for b
      using i n(1) gi(2) unfolding global_inv_def by (metis order.irrefl)
    have "tag \<noteq> 0" using i n(1) by (simp add: global_inv_def)
    with gi(1) n(2) fresh have "global_inv g'"
      unfolding global_inv_def g1(2) is_protected_def
      by (auto split: if_splits)
    with n gi(2) None show ?thesis by (simp add: g1(2) get_bortag_def)
  qed
  from * show "global_inv g'" "get_bortag g' aid = Some tag" "a \<noteq> aid \<Longrightarrow> get_bortag g' a = get_bortag g a"
    "root_ptr_tags g aid = None \<Longrightarrow> tag = next_ptr_tag g \<and> tag < next_ptr_tag g'"
    "root_ptr_tags g aid = Some t \<Longrightarrow> g' = g \<and> tag = t" by blast+
qed

lemma end_call_protected:
  "protected_tags (end_call g frame) tag =
     (if tag \<in> snd ` set (frame_protected_tags frame) then None else protected_tags g tag)"
  "next_ptr_tag (end_call g frame) = next_ptr_tag g" "root_ptr_tags (end_call g frame) = root_ptr_tags g"
proof -
  let ?step = "\<lambda>(_ :: AllocId, tag) g. g\<lparr>protected_tags := (protected_tags g)(tag := None)\<rparr> :: GlobalStateInner"
  have "protected_tags (fold ?step ps g) tag = (if tag \<in> snd ` set ps then None else protected_tags g tag) \<and>
    next_ptr_tag (fold ?step ps g) = next_ptr_tag g \<and> root_ptr_tags (fold ?step ps g) = root_ptr_tags g" for ps g
    by (induction ps arbitrary: g) (auto split: prod.splits)
  then show "protected_tags (end_call g frame) tag =
      (if tag \<in> snd ` set (frame_protected_tags frame) then None else protected_tags g tag)"
    "next_ptr_tag (end_call g frame) = next_ptr_tag g" "root_ptr_tags (end_call g frame) = root_ptr_tags g"
    unfolding end_call_def by blast+
qed

lemma end_call_inv: "global_inv g \<Longrightarrow> global_inv (end_call g frame)"
  by (auto simp: global_inv_def is_protected_def end_call_protected split: if_splits)

lemma gc_inv: "global_inv g \<Longrightarrow> global_inv (remove_unreachable_allocs g live)"
  by (auto simp: global_inv_def is_protected_def remove_unreachable_allocs_def split: if_splits)

text \<open>The operations on the global state, with the list of the tags handed out so far.\<close>

datatype global_op = OpNewPtr | OpRootPtr AllocId | OpEndCall FrameState | OpRemoveUnreachable "AllocId \<Rightarrow> bool"

fun global_step :: "global_op \<Rightarrow> GlobalStateInner \<times> BorTag list \<Rightarrow> ('e, GlobalStateInner \<times> BorTag list) outcome" where
  "global_step OpNewPtr (g, issued) = obind (new_ptr g) (\<lambda>(g, tag). Ok (g, issued @ [tag]))"
| "global_step (OpRootPtr aid) (g, issued) =
     obind (root_ptr_tag g aid) (\<lambda>(g', tag). Ok (g', if root_ptr_tags g aid = None then issued @ [tag] else issued))"
| "global_step (OpEndCall frame) (g, issued) = Ok (end_call g frame, issued)"
| "global_step (OpRemoveUnreachable live) (g, issued) = Ok (remove_unreachable_allocs g live, issued)"

definition issued_inv :: "GlobalStateInner \<times> BorTag list \<Rightarrow> bool" where
  "issued_inv x \<longleftrightarrow> global_inv (fst x) \<and> sorted_wrt (<) (snd x) \<and> (\<forall>tag\<in>set (snd x). tag \<noteq> 0 \<and> tag < next_ptr_tag (fst x))"

lemma issued_extend:
  assumes "issued_inv (g, ts)" "global_inv g'" "tag = next_ptr_tag g" "tag < next_ptr_tag g'"
  shows "issued_inv (g', ts @ [tag])"
  using assms by (fastforce simp: issued_inv_def global_inv_def sorted_wrt_append)

lemma global_step_inv:
  assumes i: "issued_inv x" and s: "global_step op x = Ok y"
  shows "issued_inv y"
proof -
  obtain g ts where x: "x = (g, ts)" by (cases x)
  have gi: "global_inv g" using i by (simp add: x issued_inv_def)
  show ?thesis
  proof (cases op)
    case OpNewPtr
    with s x obtain g' tag where r: "new_ptr g = (Ok (g', tag) :: ('a, _) outcome)" "y = (g', ts @ [tag])"
      by (auto simp: outcome_eqs)
    from issued_extend [OF i [unfolded x]] global_inv_new_ptr(1) [OF gi r(1)] new_ptr_Ok(1,2) [OF r(1)] r(2)
    show ?thesis by simp
  next
    case (OpRootPtr aid)
    with s x obtain g' tag where r: "root_ptr_tag g aid = (Ok (g', tag) :: ('a, _) outcome)"
      "y = (g', if root_ptr_tags g aid = None then ts @ [tag] else ts)"
      by (auto simp: outcome_eqs)
    note o = root_ptr_tag_Ok [OF gi r(1)]
    show ?thesis
    proof (cases "root_ptr_tags g aid")
      case None
      have "issued_inv (g', ts @ [tag])"
        by (rule issued_extend [OF i [unfolded x] o(1)]) (use o(4) [OF None] in auto)
      with None r(2) show ?thesis by simp
    next
      case (Some t)
      with o(5) [OF Some] i x r(2) show ?thesis by simp
    qed
  next
    case (OpEndCall frame)
    with s i x end_call_inv [OF gi] show ?thesis by (auto simp: issued_inv_def end_call_protected)
  next
    case (OpRemoveUnreachable live)
    with s i x gc_inv [OF gi] show ?thesis by (auto simp: issued_inv_def remove_unreachable_allocs_def)
  qed
qed

section \<open>Properties\<close>

text \<open>C10: Tags are never reused: over any sequence of operations on a fresh global state, the tags handed
  out are non-zero and strictly increasing, the root tags of different allocations differ, and every
  root tag and every protected tag is older than the next tag.\<close>

theorem tags_are_fresh:
  assumes "ofold global_step ops (GlobalStateInner_new method tracked, []) = (Ok (g, issued) :: (unit, _) outcome)"
  shows "sorted_wrt (<) issued \<and> 0 \<notin> set issued \<and> (\<forall>tag\<in>set issued. tag < next_ptr_tag g) \<and>
    inj_on (get_bortag g) (dom (get_bortag g)) \<and> (\<forall>tag\<in>ran (get_bortag g). tag < next_ptr_tag g)"
proof -
  have "issued_inv (GlobalStateInner_new method tracked, [])"
    by (simp add: issued_inv_def global_inv_new)
  with assms have i: "issued_inv (g, issued)"
    by (rule ofold_invariant [where P = issued_inv]) (rule global_step_inv)
  then have gi: "global_inv g" by (simp add: issued_inv_def)
  then have "inj_on (get_bortag g) (dom (get_bortag g))"
    unfolding global_inv_def inj_on_def get_bortag_def dom_def by auto
  moreover have "\<forall>tag\<in>ran (get_bortag g). tag < next_ptr_tag g"
    using gi by (auto simp: global_inv_def get_bortag_def ran_def)
  ultimately show ?thesis using i by (auto simp: issued_inv_def)
qed

theorem tags_are_fresh_witness:
  "\<exists>g. ofold global_step [OpNewPtr, OpRootPtr 7, OpRootPtr 8, OpRootPtr 7, OpNewPtr]
     (GlobalStateInner_new StackedBorrows {}, []) = (Ok (g, [1, 2, 3, 4]) :: (unit, _) outcome) \<and>
     inj_on (get_bortag g) (dom (get_bortag g))"
proof -
  let ?g = "(GlobalStateInner_new StackedBorrows {})\<lparr>next_ptr_tag := 5, root_ptr_tags := [7 \<mapsto> 2, 8 \<mapsto> 3]\<rparr>"
  have run: "ofold global_step [OpNewPtr, OpRootPtr 7, OpRootPtr 8, OpRootPtr 7, OpNewPtr]
     (GlobalStateInner_new StackedBorrows {}, []) = (Ok (?g, [1, 2, 3, 4]) :: (unit, _) outcome)"
    by (simp add: GlobalStateInner_new_def new_ptr_def root_ptr_tag_def BorTag_succ_def BorTag_one_def Let_def)
  from tags_are_fresh [OF run] run show ?thesis by blast
qed

text \<open>Every allocation has one root tag: asking for it always succeeds as long as there are tags
  left, gives the same answer from then on, and does not disturb the root tags of other allocations.\<close>

theorem root_tag_is_stable:
  assumes "global_inv g" "next_ptr_tag g \<noteq> - 1"
  shows "\<exists>g' tag. root_ptr_tag g aid = (Ok (g', tag) :: (unit, _) outcome) \<and> global_inv g' \<and>
    root_ptr_tag g' aid = (Ok (g', tag) :: (unit, _) outcome) \<and>
    (\<forall>a. a \<noteq> aid \<longrightarrow> get_bortag g' a = get_bortag g a \<and> get_bortag g' a \<noteq> Some tag)"
proof -
  obtain g' tag where r: "root_ptr_tag g aid = (Ok (g', tag) :: (unit, _) outcome)"
    using assms(2) by (cases "root_ptr_tags g aid")
      (auto simp: root_ptr_tag_def new_ptr_def Let_def BorTag_succ_def)
  note o = root_ptr_tag_Ok [OF assms(1) r]
  have "get_bortag g' a \<noteq> Some tag" if "a \<noteq> aid" for a
    using o(1,2) that unfolding global_inv_def get_bortag_def by blast
  with r o show ?thesis by (auto simp: root_ptr_tag_def get_bortag_def)
qed

theorem root_tag_is_stable_witness:
  "\<exists>g' tag. root_ptr_tag (GlobalStateInner_new StackedBorrows {}) 3 = (Ok (g', tag) :: (unit, _) outcome) \<and>
    root_ptr_tag g' 3 = (Ok (g', tag) :: (unit, _) outcome)"
proof -
  have "next_ptr_tag (GlobalStateInner_new StackedBorrows {}) \<noteq> - 1"
    by (simp add: GlobalStateInner_new_def BorTag_one_def)
  from root_tag_is_stable [OF global_inv_new this, of 3] show ?thesis by blast
qed

end
