(* ===== verification/TB_Perms.thy ===== *)
theory TB_Perms
  imports Borrow_Tracker
begin

text \<open>
  The permission state machine of Tree Borrows: \<open>src/borrow_tracker/tree_borrows/perms.rs\<close> and
  \<open>foreign_access_skipping.rs\<close>, with the access kinds of \<open>src/borrow_tracker/mod.rs\<close>, the relative
  positions of \<open>tree.rs\<close> and the wildcard access levels of \<open>wildcard.rs\<close>.

  \<open>Permission\<close> is the source's wrapper around the private enum \<open>PermissionPriv\<close>; the two are one type
  here. A transition returns \<open>None\<close> for undefined behaviour; a failed \<open>assert!\<close> is \<open>Panic\<close>.
\<close>

section \<open>Model\<close>

datatype AccessRelatedness = LocalAccess | ForeignAccess

definition is_foreign :: "AccessRelatedness \<Rightarrow> bool" where
  "is_foreign r = (r = ForeignAccess)"

datatype PermissionPriv = Cell | ReservedFrz bool | ReservedIM | Unique | Frozen | Disabled

type_synonym Permission = PermissionPriv

datatype IdempotentForeignAccess = SifaNone | SifaRead | SifaWrite

datatype WildcardAccessLevel = LevelNone | LevelRead | LevelWrite

fun perm_partial_cmp :: "PermissionPriv \<Rightarrow> PermissionPriv \<Rightarrow> ordering option" where
  "perm_partial_cmp a b =
     (if a = b then Some Equal
      else case (a, b) of
        (ReservedIM, ReservedFrz _) \<Rightarrow> None
      | (ReservedFrz _, ReservedIM) \<Rightarrow> None
      | (Cell, _) \<Rightarrow> None
      | (_, Cell) \<Rightarrow> None
      | (Disabled, _) \<Rightarrow> Some Greater
      | (_, Disabled) \<Rightarrow> Some Less
      | (Frozen, _) \<Rightarrow> Some Greater
      | (_, Frozen) \<Rightarrow> Some Less
      | (Unique, _) \<Rightarrow> Some Greater
      | (_, Unique) \<Rightarrow> Some Less
      | (ReservedIM, ReservedIM) \<Rightarrow> Some Equal
      | (ReservedFrz c1, ReservedFrz c2) \<Rightarrow>
          Some (if c1 = c2 then Equal else if c2 then Less else Greater))"

definition perm_le :: "PermissionPriv \<Rightarrow> PermissionPriv \<Rightarrow> bool" where
  "perm_le a b = (perm_partial_cmp a b = Some Less \<or> perm_partial_cmp a b = Some Equal)"

definition is_initial :: "PermissionPriv \<Rightarrow> bool" where
  "is_initial p = (case p of ReservedFrz False \<Rightarrow> True | Frozen \<Rightarrow> True | ReservedIM \<Rightarrow> True
     | Cell \<Rightarrow> True | Unique \<Rightarrow> True | _ \<Rightarrow> False)"

definition compatible_with_protector :: "PermissionPriv \<Rightarrow> bool" where
  "compatible_with_protector p = (\<not> (p = ReservedIM \<or> p = Cell))"

fun strongest_idempotent_foreign_access :: "PermissionPriv \<Rightarrow> bool \<Rightarrow> ('e, IdempotentForeignAccess) outcome" where
  "strongest_idempotent_foreign_access p prot =
     (case p of
        Cell \<Rightarrow> Ok SifaWrite
      | ReservedFrz conflicted \<Rightarrow> if prot \<and> \<not> conflicted then Ok SifaNone else Ok SifaRead
      | ReservedIM \<Rightarrow> if prot then Panic else Ok SifaWrite
      | Unique \<Rightarrow> Ok SifaNone
      | Frozen \<Rightarrow> Ok SifaRead
      | Disabled \<Rightarrow> Ok SifaWrite)"

subsection \<open>Transitions\<close>

fun child_read :: "PermissionPriv \<Rightarrow> bool \<Rightarrow> ('e, PermissionPriv option) outcome" where
  "child_read Disabled _ = Ok None"
| "child_read readable _ = Ok (Some readable)"

fun foreign_read :: "PermissionPriv \<Rightarrow> bool \<Rightarrow> ('e, PermissionPriv option) outcome" where
  "foreign_read state protected =
     (case state of
        Cell \<Rightarrow> Ok (Some Cell)
      | Frozen \<Rightarrow> Ok (Some Frozen)
      | Disabled \<Rightarrow> Ok (Some Disabled)
      | ReservedFrz c \<Rightarrow>
          if protected then Ok (Some (ReservedFrz True))
          else obind (check (\<not> protected)) (\<lambda>_. Ok (Some (ReservedFrz c)))
      | ReservedIM \<Rightarrow> obind (check (\<not> protected)) (\<lambda>_. Ok (Some ReservedIM))
      | Unique \<Rightarrow> if protected then Ok (Some Disabled) else Ok (Some Frozen))"

fun child_write :: "PermissionPriv \<Rightarrow> bool \<Rightarrow> ('e, PermissionPriv option) outcome" where
  "child_write state protected =
     (case state of
        Cell \<Rightarrow> Ok (Some Cell)
      | ReservedFrz conflicted \<Rightarrow> if conflicted \<and> protected then Ok None else Ok (Some Unique)
      | ReservedIM \<Rightarrow> Ok (Some Unique)
      | Unique \<Rightarrow> Ok (Some Unique)
      | Frozen \<Rightarrow> Ok None
      | Disabled \<Rightarrow> Ok None)"

fun foreign_write :: "PermissionPriv \<Rightarrow> bool \<Rightarrow> ('e, PermissionPriv option) outcome" where
  "foreign_write state protected =
     (case state of
        Cell \<Rightarrow> Ok (Some Cell)
      | ReservedIM \<Rightarrow> obind (check (\<not> protected)) (\<lambda>_. Ok (Some ReservedIM))
      | _ \<Rightarrow> Ok (Some Disabled))"

definition transition_perform_access ::
  "AccessKind \<Rightarrow> AccessRelatedness \<Rightarrow> PermissionPriv \<Rightarrow> bool \<Rightarrow> ('e, PermissionPriv option) outcome" where
  "transition_perform_access kind rel_pos child protected =
     (case (kind, is_foreign rel_pos) of
        (Write, True) \<Rightarrow> foreign_write child protected
      | (Read, True) \<Rightarrow> foreign_read child protected
      | (Write, False) \<Rightarrow> child_write child protected
      | (Read, False) \<Rightarrow> child_read child protected)"

record PermTransition =
  trans_from :: PermissionPriv
  trans_to :: PermissionPriv

subsection \<open>The public interface\<close>

definition is_disabled :: "Permission \<Rightarrow> bool" where "is_disabled p = (p = Disabled)"

definition is_frozen :: "Permission \<Rightarrow> bool" where "is_frozen p = (p = Frozen)"

definition is_cell :: "Permission \<Rightarrow> bool" where "is_cell p = (p = Cell)"

definition is_unique :: "Permission \<Rightarrow> bool" where "is_unique p = (p = Unique)"

definition associated_access :: "Permission \<Rightarrow> AccessKind option" where
  "associated_access p = (case p of Cell \<Rightarrow> None | Unique \<Rightarrow> Some Write | _ \<Rightarrow> Some Read)"

definition Permission_perform_access ::
  "AccessKind \<Rightarrow> AccessRelatedness \<Rightarrow> Permission \<Rightarrow> bool \<Rightarrow> ('e, PermTransition option) outcome" where
  "Permission_perform_access kind rel_pos old_perm protected =
     obind (transition_perform_access kind rel_pos old_perm protected)
       (\<lambda>res. Ok (map_option (\<lambda>new_state. \<lparr>trans_from = old_perm, trans_to = new_state\<rparr>) res))"

fun can_be_replaced_by_child :: "Permission \<Rightarrow> Permission \<Rightarrow> bool" where
  "can_be_replaced_by_child Cell _ = True"
| "can_be_replaced_by_child _ Cell = False"
| "can_be_replaced_by_child ReservedIM _ = True"
| "can_be_replaced_by_child _ ReservedIM = False"
| "can_be_replaced_by_child (ReservedFrz _) _ = True"
| "can_be_replaced_by_child _ (ReservedFrz _) = False"
| "can_be_replaced_by_child Unique Unique = True"
| "can_be_replaced_by_child Unique Frozen = True"
| "can_be_replaced_by_child Unique Disabled = True"
| "can_be_replaced_by_child _ Unique = False"
| "can_be_replaced_by_child Frozen Frozen = True"
| "can_be_replaced_by_child Frozen Disabled = True"
| "can_be_replaced_by_child _ Frozen = False"
| "can_be_replaced_by_child Disabled Disabled = True"

fun strongest_allowed_local_access :: "Permission \<Rightarrow> bool \<Rightarrow> WildcardAccessLevel" where
  "strongest_allowed_local_access Disabled _ = LevelNone"
| "strongest_allowed_local_access Frozen _ = LevelRead"
| "strongest_allowed_local_access (ReservedFrz True) True = LevelRead"
| "strongest_allowed_local_access _ _ = LevelWrite"

definition is_possible :: "PermTransition \<Rightarrow> bool" where
  "is_possible t = perm_le (trans_from t) (trans_to t)"

definition is_noop :: "PermTransition \<Rightarrow> bool" where
  "is_noop t = (trans_from t = trans_to t)"

definition applied :: "PermTransition \<Rightarrow> Permission \<Rightarrow> Permission option" where
  "applied t starting_point = (if starting_point = trans_from t then Some (trans_to t) else None)"

definition produces_disabled :: "PermTransition \<Rightarrow> bool" where
  "produces_disabled t = (trans_to t = Disabled)"

subsection \<open>Diagnostics of transitions\<close>

definition short_name :: "Permission \<Rightarrow> string" where
  "short_name p = (case p of Cell \<Rightarrow> ''Cel '' | ReservedFrz False \<Rightarrow> ''Res '' | ReservedFrz True \<Rightarrow> ''ResC''
     | ReservedIM \<Rightarrow> ''ReIM'' | Unique \<Rightarrow> ''Unq '' | Frozen \<Rightarrow> ''Frz '' | Disabled \<Rightarrow> ''Dis '')"

definition transition_summary :: "PermTransition \<Rightarrow> ('e, string) outcome" where
  "transition_summary t =
     obind (check (is_possible t)) (\<lambda>_. obind (check (\<not> is_noop t)) (\<lambda>_.
       case (trans_from t, trans_to t) of
         (_, Unique) \<Rightarrow> Ok ''the first write to a 2-phase borrowed mutable reference''
       | (_, Frozen) \<Rightarrow> Ok ''a loss of write permissions''
       | (ReservedFrz False, ReservedFrz True) \<Rightarrow> Ok ''a temporary loss of write permissions until function exit''
       | (Frozen, Disabled) \<Rightarrow> Ok ''a loss of read permissions''
       | (_, Disabled) \<Rightarrow> Ok ''a loss of read and write permissions''
       | _ \<Rightarrow> Panic))"

datatype TransitionError = ChildAccessForbidden Permission | ProtectedDisabled Permission | ProtectedDealloc

fun relevant_forbidden :: "PermissionPriv \<Rightarrow> PermissionPriv \<Rightarrow> ('e, bool) outcome" where
  "relevant_forbidden to insufficient =
     (case (to, insufficient) of
        (Frozen, Frozen) \<Rightarrow> Ok True
      | (Unique, Frozen) \<Rightarrow> Ok True
      | (Disabled, Disabled) \<Rightarrow> Ok True
      | (ReservedFrz True, ReservedFrz True) \<Rightarrow> Ok True
      | (ReservedFrz True, Disabled) \<Rightarrow> Ok False
      | (Unique, Disabled) \<Rightarrow> Ok False
      | (Frozen, Disabled) \<Rightarrow> Ok False
      | (ReservedFrz True, Frozen) \<Rightarrow> Ok False
      | _ \<Rightarrow> Panic)"

fun relevant_disabled :: "PermissionPriv \<Rightarrow> PermissionPriv \<Rightarrow> ('e, bool) outcome" where
  "relevant_disabled to before_disabled =
     (case (to, before_disabled) of
        (Unique, Unique) \<Rightarrow> Ok True
      | (Frozen, Frozen) \<Rightarrow> Ok True
      | (ReservedFrz True, ReservedFrz True) \<Rightarrow> Ok True
      | (Unique, Frozen) \<Rightarrow> Ok False
      | (ReservedFrz True, _) \<Rightarrow> Ok False
      | _ \<Rightarrow> Panic)"

definition is_relevant :: "PermTransition \<Rightarrow> TransitionError \<Rightarrow> ('e, bool) outcome" where
  "is_relevant t err =
     obind (check (is_possible t)) (\<lambda>_.
       if is_noop t then Ok False
       else case err of
         ChildAccessForbidden insufficient \<Rightarrow> relevant_forbidden (trans_to t) insufficient
       | ProtectedDisabled before_disabled \<Rightarrow> relevant_disabled (trans_to t) before_disabled
       | ProtectedDealloc \<Rightarrow> Ok False)"

subsection \<open>Skipping of foreign accesses\<close>

definition sifa_rank :: "IdempotentForeignAccess \<Rightarrow> nat" where
  "sifa_rank a = (case a of SifaNone \<Rightarrow> 0 | SifaRead \<Rightarrow> 1 | SifaWrite \<Rightarrow> 2)"

instantiation IdempotentForeignAccess :: linorder
begin

definition less_eq_IdempotentForeignAccess :: "IdempotentForeignAccess \<Rightarrow> IdempotentForeignAccess \<Rightarrow> bool" where
  "less_eq_IdempotentForeignAccess a b = (sifa_rank a \<le> sifa_rank b)"

definition less_IdempotentForeignAccess :: "IdempotentForeignAccess \<Rightarrow> IdempotentForeignAccess \<Rightarrow> bool" where
  "less_IdempotentForeignAccess a b = (sifa_rank a < sifa_rank b)"

instance
  by standard (auto simp: less_eq_IdempotentForeignAccess_def less_IdempotentForeignAccess_def
      sifa_rank_def split: IdempotentForeignAccess.splits)

end

definition level_rank :: "WildcardAccessLevel \<Rightarrow> nat" where
  "level_rank a = (case a of LevelNone \<Rightarrow> 0 | LevelRead \<Rightarrow> 1 | LevelWrite \<Rightarrow> 2)"

instantiation WildcardAccessLevel :: linorder
begin

definition less_eq_WildcardAccessLevel :: "WildcardAccessLevel \<Rightarrow> WildcardAccessLevel \<Rightarrow> bool" where
  "less_eq_WildcardAccessLevel a b = (level_rank a \<le> level_rank b)"

definition less_WildcardAccessLevel :: "WildcardAccessLevel \<Rightarrow> WildcardAccessLevel \<Rightarrow> bool" where
  "less_WildcardAccessLevel a b = (level_rank a < level_rank b)"

instance
  by standard (auto simp: less_eq_WildcardAccessLevel_def less_WildcardAccessLevel_def
      level_rank_def split: WildcardAccessLevel.splits)

end

definition sifa_is_local :: "IdempotentForeignAccess \<Rightarrow> bool" where
  "sifa_is_local a = (a = SifaNone)"

definition sifa_is_foreign :: "IdempotentForeignAccess \<Rightarrow> bool" where
  "sifa_is_foreign a = (\<not> sifa_is_local a)"

definition can_skip_foreign_access :: "IdempotentForeignAccess \<Rightarrow> IdempotentForeignAccess \<Rightarrow> ('e, bool) outcome" where
  "can_skip_foreign_access self happening_next =
     obind (check (sifa_is_foreign happening_next)) (\<lambda>_. Ok (happening_next \<le> self))"

definition record_new :: "IdempotentForeignAccess \<Rightarrow> IdempotentForeignAccess \<Rightarrow> IdempotentForeignAccess" where
  "record_new self just_happened = (if sifa_is_local just_happened then SifaNone else max just_happened self)"

fun from_foreign :: "AccessKind \<Rightarrow> IdempotentForeignAccess" where
  "from_foreign Read = SifaRead"
| "from_foreign Write = SifaWrite"

definition from_acc_and_rel :: "AccessKind \<Rightarrow> AccessRelatedness \<Rightarrow> IdempotentForeignAccess" where
  "from_acc_and_rel acc rel = (if is_foreign rel then from_foreign acc else SifaNone)"

definition ensure_no_stronger_than ::
  "IdempotentForeignAccess \<Rightarrow> IdempotentForeignAccess \<Rightarrow> IdempotentForeignAccess \<times> bool" where
  "ensure_no_stronger_than self strongest_allowed =
     (if self > strongest_allowed then (strongest_allowed, True) else (self, False))"

definition level_allows :: "WildcardAccessLevel \<Rightarrow> AccessKind \<Rightarrow> bool" where
  "level_allows self kind = ((case kind of Read \<Rightarrow> LevelRead | Write \<Rightarrow> LevelWrite) \<le> self)"

section \<open>Lemmas\<close>

lemmas sifa_order = less_eq_IdempotentForeignAccess_def less_IdempotentForeignAccess_def sifa_rank_def
lemmas level_order = less_eq_WildcardAccessLevel_def less_WildcardAccessLevel_def level_rank_def

named_theorems tb_perm_defs \<open>the definitions of the permission state machine\<close>

declare transition_perform_access_def [tb_perm_defs] is_foreign_def [tb_perm_defs]
  compatible_with_protector_def [tb_perm_defs] perm_le_def [tb_perm_defs] is_initial_def [tb_perm_defs]

lemma sifa_simps [simp]:
  "SifaNone \<le> a" "a \<le> SifaWrite" "SifaRead \<le> SifaWrite" "\<not> SifaRead \<le> SifaNone" "\<not> SifaWrite \<le> SifaRead"
  "\<not> SifaWrite \<le> SifaNone" "SifaRead \<le> a \<longleftrightarrow> a \<noteq> SifaNone" "SifaWrite \<le> a \<longleftrightarrow> a = SifaWrite" "a \<le> SifaNone \<longleftrightarrow> a = SifaNone"
  by (cases a; simp add: sifa_order)+

lemma level_simps [simp]:
  "LevelNone \<le> a" "a \<le> LevelWrite" "LevelRead \<le> a \<longleftrightarrow> a \<noteq> LevelNone" "LevelWrite \<le> a \<longleftrightarrow> a = LevelWrite"
  by (cases a; simp add: level_order)+

lemma from_foreign_not_None [simp]: "from_foreign k \<noteq> SifaNone" "sifa_is_foreign (from_foreign k)"
  by (cases k; simp add: sifa_is_foreign_def sifa_is_local_def)+

text \<open>Case analysis over a permission and its conflicted flag at once.\<close>

lemma perm_exhaust:
  obtains "p = Cell" | "p = ReservedFrz True" | "p = ReservedFrz False" | "p = ReservedIM"
  | "p = Unique" | "p = Frozen" | "p = Disabled"
  by (metis (full_types) PermissionPriv.exhaust)

lemma all_perms: "(\<forall>p. P p) \<longleftrightarrow> P Cell \<and> P (ReservedFrz True) \<and> P (ReservedFrz False) \<and> P ReservedIM \<and>
    P Unique \<and> P Frozen \<and> P Disabled"
  by (metis perm_exhaust)

lemma all_kinds: "(\<forall>k. P k) \<longleftrightarrow> P Read \<and> P Write"
  by (metis AccessKind.exhaust)

lemma all_rels: "(\<forall>r. P r) \<longleftrightarrow> P LocalAccess \<and> P ForeignAccess"
  by (metis AccessRelatedness.exhaust)

lemmas all_cases = all_perms all_kinds all_rels all_bool_eq

lemma transition_total:
  assumes "prot \<longrightarrow> p \<noteq> ReservedIM"
  shows "\<exists>res. transition_perform_access k r p prot = Ok res"
  using assms by (cases k; cases r; cases p; cases prot) (auto simp: tb_perm_defs)

section \<open>Properties\<close>

text \<open>C4: Every transition is idempotent: an access that a permission survived leaves it unchanged
  when it is repeated, even if the protector disappeared in between. (Protectors never appear on an
  existing tag, and interior mutable reservations are never protected.)\<close>

theorem all_transitions_idempotent:
  assumes "new_protected \<longrightarrow> old_protected" "old_protected \<longrightarrow> compatible_with_protector old"
    and "transition_perform_access kind rel old old_protected = (Ok (Some new) :: (unit, _) outcome)"
  shows "transition_perform_access kind rel new new_protected = (Ok (Some new) :: (unit, _) outcome)"
  using assms
  by (cases kind; cases rel; cases old rule: perm_exhaust; cases old_protected; cases new_protected)
    (auto simp: tb_perm_defs)

theorem all_transitions_idempotent_witness:
  "transition_perform_access Read ForeignAccess (ReservedFrz False) True = (Ok (Some (ReservedFrz True)) :: (unit, _) outcome) \<and>
   transition_perform_access Read ForeignAccess (ReservedFrz True) False = (Ok (Some (ReservedFrz True)) :: (unit, _) outcome)"
proof -
  have h: "transition_perform_access Read ForeignAccess (ReservedFrz False) True = (Ok (Some (ReservedFrz True)) :: (unit, _) outcome)"
    by code_simp
  show ?thesis
    using h all_transitions_idempotent [OF _ _ h, of False] by (simp add: compatible_with_protector_def)
qed

definition perm_step :: "PermissionPriv \<Rightarrow> PermissionPriv \<Rightarrow> bool" where
  "perm_step p q \<longleftrightarrow> (\<exists>kind rel prot. (prot \<longrightarrow> compatible_with_protector p) \<and>
     transition_perform_access kind rel p prot = (Ok (Some q) :: (unit, _) outcome))"

lemma perm_step_le: "perm_step p q \<Longrightarrow> perm_le p q"
  unfolding perm_step_def
  by (elim exE conjE, cases p rule: perm_exhaust) (auto simp: tb_perm_defs split: AccessKind.splits bool.splits if_splits)

lemma perm_le_trans: "perm_le p q \<Longrightarrow> perm_le q r \<Longrightarrow> perm_le p r"
  by (cases p rule: perm_exhaust; cases q rule: perm_exhaust; cases r rule: perm_exhaust) (auto simp: perm_le_def)

lemma perm_le_refl [simp]: "perm_le p p"
  by (simp add: perm_le_def)

lemma perm_steps:
  "perm_step (ReservedFrz False) (ReservedFrz True)" "perm_step (ReservedFrz c) Unique" "perm_step ReservedIM Unique"
  "perm_step Unique Frozen" "perm_step Frozen Disabled"
proof -
  have step: "perm_step p q" if "transition_perform_access k r p b = (Ok (Some q) :: (unit, _) outcome)"
    "b \<longrightarrow> compatible_with_protector p" for p q k r b
    using that unfolding perm_step_def by blast
  show "perm_step (ReservedFrz False) (ReservedFrz True)"
    by (rule step [of Read ForeignAccess _ True]) (simp_all add: tb_perm_defs)
  show "perm_step (ReservedFrz c) Unique" by (rule step [of Write LocalAccess _ False]) (simp_all add: tb_perm_defs)
  show "perm_step ReservedIM Unique" by (rule step [of Write LocalAccess _ False]) (simp_all add: tb_perm_defs)
  show "perm_step Unique Frozen" by (rule step [of Read ForeignAccess _ False]) (simp_all add: tb_perm_defs)
  show "perm_step Frozen Disabled" by (rule step [of Write ForeignAccess _ False]) (simp_all add: tb_perm_defs)
qed

text \<open>C5: The partial order on permissions is exactly reachability: one permission is below another if
  and only if some sequence of accesses (foreign or local, protected or not) leads from one to the other.\<close>

theorem permission_order_is_reachability: "perm_le p q \<longleftrightarrow> perm_step\<^sup>*\<^sup>* p q"
proof
  assume "perm_step\<^sup>*\<^sup>* p q"
  then show "perm_le p q"
    by induction (auto intro: perm_le_trans perm_step_le)
next
  have fd: "perm_step\<^sup>*\<^sup>* Frozen Disabled" using perm_steps(5) by blast
  have ud: "perm_step\<^sup>*\<^sup>* Unique Frozen" "perm_step\<^sup>*\<^sup>* Unique Disabled"
    using perm_steps(4) fd by (blast, meson converse_rtranclp_into_rtranclp)
  have up: "perm_step\<^sup>*\<^sup>* r s" if "perm_step r Unique" "s \<in> {Unique, Frozen, Disabled}" for r s
    using that ud by (auto intro: converse_rtranclp_into_rtranclp)
  assume "perm_le p q"
  then show "perm_step\<^sup>*\<^sup>* p q"
    using fd ud up perm_steps
    by (cases p rule: perm_exhaust; cases q rule: perm_exhaust) (auto simp: perm_le_def)
qed

text \<open>C6: The strongest idempotent foreign access computed for a permission is sound: the foreign
  accesses that it covers leave the permission unchanged without undefined behaviour, and adding a
  protector only weakens it.\<close>

theorem permission_sifa_sound:
  assumes "prot \<longrightarrow> compatible_with_protector p"
    and "strongest_idempotent_foreign_access p prot = (Ok sifa :: (unit, _) outcome)"
    and "from_foreign kind \<le> sifa"
  shows "transition_perform_access kind ForeignAccess p prot = (Ok (Some p) :: (unit, _) outcome) \<and>
    (\<exists>sifa'. strongest_idempotent_foreign_access p False = (Ok sifa' :: (unit, _) outcome) \<and> sifa \<le> sifa')"
  using assms
  by (cases kind; cases p rule: perm_exhaust; cases prot) (auto simp: tb_perm_defs)

theorem permission_sifa_sound_witness:
  "from_foreign Read \<le> SifaRead \<and>
   transition_perform_access Read ForeignAccess (ReservedFrz True) True = (Ok (Some (ReservedFrz True)) :: (unit, _) outcome)"
proof -
  have h: "strongest_idempotent_foreign_access (ReservedFrz True) True = (Ok SifaRead :: (unit, _) outcome)"
    by code_simp
  show ?thesis
    using permission_sifa_sound [OF _ h, of Read] by (simp add: compatible_with_protector_def)
qed

text \<open>The access level that wildcard tracking assigns to a permission is exact: it allows a kind of
  access if and only if a local access of that kind is not undefined behaviour.\<close>

theorem strongest_allowed_local_access_exact:
  "level_allows (strongest_allowed_local_access p prot) kind \<longleftrightarrow>
     (\<exists>t. Permission_perform_access kind LocalAccess p prot = (Ok (Some t) :: (unit, _) outcome))"
  by (cases kind; cases p rule: perm_exhaust; cases prot)
    (auto simp: level_allows_def Permission_perform_access_def tb_perm_defs)

lemma forbidden_perms:
  assumes "transition_perform_access kind LocalAccess r prot = Ok None"
  shows "r \<in> {ReservedFrz True, Frozen, Disabled}"
  using assms by (cases kind; cases r rule: perm_exhaust) (auto simp: transition_perform_access_def is_foreign_def)

lemma relevant_forbidden_returns:
  assumes "q \<in> {ReservedFrz True, Unique, Frozen, Disabled}" "perm_le q r" "r \<in> {ReservedFrz True, Frozen, Disabled}"
  shows "\<exists>b. relevant_forbidden q r = Ok b"
  using assms by (auto simp: perm_le_def)

lemma relevant_disabled_returns:
  assumes "q \<in> {ReservedFrz True, Unique, Frozen, Disabled}" "perm_le q r" "r \<noteq> Disabled"
  shows "\<exists>b. relevant_disabled q r = Ok b"
  using assms by (cases r rule: perm_exhaust) (auto simp: perm_le_def)

text \<open>A transition that changed the permission has a summary, and its target is one of four permissions.\<close>

lemma changing_step:
  assumes "perm_step p q" "p \<noteq> q"
  shows "perm_le p q" "q \<in> {ReservedFrz True, Unique, Frozen, Disabled}" "\<exists>msg. transition_summary \<lparr>trans_from = p, trans_to = q\<rparr> = Ok msg"
proof -
  show le: "perm_le p q" using assms(1) by (rule perm_step_le)
  show q: "q \<in> {ReservedFrz True, Unique, Frozen, Disabled}"
    using assms(2) le by (cases p rule: perm_exhaust; cases q rule: perm_exhaust; simp add: perm_le_def)
  show "\<exists>msg. transition_summary \<lparr>trans_from = p, trans_to = q\<rparr> = Ok msg"
    using q le assms(2) by (cases p rule: perm_exhaust) (auto simp: transition_summary_def is_possible_def is_noop_def perm_le_def)
qed

text \<open>The relevance check of such a transition returns if the error came later: the permission that caused it is a later one.\<close>

lemma is_relevant_returns:
  assumes "perm_step p q" "p \<noteq> q" "perm_le q r"
    and "err = ProtectedDealloc \<or> err = ChildAccessForbidden r \<and> r \<in> {ReservedFrz True, Frozen, Disabled} \<or> err = ProtectedDisabled r \<and> r \<noteq> Disabled"
  shows "\<exists>b. is_relevant \<lparr>trans_from = p, trans_to = q\<rparr> err = Ok b"
  using assms(4)
proof (elim disjE conjE)
  note c = changing_step [OF assms(1,2)]
  show ?thesis if "err = ProtectedDealloc" using that c(1) by (auto simp: is_relevant_def is_possible_def)
  show ?thesis if "err = ChildAccessForbidden r" "r \<in> {ReservedFrz True, Frozen, Disabled}"
    using relevant_forbidden_returns [OF c(2) assms(3) that(2)] that(1) c(1) by (auto simp: is_relevant_def is_possible_def)
  show ?thesis if "err = ProtectedDisabled r" "r \<noteq> Disabled"
    using relevant_disabled_returns [OF c(2) assms(3) that(2)] that(1) c(1) by (auto simp: is_relevant_def is_possible_def)
qed

end
