(* ===== verification/TB_Location.thy ===== *)
theory TB_Location
  imports TB_Perms "HOL-Library.Multiset"
begin

text \<open>
  \<open>LocationState\<close> of \<open>src/borrow_tracker/tree_borrows/tree.rs\<close>: the state of one reference at one
  location. An operation that the source performs through \<open>&mut self\<close> returns the new state. After an
  \<open>Err\<close> the interpreted program has undefined behaviour and the state is not used again, so the error
  carries no state. \<open>debug_assert!\<close> is modelled like \<open>assert!\<close>.
\<close>

section \<open>Model\<close>

record LocationState =
  accessed :: bool
  permission :: Permission
  idempotent_foreign_access :: IdempotentForeignAccess

definition new_non_accessed :: "Permission \<Rightarrow> IdempotentForeignAccess \<Rightarrow> ('e, LocationState) outcome" where
  "new_non_accessed perm sifa =
     obind (check (is_initial perm \<or> is_disabled perm)) (\<lambda>_.
     obind (check (\<not> is_unique perm)) (\<lambda>_.
     Ok \<lparr>accessed = False, permission = perm, idempotent_foreign_access = sifa\<rparr>))"

definition new_accessed :: "Permission \<Rightarrow> IdempotentForeignAccess \<Rightarrow> LocationState" where
  "new_accessed perm sifa = \<lparr>accessed = True, permission = perm, idempotent_foreign_access = sifa\<rparr>"

definition possible :: "LocationState \<Rightarrow> bool" where
  "possible s = (accessed s \<or> \<not> is_unique (permission s))"

definition LocationState_perform_access ::
  "LocationState \<Rightarrow> AccessKind \<Rightarrow> AccessRelatedness \<Rightarrow> bool \<Rightarrow>
     (TransitionError, LocationState \<times> PermTransition) outcome" where
  "LocationState_perform_access s access_kind rel_pos protected =
     (let old_perm = permission s in
      obind (Permission_perform_access access_kind rel_pos old_perm protected) (\<lambda>res.
      case res of
        None \<Rightarrow> Err (ChildAccessForbidden old_perm)
      | Some transition \<Rightarrow>
          let s = s\<lparr>accessed := accessed s \<or> \<not> is_foreign rel_pos\<rparr> in
          obind (unwrap (applied transition old_perm)) (\<lambda>new_perm.
          let s = s\<lparr>permission := new_perm\<rparr> in
          if protected \<and> accessed s \<and> produces_disabled transition
          then Err (ProtectedDisabled old_perm)
          else obind (check (possible s)) (\<lambda>_. Ok (s, transition)))))"

datatype ContinueTraversal = Recurse | SkipSelfAndChildren

definition skip_if_known_noop ::
  "LocationState \<Rightarrow> AccessKind \<Rightarrow> AccessRelatedness \<Rightarrow> ('e, ContinueTraversal) outcome" where
  "skip_if_known_noop s access_kind rel_pos =
     (if is_foreign rel_pos
      then
        let happening_now = from_foreign access_kind in
        obind (can_skip_foreign_access (idempotent_foreign_access s) happening_now) (\<lambda>new_access_noop.
        let new_access_noop = (if is_disabled (permission s) then True else new_access_noop);
            new_access_noop = (if is_frozen (permission s) \<and> access_kind = Read then True else new_access_noop)
        in Ok (if new_access_noop then SkipSelfAndChildren else Recurse))
      else Ok Recurse)"

definition record_new_access ::
  "LocationState \<Rightarrow> AccessKind \<Rightarrow> AccessRelatedness \<Rightarrow> ('e, LocationState) outcome" where
  "record_new_access s access_kind rel_pos =
     obind (skip_if_known_noop s access_kind rel_pos) (\<lambda>c.
     obind (check (c = Recurse)) (\<lambda>_.
     Ok (s\<lparr>idempotent_foreign_access :=
       record_new (idempotent_foreign_access s) (from_acc_and_rel access_kind rel_pos)\<rparr>)))"

text \<open>
  The part of \<open>perform_transition\<close> that concerns the location alone: record the access, then perform
  it. The rest (history and the exposure counts) is in the theory of the tree.
\<close>

definition location_transition ::
  "LocationState \<Rightarrow> AccessKind \<Rightarrow> AccessRelatedness \<Rightarrow> bool \<Rightarrow>
     (TransitionError, LocationState \<times> PermTransition) outcome" where
  "location_transition s access_kind rel_pos protected =
     obind (record_new_access s access_kind rel_pos) (\<lambda>s.
     LocationState_perform_access s access_kind rel_pos protected)"

section \<open>Lemmas\<close>

lemma skip_total: "\<exists>c. skip_if_known_noop s k r = Ok c"
  by (simp add: skip_if_known_noop_def can_skip_foreign_access_def Let_def)

lemmas location_access_defs = LocationState_perform_access_def Permission_perform_access_def applied_def
  produces_disabled_def is_foreign_def Let_def

text \<open>The effect of an access on the permission and the accessed flag, as a function.\<close>

lemma perform_access_cases:
  assumes "prot \<longrightarrow> permission s \<noteq> ReservedIM" "possible s"
  shows "LocationState_perform_access s k r prot =
    (case (transition_perform_access k r (permission s) prot :: (TransitionError, _) outcome) of
       Ok None \<Rightarrow> Err (ChildAccessForbidden (permission s))
     | Ok (Some q) \<Rightarrow>
         if prot \<and> (accessed s \<or> r = LocalAccess) \<and> q = Disabled then Err (ProtectedDisabled (permission s))
         else Ok (s\<lparr>accessed := accessed s \<or> r = LocalAccess, permission := q\<rparr>,
                  \<lparr>trans_from = permission s, trans_to = q\<rparr>)
     | _ \<Rightarrow> Panic)"
proof -
  obtain res where res: "transition_perform_access k r (permission s) prot = (Ok res :: (TransitionError, _) outcome)"
    using transition_total [OF assms(1)] by blast
  have "q = Unique \<longrightarrow> accessed s \<or> r = LocalAccess" if "res = Some q" for q
    using res that assms
    by (cases k; cases r; cases "permission s" rule: perm_exhaust)
      (auto simp: tb_perm_defs possible_def is_unique_def split: if_splits)
  with res show ?thesis
    by (cases r; cases res) (auto simp: location_access_defs possible_def is_unique_def)
qed

lemma perform_access_Ok:
  assumes "LocationState_perform_access s k r prot = Ok (s', t)"
  shows "transition_perform_access k r (permission s) prot = (Ok (Some (permission s')) :: (TransitionError, _) outcome)"
    "accessed s' \<longleftrightarrow> accessed s \<or> r = LocalAccess" "t = \<lparr>trans_from = permission s, trans_to = permission s'\<rparr>"
    "idempotent_foreign_access s' = idempotent_foreign_access s" "possible s'"
    "prot \<longrightarrow> accessed s' \<longrightarrow> permission s' \<noteq> Disabled"
proof -
  from assms obtain q where q: "transition_perform_access k r (permission s) prot = (Ok (Some q) :: (TransitionError, _) outcome)"
    "\<not> (prot \<and> (accessed s \<or> r = LocalAccess) \<and> q = Disabled)" "t = \<lparr>trans_from = permission s, trans_to = q\<rparr>"
    "s' = s\<lparr>accessed := accessed s \<or> r = LocalAccess, permission := q\<rparr>" "possible s'"
    by (cases "transition_perform_access k r (permission s) prot :: (TransitionError, _) outcome")
      (cases r; auto simp: location_access_defs split: option.splits if_splits)+
  then show "transition_perform_access k r (permission s) prot = (Ok (Some (permission s')) :: (TransitionError, _) outcome)"
    "accessed s' \<longleftrightarrow> accessed s \<or> r = LocalAccess" "t = \<lparr>trans_from = permission s, trans_to = permission s'\<rparr>"
    "idempotent_foreign_access s' = idempotent_foreign_access s" "possible s'"
    "prot \<longrightarrow> accessed s' \<longrightarrow> permission s' \<noteq> Disabled" by auto
qed

section \<open>What a recorded idempotent access means\<close>

text \<open>
  The meaning of the recorded access: every foreign access that it covers would leave the permission
  as it is. (For a protected location it could otherwise also be undefined behaviour.)
\<close>

definition sifa_sound :: "bool \<Rightarrow> LocationState \<Rightarrow> bool" where
  "sifa_sound prot s \<longleftrightarrow> (\<forall>k. from_foreign k \<le> idempotent_foreign_access s \<longrightarrow>
     transition_perform_access k ForeignAccess (permission s) prot =
       (Ok (Some (permission s)) :: (TransitionError, _) outcome))"

definition location_inv :: "bool \<Rightarrow> LocationState \<Rightarrow> bool" where
  "location_inv prot s \<longleftrightarrow> possible s \<and> (prot \<longrightarrow> permission s \<noteq> ReservedIM) \<and>
     (prot \<and> accessed s \<longrightarrow> permission s \<noteq> Disabled) \<and> sifa_sound prot s"

lemma location_inv_unprotect: "location_inv True s \<Longrightarrow> location_inv False s"
  unfolding location_inv_def sifa_sound_def
  by (cases "permission s" rule: perm_exhaust) (auto simp: all_kinds tb_perm_defs)

lemma location_inv_initial:
  assumes "strongest_idempotent_foreign_access p prot = (Ok sifa :: (TransitionError, _) outcome)"
    and "is_initial p" "p \<noteq> Unique"
  shows "location_inv prot \<lparr>accessed = acc, permission = p, idempotent_foreign_access = sifa\<rparr>"
  using assms
  by (cases p rule: perm_exhaust; cases prot)
    (auto simp: location_inv_def sifa_sound_def possible_def is_unique_def is_initial_def all_kinds tb_perm_defs)

lemma location_transition_Ok:
  assumes "location_transition s k r prot = Ok (s', t)"
  shows "skip_if_known_noop s k r = (Ok Recurse :: (TransitionError, _) outcome)"
    "transition_perform_access k r (permission s) prot = (Ok (Some (permission s')) :: (TransitionError, _) outcome)"
    "accessed s' \<longleftrightarrow> accessed s \<or> r = LocalAccess"
    "idempotent_foreign_access s' = record_new (idempotent_foreign_access s) (from_acc_and_rel k r)"
    "possible s'" "prot \<longrightarrow> accessed s' \<longrightarrow> permission s' \<noteq> Disabled"
    "t = \<lparr>trans_from = permission s, trans_to = permission s'\<rparr>"
proof -
  from assms obtain s0 where r: "skip_if_known_noop s k r = (Ok Recurse :: (TransitionError, _) outcome)"
    "s0 = s\<lparr>idempotent_foreign_access := record_new (idempotent_foreign_access s) (from_acc_and_rel k r)\<rparr>"
    and p: "LocationState_perform_access s0 k r prot = Ok (s', t)"
    by (auto simp: location_transition_def record_new_access_def outcome_eqs split: if_splits)
  from r(1) show "skip_if_known_noop s k r = (Ok Recurse :: (TransitionError, _) outcome)" .
  from perform_access_Ok [OF p] r(2)
  show "transition_perform_access k r (permission s) prot = (Ok (Some (permission s')) :: (TransitionError, _) outcome)"
    "accessed s' \<longleftrightarrow> accessed s \<or> r = LocalAccess"
    "idempotent_foreign_access s' = record_new (idempotent_foreign_access s) (from_acc_and_rel k r)"
    "possible s'" "prot \<longrightarrow> accessed s' \<longrightarrow> permission s' \<noteq> Disabled"
    "t = \<lparr>trans_from = permission s, trans_to = permission s'\<rparr>" by simp_all
qed

lemma sifa_step:
  assumes "\<forall>k. from_foreign k \<le> f \<longrightarrow> transition_perform_access k ForeignAccess p prot = (Ok (Some p) :: (TransitionError, _) outcome)"
    and "transition_perform_access k r p prot = (Ok (Some q) :: (TransitionError, _) outcome)" "prot \<longrightarrow> p \<noteq> ReservedIM"
    and "from_foreign k' \<le> record_new f (from_acc_and_rel k r)"
  shows "transition_perform_access k' ForeignAccess q prot = (Ok (Some q) :: (TransitionError, _) outcome)"
  using assms
  by (cases k; cases k'; cases r; cases p rule: perm_exhaust; cases f; cases prot)
    (auto simp: all_kinds tb_perm_defs record_new_def from_acc_and_rel_def sifa_is_local_def max_def)

lemma location_inv_transition:
  assumes i: "location_inv prot s" and t: "location_transition s k r prot = Ok (s', tr)"
  shows "location_inv prot s'"
proof -
  note t = location_transition_Ok [OF t]
  have "sifa_sound prot s'"
    unfolding sifa_sound_def
  proof (intro allI impI)
    fix k'
    assume "from_foreign k' \<le> idempotent_foreign_access s'"
    with t(4) have "from_foreign k' \<le> record_new (idempotent_foreign_access s) (from_acc_and_rel k r)" by simp
    moreover have "\<forall>k. from_foreign k \<le> idempotent_foreign_access s \<longrightarrow>
        transition_perform_access k ForeignAccess (permission s) prot = (Ok (Some (permission s)) :: (TransitionError, _) outcome)"
      "prot \<longrightarrow> permission s \<noteq> ReservedIM"
      using i by (simp_all add: location_inv_def sifa_sound_def)
    ultimately show "transition_perform_access k' ForeignAccess (permission s') prot =
        (Ok (Some (permission s')) :: (TransitionError, _) outcome)"
      using t(2) by (rule_tac sifa_step)
  qed
  moreover have "prot \<longrightarrow> permission s' \<noteq> ReservedIM"
    using i t(2) by (cases k; cases r; cases "permission s" rule: perm_exhaust)
      (auto simp: location_inv_def tb_perm_defs split: if_splits)
  ultimately show ?thesis using t(5,6) by (simp add: location_inv_def)
qed

section \<open>Histories of one location\<close>

text \<open>What happens to a location: accesses, and the end of its protector. \<open>traversed_step\<close> is what the
  tree traversal does (skip, or record and perform), \<open>plain_step\<close> performs every access.\<close>

datatype loc_event = Access AccessKind AccessRelatedness | ProtectorEnd

fun traversed_step :: "loc_event \<Rightarrow> LocationState \<times> bool \<Rightarrow> (TransitionError, LocationState \<times> bool) outcome" where
  "traversed_step (Access k r) (s, prot) =
     obind (skip_if_known_noop s k r) (\<lambda>c.
       case c of
         SkipSelfAndChildren \<Rightarrow> Ok (s, prot)
       | Recurse \<Rightarrow> obind (location_transition s k r prot) (\<lambda>(s, _). Ok (s, prot)))"
| "traversed_step ProtectorEnd (s, prot) = Ok (s, False)"

fun plain_step :: "loc_event \<Rightarrow> LocationState \<times> bool \<Rightarrow> (TransitionError, LocationState \<times> bool) outcome" where
  "plain_step (Access k r) (s, prot) = obind (LocationState_perform_access s k r prot) (\<lambda>(s, _). Ok (s, prot))"
| "plain_step ProtectorEnd (s, prot) = Ok (s, False)"

definition same_location :: "LocationState \<times> bool \<Rightarrow> LocationState \<times> bool \<Rightarrow> bool" where
  "same_location x y \<longleftrightarrow> permission (fst x) = permission (fst y) \<and> accessed (fst x) = accessed (fst y) \<and> snd x = snd y"

lemma perform_access_same:
  assumes "permission s = permission t" "accessed s = accessed t"
  shows "rel_outcome (=) (\<lambda>x y. permission (fst x) = permission (fst y) \<and> accessed (fst x) = accessed (fst y))
    (LocationState_perform_access s k r prot) (LocationState_perform_access t k r prot)"
proof (cases "transition_perform_access k r (permission t) prot :: (TransitionError, _) outcome")
  case (Ok res)
  with assms show ?thesis
    by (cases res) (auto simp: location_access_defs possible_def)
qed (use assms in \<open>simp_all add: location_access_defs\<close>)

lemma skip_is_noop:
  assumes "location_inv prot s" "skip_if_known_noop s k ForeignAccess = (Ok SkipSelfAndChildren :: (TransitionError, _) outcome)"
  shows "LocationState_perform_access s k ForeignAccess prot = Ok (s, \<lparr>trans_from = permission s, trans_to = permission s\<rparr>)"
proof -
  have i: "possible s" "prot \<longrightarrow> permission s \<noteq> ReservedIM" "prot \<and> accessed s \<longrightarrow> permission s \<noteq> Disabled" "sifa_sound prot s"
    using assms(1) by (simp_all add: location_inv_def)
  have "transition_perform_access k ForeignAccess (permission s) prot = (Ok (Some (permission s)) :: (TransitionError, _) outcome)"
  proof (cases "from_foreign k \<le> idempotent_foreign_access s")
    case True
    with i(4) show ?thesis by (simp add: sifa_sound_def)
  next
    case False
    with assms(2) have "is_disabled (permission s) \<or> (is_frozen (permission s) \<and> k = Read)"
      by (auto simp: skip_if_known_noop_def is_foreign_def can_skip_foreign_access_def Let_def split: if_splits)
    then show ?thesis by (cases k) (auto simp: is_disabled_def is_frozen_def tb_perm_defs)
  qed
  with i show ?thesis by (auto simp: perform_access_cases)
qed

lemma location_inv_cong:
  "location_inv prot s \<Longrightarrow> permission t = permission s \<Longrightarrow> accessed t = accessed s \<Longrightarrow>
     idempotent_foreign_access t = idempotent_foreign_access s \<Longrightarrow> location_inv prot t"
  by (simp add: location_inv_def possible_def sifa_sound_def)

lemma traversed_step_simulates:
  assumes i: "location_inv prot s" and sim: "same_location (s, prot) (t, prot')"
  shows "rel_outcome (=) same_location (traversed_step e (s, prot)) (plain_step e (t, prot'))"
    "traversed_step e (s, prot) = Ok (s', prot2) \<Longrightarrow> location_inv prot2 s'"
proof -
  have pa: "permission s = permission t" "accessed s = accessed t" "prot = prot'"
    using sim by (simp_all add: same_location_def)
  obtain c where c: "\<And>k r. e = Access k r \<Longrightarrow> skip_if_known_noop s k r = (Ok c :: (TransitionError, _) outcome)"
    using skip_total by (metis loc_event.inject)
  have local: "r = ForeignAccess" if "e = Access k r" "c = SkipSelfAndChildren" for k r
    using c [OF that(1)] that(2) by (cases r) (simp_all add: skip_if_known_noop_def is_foreign_def)
  show "rel_outcome (=) same_location (traversed_step e (s, prot)) (plain_step e (t, prot'))"
  proof (cases e)
    case (Access k r)
    show ?thesis
    proof (cases c)
      case Recurse
      let ?s = "s\<lparr>idempotent_foreign_access := record_new (idempotent_foreign_access s) (from_acc_and_rel k r)\<rparr>"
      have "traversed_step e (s, prot) = obind (LocationState_perform_access ?s k r prot) (\<lambda>(s, _). Ok (s, prot))"
        using c [OF Access] Access Recurse by (simp add: location_transition_def record_new_access_def)
      moreover have "plain_step e (t, prot') = obind (LocationState_perform_access t k r prot) (\<lambda>(s, _). Ok (s, prot))"
        using Access pa by simp
      moreover note perform_access_same [of ?s t k r prot]
      ultimately show ?thesis
        using pa by (cases "LocationState_perform_access ?s k r prot"; cases "LocationState_perform_access t k r prot")
          (auto simp: same_location_def split: prod.splits)
    next
      case SkipSelfAndChildren
      have r: "r = ForeignAccess" using local [OF Access SkipSelfAndChildren] .
      have "LocationState_perform_access s k r prot = Ok (s, \<lparr>trans_from = permission s, trans_to = permission s\<rparr>)"
        using skip_is_noop [OF i] c [OF Access] SkipSelfAndChildren r by simp
      with perform_access_same [OF pa(1,2), of k r prot] pa c [OF Access] Access SkipSelfAndChildren show ?thesis
        by (cases "LocationState_perform_access t k r prot") (auto simp: same_location_def split: prod.splits)
    qed
  qed (use pa in \<open>simp add: same_location_def\<close>)
  show "location_inv prot2 s'" if "traversed_step e (s, prot) = Ok (s', prot2)"
  proof (cases e)
    case (Access k r)
    show ?thesis
      using that Access c [OF Access] i location_inv_transition [OF i, of k r]
      by (cases c) (auto simp: outcome_eqs)
  next
    case ProtectorEnd
    then show ?thesis using that i location_inv_unprotect by (cases prot) auto
  qed
qed

section \<open>Properties\<close>

text \<open>C11: Skipping known no-ops is invisible: over any history of accesses and an end of the protector,
  the state that the traversal keeps for a location (skipping foreign accesses that are recorded as
  idempotent, or that hit a disabled or frozen permission) has the same permission, the same accessed
  flag and the same errors as if every access had been performed.\<close>

theorem skipping_is_sound:
  assumes "location_inv prot s"
  shows "rel_outcome (=) same_location (ofold traversed_step es (s, prot)) (ofold plain_step es (s, prot))"
proof -
  have "rel_outcome (=) same_location (ofold traversed_step es (s, prot)) (ofold plain_step es (t, prot'))"
    if "location_inv prot s" "same_location (s, prot) (t, prot')" for s t prot prot'
    using that
  proof (induction es arbitrary: s t prot prot')
    case Nil
    then show ?case by simp
  next
    case (Cons e es)
    note step = traversed_step_simulates [OF Cons.prems, of e]
    then show ?case
      using Cons.IH by (cases "traversed_step e (s, prot)"; cases "plain_step e (t, prot')") auto
  qed
  with assms show ?thesis by (simp add: same_location_def)
qed

theorem skipping_is_sound_witness:
  "let s = \<lparr>accessed = True, permission = ReservedFrz False, idempotent_foreign_access = SifaNone\<rparr> in
   location_inv True s \<and>
   rel_outcome (=) same_location
     (ofold traversed_step [Access Read ForeignAccess, Access Read ForeignAccess, ProtectorEnd, Access Write LocalAccess] (s, True))
     (ofold plain_step [Access Read ForeignAccess, Access Read ForeignAccess, ProtectorEnd, Access Write LocalAccess] (s, True))"
proof -
  let ?s = "\<lparr>accessed = True, permission = ReservedFrz False, idempotent_foreign_access = SifaNone\<rparr>"
  have "location_inv True ?s" by (simp add: location_inv_def possible_def is_unique_def sifa_sound_def)
  with skipping_is_sound [OF this] show ?thesis by (simp only: Let_def)
qed

text \<open>A sequence of accesses under an unchanging protector.\<close>

definition access_step :: "bool \<Rightarrow> AccessKind \<times> AccessRelatedness \<Rightarrow> LocationState \<Rightarrow> (TransitionError, LocationState) outcome" where
  "access_step prot a s = obind (LocationState_perform_access s (fst a) (snd a) prot) (\<lambda>(s, _). Ok s)"

lemma access_step_Ok:
  assumes "access_step prot a s = Ok s'"
  shows "transition_perform_access (fst a) (snd a) (permission s) prot = (Ok (Some (permission s')) :: (TransitionError, _) outcome)"
    "accessed s' \<longleftrightarrow> accessed s \<or> snd a = LocalAccess" "possible s'" "prot \<longrightarrow> accessed s' \<longrightarrow> permission s' \<noteq> Disabled"
proof -
  from assms obtain t where "LocationState_perform_access s (fst a) (snd a) prot = Ok (s', t)"
    by (auto simp: access_step_def outcome_eqs)
  from perform_access_Ok [OF this]
  show "transition_perform_access (fst a) (snd a) (permission s) prot = (Ok (Some (permission s')) :: (TransitionError, _) outcome)"
    "accessed s' \<longleftrightarrow> accessed s \<or> snd a = LocalAccess" "possible s'" "prot \<longrightarrow> accessed s' \<longrightarrow> permission s' \<noteq> Disabled"
    by simp_all
qed

lemma replaced_step:
  assumes "can_be_replaced_by_child p c" "transition_perform_access k r c prot = (Ok (Some c') :: (TransitionError, _) outcome)"
  shows "\<exists>p'. transition_perform_access k r p False = (Ok (Some p') :: (TransitionError, _) outcome) \<and> can_be_replaced_by_child p' c'"
  using assms
  by (cases k; cases r; cases p rule: perm_exhaust; cases c rule: perm_exhaust; cases prot) (auto simp: tb_perm_defs)

text \<open>C12: Compacting the tree is sound: if an unprotected parent can be replaced by its child, then every
  sequence of accesses that the child survives is also survived by the parent, and afterwards the parent
  can still be replaced. So removing the parent never hides undefined behaviour. (Both see the same
  relative position of every access, as the parent has no other child and is not accessed itself.)\<close>

theorem tree_compacting_is_sound:
  assumes "can_be_replaced_by_child (permission parent) (permission child)" "possible parent" "possible child"
    and "ofold (access_step child_protected) accs child = Ok child'"
  shows "\<exists>parent'. ofold (access_step False) accs parent = Ok parent' \<and>
    can_be_replaced_by_child (permission parent') (permission child')"
  using assms
proof (induction accs arbitrary: parent child)
  case Nil
  then show ?case by simp
next
  case (Cons a accs)
  from Cons.prems(4) obtain c where c: "access_step child_protected a child = Ok c" "ofold (access_step child_protected) accs c = Ok child'"
    by (auto simp: outcome_eqs)
  from replaced_step [OF Cons.prems(1) access_step_Ok(1) [OF c(1)]] obtain p' where
    p': "transition_perform_access (fst a) (snd a) (permission parent) False = (Ok (Some p') :: (TransitionError, _) outcome)"
    "can_be_replaced_by_child p' (permission c)" by blast
  then obtain p where p: "access_step False a parent = Ok p" "permission p = p'" "possible p"
    using perform_access_cases [of False parent "fst a" "snd a"] Cons.prems(2)
      access_step_Ok(3) [of False a parent] by (auto simp: access_step_def)
  from Cons.IH [of p c] p p' c access_step_Ok(3) [OF c(1)] show ?case by auto
qed

theorem tree_compacting_is_sound_witness:
  "let parent = \<lparr>accessed = True, permission = Unique, idempotent_foreign_access = SifaNone\<rparr>;
       child = \<lparr>accessed = True, permission = Frozen, idempotent_foreign_access = SifaNone\<rparr> in
   \<exists>parent'. ofold (access_step False) [(Read, LocalAccess), (Write, ForeignAccess)] parent = Ok parent' \<and>
     can_be_replaced_by_child (permission parent') Disabled"
proof -
  let ?p = "\<lparr>accessed = True, permission = Unique, idempotent_foreign_access = SifaNone\<rparr>"
  let ?c = "\<lparr>accessed = True, permission = Frozen, idempotent_foreign_access = SifaNone\<rparr>"
  have run: "ofold (access_step False) [(Read, LocalAccess), (Write, ForeignAccess)] ?c = Ok (?c\<lparr>permission := Disabled\<rparr>)"
    by code_simp
  from tree_compacting_is_sound [of ?p ?c, OF _ _ _ run] show ?thesis
    by (simp add: possible_def)
qed

text \<open>What the permission of a protected location says about the accesses so far.\<close>

definition noalias_inv :: "(AccessKind \<times> AccessRelatedness) list \<Rightarrow> LocationState \<Rightarrow> bool" where
  "noalias_inv accs s \<longleftrightarrow> possible s \<and> permission s \<noteq> ReservedIM \<and> permission s \<noteq> Cell \<and>
     ((\<exists>k. (k, LocalAccess) \<in> set accs) \<longrightarrow> accessed s \<and> permission s \<noteq> Disabled) \<and>
     ((Write, LocalAccess) \<in> set accs \<longrightarrow> permission s = Unique) \<and>
     ((Write, ForeignAccess) \<in> set accs \<longrightarrow> permission s = Disabled) \<and>
     ((Read, ForeignAccess) \<in> set accs \<longrightarrow> permission s \<in> {ReservedFrz True, Frozen, Disabled})"

lemma noalias_step:
  assumes i: "noalias_inv accs s" and st: "access_step True a s = Ok s'"
  shows "noalias_inv (accs @ [a]) s'"
proof -
  obtain k r where a: "a = (k, r)" by (cases a)
  note st = access_step_Ok [OF st, unfolded a fst_conv snd_conv]
  show ?thesis
    using i st unfolding a noalias_inv_def
    by (cases k; cases r; cases "permission s" rule: perm_exhaust) (auto simp: tb_perm_defs possible_def is_unique_def)
qed

lemma noalias_run:
  "noalias_inv done s \<Longrightarrow> ofold (access_step True) accs s = Ok s' \<Longrightarrow> noalias_inv (done @ accs) s'"
proof (induction accs arbitrary: "done" s)
  case (Cons a accs)
  then obtain s1 where "access_step True a s = Ok s1" "ofold (access_step True) accs s1 = Ok s'"
    by (auto simp: outcome_eqs)
  with Cons.IH [of "done @ [a]" s1] noalias_step [OF Cons.prems(1)] show ?case by simp
qed simp

lemma cell_run:
  "permission s = Cell \<Longrightarrow> ofold (access_step prot) accs s = Ok (s\<lparr>accessed := accessed s \<or> LocalAccess \<in> snd ` set accs\<rparr>)"
proof (induction accs arbitrary: s)
  case (Cons a accs)
  have "access_step prot a s = Ok (s\<lparr>accessed := accessed s \<or> LocalAccess = snd a\<rparr>)"
    using Cons.prems by (cases a; cases "snd a")
      (auto simp: access_step_def location_access_defs transition_perform_access_def possible_def is_unique_def split: AccessKind.splits)
  with Cons show ?case by auto
qed simp

text \<open>C13: What a protector enforces: a location with a permission other than \<open>Cell\<close> that survives a sequence of accesses in which one is local and
  one is foreign, in any order and at any distance, saw only reads at these two. A protected \<open>Cell\<close> location enforces nothing: it survives every
  sequence of accesses and keeps its permission. (\<open>ReservedIM\<close> does not occur under a protector.)\<close>

theorem protected_enforces_noalias:
  assumes "possible s" "permission s \<noteq> ReservedIM"
  shows "if permission s = Cell
    then ofold (access_step True) accs s = Ok (s\<lparr>accessed := accessed s \<or> LocalAccess \<in> snd ` set accs\<rparr>)
    else \<forall>s' k k'. ofold (access_step True) accs s = Ok s' \<longrightarrow> (k, LocalAccess) \<in> set accs \<longrightarrow> (k', ForeignAccess) \<in> set accs \<longrightarrow> k = Read \<and> k' = Read"
proof (cases "permission s = Cell")
  case True
  then show ?thesis by (simp add: cell_run)
next
  case False
  have "k = Read \<and> k' = Read" if "ofold (access_step True) accs s = Ok s'" "(k, LocalAccess) \<in> set accs" "(k', ForeignAccess) \<in> set accs" for s' k k'
  proof -
    have "noalias_inv [] s" using assms False by (simp add: noalias_inv_def)
    from noalias_run [OF this that(1)] have "noalias_inv accs s'" by simp
    with that(2,3) show ?thesis by (cases k; cases k') (auto simp: noalias_inv_def)
  qed
  with False show ?thesis by simp
qed

theorem protected_enforces_noalias_witness:
  "let s = \<lparr>accessed = False, permission = Frozen, idempotent_foreign_access = SifaNone\<rparr> in
   \<forall>k k' s'. ofold (access_step True) [(k, LocalAccess), (k', ForeignAccess)] s = Ok s' \<longrightarrow> k = Read \<and> k' = Read"
proof -
  let ?s = "\<lparr>accessed = False, permission = Frozen, idempotent_foreign_access = SifaNone\<rparr>"
  have "possible ?s" "permission ?s \<noteq> ReservedIM" by (simp_all add: possible_def is_unique_def)
  from protected_enforces_noalias [OF this, of "[(k, LocalAccess), (k', ForeignAccess)]" for k k'] show ?thesis by simp
qed

text \<open>Two reads commute, hence so do any reads.\<close>

lemma read_transitions_commute:
  assumes "transition_perform_access Read r1 p prot = (Ok (Some p1) :: (TransitionError, _) outcome)"
    "transition_perform_access Read r2 p1 prot = (Ok (Some p12) :: (TransitionError, _) outcome)"
    "prot \<and> acc \<and> r1 = LocalAccess \<longrightarrow> p1 \<noteq> Disabled" "prot \<longrightarrow> p \<noteq> ReservedIM"
    "prot \<and> (acc \<or> r1 = LocalAccess \<or> r2 = LocalAccess) \<longrightarrow> p12 \<noteq> Disabled" "p = Unique \<longrightarrow> acc"
  shows "\<exists>p2. transition_perform_access Read r2 p prot = (Ok (Some p2) :: (TransitionError, _) outcome) \<and>
    transition_perform_access Read r1 p2 prot = (Ok (Some p12) :: (TransitionError, _) outcome) \<and>
    (prot \<and> (acc \<or> r2 = LocalAccess) \<longrightarrow> p2 \<noteq> Disabled)"
  using assms by (cases r1; cases r2; cases p rule: perm_exhaust; cases prot) (auto simp: tb_perm_defs)

lemma access_step_intro:
  assumes "transition_perform_access k r (permission s) prot = (Ok (Some q) :: (TransitionError, _) outcome)"
    "prot \<longrightarrow> permission s \<noteq> ReservedIM" "possible s" "prot \<and> (accessed s \<or> r = LocalAccess) \<longrightarrow> q \<noteq> Disabled"
  shows "access_step prot (k, r) s = Ok (s\<lparr>accessed := accessed s \<or> r = LocalAccess, permission := q\<rparr>)"
  using assms perform_access_cases [of prot s k r] by (auto simp: access_step_def)

lemma access_step_eq:
  assumes "access_step prot a s = Ok s'"
  shows "s' = s\<lparr>accessed := accessed s \<or> snd a = LocalAccess, permission := permission s'\<rparr>"
  using assms perform_access_Ok(2,4) [of s "fst a" "snd a" prot] by (auto simp: access_step_def outcome_eqs)

definition read_inv :: "bool \<Rightarrow> LocationState \<Rightarrow> bool" where
  "read_inv prot s \<longleftrightarrow> possible s \<and> (prot \<longrightarrow> permission s \<noteq> ReservedIM)"

lemma read_inv_step:
  assumes "read_inv prot s" "access_step prot a s = Ok s'"
  shows "read_inv prot s'"
proof -
  obtain k r where a: "a = (k, r)" by (cases a)
  show ?thesis
    using assms(1) access_step_Ok(1,3) [OF assms(2)] unfolding a read_inv_def
    by (cases k; cases r; cases "permission s" rule: perm_exhaust) (auto simp: tb_perm_defs split: if_splits)
qed

lemma reads_commute:
  assumes i: "read_inv prot s" and s1: "access_step prot (Read, r1) s = Ok s1" and s12: "access_step prot (Read, r2) s1 = Ok s12"
  shows "\<exists>s2. access_step prot (Read, r2) s = Ok s2 \<and> access_step prot (Read, r1) s2 = Ok s12"
proof -
  have s: "possible s" "prot \<longrightarrow> permission s \<noteq> ReservedIM" using i by (simp_all add: read_inv_def)
  note t1 = access_step_Ok [OF s1, simplified] and t12 = access_step_Ok [OF s12, simplified]
  have "permission s = Unique \<longrightarrow> accessed s" using s(1) by (auto simp: possible_def is_unique_def)
  then obtain p2 where p2: "transition_perform_access Read r2 (permission s) prot = (Ok (Some p2) :: (TransitionError, _) outcome)"
    "transition_perform_access Read r1 p2 prot = (Ok (Some (permission s12)) :: (TransitionError, _) outcome)"
    "prot \<and> (accessed s \<or> r2 = LocalAccess) \<longrightarrow> p2 \<noteq> Disabled"
    using read_transitions_commute [OF t1(1) t12(1), of "accessed s"] t1(2,4) t12(2,4) s by metis
  let ?s2 = "s\<lparr>accessed := accessed s \<or> r2 = LocalAccess, permission := p2\<rparr>"
  have st2: "access_step prot (Read, r2) s = Ok ?s2" using access_step_intro [OF p2(1) s(2,1) p2(3)] .
  have i2: "read_inv prot ?s2" by (rule read_inv_step [OF i st2])
  have "access_step prot (Read, r1) ?s2 = Ok (?s2\<lparr>accessed := accessed ?s2 \<or> r1 = LocalAccess, permission := permission s12\<rparr>)"
    using p2(2) i2 t12(2,4) t1(2) by (intro access_step_intro) (auto simp: read_inv_def)
  moreover have "?s2\<lparr>accessed := accessed ?s2 \<or> r1 = LocalAccess, permission := permission s12\<rparr> = s12"
    using t12(2) t1(2) access_step_eq [OF s1, THEN arg_cong, of idempotent_foreign_access]
      access_step_eq [OF s12, THEN arg_cong, of idempotent_foreign_access]
    by (intro LocationState.equality) auto
  ultimately show ?thesis using st2 by auto
qed

lemma read_bubbles:
  assumes "read_inv prot s" "access_step prot (Read, r) s = Ok s1" "ofold (access_step prot) (map (Pair Read) rs) s1 = Ok s2"
  shows "\<exists>t. ofold (access_step prot) (map (Pair Read) rs) s = Ok t \<and> access_step prot (Read, r) t = Ok s2"
  using assms
proof (induction rs arbitrary: s s1)
  case Nil
  then show ?case by simp
next
  case (Cons x rs)
  from Cons.prems(3) obtain u where u: "access_step prot (Read, x) s1 = Ok u" "ofold (access_step prot) (map (Pair Read) rs) u = Ok s2"
    by (auto simp: outcome_eqs)
  from reads_commute [OF Cons.prems(1,2) u(1)] obtain v where
    v: "access_step prot (Read, x) s = Ok v" "access_step prot (Read, r) v = Ok u" by blast
  from Cons.IH [OF read_inv_step [OF Cons.prems(1) v(1)] v(2) u(2)] v(1) show ?case by auto
qed

text \<open>Read accesses commute: if a location survives a sequence of reads, local and foreign in any
  order, then it survives every rearrangement of them, with the same final state.\<close>

theorem all_read_accesses_commute:
  assumes "possible s" "prot \<longrightarrow> compatible_with_protector (permission s)" "mset rs = mset rs'"
    and "ofold (access_step prot) (map (Pair Read) rs) s = Ok s'"
  shows "ofold (access_step prot) (map (Pair Read) rs') s = Ok s'"
proof -
  have "ofold (access_step prot) (map (Pair Read) rs') s = Ok s'"
    if "read_inv prot s" "ofold (access_step prot) (map (Pair Read) rs) s = Ok s'" for s
    using assms(3) that
  proof (induction rs arbitrary: rs' s)
    case Nil
    then show ?case by simp
  next
    case (Cons x rs)
    from Cons.prems(3) obtain u where u: "access_step prot (Read, x) s = Ok u" "ofold (access_step prot) (map (Pair Read) rs) u = Ok s'"
      by (auto simp: outcome_eqs)
    have "x \<in> set rs'" using Cons.prems(1) by (metis list.set_intros(1) mset_eq_setD)
    then obtain A B where ab: "rs' = A @ x # B" by (meson split_list)
    with Cons.prems(1) have "mset rs = mset (A @ B)" by simp
    from Cons.IH [OF this read_inv_step [OF Cons.prems(2) u(1)] u(2)]
    obtain v where v: "ofold (access_step prot) (map (Pair Read) A) u = Ok v" "ofold (access_step prot) (map (Pair Read) B) v = Ok s'"
      by (auto simp: ofold_append outcome_eqs)
    from read_bubbles [OF Cons.prems(2) u(1) v(1)] v(2) show ?case by (auto simp: ab ofold_append)
  qed
  with assms show ?thesis by (auto simp: read_inv_def compatible_with_protector_def)
qed

theorem all_read_accesses_commute_witness:
  "let s = \<lparr>accessed = True, permission = Unique, idempotent_foreign_access = SifaNone\<rparr> in
   ofold (access_step False) (map (Pair Read) [ForeignAccess, LocalAccess]) s = Ok (s\<lparr>permission := Frozen\<rparr>)"
proof -
  let ?s = "\<lparr>accessed = True, permission = Unique, idempotent_foreign_access = SifaNone\<rparr>"
  have run: "ofold (access_step False) (map (Pair Read) [LocalAccess, ForeignAccess]) ?s = Ok (?s\<lparr>permission := Frozen\<rparr>)"
    by code_simp
  from all_read_accesses_commute [OF _ _ _ run, of "[ForeignAccess, LocalAccess]"] show ?thesis
    by (simp add: possible_def add_mset_commute)
qed

section \<open>Histories in diagnostics\<close>














end
