(* ===== verification/Uni_Map.thy ===== *)
theory Uni_Map
  imports Prelude "HOL-Library.AList"
begin

text \<open>
  \<open>src/borrow_tracker/tree_borrows/unimap.rs\<close>: a two-level map. A \<open>UniKeyMap\<close> hands out small indices
  for keys and recycles those of removed keys; a \<open>UniValMap\<close> is a vector indexed by them. Tree Borrows
  keeps one key map per allocation and one value map for every range of the allocation.

  The hash map is an association list with distinct keys, a \<open>UniIndex\<close> is its number (kept below
  \<open>2 ^ 32\<close> by the check in \<open>insert\<close>), and an exclusive reference to an entry is replaced by a function
  that is applied to the entry.
\<close>

section \<open>Model\<close>

type_synonym UniIndex = nat

record 'k UniKeyMap =
  mapping :: "('k \<times> nat) list"
  deassigned :: "nat list"

type_synonym 'v UniValMap = "'v option list"

definition UniKeyMap_default :: "'k UniKeyMap" where
  "UniKeyMap_default = \<lparr>mapping = [], deassigned = []\<rparr>"

definition UniKeyMap_len :: "'k UniKeyMap \<Rightarrow> nat" where
  "UniKeyMap_len m = length (mapping m)"

definition UniKeyMap_contains_key :: "'k UniKeyMap \<Rightarrow> 'k \<Rightarrow> bool" where
  "UniKeyMap_contains_key m key = (map_of (mapping m) key \<noteq> None)"

definition UniKeyMap_get :: "'k UniKeyMap \<Rightarrow> 'k \<Rightarrow> UniIndex option" where
  "UniKeyMap_get m key = map_of (mapping m) key"

text \<open>\<open>Vec::pop\<close> takes from the end; the fresh index has to fit into a \<open>u32\<close>.\<close>

definition UniKeyMap_insert :: "'k UniKeyMap \<Rightarrow> 'k \<Rightarrow> ('e, 'k UniKeyMap \<times> UniIndex) outcome" where
  "UniKeyMap_insert m key =
     obind (if deassigned m \<noteq> [] then Ok (last (deassigned m), butlast (deassigned m))
            else obind (check (length (mapping m) < 2 ^ 32)) (\<lambda>_. Ok (length (mapping m), [])))
       (\<lambda>(idx, rest).
         if map_of (mapping m) key \<noteq> None then Panic
         else Ok (\<lparr>mapping = AList.update key idx (mapping m), deassigned = rest\<rparr>, idx))"

definition UniKeyMap_get_or_insert :: "'k UniKeyMap \<Rightarrow> 'k \<Rightarrow> ('e, 'k UniKeyMap \<times> UniIndex) outcome" where
  "UniKeyMap_get_or_insert m key =
     (case UniKeyMap_get m key of Some idx \<Rightarrow> Ok (m, idx) | None \<Rightarrow> UniKeyMap_insert m key)"

definition UniKeyMap_remove :: "'k UniKeyMap \<Rightarrow> 'k \<Rightarrow> 'k UniKeyMap" where
  "UniKeyMap_remove m key =
     (case map_of (mapping m) key of
        Some idx \<Rightarrow> \<lparr>mapping = AList.delete key (mapping m), deassigned = deassigned m @ [idx]\<rparr>
      | None \<Rightarrow> m)"

definition UniValMap_default :: "'v UniValMap" where
  "UniValMap_default = []"

definition UniValMap_identical :: "'v UniValMap \<Rightarrow> 'v UniValMap \<Rightarrow> bool" where
  "UniValMap_identical a b = (a = b)"

text \<open>The comparison of values is a parameter, as \<open>V: PartialEq\<close> is.\<close>

definition UniValMap_equivalent :: "('v \<Rightarrow> 'v \<Rightarrow> bool) \<Rightarrow> 'v UniValMap \<Rightarrow> 'v UniValMap \<Rightarrow> bool" where
  "UniValMap_equivalent eq a b =
     (let min_len = min (length a) (length b) in
      list_all (\<lambda>x. x = None) (drop min_len a) \<and> list_all (\<lambda>x. x = None) (drop min_len b) \<and>
      list_all2 (rel_option eq) (take min_len a) (take min_len b))"

definition UniValMap_get :: "'v UniValMap \<Rightarrow> UniIndex \<Rightarrow> 'v option" where
  "UniValMap_get d idx = (if idx < length d then d ! idx else None)"

definition UniValMap_contains_idx :: "'v UniValMap \<Rightarrow> UniIndex \<Rightarrow> bool" where
  "UniValMap_contains_idx d idx = (UniValMap_get d idx \<noteq> None)"

definition extend_to_length :: "'v UniValMap \<Rightarrow> nat \<Rightarrow> 'v UniValMap" where
  "extend_to_length d len = (if len > length d then d @ replicate (len - length d) None else d)"

definition UniValMap_insert :: "'v UniValMap \<Rightarrow> UniIndex \<Rightarrow> 'v \<Rightarrow> 'v UniValMap" where
  "UniValMap_insert d idx val = (extend_to_length d (idx + 1))[idx := Some val]"

text \<open>A change through \<open>get_mut\<close>: nothing happens if there is no value.\<close>

definition UniValMap_get_mut :: "('v \<Rightarrow> 'v) \<Rightarrow> 'v UniValMap \<Rightarrow> UniIndex \<Rightarrow> 'v UniValMap" where
  "UniValMap_get_mut f d idx =
     (case UniValMap_get d idx of Some v \<Rightarrow> d[idx := Some (f v)] | None \<Rightarrow> d)"

definition UniValMap_remove :: "'v UniValMap \<Rightarrow> UniIndex \<Rightarrow> 'v UniValMap \<times> 'v option" where
  "UniValMap_remove d idx = (if idx \<ge> length d then (d, None) else (d[idx := None], d ! idx))"

definition UniValMap_is_empty :: "'v UniValMap \<Rightarrow> bool" where
  "UniValMap_is_empty d = list_all (\<lambda>v. v = None) d"

definition UniValMap_iter :: "'v UniValMap \<Rightarrow> (UniIndex \<times> 'v) list" where
  "UniValMap_iter d = List.map_filter (\<lambda>(i, v). map_option (Pair i) v) (enumerate 0 d)"

text \<open>\<open>entry(idx).or_insert(default)\<close>: the map, extended where needed, and the value now stored.\<close>

definition entry_or_insert :: "'v UniValMap \<Rightarrow> UniIndex \<Rightarrow> 'v \<Rightarrow> 'v UniValMap \<times> 'v" where
  "entry_or_insert d idx dflt =
     (let d = extend_to_length d (idx + 1) in
      case d ! idx of None \<Rightarrow> (d[idx := Some dflt], dflt) | Some v \<Rightarrow> (d, v))"

section \<open>The value map is a finite map\<close>

text \<open>What the permission tree relies on: a map interface in which two maps are equivalent exactly if
  they hold equivalent values at every index.\<close>

locale index_map =
  fixes get :: "'m \<Rightarrow> UniIndex \<Rightarrow> 'v option" and ins :: "'m \<Rightarrow> UniIndex \<Rightarrow> 'v \<Rightarrow> 'm"
    and rem :: "'m \<Rightarrow> UniIndex \<Rightarrow> 'm" and same :: "('v \<Rightarrow> 'v \<Rightarrow> bool) \<Rightarrow> 'm \<Rightarrow> 'm \<Rightarrow> bool"
  assumes get_ins: "get (ins m i v) j = (if j = i then Some v else get m j)"
    and get_rem: "get (rem m i) j = (if j = i then None else get m j)"
    and same_get: "same eq m n \<longleftrightarrow> (\<forall>i. rel_option eq (get m i) (get n i))"
begin

lemma same_equivp:
  assumes "equivp eq" shows "equivp (same eq)"
proof -
  from assms have e: "reflp eq" "symp eq" "transp eq" by (auto elim: equivpE)
  note r = option.rel_reflp [OF e(1)] option.rel_symp [OF e(2)] option.rel_transp [OF e(3)]
  show ?thesis
  proof (rule equivpI)
    show "reflp (same eq)" using r(1) by (simp add: reflp_def same_get)
    show "symp (same eq)" using r(2) by (simp add: symp_def same_get)
    show "transp (same eq)" unfolding transp_def same_get using r(3) [THEN transpD] by blast
  qed
qed

lemma ins_cong: "same eq m n \<Longrightarrow> eq v w \<Longrightarrow> same eq (ins m i v) (ins n i w)"
  by (simp add: same_get get_ins)

lemma rem_cong: "same eq m n \<Longrightarrow> same eq (rem m i) (rem n i)"
  by (simp add: same_get get_rem)

lemma ins_commute: "equivp eq \<Longrightarrow> i \<noteq> j \<Longrightarrow> same eq (ins (ins m i v) j w) (ins (ins m j w) i v)"
  by (auto simp: same_get get_ins option.rel_refl equivp_reflp)

lemma rem_ins: "equivp eq \<Longrightarrow> same eq (rem (ins m i v) i) (rem m i)"
  by (auto simp: same_get get_ins get_rem option.rel_refl equivp_reflp)

end

lemma get_default [simp]: "UniValMap_get UniValMap_default i = None"
  by (simp add: UniValMap_default_def UniValMap_get_def)

lemma get_extend [simp]: "UniValMap_get (extend_to_length d n) i = UniValMap_get d i"
  by (auto simp: UniValMap_get_def extend_to_length_def nth_append)

lemma length_extend [simp]: "length (extend_to_length d n) = max (length d) n"
  by (simp add: extend_to_length_def)

lemma get_update: "i < length d \<Longrightarrow> UniValMap_get (d[i := v]) j = (if j = i then v else UniValMap_get d j)"
  by (auto simp: UniValMap_get_def)

lemma get_insert: "UniValMap_get (UniValMap_insert d i v) j = (if j = i then Some v else UniValMap_get d j)"
  by (simp add: UniValMap_insert_def get_update)

lemma get_remove: "UniValMap_get (fst (UniValMap_remove d i)) j = (if j = i then None else UniValMap_get d j)"
  by (auto simp: UniValMap_remove_def get_update) (auto simp: UniValMap_get_def)

lemma remove_result: "snd (UniValMap_remove d i) = UniValMap_get d i"
  by (simp add: UniValMap_remove_def UniValMap_get_def)

lemma get_get_mut:
  "UniValMap_get (UniValMap_get_mut f d i) j =
     (if j = i then map_option f (UniValMap_get d i) else UniValMap_get d j)"
  by (auto simp: UniValMap_get_mut_def UniValMap_get_def nth_list_update split: option.splits)

lemma get_or_insert:
  "snd (entry_or_insert d i x) = (case UniValMap_get d i of None \<Rightarrow> x | Some v \<Rightarrow> v)"
  "UniValMap_get (fst (entry_or_insert d i x)) j =
     (if j = i then Some (snd (entry_or_insert d i x)) else UniValMap_get d j)"
proof -
  have "extend_to_length d (i + 1) ! i = UniValMap_get (extend_to_length d (i + 1)) i"
    by (simp only: UniValMap_get_def length_extend) (simp add: less_max_iff_disj)
  then show "snd (entry_or_insert d i x) = (case UniValMap_get d i of None \<Rightarrow> x | Some v \<Rightarrow> v)"
    "UniValMap_get (fst (entry_or_insert d i x)) j =
     (if j = i then Some (snd (entry_or_insert d i x)) else UniValMap_get d j)"
    by (auto simp: entry_or_insert_def get_update Let_def split: option.split)
qed

lemma equivalent_get:
  "UniValMap_equivalent eq a b \<longleftrightarrow> (\<forall>i. rel_option eq (UniValMap_get a i) (UniValMap_get b i))"
proof
  assume e: "UniValMap_equivalent eq a b"
  let ?n = "min (length a) (length b)"
  have "UniValMap_get c i = None" if "\<forall>x\<in>set (drop ?n c). x = None" "?n \<le> i" for c :: "'a UniValMap" and i
    using that nth_mem [of "i - ?n" "drop ?n c"] by (auto simp: UniValMap_get_def)
  moreover have "rel_option eq (a ! i) (b ! i)" if "i < ?n" for i
    using that e by (auto simp: UniValMap_equivalent_def Let_def list_all2_conv_all_nth)
  ultimately show "\<forall>i. rel_option eq (UniValMap_get a i) (UniValMap_get b i)"
    using e by (auto simp: UniValMap_equivalent_def Let_def list_all_iff) (metis min_less_iff_conj not_le option.rel_inject(1) UniValMap_get_def)
next
  assume r: "\<forall>i. rel_option eq (UniValMap_get a i) (UniValMap_get b i)"
  have "a ! i = None" if "length b \<le> i" "i < length a" for i
    using r [rule_format, of i] that by (simp add: UniValMap_get_def)
  moreover have "b ! i = None" if "length a \<le> i" "i < length b" for i
    using r [rule_format, of i] that by (simp add: UniValMap_get_def)
  moreover have "rel_option eq (a ! i) (b ! i)" if "i < length a" "i < length b" for i
    using r [rule_format, of i] that by (simp add: UniValMap_get_def)
  ultimately show "UniValMap_equivalent eq a b"
    by (auto simp: UniValMap_equivalent_def Let_def list_all_length list_all2_conv_all_nth min_def)
qed

interpretation vals: index_map UniValMap_get UniValMap_insert "\<lambda>d i. fst (UniValMap_remove d i)"
  UniValMap_equivalent
  by unfold_locales (simp_all add: get_insert get_remove equivalent_get)

section \<open>The key map hands out every index once\<close>

definition key_inv :: "'k UniKeyMap \<Rightarrow> bool" where
  "key_inv m \<longleftrightarrow> distinct (map fst (mapping m)) \<and> distinct (map snd (mapping m) @ deassigned m) \<and>
     set (map snd (mapping m) @ deassigned m) = {..<length (mapping m) + length (deassigned m)}"

lemma key_inv_default: "key_inv UniKeyMap_default"
  by (simp add: key_inv_def UniKeyMap_default_def)

lemma update_fresh: "map_of al k = None \<Longrightarrow> AList.update k v al = al @ [(k, v)]"
  by (induction al) (auto split: if_splits)

lemma map_of_fresh_append: "map_of al k = None \<Longrightarrow> map_of (al @ [(k, v)]) = (map_of al)(k \<mapsto> v)"
  by (auto simp: map_add_def fun_eq_iff split: option.split)

lemma key_insert_result:
  assumes "UniKeyMap_insert m k = Ok (m', idx)"
  shows "map_of (mapping m) k = None" "mapping m' = mapping m @ [(k, idx)]"
    "(deassigned m = deassigned m' @ [idx]) \<or>
     (deassigned m = [] \<and> deassigned m' = [] \<and> idx = length (mapping m) \<and> idx < 2 ^ 32)"
  using assms append_butlast_last_id [of "deassigned m"]
  by (auto simp: UniKeyMap_insert_def update_fresh outcome_eqs split: if_splits)

lemma key_insert_inv:
  assumes i: "key_inv m" and r: "UniKeyMap_insert m k = Ok (m', idx)"
  shows "key_inv m'"
proof -
  note r = key_insert_result [OF r]
  have keys: "distinct (map fst (mapping m'))"
    using i r(1,2) by (auto simp: key_inv_def map_of_eq_None_iff)
  from r(3) show ?thesis
  proof
    assume d: "deassigned m = deassigned m' @ [idx]"
    have "set (map snd (mapping m') @ deassigned m') = set (map snd (mapping m) @ deassigned m)"
      using d r(2) by auto
    with i d r(2) keys show ?thesis by (auto simp: key_inv_def)
  next
    assume "deassigned m = [] \<and> deassigned m' = [] \<and> idx = length (mapping m) \<and> idx < 2 ^ 32"
    with i r(2) keys show ?thesis by (auto simp: key_inv_def lessThan_Suc)
  qed
qed

lemma key_insert_fresh:
  assumes i: "key_inv m" and r: "UniKeyMap_insert m k = Ok (m', idx)"
  shows "idx \<notin> ran (UniKeyMap_get m)"
proof -
  have "ran (UniKeyMap_get m) = set (map snd (mapping m))"
    using i by (simp add: UniKeyMap_get_def [abs_def] key_inv_def ran_distinct)
  with key_insert_result(3) [OF r] i show ?thesis
    by (auto simp: key_inv_def simp del: lessThan_iff) (metis imageI lessThan_iff less_irrefl snd_conv)
qed

lemma key_get_insert:
  assumes "UniKeyMap_insert m k = Ok (m', idx)"
  shows "UniKeyMap_get m' = (UniKeyMap_get m)(k \<mapsto> idx)"
  using key_insert_result [OF assms] by (simp add: UniKeyMap_get_def [abs_def] map_of_fresh_append del: map_of_append)

lemma key_insert_Ok_iff:
  "(\<exists>r. UniKeyMap_insert m k = Ok r) \<longleftrightarrow>
     UniKeyMap_get m k = None \<and> (deassigned m \<noteq> [] \<or> UniKeyMap_len m < 2 ^ 32)"
  by (auto simp: UniKeyMap_insert_def UniKeyMap_get_def UniKeyMap_len_def)

lemma delete_split:
  assumes "map_of al k = Some v" "distinct (map fst al)"
  obtains xs ys where "al = xs @ (k, v) # ys" "AList.delete k al = xs @ ys"
proof -
  from assms(1) obtain xs ys where s: "al = xs @ (k, v) # ys" using map_of_SomeD split_list by metis
  with assms(2) have "k \<notin> set (map fst xs)" "k \<notin> set (map fst ys)" by auto
  then have "AList.delete k xs = xs" "AList.delete k ys = ys"
    by (auto simp: delete_id)
  with s that show ?thesis by (simp add: AList.delete_eq filter_append)
qed

lemma key_remove_inv:
  assumes i: "key_inv m" shows "key_inv (UniKeyMap_remove m k)"
proof (cases "map_of (mapping m) k")
  case None
  with i show ?thesis by (simp add: UniKeyMap_remove_def)
next
  case (Some idx)
  moreover have "distinct (map fst (mapping m))" using i by (simp add: key_inv_def)
  ultimately obtain xs ys where "mapping m = xs @ (k, idx) # ys" "AList.delete k (mapping m) = xs @ ys"
    by (rule delete_split)
  with i Some show ?thesis by (auto simp: UniKeyMap_remove_def key_inv_def)
qed

lemma key_get_remove: "UniKeyMap_get (UniKeyMap_remove m k) = (UniKeyMap_get m)(k := None)"
  by (auto simp: UniKeyMap_remove_def UniKeyMap_get_def [abs_def] delete_conv' split: option.split)

lemma key_get_inj:
  "key_inv m \<Longrightarrow> UniKeyMap_get m k = Some i \<Longrightarrow> UniKeyMap_get m l = Some i \<Longrightarrow> k = l"
  unfolding key_inv_def UniKeyMap_get_def
  by (metis distinct_append distinct_map inj_onD map_of_SomeD prod.inject snd_conv)

section \<open>The two levels together\<close>

text \<open>The virtual map from keys to values, and the operations of its user: a value is inserted under a
  newly assigned index, and a key is removed together with the value at its index.\<close>

definition virtual_get :: "'k UniKeyMap \<Rightarrow> 'v UniValMap \<Rightarrow> 'k \<Rightarrow> 'v option" where
  "virtual_get km vm k = Option.bind (UniKeyMap_get km k) (UniValMap_get vm)"

definition virtual_inv :: "'k UniKeyMap \<Rightarrow> 'v UniValMap \<Rightarrow> bool" where
  "virtual_inv km vm \<longleftrightarrow> key_inv km \<and> (\<forall>i. UniValMap_get vm i \<noteq> None \<longrightarrow> i \<in> ran (UniKeyMap_get km))"

datatype ('k, 'v) map_op = OpInsert 'k 'v | OpRemove 'k

fun uni_step :: "('k, 'v) map_op \<Rightarrow> 'k UniKeyMap \<times> 'v UniValMap \<Rightarrow>
    ('e, 'k UniKeyMap \<times> 'v UniValMap) outcome" where
  "uni_step (OpInsert k v) (km, vm) =
     obind (UniKeyMap_insert km k) (\<lambda>(km, idx). Ok (km, UniValMap_insert vm idx v))"
| "uni_step (OpRemove k) (km, vm) =
     (case UniKeyMap_get km k of
        None \<Rightarrow> Ok (km, vm)
      | Some idx \<Rightarrow> Ok (UniKeyMap_remove km k, fst (UniValMap_remove vm idx)))"

fun map_step :: "('k, 'v) map_op \<Rightarrow> ('k \<rightharpoonup> 'v) \<Rightarrow> 'k \<rightharpoonup> 'v" where
  "map_step (OpInsert k v) m = m(k \<mapsto> v)"
| "map_step (OpRemove k) m = m(k := None)"

lemma virtual_insert:
  assumes i: "virtual_inv km vm" and r: "UniKeyMap_insert km k = Ok (km', idx)"
  shows "virtual_inv km' (UniValMap_insert vm idx v)"
    "virtual_get km' (UniValMap_insert vm idx v) = (virtual_get km vm)(k \<mapsto> v)"
proof -
  have km: "key_inv km" using i by (simp add: virtual_inv_def)
  have old: "UniKeyMap_get km k = None"
    using key_insert_result(1) [OF r] by (simp add: UniKeyMap_get_def)
  have fresh: "UniKeyMap_get km l \<noteq> Some idx" for l
    using key_insert_fresh [OF km r] by (auto simp: ran_def)
  show "virtual_inv km' (UniValMap_insert vm idx v)"
    using i key_insert_inv [OF km r] old
    by (auto simp: virtual_inv_def key_get_insert [OF r] get_insert ran_def fun_upd_def split: if_splits) (metis option.distinct(1))
  show "virtual_get km' (UniValMap_insert vm idx v) = (virtual_get km vm)(k \<mapsto> v)"
    using fresh by (auto simp: virtual_get_def key_get_insert [OF r] get_insert fun_eq_iff
        split: bind_split)
qed

lemma virtual_remove:
  assumes i: "virtual_inv km vm" and g: "UniKeyMap_get km k = Some idx"
  shows "virtual_inv (UniKeyMap_remove km k) (fst (UniValMap_remove vm idx))"
    "virtual_get (UniKeyMap_remove km k) (fst (UniValMap_remove vm idx)) = (virtual_get km vm)(k := None)"
proof -
  have km: "key_inv km" using i by (simp add: virtual_inv_def)
  show "virtual_inv (UniKeyMap_remove km k) (fst (UniValMap_remove vm idx))"
    using i key_remove_inv [OF km] g
    by (auto simp: virtual_inv_def key_get_remove get_remove ran_def fun_upd_def split: if_splits) (metis option.inject)
  show "virtual_get (UniKeyMap_remove km k) (fst (UniValMap_remove vm idx)) = (virtual_get km vm)(k := None)"
    using key_get_inj [OF km g]
    by (auto simp: virtual_get_def key_get_remove get_remove fun_eq_iff split: bind_split)
qed

lemma uni_step_refines:
  fixes vm' :: "'v UniValMap"
  assumes i: "virtual_inv km vm" and r: "uni_step op (km, vm) = (Ok (km', vm') :: ('e, 'k UniKeyMap \<times> _) outcome)"
  shows "virtual_inv km' vm' \<and> virtual_get km' vm' = map_step op (virtual_get km vm)"
proof (cases op)
  case (OpInsert k v)
  with r obtain idx where idx: "UniKeyMap_insert km k = (Ok (km', idx) :: ('e, _) outcome)" "vm' = UniValMap_insert vm idx v"
    by (auto simp: outcome_eqs)
  from virtual_insert [OF i idx(1)] idx(2) OpInsert show ?thesis by simp
next
  case (OpRemove k)
  then show ?thesis
    using r i virtual_remove [OF i, of k]
    by (auto simp: virtual_get_def fun_eq_iff split: option.splits)
qed

section \<open>Properties\<close>

text \<open>C9: The pair of a key map and a value map behaves like one map from keys to values: after any
  sequence of insertions (under a freshly assigned index) and removals (of the key and of the value at
  its index) that does not panic, looking a key up through both levels gives what a plain map gives.
  In particular a recycled index never exposes the value of an earlier key.\<close>

theorem unimap_refines_map:
  fixes vm :: "'v UniValMap"
  assumes "ofold uni_step ops (UniKeyMap_default, UniValMap_default) = (Ok (km, vm) :: ('e, 'k UniKeyMap \<times> _) outcome)"
  shows "virtual_inv km vm \<and> virtual_get km vm = fold map_step ops Map.empty"
proof -
  have "virtual_inv km vm \<and> virtual_get km vm = fold map_step ops (virtual_get km0 vm0)"
    if "ofold uni_step ops (km0, vm0) = (Ok (km, vm) :: ('e, _) outcome)" "virtual_inv km0 vm0" for km0 vm0
    using that
  proof (induction ops arbitrary: km0 vm0)
    case Nil
    then show ?case by simp
  next
    case (Cons op ops)
    then obtain km1 vm1 where s: "uni_step op (km0, vm0) = (Ok (km1, vm1) :: ('e, _) outcome)"
      "ofold uni_step ops (km1, vm1) = (Ok (km, vm) :: ('e, _) outcome)"
      by (auto simp: outcome_eqs)
    from uni_step_refines [OF Cons.prems(2) s(1)] Cons.IH [OF s(2)] show ?case by simp
  qed
  moreover have "virtual_inv UniKeyMap_default (UniValMap_default :: 'v UniValMap)"
    by (simp add: virtual_inv_def key_inv_default UniValMap_default_def UniValMap_get_def)
  moreover have "virtual_get UniKeyMap_default (UniValMap_default :: 'v UniValMap) = (Map.empty :: 'k \<rightharpoonup> 'v)"
    by (simp add: virtual_get_def [abs_def] UniKeyMap_get_def UniKeyMap_default_def)
  ultimately show ?thesis using assms by metis
qed

theorem unimap_refines_map_witness:
  "\<exists>km vm. ofold uni_step [OpInsert CHR ''a'' CHR ''A'', OpRemove CHR ''a'', OpInsert CHR ''b'' CHR ''B'']
     (UniKeyMap_default, UniValMap_default) = (Ok (km, vm) :: (unit, _) outcome) \<and>
     virtual_get km vm = [CHR ''b'' \<mapsto> CHR ''B'']"
proof -
  have run: "ofold uni_step [OpInsert CHR ''a'' CHR ''A'', OpRemove CHR ''a'', OpInsert CHR ''b'' CHR ''B'']
     (UniKeyMap_default, UniValMap_default) =
       (Ok (\<lparr>mapping = [(CHR ''b'', 0)], deassigned = []\<rparr>, [Some CHR ''B'']) :: (unit, _) outcome)"
    by code_simp
  from unimap_refines_map [OF run] run show ?thesis by (auto simp: fun_eq_iff)
qed

text \<open>2: \<open>insert\<close> succeeds exactly if the key is not assigned yet and there is an index left; it then
  returns an index that no other key uses, leaves all other assignments alone, and keeps the invariant
  that the assigned and the recycled indices are together exactly \<open>0 ..< n\<close>.\<close>

theorem key_map_insert:
  assumes "key_inv m" "UniKeyMap_get m k = None" "deassigned m \<noteq> [] \<or> UniKeyMap_len m < 2 ^ 32"
  shows "\<exists>m' idx. UniKeyMap_insert m k = (Ok (m', idx) :: (unit, _) outcome) \<and> key_inv m' \<and>
    idx \<notin> ran (UniKeyMap_get m) \<and> idx < UniKeyMap_len m + length (deassigned m) + 1 \<and>
    UniKeyMap_get m' = (UniKeyMap_get m)(k \<mapsto> idx)"
proof -
  from assms(2,3) obtain m' idx where r: "UniKeyMap_insert m k = (Ok (m', idx) :: (unit, _) outcome)"
    using key_insert_Ok_iff [of m k, where 'b = unit] by auto
  have "idx \<in> set (map snd (mapping m') @ deassigned m')" using key_insert_result(2) [OF r] by simp
  with key_insert_inv [OF assms(1) r] have "idx < length (mapping m') + length (deassigned m')"
    unfolding key_inv_def by blast
  with key_insert_result(2,3) [OF r] have "idx < UniKeyMap_len m + length (deassigned m) + 1"
    by (auto simp: UniKeyMap_len_def)
  with r key_insert_inv [OF assms(1) r] key_insert_fresh [OF assms(1) r] key_get_insert [OF r]
  show ?thesis by blast
qed

theorem key_map_insert_witness:
  "let m = \<lparr>mapping = [(CHR ''a'', 1)], deassigned = [0]\<rparr> in key_inv m \<and>
   (\<exists>m'. UniKeyMap_insert m CHR ''b'' = (Ok (m', 0) :: (unit, _) outcome) \<and> key_inv m')"
proof -
  let ?m = "\<lparr>mapping = [(CHR ''a'', 1)], deassigned = [0]\<rparr> :: char UniKeyMap"
  have "key_inv ?m" by (auto simp: key_inv_def)
  moreover have "UniKeyMap_get ?m CHR ''b'' = None" by (simp add: UniKeyMap_get_def)
  ultimately obtain m' idx where
    "UniKeyMap_insert ?m CHR ''b'' = (Ok (m', idx) :: (unit, _) outcome)" "key_inv m'"
    using key_map_insert [of ?m "CHR ''b''"] by auto
  then show ?thesis using \<open>key_inv ?m\<close> by (auto simp: UniKeyMap_insert_def)
qed

text \<open>Two value maps compare as equal exactly if they hold equal values at every index, whatever
  holes their vectors end with.\<close>

theorem unival_equivalent_iff:
  "UniValMap_equivalent (=) a b \<longleftrightarrow> UniValMap_get a = UniValMap_get b"
  by (auto simp: equivalent_get option.rel_eq fun_eq_iff)

end
