(* ===== verification/TB_Visitor.thy ===== *)
theory TB_Visitor
  imports TB_Location Uni_Map
begin

text \<open>
  \<open>src/borrow_tracker/tree_borrows/tree_visitor.rs\<close>, with the \<open>Node\<close> of \<open>tree.rs\<close>: the hand-written
  stack machine that walks the borrow tree.

  The visitor's closures change the data \<open>'d\<close> and may fail; they change the nodes only in their debug
  information, which is left out, so the nodes are a read-only argument. A stack is a list with its top
  at the head. The two loops take fuel: one step per ancestor, and two steps per node (one before and
  one after its children). The bounds chosen by \<open>traverse_*\<close> are computed from the node map and are
  enough for every proper tree (\<open>traverse_refines\<close> below).
\<close>

section \<open>Model\<close>

record Node =
  node_tag :: BorTag
  node_parent :: "UniIndex option"
  node_children :: "UniIndex list"
  default_initial_perm :: Permission
  default_initial_idempotent_foreign_access :: IdempotentForeignAccess
  is_exposed :: bool

type_synonym Nodes = "Node UniValMap"

definition get_node :: "Nodes \<Rightarrow> UniIndex \<Rightarrow> ('e, Node) outcome" where
  "get_node nodes idx = unwrap (UniValMap_get nodes idx)"

datatype ChildrenVisitMode = VisitChildrenOfAccessed | SkipChildrenOfAccessed

datatype RecursionState = BeforeChildren | AfterChildren

type_synonym visit_stack = "(UniIndex \<times> AccessRelatedness \<times> RecursionState) list"

type_synonym ('e, 'd) node_continue = "UniIndex \<Rightarrow> AccessRelatedness \<Rightarrow> 'd \<Rightarrow> ('e, ContinueTraversal) outcome"

type_synonym ('e, 'd) node_app = "UniIndex \<Rightarrow> AccessRelatedness \<Rightarrow> 'd \<Rightarrow> ('e, 'd) outcome"

text \<open>The loop over the ancestors: \<open>last_node\<close> has been handled, the cousins are pushed.\<close>

fun go_upwards_loop ::
  "nat \<Rightarrow> Nodes \<Rightarrow> ('e, 'd) node_app \<Rightarrow> UniIndex \<Rightarrow> visit_stack \<Rightarrow> 'd \<Rightarrow> ('e, UniIndex \<times> visit_stack \<times> 'd) outcome"
where
  "go_upwards_loop 0 nodes f_propagate last_node stack d = Diverge"
| "go_upwards_loop (Suc fuel) nodes f_propagate last_node stack d =
     obind (get_node nodes last_node) (\<lambda>last.
     case node_parent last of
       None \<Rightarrow> Ok (last_node, stack, d)
     | Some current \<Rightarrow>
         obind (f_propagate current LocalAccess d) (\<lambda>d.
         obind (get_node nodes current) (\<lambda>node.
         go_upwards_loop fuel nodes f_propagate current
           (fold (\<lambda>child stack. if last_node = child then stack else (child, ForeignAccess, BeforeChildren) # stack)
              (rev (node_children node)) stack) d)))"

definition go_upwards_from_accessed ::
  "Nodes \<Rightarrow> ('e, 'd) node_app \<Rightarrow> UniIndex \<Rightarrow> ChildrenVisitMode \<Rightarrow> 'd \<Rightarrow> ('e, UniIndex \<times> visit_stack \<times> 'd) outcome"
where
  "go_upwards_from_accessed nodes f_propagate accessed_node visit_children d =
     obind (f_propagate accessed_node LocalAccess d) (\<lambda>d.
     obind (if visit_children = VisitChildrenOfAccessed
            then obind (get_node nodes accessed_node) (\<lambda>node.
              Ok (fold (\<lambda>child stack. (child, ForeignAccess, BeforeChildren) # stack) (rev (node_children node)) []))
            else Ok []) (\<lambda>stack.
     obind (go_upwards_loop (length nodes) nodes f_propagate accessed_node stack d) (\<lambda>(root, stack, d).
     Ok (root, rev stack, d))))"

fun finish_foreign_accesses ::
  "nat \<Rightarrow> Nodes \<Rightarrow> ('e, 'd) node_continue \<Rightarrow> ('e, 'd) node_app \<Rightarrow> visit_stack \<Rightarrow> 'd \<Rightarrow> ('e, 'd) outcome"
where
  "finish_foreign_accesses fuel nodes f_continue f_propagate [] d = Ok d"
| "finish_foreign_accesses 0 nodes f_continue f_propagate (_ # _) d = Diverge"
| "finish_foreign_accesses (Suc fuel) nodes f_continue f_propagate ((idx, rel_pos, BeforeChildren) # stack) d =
     obind (f_continue idx rel_pos d) (\<lambda>handle_children.
     case handle_children of
       Recurse \<Rightarrow>
         obind (get_node nodes idx) (\<lambda>node.
         finish_foreign_accesses fuel nodes f_continue f_propagate
           (fold (\<lambda>child stack. (child, rel_pos, BeforeChildren) # stack) (node_children node)
              ((idx, rel_pos, AfterChildren) # stack)) d)
     | SkipSelfAndChildren \<Rightarrow> finish_foreign_accesses fuel nodes f_continue f_propagate stack d)"
| "finish_foreign_accesses (Suc fuel) nodes f_continue f_propagate ((idx, rel_pos, AfterChildren) # stack) d =
     obind (f_propagate idx rel_pos d) (\<lambda>d.
     finish_foreign_accesses fuel nodes f_continue f_propagate stack d)"

lemma finish_foreign_accesses_code [code]:
  "finish_foreign_accesses fuel nodes f_continue f_propagate stack d =
     (case stack of
        [] \<Rightarrow> Ok d
      | (idx, rel_pos, step) # stack \<Rightarrow>
          if fuel = 0 then Diverge
          else case step of
            BeforeChildren \<Rightarrow>
              obind (f_continue idx rel_pos d) (\<lambda>handle_children.
              case handle_children of
                Recurse \<Rightarrow>
                  obind (get_node nodes idx) (\<lambda>node.
                  finish_foreign_accesses (fuel - 1) nodes f_continue f_propagate
                    (fold (\<lambda>child stack. (child, rel_pos, BeforeChildren) # stack) (node_children node)
                       ((idx, rel_pos, AfterChildren) # stack)) d)
              | SkipSelfAndChildren \<Rightarrow> finish_foreign_accesses (fuel - 1) nodes f_continue f_propagate stack d)
          | AfterChildren \<Rightarrow>
              obind (f_propagate idx rel_pos d) (\<lambda>d.
              finish_foreign_accesses (fuel - 1) nodes f_continue f_propagate stack d))"
  by (cases fuel; cases stack) (auto split: RecursionState.split)

definition traverse_this_parents_children_other ::
  "Nodes \<Rightarrow> ('e, 'd) node_continue \<Rightarrow> ('e, 'd) node_app \<Rightarrow> UniIndex \<Rightarrow> 'd \<Rightarrow> ('e, UniIndex \<times> 'd) outcome" where
  "traverse_this_parents_children_other nodes f_continue f_propagate start_idx d =
     obind (go_upwards_from_accessed nodes f_propagate start_idx VisitChildrenOfAccessed d) (\<lambda>(root, stack, d).
     obind (finish_foreign_accesses (2 * length nodes) nodes f_continue f_propagate stack d) (\<lambda>d. Ok (root, d)))"

definition traverse_nonchildren ::
  "Nodes \<Rightarrow> ('e, 'd) node_continue \<Rightarrow> ('e, 'd) node_app \<Rightarrow> UniIndex \<Rightarrow> 'd \<Rightarrow> ('e, UniIndex \<times> 'd) outcome" where
  "traverse_nonchildren nodes f_continue f_propagate start_idx d =
     obind (go_upwards_from_accessed nodes f_propagate start_idx SkipChildrenOfAccessed d) (\<lambda>(root, stack, d).
     obind (finish_foreign_accesses (2 * length nodes) nodes f_continue f_propagate stack d) (\<lambda>d. Ok (root, d)))"

definition traverse_children_this ::
  "Nodes \<Rightarrow> ('e, 'd) node_continue \<Rightarrow> ('e, 'd) node_app \<Rightarrow> UniIndex \<Rightarrow> 'd \<Rightarrow> ('e, 'd) outcome" where
  "traverse_children_this nodes f_continue f_propagate start_idx d =
     finish_foreign_accesses (2 * length nodes) nodes f_continue f_propagate
       [(start_idx, ForeignAccess, BeforeChildren)] d"

section \<open>Trees\<close>

text \<open>The abstract tree, a subtree in its context (innermost ancestor first), and what it means that
  the node map represents a tree.\<close>

datatype rtree = RT (rt_idx: UniIndex) (rt_children: "rtree list")

type_synonym tree_context = "(UniIndex \<times> rtree list \<times> rtree list) list"

fun rt_nodes :: "rtree \<Rightarrow> UniIndex list" where
  "rt_nodes (RT i ts) = i # concat (map rt_nodes ts)"

fun plug :: "rtree \<Rightarrow> tree_context \<Rightarrow> rtree" where
  "plug t [] = t"
| "plug t ((i, l, r) # ctx) = plug (RT i (l @ t # r)) ctx"

fun represents :: "Nodes \<Rightarrow> rtree \<Rightarrow> bool" where
  "represents nodes (RT i ts) =
     ((case UniValMap_get nodes i of None \<Rightarrow> False | Some n \<Rightarrow> node_children n = map rt_idx ts) \<and>
      (\<forall>t\<in>set ts. represents nodes t \<and> map_option node_parent (UniValMap_get nodes (rt_idx t)) = Some (Some i)))"

definition represents_root :: "Nodes \<Rightarrow> rtree \<Rightarrow> bool" where
  "represents_root nodes t \<longleftrightarrow> represents nodes t \<and> distinct (rt_nodes t) \<and>
     map_option node_parent (UniValMap_get nodes (rt_idx t)) = Some None"

section \<open>Specification\<close>

text \<open>Bottom-up, last child first.\<close>

fun visit ::
  "('e, 'd) node_continue \<Rightarrow> ('e, 'd) node_app \<Rightarrow> AccessRelatedness \<Rightarrow> rtree \<Rightarrow> 'd \<Rightarrow> ('e, 'd) outcome" where
  "visit f_continue f_propagate rel (RT i ts) d =
     obind (f_continue i rel d) (\<lambda>c.
       case c of
         SkipSelfAndChildren \<Rightarrow> Ok d
       | Recurse \<Rightarrow> obind (ofold (\<lambda>t. visit f_continue f_propagate rel t) (rev ts) d) (f_propagate i rel))"

text \<open>First the accessed node and its ancestors, from the inside out; then the children of the accessed
  node (unless they are left out) and the cousins, from the inside out.\<close>

definition visit_all ::
  "('e, 'd) node_continue \<Rightarrow> ('e, 'd) node_app \<Rightarrow> ChildrenVisitMode \<Rightarrow> rtree \<Rightarrow> tree_context \<Rightarrow> 'd \<Rightarrow> ('e, 'd) outcome" where
  "visit_all f_continue f_propagate mode t ctx d =
     obind (ofold (\<lambda>i. f_propagate i LocalAccess) (rt_idx t # map fst ctx) d)
       (ofold (visit f_continue f_propagate ForeignAccess)
         ((if mode = VisitChildrenOfAccessed then rev (rt_children t) else []) @
          concat (map (\<lambda>(_, l, r). rev (l @ r)) ctx)))"

section \<open>The stack machine implements the specification\<close>

datatype work = Before AccessRelatedness rtree | After AccessRelatedness UniIndex

fun entry :: "work \<Rightarrow> UniIndex \<times> AccessRelatedness \<times> RecursionState" where
  "entry (Before rel t) = (rt_idx t, rel, BeforeChildren)"
| "entry (After rel i) = (i, rel, AfterChildren)"

fun work_cost :: "work \<Rightarrow> nat" where
  "work_cost (Before rel t) = 2 * length (rt_nodes t)"
| "work_cost (After rel i) = 1"

fun work_ok :: "Nodes \<Rightarrow> work \<Rightarrow> bool" where
  "work_ok nodes (Before rel t) = represents nodes t"
| "work_ok nodes (After rel i) = True"

fun work_run :: "('e, 'd) node_continue \<Rightarrow> ('e, 'd) node_app \<Rightarrow> work \<Rightarrow> 'd \<Rightarrow> ('e, 'd) outcome" where
  "work_run fc fp (Before rel t) d = visit fc fp rel t d"
| "work_run fc fp (After rel i) d = fp i rel d"

lemma work_run_Before: "work_run fc fp (Before rel t) = visit fc fp rel t"
  by (simp add: fun_eq_iff)

lemma fold_push: "fold (\<lambda>c st. f c # st) cs st = rev (map f cs) @ st"
  by (induction cs arbitrary: st) auto

lemma represents_node:
  assumes "represents nodes (RT i ts)"
  obtains n where "UniValMap_get nodes i = Some n" "node_children n = map rt_idx ts" "get_node nodes i = Ok n"
  using assms by (auto simp: get_node_def split: option.splits)

lemma rt_nodes_not_empty: "rt_nodes t \<noteq> []"
  by (cases t) simp

lemma rt_idx_in_nodes: "rt_idx t \<in> set (rt_nodes t)"
  by (cases t) simp

lemma ofold_map: "ofold f (map g xs) s = ofold (\<lambda>x. f (g x)) xs s"
  by (induction xs arbitrary: s) (auto intro!: obind_cong)

lemma finish_foreign_accesses_run:
  "sum_list (map work_cost ws) \<le> fuel \<Longrightarrow> list_all (work_ok nodes) ws \<Longrightarrow>
     finish_foreign_accesses fuel nodes fc fp (map entry ws) d = ofold (work_run fc fp) ws d"
proof (induction fuel arbitrary: ws d)
  case 0
  then show ?case
  proof (cases ws)
    case (Cons w ws')
    have "0 < work_cost w" by (cases w rule: work_cost.cases) (simp_all add: rt_nodes_not_empty)
    with 0 Cons show ?thesis by simp
  qed simp
next
  case (Suc fuel)
  show ?case
  proof (cases ws)
    case (Cons w ws')
    show ?thesis
    proof (cases w)
      case (Before rel t)
      obtain i ts where t: "t = RT i ts" by (cases t)
      let ?new = "rev (map (Before rel) ts) @ After rel i # ws'"
      have rep: "represents nodes (RT i ts)" using Suc.prems(2) by (simp add: Cons Before t)
      then obtain n where n: "node_children n = map rt_idx ts" "get_node nodes i = (Ok n :: ('a, _) outcome)"
        by (rule represents_node [where 'a = 'a]) blast
      have ok: "list_all (work_ok nodes) ?new"
        using rep Suc.prems(2) Cons by (auto simp: list_all_iff)
      have "sum_list (map work_cost (map (Before rel) ts)) = 2 * length (concat (map rt_nodes ts))"
        by (induction ts) auto
      then have cost: "sum_list (map work_cost ?new) \<le> fuel"
        using Suc.prems(1) by (simp add: Cons Before t sum_list_rev flip: rev_map)
      have new: "map entry ?new = fold (\<lambda>child stack. (child, rel, BeforeChildren) # stack) (node_children n)
          ((i, rel, AfterChildren) # map entry ws')"
        by (simp add: n(1) fold_push rev_map comp_def)
      have run: "ofold (work_run fc fp) ?new d =
          obind (obind (ofold (visit fc fp rel) (rev ts) d) (fp i rel)) (ofold (work_run fc fp) ws')"
        by (simp add: ofold_append obind_assoc rev_map ofold_map work_run_Before flip: map_map cong: obind_cong)
      have "sum_list (map work_cost ws') \<le> fuel" "list_all (work_ok nodes) ws'"
        using Suc.prems by (simp_all add: Cons Before t)
      note rest = Suc.IH [OF this]
      have "finish_foreign_accesses fuel nodes fc fp (fold (\<lambda>child stack. (child, rel, BeforeChildren) # stack)
          (node_children n) ((i, rel, AfterChildren) # map entry ws')) d = ofold (work_run fc fp) ?new d"
        by (simp only: new [symmetric] Suc.IH [OF cost ok])
      with rest run n(2) show ?thesis
        by (cases "fc i rel d") (auto simp: Cons Before t split: ContinueTraversal.splits)
    next
      case (After rel i)
      then show ?thesis using Suc Cons by (auto intro!: obind_cong)
    qed
  qed simp
qed

lemma represents_plug: "represents nodes (plug t ctx) \<Longrightarrow> represents nodes t"
proof (induction ctx arbitrary: t)
  case (Cons a ctx)
  then show ?case by (cases a) fastforce
qed simp

lemma distinct_plug: "distinct (rt_nodes (plug t ctx)) \<Longrightarrow> distinct (rt_nodes t)"
proof (induction ctx arbitrary: t)
  case (Cons a ctx)
  then show ?case by (cases a) fastforce
qed simp

definition forest_size :: "rtree list \<Rightarrow> nat" where
  "forest_size ts = length (concat (map rt_nodes ts))"

lemma forest_size_simps [simp]:
  "forest_size [] = 0" "forest_size (t # ts) = length (rt_nodes t) + forest_size ts"
  "forest_size (ts @ us) = forest_size ts + forest_size us" "forest_size (rev ts) = forest_size ts"
  by (induction ts) (auto simp: forest_size_def)

lemma length_rt_nodes: "length (rt_nodes (RT i ts)) = Suc (forest_size ts)"
  by (simp add: forest_size_def)

lemma length_plug:
  "length (rt_nodes (plug t ctx)) = length (rt_nodes t) + length ctx + forest_size (concat (map (\<lambda>(_, l, r). rev (l @ r)) ctx))"
proof (induction ctx arbitrary: t)
  case (Cons a ctx)
  then show ?case by (cases a) (simp add: length_rt_nodes del: rt_nodes.simps)
qed simp

lemma represents_in_map: "represents nodes t \<Longrightarrow> i \<in> set (rt_nodes t) \<Longrightarrow> i < length nodes"
  by (induction t rule: rt_nodes.induct) (auto simp: UniValMap_get_def split: option.splits if_splits)

lemma tree_fits:
  assumes "represents nodes t" "distinct (rt_nodes t)"
  shows "length (rt_nodes t) \<le> length nodes"
proof -
  have "set (rt_nodes t) \<subseteq> {..<length nodes}" using represents_in_map [OF assms(1)] by blast
  from card_mono [OF _ this] show ?thesis by (simp add: distinct_card [OF assms(2)])
qed

abbreviation foreign_entries :: "rtree list \<Rightarrow> visit_stack" where
  "foreign_entries ts \<equiv> map (\<lambda>t. (rt_idx t, ForeignAccess, BeforeChildren)) ts"

lemma push_cousins:
  assumes "distinct (map rt_idx (l @ t # r))"
  shows "fold (\<lambda>child stack. if rt_idx t = child then stack else (child, ForeignAccess, BeforeChildren) # stack)
    (rev (map rt_idx (l @ t # r))) stack = foreign_entries (l @ r) @ stack"
proof -
  have *: "fold (\<lambda>child stack. if j = child then stack else (child, ForeignAccess, BeforeChildren) # stack)
      (rev (map rt_idx ts)) st = foreign_entries ts @ st" if "j \<notin> rt_idx ` set ts" for j ts and st :: visit_stack
    using that by (induction ts arbitrary: st) auto
  from assms have "rt_idx t \<notin> rt_idx ` set l" "rt_idx t \<notin> rt_idx ` set r" by auto
  then show ?thesis by (simp add: * del: rev_map flip: rev_map)
qed

lemma children_distinct:
  assumes "distinct (rt_nodes (RT i ts))" shows "distinct (map rt_idx ts)"
proof -
  have "distinct (map rt_idx ts)" if "distinct (concat (map rt_nodes ts))"
    using that
  proof (induction ts)
    case (Cons t ts)
    have "rt_idx t \<noteq> rt_idx u" if "u \<in> set ts" for u
      using Cons.prems rt_idx_in_nodes [of t] rt_idx_in_nodes [of u] that by auto
    with Cons show ?case by auto
  qed simp
  with assms show ?thesis by simp
qed

lemma go_upwards_loop_run:
  assumes "represents nodes (plug t ctx)" "distinct (rt_nodes (plug t ctx))"
    "map_option node_parent (UniValMap_get nodes (rt_idx (plug t ctx))) = Some None" "length ctx < fuel"
  shows "go_upwards_loop fuel nodes fp (rt_idx t) stack d =
    obind (ofold (\<lambda>i. fp i LocalAccess) (map fst ctx) d) (\<lambda>d.
      Ok (rt_idx (plug t ctx), concat (rev (map (\<lambda>(_, l, r). foreign_entries (l @ r)) ctx)) @ stack, d))"
  using assms
proof (induction ctx arbitrary: t fuel stack d)
  case Nil
  then show ?case by (cases fuel) (auto simp: get_node_def)
next
  case (Cons a ctx)
  obtain i l r where a: "a = (i, l, r)" by (cases a)
  obtain f where fuel: "fuel = Suc f" "length ctx < f" using Cons.prems(4) by (cases fuel) auto
  let ?p = "RT i (l @ t # r)"
  have rep: "represents nodes ?p" using Cons.prems(1) represents_plug [of nodes ?p ctx] by (simp add: a)
  have dis: "distinct (rt_nodes ?p)" using Cons.prems(2) distinct_plug [of ?p ctx] by (simp add: a)
  obtain n where n: "UniValMap_get nodes (rt_idx t) = Some n" "node_parent n = Some i" using rep by auto
  obtain m where m: "UniValMap_get nodes i = Some m" "node_children m = map rt_idx (l @ t # r)"
    using rep by (auto split: option.splits)
  have IH: "go_upwards_loop f nodes fp (rt_idx ?p) st e =
    obind (ofold (\<lambda>i. fp i LocalAccess) (map fst ctx) e) (\<lambda>d.
      Ok (rt_idx (plug ?p ctx), concat (rev (map (\<lambda>(_, l, r). foreign_entries (l @ r)) ctx)) @ st, d))" for st e
    using Cons.IH [of ?p f st e] Cons.prems fuel(2) by (simp add: a)
  have "go_upwards_loop fuel nodes fp (rt_idx t) stack d =
    obind (fp i LocalAccess d) (\<lambda>d. go_upwards_loop f nodes fp (rt_idx ?p) (foreign_entries (l @ r) @ stack) d)"
    using n m push_cousins [OF children_distinct [OF dis]] by (simp add: fuel(1) get_node_def)
  also have "\<dots> = obind (fp i LocalAccess d) (\<lambda>d. obind (ofold (\<lambda>i. fp i LocalAccess) (map fst ctx) d) (\<lambda>d.
      Ok (rt_idx (plug ?p ctx), concat (rev (map (\<lambda>(_, l, r). foreign_entries (l @ r)) ctx)) @ foreign_entries (l @ r) @ stack, d)))"
    by (simp only: IH)
  also have "\<dots> = obind (ofold (\<lambda>i. fp i LocalAccess) (map fst (a # ctx)) d) (\<lambda>d.
      Ok (rt_idx (plug t (a # ctx)), concat (rev (map (\<lambda>(_, l, r). foreign_entries (l @ r)) (a # ctx))) @ stack, d))"
    by (simp add: a obind_assoc)
  finally show ?case .
qed

lemma finish_forest:
  assumes "\<forall>t\<in>set ts. represents nodes t" "2 * forest_size ts \<le> fuel"
  shows "finish_foreign_accesses fuel nodes fc fp (map (\<lambda>t. (rt_idx t, rel, BeforeChildren)) ts) d =
    ofold (visit fc fp rel) ts d"
proof -
  have "sum_list (map work_cost (map (Before rel) ts)) = 2 * forest_size ts"
    by (induction ts) auto
  with finish_foreign_accesses_run [of "map (Before rel) ts" fuel nodes fc fp d] assms show ?thesis
    by (simp add: list_all_iff ofold_map work_run_Before comp_def)
qed

lemma represents_siblings:
  "represents nodes (plug t ctx) \<Longrightarrow> (i, l, r) \<in> set ctx \<Longrightarrow> u \<in> set l \<union> set r \<Longrightarrow> represents nodes u"
proof (induction ctx arbitrary: t)
  case (Cons a ctx)
  obtain j l' r' where a: "a = (j, l', r')" by (cases a)
  with Cons.prems(1) have rep: "represents nodes (RT j (l' @ t # r'))"
    using represents_plug [of nodes "RT j (l' @ t # r')" ctx] by simp
  show ?case
  proof (cases "(i, l, r) = a")
    case True
    with a rep Cons.prems(3) show ?thesis by auto
  next
    case False
    with Cons a show ?thesis by auto
  qed
qed simp

lemma go_upwards_from_accessed_run:
  assumes "represents_root nodes (plug t ctx)"
  shows "go_upwards_from_accessed nodes fp (rt_idx t) mode d =
    obind (ofold (\<lambda>i. fp i LocalAccess) (rt_idx t # map fst ctx) d) (\<lambda>d.
      Ok (rt_idx (plug t ctx), foreign_entries ((if mode = VisitChildrenOfAccessed then rev (rt_children t) else []) @
        concat (map (\<lambda>(_, l, r). rev (l @ r)) ctx)), d))"
proof -
  have r: "represents nodes (plug t ctx)" "distinct (rt_nodes (plug t ctx))"
    "map_option node_parent (UniValMap_get nodes (rt_idx (plug t ctx))) = Some None"
    using assms by (simp_all add: represents_root_def)
  have "length ctx < length nodes"
    using tree_fits [OF r(1,2)] rt_nodes_not_empty [of t] by (cases "rt_nodes t") (simp_all add: length_plug)
  note loop = go_upwards_loop_run [OF r this]
  obtain n where n: "get_node nodes (rt_idx t) = (Ok n :: ('a, _) outcome)" "node_children n = map rt_idx (rt_children t)"
    using represents_plug [OF r(1)] by (cases t) (auto simp: get_node_def split: option.splits)
  have rev_ctx: "rev (concat (map (\<lambda>(_, l, r). foreign_entries l @ foreign_entries r) (rev ctx))) =
      foreign_entries (concat (map (\<lambda>(_, l, r). rev r @ rev l) ctx))"
    by (induction ctx) (auto simp: rev_map)
  let ?start = "if mode = VisitChildrenOfAccessed then foreign_entries (rt_children t) else []"
  have "go_upwards_from_accessed nodes fp (rt_idx t) mode d =
    obind (fp (rt_idx t) LocalAccess d) (\<lambda>d.
    obind (go_upwards_loop (length nodes) nodes fp (rt_idx t) ?start d) (\<lambda>(root, stack, d). Ok (root, rev stack, d)))"
    using n by (simp add: go_upwards_from_accessed_def fold_push rev_map comp_def)
  also have "\<dots> = obind (ofold (\<lambda>i. fp i LocalAccess) (rt_idx t # map fst ctx) d) (\<lambda>d.
      Ok (rt_idx (plug t ctx), foreign_entries ((if mode = VisitChildrenOfAccessed then rev (rt_children t) else []) @
        concat (map (\<lambda>(_, l, r). rev (l @ r)) ctx)), d))"
    by (simp add: loop obind_assoc rev_ctx rev_map)
  finally show ?thesis .
qed

lemma visit_all_run:
  assumes "represents_root nodes (plug t ctx)"
  shows "obind (go_upwards_from_accessed nodes fp (rt_idx t) mode d) (\<lambda>(root, stack, d).
     obind (finish_foreign_accesses (2 * length nodes) nodes fc fp stack d) (\<lambda>d. Ok (root, d))) =
    obind (visit_all fc fp mode t ctx d) (\<lambda>d. Ok (rt_idx (plug t ctx), d))"
proof -
  have r: "represents nodes (plug t ctx)" "distinct (rt_nodes (plug t ctx))"
    using assms by (simp_all add: represents_root_def)
  let ?ts = "(if mode = VisitChildrenOfAccessed then rev (rt_children t) else []) @ concat (map (\<lambda>(_, l, r). rev (l @ r)) ctx)"
  have "\<forall>u\<in>set ?ts. represents nodes u"
    using represents_plug [OF r(1)] represents_siblings [OF r(1)] by (cases t) auto
  moreover have "2 * forest_size ?ts \<le> 2 * length nodes"
    using tree_fits [OF r] by (cases t) (simp add: length_plug length_rt_nodes del: rt_nodes.simps)
  ultimately have "finish_foreign_accesses (2 * length nodes) nodes fc fp (foreign_entries ?ts) d' =
      ofold (visit fc fp ForeignAccess) ?ts d'" for d'
    by (rule finish_forest)
  then show ?thesis
    by (simp add: go_upwards_from_accessed_run [OF assms] visit_all_def obind_assoc)
qed

lemma distinct_concat_rev: "distinct (concat (map f (rev ts))) \<longleftrightarrow> distinct (concat (map f ts))"
proof -
  have "mset (concat (map f (rev ts))) = mset (concat (map f ts))" by (induction ts) auto
  then show ?thesis by (rule mset_eq_imp_distinct_iff)
qed

lemma plug_append: "plug t (c @ c') = plug (plug t c) c'"
  by (induction t c rule: plug.induct) auto

lemma mset_plug:
  "mset (rt_nodes (plug t ctx)) = mset (rt_nodes t) + mset (map fst ctx) +
     mset (concat (map (\<lambda>t. rev (rt_nodes t)) (concat (map (\<lambda>(_, l, r). rev (l @ r)) ctx))))"
proof (induction ctx arbitrary: t)
  case (Cons a ctx)
  have mset_rev: "mset (concat (map (\<lambda>t. rev (rt_nodes t)) (rev ts))) = mset (concat (map rt_nodes ts))" for ts
    by (induction ts) auto
  show ?case using Cons by (cases a) (simp add: mset_rev)
qed simp

lemma set_plug:
  "set (rt_nodes (plug t ctx)) = set (rt_nodes t) \<union> fst ` set ctx \<union> (\<Union>(_, l, r)\<in>set ctx. \<Union>u\<in>set l \<union> set r. set (rt_nodes u))"
  by (induction t ctx rule: plug.induct) auto

text \<open>The subtrees that a traversal visits as foreign.\<close>

definition foreign_forest :: "ChildrenVisitMode \<Rightarrow> rtree \<Rightarrow> tree_context \<Rightarrow> rtree list" where
  "foreign_forest mode t ctx = (if mode = VisitChildrenOfAccessed then rev (rt_children t) else []) @
     concat (map (\<lambda>(_, l, r). rev (l @ r)) ctx)"

lemma foreign_forest_nodes:
  assumes "distinct (rt_nodes (plug t ctx))"
  shows "distinct (rt_idx t # map fst ctx)" "distinct (concat (map rt_nodes (foreign_forest mode t ctx)))"
    "set (rt_idx t # map fst ctx) \<inter> set (concat (map rt_nodes (foreign_forest mode t ctx))) = {}"
    "set (rt_idx t # map fst ctx) \<union> set (concat (map rt_nodes (foreign_forest VisitChildrenOfAccessed t ctx))) = set (rt_nodes (plug t ctx))"
    "set (foreign_forest mode t ctx) \<subseteq> set (foreign_forest VisitChildrenOfAccessed t ctx)"
proof -
  let ?all = "(rt_idx t # map fst ctx) @ concat (map rt_nodes (foreign_forest VisitChildrenOfAccessed t ctx))"
  have rev_nodes: "mset (concat (map (\<lambda>t. rev (rt_nodes t)) us)) = mset (concat (map rt_nodes us))" for us
    by (induction us) auto
  have "mset (concat (map rt_nodes (rev us))) = mset (concat (map rt_nodes us))" for us
    by (induction us) auto
  then have ms: "mset ?all = mset (rt_nodes (plug t ctx))"
    by (cases t) (simp add: mset_plug rev_nodes foreign_forest_def)
  then have dist: "distinct ?all" using assms by (metis mset_eq_imp_distinct_iff)
  then show "distinct (rt_idx t # map fst ctx)" by (metis distinct_append)
  show sub: "set (foreign_forest mode t ctx) \<subseteq> set (foreign_forest VisitChildrenOfAccessed t ctx)"
    by (auto simp: foreign_forest_def)
  from dist show "distinct (concat (map rt_nodes (foreign_forest mode t ctx)))"
    by (cases mode) (auto simp: foreign_forest_def)
  have "set (rt_idx t # map fst ctx) \<inter> set (concat (map rt_nodes (foreign_forest VisitChildrenOfAccessed t ctx))) = {}"
    using dist by (metis distinct_append)
  with sub show "set (rt_idx t # map fst ctx) \<inter> set (concat (map rt_nodes (foreign_forest mode t ctx))) = {}"
    by fastforce
  from mset_eq_setD [OF ms] show "set (rt_idx t # map fst ctx) \<union> set (concat (map rt_nodes (foreign_forest VisitChildrenOfAccessed t ctx))) = set (rt_nodes (plug t ctx))"
    by simp
qed

section \<open>Visitors that work on one node at a time\<close>

text \<open>What the traversal promises to a client whose closures look at and change only the state of the
  node they are called for: \<open>at\<close> reads that state, \<open>step\<close> is what a visit does to it, \<open>skips\<close> says when
  a subtree is left out.\<close>

locale local_visitor =
  fixes fc :: "('e, 'd) node_continue" and fp :: "('e, 'd) node_app" and at :: "'d \<Rightarrow> UniIndex \<Rightarrow> 's"
    and step :: "UniIndex \<Rightarrow> AccessRelatedness \<Rightarrow> 's \<Rightarrow> 's \<Rightarrow> bool" and skips :: "UniIndex \<Rightarrow> AccessRelatedness \<Rightarrow> 's \<Rightarrow> bool"
  assumes app_frame: "fp j rel d = Ok d' \<Longrightarrow> i \<noteq> j \<Longrightarrow> at d' i = at d i"
    and app_step: "fp i rel d = Ok d' \<Longrightarrow> step i rel (at d i) (at d' i)"
    and skip_local: "fc i rel d = Ok SkipSelfAndChildren \<Longrightarrow> skips i rel (at d i)"
begin

lemma visit_frame: "visit fc fp rel t d = Ok d' \<Longrightarrow> i \<notin> set (rt_nodes t) \<Longrightarrow> at d' i = at d i"
proof (induction t arbitrary: d d')
  case (RT j ts)
  have forest: "at e' i = at e i" if "ofold (visit fc fp rel) us e = Ok e'" "set us \<subseteq> set ts" for us e e'
    using that
  proof (induction us arbitrary: e)
    case (Cons u us)
    then obtain e1 where "visit fc fp rel u e = Ok e1" "ofold (visit fc fp rel) us e1 = Ok e'" by (auto simp: outcome_eqs)
    moreover have "i \<notin> set (rt_nodes u)" using Cons.prems(2) RT.prems(2) by auto
    ultimately show ?case using RT.IH [of u] Cons by (metis insert_subset list.set(2))
  qed simp
  show ?case
  proof (cases "fc j rel d")
    case (Ok c)
    show ?thesis
    proof (cases c)
      case Recurse
      with Ok RT.prems(1) obtain e where "ofold (visit fc fp rel) (rev ts) d = Ok e" "fp j rel e = Ok d'"
        by (auto simp: outcome_eqs)
      with forest [of "rev ts" d e] app_frame [of j rel e d' i] RT.prems(2) show ?thesis by simp
    next
      case SkipSelfAndChildren
      with Ok RT.prems(1) show ?thesis by simp
    qed
  qed (use RT.prems(1) in simp_all)
qed

lemma forest_frame:
  "ofold (visit fc fp rel) ts d = Ok d' \<Longrightarrow> i \<notin> set (concat (map rt_nodes ts)) \<Longrightarrow> at d' i = at d i"
proof (induction ts arbitrary: d)
  case (Cons t ts)
  then obtain e where "visit fc fp rel t d = Ok e" "ofold (visit fc fp rel) ts e = Ok d'" by (auto simp: outcome_eqs)
  with Cons visit_frame [of rel t d e i] show ?case by simp
qed simp

lemma visit_cases:
  assumes "visit fc fp rel (RT j ts) d = Ok d'"
  obtains "skips j rel (at d j)" "d' = d"
  | e where "ofold (visit fc fp rel) (rev ts) d = Ok e" "fp j rel e = Ok d'"
proof (cases "fc j rel d")
  case (Ok c)
  show ?thesis
  proof (cases c)
    case Recurse
    with Ok assms have "obind (ofold (visit fc fp rel) (rev ts) d) (fp j rel) = Ok d'" by simp
    then show ?thesis unfolding obind_eq_Ok using that(2) by blast
  next
    case SkipSelfAndChildren
    with Ok assms have "d' = d" by simp
    moreover have "skips j rel (at d j)" by (rule skip_local) (simp add: Ok SkipSelfAndChildren)
    ultimately show ?thesis by (rule that(1) [rotated])
  qed
qed (use assms in simp_all)

lemma forest_split:
  assumes "ofold (visit fc fp rel) ts d = Ok d'" "t \<in> set ts" "distinct (concat (map rt_nodes ts))"
  obtains e e' where "visit fc fp rel t e = Ok e'" "\<forall>i\<in>set (rt_nodes t). at e i = at d i \<and> at d' i = at e' i"
proof -
  from assms(2) obtain xs ys where ts: "ts = xs @ t # ys" by (meson split_list)
  with assms(1) obtain e where e1: "ofold (visit fc fp rel) xs d = Ok e" "ofold (visit fc fp rel) (t # ys) e = Ok d'"
    by (simp only: ofold_append obind_eq_Ok) blast
  then obtain e' where e: "ofold (visit fc fp rel) xs d = Ok e" "visit fc fp rel t e = Ok e'"
    "ofold (visit fc fp rel) ys e' = Ok d'" by (simp only: ofold.simps obind_eq_Ok) blast
  have "at e i = at d i \<and> at d' i = at e' i" if "i \<in> set (rt_nodes t)" for i
    using forest_frame [OF e(1), of i] forest_frame [OF e(3), of i] that assms(3) by (auto simp: ts)
  with e(2) that show thesis by blast
qed

text \<open>Every node of a visited tree is left alone or takes one step.\<close>

lemma visit_inside:
  "visit fc fp rel t d = Ok d' \<Longrightarrow> distinct (rt_nodes t) \<Longrightarrow> i \<in> set (rt_nodes t) \<Longrightarrow>
     at d' i = at d i \<or> step i rel (at d i) (at d' i)"
proof (induction t arbitrary: d d')
  case (RT j ts)
  from RT.prems(1) show ?case
  proof (cases rule: visit_cases)
    case (2 e)
    have dj: "j \<notin> set (concat (map rt_nodes ts))" and dts: "distinct (concat (map rt_nodes (rev ts)))"
      using RT.prems(2) by (auto simp: distinct_concat_rev)
    show ?thesis
    proof (cases "i = j")
      case True
      with app_step [OF 2(2)] forest_frame [OF 2(1), of j] dj show ?thesis by simp
    next
      case False
      with RT.prems(3) obtain t where t: "t \<in> set ts" "i \<in> set (rt_nodes t)" by auto
      from forest_split [OF 2(1) _ dts, of t] t(1) obtain a b where
        ab: "visit fc fp rel t a = Ok b" "\<forall>i\<in>set (rt_nodes t). at a i = at d i \<and> at e i = at b i" by auto
      have "distinct (rt_nodes t)" using RT.prems(2) t(1) by (auto simp: distinct_concat_iff)
      from RT.IH [OF t(1) ab(1) this t(2)] ab(2) t(2) app_frame [OF 2(2) False] show ?thesis by simp
    qed
  qed simp
qed

text \<open>A node takes its step for sure if nothing on the way down to it is skipped.\<close>

lemma visit_path:
  "visit fc fp rel (plug t ctx) d = Ok d' \<Longrightarrow> distinct (rt_nodes (plug t ctx)) \<Longrightarrow>
     \<forall>i\<in>insert (rt_idx t) (fst ` set ctx). \<not> skips i rel (at d i) \<Longrightarrow>
     step (rt_idx t) rel (at d (rt_idx t)) (at d' (rt_idx t))"
proof (induction ctx arbitrary: d d' rule: rev_induct)
  case Nil
  obtain i ts where t: "t = RT i ts" by (cases t)
  from Nil.prems(1) have "visit fc fp rel (RT i ts) d = Ok d'" by (simp add: t)
  then show ?case
  proof (cases rule: visit_cases)
    case (2 e)
    have "i \<notin> set (concat (map rt_nodes (rev ts)))" using Nil.prems(2) by (simp add: t)
    with app_step [OF 2(2)] forest_frame [OF 2(1)] show ?thesis by (simp add: t)
  qed (use Nil.prems(3) in \<open>simp add: t\<close>)
next
  case (snoc a ctx)
  obtain i l r where a: "a = (i, l, r)" by (cases a)
  let ?s = "plug t ctx"
  from snoc.prems(1) have "visit fc fp rel (RT i (l @ ?s # r)) d = Ok d'" by (simp add: a plug_append)
  then show ?case
  proof (cases rule: visit_cases)
    case (2 e)
    have dist: "distinct (concat (map rt_nodes (rev (l @ ?s # r))))" "i \<notin> set (rt_nodes ?s)" "distinct (rt_nodes ?s)"
      using snoc.prems(2) by (auto simp: a plug_append distinct_concat_rev)
    have mem: "rt_idx t \<in> set (rt_nodes ?s)" "fst ` set ctx \<subseteq> set (rt_nodes ?s)"
      using rt_idx_in_nodes [of t] by (auto simp: set_plug)
    from forest_split [OF 2(1) _ dist(1), of ?s] obtain b c where
      bc: "visit fc fp rel ?s b = Ok c" "\<forall>i\<in>set (rt_nodes ?s). at b i = at d i \<and> at e i = at c i" by auto
    have "\<forall>i\<in>insert (rt_idx t) (fst ` set ctx). \<not> skips i rel (at b i)"
    proof
      fix i
      assume i: "i \<in> insert (rt_idx t) (fst ` set ctx)"
      with mem have "i \<in> set (rt_nodes ?s)" by blast
      with bc(2) have "at b i = at d i" by blast
      with snoc.prems(3) i show "\<not> skips i rel (at b i)" by auto
    qed
    from snoc.IH [OF bc(1) dist(3) this] bc(2) mem(1) app_frame [OF 2(2), of "rt_idx t"] dist(2) show ?thesis
      by (metis)
  qed (use snoc.prems(3) in \<open>simp add: a\<close>)
qed

lemma local_steps:
  "ofold (\<lambda>i. fp i rel) is d = Ok d' \<Longrightarrow> distinct is \<Longrightarrow>
     (if i \<in> set is then step i rel (at d i) (at d' i) else at d' i = at d i)"
proof (induction "is" arbitrary: d)
  case (Cons j js)
  from Cons.prems(1) obtain e where e: "fp j rel d = Ok e" "ofold (\<lambda>i. fp i rel) js e = Ok d'"
    by (simp only: ofold.simps obind_eq_Ok) blast
  show ?case
  proof (cases "i = j")
    case True
    with Cons.IH [OF e(2)] Cons.prems(2) app_step [OF e(1)] show ?thesis by simp
  next
    case False
    with Cons.IH [OF e(2)] Cons.prems(2) app_frame [OF e(1) False] show ?thesis by (auto split: if_splits)
  qed
qed simp

lemma visit_all_split:
  assumes "visit_all fc fp mode t ctx d = Ok d'"
  obtains e where "ofold (\<lambda>i. fp i LocalAccess) (rt_idx t # map fst ctx) d = Ok e"
    "ofold (visit fc fp ForeignAccess) (foreign_forest mode t ctx) e = Ok d'"
  using assms unfolding visit_all_def foreign_forest_def obind_eq_Ok by blast

lemma visit_all_local:
  assumes "visit_all fc fp mode t ctx d = Ok d'" "distinct (rt_nodes (plug t ctx))" "i \<in> set (rt_idx t # map fst ctx)"
  shows "step i LocalAccess (at d i) (at d' i)"
proof -
  note ff = foreign_forest_nodes [OF assms(2)]
  from assms(1) obtain e where e: "ofold (\<lambda>i. fp i LocalAccess) (rt_idx t # map fst ctx) d = Ok e"
    "ofold (visit fc fp ForeignAccess) (foreign_forest mode t ctx) e = Ok d'" by (rule visit_all_split)
  have "i \<notin> set (concat (map rt_nodes (foreign_forest mode t ctx)))" using ff(3) [of mode] assms(3) by blast
  with forest_frame [OF e(2)] local_steps [OF e(1) ff(1), of i] assms(3) show ?thesis by metis
qed

lemma visit_all_outside:
  assumes "visit_all fc fp mode t ctx d = Ok d'" "distinct (rt_nodes (plug t ctx))" "i \<notin> set (rt_nodes (plug t ctx))"
  shows "at d' i = at d i"
proof -
  note ff = foreign_forest_nodes [OF assms(2)]
  from assms(1) obtain e where e: "ofold (\<lambda>i. fp i LocalAccess) (rt_idx t # map fst ctx) d = Ok e"
    "ofold (visit fc fp ForeignAccess) (foreign_forest mode t ctx) e = Ok d'" by (rule visit_all_split)
  have "i \<notin> set (rt_idx t # map fst ctx)" "i \<notin> set (concat (map rt_nodes (foreign_forest mode t ctx)))"
    using assms(3) ff(4) ff(5) [of mode] by auto
  with forest_frame [OF e(2)] local_steps [OF e(1) ff(1), of i] show ?thesis by metis
qed

lemma visit_all_foreign:
  assumes "visit_all fc fp mode t ctx d = Ok d'" "distinct (rt_nodes (plug t ctx))"
    and "plug u ctx' \<in> set (foreign_forest mode t ctx)"
    and "\<forall>i\<in>insert (rt_idx u) (fst ` set ctx'). \<not> skips i ForeignAccess (at d i)"
  shows "step (rt_idx u) ForeignAccess (at d (rt_idx u)) (at d' (rt_idx u))"
proof -
  note ff = foreign_forest_nodes [OF assms(2)]
  from assms(1) obtain e where e: "ofold (\<lambda>i. fp i LocalAccess) (rt_idx t # map fst ctx) d = Ok e"
    "ofold (visit fc fp ForeignAccess) (foreign_forest mode t ctx) e = Ok d'" by (rule visit_all_split)
  from forest_split [OF e(2) assms(3) ff(2)] obtain b c where
    bc: "visit fc fp ForeignAccess (plug u ctx') b = Ok c" "\<forall>i\<in>set (rt_nodes (plug u ctx')). at b i = at e i \<and> at d' i = at c i"
    by blast
  have mem: "insert (rt_idx u) (fst ` set ctx') \<subseteq> set (rt_nodes (plug u ctx'))"
    using rt_idx_in_nodes [of u] by (auto simp: set_plug)
  have same: "at b i = at d i" if "i \<in> set (rt_nodes (plug u ctx'))" for i
  proof -
    have "i \<notin> set (rt_idx t # map fst ctx)" using ff(3) [of mode] assms(3) that by auto
    with local_steps [OF e(1) ff(1), of i] bc(2) that show ?thesis by simp
  qed
  have "distinct (rt_nodes (plug u ctx'))" using ff(2) [of mode] assms(3) by (auto simp: distinct_concat_iff)
  moreover have "\<forall>i\<in>insert (rt_idx u) (fst ` set ctx'). \<not> skips i ForeignAccess (at b i)"
    using assms(4) same mem by (metis subsetD)
  ultimately have "step (rt_idx u) ForeignAccess (at b (rt_idx u)) (at c (rt_idx u))"
    by (rule visit_path [OF bc(1)])
  with bc(2) same mem show ?thesis by simp
qed

end

lemma traverse_runs:
  assumes "represents_root nodes (plug t ctx)"
  shows "traverse_this_parents_children_other nodes fc fp (rt_idx t) d =
      obind (visit_all fc fp VisitChildrenOfAccessed t ctx d) (\<lambda>d. Ok (rt_idx (plug t ctx), d)) \<and>
    traverse_nonchildren nodes fc fp (rt_idx t) d =
      obind (visit_all fc fp SkipChildrenOfAccessed t ctx d) (\<lambda>d. Ok (rt_idx (plug t ctx), d)) \<and>
    traverse_children_this nodes fc fp (rt_idx (plug t ctx)) d = visit fc fp ForeignAccess (plug t ctx) d"
proof -
  have r: "represents nodes (plug t ctx)" "distinct (rt_nodes (plug t ctx))"
    using assms by (simp_all add: represents_root_def)
  have "traverse_children_this nodes fc fp (rt_idx (plug t ctx)) d = visit fc fp ForeignAccess (plug t ctx) d"
    using finish_forest [of "[plug t ctx]" nodes "2 * length nodes" fc fp ForeignAccess d] tree_fits [OF r] r(1)
    by (simp add: traverse_children_this_def)
  then show ?thesis
    by (simp only: traverse_this_parents_children_other_def traverse_nonchildren_def visit_all_run [OF assms] simp_thms)
qed

section \<open>Properties\<close>

text \<open>C14: On a node map that represents a tree, the stack machine terminates and does exactly what the
  recursive description says: the accessed node and its ancestors from the inside out, then bottom-up the
  children of the accessed node and the cousins, skipping whole subtrees where told to; and it returns
  the root of the tree. The first error of a visit is the error of the traversal.\<close>

theorem traverse_refines:
  assumes "represents_root nodes (plug t ctx)"
  shows "traverse_this_parents_children_other nodes fc fp (rt_idx t) d =
      obind (visit_all fc fp VisitChildrenOfAccessed t ctx d) (\<lambda>d. Ok (rt_idx (plug t ctx), d)) \<and>
    traverse_nonchildren nodes fc fp (rt_idx t) d =
      obind (visit_all fc fp SkipChildrenOfAccessed t ctx d) (\<lambda>d. Ok (rt_idx (plug t ctx), d)) \<and>
    traverse_children_this nodes fc fp (rt_idx (plug t ctx)) d = visit fc fp ForeignAccess (plug t ctx) d"
  using assms by (rule traverse_runs)

text \<open>The tree of the documentation of \<open>traverse_this_parents_children_other\<close>, numbered in its visiting order
  (the order of the children is such that the last one is visited first).\<close>

definition example_node :: "UniIndex option \<Rightarrow> UniIndex list \<Rightarrow> Node option" where
  "example_node p cs = Some \<lparr>node_tag = 1, node_parent = p, node_children = cs, default_initial_perm = Frozen,
     default_initial_idempotent_foreign_access = SifaNone, is_exposed = False\<rparr>"

definition example_nodes :: Nodes where
  "example_nodes = [None, example_node (Some 2) [6, 4], example_node (Some 3) [7, 1], example_node None [2, 9],
     example_node (Some 1) [], example_node (Some 6) [], example_node (Some 1) [5], example_node (Some 2) [],
     example_node (Some 9) [], example_node (Some 3) [8]]"

theorem traverse_refines_witness:
  "represents_root example_nodes (plug (RT 1 [RT 6 [RT 5 []], RT 4 []]) [(2, [RT 7 []], []), (3, [], [RT 9 [RT 8 []]])]) \<and>
   traverse_this_parents_children_other example_nodes (\<lambda>_ _ _. Ok Recurse) (\<lambda>i _ d. Ok (d @ [i])) 1 [] =
     (Ok (3, [1, 2, 3, 4, 5, 6, 7, 8, 9]) :: (unit, _) outcome)"
proof -
  let ?t = "RT 1 [RT 6 [RT 5 []], RT 4 []]" and ?ctx = "[(2, [RT 7 []], []), (3, [], [RT 9 [RT 8 []]])]"
  have rep: "represents_root example_nodes (plug ?t ?ctx)"
    by (simp add: represents_root_def example_nodes_def example_node_def UniValMap_get_def)
  from traverse_refines [OF rep, of "\<lambda>_ _ _. Ok Recurse :: (unit, _) outcome" "\<lambda>i _ d. Ok (d @ [i])" "[]"] rep
  show ?thesis by (simp add: visit_all_def)
qed

text \<open>What a traversal without skipping visits: every node once.\<close>

lemma visit_trace:
  "visit (\<lambda>_ _ _. Ok Recurse) (\<lambda>i rel d. Ok (d @ [(i, rel)])) rel t d =
     (Ok (d @ map (\<lambda>i. (i, rel)) (rev (rt_nodes t))) :: ('e, _) outcome)"
proof (induction t arbitrary: d)
  case (RT i ts)
  have "ofold (visit (\<lambda>_ _ _. Ok Recurse) (\<lambda>i rel d. Ok (d @ [(i, rel)])) rel) us d =
      (Ok (d @ map (\<lambda>i. (i, rel)) (concat (map (\<lambda>t. rev (rt_nodes t)) us))) :: ('e, _) outcome)"
    if "set us \<subseteq> set ts" for us d
    using that RT by (induction us arbitrary: d) auto
  from this [of "rev ts"] show ?case by (simp add: rev_concat rev_map comp_def)
qed

lemma trace_forest:
  "ofold (visit (\<lambda>_ _ _. Ok Recurse) (\<lambda>i rel d. Ok (d @ [(i, rel)])) rel) ts d =
     (Ok (d @ map (\<lambda>i. (i, rel)) (concat (map (\<lambda>t. rev (rt_nodes t)) ts))) :: ('e, _) outcome)"
  by (induction ts arbitrary: d) (simp_all add: visit_trace)

lemma trace_local: "ofold (\<lambda>i d. Ok (d @ [(i, rel)])) is d = (Ok (d @ map (\<lambda>i. (i, rel)) is) :: ('e, _) outcome)"
  by (induction "is" arbitrary: d) simp_all

text \<open>A traversal that skips nothing visits every node of the tree exactly once: the accessed node and
  its ancestors as local accesses, all other nodes as foreign ones.\<close>

theorem traverse_visits_once:
  assumes "represents_root nodes (plug t ctx)"
  shows "\<exists>trace. traverse_this_parents_children_other nodes (\<lambda>_ _ _. Ok Recurse) (\<lambda>i rel d. Ok (d @ [(i, rel)])) (rt_idx t) [] =
      (Ok (rt_idx (plug t ctx), trace) :: (unit, _) outcome) \<and>
    distinct (map fst trace) \<and> set (map fst trace) = set (rt_nodes (plug t ctx)) \<and>
    (\<forall>(i, rel)\<in>set trace. rel = LocalAccess \<longleftrightarrow> i = rt_idx t \<or> i \<in> fst ` set ctx)"
proof -
  let ?loc = "rt_idx t # map fst ctx"
  let ?for = "concat (map (\<lambda>t. rev (rt_nodes t)) (rev (rt_children t) @ concat (map (\<lambda>(_, l, r). rev (l @ r)) ctx)))"
  let ?trace = "map (\<lambda>i. (i, LocalAccess)) ?loc @ map (\<lambda>i. (i, ForeignAccess)) ?for"
  have run: "traverse_this_parents_children_other nodes (\<lambda>_ _ _. Ok Recurse) (\<lambda>i rel d. Ok (d @ [(i, rel)])) (rt_idx t) [] =
      (Ok (rt_idx (plug t ctx), ?trace) :: (unit, _) outcome)"
    using traverse_refines [OF assms, of "\<lambda>_ _ _. Ok Recurse :: (unit, _) outcome" "\<lambda>i rel d. Ok (d @ [(i, rel)])" "[]"]
    by (simp add: visit_all_def trace_local trace_forest ofold_append)
  have "mset (concat (map (\<lambda>t. rev (rt_nodes t)) (rev ts))) = mset (concat (map rt_nodes ts))" for ts
    by (induction ts) auto
  then have ms: "mset (map fst ?trace) = mset (rt_nodes (plug t ctx))"
    by (cases t) (simp add: mset_plug comp_def)
  then have dist: "distinct (map fst ?trace)"
    using assms by (metis mset_eq_imp_distinct_iff represents_root_def)
  have "map fst ?trace = ?loc @ ?for" by (simp add: comp_def)
  with dist have "set ?loc \<inter> set ?for = {}" by (metis distinct_append)
  moreover have "\<forall>(i, rel)\<in>set (map (\<lambda>i. (i, LocalAccess)) A @ map (\<lambda>i. (i, ForeignAccess)) B). rel = LocalAccess \<longleftrightarrow> i \<in> set A"
    if "set A \<inter> set B = {}" for A B :: "UniIndex list" using that by auto
  ultimately have "\<forall>(i, rel)\<in>set ?trace. rel = LocalAccess \<longleftrightarrow> i \<in> set ?loc" by blast
  then have "\<forall>(i, rel)\<in>set ?trace. rel = LocalAccess \<longleftrightarrow> i = rt_idx t \<or> i \<in> fst ` set ctx"
    by (simp only: list.set set_map insert_iff)
  with run dist mset_eq_setD [OF ms] show ?thesis by blast
qed

theorem traverse_visits_once_witness:
  "\<exists>trace. traverse_this_parents_children_other example_nodes (\<lambda>_ _ _. Ok Recurse) (\<lambda>i rel d. Ok (d @ [(i, rel)])) 1 [] =
      (Ok (3, trace) :: (unit, _) outcome) \<and> distinct (map fst trace) \<and> set (map fst trace) = {1..9}"
proof -
  let ?t = "RT 1 [RT 6 [RT 5 []], RT 4 []]" and ?ctx = "[(2, [RT 7 []], []), (3, [], [RT 9 [RT 8 []]])]"
  have rep: "represents_root example_nodes (plug ?t ?ctx)"
    by (simp add: represents_root_def example_nodes_def example_node_def UniValMap_get_def)
  have "set (rt_nodes (plug ?t ?ctx)) = {1..9}" by (simp add: eval_nat_numeral atLeastAtMostSuc_conv insert_commute)
  with traverse_visits_once [OF rep] show ?thesis by auto
qed

end
