(* ===== verification/TB_Tree.thy ===== *)
theory TB_Tree
  imports TB_Visitor Dedup_Range_Map
begin

text \<open>
  The borrow tree of an allocation: \<open>LocationTree\<close> and \<open>Tree\<close> of
  \<open>src/borrow_tracker/tree_borrows/tree.rs\<close>, and the tracking of exposed tags of \<open>wildcard.rs\<close>.

  Left out are the debug information of the nodes (names and the history of transitions) and the data
  that only builds error messages. An error carries the kind of the violation, the node that was
  violated and the node through which the access came. The exposure counts are \<open>u16\<close> with overflow
  checks. The global state is read only for the set of protected tags.
\<close>

section \<open>Exposed tags\<close>

datatype WildcardAccessRelatedness = WildcardLocalAccess | WildcardForeignAccess | WildcardEitherAccess

fun to_relatedness :: "WildcardAccessRelatedness \<Rightarrow> AccessRelatedness option" where
  "to_relatedness WildcardLocalAccess = Some LocalAccess"
| "to_relatedness WildcardForeignAccess = Some ForeignAccess"
| "to_relatedness WildcardEitherAccess = None"

record ExposedCacheNode =
  local_writes :: nat
  local_reads :: nat

type_synonym ExposedCache = "ExposedCacheNode UniValMap"

definition ExposedCacheNode_default :: ExposedCacheNode where
  "ExposedCacheNode_default = \<lparr>local_writes = 0, local_reads = 0\<rparr>"

definition cache_get :: "ExposedCache \<Rightarrow> UniIndex \<Rightarrow> ExposedCacheNode" where
  "cache_get c idx = (case UniValMap_get c idx of None \<Rightarrow> ExposedCacheNode_default | Some n \<Rightarrow> n)"

definition access_relatedness ::
  "ExposedCache \<Rightarrow> UniIndex \<Rightarrow> UniIndex \<Rightarrow> AccessKind \<Rightarrow> bool \<Rightarrow> bool \<Rightarrow>
     ('e, WildcardAccessRelatedness option) outcome" where
  "access_relatedness c root idx kind is_wildcard_tree only_foreign =
     (let root = cache_get c root; node = cache_get c idx;
          (total_num, local_num) =
            (case kind of Read \<Rightarrow> (local_reads root, local_reads node)
                        | Write \<Rightarrow> (local_writes root, local_writes node))
      in obind (add_u16 total_num (if is_wildcard_tree then 1 else 0)) (\<lambda>total_num.
      let relatedness =
            (if total_num = 0 then None
             else Some (if total_num = local_num then WildcardLocalAccess
                        else if local_num = 0 then WildcardForeignAccess
                        else WildcardEitherAccess))
      in Ok (if only_foreign
             then case relatedness of
                    Some WildcardLocalAccess \<Rightarrow> None
                  | Some WildcardForeignAccess \<Rightarrow> Some WildcardForeignAccess
                  | Some WildcardEitherAccess \<Rightarrow> Some WildcardForeignAccess
                  | None \<Rightarrow> None
             else relatedness)))"

text \<open>The change of one node's counts.\<close>

definition update_counts ::
  "WildcardAccessLevel \<Rightarrow> WildcardAccessLevel \<Rightarrow> ExposedCacheNode \<Rightarrow> ('e, ExposedCacheNode) outcome" where
  "update_counts from to state =
     obind (case (from, to) of
              (LevelNone, LevelWrite) \<Rightarrow> add_u16 (local_writes state) 1
            | (LevelRead, LevelWrite) \<Rightarrow> add_u16 (local_writes state) 1
            | (LevelWrite, LevelNone) \<Rightarrow> sub_u16 (local_writes state) 1
            | (LevelWrite, LevelRead) \<Rightarrow> sub_u16 (local_writes state) 1
            | _ \<Rightarrow> Ok (local_writes state)) (\<lambda>writes.
     obind (case (from, to) of
              (LevelNone, LevelRead) \<Rightarrow> add_u16 (local_reads state) 1
            | (LevelNone, LevelWrite) \<Rightarrow> add_u16 (local_reads state) 1
            | (LevelRead, LevelNone) \<Rightarrow> sub_u16 (local_reads state) 1
            | (LevelWrite, LevelNone) \<Rightarrow> sub_u16 (local_reads state) 1
            | _ \<Rightarrow> Ok (local_reads state)) (\<lambda>reads.
     Ok (state\<lparr>local_writes := writes, local_reads := reads\<rparr>)))"

fun update_exposure_loop ::
  "nat \<Rightarrow> Nodes \<Rightarrow> WildcardAccessLevel \<Rightarrow> WildcardAccessLevel \<Rightarrow> UniIndex option \<Rightarrow> ExposedCache \<Rightarrow>
     ('e, ExposedCache) outcome" where
  "update_exposure_loop fuel nodes from to None c = Ok c"
| "update_exposure_loop 0 nodes from to (Some idx) c = Diverge"
| "update_exposure_loop (Suc fuel) nodes from to (Some idx) c =
     obind (get_node nodes idx) (\<lambda>node.
     let (c, state) = entry_or_insert c idx ExposedCacheNode_default in
     obind (update_counts from to state) (\<lambda>state.
     update_exposure_loop fuel nodes from to (node_parent node) (c[idx := Some state])))"

lemma update_exposure_loop_code [code]:
  "update_exposure_loop fuel nodes from to next_id c =
     (case next_id of
        None \<Rightarrow> Ok c
      | Some idx \<Rightarrow>
          if fuel = 0 then Diverge
          else obind (get_node nodes idx) (\<lambda>node.
            let (c, state) = entry_or_insert c idx ExposedCacheNode_default in
            obind (update_counts from to state) (\<lambda>state.
            update_exposure_loop (fuel - 1) nodes from to (node_parent node) (c[idx := Some state]))))"
  by (cases fuel; cases next_id) auto

definition update_exposure ::
  "ExposedCache \<Rightarrow> Nodes \<Rightarrow> UniIndex \<Rightarrow> WildcardAccessLevel \<Rightarrow> WildcardAccessLevel \<Rightarrow> ('e, ExposedCache) outcome" where
  "update_exposure c nodes idx from to =
     (if from = to then Ok c else update_exposure_loop (length nodes) nodes from to (Some idx) c)"

definition ExposedCache_remove :: "ExposedCache \<Rightarrow> UniIndex \<Rightarrow> ExposedCache" where
  "ExposedCache_remove c idx = fst (UniValMap_remove c idx)"

section \<open>One location\<close>

record LocationTree =
  perms :: "LocationState UniValMap"
  exposed_cache :: ExposedCache

text \<open>The derived equality, with \<open>UniValMap\<close>'s own notion of equality.\<close>

definition LocationTree_eq :: "LocationTree \<Rightarrow> LocationTree \<Rightarrow> bool" where
  "LocationTree_eq a b =
     (UniValMap_equivalent (=) (perms a) (perms b) \<and> UniValMap_equivalent (=) (exposed_cache a) (exposed_cache b))"

datatype TbError =
    TbTransition TransitionError UniIndex "UniIndex option"
  | NoValidExposedReferences

definition default_location_state :: "Node \<Rightarrow> ('e, LocationState) outcome" where
  "default_location_state node =
     new_non_accessed (default_initial_perm node) (default_initial_idempotent_foreign_access node)"

definition perm_or_default :: "LocationTree \<Rightarrow> UniIndex \<Rightarrow> Node \<Rightarrow> ('e, LocationState) outcome" where
  "perm_or_default loc idx node =
     (case UniValMap_get (perms loc) idx of Some s \<Rightarrow> Ok s | None \<Rightarrow> default_location_state node)"

definition perform_transition ::
  "LocationState \<Rightarrow> UniIndex \<Rightarrow> Nodes \<Rightarrow> ExposedCache \<Rightarrow> AccessKind \<Rightarrow> AccessRelatedness \<Rightarrow> bool \<Rightarrow>
     (TransitionError, LocationState \<times> ExposedCache) outcome" where
  "perform_transition state idx nodes c access_kind relatedness protected =
     obind (record_new_access state access_kind relatedness) (\<lambda>state.
     let old_access_level = strongest_allowed_local_access (permission state) protected in
     obind (LocationState_perform_access state access_kind relatedness protected) (\<lambda>(state, transition).
     if \<not> is_noop transition
     then obind (get_node nodes idx) (\<lambda>node.
       if is_exposed node
       then let access_level = strongest_allowed_local_access (permission state) protected in
         obind (update_exposure c nodes idx old_access_level access_level) (\<lambda>c. Ok (state, c))
       else Ok (state, c))
     else Ok (state, c)))"

text \<open>The two closures of \<open>perform_normal_access\<close>.\<close>

definition normal_skipper :: "Nodes \<Rightarrow> AccessKind \<Rightarrow> (TbError, LocationTree) node_continue" where
  "normal_skipper nodes access_kind = (\<lambda>idx rel_pos loc.
     obind (get_node nodes idx) (\<lambda>node.
     obind (perm_or_default loc idx node) (\<lambda>old_state.
     skip_if_known_noop old_state access_kind rel_pos)))"

definition normal_app ::
  "Nodes \<Rightarrow> AccessKind \<Rightarrow> GlobalStateInner \<Rightarrow> UniIndex \<Rightarrow> (TbError, LocationTree) node_app" where
  "normal_app nodes access_kind global access_source = (\<lambda>idx rel_pos loc.
     obind (get_node nodes idx) (\<lambda>node.
     obind (default_location_state node) (\<lambda>dflt.
     let (ps, state) = entry_or_insert (perms loc) idx dflt;
         protected = is_protected global (node_tag node)
     in obind (map_err (\<lambda>error_kind. TbTransition error_kind idx (Some access_source))
            (perform_transition state idx nodes (exposed_cache loc) access_kind rel_pos protected)) (\<lambda>(state, c).
     Ok \<lparr>perms = ps[idx := Some state], exposed_cache = c\<rparr>))))"

definition perform_normal_access ::
  "LocationTree \<Rightarrow> UniIndex \<Rightarrow> Nodes \<Rightarrow> AccessKind \<Rightarrow> GlobalStateInner \<Rightarrow> ChildrenVisitMode \<Rightarrow>
     (TbError, UniIndex \<times> LocationTree) outcome" where
  "perform_normal_access loc access_source nodes access_kind global visit_children =
     (case visit_children of
        VisitChildrenOfAccessed \<Rightarrow>
          traverse_this_parents_children_other nodes (normal_skipper nodes access_kind)
            (normal_app nodes access_kind global access_source) access_source loc
      | SkipChildrenOfAccessed \<Rightarrow>
          traverse_nonchildren nodes (normal_skipper nodes access_kind)
            (normal_app nodes access_kind global access_source) access_source loc)"

text \<open>The closures of \<open>perform_wildcard_access\<close>; the flag is the captured \<open>has_valid_exposed\<close>.\<close>

definition get_relatedness ::
  "UniIndex \<Rightarrow> BorTag option \<Rightarrow> AccessKind \<Rightarrow> bool \<Rightarrow> UniIndex \<Rightarrow> Node \<Rightarrow> LocationTree \<Rightarrow>
     ('e, WildcardAccessRelatedness option) outcome" where
  "get_relatedness root max_local_tag access_kind is_wildcard_tree idx node loc =
     (let only_foreign = (case max_local_tag of None \<Rightarrow> False | Some max_local_tag \<Rightarrow> max_local_tag < node_tag node) in
      access_relatedness (exposed_cache loc) root idx access_kind is_wildcard_tree only_foreign)"

definition wildcard_skipper ::
  "UniIndex \<Rightarrow> BorTag option \<Rightarrow> Nodes \<Rightarrow> AccessKind \<Rightarrow> bool \<Rightarrow> (TbError, LocationTree \<times> bool) node_continue" where
  "wildcard_skipper root max_local_tag nodes access_kind is_wildcard_tree = (\<lambda>idx _ (loc, _).
     obind (get_node nodes idx) (\<lambda>node.
     obind (perm_or_default loc idx node) (\<lambda>old_state.
     obind (get_relatedness root max_local_tag access_kind is_wildcard_tree idx node loc) (\<lambda>rel.
     case Option.bind rel to_relatedness of
       Some relatedness \<Rightarrow> skip_if_known_noop old_state access_kind relatedness
     | None \<Rightarrow> Ok Recurse))))"

definition wildcard_app ::
  "UniIndex \<Rightarrow> UniIndex option \<Rightarrow> BorTag option \<Rightarrow> Nodes \<Rightarrow> AccessKind \<Rightarrow> GlobalStateInner \<Rightarrow> bool \<Rightarrow>
     (TbError, LocationTree \<times> bool) node_app" where
  "wildcard_app root access_source max_local_tag nodes access_kind global is_wildcard_tree =
     (\<lambda>idx _ (loc, has_valid_exposed).
     obind (get_node nodes idx) (\<lambda>node.
     let protected = is_protected global (node_tag node) in
     obind (get_relatedness root max_local_tag access_kind is_wildcard_tree idx node loc) (\<lambda>rel.
     case rel of
       None \<Rightarrow> Err NoValidExposedReferences
     | Some wildcard_relatedness \<Rightarrow>
         obind (default_location_state node) (\<lambda>dflt.
         let (ps, perm) = entry_or_insert (perms loc) idx dflt;
             has_valid_exposed =
               (has_valid_exposed \<or>
                (is_exposed node \<and>
                 level_allows (strongest_allowed_local_access (permission perm) protected) access_kind \<and>
                 (case max_local_tag of None \<Rightarrow> True | Some max_local_tag \<Rightarrow> max_local_tag \<ge> node_tag node)))
         in case to_relatedness wildcard_relatedness of
              None \<Rightarrow> Ok (loc\<lparr>perms := ps\<rparr>, has_valid_exposed)
            | Some relatedness \<Rightarrow>
                obind (map_err (\<lambda>trans. TbTransition trans idx access_source)
                   (perform_transition perm idx nodes (exposed_cache loc) access_kind relatedness protected)) (\<lambda>(perm, c).
                Ok (\<lparr>perms = ps[idx := Some perm], exposed_cache = c\<rparr>, has_valid_exposed))))))"

definition perform_wildcard_access ::
  "LocationTree \<Rightarrow> UniIndex \<Rightarrow> UniIndex option \<Rightarrow> BorTag option \<Rightarrow> Nodes \<Rightarrow> AccessKind \<Rightarrow> GlobalStateInner \<Rightarrow> bool \<Rightarrow>
     (TbError, LocationTree) outcome" where
  "perform_wildcard_access loc root access_source max_local_tag nodes access_kind global is_wildcard_tree =
     obind (traverse_children_this nodes
        (wildcard_skipper root max_local_tag nodes access_kind is_wildcard_tree)
        (wildcard_app root access_source max_local_tag nodes access_kind global is_wildcard_tree) root (loc, False))
       (\<lambda>(loc, has_valid_exposed).
     if \<not> has_valid_exposed \<and> \<not> is_wildcard_tree then Err NoValidExposedReferences else Ok loc)"

text \<open>\<open>get_min_exposed_child\<close>: every node is popped at most once, so one step per node is enough.\<close>

fun min_exposed_loop :: "nat \<Rightarrow> Nodes \<Rightarrow> UniIndex list \<Rightarrow> BorTag option \<Rightarrow> ('e, BorTag option) outcome" where
  "min_exposed_loop fuel nodes [] min_tag = Ok min_tag"
| "min_exposed_loop 0 nodes (_ # _) min_tag = Diverge"
| "min_exposed_loop (Suc fuel) nodes (idx # stack) min_tag =
     obind (get_node nodes idx) (\<lambda>node.
     if (case min_tag of None \<Rightarrow> False | Some prev \<Rightarrow> prev < node_tag node)
     then min_exposed_loop fuel nodes stack min_tag
     else
       let stack = rev (node_children node) @ stack;
           min_tag = (if is_exposed node
                      then case min_tag of
                             Some prev \<Rightarrow> if prev < node_tag node then Some prev else Some (node_tag node)
                           | None \<Rightarrow> Some (node_tag node)
                      else min_tag)
       in min_exposed_loop fuel nodes stack min_tag)"

lemma min_exposed_loop_code [code]:
  "min_exposed_loop fuel nodes stack min_tag =
     (case stack of
        [] \<Rightarrow> Ok min_tag
      | idx # stack \<Rightarrow>
          if fuel = 0 then Diverge
          else obind (get_node nodes idx) (\<lambda>node.
            if (case min_tag of None \<Rightarrow> False | Some prev \<Rightarrow> prev < node_tag node)
            then min_exposed_loop (fuel - 1) nodes stack min_tag
            else
              let stack = rev (node_children node) @ stack;
                  min_tag = (if is_exposed node
                             then case min_tag of
                                    Some prev \<Rightarrow> if prev < node_tag node then Some prev else Some (node_tag node)
                                  | None \<Rightarrow> Some (node_tag node)
                             else min_tag)
              in min_exposed_loop (fuel - 1) nodes stack min_tag))"
  by (cases fuel; cases stack) (simp_all add: Let_def cong: if_cong)

definition get_min_exposed_child :: "UniIndex \<Rightarrow> Nodes \<Rightarrow> ('e, BorTag option) outcome" where
  "get_min_exposed_child root nodes = min_exposed_loop (length nodes) nodes [root] None"

text \<open>The loop over the roots, with its \<open>break\<close> and \<open>continue\<close>.\<close>

fun access_other_trees ::
  "nat \<Rightarrow> UniIndex list \<Rightarrow> Nodes \<Rightarrow> UniIndex option \<Rightarrow> UniIndex option \<Rightarrow> BorTag option \<Rightarrow> AccessKind \<Rightarrow>
     GlobalStateInner \<Rightarrow> ChildrenVisitMode \<Rightarrow> BorTag option \<Rightarrow> LocationTree \<Rightarrow> (TbError, LocationTree) outcome" where
  "access_other_trees i [] nodes access_source accessed_root accessed_root_tag access_kind global visit_children min_exposed_child loc = Ok loc"
| "access_other_trees i (root # roots) nodes access_source accessed_root accessed_root_tag access_kind global visit_children min_exposed_child loc =
     obind (get_node nodes root) (\<lambda>node.
     if visit_children = SkipChildrenOfAccessed \<and>
        (case min_exposed_child of None \<Rightarrow> False | Some min_exposed_child \<Rightarrow> node_tag node > min_exposed_child)
     then Ok loc
     else if Some root = accessed_root
     then access_other_trees (i + 1) roots nodes access_source accessed_root accessed_root_tag access_kind global
            visit_children min_exposed_child loc
     else obind (perform_wildcard_access loc root access_source accessed_root_tag nodes access_kind global (i \<noteq> 0)) (\<lambda>loc.
          access_other_trees (i + 1) roots nodes access_source accessed_root accessed_root_tag access_kind global
            visit_children min_exposed_child loc))"

definition LocationTree_perform_access ::
  "LocationTree \<Rightarrow> UniIndex list \<Rightarrow> Nodes \<Rightarrow> UniIndex option \<Rightarrow> AccessKind \<Rightarrow> GlobalStateInner \<Rightarrow>
     ChildrenVisitMode \<Rightarrow> BorTag option \<Rightarrow> (TbError, LocationTree) outcome" where
  "LocationTree_perform_access loc roots nodes access_source access_kind global visit_children min_exposed_child =
     obind (case access_source of
              Some idx \<Rightarrow>
                obind (perform_normal_access loc idx nodes access_kind global visit_children) (\<lambda>(root, loc).
                Ok (Some root, loc))
            | None \<Rightarrow> obind (check (visit_children = VisitChildrenOfAccessed)) (\<lambda>_. Ok (None, loc)))
       (\<lambda>(accessed_root, loc).
     obind (case accessed_root of
              None \<Rightarrow> Ok None
            | Some idx \<Rightarrow> obind (get_node nodes idx) (\<lambda>node. Ok (Some (node_tag node))))
       (\<lambda>accessed_root_tag.
     access_other_trees 0 roots nodes access_source accessed_root accessed_root_tag access_kind global
       visit_children min_exposed_child loc))"

section \<open>The tree of an allocation\<close>

record Tree =
  tag_mapping :: "BorTag UniKeyMap"
  nodes :: Nodes
  locations :: "LocationTree DedupRangeMap"
  roots :: "UniIndex list"

definition Tree_new :: "BorTag \<Rightarrow> nat \<Rightarrow> ('e, Tree) outcome" where
  "Tree_new root_tag sz =
     obind (UniKeyMap_insert UniKeyMap_default root_tag) (\<lambda>(mapping, root_idx).
     let nodes = UniValMap_insert UniValMap_default root_idx
           \<lparr>node_tag = root_tag, node_parent = None, node_children = [], default_initial_perm = Disabled,
            default_initial_idempotent_foreign_access = SifaNone, is_exposed = False\<rparr>;
         ps = UniValMap_insert UniValMap_default root_idx (new_accessed Unique SifaNone)
     in Ok \<lparr>tag_mapping = mapping, nodes = nodes,
            locations = DedupRangeMap_new sz \<lparr>perms = ps, exposed_cache = UniValMap_default\<rparr>,
            roots = [root_idx]\<rparr>)"

text \<open>\<open>update_idempotent_foreign_access_after_retag\<close>: the change to one node, then the walk upwards.\<close>

definition weaken_location ::
  "UniIndex \<Rightarrow> IdempotentForeignAccess \<Rightarrow> nat \<times> nat \<Rightarrow> LocationTree \<Rightarrow> bool \<Rightarrow> ('e, LocationTree \<times> bool) outcome" where
  "weaken_location current strongest_allowed = (\<lambda>_ loc any_change.
     case UniValMap_get (perms loc) current of
       None \<Rightarrow> Ok (loc, any_change)
     | Some perm \<Rightarrow>
         let (sifa, change) = ensure_no_stronger_than (idempotent_foreign_access perm) strongest_allowed in
         Ok (loc\<lparr>perms := UniValMap_get_mut (\<lambda>p. p\<lparr>idempotent_foreign_access := sifa\<rparr>) (perms loc) current\<rparr>,
             any_change \<or> change))"

fun weaken_loop :: "nat \<Rightarrow> UniIndex \<Rightarrow> IdempotentForeignAccess \<Rightarrow> Tree \<Rightarrow> ('e, Tree) outcome" where
  "weaken_loop 0 current strongest_allowed tree = Diverge"
| "weaken_loop (Suc fuel) current strongest_allowed tree =
     obind (get_node (nodes tree) current) (\<lambda>current_node.
     obind (DedupRangeMap_iter_mut_all (weaken_location current strongest_allowed) (locations tree) False)
       (\<lambda>(locs, any_change).
     let (sifa, change) = ensure_no_stronger_than (default_initial_idempotent_foreign_access current_node) strongest_allowed;
         tree = tree\<lparr>locations := locs,
           nodes := UniValMap_get_mut (\<lambda>n. n\<lparr>default_initial_idempotent_foreign_access := sifa\<rparr>) (nodes tree) current\<rparr>
     in if any_change \<or> change
        then case node_parent current_node of
               None \<Rightarrow> Ok tree
             | Some next \<Rightarrow> weaken_loop fuel next strongest_allowed tree
        else Ok tree))"

definition update_idempotent_foreign_access_after_retag ::
  "Tree \<Rightarrow> UniIndex \<Rightarrow> IdempotentForeignAccess \<Rightarrow> ('e, Tree) outcome" where
  "update_idempotent_foreign_access_after_retag tree current strongest_allowed =
     (if strongest_allowed = SifaWrite then Ok tree
      else weaken_loop (length (nodes tree)) current strongest_allowed tree)"

text \<open>The loop of \<open>new_child\<close> over the initial permissions inside the range.\<close>

definition insert_inside_perm ::
  "nat \<Rightarrow> UniIndex \<Rightarrow> bool \<Rightarrow> (nat \<times> nat) \<times> LocationState \<Rightarrow>
     IdempotentForeignAccess \<times> LocationTree DedupRangeMap \<Rightarrow>
     ('e, IdempotentForeignAccess \<times> LocationTree DedupRangeMap) outcome" where
  "insert_inside_perm base_offset idx protected = (\<lambda>((start, stop), perm) (min_sifa, locs).
     obind (check (is_initial (permission perm))) (\<lambda>_.
     obind (strongest_idempotent_foreign_access (permission perm) protected) (\<lambda>sifa.
     obind (check (idempotent_foreign_access perm = sifa)) (\<lambda>_.
     let min_sifa = min min_sifa (idempotent_foreign_access perm) in
     obind (add_u64 start base_offset) (\<lambda>offset.
     obind (DedupRangeMap_for_each LocationTree_eq
              (\<lambda>_ loc u. Ok (loc\<lparr>perms := UniValMap_insert (perms loc) idx perm\<rparr>, u)) locs offset (stop - start) ())
       (\<lambda>(locs, _). Ok (min_sifa, locs)))))))"

definition Tree_new_child ::
  "Tree \<Rightarrow> nat \<Rightarrow> ProvenanceExtra \<Rightarrow> BorTag \<Rightarrow> LocationState DedupRangeMap \<Rightarrow> Permission \<Rightarrow> bool \<Rightarrow> ('e, Tree) outcome" where
  "Tree_new_child tree base_offset parent_prov new_tag inside_perms outside_perm protected =
     obind (UniKeyMap_insert (tag_mapping tree) new_tag) (\<lambda>(mapping, idx).
     obind (case parent_prov of
              Concrete parent_tag \<Rightarrow> obind (unwrap (UniKeyMap_get mapping parent_tag)) (\<lambda>p. Ok (Some p))
            | Wildcard \<Rightarrow> Ok None) (\<lambda>parent_idx.
     obind (check (is_initial outside_perm)) (\<lambda>_.
     obind (check (\<not> is_unique outside_perm)) (\<lambda>_.
     obind (strongest_idempotent_foreign_access outside_perm protected) (\<lambda>default_strongest_idempotent.
     let ns = UniValMap_insert (nodes tree) idx
           \<lparr>node_tag = new_tag, node_parent = parent_idx, node_children = [], default_initial_perm = outside_perm,
            default_initial_idempotent_foreign_access = default_strongest_idempotent, is_exposed = False\<rparr>
     in
     obind (case parent_idx of
              Some parent \<Rightarrow>
                obind (get_node ns parent) (\<lambda>_.
                Ok (UniValMap_get_mut (\<lambda>n. n\<lparr>node_children := node_children n @ [idx]\<rparr>) ns parent, roots tree))
            | None \<Rightarrow> Ok (ns, roots tree @ [idx])) (\<lambda>(ns, rs).
     obind (DedupRangeMap_iter inside_perms 0 (DedupRangeMap_size inside_perms)) (\<lambda>inside.
     obind (ofold (insert_inside_perm base_offset idx protected) inside (default_strongest_idempotent, locations tree))
       (\<lambda>(min_sifa, locs).
     let tree = \<lparr>tag_mapping = mapping, nodes = ns, locations = locs, roots = rs\<rparr> in
     case parent_idx of
       Some parent \<Rightarrow> update_idempotent_foreign_access_after_retag tree parent min_sifa
     | None \<Rightarrow> Ok tree))))))))"

definition source_index :: "Tree \<Rightarrow> ProvenanceExtra \<Rightarrow> ('e, UniIndex option) outcome" where
  "source_index tree prov =
     (case prov of
        Concrete tag \<Rightarrow> obind (unwrap (UniKeyMap_get (tag_mapping tree) tag)) (\<lambda>idx. Ok (Some idx))
      | Wildcard \<Rightarrow> Ok None)"

definition Tree_perform_access ::
  "Tree \<Rightarrow> ProvenanceExtra \<Rightarrow> nat \<Rightarrow> nat \<Rightarrow> AccessKind \<Rightarrow> GlobalStateInner \<Rightarrow> (TbError, Tree) outcome" where
  "Tree_perform_access tree prov start sz access_kind global =
     obind (source_index tree prov) (\<lambda>source_idx.
     obind (DedupRangeMap_for_each LocationTree_eq
        (\<lambda>_ loc u.
           obind (LocationTree_perform_access loc (roots tree) (nodes tree) source_idx access_kind global
                    VisitChildrenOfAccessed None) (\<lambda>loc. Ok (loc, u)))
        (locations tree) start sz ()) (\<lambda>(locs, _).
     Ok (tree\<lparr>locations := locs\<rparr>)))"

text \<open>The check for strong protectors on deallocation, for one tree of the allocation.\<close>

definition check_tree ::
  "Tree \<Rightarrow> GlobalStateInner \<Rightarrow> UniIndex option \<Rightarrow> LocationTree \<Rightarrow> UniIndex \<Rightarrow> (TbError, UniIndex) outcome" where
  "check_tree tree global start_idx loc idx =
     obind (traverse_this_parents_children_other (nodes tree) (\<lambda>_ _ _. Ok Recurse)
        (\<lambda>idx _ loc.
           obind (get_node (nodes tree) idx) (\<lambda>node.
           obind (perm_or_default loc idx node) (\<lambda>perm.
           if protected_tags global (node_tag node) = Some StrongProtector \<and>
              \<not> is_cell (permission perm) \<and> accessed perm
           then Err (TbTransition ProtectedDealloc idx start_idx)
           else Ok loc)))
        idx loc) (\<lambda>(root, _). Ok root)"

definition Tree_dealloc ::
  "Tree \<Rightarrow> ProvenanceExtra \<Rightarrow> nat \<Rightarrow> nat \<Rightarrow> GlobalStateInner \<Rightarrow> (TbError, Tree) outcome" where
  "Tree_dealloc tree prov start sz global =
     obind (Tree_perform_access tree prov start sz Write global) (\<lambda>tree.
     obind (source_index tree prov) (\<lambda>start_idx.
     obind (DedupRangeMap_for_each LocationTree_eq
        (\<lambda>_ loc u.
           obind (case start_idx of
                    None \<Rightarrow> Ok None
                  | Some idx \<Rightarrow> obind (check_tree tree global start_idx loc idx) (\<lambda>r. Ok (Some r))) (\<lambda>accessed_root.
           obind (ofold (\<lambda>root _.
                    if Some root = accessed_root then Ok ()
                    else obind (check_tree tree global start_idx loc root) (\<lambda>_. Ok ())) (rev (roots tree)) ()) (\<lambda>_.
           Ok (loc, u))))
        (locations tree) start sz ()) (\<lambda>(locs, _).
     Ok (tree\<lparr>locations := locs\<rparr>))))"

definition perform_protector_end_access :: "Tree \<Rightarrow> BorTag \<Rightarrow> GlobalStateInner \<Rightarrow> (TbError, Tree) outcome" where
  "perform_protector_end_access tree tag global =
     obind (unwrap (UniKeyMap_get (tag_mapping tree) tag)) (\<lambda>source_idx.
     obind (if length (roots tree) > 1 then get_min_exposed_child source_idx (nodes tree) else Ok None) (\<lambda>min_exposed_child.
     obind (DedupRangeMap_iter_mut_all
        (\<lambda>_ loc u.
           case UniValMap_get (perms loc) source_idx of
             Some p \<Rightarrow>
               (case associated_access (permission p) of
                  Some access_kind \<Rightarrow>
                    if accessed p
                    then obind (LocationTree_perform_access loc (roots tree) (nodes tree) (Some source_idx) access_kind
                           global SkipChildrenOfAccessed min_exposed_child) (\<lambda>loc. Ok (loc, u))
                    else Ok (loc, u)
                | None \<Rightarrow> Ok (loc, u))
           | None \<Rightarrow> Ok (loc, u))
        (locations tree) ()) (\<lambda>(locs, _).
     Ok (tree\<lparr>locations := locs\<rparr>))))"

section \<open>Garbage collection of tags\<close>

definition is_useless :: "Tree \<Rightarrow> UniIndex \<Rightarrow> (BorTag \<Rightarrow> bool) \<Rightarrow> ('e, bool) outcome" where
  "is_useless tree idx live =
     obind (get_node (nodes tree) idx) (\<lambda>node. Ok (node_children node = [] \<and> \<not> live (node_tag node)))"

definition can_be_replaced_by_single_child ::
  "Tree \<Rightarrow> UniIndex \<Rightarrow> (BorTag \<Rightarrow> bool) \<Rightarrow> ('e, UniIndex option) outcome" where
  "can_be_replaced_by_single_child tree idx live =
     obind (get_node (nodes tree) idx) (\<lambda>node.
     case node_children node of
       [child_idx] \<Rightarrow>
         if live (node_tag node) \<or> node_parent node = None then Ok None
         else obind (get_node (nodes tree) child_idx) (\<lambda>child.
           if list_all (\<lambda>(_, loc).
                let parent_perm = (case UniValMap_get (perms loc) idx of Some x \<Rightarrow> permission x | None \<Rightarrow> default_initial_perm node);
                    child_perm = (case UniValMap_get (perms loc) child_idx of Some x \<Rightarrow> permission x | None \<Rightarrow> default_initial_perm child)
                in can_be_replaced_by_child parent_perm child_perm) (DedupRangeMap_iter_all (locations tree))
           then Ok (Some child_idx) else Ok None)
     | _ \<Rightarrow> Ok None)"

definition remove_useless_node :: "Tree \<Rightarrow> UniIndex \<Rightarrow> ('e, Tree) outcome" where
  "remove_useless_node tree this =
     (let (ns, removed) = UniValMap_remove (nodes tree) this in
      obind (unwrap removed) (\<lambda>node.
      obind (DedupRangeMap_iter_mut_all
        (\<lambda>_ loc u. Ok (\<lparr>perms = fst (UniValMap_remove (perms loc) this),
                         exposed_cache = ExposedCache_remove (exposed_cache loc) this\<rparr>, u)) (locations tree) ())
        (\<lambda>(locs, _).
      Ok (tree\<lparr>nodes := ns, locations := locs, tag_mapping := UniKeyMap_remove (tag_mapping tree) (node_tag node)\<rparr>))))"

text \<open>One step of \<open>retain_mut\<close> over the children of \<open>tag\<close>: the tree and the children kept so far.\<close>

definition retain_child ::
  "UniIndex \<Rightarrow> (BorTag \<Rightarrow> bool) \<Rightarrow> UniIndex \<Rightarrow> Tree \<times> UniIndex list \<Rightarrow> ('e, Tree \<times> UniIndex list) outcome" where
  "retain_child tag live idx = (\<lambda>(tree, kept).
     obind (is_useless tree idx live) (\<lambda>useless.
     if useless
     then obind (remove_useless_node tree idx) (\<lambda>tree. Ok (tree, kept))
     else obind (can_be_replaced_by_single_child tree idx live) (\<lambda>next.
       case next of
         Some nextchild \<Rightarrow>
           obind (remove_useless_node tree idx) (\<lambda>tree.
           obind (get_node (nodes tree) nextchild) (\<lambda>_.
           Ok (tree\<lparr>nodes := UniValMap_get_mut (\<lambda>n. n\<lparr>node_parent := Some tag\<rparr>) (nodes tree) nextchild\<rparr>,
               kept @ [nextchild])))
       | None \<Rightarrow> Ok (tree, kept @ [idx]))))"

text \<open>The stack holds a node and the number of its next child. Every node is pushed once and popped
  once, so twice the size of the node map is enough fuel.\<close>

fun remove_useless_loop ::
  "nat \<Rightarrow> (BorTag \<Rightarrow> bool) \<Rightarrow> (UniIndex \<times> nat) list \<Rightarrow> Tree \<Rightarrow> ('e, Tree) outcome" where
  "remove_useless_loop fuel live [] tree = Ok tree"
| "remove_useless_loop 0 live (_ # _) tree = Diverge"
| "remove_useless_loop (Suc fuel) live ((tag, nth_child) # stack) tree =
     obind (get_node (nodes tree) tag) (\<lambda>node.
     if nth_child < length (node_children node)
     then remove_useless_loop fuel live ((node_children node ! nth_child, 0) # (tag, nth_child + 1) # stack) tree
     else
       let tree = tree\<lparr>nodes := UniValMap_get_mut (\<lambda>n. n\<lparr>node_children := []\<rparr>) (nodes tree) tag\<rparr> in
       obind (ofold (retain_child tag live) (node_children node) (tree, [])) (\<lambda>(tree, kept).
       obind (get_node (nodes tree) tag) (\<lambda>_.
       remove_useless_loop fuel live stack
         (tree\<lparr>nodes := UniValMap_get_mut (\<lambda>n. n\<lparr>node_children := kept\<rparr>) (nodes tree) tag\<rparr>))))"

lemma remove_useless_loop_code [code]:
  "remove_useless_loop fuel live stack tree =
     (case stack of
        [] \<Rightarrow> Ok tree
      | (tag, nth_child) # stack \<Rightarrow>
          if fuel = 0 then Diverge
          else obind (get_node (nodes tree) tag) (\<lambda>node.
            if nth_child < length (node_children node)
            then remove_useless_loop (fuel - 1) live ((node_children node ! nth_child, 0) # (tag, nth_child + 1) # stack) tree
            else
              let tree = tree\<lparr>nodes := UniValMap_get_mut (\<lambda>n. n\<lparr>node_children := []\<rparr>) (nodes tree) tag\<rparr> in
              obind (ofold (retain_child tag live) (node_children node) (tree, [])) (\<lambda>(tree, kept).
              obind (get_node (nodes tree) tag) (\<lambda>_.
              remove_useless_loop (fuel - 1) live stack
                (tree\<lparr>nodes := UniValMap_get_mut (\<lambda>n. n\<lparr>node_children := kept\<rparr>) (nodes tree) tag\<rparr>)))))"
  by (cases fuel; cases stack) (auto simp: Let_def cong: if_cong)

definition remove_useless_children :: "Tree \<Rightarrow> UniIndex \<Rightarrow> (BorTag \<Rightarrow> bool) \<Rightarrow> ('e, Tree) outcome" where
  "remove_useless_children tree root live = remove_useless_loop (2 * length (nodes tree)) live [(root, 0)] tree"

definition Tree_remove_unreachable_tags :: "Tree \<Rightarrow> (BorTag \<Rightarrow> bool) \<Rightarrow> ('e, Tree) outcome" where
  "Tree_remove_unreachable_tags tree live_tags =
     obind (ofold (\<lambda>i tree. obind (vec_get (roots tree) i) (\<lambda>root. remove_useless_children tree root live_tags))
              [0..<length (roots tree)] tree) (\<lambda>tree.
     obind (DedupRangeMap_merge_adjacent_thorough LocationTree_eq (locations tree)) (\<lambda>locs.
     Ok (tree\<lparr>locations := locs\<rparr>)))"

text \<open>The tags that \<open>visit_provenance\<close> keeps alive: the roots and the exposed tags.\<close>

definition Tree_visit_provenance :: "Tree \<Rightarrow> ('e, BorTag list) outcome" where
  "Tree_visit_provenance tree =
     obind (ofold (\<lambda>idx acc. obind (get_node (nodes tree) idx) (\<lambda>node. Ok (acc @ [node_tag node]))) (roots tree) [])
       (\<lambda>root_tags. Ok (root_tags @ map (\<lambda>(_, node). node_tag node)
          (filter (\<lambda>(_, node). is_exposed node) (UniValMap_iter (nodes tree)))))"

section \<open>Exposing tags and releasing protectors\<close>

definition expose_location ::
  "Nodes \<Rightarrow> UniIndex \<Rightarrow> (Permission \<Rightarrow> WildcardAccessLevel) \<Rightarrow> (Permission \<Rightarrow> WildcardAccessLevel) \<Rightarrow>
     nat \<times> nat \<Rightarrow> LocationTree \<Rightarrow> unit \<Rightarrow> ('e, LocationTree \<times> unit) outcome" where
  "expose_location ns idx old_level new_level = (\<lambda>_ loc u.
     obind (get_node ns idx) (\<lambda>node.
     obind (perm_or_default loc idx node) (\<lambda>s.
     obind (update_exposure (exposed_cache loc) ns idx (old_level (permission s)) (new_level (permission s))) (\<lambda>c.
     Ok (loc\<lparr>exposed_cache := c\<rparr>, u)))))"

definition Tree_expose_tag :: "Tree \<Rightarrow> BorTag \<Rightarrow> bool \<Rightarrow> ('e, Tree) outcome" where
  "Tree_expose_tag tree tag protected =
     obind (unwrap (UniKeyMap_get (tag_mapping tree) tag)) (\<lambda>idx.
     obind (get_node (nodes tree) idx) (\<lambda>node.
     if \<not> is_exposed node
     then
       let ns = UniValMap_get_mut (\<lambda>n. n\<lparr>is_exposed := True\<rparr>) (nodes tree) idx in
       obind (DedupRangeMap_iter_mut_all
          (expose_location ns idx (\<lambda>_. LevelNone) (\<lambda>p. strongest_allowed_local_access p protected)) (locations tree) ())
         (\<lambda>(locs, _). Ok (tree\<lparr>nodes := ns, locations := locs\<rparr>))
     else Ok tree))"

definition update_exposure_for_protector_release :: "Tree \<Rightarrow> BorTag \<Rightarrow> ('e, Tree) outcome" where
  "update_exposure_for_protector_release tree tag =
     obind (unwrap (UniKeyMap_get (tag_mapping tree) tag)) (\<lambda>idx.
     obind (get_node (nodes tree) idx) (\<lambda>node.
     if is_exposed node
     then
       obind (DedupRangeMap_iter_mut_all
          (expose_location (nodes tree) idx (\<lambda>p. strongest_allowed_local_access p True)
             (\<lambda>p. strongest_allowed_local_access p False)) (locations tree) ())
         (\<lambda>(locs, _). Ok (tree\<lparr>locations := locs\<rparr>))
     else Ok tree))"

definition release_protector :: "Tree \<Rightarrow> GlobalStateInner \<Rightarrow> BorTag \<Rightarrow> (TbError, Tree) outcome" where
  "release_protector tree global tag =
     obind (perform_protector_end_access tree tag global) (\<lambda>tree.
     update_exposure_for_protector_release tree tag)"

text \<open>\<open>verify_wildcard_consistency\<close> at one location and one node: the expected counts.\<close>

definition exposed_as :: "GlobalStateInner \<Rightarrow> LocationTree \<Rightarrow> UniIndex \<Rightarrow> Node \<Rightarrow> ('e, WildcardAccessLevel) outcome" where
  "exposed_as global loc idx node =
     (if is_exposed node
      then obind (perm_or_default loc idx node) (\<lambda>perm.
        Ok (strongest_allowed_local_access (permission perm) (is_protected global (node_tag node))))
      else Ok LevelNone)"

definition verify_node :: "GlobalStateInner \<Rightarrow> LocationTree \<Rightarrow> UniIndex \<times> Node \<Rightarrow> ('e, unit) outcome" where
  "verify_node global loc = (\<lambda>(idx, node).
     let state = cache_get (exposed_cache loc) idx in
     obind (exposed_as global loc idx node) (\<lambda>level.
     obind (ofold (\<lambda>child (reads, writes).
          let wc = cache_get (exposed_cache loc) child in
          obind (add_u16 reads (local_reads wc)) (\<lambda>r. obind (add_u16 writes (local_writes wc)) (\<lambda>w. Ok (r, w))))
        (node_children node) (0, 0)) (\<lambda>(child_reads, child_writes).
     obind (add_u16 child_reads (if level \<ge> LevelRead then 1 else 0)) (\<lambda>expected_reads.
     obind (add_u16 child_writes (if level \<ge> LevelWrite then 1 else 0)) (\<lambda>expected_writes.
     obind (check (local_reads state = expected_reads)) (\<lambda>_.
     check (local_writes state = expected_writes)))))))"

definition verify_wildcard_consistency :: "Tree \<Rightarrow> GlobalStateInner \<Rightarrow> ('e, unit) outcome" where
  "verify_wildcard_consistency tree global =
     obind (ofold (\<lambda>idx acc. obind (get_node (nodes tree) idx) (\<lambda>node. Ok (acc @ [node_tag node]))) (roots tree) []) (\<lambda>tags.
     obind (check (sorted_wrt (\<le>) tags)) (\<lambda>_.
     ofold (\<lambda>(_, loc) _. ofold (\<lambda>n _. verify_node global loc n) (UniValMap_iter (nodes tree)) ())
       (DedupRangeMap_iter_all (locations tree)) ()))"

section \<open>Accesses at one location\<close>

text \<open>What a normal access does to the state of one node, and when it leaves a subtree out. A node without
  a state has its default state.\<close>

definition state_of :: "Node \<Rightarrow> LocationState option \<Rightarrow> LocationState" where
  "state_of n so = (case so of Some s \<Rightarrow> s
     | None \<Rightarrow> \<lparr>accessed = False, permission = default_initial_perm n,
                idempotent_foreign_access = default_initial_idempotent_foreign_access n\<rparr>)"

definition normal_step ::
  "Nodes \<Rightarrow> AccessKind \<Rightarrow> GlobalStateInner \<Rightarrow> UniIndex \<Rightarrow> AccessRelatedness \<Rightarrow> LocationState option \<Rightarrow> LocationState option \<Rightarrow> bool"
where
  "normal_step ns k g i rel so so' \<longleftrightarrow> (\<exists>n s' t. UniValMap_get ns i = Some n \<and> so' = Some s' \<and>
     location_transition (state_of n so) k rel (is_protected g (node_tag n)) = Ok (s', t))"

definition normal_skips :: "Nodes \<Rightarrow> AccessKind \<Rightarrow> UniIndex \<Rightarrow> AccessRelatedness \<Rightarrow> LocationState option \<Rightarrow> bool" where
  "normal_skips ns k i rel so \<longleftrightarrow> (\<exists>n. UniValMap_get ns i = Some n \<and>
     skip_if_known_noop (state_of n so) k rel = (Ok SkipSelfAndChildren :: (TbError, _) outcome))"

lemma default_location_state_Ok:
  "default_location_state n = Ok s \<Longrightarrow> s = state_of n None"
  by (auto simp: default_location_state_def new_non_accessed_def state_of_def outcome_eqs split: if_splits)

lemma perm_or_default_Ok: "perm_or_default loc i n = Ok s \<Longrightarrow> s = state_of n (UniValMap_get (perms loc) i)"
  by (auto simp: perm_or_default_def state_of_def dest: default_location_state_Ok split: option.splits)

lemma perform_transition_location:
  assumes "perform_transition s i ns c k rel prot = Ok (s', c')"
  shows "\<exists>t. location_transition s k rel prot = Ok (s', t)"
proof -
  from assms obtain s1 s2 t where "record_new_access s k rel = (Ok s1 :: (TransitionError, _) outcome)"
    "LocationState_perform_access s1 k rel prot = Ok (s2, t)"
    "s2 = s'"
    by (auto simp: perform_transition_def obind_eq_Ok Let_def split: if_splits)
  then show ?thesis by (auto simp: location_transition_def)
qed

lemma entry_update:
  assumes "entry_or_insert d i x = (d', v)"
  shows "UniValMap_get (d'[i := w]) j = (if j = i then w else UniValMap_get d j)"
    "v = (case UniValMap_get d i of None \<Rightarrow> x | Some v \<Rightarrow> v)"
proof -
  have "i < length d'" using assms by (auto simp: entry_or_insert_def Let_def split: option.splits)
  with get_or_insert(2) [of d i x j] assms show "UniValMap_get (d'[i := w]) j = (if j = i then w else UniValMap_get d j)"
    by (auto simp: get_update)
  from get_or_insert(1) [of d i x] assms show "v = (case UniValMap_get d i of None \<Rightarrow> x | Some v \<Rightarrow> v)" by simp
qed

lemma normal_app_Ok:
  assumes "normal_app ns k g src i rel loc = Ok loc'"
  obtains n s' t where "UniValMap_get ns i = Some n"
    "location_transition (state_of n (UniValMap_get (perms loc) i)) k rel (is_protected g (node_tag n)) = Ok (s', t)"
    "\<And>j. UniValMap_get (perms loc') j = (if j = i then Some s' else UniValMap_get (perms loc) j)"
proof -
  from assms obtain n where n: "UniValMap_get ns i = Some n" by (auto simp: normal_app_def get_node_def obind_eq_Ok)
  with assms obtain dflt where dflt: "default_location_state n = (Ok dflt :: (TbError, _) outcome)"
    by (auto simp: normal_app_def get_node_def obind_eq_Ok)
  obtain ps st where e: "entry_or_insert (perms loc) i dflt = (ps, st)" by fastforce
  from assms n dflt e obtain s' c where
    tr: "perform_transition st i ns (exposed_cache loc) k rel (is_protected g (node_tag n)) = Ok (s', c)"
    and loc': "loc' = \<lparr>perms = ps[i := Some s'], exposed_cache = c\<rparr>"
    by (auto simp: normal_app_def get_node_def obind_eq_Ok)
  have "st = state_of n (UniValMap_get (perms loc) i)"
    using entry_update(2) [OF e] default_location_state_Ok [OF dflt] by (auto simp: state_of_def split: option.splits)
  with perform_transition_location [OF tr] obtain t where
    "location_transition (state_of n (UniValMap_get (perms loc) i)) k rel (is_protected g (node_tag n)) = Ok (s', t)" by blast
  moreover have "UniValMap_get (perms loc') j = (if j = i then Some s' else UniValMap_get (perms loc) j)" for j
    using entry_update(1) [OF e] by (simp add: loc')
  ultimately show thesis using n that by blast
qed

interpretation normal: local_visitor "normal_skipper ns k" "normal_app ns k g src" "\<lambda>loc. UniValMap_get (perms loc)"
  "normal_step ns k g" "normal_skips ns k" for ns k g src
proof
  fix i j rel and loc loc' :: LocationTree
  show "UniValMap_get (perms loc') i = UniValMap_get (perms loc) i" if "normal_app ns k g src j rel loc = Ok loc'" "i \<noteq> j"
    using that(1) by (rule normal_app_Ok) (use that(2) in simp)
  show "normal_step ns k g i rel (UniValMap_get (perms loc) i) (UniValMap_get (perms loc') i)"
    if "normal_app ns k g src i rel loc = Ok loc'"
    using that by (rule normal_app_Ok) (auto simp: normal_step_def)
  show "normal_skips ns k i rel (UniValMap_get (perms loc) i)"
    if "normal_skipper ns k i rel loc = Ok SkipSelfAndChildren"
    using that by (auto simp: normal_skipper_def normal_skips_def get_node_def obind_eq_Ok dest: perm_or_default_Ok)
qed

text \<open>A wildcard access, too, changes only the states of the nodes that it visits.\<close>

lemma wildcard_app_frame:
  assumes "wildcard_app root src mx ns k g w j rel (loc, b) = Ok (loc', b')" "i \<noteq> j"
  shows "UniValMap_get (perms loc') i = UniValMap_get (perms loc) i"
proof -
  from assms(1) obtain n where n: "UniValMap_get ns j = Some n" by (auto simp: wildcard_app_def get_node_def obind_eq_Ok)
  with assms(1) obtain rel' where r: "get_relatedness root mx k w j n loc = (Ok (Some rel') :: (TbError, _) outcome)"
    by (auto simp: wildcard_app_def get_node_def obind_eq_Ok Let_def split: option.splits)
  with assms(1) n obtain dflt where dflt: "default_location_state n = (Ok dflt :: (TbError, _) outcome)"
    by (auto simp: wildcard_app_def get_node_def obind_eq_Ok Let_def)
  obtain ps st where e: "entry_or_insert (perms loc) j dflt = (ps, st)" by fastforce
  have "\<exists>w. perms loc' = ps[j := w] \<or> perms loc' = ps"
    using assms(1) n r dflt e by (auto simp: wildcard_app_def get_node_def obind_eq_Ok Let_def split: option.splits)
  then show ?thesis
    using entry_update(1) [OF e, of _ i] get_or_insert(2) [of "perms loc" j dflt i] e assms(2) by auto
qed

interpretation wildcard: local_visitor "wildcard_skipper root mx ns k w" "wildcard_app root src mx ns k g w"
  "\<lambda>(loc, _). UniValMap_get (perms loc)" "\<lambda>_ _ _ _. True" "\<lambda>_ _ _. True" for root mx ns k w src g
  by unfold_locales (auto dest: wildcard_app_frame)

lemma perform_normal_access_run:
  assumes "represents_root ns (plug t ctx)"
  shows "perform_normal_access loc (rt_idx t) ns k g mode =
    obind (visit_all (normal_skipper ns k) (normal_app ns k g (rt_idx t)) mode t ctx loc) (\<lambda>loc. Ok (rt_idx (plug t ctx), loc))"
  using traverse_runs [OF assms, of "normal_skipper ns k" "normal_app ns k g (rt_idx t)" loc]
  by (cases mode) (simp_all add: perform_normal_access_def)

lemma perform_wildcard_access_frame:
  assumes "represents_root ns T" "perform_wildcard_access loc (rt_idx T) src mx ns k g w = Ok loc'" "i \<notin> set (rt_nodes T)"
  shows "UniValMap_get (perms loc') i = UniValMap_get (perms loc) i"
proof -
  let ?fc = "wildcard_skipper (rt_idx T) mx ns k w" and ?fp = "wildcard_app (rt_idx T) src mx ns k g w"
  have "traverse_children_this ns ?fc ?fp (rt_idx T) (loc, False) = visit ?fc ?fp ForeignAccess T (loc, False)"
    using traverse_runs [of ns T "[]" ?fc ?fp "(loc, False)"] assms(1) by simp
  with assms(2) obtain b where "visit ?fc ?fp ForeignAccess T (loc, False) = Ok (loc', b)"
    by (auto simp: perform_wildcard_access_def obind_eq_Ok split: if_splits)
  from wildcard.visit_frame [OF this assms(3)] show ?thesis by simp
qed

text \<open>The trees of an allocation: the main tree and the wildcard trees.\<close>

definition forest_ok :: "Nodes \<Rightarrow> UniIndex list \<Rightarrow> rtree list \<Rightarrow> bool" where
  "forest_ok ns rs Ts \<longleftrightarrow> rs = map rt_idx Ts \<and> (\<forall>T\<in>set Ts. represents_root ns T) \<and> distinct (concat (map rt_nodes Ts))"

lemma access_other_trees_frame:
  "access_other_trees j rs ns src ar art k g mode mec loc = Ok loc' \<Longrightarrow>
     (\<And>r. r \<in> set rs \<Longrightarrow> Some r \<noteq> ar \<Longrightarrow> \<exists>T. represents_root ns T \<and> rt_idx T = r \<and> i \<notin> set (rt_nodes T)) \<Longrightarrow>
     UniValMap_get (perms loc') i = UniValMap_get (perms loc) i"
proof (induction rs arbitrary: j loc)
  case (Cons r rs)
  note IH = Cons.IH [OF _ Cons.prems(2)]
  from Cons.prems(1) obtain n where n: "get_node ns r = (Ok n :: (TbError, _) outcome)" by (auto simp: obind_eq_Ok)
  show ?case
  proof (cases "mode = SkipChildrenOfAccessed \<and> (case mec of None \<Rightarrow> False | Some m \<Rightarrow> node_tag n > m)")
    case True
    with Cons.prems(1) n show ?thesis by simp
  next
    case go: False
    show ?thesis
    proof (cases "Some r = ar")
      case True
      with Cons.prems(1) n go IH show ?thesis by auto
    next
      case False
      with Cons.prems(1) n go obtain loc1 where
        l: "perform_wildcard_access loc r src art ns k g (j \<noteq> 0) = Ok loc1"
        "access_other_trees (j + 1) rs ns src ar art k g mode mec loc1 = Ok loc'"
        by (auto simp: obind_eq_Ok)
      from Cons.prems(2) [of r] False obtain T where T: "represents_root ns T" "rt_idx T = r" "i \<notin> set (rt_nodes T)" by auto
      from perform_wildcard_access_frame [OF T(1) _ T(3)] T(2) l(1) IH [OF l(2)] show ?thesis by auto
    qed
  qed
qed simp

text \<open>An access through a tag of the tree \<open>T\<close>, as far as the states of the nodes of \<open>T\<close> are concerned.\<close>

lemma location_access_visit:
  assumes f: "forest_ok ns rs Ts" and T: "plug t ctx \<in> set Ts"
    and a: "LocationTree_perform_access loc rs ns (Some (rt_idx t)) k g mode mec = Ok loc'"
  obtains loc1 where "visit_all (normal_skipper ns k) (normal_app ns k g (rt_idx t)) mode t ctx loc = Ok loc1"
    "\<forall>i\<in>set (rt_nodes (plug t ctx)). UniValMap_get (perms loc') i = UniValMap_get (perms loc1) i"
proof -
  have root: "represents_root ns (plug t ctx)" using f T by (simp add: forest_ok_def)
  from a obtain loc1 tag where
    v: "visit_all (normal_skipper ns k) (normal_app ns k g (rt_idx t)) mode t ctx loc = Ok loc1"
    and o: "access_other_trees 0 rs ns (Some (rt_idx t)) (Some (rt_idx (plug t ctx))) tag k g mode mec loc1 = Ok loc'"
    by (auto simp: LocationTree_perform_access_def perform_normal_access_run [OF root] obind_eq_Ok)
  have "UniValMap_get (perms loc') i = UniValMap_get (perms loc1) i" if i: "i \<in> set (rt_nodes (plug t ctx))" for i
  proof (rule access_other_trees_frame [OF o])
    fix r
    assume "r \<in> set rs" "Some r \<noteq> Some (rt_idx (plug t ctx))"
    then obtain S where S: "S \<in> set Ts" "rt_idx S = r" "S \<noteq> plug t ctx" using f by (auto simp: forest_ok_def)
    have "set (rt_nodes S) \<inter> set (rt_nodes (plug t ctx)) = {}"
    proof -
      have "\<forall>x\<in>set (map rt_nodes Ts). \<forall>y\<in>set (map rt_nodes Ts). x \<noteq> y \<longrightarrow> set x \<inter> set y = {}"
        using f by (auto simp: forest_ok_def distinct_concat_iff)
      moreover have "rt_nodes S \<noteq> rt_nodes (plug t ctx)"
        using \<open>Some r \<noteq> _\<close> S(2) by (cases S; cases "plug t ctx") auto
      ultimately show ?thesis using S(1) T by auto
    qed
    with i S f show "\<exists>S. represents_root ns S \<and> rt_idx S = r \<and> i \<notin> set (rt_nodes S)"
      by (auto simp: forest_ok_def)
  qed
  with v that show thesis by blast
qed

lemma location_access_local:
  assumes f: "forest_ok ns rs Ts" and T: "plug t ctx \<in> set Ts"
    and a: "LocationTree_perform_access loc rs ns (Some (rt_idx t)) k g mode mec = Ok loc'"
    and i: "i \<in> set (rt_idx t # map fst ctx)"
  shows "normal_step ns k g i LocalAccess (UniValMap_get (perms loc) i) (UniValMap_get (perms loc') i)"
proof -
  have d: "distinct (rt_nodes (plug t ctx))" using f T by (simp add: forest_ok_def represents_root_def)
  from location_access_visit [OF f T a] obtain loc1 where
    v: "visit_all (normal_skipper ns k) (normal_app ns k g (rt_idx t)) mode t ctx loc = Ok loc1"
    "\<forall>i\<in>set (rt_nodes (plug t ctx)). UniValMap_get (perms loc') i = UniValMap_get (perms loc1) i" .
  have "i \<in> set (rt_nodes (plug t ctx))" using i rt_idx_in_nodes [of t] by (auto simp: set_plug)
  with normal.visit_all_local [OF v(1) d i] v(2) show ?thesis by simp
qed

lemma location_access_foreign:
  assumes f: "forest_ok ns rs Ts" and T: "plug t ctx \<in> set Ts"
    and a: "LocationTree_perform_access loc rs ns (Some (rt_idx t)) k g mode mec = Ok loc'"
    and u: "plug u ctx' \<in> set (foreign_forest mode t ctx)"
    and sk: "\<forall>i\<in>insert (rt_idx u) (fst ` set ctx'). \<not> normal_skips ns k i ForeignAccess (UniValMap_get (perms loc) i)"
  shows "normal_step ns k g (rt_idx u) ForeignAccess (UniValMap_get (perms loc) (rt_idx u)) (UniValMap_get (perms loc') (rt_idx u))"
proof -
  have d: "distinct (rt_nodes (plug t ctx))" using f T by (simp add: forest_ok_def represents_root_def)
  from location_access_visit [OF f T a] obtain loc1 where
    v: "visit_all (normal_skipper ns k) (normal_app ns k g (rt_idx t)) mode t ctx loc = Ok loc1"
    "\<forall>i\<in>set (rt_nodes (plug t ctx)). UniValMap_get (perms loc') i = UniValMap_get (perms loc1) i" .
  have "rt_idx u \<in> set (rt_nodes (plug u ctx'))" using rt_idx_in_nodes [of u] by (auto simp: set_plug)
  then have "rt_idx u \<in> set (rt_nodes (plug t ctx))"
    using u foreign_forest_nodes(4) [OF d] foreign_forest_nodes(5) [OF d, of mode] by auto
  with normal.visit_all_foreign [OF v(1) d u sk] v(2) show ?thesis by simp
qed

end
