(* ===== verification/TB_Aliasing.thy ===== *)
theory TB_Aliasing
  imports TB_Tree
begin

text \<open>
  What accesses to the tree of an allocation mean for the tags: the byte-wise effect of
  \<open>Tree::perform_access\<close>, and the aliasing rules that follow from it.
\<close>

section \<open>Accesses to a range of bytes\<close>

lemma LocationTree_eq_equivp: "equivp LocationTree_eq"
proof -
  have "equivp (UniValMap_equivalent ((=) :: LocationState \<Rightarrow> _))" "equivp (UniValMap_equivalent ((=) :: ExposedCacheNode \<Rightarrow> _))"
    by (rule vals.same_equivp, rule identity_equivp)+
  then show ?thesis
    by (auto simp: LocationTree_eq_def [abs_def] intro!: equivpI reflpI sympI transpI
        dest: equivp_reflp equivp_symp intro: equivp_reflp equivp_symp equivp_transp)
qed

lemma LocationTree_eq_get:
  "LocationTree_eq a b \<Longrightarrow> UniValMap_get (perms a) i = UniValMap_get (perms b) i"
  "LocationTree_eq a b \<Longrightarrow> UniValMap_get (exposed_cache a) i = UniValMap_get (exposed_cache b) i"
  by (simp_all add: LocationTree_eq_def equivalent_get option.rel_eq)

interpretation tb_map: ranged_state LocationTree_eq map_inv DedupRangeMap_size lookup "DedupRangeMap_for_each LocationTree_eq"
  by (rule ranged_state_for_each) (rule LocationTree_eq_equivp)

lemma tree_access_bytes:
  assumes i: "map_inv (locations tree)" and len: "s + n \<le> DedupRangeMap_size (locations tree)"
    and idx: "UniKeyMap_get (tag_mapping tree) tag = Some idx"
    and a: "Tree_perform_access tree (Concrete tag) s n k g = Ok tree'"
  shows "nodes tree' = nodes tree" "roots tree' = roots tree" "tag_mapping tree' = tag_mapping tree"
    "map_inv (locations tree')" "DedupRangeMap_size (locations tree') = DedupRangeMap_size (locations tree)"
    "s \<le> b \<Longrightarrow> b < s + n \<Longrightarrow> \<exists>d0 d d'. lookup (locations tree) b = Some d0 \<and> LocationTree_eq d0 d \<and>
       LocationTree_perform_access d (roots tree) (nodes tree) (Some idx) k g VisitChildrenOfAccessed None = Ok d' \<and>
       lookup (locations tree') b = Some d'"
    "\<not> (s \<le> b \<and> b < s + n) \<Longrightarrow> rel_option LocationTree_eq (lookup (locations tree) b) (lookup (locations tree') b)"
proof -
  let ?f = "\<lambda>_ loc u. obind (LocationTree_perform_access loc (roots tree) (nodes tree) (Some idx) k g
      VisitChildrenOfAccessed None) (\<lambda>loc. Ok (loc, u))"
  from a idx obtain locs where
    l: "DedupRangeMap_for_each LocationTree_eq ?f (locations tree) s n () = Ok (locs, ())" and t': "tree' = tree\<lparr>locations := locs\<rparr>"
    by (auto simp: Tree_perform_access_def source_index_def obind_eq_Ok)
  show "nodes tree' = nodes tree" "roots tree' = roots tree" "tag_mapping tree' = tag_mapping tree" by (simp_all add: t')
  show "map_inv (locations tree')" "DedupRangeMap_size (locations tree') = DedupRangeMap_size (locations tree)"
    using tb_map.each_inv [OF i len l] by (simp_all add: t')
  show "\<exists>d0 d d'. lookup (locations tree) b = Some d0 \<and> LocationTree_eq d0 d \<and>
       LocationTree_perform_access d (roots tree) (nodes tree) (Some idx) k g VisitChildrenOfAccessed None = Ok d' \<and>
       lookup (locations tree') b = Some d'" if "s \<le> b" "b < s + n"
    using tb_map.each_inside [OF i len l that] by (auto simp: t' obind_eq_Ok)
  show "rel_option LocationTree_eq (lookup (locations tree) b) (lookup (locations tree') b)" if "\<not> (s \<le> b \<and> b < s + n)"
    using tb_map.each_outside [OF i len l that] by (simp add: t')
qed

section \<open>Where the nodes of a tree are\<close>

lemma subtree_at: "i \<in> set (rt_nodes T) \<Longrightarrow> \<exists>t ctx. T = plug t ctx \<and> rt_idx t = i"
proof (induction T)
  case (RT j ts)
  show ?case
  proof (cases "i = j")
    case True
    then show ?thesis by (intro exI [of _ "RT j ts"] exI [of _ "[]"]) simp
  next
    case False
    with RT.prems obtain s where s: "s \<in> set ts" "i \<in> set (rt_nodes s)" by auto
    from RT.IH [OF this] obtain t ctx where t: "s = plug t ctx" "rt_idx t = i" by blast
    from s(1) obtain l r where "ts = l @ s # r" by (meson split_list)
    with t show ?thesis by (intro exI [of _ t] exI [of _ "ctx @ [(j, l, r)]"]) (simp add: plug_append)
  qed
qed

lemma foreign_subtree:
  assumes "S \<in> set (foreign_forest mode t ctx)" shows "\<exists>ctx'. plug t ctx = plug S ctx'"
proof -
  have child: "\<exists>ctx'. plug t ctx = plug S ctx'" if "S \<in> set (rt_children t)"
  proof -
    from that obtain l r where "rt_children t = l @ S # r" by (meson split_list)
    then have "plug t ctx = plug S ((rt_idx t, l, r) # ctx)" by (cases t) simp
    then show ?thesis by blast
  qed
  have "\<exists>ctx'. plug t ctx = plug S ctx'" if "(p, l, r) \<in> set ctx" "S \<in> set l \<union> set r" for p l r t
    using that
  proof (induction ctx arbitrary: t)
    case (Cons a ctx)
    show ?case
    proof (cases "(p, l, r) = a")
      case True
      from Cons.prems(2) obtain l' r' where "l @ t # r = l' @ S # r'" by (metis Un_iff in_set_conv_decomp set_append list.set_intros(2))
      with True have "plug t (a # ctx) = plug S ((p, l', r') # ctx)" by auto
      then show ?thesis by blast
    next
      case False
      with Cons show ?thesis by (cases a) auto
    qed
  qed simp
  with child assms show ?thesis by (cases mode) (auto simp: foreign_forest_def)
qed

section \<open>The states on the path of an access\<close>

lemma normal_step_transition:
  assumes "normal_step ns k g i rel so so'"
  obtains n s' where "UniValMap_get ns i = Some n" "so' = Some s'"
    "transition_perform_access k rel (permission (state_of n so)) (is_protected g (node_tag n)) =
       (Ok (Some (permission s')) :: (TransitionError, _) outcome)"
    "accessed s' \<longleftrightarrow> accessed (state_of n so) \<or> rel = LocalAccess"
    "idempotent_foreign_access s' = record_new (idempotent_foreign_access (state_of n so)) (from_acc_and_rel k rel)"
    "is_protected g (node_tag n) \<longrightarrow> accessed s' \<longrightarrow> permission s' \<noteq> Disabled"
proof -
  from assms obtain n s' t where n: "UniValMap_get ns i = Some n" "so' = Some s'"
    "location_transition (state_of n so) k rel (is_protected g (node_tag n)) = Ok (s', t)"
    by (auto simp: normal_step_def)
  from location_transition_Ok [OF n(3)] n(1,2) that show thesis by blast
qed

lemma local_access_allowed:
  "transition_perform_access k LocalAccess p prot = (Ok (Some q) :: (TransitionError, _) outcome) \<Longrightarrow>
     \<exists>r. transition_perform_access k LocalAccess q False = (Ok (Some r) :: (unit, _) outcome)"
  by (cases k; cases p rule: perm_exhaust) (auto simp: tb_perm_defs split: if_splits)

lemma local_write_step:
  assumes "normal_step ns Write g i LocalAccess so so'"
  shows "\<exists>n s'. UniValMap_get ns i = Some n \<and> so' = Some s' \<and> accessed s' \<and> idempotent_foreign_access s' = SifaNone \<and>
    permission s' = (if permission (state_of n so) = Cell then Cell else Unique)"
  using assms
proof (rule normal_step_transition)
  fix n s'
  assume h: "UniValMap_get ns i = Some n" "so' = Some s'"
    "transition_perform_access Write LocalAccess (permission (state_of n so)) (is_protected g (node_tag n)) =
       (Ok (Some (permission s')) :: (TransitionError, _) outcome)"
    "accessed s' \<longleftrightarrow> accessed (state_of n so) \<or> LocalAccess = LocalAccess"
    "idempotent_foreign_access s' = record_new (idempotent_foreign_access (state_of n so)) (from_acc_and_rel Write LocalAccess)"
  have "permission s' = (if permission (state_of n so) = Cell then Cell else Unique)"
    using h(3) by (cases "permission (state_of n so)" rule: perm_exhaust) (auto simp: tb_perm_defs split: if_splits)
  moreover have "idempotent_foreign_access s' = SifaNone"
    using h(5) by (simp add: record_new_def from_acc_and_rel_def is_foreign_def sifa_is_local_def)
  ultimately show ?thesis using h by auto
qed

lemma fresh_not_skipped:
  assumes "idempotent_foreign_access s = SifaNone" "permission s \<in> {Cell, Unique}"
  shows "\<not> normal_skips ns k i ForeignAccess (Some s)"
  using assms by (auto simp: normal_skips_def state_of_def skip_if_known_noop_def is_foreign_def
      can_skip_foreign_access_def is_disabled_def is_frozen_def)

lemma foreign_step_on_unique:
  assumes "normal_step ns k g i ForeignAccess (Some s) so'" "permission s = Unique" "accessed s"
  shows "\<exists>s'. so' = Some s' \<and> permission s' = (if k = Read then Frozen else Disabled)"
  using assms(1)
proof (rule normal_step_transition)
  fix n s'
  assume h: "so' = Some s'"
    "transition_perform_access k ForeignAccess (permission (state_of n (Some s))) (is_protected g (node_tag n)) =
       (Ok (Some (permission s')) :: (TransitionError, _) outcome)"
    "accessed s' \<longleftrightarrow> accessed (state_of n (Some s)) \<or> ForeignAccess = LocalAccess"
    "is_protected g (node_tag n) \<longrightarrow> accessed s' \<longrightarrow> permission s' \<noteq> Disabled"
  have "accessed s'" using h(3) assms(3) by (simp add: state_of_def)
  with h assms(2) show ?thesis by (cases k) (auto simp: state_of_def tb_perm_defs split: if_splits)
qed

lemma local_step_blocked:
  assumes "permission s = Disabled \<or> permission s = Frozen \<and> k = Write"
  shows "\<not> normal_step ns k g i LocalAccess (Some s) so'"
proof
  assume "normal_step ns k g i LocalAccess (Some s) so'"
  then show False
  proof (rule normal_step_transition)
    fix n s'
    assume "transition_perform_access k LocalAccess (permission (state_of n (Some s))) (is_protected g (node_tag n)) =
       (Ok (Some (permission s')) :: (TransitionError, _) outcome)"
    with assms show False by (cases k) (auto simp: state_of_def tb_perm_defs)
  qed
qed

text \<open>At one location: a write through \<open>t\<close>, a foreign access, and another access through \<open>t\<close>.\<close>

lemma conflicting_location_accesses:
  assumes f: "forest_ok ns rs Ts" and T: "plug t ctxt \<in> set Ts" and TT: "plug t ctxt = plug u ctxu"
    and apart: "rt_idx t \<notin> set (rt_idx u # map fst ctxu)"
    and a1: "LocationTree_perform_access d1 rs ns (Some (rt_idx t)) Write g1 VisitChildrenOfAccessed None = Ok d1'"
    and a2: "LocationTree_perform_access d2 rs ns (Some (rt_idx u)) k2 g2 VisitChildrenOfAccessed None = Ok d2'"
    and a3: "LocationTree_perform_access d3 rs ns (Some (rt_idx t)) k3 g3 VisitChildrenOfAccessed None = Ok d3'"
    and e: "\<forall>i. UniValMap_get (perms d2) i = UniValMap_get (perms d1') i" "\<forall>i. UniValMap_get (perms d3) i = UniValMap_get (perms d2') i"
    and nocell: "\<forall>n. UniValMap_get ns (rt_idx t) = Some n \<longrightarrow> permission (state_of n (UniValMap_get (perms d1) (rt_idx t))) \<noteq> Cell"
  shows "k2 = Read \<and> k3 = Read"
proof -
  have d: "distinct (rt_nodes (plug u ctxu))" using f T TT by (auto simp: forest_ok_def represents_root_def)
  have "rt_idx t \<in> set (rt_nodes (plug u ctxu))" using TT rt_idx_in_nodes [of t] by (metis Un_iff set_plug)
  with apart foreign_forest_nodes(4) [OF d] obtain S where
    S: "S \<in> set (foreign_forest VisitChildrenOfAccessed u ctxu)" "rt_idx t \<in> set (rt_nodes S)" by auto
  from subtree_at [OF S(2)] obtain v ctx where v: "S = plug v ctx" "rt_idx v = rt_idx t" by blast
  from foreign_subtree [OF S(1)] obtain ctx2 where "plug u ctxu = plug S ctx2" by blast
  then have path: "plug v (ctx @ ctx2) \<in> set Ts" using T TT v(1) by (simp add: plug_append)
  have l1: "normal_step ns Write g1 i LocalAccess (UniValMap_get (perms d1) i) (UniValMap_get (perms d1') i)"
    if "i \<in> set (rt_idx v # map fst (ctx @ ctx2))" for i
    using location_access_local [OF f path a1 [folded v(2)] that] .
  have "\<forall>i\<in>insert (rt_idx v) (fst ` set ctx). \<not> normal_skips ns k2 i ForeignAccess (UniValMap_get (perms d2) i)"
  proof
    fix i
    assume "i \<in> insert (rt_idx v) (fst ` set ctx)"
    then have "i \<in> set (rt_idx v # map fst (ctx @ ctx2))" by auto
    from local_write_step [OF l1 [OF this]] obtain s where "UniValMap_get (perms d1') i = Some s"
      "idempotent_foreign_access s = SifaNone" "permission s \<in> {Cell, Unique}" by (auto split: if_splits)
    with fresh_not_skipped [of s ns k2 i] e(1) show "\<not> normal_skips ns k2 i ForeignAccess (UniValMap_get (perms d2) i)" by simp
  qed
  from location_access_foreign [OF f T [unfolded TT] a2 S(1) [unfolded v(1)] this]
  have s2: "normal_step ns k2 g2 (rt_idx t) ForeignAccess (UniValMap_get (perms d2) (rt_idx t)) (UniValMap_get (perms d2') (rt_idx t))"
    by (simp add: v(2))
  from local_write_step [OF l1 [of "rt_idx t"]] v(2) nocell obtain s1 where
    s1: "UniValMap_get (perms d1') (rt_idx t) = Some s1" "accessed s1" "permission s1 = Unique" by auto
  from foreign_step_on_unique [OF s2 [unfolded e(1) [rule_format] s1(1)] s1(3,2)] obtain s2' where
    s2': "UniValMap_get (perms d2') (rt_idx t) = Some s2'" "permission s2' = (if k2 = Read then Frozen else Disabled)" by blast
  have "normal_step ns k3 g3 (rt_idx t) LocalAccess (UniValMap_get (perms d3) (rt_idx t)) (UniValMap_get (perms d3') (rt_idx t))"
    by (rule location_access_local [OF f T a3]) simp
  with e(2) s2' local_step_blocked [of s2' k3 ns g3 "rt_idx t"] show ?thesis
    by (cases k2; cases k3) auto
qed

section \<open>Properties\<close>

text \<open>C15: The aliasing rule of Tree Borrows, for the tree of an allocation: if a write through one tag is
  followed by an access through a tag that is not derived from it, and then the first tag is used again
  on a byte that all three accesses touch, then all this is free of undefined behaviour only if the
  second and the third access are reads. (The location must not be interior mutable for the first tag.
  Protectors may end in between: the global states need not be the same.)\<close>

theorem conflicting_access_is_ub:
  assumes "forest_ok (nodes tree) (roots tree) Ts" "map_inv (locations tree)"
    and "plug t ctxt \<in> set Ts" "plug t ctxt = plug u ctxu" "rt_idx t \<notin> set (rt_idx u # map fst ctxu)"
    and "UniKeyMap_get (tag_mapping tree) tag_t = Some (rt_idx t)" "UniKeyMap_get (tag_mapping tree) tag_u = Some (rt_idx u)"
    and "\<forall>(s, n)\<in>{(s1, n1), (s2, n2), (s3, n3)}. s \<le> b \<and> b < s + n \<and> s + n \<le> DedupRangeMap_size (locations tree)"
    and "\<forall>d n. lookup (locations tree) b = Some d \<longrightarrow> UniValMap_get (nodes tree) (rt_idx t) = Some n \<longrightarrow>
      permission (state_of n (UniValMap_get (perms d) (rt_idx t))) \<noteq> Cell"
    and "Tree_perform_access tree (Concrete tag_t) s1 n1 Write g1 = Ok tree1"
    and "Tree_perform_access tree1 (Concrete tag_u) s2 n2 k2 g2 = Ok tree2"
    and "Tree_perform_access tree2 (Concrete tag_t) s3 n3 k3 g3 = Ok tree3"
  shows "k2 = Read \<and> k3 = Read"
proof -
  have rng: "s1 \<le> b" "b < s1 + n1" "s1 + n1 \<le> DedupRangeMap_size (locations tree)"
    "s2 \<le> b" "b < s2 + n2" "s2 + n2 \<le> DedupRangeMap_size (locations tree)"
    "s3 \<le> b" "b < s3 + n3" "s3 + n3 \<le> DedupRangeMap_size (locations tree)" using assms(8) by simp_all
  note t1 = tree_access_bytes [OF assms(2) rng(3) assms(6) assms(10)]
  have "s2 + n2 \<le> DedupRangeMap_size (locations tree1)" "UniKeyMap_get (tag_mapping tree1) tag_u = Some (rt_idx u)"
    using rng(6) assms(7) t1(3,5) by simp_all
  note t2 = tree_access_bytes [OF t1(4) this assms(11)]
  have "s3 + n3 \<le> DedupRangeMap_size (locations tree2)" "UniKeyMap_get (tag_mapping tree2) tag_t = Some (rt_idx t)"
    using rng(9) assms(6) t1(3,5) t2(3,5) by simp_all
  note t3 = tree_access_bytes [OF t2(4) this assms(12)]
  from t1(6) [OF rng(1,2)] obtain c1 d1 d1' where d1: "lookup (locations tree) b = Some c1" "LocationTree_eq c1 d1"
    "LocationTree_perform_access d1 (roots tree) (nodes tree) (Some (rt_idx t)) Write g1 VisitChildrenOfAccessed None = Ok d1'"
    "lookup (locations tree1) b = Some d1'" by blast
  from t2(6) [OF rng(4,5)] d1(4) t1(1,2) obtain d2 d2' where d2: "LocationTree_eq d1' d2"
    "LocationTree_perform_access d2 (roots tree) (nodes tree) (Some (rt_idx u)) k2 g2 VisitChildrenOfAccessed None = Ok d2'"
    "lookup (locations tree2) b = Some d2'" by auto
  from t3(6) [OF rng(7,8)] d2(3) t1(1,2) t2(1,2) obtain d3 d3' where d3: "LocationTree_eq d2' d3"
    "LocationTree_perform_access d3 (roots tree) (nodes tree) (Some (rt_idx t)) k3 g3 VisitChildrenOfAccessed None = Ok d3'" by auto
  have "\<forall>n. UniValMap_get (nodes tree) (rt_idx t) = Some n \<longrightarrow> permission (state_of n (UniValMap_get (perms d1) (rt_idx t))) \<noteq> Cell"
    using assms(9) d1(1) LocationTree_eq_get(1) [OF d1(2), of "rt_idx t"] by auto
  moreover have "\<forall>i. UniValMap_get (perms d2) i = UniValMap_get (perms d1') i" "\<forall>i. UniValMap_get (perms d3) i = UniValMap_get (perms d2') i"
    using LocationTree_eq_get(1) [OF d2(1)] LocationTree_eq_get(1) [OF d3(1)] by simp_all
  ultimately show ?thesis
    using conflicting_location_accesses [OF assms(1,3,4,5) d1(3) d2(2) d3(2)] by blast
qed

text \<open>A tree with a root and one child, on two bytes, and the same tree after a write through the child and
  a read through the root.\<close>

definition demo_state :: "Permission \<Rightarrow> IdempotentForeignAccess \<Rightarrow> LocationState" where
  "demo_state p f = \<lparr>accessed = True, permission = p, idempotent_foreign_access = f\<rparr>"

definition demo_tree :: "LocationState \<Rightarrow> Tree" where
  "demo_tree s =
     \<lparr>tag_mapping = \<lparr>mapping = [(1, 0), (2, 1)], deassigned = []\<rparr>,
      nodes = [Some \<lparr>node_tag = 1, node_parent = None, node_children = [1], default_initial_perm = Disabled,
                     default_initial_idempotent_foreign_access = SifaNone, is_exposed = False\<rparr>,
               Some \<lparr>node_tag = 2, node_parent = Some 0, node_children = [], default_initial_perm = ReservedFrz False,
                     default_initial_idempotent_foreign_access = SifaRead, is_exposed = False\<rparr>],
      locations = [\<lparr>range_start = 0, range_end = 2,
                    data = \<lparr>perms = [Some (demo_state Unique SifaNone), Some s], exposed_cache = []\<rparr>\<rparr>],
      roots = [0]\<rparr>"

definition demo_global :: GlobalStateInner where
  "demo_global = GlobalStateInner_new StackedBorrows {}"

lemma demo_tree_built:
  "obind (Tree_new 1 2) (\<lambda>tree. Tree_new_child tree 0 (Concrete 1) 2
     (DedupRangeMap_new 2 (demo_state (ReservedFrz False) SifaRead)) (ReservedFrz False) False) =
   (Ok (demo_tree (demo_state (ReservedFrz False) SifaRead)) :: (TbError, _) outcome)"
  by code_simp

theorem conflicting_access_is_ub_witness:
  "Tree_perform_access (demo_tree (demo_state (ReservedFrz False) SifaRead)) (Concrete 2) 0 2 Write demo_global =
     Ok (demo_tree (demo_state Unique SifaNone)) \<and>
   Tree_perform_access (demo_tree (demo_state Unique SifaNone)) (Concrete 1) 0 2 Read demo_global =
     Ok (demo_tree (demo_state Frozen SifaRead)) \<and>
   Tree_perform_access (demo_tree (demo_state Frozen SifaRead)) (Concrete 2) 0 2 Read demo_global =
     Ok (demo_tree (demo_state Frozen SifaNone)) \<and>
   (\<forall>tree. Tree_perform_access (demo_tree (demo_state Frozen SifaRead)) (Concrete 2) 0 2 Write demo_global \<noteq> Ok tree)"
proof -
  let ?t = "demo_tree (demo_state (ReservedFrz False) SifaRead)"
  have a: "Tree_perform_access ?t (Concrete 2) 0 2 Write demo_global = Ok (demo_tree (demo_state Unique SifaNone))"
    "Tree_perform_access (demo_tree (demo_state Unique SifaNone)) (Concrete 1) 0 2 Read demo_global =
       Ok (demo_tree (demo_state Frozen SifaRead))" by code_simp+
  have rd: "Tree_perform_access (demo_tree (demo_state Frozen SifaRead)) (Concrete 2) 0 2 Read demo_global =
     Ok (demo_tree (demo_state Frozen SifaNone))" by code_simp
  let ?T = "plug (RT 1 []) [(0, [], [])]"
  have f: "forest_ok (nodes ?t) (roots ?t) [?T]"
    by (simp add: forest_ok_def represents_root_def demo_tree_def UniValMap_get_def)
  have m: "map_inv (locations ?t)" by (simp add: map_inv_def demo_tree_def DedupRangeMap_size_def)
  have T: "?T \<in> set [?T]" "?T = plug (RT 0 [RT 1 []]) []" "rt_idx (RT 1 []) \<notin> set (rt_idx (RT 0 [RT 1 []]) # map fst [])"
    by simp_all
  have tags: "UniKeyMap_get (tag_mapping ?t) 2 = Some (rt_idx (RT 1 []))"
    "UniKeyMap_get (tag_mapping ?t) 1 = Some (rt_idx (RT 0 [RT 1 []]))"
    by (simp_all add: demo_tree_def UniKeyMap_get_def)
  have r: "\<forall>(s, n)\<in>{(0, 2), (0, 2), (0, 2)}. s \<le> 0 \<and> 0 < s + n \<and> s + n \<le> DedupRangeMap_size (locations ?t)"
    by (simp add: demo_tree_def DedupRangeMap_size_def)
  have nc: "\<forall>d n. lookup (locations ?t) 0 = Some d \<longrightarrow> UniValMap_get (nodes ?t) (rt_idx (RT 1 [])) = Some n \<longrightarrow>
      permission (state_of n (UniValMap_get (perms d) (rt_idx (RT 1 [])))) \<noteq> Cell"
    by (simp add: demo_tree_def demo_state_def covers_def UniValMap_get_def state_of_def)
  have "Tree_perform_access (demo_tree (demo_state Frozen SifaRead)) (Concrete 2) 0 2 Write demo_global \<noteq> Ok tree" for tree
    using conflicting_access_is_ub [OF f m T tags r nc a, of Write demo_global tree] by auto
  with a rd show ?thesis by blast
qed

text \<open>C16: One access through a tag: if it is free of undefined behaviour then at every byte of the range the
  tag and all its ancestors are marked as accessed with a permission that allows this kind of access, and
  every byte outside the range keeps the state of every tag.\<close>

theorem access_needs_permission:
  assumes "forest_ok (nodes tree) (roots tree) Ts" "map_inv (locations tree)" "plug t ctx \<in> set Ts"
    and "UniKeyMap_get (tag_mapping tree) tag = Some (rt_idx t)" "s + n \<le> DedupRangeMap_size (locations tree)"
    and "Tree_perform_access tree (Concrete tag) s n k g = Ok tree'"
  shows "(\<forall>b. s \<le> b \<and> b < s + n \<longrightarrow> (\<exists>d. lookup (locations tree') b = Some d \<and>
      (\<forall>i\<in>set (rt_idx t # map fst ctx). \<exists>st. UniValMap_get (perms d) i = Some st \<and> accessed st \<and>
         (\<exists>p. transition_perform_access k LocalAccess (permission st) False = (Ok (Some p) :: (unit, _) outcome))))) \<and>
    (\<forall>b d i. \<not> (s \<le> b \<and> b < s + n) \<longrightarrow> lookup (locations tree) b = Some d \<longrightarrow>
      (\<exists>d'. lookup (locations tree') b = Some d' \<and> UniValMap_get (perms d') i = UniValMap_get (perms d) i))"
proof -
  note acc = tree_access_bytes [OF assms(2,5,4,6)]
  have path: "\<exists>st. so' = Some st \<and> accessed st \<and>
      (\<exists>p. transition_perform_access k LocalAccess (permission st) False = (Ok (Some p) :: (unit, _) outcome))"
    if "normal_step ns k g i LocalAccess so so'" for ns i so so'
    using that
  proof (rule normal_step_transition)
    fix n st
    assume h: "so' = Some st" "accessed st \<longleftrightarrow> accessed (state_of n so) \<or> LocalAccess = LocalAccess"
      "transition_perform_access k LocalAccess (permission (state_of n so)) (is_protected g (node_tag n)) =
         (Ok (Some (permission st)) :: (TransitionError, _) outcome)"
    from local_access_allowed [OF h(3)] h(1,2) show ?thesis by blast
  qed
  have "\<exists>d. lookup (locations tree') b = Some d \<and> (\<forall>i\<in>set (rt_idx t # map fst ctx). \<exists>st. UniValMap_get (perms d) i = Some st \<and>
      accessed st \<and> (\<exists>p. transition_perform_access k LocalAccess (permission st) False = (Ok (Some p) :: (unit, _) outcome)))"
    if b: "s \<le> b" "b < s + n" for b
  proof -
    from acc(6) [OF b] obtain d d' where d:
      "LocationTree_perform_access d (roots tree) (nodes tree) (Some (rt_idx t)) k g VisitChildrenOfAccessed None = Ok d'"
      "lookup (locations tree') b = Some d'" by blast
    with path [OF location_access_local [OF assms(1,3) d(1)]] show ?thesis by blast
  qed
  moreover have "\<exists>d'. lookup (locations tree') b = Some d' \<and> UniValMap_get (perms d') i = UniValMap_get (perms d) i"
    if "\<not> (s \<le> b \<and> b < s + n)" "lookup (locations tree) b = Some d" for b d i
    using acc(7) [OF that(1)] that(2) LocationTree_eq_get(1) by (auto simp: option_rel_Some1)
  ultimately show ?thesis by blast
qed

theorem access_needs_permission_witness:
  "\<exists>d st. lookup (locations (demo_tree (demo_state Unique SifaNone))) 1 = Some d \<and>
     UniValMap_get (perms d) 1 = Some st \<and> accessed st"
proof -
  let ?t = "demo_tree (demo_state (ReservedFrz False) SifaRead)"
  have a: "Tree_perform_access ?t (Concrete 2) 0 2 Write demo_global = Ok (demo_tree (demo_state Unique SifaNone))"
    by code_simp
  let ?T = "plug (RT 1 []) [(0, [], [])]"
  have f: "forest_ok (nodes ?t) (roots ?t) [?T]" "map_inv (locations ?t)" "?T \<in> set [?T]"
    "UniKeyMap_get (tag_mapping ?t) 2 = Some (rt_idx (RT 1 []))" "0 + 2 \<le> DedupRangeMap_size (locations ?t)"
    by (simp_all add: forest_ok_def represents_root_def demo_tree_def UniValMap_get_def map_inv_def DedupRangeMap_size_def
        UniKeyMap_get_def)
  from access_needs_permission [OF f a, THEN conjunct1, rule_format, of 1] show ?thesis by auto
qed

section \<open>The order of recorded accesses along the tree\<close>

text \<open>
  The comments in \<open>tree.rs\<close> and \<open>foreign_access_skipping.rs\<close> ask that the access recorded for a node is never
  stronger than those recorded for its children. The code does not keep this: a foreign access to a
  disabled child is skipped without being recorded, while the parent does record it, and a retag below
  the child may have weakened the child before. (This is harmless for the children of a disabled node.)
  In the run below, tags 3 and 4 are children of tag 2. A write through 4 disables 3 at byte 0, a retag of
  3 at byte 1 weakens the record of 3 at byte 0 to \<open>Read\<close>, and a write through the root raises the record
  of 2, but not that of 3, to \<open>Write\<close>.
\<close>

definition retagged :: "nat \<Rightarrow> LocationState DedupRangeMap" where
  "retagged sz = DedupRangeMap_new sz (demo_state (ReservedFrz False) SifaRead)"

definition sifa_run :: "(TbError, Tree) outcome" where
  "sifa_run =
     obind (Tree_new 1 2) (\<lambda>tree.
     obind (Tree_new_child tree 0 (Concrete 1) 2 (retagged 2) (ReservedFrz False) False) (\<lambda>tree.
     obind (Tree_new_child tree 0 (Concrete 2) 3 (retagged 2) (ReservedFrz False) False) (\<lambda>tree.
     obind (Tree_new_child tree 0 (Concrete 2) 4 (retagged 2) (ReservedFrz False) False) (\<lambda>tree.
     obind (Tree_perform_access tree (Concrete 4) 0 1 Write demo_global) (\<lambda>tree.
     obind (Tree_perform_access tree (Concrete 3) 1 1 Read demo_global) (\<lambda>tree.
     obind (Tree_new_child tree 1 (Concrete 3) 5 (retagged 1) (ReservedFrz False) False) (\<lambda>tree.
     Tree_perform_access tree (Concrete 1) 0 1 Write demo_global)))))))"

definition recorded_accesses :: "Tree \<Rightarrow> IdempotentForeignAccess option list list" where
  "recorded_accesses tree = map (\<lambda>e. map (map_option idempotent_foreign_access) (perms (data e))) (locations tree)"

text \<open>After this run the second node records \<open>Write\<close> at the first byte while its first child records only \<open>Read\<close>.\<close>

lemma recorded_access_order_broken:
  "obind sifa_run (\<lambda>tree. Ok (map node_parent (List.map_filter id (nodes tree)), recorded_accesses tree)) =
     Ok ([None, Some 0, Some 1, Some 1, Some 2],
         [[Some SifaNone, Some SifaWrite, Some SifaRead, Some SifaWrite],
          [Some SifaNone, Some SifaNone, Some SifaNone, Some SifaRead, Some SifaRead]])"
  by code_simp

end
