(* ===== verification/TB_Shape.thy ===== *)
theory TB_Shape
  imports TB_Aliasing "HOL-Library.Multiset"
begin

text \<open>
  The shape of a borrow tree. The nodes of an allocation live in a map, linked by indices; every
  operation of \<open>Tree\<close> relies on these links forming proper trees, on the one to one mapping of tags to
  nodes, and on the byte map covering the allocation. This theory shows that all operations keep it so,
  the garbage collector of \<open>tree.rs\<close> included, whose loop (\<open>remove_useless_children\<close>) is shown to be
  total and safe for the live tags.
\<close>

section \<open>The shape of a tree\<close>

definition tree_shape :: "Tree \<Rightarrow> rtree list \<Rightarrow> bool" where
  "tree_shape tree Ts \<longleftrightarrow> forest_ok (nodes tree) (roots tree) Ts \<and> map_inv (locations tree) \<and>
     virtual_inv (tag_mapping tree) (nodes tree) \<and>
     (\<forall>tag i. UniKeyMap_get (tag_mapping tree) tag = Some i \<longrightarrow> map_option node_tag (UniValMap_get (nodes tree) i) = Some tag) \<and>
     (\<Union>T\<in>set Ts. set (rt_nodes T)) = ran (UniKeyMap_get (tag_mapping tree))"

text \<open>A map of nodes represents a tree by the children of all its nodes and the parents of all but the root.\<close>

lemma represents_cong:
  assumes "represents ns t"
    and "\<And>i. i \<in> set (rt_nodes t) \<Longrightarrow> map_option node_children (UniValMap_get ns' i) = map_option node_children (UniValMap_get ns i)"
    and "\<And>i. i \<in> set (tl (rt_nodes t)) \<Longrightarrow> map_option node_parent (UniValMap_get ns' i) = map_option node_parent (UniValMap_get ns i)"
  shows "represents ns' t"
  using assms
proof (induction t)
  case (RT i ts)
  have "represents ns' t \<and> map_option node_parent (UniValMap_get ns' (rt_idx t)) = Some (Some i)" if t: "t \<in> set ts" for t
  proof -
    have sub: "set (rt_nodes t) \<subseteq> set (tl (rt_nodes (RT i ts)))" "set (rt_nodes t) \<subseteq> set (rt_nodes (RT i ts))" using t by auto
    have "set (tl (rt_nodes t)) \<subseteq> set (rt_nodes t)" by (cases t) auto
    with sub have "represents ns' t"
      using t RT.prems(1) by (intro RT.IH [OF t]) (auto simp del: rt_nodes.simps intro!: RT.prems(2,3))
    moreover have "map_option node_parent (UniValMap_get ns' (rt_idx t)) = map_option node_parent (UniValMap_get ns (rt_idx t))"
      using sub(1) rt_idx_in_nodes [of t] by (intro RT.prems(3)) blast
    ultimately show ?thesis using t RT.prems(1) by auto
  qed
  moreover have "map_option node_children (UniValMap_get ns' i) = map_option node_children (UniValMap_get ns i)"
    using RT.prems(2) [of i] by simp
  ultimately show ?case using RT.prems(1) by (auto split: option.splits)
qed

lemma represents_frame:
  assumes "\<And>i. i \<in> set (rt_nodes t) \<Longrightarrow> UniValMap_get ns' i = UniValMap_get ns i"
  shows "represents ns t \<Longrightarrow> represents ns' t" "represents_root ns t \<Longrightarrow> represents_root ns' t"
proof -
  have "set (tl (rt_nodes t)) \<subseteq> set (rt_nodes t)" by (cases t) auto
  with assms show r: "represents ns t \<Longrightarrow> represents ns' t" by (intro represents_cong [of ns t ns']) auto
  show "represents_root ns t \<Longrightarrow> represents_root ns' t"
    using r assms [OF rt_idx_in_nodes] by (simp add: represents_root_def)
qed

lemma represents_forest_frame:
  assumes "\<And>t i. t \<in> set ts \<Longrightarrow> i \<in> set (rt_nodes t) \<Longrightarrow> UniValMap_get ns' i = UniValMap_get ns i"
    and "\<forall>t\<in>set ts. represents ns t"
  shows "\<forall>t\<in>set ts. represents ns' t"
  using assms represents_frame(1) by metis

text \<open>Adding a leaf below a node.\<close>

fun graft :: "UniIndex \<Rightarrow> UniIndex \<Rightarrow> rtree \<Rightarrow> rtree" where
  "graft p c (RT i ts) = RT i (map (graft p c) ts @ (if i = p then [RT c []] else []))"

lemma rt_idx_graft [simp]: "rt_idx (graft p c t) = rt_idx t"
  by (cases t) simp

lemma mset_graft:
  "mset (rt_nodes (graft p c t)) = mset (rt_nodes t) + replicate_mset (count (mset (rt_nodes t)) p) c"
proof (induction t)
  case (RT i ts)
  have "mset (concat (map (rt_nodes \<circ> graft p c) ts)) =
    mset (concat (map rt_nodes ts)) + replicate_mset (count (mset (concat (map rt_nodes ts))) p) c"
    using RT.IH by (induction ts) (auto simp: multiset_eq_iff)
  then show ?case by (auto simp: multiset_eq_iff)
qed

lemma set_graft: "set (rt_nodes (graft p c t)) = set (rt_nodes t) \<union> (if p \<in> set (rt_nodes t) then {c} else {})"
proof -
  have "set_mset (mset (rt_nodes (graft p c t))) = set (rt_nodes t) \<union> (if p \<in> set (rt_nodes t) then {c} else {})"
    unfolding mset_graft by (auto simp: count_mset_0_iff split: if_splits)
  then show ?thesis by simp
qed

lemma distinct_count_le: "(\<And>x. count (mset xs) x \<le> 1) \<Longrightarrow> distinct xs"
  unfolding distinct_count_atmost_1 by (metis One_nat_def count_mset_0_iff le_Suc_eq le_zero_eq)

lemma distinct_graft_forest:
  assumes "distinct (concat (map rt_nodes ts))" "c \<notin> set (concat (map rt_nodes ts))"
  shows "distinct (concat (map rt_nodes (map (graft p c) ts)))"
proof -
  let ?xs = "concat (map rt_nodes ts)"
  have m: "mset (concat (map rt_nodes (map (graft p c) ts))) = mset ?xs + replicate_mset (count (mset ?xs) p) c"
    by (induction ts) (auto simp: multiset_eq_iff mset_graft)
  have "count (mset ?xs) x \<le> 1" for x using assms(1) by (simp add: distinct_count_atmost_1 [of ?xs] count_mset_0_iff)
  moreover have "count (mset ?xs) c = 0" using assms(2) by (simp add: count_mset_0_iff del: set_concat)
  moreover have "count (M + replicate_mset (count M p) c) x \<le> 1" if "\<And>x. count M x \<le> 1" "count M c = 0" for M x
    using that by (cases "x = c") auto
  ultimately have "count (mset (concat (map rt_nodes (map (graft p c) ts)))) x \<le> 1" for x
    unfolding m by blast
  then show ?thesis by (rule distinct_count_le)
qed

lemma distinct_graft: "distinct (rt_nodes t) \<Longrightarrow> c \<notin> set (rt_nodes t) \<Longrightarrow> distinct (rt_nodes (graft p c t))"
  using distinct_graft_forest [of "[t]" c p] by simp

lemma represents_graft:
  assumes "represents ns t" "c \<notin> set (rt_nodes t)" "UniValMap_get ns' c = Some leaf" "node_children leaf = []" "node_parent leaf = Some p"
    and "\<And>i. i \<in> set (rt_nodes t) \<Longrightarrow> UniValMap_get ns' i =
      map_option (\<lambda>n. if i = p then n\<lparr>node_children := node_children n @ [c]\<rparr> else n) (UniValMap_get ns i)"
  shows "represents ns' (graft p c t)"
  using assms(1,2,6)
proof (induction t)
  case (RT i ts)
  have "represents ns' (graft p c t) \<and> map_option node_parent (UniValMap_get ns' (rt_idx t)) = Some (Some i)" if t: "t \<in> set ts" for t
  proof -
    have sub: "set (rt_nodes t) \<subseteq> set (rt_nodes (RT i ts))" using t by auto
    with t RT.prems(1,2) have "represents ns' (graft p c t)"
      by (intro RT.IH [OF t]) (auto simp del: rt_nodes.simps intro!: RT.prems(3))
    moreover have "UniValMap_get ns' (rt_idx t) =
        map_option (\<lambda>n. if rt_idx t = p then n\<lparr>node_children := node_children n @ [c]\<rparr> else n) (UniValMap_get ns (rt_idx t))"
      using sub rt_idx_in_nodes [of t] by (intro RT.prems(3)) blast
    ultimately show ?thesis using t RT.prems(1) by (cases "rt_idx t = p") auto
  qed
  with RT.prems(1) RT.prems(3) [of i] assms(3-5) show ?case by (auto split: option.splits)
qed

lemma represents_root_graft:
  assumes "represents_root ns t" "c \<notin> set (rt_nodes t)" "UniValMap_get ns' c = Some leaf" "node_children leaf = []" "node_parent leaf = Some p"
    and "\<And>i. i \<in> set (rt_nodes t) \<Longrightarrow> UniValMap_get ns' i =
      map_option (\<lambda>n. if i = p then n\<lparr>node_children := node_children n @ [c]\<rparr> else n) (UniValMap_get ns i)"
  shows "represents_root ns' (graft p c t)"
  using assms represents_graft [OF _ assms(2-6)] distinct_graft [of t c p] rt_idx_in_nodes [of t]
  by (cases "rt_idx t = p") (auto simp: represents_root_def)

text \<open>Operations that leave tags, parents and children alone.\<close>

definition links :: "Node \<Rightarrow> BorTag \<times> UniIndex option \<times> UniIndex list" where
  "links n = (node_tag n, node_parent n, node_children n)"

definition same_structure :: "Tree \<Rightarrow> Tree \<Rightarrow> bool" where
  "same_structure tree tree' \<longleftrightarrow> roots tree' = roots tree \<and> tag_mapping tree' = tag_mapping tree \<and>
     (\<forall>i. map_option links (UniValMap_get (nodes tree') i) = map_option links (UniValMap_get (nodes tree) i)) \<and>
     (map_inv (locations tree) \<longrightarrow> map_inv (locations tree') \<and>
        DedupRangeMap_size (locations tree') = DedupRangeMap_size (locations tree))"

lemma same_structure_refl: "same_structure tree tree"
  by (simp add: same_structure_def)

lemma same_structure_trans: "same_structure a b \<Longrightarrow> same_structure b c \<Longrightarrow> same_structure a c"
  by (simp add: same_structure_def)

lemma structure_eq:
  "map_option links a = map_option links b \<Longrightarrow>
     map_option node_tag a = map_option node_tag b \<and> map_option node_parent a = map_option node_parent b \<and>
     map_option node_children a = map_option node_children b \<and> (a = None \<longleftrightarrow> b = None)"
  by (cases a; cases b) (auto simp: links_def)

lemma same_structure_shape:
  assumes "tree_shape tree Ts" "same_structure tree tree'"
  shows "tree_shape tree' Ts" "DedupRangeMap_size (locations tree') = DedupRangeMap_size (locations tree)"
proof -
  have eq: "map_option node_tag (UniValMap_get (nodes tree') i) = map_option node_tag (UniValMap_get (nodes tree) i)"
    "map_option node_parent (UniValMap_get (nodes tree') i) = map_option node_parent (UniValMap_get (nodes tree) i)"
    "map_option node_children (UniValMap_get (nodes tree') i) = map_option node_children (UniValMap_get (nodes tree) i)"
    "UniValMap_get (nodes tree') i = None \<longleftrightarrow> UniValMap_get (nodes tree) i = None" for i
    using assms(2) structure_eq unfolding same_structure_def by blast+
  have "represents_root (nodes tree') T" if "T \<in> set Ts" for T
    using that assms(1) represents_cong [of "nodes tree" T "nodes tree'"] eq
    by (auto simp: tree_shape_def forest_ok_def represents_root_def)
  with assms eq show "tree_shape tree' Ts"
    by (auto simp: tree_shape_def forest_ok_def same_structure_def virtual_inv_def)
  show "DedupRangeMap_size (locations tree') = DedupRangeMap_size (locations tree)"
    using assms by (simp add: tree_shape_def same_structure_def)
qed

lemma same_structure_locations:
  assumes "map_inv (locations tree) \<Longrightarrow> map_inv locs \<and> DedupRangeMap_size locs = DedupRangeMap_size (locations tree)"
  shows "same_structure tree (tree\<lparr>locations := locs\<rparr>)"
  using assms by (simp add: same_structure_def)

lemma access_structure:
  assumes "Tree_perform_access tree prov s n k g = Ok tree'" "s + n \<le> DedupRangeMap_size (locations tree)"
  shows "same_structure tree tree'"
proof -
  from assms(1) obtain f locs where l: "DedupRangeMap_for_each LocationTree_eq f (locations tree) s n () = (Ok (locs, ()) :: (TbError, _) outcome)"
    "tree' = tree\<lparr>locations := locs\<rparr>"
    by (auto simp: Tree_perform_access_def obind_eq_Ok)
  show ?thesis unfolding l(2) by (rule same_structure_locations) (use tb_map.each_inv [OF _ assms(2) l(1)] in auto)
qed

lemma dealloc_structure:
  assumes "Tree_dealloc tree prov s n g = Ok tree'" "s + n \<le> DedupRangeMap_size (locations tree)" "map_inv (locations tree)"
  shows "same_structure tree tree'"
proof -
  from assms(1) obtain f tree1 locs where l: "Tree_perform_access tree prov s n Write g = Ok tree1"
    "DedupRangeMap_for_each LocationTree_eq f (locations tree1) s n () = (Ok (locs, ()) :: (TbError, _) outcome)"
    "tree' = tree1\<lparr>locations := locs\<rparr>"
    by (auto simp: Tree_dealloc_def obind_eq_Ok)
  note a = access_structure [OF l(1) assms(2)]
  then have "s + n \<le> DedupRangeMap_size (locations tree1)" using assms(2,3) by (simp add: same_structure_def)
  then have "same_structure tree1 tree'"
    unfolding l(3) by (intro same_structure_locations) (use tb_map.each_inv [OF _ _ l(2)] in auto)
  with a show ?thesis by (rule same_structure_trans)
qed

lemma iter_all_structure:
  assumes "DedupRangeMap_iter_mut_all f (locations tree) s = Ok (locs, t)"
  shows "same_structure tree (tree\<lparr>locations := locs\<rparr>)"
  by (rule same_structure_locations) (use iter_mut_all_pointwise(1,2) [OF _ assms] in auto)

lemma protector_end_structure: "perform_protector_end_access tree tag g = Ok tree' \<Longrightarrow> same_structure tree tree'"
  by (auto simp: perform_protector_end_access_def obind_eq_Ok intro: iter_all_structure)

lemma release_structure: "update_exposure_for_protector_release tree tag = Ok tree' \<Longrightarrow> same_structure tree tree'"
  by (auto simp: update_exposure_for_protector_release_def obind_eq_Ok same_structure_refl split: if_splits intro: iter_all_structure)

lemma release_protector_structure: "release_protector tree g tag = Ok tree' \<Longrightarrow> same_structure tree tree'"
  by (auto simp: release_protector_def obind_eq_Ok intro: same_structure_trans protector_end_structure release_structure)

lemma node_update_structure:
  assumes "\<And>n. links (f n) = links n"
  shows "same_structure tree (tree\<lparr>nodes := UniValMap_get_mut f (nodes tree) i\<rparr>)"
  using assms by (auto simp: same_structure_def get_get_mut option.map_comp comp_def)

lemma expose_structure:
  assumes "Tree_expose_tag tree tag p = Ok tree'" shows "same_structure tree tree'"
proof -
  have "same_structure tree tree'" if "DedupRangeMap_iter_mut_all f (locations tree) () = Ok (locs, ())"
    "tree' = tree\<lparr>nodes := UniValMap_get_mut (\<lambda>n. n\<lparr>is_exposed := True\<rparr>) (nodes tree) i, locations := locs\<rparr>" for f locs i
  proof -
    let ?t = "tree\<lparr>nodes := UniValMap_get_mut (\<lambda>n. n\<lparr>is_exposed := True\<rparr>) (nodes tree) i\<rparr>"
    have "same_structure tree ?t" by (rule node_update_structure) (simp add: links_def)
    moreover have "same_structure ?t tree'" using iter_all_structure [of f ?t "()" locs "()"] that by simp
    ultimately show ?thesis by (rule same_structure_trans)
  qed
  with assms show ?thesis
    by (auto simp: Tree_expose_tag_def obind_eq_Ok Let_def same_structure_refl split: if_splits)
qed

lemma weaken_loop_step:
  assumes "weaken_loop (Suc fuel) i sa tree = (Ok tree' :: ('e, _) outcome)"
  obtains locs ch sifa where
    "DedupRangeMap_iter_mut_all (weaken_location i sa) (locations tree) False = (Ok (locs, ch) :: ('e, _) outcome)"
    "let t = tree\<lparr>locations := locs, nodes := UniValMap_get_mut (\<lambda>n. n\<lparr>default_initial_idempotent_foreign_access := sifa\<rparr>) (nodes tree) i\<rparr>
     in tree' = t \<or> (\<exists>j. weaken_loop fuel j sa t = (Ok tree' :: ('e, _) outcome))"
proof -
  from assms obtain n locs ch where n: "get_node (nodes tree) i = (Ok n :: ('e, _) outcome)"
    and l: "DedupRangeMap_iter_mut_all (weaken_location i sa) (locations tree) False = (Ok (locs, ch) :: ('e, _) outcome)"
    by (auto simp: obind_eq_Ok)
  obtain sifa b where e: "ensure_no_stronger_than (default_initial_idempotent_foreign_access n) sa = (sifa, b)" by fastforce
  let ?t = "tree\<lparr>locations := locs, nodes := UniValMap_get_mut (\<lambda>n. n\<lparr>default_initial_idempotent_foreign_access := sifa\<rparr>) (nodes tree) i\<rparr>"
  from assms n l e have "(if ch \<or> b then case node_parent n of None \<Rightarrow> Ok ?t | Some j \<Rightarrow> weaken_loop fuel j sa ?t else Ok ?t) = (Ok tree' :: ('e, _) outcome)"
    by (simp add: Let_def split del: if_split)
  then have "tree' = ?t \<or> (\<exists>j. weaken_loop fuel j sa ?t = (Ok tree' :: ('e, _) outcome))" by (auto split: if_splits option.splits)
  with l that show thesis unfolding Let_def by blast
qed

lemma weaken_loop_structure:
  "weaken_loop fuel i sa tree = (Ok tree' :: ('e, _) outcome) \<Longrightarrow> same_structure tree tree'"
proof (induction fuel arbitrary: i tree)
  case (Suc fuel)
  from weaken_loop_step [OF Suc.prems] obtain locs ch sifa where
    l: "DedupRangeMap_iter_mut_all (weaken_location i sa) (locations tree) False = (Ok (locs, ch) :: ('e, _) outcome)"
    "let t = tree\<lparr>locations := locs, nodes := UniValMap_get_mut (\<lambda>n. n\<lparr>default_initial_idempotent_foreign_access := sifa\<rparr>) (nodes tree) i\<rparr>
     in tree' = t \<or> (\<exists>j. weaken_loop fuel j sa t = (Ok tree' :: ('e, _) outcome))" .
  let ?t = "tree\<lparr>locations := locs, nodes := UniValMap_get_mut (\<lambda>n. n\<lparr>default_initial_idempotent_foreign_access := sifa\<rparr>) (nodes tree) i\<rparr>"
  have "same_structure (tree\<lparr>locations := locs\<rparr>)
      (tree\<lparr>locations := locs, nodes := UniValMap_get_mut (\<lambda>n. n\<lparr>default_initial_idempotent_foreign_access := sifa\<rparr>)
        (nodes (tree\<lparr>locations := locs\<rparr>)) i\<rparr>)"
    by (rule node_update_structure) (simp add: links_def)
  with iter_all_structure [OF l(1)] have t: "same_structure tree ?t" by (auto intro: same_structure_trans)
  from l(2) have "tree' = ?t \<or> (\<exists>j. weaken_loop fuel j sa ?t = (Ok tree' :: ('e, _) outcome))" by (simp add: Let_def)
  with t Suc.IH show ?case by (blast intro: same_structure_trans)
qed simp

lemma insert_inside_perm_inv:
  assumes "insert_inside_perm base idx p ((a, b), perm) (m, locs) = Ok (m', locs')" "a \<le> b" "base + b \<le> DedupRangeMap_size locs"
    "map_inv locs"
  shows "map_inv locs' \<and> DedupRangeMap_size locs' = DedupRangeMap_size locs"
proof -
  from assms(1) obtain f where "DedupRangeMap_for_each LocationTree_eq f locs (a + base) (b - a) () = (Ok (locs', ()) :: ('a, _) outcome)"
    by (auto simp: insert_inside_perm_def Let_def obind_eq_Ok add_u64_def split: if_splits)
  with tb_map.each_inv [OF assms(4) _ this] assms(2,3) show ?thesis by simp
qed

lemma insert_inside_perms_inv:
  assumes "ofold (insert_inside_perm base idx p) xs (m, locs) = Ok (m', locs')"
    "\<And>a b perm. ((a, b), perm) \<in> set xs \<Longrightarrow> a \<le> b \<and> base + b \<le> DedupRangeMap_size locs" "map_inv locs"
  shows "map_inv locs' \<and> DedupRangeMap_size locs' = DedupRangeMap_size locs"
  using assms
proof (induction xs arbitrary: m locs)
  case (Cons x xs)
  obtain a b perm where x: "x = ((a, b), perm)" by (metis surj_pair)
  with Cons.prems(1) obtain m1 locs1 where s: "insert_inside_perm base idx p ((a, b), perm) (m, locs) = (Ok (m1, locs1) :: ('a, _) outcome)"
    "ofold (insert_inside_perm base idx p) xs (m1, locs1) = (Ok (m', locs') :: ('a, _) outcome)" by (auto simp: obind_eq_Ok)
  have "map_inv locs1 \<and> DedupRangeMap_size locs1 = DedupRangeMap_size locs"
    by (rule insert_inside_perm_inv [OF s(1) _ _ Cons.prems(3)]) (use Cons.prems(2) [of a b perm] x in auto)
  with Cons.IH [OF s(2)] Cons.prems(2) show ?case by (metis list.set_intros(2))
qed simp

section \<open>The bytes of a new borrow\<close>

text \<open>A state up to the record of foreign accesses, which a later retag may lower.\<close>

definition core :: "LocationState \<Rightarrow> bool \<times> Permission" where
  "core s = (accessed s, permission s)"

definition same_core :: "LocationTree \<Rightarrow> LocationTree \<Rightarrow> bool" where
  "same_core d d' \<longleftrightarrow> (\<forall>i. map_option core (UniValMap_get (perms d') i) = map_option core (UniValMap_get (perms d) i))"

lemma same_core_trans: "same_core a b \<Longrightarrow> same_core b c \<Longrightarrow> same_core a c"
  by (simp add: same_core_def)

lemma same_core_refl: "same_core a a"
  by (simp add: same_core_def)

lemma LocationTree_eq_core: "LocationTree_eq a b \<Longrightarrow> same_core a b"
  by (simp add: same_core_def LocationTree_eq_get(1))

lemma rel_core_trans:
  "rel_option same_core a b \<Longrightarrow> rel_option same_core b c \<Longrightarrow> rel_option same_core a c"
  by (cases a; cases b; cases c) (auto intro: same_core_trans)

lemma weaken_location_core:
  assumes "weaken_location i sa r d x = Ok (d', y)" shows "same_core d d'"
proof (cases "UniValMap_get (perms d) i")
  case None
  with assms show ?thesis by (simp add: weaken_location_def same_core_def)
next
  case (Some s)
  with assms obtain f where "d' = d\<lparr>perms := UniValMap_get_mut (\<lambda>p. p\<lparr>idempotent_foreign_access := f\<rparr>) (perms d) i\<rparr>"
    by (auto simp: weaken_location_def Let_def split: prod.splits)
  with Some show ?thesis by (simp add: same_core_def get_get_mut core_def)
qed

lemma weaken_loop_core:
  assumes "weaken_loop fuel i sa tree = (Ok tree' :: ('e, _) outcome)" "map_inv (locations tree)"
  shows "rel_option same_core (lookup (locations tree) b) (lookup (locations tree') b)"
  using assms
proof (induction fuel arbitrary: i tree)
  case (Suc fuel)
  from weaken_loop_step [OF Suc.prems(1)] obtain locs ch sifa where
    l: "DedupRangeMap_iter_mut_all (weaken_location i sa) (locations tree) False = (Ok (locs, ch) :: ('e, _) outcome)"
    "let t = tree\<lparr>locations := locs, nodes := UniValMap_get_mut (\<lambda>n. n\<lparr>default_initial_idempotent_foreign_access := sifa\<rparr>) (nodes tree) i\<rparr>
     in tree' = t \<or> (\<exists>j. weaken_loop fuel j sa t = (Ok tree' :: ('e, _) outcome))" .
  let ?t = "tree\<lparr>locations := locs, nodes := UniValMap_get_mut (\<lambda>n. n\<lparr>default_initial_idempotent_foreign_access := sifa\<rparr>) (nodes tree) i\<rparr>"
  have s: "rel_option same_core (lookup (locations tree) b) (lookup locs b)"
  proof (cases "lookup (locations tree) b")
    case None
    with iter_mut_all_pointwise(4) [OF Suc.prems(2) l(1)] show ?thesis by simp
  next
    case (Some d)
    with iter_mut_all_pointwise(5) [OF Suc.prems(2) l(1)] obtain r x d' y where
      "weaken_location i sa r d x = (Ok (d', y) :: ('e, _) outcome)" "lookup locs b = Some d'" by blast
    with Some weaken_location_core show ?thesis by simp
  qed
  from l(2) consider "tree' = ?t" | j where "weaken_loop fuel j sa ?t = (Ok tree' :: ('e, _) outcome)" unfolding Let_def by blast
  then show ?case
  proof cases
    case 2
    have "map_inv (locations ?t)" using iter_mut_all_pointwise(1) [OF Suc.prems(2) l(1)] by simp
    from Suc.IH [OF 2 this] have "rel_option same_core (lookup locs b) (lookup (locations tree') b)" by simp
    with s show ?thesis by (rule rel_core_trans)
  qed (use s in simp)
qed simp

lemma insert_inside_perms_bytes:
  assumes "ofold (insert_inside_perm base idx p) (map (\<lambda>e. ((range_start e, range_end e), data e)) v) (m, locs) = Ok (m', locs')"
    "contiguous s v" "base + chain_end s v \<le> DedupRangeMap_size locs" "map_inv locs"
  shows "base + s \<le> b \<Longrightarrow> lookup v (b - base) = Some st \<Longrightarrow> \<exists>d d'. lookup locs b = Some d \<and> lookup locs' b = Some d' \<and>
      UniValMap_get (perms d') idx = Some st \<and> (\<forall>i. i \<noteq> idx \<longrightarrow> UniValMap_get (perms d') i = UniValMap_get (perms d) i)"
    "b < base + s \<or> lookup v (b - base) = None \<Longrightarrow> rel_option LocationTree_eq (lookup locs b) (lookup locs' b)"
proof -
  have "(base + s \<le> b \<longrightarrow> lookup v (b - base) = Some st \<longrightarrow> (\<exists>d d'. lookup locs b = Some d \<and> lookup locs' b = Some d' \<and>
      UniValMap_get (perms d') idx = Some st \<and> (\<forall>i. i \<noteq> idx \<longrightarrow> UniValMap_get (perms d') i = UniValMap_get (perms d) i))) \<and>
    (b < base + s \<or> lookup v (b - base) = None \<longrightarrow> rel_option LocationTree_eq (lookup locs b) (lookup locs' b))"
    using assms
  proof (induction v arbitrary: s m locs)
    case Nil
    then show ?case by (simp add: option.rel_refl equivp_reflp [OF LocationTree_eq_equivp])
  next
    case (Cons e v)
    let ?f = "\<lambda>e. ((range_start e, range_end e), data e)"
    from Cons.prems(1) obtain m1 locs1 where s1: "insert_inside_perm base idx p (?f e) (m, locs) = (Ok (m1, locs1) :: ('a, _) outcome)"
      "ofold (insert_inside_perm base idx p) (map ?f v) (m1, locs1) = (Ok (m', locs') :: ('a, _) outcome)" by (auto simp: obind_eq_Ok)
    have e: "range_start e = s" "s < range_end e" "contiguous (range_end e) v" using Cons.prems(2) by simp_all
    have ce: "range_end e \<le> chain_end (range_end e) v" by (rule chain_end_ge [OF e(3)])
    from s1(1) e have each: "DedupRangeMap_for_each LocationTree_eq (\<lambda>_ loc u. Ok (loc\<lparr>perms := UniValMap_insert (perms loc) idx (data e)\<rparr>, u))
        locs (s + base) (range_end e - s) () = (Ok (locs1, ()) :: ('a, _) outcome)"
      by (auto simp: insert_inside_perm_def Let_def obind_eq_Ok add_u64_def split: if_splits)
    have len: "s + base + (range_end e - s) \<le> DedupRangeMap_size locs" using Cons.prems(3) e ce by simp
    note inv1 = tb_map.each_inv [OF Cons.prems(4) len each]
    have IH: "(base + range_end e \<le> b \<longrightarrow> lookup v (b - base) = Some st \<longrightarrow> (\<exists>d d'. lookup locs1 b = Some d \<and> lookup locs' b = Some d' \<and>
        UniValMap_get (perms d') idx = Some st \<and> (\<forall>i. i \<noteq> idx \<longrightarrow> UniValMap_get (perms d') i = UniValMap_get (perms d) i))) \<and>
      (b < base + range_end e \<or> lookup v (b - base) = None \<longrightarrow> rel_option LocationTree_eq (lookup locs1 b) (lookup locs' b))"
      using Cons.IH [OF s1(2) e(3)] inv1 Cons.prems(3) by simp
    show ?case
    proof (cases "base + s \<le> b \<and> b < base + range_end e")
      case True
      then have l: "lookup (e # v) (b - base) = Some (data e)" using e by (auto simp: covers_def)
      from tb_map.each_inside [OF Cons.prems(4) len each, of b] True e obtain d0 d where
        d: "lookup locs b = Some d0" "LocationTree_eq d0 d" "lookup locs1 b = Some (d\<lparr>perms := UniValMap_insert (perms d) idx (data e)\<rparr>)"
        by auto
      with IH True obtain d' where d': "lookup locs' b = Some d'" "LocationTree_eq (d\<lparr>perms := UniValMap_insert (perms d) idx (data e)\<rparr>) d'"
        by (auto simp: option_rel_Some1)
      have "UniValMap_get (perms d') i = (if i = idx then Some (data e) else UniValMap_get (perms d0) i)" for i
        using LocationTree_eq_get(1) [OF d'(2), of i] LocationTree_eq_get(1) [OF d(2), of i] by (auto simp: get_insert split: if_splits)
      with d(1) d'(1) l True show ?thesis by auto
    next
      case False
      have out: "rel_option LocationTree_eq (lookup locs b) (lookup locs1 b)"
        by (rule tb_map.each_outside [OF Cons.prems(4) len each]) (use False e in linarith)
      have l: "base + s \<le> b \<Longrightarrow> lookup (e # v) (b - base) = lookup v (b - base) \<and> base + range_end e \<le> b"
        using False e by (auto simp: covers_def)
      show ?thesis
      proof (intro conjI impI)
        assume a: "base + s \<le> b" "lookup (e # v) (b - base) = Some st"
        with IH l obtain d d' where d: "lookup locs1 b = Some d" "lookup locs' b = Some d'" "UniValMap_get (perms d') idx = Some st"
          "\<forall>i. i \<noteq> idx \<longrightarrow> UniValMap_get (perms d') i = UniValMap_get (perms d) i" by auto
        from out d(1) obtain d0 where "lookup locs b = Some d0" "LocationTree_eq d0 d" by (auto simp: option_rel_Some2)
        with d LocationTree_eq_get(1) show "\<exists>d d'. lookup locs b = Some d \<and> lookup locs' b = Some d' \<and>
            UniValMap_get (perms d') idx = Some st \<and> (\<forall>i. i \<noteq> idx \<longrightarrow> UniValMap_get (perms d') i = UniValMap_get (perms d) i)" by metis
      next
        assume "b < base + s \<or> lookup (e # v) (b - base) = None"
        with IH l e have "rel_option LocationTree_eq (lookup locs1 b) (lookup locs' b)" by (metis add_less_cancel_left leI less_trans)
        with out show "rel_option LocationTree_eq (lookup locs b) (lookup locs' b)"
          using equivp_transp [OF LocationTree_eq_equivp] by (auto elim!: option.rel_cases)
      qed
    qed
  qed
  then show "base + s \<le> b \<Longrightarrow> lookup v (b - base) = Some st \<Longrightarrow> \<exists>d d'. lookup locs b = Some d \<and> lookup locs' b = Some d' \<and>
      UniValMap_get (perms d') idx = Some st \<and> (\<forall>i. i \<noteq> idx \<longrightarrow> UniValMap_get (perms d') i = UniValMap_get (perms d) i)"
    "b < base + s \<or> lookup v (b - base) = None \<Longrightarrow> rel_option LocationTree_eq (lookup locs b) (lookup locs' b)" by blast+
qed

text \<open>A retag adds one leaf, below the node of the parent, or as a new tree for a wildcard pointer.\<close>

lemma new_child_shape:
  assumes sh: "tree_shape tree Ts" and inside: "map_inv inside" "base + DedupRangeMap_size inside \<le> DedupRangeMap_size (locations tree)"
    and c: "Tree_new_child tree base prov new_tag inside outp p = Ok tree'" and other: "prov \<noteq> Concrete new_tag"
  obtains idx where
    "\<And>b s. base \<le> b \<Longrightarrow> lookup inside (b - base) = Some s \<Longrightarrow> \<exists>d d'. lookup (locations tree) b = Some d \<and> lookup (locations tree') b = Some d' \<and>
      map_option core (UniValMap_get (perms d') idx) = Some (core s) \<and>
      (\<forall>i. i \<noteq> idx \<longrightarrow> map_option core (UniValMap_get (perms d') i) = map_option core (UniValMap_get (perms d) i))"
    "\<And>b. b < base \<or> lookup inside (b - base) = None \<Longrightarrow> rel_option same_core (lookup (locations tree) b) (lookup (locations tree') b)"
    "UniKeyMap_get (tag_mapping tree) new_tag = None" "idx \<notin> ran (UniKeyMap_get (tag_mapping tree))"
    "UniKeyMap_get (tag_mapping tree') = (UniKeyMap_get (tag_mapping tree))(new_tag \<mapsto> idx)"
    "DedupRangeMap_size (locations tree') = DedupRangeMap_size (locations tree)"
    "tree_shape tree' (case prov of Concrete t \<Rightarrow> map (graft (the (UniKeyMap_get (tag_mapping tree) t)) idx) Ts | Wildcard \<Rightarrow> Ts @ [RT idx []])"
proof -
  from c obtain km idx where km: "UniKeyMap_insert (tag_mapping tree) new_tag = (Ok (km, idx) :: ('a, _) outcome)"
    by (auto simp: Tree_new_child_def obind_eq_Ok)
  obtain parent where par: "(case prov of Concrete t \<Rightarrow> obind (unwrap (UniKeyMap_get km t)) (\<lambda>p. Ok (Some p)) | Wildcard \<Rightarrow> Ok None) = (Ok parent :: ('a, _) outcome)"
    using c km by (auto simp: Tree_new_child_def obind_eq_Ok)
  obtain sifa where sifa: "strongest_idempotent_foreign_access outp p = (Ok sifa :: ('a, _) outcome)"
    using c km par by (auto simp: Tree_new_child_def obind_eq_Ok split: if_splits)
  let ?leaf = " \<lparr>node_tag = new_tag, node_parent = parent, node_children = [], default_initial_perm = outp,
    default_initial_idempotent_foreign_access = sifa, is_exposed = False\<rparr>"
  let ?ns = "UniValMap_insert (nodes tree) idx ?leaf"
  obtain ns rs where ns: "(case parent of
              Some parent \<Rightarrow>
                obind (get_node ?ns parent) (\<lambda>_.
                Ok (UniValMap_get_mut (\<lambda>n. n\<lparr>node_children := node_children n @ [idx]\<rparr>) ?ns parent, roots tree))
            | None \<Rightarrow> Ok (?ns, roots tree @ [idx])) = (Ok (ns, rs) :: ('a, _) outcome)"
    using c km par sifa by (auto simp: Tree_new_child_def obind_eq_Ok Let_def split: if_splits)
  obtain xs m locs where xs: "DedupRangeMap_iter inside 0 (DedupRangeMap_size inside) = (Ok xs :: ('a, _) outcome)"
    and locs: "ofold (insert_inside_perm base idx p) xs (sifa, locations tree) = (Ok (m, locs) :: ('a, _) outcome)"
    using c km par sifa ns by (auto simp: Tree_new_child_def obind_eq_Ok Let_def split: if_splits)
  let ?t = "\<lparr>tag_mapping = km, nodes = ns, locations = locs, roots = rs\<rparr>"
  have fin: "(case parent of Some parent \<Rightarrow> update_idempotent_foreign_access_after_retag ?t parent m | None \<Rightarrow> Ok ?t) = (Ok tree' :: ('a, _) outcome)"
    using c km par sifa ns xs locs by (auto simp: Tree_new_child_def Let_def split: if_splits)
  have "same_structure ?t tree'"
    using fin weaken_loop_structure [where 'e = 'a] same_structure_refl
    by (auto simp: update_idempotent_foreign_access_after_retag_def split: option.splits if_splits)
  note fin_shape = same_structure_shape [OF _ this]
  have shp: "forest_ok (nodes tree) (roots tree) Ts" "virtual_inv (tag_mapping tree) (nodes tree)" "map_inv (locations tree)"
    "(\<Union>T\<in>set Ts. set (rt_nodes T)) = ran (UniKeyMap_get (tag_mapping tree))"
    "\<And>tag i. UniKeyMap_get (tag_mapping tree) tag = Some i \<Longrightarrow> map_option node_tag (UniValMap_get (nodes tree) i) = Some tag"
    using sh by (simp_all add: tree_shape_def)
  have kinv: "key_inv (tag_mapping tree)" using shp(2) by (simp add: virtual_inv_def)
  note fresh = key_insert_fresh [OF kinv km] and get' = key_get_insert [OF km]
  have new: "UniKeyMap_get (tag_mapping tree) new_tag = None"
    using key_insert_result(1) [OF km] by (simp add: UniKeyMap_get_def)
  have vi: "virtual_inv km ?ns" by (rule virtual_insert(1) [OF shp(2) km])
  have "map_inv locs \<and> DedupRangeMap_size locs = DedupRangeMap_size (locations tree)"
    by (rule insert_inside_perms_inv [OF locs _ shp(3)]) (use iter_elements(1,2) [OF inside(1) xs] inside(2) in fastforce)
  note l = this
  have core: "rel_option same_core (lookup locs b) (lookup (locations tree') b)" for b
    using fin weaken_loop_core [where 'e = 'a, of _ _ _ ?t tree' b] l same_core_refl
    by (auto simp: update_idempotent_foreign_access_after_retag_def option.rel_refl split: option.splits if_splits)
  have xs_all: "xs = map (\<lambda>e. ((range_start e, range_end e), data e)) inside" by (rule iter_whole [OF inside(1) xs])
  have ci: "contiguous 0 inside" "base + chain_end 0 inside \<le> DedupRangeMap_size (locations tree)"
    using inside by (simp_all add: map_inv_def size_chain_end)
  note ib = insert_inside_perms_bytes [OF locs [unfolded xs_all] ci shp(3)]
  have b1: "\<exists>d d'. lookup (locations tree) b = Some d \<and> lookup (locations tree') b = Some d' \<and>
      map_option core (UniValMap_get (perms d') idx) = Some (core s) \<and>
      (\<forall>i. i \<noteq> idx \<longrightarrow> map_option core (UniValMap_get (perms d') i) = map_option core (UniValMap_get (perms d) i))"
    if a: "base \<le> b" "lookup inside (b - base) = Some s" for b s
  proof -
    from ib(1) [of b s] a obtain d d1 where d: "lookup (locations tree) b = Some d" "lookup locs b = Some d1" "UniValMap_get (perms d1) idx = Some s"
      "\<forall>i. i \<noteq> idx \<longrightarrow> UniValMap_get (perms d1) i = UniValMap_get (perms d) i" by auto
    from core [of b] d(2) obtain d' where d': "lookup (locations tree') b = Some d'" "same_core d1 d'" by (auto simp: option_rel_Some1)
    have "map_option core (UniValMap_get (perms d') i) = map_option core (UniValMap_get (perms d1) i)" for i
      using d'(2) by (simp add: same_core_def)
    from this [of idx] this d d'(1) show ?thesis by (metis option.map(2))
  qed
  have b2: "rel_option same_core (lookup (locations tree) b) (lookup (locations tree') b)" if "b < base \<or> lookup inside (b - base) = None" for b
    using rel_core_trans [OF option.rel_mono_strong [OF ib(2) [of b]] core] that LocationTree_eq_core by auto
  have c_out: "idx \<notin> set (rt_nodes T)" if "T \<in> set Ts" for T using fresh shp(4) that by blast
  have tags: "map_option node_tag (UniValMap_get ns i) = Some tag" if "UniKeyMap_get km tag = Some i"
    "\<And>i. map_option node_tag (UniValMap_get ns i) = map_option node_tag (UniValMap_get ?ns i)" for tag i
    using that shp(5) fresh by (auto simp: get' get_insert ranI split: if_splits)
  show thesis
  proof (cases prov)
    case Wildcard
    with par ns have e: "ns = ?ns" "rs = roots tree @ [idx]" "parent = None" by auto
    have "represents_root ns T" if T: "T \<in> set Ts" for T
      using T shp(1) c_out [OF T] by (intro represents_frame(2) [of T ns "nodes tree"]) (auto simp: e get_insert forest_ok_def)
    moreover have "represents_root ns (RT idx [])" by (simp add: represents_root_def e get_insert)
    ultimately have "forest_ok ns rs (Ts @ [RT idx []])"
      using shp(1) c_out by (auto simp: forest_ok_def e(2))
    then have "tree_shape ?t (Ts @ [RT idx []])"
      using vi l tags shp(4) new by (auto simp: tree_shape_def e(1) get' ran_map_upd)
    with fin_shape l new fresh get' Wildcard \<open>same_structure ?t tree'\<close> show thesis
      by (intro that [OF b1 b2]) (simp_all add: same_structure_def)
  next
    case (Concrete t)
    with par obtain q where q: "parent = Some q" "UniKeyMap_get km t = Some q" by (auto simp: obind_eq_Ok)
    with Concrete other have q': "UniKeyMap_get (tag_mapping tree) t = Some q" by (simp add: get')
    then have "q \<noteq> idx" using fresh by (auto simp: ranI)
    from ns q have e: "ns = UniValMap_get_mut (\<lambda>n. n\<lparr>node_children := node_children n @ [idx]\<rparr>) ?ns q" "rs = roots tree"
      by (auto simp: obind_eq_Ok)
    have "represents_root ns (graft q idx T)" if T: "T \<in> set Ts" for T
    proof (rule represents_root_graft [OF _ c_out [OF T], of "nodes tree"])
      show "represents_root (nodes tree) T" using T shp(1) by (simp add: forest_ok_def)
      show "UniValMap_get ns idx = Some ?leaf" using \<open>q \<noteq> idx\<close> by (simp add: e get_get_mut get_insert)
      show "UniValMap_get ns i = map_option (\<lambda>n. if i = q then n\<lparr>node_children := node_children n @ [idx]\<rparr> else n) (UniValMap_get (nodes tree) i)"
        if "i \<in> set (rt_nodes T)" for i using that c_out [OF T] by (auto simp: e get_get_mut get_insert option.map_ident)
    qed (use q in simp_all)
    moreover have "distinct (concat (map rt_nodes (map (graft q idx) Ts)))"
      using shp(1) c_out by (intro distinct_graft_forest) (auto simp: forest_ok_def)
    moreover have "map rt_idx (map (graft q idx) Ts) = map rt_idx Ts" by simp
    ultimately have f: "forest_ok ns rs (map (graft q idx) Ts)" using shp(1) by (simp add: forest_ok_def e(2) del: map_map)
    have "virtual_inv km ns" using vi by (simp add: virtual_inv_def e get_get_mut)
    moreover have "(\<Union>T\<in>set (map (graft q idx) Ts). set (rt_nodes T)) = ran (UniKeyMap_get km)"
    proof -
      have "q \<in> (\<Union>T\<in>set Ts. set (rt_nodes T))" using shp(4) q' by (simp add: ranI)
      then have "(\<Union>T\<in>set Ts. set (rt_nodes (graft q idx T))) = insert idx (\<Union>T\<in>set Ts. set (rt_nodes T))"
        by (auto simp: set_graft split: if_splits)
      then show ?thesis using shp(4) by (simp add: get' ran_map_upd new)
    qed
    moreover have "map_option node_tag (UniValMap_get ns i) = map_option node_tag (UniValMap_get ?ns i)" for i
      by (simp add: e get_get_mut option.map_comp comp_def)
    ultimately have "tree_shape ?t (map (graft q idx) Ts)" using f l tags by (simp add: tree_shape_def)
    with fin_shape l new fresh get' Concrete q' \<open>same_structure ?t tree'\<close> show thesis
      by (intro that [OF b1 b2]) (simp_all add: same_structure_def)
  qed
qed

lemma new_shape:
  assumes "Tree_new tag sz = (Ok tree :: ('e, _) outcome)" "sz < 2 ^ 64"
  shows "tree_shape tree [RT 0 []]" "DedupRangeMap_size (locations tree) = sz" "UniKeyMap_get (tag_mapping tree) = [tag \<mapsto> 0]"
proof -
  from assms(1) obtain km idx where km: "UniKeyMap_insert UniKeyMap_default tag = (Ok (km, idx) :: ('e, _) outcome)"
    by (auto simp: Tree_new_def obind_eq_Ok)
  then have "km = \<lparr>mapping = [(tag, 0)], deassigned = []\<rparr>" "idx = 0"
    by (auto simp: UniKeyMap_insert_def UniKeyMap_default_def UniKeyMap_len_def obind_eq_Ok Let_def split: if_splits)
  with assms km show "tree_shape tree [RT 0 []]" "DedupRangeMap_size (locations tree) = sz" "UniKeyMap_get (tag_mapping tree) = [tag \<mapsto> 0]"
    by (auto simp: Tree_new_def Let_def tree_shape_def forest_ok_def represents_root_def virtual_inv_def key_inv_def
        UniKeyMap_get_def [abs_def] get_insert map_inv_def DedupRangeMap_new_def DedupRangeMap_size_def
        split: if_splits)
qed

section \<open>Garbage collection\<close>

definition tags_ok :: "Tree \<Rightarrow> bool" where
  "tags_ok tree \<longleftrightarrow> virtual_inv (tag_mapping tree) (nodes tree) \<and> map_inv (locations tree) \<and>
     (\<forall>tag i. UniKeyMap_get (tag_mapping tree) tag = Some i \<longrightarrow> map_option node_tag (UniValMap_get (nodes tree) i) = Some tag)"

text \<open>What the collection may do to a tree: nodes only disappear, never one with a live tag, and the states
  of the remaining nodes stay as they are.\<close>

definition node_gc :: "(BorTag \<Rightarrow> bool) \<Rightarrow> Node option \<Rightarrow> Node option \<Rightarrow> bool" where
  "node_gc live a b \<longleftrightarrow> (case b of
       None \<Rightarrow> (\<forall>n. a = Some n \<longrightarrow> \<not> live (node_tag n))
     | Some n' \<Rightarrow> map_option node_tag a = Some (node_tag n'))"

lemma node_gc_trans: "node_gc live a b \<Longrightarrow> node_gc live b c \<Longrightarrow> node_gc live a c"
  by (cases a; cases b; cases c) (auto simp: node_gc_def)

lemma node_gc_refl: "node_gc live a a"
  by (cases a) (auto simp: node_gc_def)

definition gc_rel :: "(BorTag \<Rightarrow> bool) \<Rightarrow> Tree \<Rightarrow> Tree \<Rightarrow> bool" where
  "gc_rel live tree tree' \<longleftrightarrow> roots tree' = roots tree \<and>
     (\<forall>i. node_gc live (UniValMap_get (nodes tree) i) (UniValMap_get (nodes tree') i)) \<and>
     DedupRangeMap_size (locations tree') = DedupRangeMap_size (locations tree) \<and>
     (\<forall>b loc'. lookup (locations tree') b = Some loc' \<longrightarrow> (\<exists>loc. lookup (locations tree) b = Some loc \<and>
        (\<forall>i. UniValMap_get (nodes tree') i \<noteq> None \<longrightarrow> UniValMap_get (perms loc') i = UniValMap_get (perms loc) i)))"

lemma gc_rel_refl: "gc_rel live tree tree"
  by (auto simp: gc_rel_def node_gc_refl)

lemma gc_rel_node:
  assumes "gc_rel live a b" "UniValMap_get (nodes b) i \<noteq> None" shows "UniValMap_get (nodes a) i \<noteq> None"
proof -
  have "node_gc live (UniValMap_get (nodes a) i) (UniValMap_get (nodes b) i)" using assms(1) by (simp add: gc_rel_def)
  with assms(2) show ?thesis by (auto simp: node_gc_def)
qed

lemma gc_rel_trans:
  assumes "gc_rel live a b" "gc_rel live b c" shows "gc_rel live a c"
proof -
  have "node_gc live (UniValMap_get (nodes a) i) (UniValMap_get (nodes c) i)" for i
    using assms unfolding gc_rel_def by (blast intro: node_gc_trans)
  moreover have "\<exists>loc. lookup (locations a) k = Some loc \<and>
        (\<forall>i. UniValMap_get (nodes c) i \<noteq> None \<longrightarrow> UniValMap_get (perms loc') i = UniValMap_get (perms loc) i)"
    if "lookup (locations c) k = Some loc'" for k loc'
  proof -
    have bc: "UniValMap_get (nodes b) i \<noteq> None" if "UniValMap_get (nodes c) i \<noteq> None" for i
      by (rule gc_rel_node [OF assms(2) that])
    from assms(2) that obtain loc1 where l1: "lookup (locations b) k = Some loc1"
      "\<forall>i. UniValMap_get (nodes c) i \<noteq> None \<longrightarrow> UniValMap_get (perms loc') i = UniValMap_get (perms loc1) i"
      unfolding gc_rel_def by blast
    from assms(1) l1(1) obtain loc where "lookup (locations a) k = Some loc"
      "\<forall>i. UniValMap_get (nodes b) i \<noteq> None \<longrightarrow> UniValMap_get (perms loc1) i = UniValMap_get (perms loc) i"
      unfolding gc_rel_def by blast
    with l1(2) bc show ?thesis by auto
  qed
  ultimately show ?thesis using assms by (simp add: gc_rel_def)
qed

lemma remove_node_Ok:
  assumes n: "UniValMap_get (nodes tree) i = Some n" and ok: "tags_ok tree" and dead: "\<not> live (node_tag n)"
  obtains tree' where "remove_useless_node tree i = Ok tree'" "gc_rel live tree tree'" "tags_ok tree'"
    "\<And>j. UniValMap_get (nodes tree') j = (if j = i then None else UniValMap_get (nodes tree) j)"
proof -
  let ?h = "\<lambda>loc. \<lparr>perms = fst (UniValMap_remove (perms loc) i), exposed_cache = ExposedCache_remove (exposed_cache loc) i\<rparr>"
  let ?locs = "map (\<lambda>e. e\<lparr>data := ?h (data e)\<rparr>) (locations tree)"
  let ?tree = "tree\<lparr>nodes := fst (UniValMap_remove (nodes tree) i), locations := ?locs,
    tag_mapping := UniKeyMap_remove (tag_mapping tree) (node_tag n)\<rparr>"
  obtain ns where "UniValMap_remove (nodes tree) i = (ns, Some n)" using n by (metis prod.collapse remove_result)
  then have run: "remove_useless_node tree i = (Ok ?tree :: ('a, _) outcome)"
    by (simp add: remove_useless_node_def iter_mut_all_pure)
  have key: "UniKeyMap_get (tag_mapping tree) (node_tag n) = Some i"
  proof -
    from ok n have "i \<in> ran (UniKeyMap_get (tag_mapping tree))" by (simp add: tags_ok_def virtual_inv_def)
    then obtain t where t: "UniKeyMap_get (tag_mapping tree) t = Some i" by (auto simp: ran_def)
    with ok n have "t = node_tag n" unfolding tags_ok_def by (metis option.inject option.simps(9))
    with t show ?thesis by simp
  qed
  have inv: "key_inv (tag_mapping tree)" using ok by (simp add: tags_ok_def virtual_inv_def)
  have range: "same_ranges (locations tree) ?locs" by (simp add: same_ranges_def list_all2_map2 list_all2_same)
  have m: "map_inv ?locs" "DedupRangeMap_size ?locs = DedupRangeMap_size (locations tree)"
    using ok same_ranges_contiguous [OF range, of 0] by (simp_all add: tags_ok_def map_inv_def size_chain_end)
  show thesis
  proof (rule that [OF run])
    show nodes': "UniValMap_get (nodes ?tree) j = (if j = i then None else UniValMap_get (nodes tree) j)" for j
      by (simp add: get_remove)
    have lk: "lookup ?locs k = map_option ?h (lookup (locations tree) k)" for k by (rule lookup_map_data)
    show "gc_rel live tree ?tree"
      using m(2) n dead by (auto simp: gc_rel_def node_gc_refl get_remove lk) (simp add: node_gc_def)
    have "virtual_inv (tag_mapping ?tree) (nodes ?tree)"
      using virtual_remove(1) [OF _ key, of "nodes tree"] ok by (simp add: tags_ok_def)
    moreover have "map_option node_tag (UniValMap_get (nodes ?tree) j) = Some tag" if "UniKeyMap_get (tag_mapping ?tree) tag = Some j" for tag j
    proof -
      from that have t: "tag \<noteq> node_tag n" "UniKeyMap_get (tag_mapping tree) tag = Some j" by (auto simp: key_get_remove split: if_splits)
      then have "j \<noteq> i" using key_get_inj [OF inv key] by metis
      with t ok show ?thesis by (simp add: get_remove tags_ok_def)
    qed
    ultimately show "tags_ok ?tree" using m(1) by (simp add: tags_ok_def)
  qed
qed

text \<open>Changing parents and children keeps the tags.\<close>

lemma links_update:
  assumes "\<And>n. node_tag (f n) = node_tag n"
  shows "gc_rel live tree (tree\<lparr>nodes := UniValMap_get_mut f (nodes tree) i\<rparr>)"
    "tags_ok tree \<Longrightarrow> tags_ok (tree\<lparr>nodes := UniValMap_get_mut f (nodes tree) i\<rparr>)"
proof -
  let ?ns = "UniValMap_get_mut f (nodes tree) i"
  have eq: "map_option node_tag (UniValMap_get ?ns j) = map_option node_tag (UniValMap_get (nodes tree) j)"
    "UniValMap_get ?ns j = None \<longleftrightarrow> UniValMap_get (nodes tree) j = None" for j
    using assms by (simp_all add: get_get_mut option.map_comp comp_def)
  have "node_gc live (UniValMap_get (nodes tree) j) (UniValMap_get ?ns j)" for j
    using eq [of j] by (cases "UniValMap_get ?ns j") (auto simp: node_gc_def)
  then show "gc_rel live tree (tree\<lparr>nodes := ?ns\<rparr>)" by (auto simp: gc_rel_def)
  show "tags_ok tree \<Longrightarrow> tags_ok (tree\<lparr>nodes := ?ns\<rparr>)" by (simp add: tags_ok_def virtual_inv_def eq)
qed

text \<open>The collection of a list of subtrees: \<open>ts\<close> becomes \<open>ts'\<close>.\<close>

abbreviation forest_nodes :: "rtree list \<Rightarrow> UniIndex list" where
  "forest_nodes ts \<equiv> concat (map rt_nodes ts)"

definition forest_gc :: "(BorTag \<Rightarrow> bool) \<Rightarrow> Tree \<Rightarrow> rtree list \<Rightarrow> Tree \<Rightarrow> rtree list \<Rightarrow> bool" where
  "forest_gc live tree ts tree' ts' \<longleftrightarrow> gc_rel live tree tree' \<and> tags_ok tree' \<and>
     (\<forall>t\<in>set ts'. represents (nodes tree') t) \<and> distinct (forest_nodes ts') \<and> set (forest_nodes ts') \<subseteq> set (forest_nodes ts) \<and>
     (\<forall>i. i \<notin> set (forest_nodes ts) \<longrightarrow> UniValMap_get (nodes tree') i = UniValMap_get (nodes tree) i) \<and>
     (\<forall>i. i \<in> set (forest_nodes ts) - set (forest_nodes ts') \<longrightarrow> UniValMap_get (nodes tree') i = None)"

lemma forest_gc_refl:
  "tags_ok tree \<Longrightarrow> \<forall>t\<in>set ts. represents (nodes tree) t \<Longrightarrow> distinct (forest_nodes ts) \<Longrightarrow> forest_gc live tree ts tree ts"
  by (auto simp: forest_gc_def gc_rel_refl)

lemma forest_gc_gone:
  "forest_gc live tree ts tree' ts' \<Longrightarrow> i \<in> set (forest_nodes ts) \<Longrightarrow> i \<notin> set (forest_nodes ts') \<Longrightarrow> UniValMap_get (nodes tree') i = None"
  by (simp add: forest_gc_def)

lemma forest_gc_append:
  assumes a: "forest_gc live tree ts tree1 ts'" and b: "forest_gc live tree1 us tree2 us'"
    and d: "set (forest_nodes ts) \<inter> set (forest_nodes us) = {}"
  shows "forest_gc live tree (ts @ us) tree2 (ts' @ us')"
proof -
  have sub: "set (forest_nodes ts') \<subseteq> set (forest_nodes ts)" "set (forest_nodes us') \<subseteq> set (forest_nodes us)"
    using a b by (simp_all add: forest_gc_def)
  have frame: "UniValMap_get (nodes tree2) i = UniValMap_get (nodes tree1) i" if "i \<in> set (forest_nodes ts)" for i
    using b d that unfolding forest_gc_def by blast
  have "represents (nodes tree2) t" if t: "t \<in> set ts'" for t
  proof (rule represents_frame(1) [of t "nodes tree2" "nodes tree1"])
    show "represents (nodes tree1) t" using a t by (simp add: forest_gc_def)
    show "UniValMap_get (nodes tree2) i = UniValMap_get (nodes tree1) i" if "i \<in> set (rt_nodes t)" for i
      using t that sub(1) by (intro frame) auto
  qed
  moreover have "UniValMap_get (nodes tree2) i = None" if "i \<in> set (forest_nodes (ts @ us)) - set (forest_nodes (ts' @ us'))" for i
  proof (cases "i \<in> set (forest_nodes us)")
    case True
    with b that show ?thesis unfolding forest_gc_def by auto
  next
    case False
    with that frame a show ?thesis unfolding forest_gc_def by auto
  qed
  moreover have "UniValMap_get (nodes tree2) i = UniValMap_get (nodes tree) i" if "i \<notin> set (forest_nodes (ts @ us))" for i
    using a b that by (simp add: forest_gc_def)
  moreover have "distinct (forest_nodes (ts' @ us'))"
  proof -
    have "set (forest_nodes ts') \<inter> set (forest_nodes us') = {}" using sub d by blast
    with a b show ?thesis by (simp add: forest_gc_def del: set_concat)
  qed
  moreover have "gc_rel live tree tree2" "tags_ok tree2" "\<forall>t\<in>set us'. represents (nodes tree2) t"
    using a b gc_rel_trans [of live tree tree1 tree2] by (simp_all add: forest_gc_def)
  moreover have "set (forest_nodes (ts' @ us')) \<subseteq> set (forest_nodes (ts @ us))" using sub by auto
  ultimately show ?thesis unfolding forest_gc_def set_append by blast
qed

text \<open>One child: dropped, replaced by its only child, or kept.\<close>

lemma retain_child_gc:
  assumes ok: "tags_ok tree" and c: "represents (nodes tree) c" "distinct (rt_nodes c)"
    and par: "map_option node_parent (UniValMap_get (nodes tree) (rt_idx c)) = Some (Some p)"
  obtains tree' ts' where "retain_child p live (rt_idx c) (tree, kept) = Ok (tree', kept @ map rt_idx ts')"
    "forest_gc live tree [c] tree' ts'"
    "\<forall>t\<in>set ts'. map_option node_parent (UniValMap_get (nodes tree') (rt_idx t)) = Some (Some p)"
proof -
  obtain j cs where cj: "c = RT j cs" by (cases c)
  from c(1) cj obtain n where n: "UniValMap_get (nodes tree) j = Some n" "node_children n = map rt_idx cs"
    "\<forall>t\<in>set cs. represents (nodes tree) t" by (auto split: option.splits)
  have "\<exists>r. (can_be_replaced_by_single_child tree j live :: ('a, _) outcome) = Ok r \<and>
    (r \<noteq> None \<longrightarrow> (\<exists>d. cs = [d] \<and> r = Some (rt_idx d)) \<and> \<not> live (node_tag n))"
  proof (cases "\<exists>d. cs = [d]")
    case True
    then obtain d where d: "cs = [d]" by blast
    with n(3) obtain m where "UniValMap_get (nodes tree) (rt_idx d) = Some m" by (cases d) (auto split: option.splits)
    with n d show ?thesis
      by (auto simp: can_be_replaced_by_single_child_def get_node_def)
  next
    case False
    with n show ?thesis
      by (auto simp: can_be_replaced_by_single_child_def get_node_def split: list.splits)
  qed
  then obtain r where r: "can_be_replaced_by_single_child tree j live = (Ok r :: ('a, _) outcome)"
    "r \<noteq> None \<longrightarrow> (\<exists>d. cs = [d] \<and> r = Some (rt_idx d)) \<and> \<not> live (node_tag n)" by blast
  consider "cs = []" "\<not> live (node_tag n)" | "\<not> (cs = [] \<and> \<not> live (node_tag n))" "r = None"
    | d where "cs = [d]" "r = Some (rt_idx d)" "\<not> live (node_tag n)" using r(2) by (cases r) auto
  then show thesis
  proof cases
    case 1
    from remove_node_Ok [where live = live and 'a = 'a, OF n(1) ok 1(2)] obtain tree' where rm: "remove_useless_node tree j = (Ok tree' :: ('a, _) outcome)"
      "gc_rel live tree tree'" "tags_ok tree'"
      "\<And>i. UniValMap_get (nodes tree') i = (if i = j then None else UniValMap_get (nodes tree) i)" by blast
    show thesis
      by (rule that [of tree' "[]"]) (use 1 n rm in \<open>simp_all add: cj retain_child_def is_useless_def get_node_def forest_gc_def\<close>)
  next
    case 2
    show thesis
      by (rule that [of tree "[c]"])
        (use 2 n r(1) c ok par in \<open>auto simp: cj retain_child_def is_useless_def get_node_def intro!: forest_gc_refl\<close>)
  next
    case (3 d)
    from remove_node_Ok [where live = live and 'a = 'a, OF n(1) ok 3(3)] obtain tree1 where rm: "remove_useless_node tree j = (Ok tree1 :: ('a, _) outcome)"
      "gc_rel live tree tree1" "tags_ok tree1"
      "\<And>i. UniValMap_get (nodes tree1) i = (if i = j then None else UniValMap_get (nodes tree) i)" by blast
    let ?f = "\<lambda>n. n\<lparr>node_parent := Some p\<rparr>"
    let ?t = "tree1\<lparr>nodes := UniValMap_get_mut ?f (nodes tree1) (rt_idx d)\<rparr>"
    have dj: "j \<notin> set (rt_nodes d)" "distinct (rt_nodes d)" using c(2) 3 cj by auto
    have rd: "represents (nodes tree) d" using n(3) 3 by simp
    then obtain m where m: "UniValMap_get (nodes tree1) (rt_idx d) = Some m"
      using dj(1) rt_idx_in_nodes [of d] by (cases d) (auto simp: rm(4) split: option.splits)
    have l: "gc_rel live tree1 ?t" "tags_ok ?t" using links_update(1) [of ?f live tree1 "rt_idx d"] links_update(2) [of ?f tree1 "rt_idx d"] rm(3) by simp_all
    have "represents (nodes tree1) d" using rd dj by (intro represents_frame(1) [of d "nodes tree1" "nodes tree"]) (auto simp: rm(4))
    then have "represents (nodes ?t) d"
      by (rule represents_cong) (use dj(2) in \<open>cases d; auto simp: get_get_mut option.map_comp comp_def\<close>)+
    moreover have "gc_rel live tree ?t" using rm(2) l(1) by (rule gc_rel_trans)
    ultimately have "forest_gc live tree [c] ?t [d]"
      using l(2) dj 3 rt_idx_in_nodes [of d] by (auto simp: forest_gc_def cj get_get_mut rm(4))
    moreover have "map_option node_parent (UniValMap_get (nodes ?t) (rt_idx d)) = Some (Some p)"
      using m by (simp add: get_get_mut)
    ultimately show thesis
      by (intro that [of ?t "[d]"]) (use 3 n r(1) rm(1) m in \<open>auto simp: cj retain_child_def is_useless_def get_node_def\<close>)
  qed
qed

lemma retain_children_gc:
  assumes "tags_ok tree" "\<forall>c\<in>set cs. represents (nodes tree) c" "distinct (forest_nodes cs)"
    "\<forall>c\<in>set cs. map_option node_parent (UniValMap_get (nodes tree) (rt_idx c)) = Some (Some p)"
  obtains tree' ts' where "ofold (retain_child p live) (map rt_idx cs) (tree, kept) = Ok (tree', kept @ map rt_idx ts')"
    "forest_gc live tree cs tree' ts'"
    "\<forall>t\<in>set ts'. map_option node_parent (UniValMap_get (nodes tree') (rt_idx t)) = Some (Some p)"
  using assms
proof (induction cs arbitrary: tree kept thesis)
  case Nil
  then show ?case by (intro Nil.prems(1) [of tree "[]"]) (auto intro: forest_gc_refl)
next
  case (Cons c cs)
  from Cons.prems(2-5) obtain tree1 ts1 where
    s: "retain_child p live (rt_idx c) (tree, kept) = (Ok (tree1, kept @ map rt_idx ts1) :: ('a, _) outcome)"
      "forest_gc live tree [c] tree1 ts1"
      "\<forall>t\<in>set ts1. map_option node_parent (UniValMap_get (nodes tree1) (rt_idx t)) = Some (Some p)"
    by (auto intro: retain_child_gc [where 'a = 'a, of tree c p live kept])
  have d: "set (forest_nodes [c]) \<inter> set (forest_nodes cs) = {}" using Cons.prems(4) by (simp del: set_concat)
  then have frame: "UniValMap_get (nodes tree1) i = UniValMap_get (nodes tree) i" if "u \<in> set cs" "i \<in> set (rt_nodes u)" for i u
    using s(2) that unfolding forest_gc_def by fastforce
  have cs: "\<forall>u\<in>set cs. represents (nodes tree1) u"
    by (rule represents_forest_frame [OF frame]) (use Cons.prems(3) in simp_all)
  have par: "\<forall>u\<in>set cs. map_option node_parent (UniValMap_get (nodes tree1) (rt_idx u)) = Some (Some p)"
    using Cons.prems(5) frame [OF _ rt_idx_in_nodes] by simp
  have ok: "tags_ok tree1" "distinct (forest_nodes cs)" using s(2) Cons.prems(4) by (simp_all add: forest_gc_def)
  obtain tree2 ts2 where
    r: "ofold (retain_child p live) (map rt_idx cs) (tree1, kept @ map rt_idx ts1) = (Ok (tree2, (kept @ map rt_idx ts1) @ map rt_idx ts2) :: ('a, _) outcome)"
      "forest_gc live tree1 cs tree2 ts2"
      "\<forall>t\<in>set ts2. map_option node_parent (UniValMap_get (nodes tree2) (rt_idx t)) = Some (Some p)"
    by (rule Cons.IH [OF _ ok(1) cs ok(2) par])
  have "UniValMap_get (nodes tree2) (rt_idx t) = UniValMap_get (nodes tree1) (rt_idx t)" if t: "t \<in> set ts1" for t
  proof -
    have "rt_idx t \<in> set (forest_nodes ts1)" using t rt_idx_in_nodes [of t] by auto
    then have "rt_idx t \<notin> set (forest_nodes cs)" using s(2) d unfolding forest_gc_def by blast
    then show ?thesis using r(2) by (simp add: forest_gc_def)
  qed
  with s(3) have "\<forall>t\<in>set ts1. map_option node_parent (UniValMap_get (nodes tree2) (rt_idx t)) = Some (Some p)" by simp
  with r(3) s(1) r(1) forest_gc_append [OF s(2) r(2) d] show ?case
    by (intro Cons.prems(1) [of tree2 "ts1 @ ts2"]) auto
qed

text \<open>The loop replaces every subtree by what is left of it.\<close>

lemma gc_loop:
  assumes "tags_ok tree" "represents (nodes tree) t" "distinct (rt_nodes t)"
  obtains tree' t' where
    "\<And>fuel stack. remove_useless_loop (2 * length (rt_nodes t) + fuel) live ((rt_idx t, 0) # stack) tree =
       (remove_useless_loop (Suc fuel) live stack tree' :: ('e, _) outcome)"
    "forest_gc live tree [t] tree' [t']" "rt_idx t' = rt_idx t"
    "map_option node_parent (UniValMap_get (nodes tree') (rt_idx t)) = map_option node_parent (UniValMap_get (nodes tree) (rt_idx t))"
  using assms
proof (induction t arbitrary: tree thesis)
  case (RT i ts)
  from RT.prems(3) obtain n where n: "UniValMap_get (nodes tree) i = Some n" "node_children n = map rt_idx ts"
    "\<forall>t\<in>set ts. represents (nodes tree) t \<and> map_option node_parent (UniValMap_get (nodes tree) (rt_idx t)) = Some (Some i)"
    by (auto split: option.splits)
  have i: "i \<notin> set (forest_nodes ts)" "distinct (forest_nodes ts)" using RT.prems(4) by auto
  have children: "\<exists>tree' us'. (\<forall>fuel stack. remove_useless_loop (2 * length (forest_nodes us) + Suc fuel) live ((i, k) # stack) tree0 =
       (remove_useless_loop (Suc fuel) live ((i, k + length us) # stack) tree' :: ('e, _) outcome)) \<and>
     forest_gc live tree0 us tree' us' \<and> map rt_idx us' = map rt_idx us \<and>
     (\<forall>u\<in>set us'. map_option node_parent (UniValMap_get (nodes tree') (rt_idx u)) = Some (Some i))"
    if "tags_ok tree0" "UniValMap_get (nodes tree0) i = Some n" "drop k ts = us" "distinct (forest_nodes us)" "i \<notin> set (forest_nodes us)"
      "\<forall>t\<in>set us. represents (nodes tree0) t \<and> map_option node_parent (UniValMap_get (nodes tree0) (rt_idx t)) = Some (Some i)"
    for us k tree0
    using that
  proof (induction us arbitrary: k tree0)
    case Nil
    then show ?case by (intro exI [of _ tree0] exI [of _ "[]"]) (simp add: forest_gc_refl)
  next
    case (Cons c us)
    have c: "c \<in> set ts" "k < length ts" "ts ! k = c" "drop (Suc k) ts = us"
      using Cons.prems(3) by (metis in_set_dropD list.set_intros(1), metis drop_all list.distinct(1) not_less,
        metis nth_via_drop, simp add: drop_Suc tl_drop [symmetric])
    have dc: "distinct (rt_nodes c)" "distinct (forest_nodes us)" "set (forest_nodes [c]) \<inter> set (forest_nodes us) = {}"
      using Cons.prems(4) by (simp_all del: set_concat)
    have rc: "represents (nodes tree0) c" using Cons.prems(6) by simp
    obtain tree1 c' where s: "\<And>fuel stack. remove_useless_loop (2 * length (rt_nodes c) + fuel) live ((rt_idx c, 0) # stack) tree0 =
        (remove_useless_loop (Suc fuel) live stack tree1 :: ('e, _) outcome)"
      "forest_gc live tree0 [c] tree1 [c']" "rt_idx c' = rt_idx c"
      "map_option node_parent (UniValMap_get (nodes tree1) (rt_idx c)) = map_option node_parent (UniValMap_get (nodes tree0) (rt_idx c))"
      by (rule RT.IH [OF c(1) _ Cons.prems(1) rc dc(1)]) (rule that)
    have frame: "UniValMap_get (nodes tree1) j = UniValMap_get (nodes tree0) j" if "j \<notin> set (rt_nodes c)" for j
      using s(2) that by (simp add: forest_gc_def)
    have fu: "UniValMap_get (nodes tree1) j = UniValMap_get (nodes tree0) j" if "u \<in> set us" "j \<in> set (rt_nodes u)" for u j
      using that dc(3) by (intro frame) auto
    have "\<forall>u\<in>set us. represents (nodes tree1) u" by (rule represents_forest_frame [OF fu]) (use Cons.prems(6) in simp_all)
    then have ru: "\<forall>u\<in>set us. represents (nodes tree1) u \<and> map_option node_parent (UniValMap_get (nodes tree1) (rt_idx u)) = Some (Some i)"
      using Cons.prems(6) fu [OF _ rt_idx_in_nodes] by simp
    have "tags_ok tree1" "UniValMap_get (nodes tree1) i = Some n" "i \<notin> set (forest_nodes us)"
      using s(2) frame [of i] Cons.prems(2,5) by (simp_all add: forest_gc_def)
    from Cons.IH [OF this(1,2) c(4) dc(2) this(3) ru] obtain tree2 us' where
      r: "\<forall>fuel stack. remove_useless_loop (2 * length (forest_nodes us) + Suc fuel) live ((i, Suc k) # stack) tree1 =
         (remove_useless_loop (Suc fuel) live ((i, Suc k + length us) # stack) tree2 :: ('e, _) outcome)"
        "forest_gc live tree1 us tree2 us'" "map rt_idx us' = map rt_idx us"
        "\<forall>u\<in>set us'. map_option node_parent (UniValMap_get (nodes tree2) (rt_idx u)) = Some (Some i)" by blast
    have run: "remove_useless_loop (2 * length (forest_nodes (c # us)) + Suc fuel) live ((i, k) # stack) tree0 =
        (remove_useless_loop (Suc fuel) live ((i, k + length (c # us)) # stack) tree2 :: ('e, _) outcome)" for fuel stack
      using s(1) [of "2 * length (forest_nodes us) + fuel"] r(1) Cons.prems(2) c(2,3) n(2)
      by (simp add: get_node_def algebra_simps)
    have "rt_idx c \<notin> set (forest_nodes us)" using dc(3) rt_idx_in_nodes [of c] by auto
    then have "UniValMap_get (nodes tree2) (rt_idx c) = UniValMap_get (nodes tree1) (rt_idx c)" using r(2) by (simp add: forest_gc_def)
    with s(3,4) r(3,4) Cons.prems(6) forest_gc_append [OF s(2) r(2) dc(3)] run show ?case
      by (intro exI [of _ tree2] exI [of _ "c' # us'"]) simp
  qed
  obtain tree1 us where u: "\<And>fuel stack. remove_useless_loop (2 * length (forest_nodes ts) + Suc fuel) live ((i, 0) # stack) tree =
       (remove_useless_loop (Suc fuel) live ((i, length ts) # stack) tree1 :: ('e, _) outcome)"
     "forest_gc live tree ts tree1 us" "map rt_idx us = map rt_idx ts"
     "\<forall>u\<in>set us. map_option node_parent (UniValMap_get (nodes tree1) (rt_idx u)) = Some (Some i)"
    using children [OF RT.prems(2) n(1) _ i(2,1) n(3), of 0] by auto
  have n1: "UniValMap_get (nodes tree1) i = Some n" "tags_ok tree1" "distinct (forest_nodes us)" "i \<notin> set (forest_nodes us)"
    using u(2) n(1) i(1) unfolding forest_gc_def by (metis, blast, blast, blast)
  let ?f = "\<lambda>n. n\<lparr>node_children := []\<rparr>"
  let ?t1 = "tree1\<lparr>nodes := UniValMap_get_mut ?f (nodes tree1) i\<rparr>"
  have g1: "UniValMap_get (nodes ?t1) j = (if j = i then Some (?f n) else UniValMap_get (nodes tree1) j)" for j
    using n1(1) by (simp add: get_get_mut)
  have fr: "UniValMap_get (nodes ?t1) j = UniValMap_get (nodes tree1) j" if "c \<in> set us" "j \<in> set (rt_nodes c)" for c j
    using that n1(4) unfolding g1 by auto
  have c1: "\<forall>c\<in>set us. represents (nodes ?t1) c"
    by (rule represents_forest_frame [OF fr]) (use u(2) in \<open>simp_all add: forest_gc_def\<close>)
  have c2: "\<forall>c\<in>set us. map_option node_parent (UniValMap_get (nodes ?t1) (rt_idx c)) = Some (Some i)"
    using u(4) fr [OF _ rt_idx_in_nodes] by simp
  have l1: "gc_rel live tree1 ?t1" "tags_ok ?t1"
    using links_update(1) [of ?f live tree1 i] links_update(2) [of ?f tree1 i] n1(2) by simp_all
  obtain tree2 ts' where r: "ofold (retain_child i live) (map rt_idx us) (?t1, []) = (Ok (tree2, [] @ map rt_idx ts') :: ('e, _) outcome)"
    "forest_gc live ?t1 us tree2 ts'"
    "\<forall>t\<in>set ts'. map_option node_parent (UniValMap_get (nodes tree2) (rt_idx t)) = Some (Some i)"
    by (rule retain_children_gc [OF l1(2) c1 n1(3) c2])
  have n2: "UniValMap_get (nodes tree2) i = Some (?f n)" using r(2) n1(4) g1 [of i] unfolding forest_gc_def by metis
  let ?g = "\<lambda>n. n\<lparr>node_children := map rt_idx ts'\<rparr>"
  let ?t2 = "tree2\<lparr>nodes := UniValMap_get_mut ?g (nodes tree2) i\<rparr>"
  have run: "remove_useless_loop (2 * length (rt_nodes (RT i ts)) + fuel) live ((rt_idx (RT i ts), 0) # stack) tree =
      (remove_useless_loop (Suc fuel) live stack ?t2 :: ('e, _) outcome)" for fuel stack
    using u(1) [of "Suc fuel"] n1(1) n(2) r(1) n2 u(3) by (simp add: get_node_def Let_def)
  have g2: "UniValMap_get (nodes ?t2) j = (if j = i then Some (?g n) else UniValMap_get (nodes tree2) j)" for j
    using n2 by (simp add: get_get_mut)
  have l2: "gc_rel live tree2 ?t2" "tags_ok ?t2"
    using links_update(1) [of ?g live tree2 i] links_update(2) [of ?g tree2 i] r(2) by (simp_all add: forest_gc_def)
  have sub: "set (forest_nodes us) \<subseteq> set (forest_nodes ts)" "set (forest_nodes ts') \<subseteq> set (forest_nodes us)"
    "distinct (forest_nodes ts')" using u(2) r(2) by (simp_all add: forest_gc_def del: set_concat)
  then have i': "i \<notin> set (forest_nodes ts')" using i(1) by blast
  have f2: "UniValMap_get (nodes ?t2) j = UniValMap_get (nodes tree2) j" if "c \<in> set ts'" "j \<in> set (rt_nodes c)" for c j
    using that i' unfolding g2 by auto
  have "\<forall>c\<in>set ts'. represents (nodes ?t2) c"
    by (rule represents_forest_frame [OF f2]) (use r(2) in \<open>simp_all add: forest_gc_def\<close>)
  moreover have "\<forall>c\<in>set ts'. map_option node_parent (UniValMap_get (nodes ?t2) (rt_idx c)) = Some (Some i)"
    using r(3) f2 [OF _ rt_idx_in_nodes] by simp
  ultimately have rep: "represents (nodes ?t2) (RT i ts')" using g2 [of i] by simp
  have gone: "UniValMap_get (nodes ?t2) j = None" if "j \<in> set (forest_nodes ts)" "j \<notin> set (forest_nodes ts')" for j
  proof -
    have "j \<noteq> i" using that(1) i(1) by blast
    moreover have "UniValMap_get (nodes tree2) j = None"
    proof (cases "j \<in> set (forest_nodes us)")
      case True
      with that(2) r(2) show ?thesis unfolding forest_gc_def by blast
    next
      case False
      with that(1) u(2) have "UniValMap_get (nodes tree1) j = None" unfolding forest_gc_def by blast
      with False r(2) g1 [of j] \<open>j \<noteq> i\<close> show ?thesis unfolding forest_gc_def by metis
    qed
    ultimately show ?thesis using g2 [of j] by simp
  qed
  have same: "UniValMap_get (nodes ?t2) j = UniValMap_get (nodes tree) j" if "j \<noteq> i" "j \<notin> set (forest_nodes ts)" for j
    using that sub(1) u(2) r(2) g1 [of j] g2 [of j] unfolding forest_gc_def by (metis subsetD)
  have "gc_rel live tree tree1" "gc_rel live ?t1 tree2" using u(2) r(2) by (simp_all add: forest_gc_def)
  with l1(1) l2(1) have gc: "gc_rel live tree ?t2" by (blast intro: gc_rel_trans)
  have "forest_gc live tree [RT i ts] ?t2 [RT i ts']"
    unfolding forest_gc_def
  proof (intro conjI allI impI)
    show "set (forest_nodes [RT i ts']) \<subseteq> set (forest_nodes [RT i ts])" using subset_trans [OF sub(2,1)] by (auto simp del: set_concat)
    show "distinct (forest_nodes [RT i ts'])" using sub(3) i' by simp
    show "UniValMap_get (nodes ?t2) j = UniValMap_get (nodes tree) j" if "j \<notin> set (forest_nodes [RT i ts])" for j
      using that by (intro same) auto
    show "UniValMap_get (nodes ?t2) j = None" if "j \<in> set (forest_nodes [RT i ts]) - set (forest_nodes [RT i ts'])" for j
      using that by (intro gone) auto
  qed (use gc l2(2) rep in simp_all)
  moreover have "map_option node_parent (UniValMap_get (nodes ?t2) i) = map_option node_parent (UniValMap_get (nodes tree) i)"
    using g2 [of i] n(1) by simp
  ultimately show ?case using run by (intro RT.prems(1) [of ?t2 "RT i ts'"]) simp_all
qed

lemma represents_nodes_present: "represents ns t \<Longrightarrow> i \<in> set (rt_nodes t) \<Longrightarrow> UniValMap_get ns i \<noteq> None"
  by (induction t rule: rt_nodes.induct) (auto split: option.splits)

lemma forest_ok_forest:
  "forest_ok ns rs Ts \<longleftrightarrow> rs = map rt_idx Ts \<and> distinct (forest_nodes Ts) \<and> (\<forall>T\<in>set Ts. represents ns T) \<and>
     (\<forall>T\<in>set Ts. map_option node_parent (UniValMap_get ns (rt_idx T)) = Some None)"
  by (auto simp: forest_ok_def represents_root_def distinct_concat_iff)

text \<open>The trees of an allocation one after the other.\<close>

lemma remove_useless_children_gc:
  assumes "tags_ok tree" "represents (nodes tree) t" "distinct (rt_nodes t)"
  obtains tree' t' where "remove_useless_children tree (rt_idx t) live = Ok tree'"
    "forest_gc live tree [t] tree' [t']" "rt_idx t' = rt_idx t"
    "map_option node_parent (UniValMap_get (nodes tree') (rt_idx t)) = map_option node_parent (UniValMap_get (nodes tree) (rt_idx t))"
proof -
  obtain tree' t' where r: "\<And>fuel stack. remove_useless_loop (2 * length (rt_nodes t) + fuel) live ((rt_idx t, 0) # stack) tree =
       (remove_useless_loop (Suc fuel) live stack tree' :: ('a, _) outcome)"
    "forest_gc live tree [t] tree' [t']" "rt_idx t' = rt_idx t"
    "map_option node_parent (UniValMap_get (nodes tree') (rt_idx t)) = map_option node_parent (UniValMap_get (nodes tree) (rt_idx t))"
    by (rule gc_loop [OF assms]) (rule that)
  have "2 * length (nodes tree) = 2 * length (rt_nodes t) + (2 * length (nodes tree) - 2 * length (rt_nodes t))"
    using tree_fits [OF assms(2,3)] by simp
  then have "remove_useless_children tree (rt_idx t) live = (Ok tree' :: ('a, _) outcome)"
    unfolding remove_useless_children_def by (metis r(1) remove_useless_loop.simps(1))
  with r(2-4) that show thesis by blast
qed

lemma collect_roots_gc:
  assumes "tags_ok tree" "roots tree = map rt_idx Ts" "drop k Ts = us" "k + length us = length Ts" "distinct (forest_nodes us)"
    "\<forall>u\<in>set us. represents (nodes tree) u \<and> map_option node_parent (UniValMap_get (nodes tree) (rt_idx u)) = Some None"
  shows "\<exists>tree' us'. ofold (\<lambda>i tree. obind (vec_get (roots tree) i) (\<lambda>root. remove_useless_children tree root live)) [k..<length Ts] tree =
      (Ok tree' :: ('e, _) outcome) \<and> forest_gc live tree us tree' us' \<and> map rt_idx us' = map rt_idx us \<and>
    (\<forall>u\<in>set us'. map_option node_parent (UniValMap_get (nodes tree') (rt_idx u)) = Some None)"
  using assms
proof (induction us arbitrary: k tree)
  case Nil
  then show ?case by (intro exI [of _ tree] exI [of _ "[]"]) (simp add: forest_gc_refl)
next
  case (Cons c us)
  have c: "k < length Ts" "Ts ! k = c" "drop (Suc k) Ts = us" "Suc k + length us = length Ts" "[k..<length Ts] = k # [Suc k..<length Ts]"
    using Cons.prems(3,4) by (auto simp: nth_via_drop drop_Suc tl_drop [symmetric] upt_conv_Cons)
  have dc: "distinct (rt_nodes c)" "distinct (forest_nodes us)" "set (forest_nodes [c]) \<inter> set (forest_nodes us) = {}"
    using Cons.prems(5) by (simp_all del: set_concat)
  have rc: "represents (nodes tree) c" using Cons.prems(6) by simp
  obtain tree1 c' where s: "remove_useless_children tree (rt_idx c) live = (Ok tree1 :: ('e, _) outcome)"
    "forest_gc live tree [c] tree1 [c']" "rt_idx c' = rt_idx c"
    "map_option node_parent (UniValMap_get (nodes tree1) (rt_idx c)) = map_option node_parent (UniValMap_get (nodes tree) (rt_idx c))"
    by (rule remove_useless_children_gc [OF Cons.prems(1) rc dc(1)])
  have fu: "UniValMap_get (nodes tree1) j = UniValMap_get (nodes tree) j" if "u \<in> set us" "j \<in> set (rt_nodes u)" for u j
  proof -
    have "j \<notin> set (forest_nodes [c])" using that dc(3) by auto
    with s(2) show ?thesis by (simp add: forest_gc_def)
  qed
  have "\<forall>u\<in>set us. represents (nodes tree1) u" by (rule represents_forest_frame [OF fu]) (use Cons.prems(6) in simp_all)
  then have ru: "\<forall>u\<in>set us. represents (nodes tree1) u \<and> map_option node_parent (UniValMap_get (nodes tree1) (rt_idx u)) = Some None"
    using Cons.prems(6) fu [OF _ rt_idx_in_nodes] by simp
  have t1: "tags_ok tree1" "roots tree1 = map rt_idx Ts" using s(2) Cons.prems(2) by (simp_all add: forest_gc_def gc_rel_def)
  from Cons.IH [OF t1 c(3,4) dc(2) ru] obtain tree2 us' where
    r: "ofold (\<lambda>i tree. obind (vec_get (roots tree) i) (\<lambda>root. remove_useless_children tree root live)) [Suc k..<length Ts] tree1 =
        (Ok tree2 :: ('e, _) outcome)" "forest_gc live tree1 us tree2 us'" "map rt_idx us' = map rt_idx us"
      "\<forall>u\<in>set us'. map_option node_parent (UniValMap_get (nodes tree2) (rt_idx u)) = Some None" by blast
  have "rt_idx c \<notin> set (forest_nodes us)" using dc(3) rt_idx_in_nodes [of c] by auto
  then have "UniValMap_get (nodes tree2) (rt_idx c) = UniValMap_get (nodes tree1) (rt_idx c)" using r(2) by (simp add: forest_gc_def)
  with s r Cons.prems(2,6) c(1,2,5) forest_gc_append [OF s(2) r(2) dc(3)] show ?case
    by (intro exI [of _ tree2] exI [of _ "c' # us'"]) (simp add: vec_get_def)
qed

lemma tree_shape_tags:
  "tree_shape tree Ts \<longleftrightarrow> forest_ok (nodes tree) (roots tree) Ts \<and> tags_ok tree \<and>
     set (forest_nodes Ts) = ran (UniKeyMap_get (tag_mapping tree))"
  by (auto simp: tree_shape_def tags_ok_def)

lemma tags_ok_ran: "tags_ok tree \<Longrightarrow> i \<in> ran (UniKeyMap_get (tag_mapping tree)) \<longleftrightarrow> UniValMap_get (nodes tree) i \<noteq> None"
  by (force simp: tags_ok_def virtual_inv_def ran_def)

lemma tags_ok_key:
  assumes "tags_ok tree" "UniValMap_get (nodes tree) i = Some n" shows "UniKeyMap_get (tag_mapping tree) (node_tag n) = Some i"
proof -
  from assms tags_ok_ran [OF assms(1), of i] obtain t where t: "UniKeyMap_get (tag_mapping tree) t = Some i" by (auto simp: ran_def)
  with assms have "t = node_tag n" unfolding tags_ok_def by (metis option.inject option.simps(9))
  with t show ?thesis by simp
qed

text \<open>What the relation says of the tags.\<close>

lemma gc_rel_tags:
  assumes "gc_rel live tree tree'" "tags_ok tree" "tags_ok tree'"
  shows "UniKeyMap_get (tag_mapping tree') tag = Some i \<Longrightarrow> UniKeyMap_get (tag_mapping tree) tag = Some i"
    "live tag \<Longrightarrow> UniKeyMap_get (tag_mapping tree') tag = UniKeyMap_get (tag_mapping tree) tag"
proof -
  have g: "node_gc live (UniValMap_get (nodes tree) i) (UniValMap_get (nodes tree') i)" for i using assms(1) by (simp add: gc_rel_def)
  show sub: "UniKeyMap_get (tag_mapping tree) tag = Some i" if "UniKeyMap_get (tag_mapping tree') tag = Some i" for i
  proof -
    from that assms(3) obtain n' where n': "UniValMap_get (nodes tree') i = Some n'" "node_tag n' = tag" by (auto simp: tags_ok_def)
    with g [of i] obtain n where "UniValMap_get (nodes tree) i = Some n" "node_tag n = tag" by (auto simp: node_gc_def)
    with tags_ok_key [OF assms(2)] show ?thesis by blast
  qed
  show "UniKeyMap_get (tag_mapping tree') tag = UniKeyMap_get (tag_mapping tree) tag" if "live tag"
  proof (cases "UniKeyMap_get (tag_mapping tree) tag")
    case None
    with sub show ?thesis by (metis not_None_eq)
  next
    case (Some i)
    with assms(2) obtain n where n: "UniValMap_get (nodes tree) i = Some n" "node_tag n = tag" by (auto simp: tags_ok_def)
    with g [of i] that obtain n' where "UniValMap_get (nodes tree') i = Some n'" "node_tag n' = tag"
      by (auto simp: node_gc_def split: option.splits)
    with tags_ok_key [OF assms(3)] Some show ?thesis by auto
  qed
qed

lemma gc_shape:
  assumes "tree_shape tree Ts"
  obtains tree' Ts' where "Tree_remove_unreachable_tags tree live = (Ok tree' :: ('e, _) outcome)" "tree_shape tree' Ts'"
    "gc_rel live tree tree'"
proof -
  have f: "forest_ok (nodes tree) (roots tree) Ts" "tags_ok tree" "set (forest_nodes Ts) = ran (UniKeyMap_get (tag_mapping tree))"
    using assms by (simp_all add: tree_shape_tags)
  have f': "roots tree = map rt_idx Ts" "distinct (forest_nodes Ts)"
    "\<forall>u\<in>set Ts. represents (nodes tree) u \<and> map_option node_parent (UniValMap_get (nodes tree) (rt_idx u)) = Some None"
    using f(1) by (simp_all add: forest_ok_forest)
  from collect_roots_gc [OF f(2) f'(1) drop_0 _ f'(2,3), where 'e = 'e and live = live] obtain tree1 Ts' where
    r: "ofold (\<lambda>i tree. obind (vec_get (roots tree) i) (\<lambda>root. remove_useless_children tree root live)) [0..<length Ts] tree =
        (Ok tree1 :: ('e, _) outcome)" "forest_gc live tree Ts tree1 Ts'" "map rt_idx Ts' = map rt_idx Ts"
      "\<forall>u\<in>set Ts'. map_option node_parent (UniValMap_get (nodes tree1) (rt_idx u)) = Some None" by auto
  have t1: "tags_ok tree1" "gc_rel live tree tree1" using r(2) by (simp_all add: forest_gc_def)
  have c: "contiguous 0 ([] @ locations tree1)" using t1(1) by (simp add: tags_ok_def map_inv_def)
  from merge_push_fold [OF LocationTree_eq_equivp c, where 'e = 'e] obtain locs where
    w: "DedupRangeMap_merge_adjacent_thorough LocationTree_eq (locations tree1) = (Ok locs :: ('e, _) outcome)"
      "contiguous 0 locs" "chain_end 0 locs = chain_end 0 (locations tree1)" "same_lookup LocationTree_eq (locations tree1) locs"
    by (auto simp: DedupRangeMap_merge_adjacent_thorough_def)
  let ?t = "tree1\<lparr>locations := locs\<rparr>"
  have "gc_rel live tree1 ?t"
  proof -
    have "\<exists>loc. lookup (locations tree1) b = Some loc \<and> (\<forall>i. UniValMap_get (perms loc') i = UniValMap_get (perms loc) i)"
      if "lookup locs b = Some loc'" for b loc'
      using w(4) that LocationTree_eq_get(1) unfolding same_lookup_def by (metis option_rel_Some2)
    with w(3) show ?thesis by (fastforce simp: gc_rel_def node_gc_refl size_chain_end)
  qed
  with t1(2) have gc: "gc_rel live tree ?t" by (rule gc_rel_trans)
  have ok: "tags_ok ?t" using t1(1) w(2,3) by (simp add: tags_ok_def map_inv_def size_chain_end)
  have roots1: "roots tree1 = map rt_idx Ts'" using t1(2) f'(1) r(3) by (simp add: gc_rel_def)
  have forest: "forest_ok (nodes ?t) (roots ?t) Ts'"
    using r(2,4) roots1 by (simp add: forest_ok_forest forest_gc_def)
  have "i \<in> set (forest_nodes Ts') \<longleftrightarrow> UniValMap_get (nodes tree1) i \<noteq> None" for i
  proof
    assume "i \<in> set (forest_nodes Ts')"
    then obtain T where "T \<in> set Ts'" "i \<in> set (rt_nodes T)" by auto
    with r(2) represents_nodes_present [of "nodes tree1" T i] show "UniValMap_get (nodes tree1) i \<noteq> None" by (simp add: forest_gc_def)
  next
    assume n: "UniValMap_get (nodes tree1) i \<noteq> None"
    then have "UniValMap_get (nodes tree) i \<noteq> None" by (rule gc_rel_node [OF t1(2)])
    then have "i \<in> set (forest_nodes Ts)" using f(3) tags_ok_ran [OF f(2)] by blast
    with n forest_gc_gone [OF r(2)] show "i \<in> set (forest_nodes Ts')" by metis
  qed
  then have "set (forest_nodes Ts') = ran (UniKeyMap_get (tag_mapping ?t))" using tags_ok_ran [OF t1(1)] by auto
  with forest ok have "tree_shape ?t Ts'" by (simp add: tree_shape_tags)
  moreover have "Tree_remove_unreachable_tags tree live = (Ok ?t :: ('e, _) outcome)"
    using r(1) w(1) f'(1) by (simp add: Tree_remove_unreachable_tags_def)
  ultimately show thesis using gc that by blast
qed

section \<open>Sequences of operations\<close>

text \<open>The operations on the tree of an allocation. Every one carries the global state that it sees.\<close>

datatype tree_op =
    OpRetag nat ProvenanceExtra BorTag "LocationState DedupRangeMap" Permission bool
  | OpAccess ProvenanceExtra nat nat AccessKind GlobalStateInner
  | OpDealloc ProvenanceExtra nat nat GlobalStateInner
  | OpRelease GlobalStateInner BorTag
  | OpExpose BorTag bool
  | OpCollect "BorTag \<Rightarrow> bool"

fun tree_step :: "tree_op \<Rightarrow> Tree \<Rightarrow> (TbError, Tree) outcome" where
  "tree_step (OpRetag base prov tag inside outp p) tree = Tree_new_child tree base prov tag inside outp p"
| "tree_step (OpAccess prov s n k g) tree = Tree_perform_access tree prov s n k g"
| "tree_step (OpDealloc prov s n g) tree = Tree_dealloc tree prov s n g"
| "tree_step (OpRelease g tag) tree = release_protector tree g tag"
| "tree_step (OpExpose tag p) tree = Tree_expose_tag tree tag p"
| "tree_step (OpCollect live) tree = Tree_remove_unreachable_tags tree live"

text \<open>Ranges lie inside the allocation, and a new tag is not its own parent.\<close>

fun tree_op_ok :: "nat \<Rightarrow> tree_op \<Rightarrow> bool" where
  "tree_op_ok sz (OpRetag base prov tag inside outp p) \<longleftrightarrow>
     map_inv inside \<and> base + DedupRangeMap_size inside \<le> sz \<and> prov \<noteq> Concrete tag"
| "tree_op_ok sz (OpAccess prov s n k g) \<longleftrightarrow> s + n \<le> sz"
| "tree_op_ok sz (OpDealloc prov s n g) \<longleftrightarrow> s + n \<le> sz"
| "tree_op_ok sz _ \<longleftrightarrow> True"

lemma tree_step_shape:
  assumes sh: "tree_shape tree Ts" and ok: "tree_op_ok (DedupRangeMap_size (locations tree)) op" and step: "tree_step op tree = Ok tree'"
  shows "\<exists>Ts'. tree_shape tree' Ts'" "DedupRangeMap_size (locations tree') = DedupRangeMap_size (locations tree)"
proof -
  have m: "map_inv (locations tree)" using sh by (simp add: tree_shape_def)
  have "(\<exists>Ts'. tree_shape tree' Ts') \<and> DedupRangeMap_size (locations tree') = DedupRangeMap_size (locations tree)"
  proof (cases op)
    case (OpRetag base prov tag inside outp p)
    with ok step have o: "map_inv inside" "base + DedupRangeMap_size inside \<le> DedupRangeMap_size (locations tree)"
      "Tree_new_child tree base prov tag inside outp p = (Ok tree' :: (TbError, _) outcome)" "prov \<noteq> Concrete tag" by simp_all
    show ?thesis by (rule new_child_shape [OF sh o]) blast
  next
    case (OpCollect live)
    with step obtain Ts' where "tree_shape tree' Ts'" "gc_rel live tree tree'"
      using gc_shape [OF sh, where live = live and 'e = TbError] by auto
    then show ?thesis by (auto simp: gc_rel_def)
  next
    case (OpAccess prov s n k g)
    with ok step access_structure [of tree prov s n k g tree'] same_structure_shape [OF sh, of tree'] show ?thesis by auto
  next
    case (OpDealloc prov s n g)
    with ok step m dealloc_structure [of tree prov s n g tree'] same_structure_shape [OF sh, of tree'] show ?thesis by auto
  next
    case (OpRelease g tag)
    with step release_protector_structure [of tree g tag tree'] same_structure_shape [OF sh, of tree'] show ?thesis by auto
  next
    case (OpExpose tag p)
    with step expose_structure [of tree tag p tree'] same_structure_shape [OF sh, of tree'] show ?thesis by auto
  qed
  then show "\<exists>Ts'. tree_shape tree' Ts'" "DedupRangeMap_size (locations tree') = DedupRangeMap_size (locations tree)" by blast+
qed

section \<open>Properties\<close>

text \<open>C23: The nodes of an allocation always form proper trees. From a new allocation on, after any sequence of
  retags, accesses, deallocation checks, protector releases, exposures and tag collections, there is a
  list of trees such that the roots are their roots, the parent and children links of the nodes are
  exactly theirs and no node occurs twice; the tags in use are mapped one to one to the nodes that carry
  them; and the byte map still covers exactly the allocation.\<close>

theorem tree_stays_a_tree:
  assumes "obind (Tree_new root_tag sz) (ofold tree_step ops) = Ok tree" "sz < 2 ^ 64" "\<forall>op\<in>set ops. tree_op_ok sz op"
  shows "\<exists>Ts. tree_shape tree Ts \<and> DedupRangeMap_size (locations tree) = sz"
proof -
  from assms(1) obtain tree0 where t0: "Tree_new root_tag sz = (Ok tree0 :: (TbError, _) outcome)" "ofold tree_step ops tree0 = Ok tree"
    by (auto simp: obind_eq_Ok)
  have "\<exists>Ts. tree_shape tree0 Ts" "DedupRangeMap_size (locations tree0) = sz" using new_shape [OF t0(1) assms(2)] by blast+
  with t0(2) assms(3) show ?thesis
  proof (induction ops arbitrary: tree0)
    case (Cons op ops)
    from Cons.prems(1) obtain tree1 where s: "tree_step op tree0 = Ok tree1" "ofold tree_step ops tree1 = Ok tree" by (auto simp: obind_eq_Ok)
    from Cons.prems(3) obtain Ts where Ts: "tree_shape tree0 Ts" by blast
    have "tree_op_ok (DedupRangeMap_size (locations tree0)) op" using Cons.prems(2,4) by simp
    from tree_step_shape [OF Ts this s(1)] Cons.IH [OF s(2)] Cons.prems(2,4) show ?case by simp
  qed simp
qed

definition demo_tree_ops :: "tree_op list" where
  "demo_tree_ops =
     [OpRetag 0 (Concrete 1) 2 (retagged 2) (ReservedFrz False) False, OpRetag 0 (Concrete 2) 3 (retagged 2) (ReservedFrz False) False,
      OpAccess (Concrete 3) 0 1 Write demo_global, OpExpose 3 False, OpCollect (\<lambda>tag. tag = 1 \<or> tag = 3),
      OpRetag 1 (Concrete 3) 4 (retagged 1) (ReservedFrz False) False]"

theorem tree_stays_a_tree_witness:
  "\<exists>tree Ts. obind (Tree_new 1 2) (ofold tree_step demo_tree_ops) = Ok tree \<and> tree_shape tree Ts"
proof -
  have "is_Ok (obind (Tree_new 1 2) (ofold tree_step demo_tree_ops))" by code_simp
  then obtain tree where run: "obind (Tree_new 1 2) (ofold tree_step demo_tree_ops) = Ok tree" by (auto elim: is_Ok.elims)
  have ok: "\<forall>op\<in>set demo_tree_ops. tree_op_ok 2 op"
    by (simp add: demo_tree_ops_def retagged_def map_inv_def DedupRangeMap_new_def DedupRangeMap_size_def)
  have "(2::nat) < 2 ^ 64" by simp
  from tree_stays_a_tree [OF run this ok] run show ?thesis by blast
qed

text \<open>C24: Collecting tags always succeeds on a proper tree (its fuel is enough and no assertion fails) and
  is safe: no tag is added or moved, every live tag stays, the result is again a proper tree, and the
  nodes that stay keep their states at every byte.\<close>

theorem collection_is_safe:
  assumes "tree_shape tree Ts"
  shows "\<exists>tree' Ts'. Tree_remove_unreachable_tags tree live = (Ok tree' :: (TbError, _) outcome) \<and> tree_shape tree' Ts' \<and>
    roots tree' = roots tree \<and> UniKeyMap_get (tag_mapping tree') \<subseteq>\<^sub>m UniKeyMap_get (tag_mapping tree) \<and>
    (\<forall>tag. live tag \<longrightarrow> UniKeyMap_get (tag_mapping tree') tag = UniKeyMap_get (tag_mapping tree) tag) \<and>
    (\<forall>b loc' i. lookup (locations tree') b = Some loc' \<and> i \<in> ran (UniKeyMap_get (tag_mapping tree')) \<longrightarrow>
      (\<exists>loc. lookup (locations tree) b = Some loc \<and> UniValMap_get (perms loc') i = UniValMap_get (perms loc) i))"
proof -
  obtain tree' Ts' where r: "Tree_remove_unreachable_tags tree live = (Ok tree' :: (TbError, _) outcome)" "tree_shape tree' Ts'"
    "gc_rel live tree tree'" by (rule gc_shape [OF assms])
  have ok: "tags_ok tree" "tags_ok tree'" using assms r(2) by (simp_all add: tree_shape_tags)
  note t = gc_rel_tags [OF r(3) ok]
  have "UniKeyMap_get (tag_mapping tree') \<subseteq>\<^sub>m UniKeyMap_get (tag_mapping tree)" by (auto simp: map_le_def t(1))
  moreover have "\<exists>loc. lookup (locations tree) b = Some loc \<and> UniValMap_get (perms loc') i = UniValMap_get (perms loc) i"
    if "lookup (locations tree') b = Some loc'" "i \<in> ran (UniKeyMap_get (tag_mapping tree'))" for b loc' i
    using r(3) that tags_ok_ran [OF ok(2), of i] unfolding gc_rel_def by blast
  moreover have "roots tree' = roots tree" using r(3) by (simp add: gc_rel_def)
  ultimately show ?thesis using r(1,2) t(2) by blast
qed

lemma demo_tree_shape: "tree_shape (demo_tree s) [RT 0 [RT 1 []]]"
  by (auto simp: demo_tree_def tree_shape_def forest_ok_def represents_root_def virtual_inv_def key_inv_def UniKeyMap_get_def [abs_def]
      UniValMap_get_def map_inv_def DedupRangeMap_size_def split: if_splits)

theorem collection_is_safe_witness:
  "\<exists>tree' Ts'. Tree_remove_unreachable_tags (demo_tree (demo_state Frozen SifaRead)) (\<lambda>tag. tag = 1) = (Ok tree' :: (TbError, _) outcome) \<and>
    tree_shape tree' Ts' \<and> UniKeyMap_get (tag_mapping tree') 1 = Some 0"
proof -
  let ?t = "demo_tree (demo_state Frozen SifaRead)"
  from collection_is_safe [OF demo_tree_shape, where live = "\<lambda>tag. tag = 1"] have "\<exists>tree' Ts'. Tree_remove_unreachable_tags ?t (\<lambda>tag. tag = 1) = (Ok tree' :: (TbError, _) outcome) \<and>
    tree_shape tree' Ts' \<and> UniKeyMap_get (tag_mapping tree') 1 = UniKeyMap_get (tag_mapping ?t) 1" by blast
  moreover have "UniKeyMap_get (tag_mapping ?t) 1 = Some 0" by (simp add: demo_tree_def UniKeyMap_get_def)
  ultimately show ?thesis by simp
qed

end
