(* ===== verification/TB_Termination.thy ===== *)
theory TB_Termination
  imports TB_Shape
begin

text \<open>
  The operations on the tree of an allocation terminate. The loops of \<open>tree.rs\<close>, \<open>tree_visitor.rs\<close> and \<open>wildcard.rs\<close> follow the links
  of the nodes and carry no bound of their own: on nodes that are linked in a cycle they would run forever. The model
  gives them fuel that is computed from the size of the node map and the value \<open>Diverge\<close> when it is used up. Here it is shown that
  this value never occurs, since the links always form trees (\<open>tree_shape\<close>). \<open>climbs\<close> says that the way up from a node is
  short enough, which is what the loops over ancestors need.
\<close>

section \<open>Operations that return\<close>

definition returns :: "('e, 'a) outcome \<Rightarrow> bool" where
  "returns m \<longleftrightarrow> m \<noteq> Diverge"

named_theorems returns_intros

lemma returns_simps [simp]: "returns (Ok x)" "returns (Err e)" "returns Panic" "\<not> returns Diverge"
  by (simp_all add: returns_def)

lemma returns_obind [returns_intros]: "returns m \<Longrightarrow> (\<And>x. m = Ok x \<Longrightarrow> returns (f x)) \<Longrightarrow> returns (obind m f)"
  by (cases m) auto

lemma returns_basic [simp]:
  "returns (unwrap x)" "returns (check b)" "returns (vec_get xs i)" "returns (vec_insert i y xs)" "returns (add_u64 a c)" "returns (add_u16 a c)"
  "returns (sub_u16 a c)" "returns (get_node ns j)" "returns (map_err g m) \<longleftrightarrow> returns m"
  by (simp_all add: unwrap_def check_def vec_get_def vec_insert_def add_u64_def add_u16_def sub_u16_def get_node_def split: option.split)
    (cases m; simp)

lemma returns_ofold [returns_intros]: "(\<And>x s. x \<in> set xs \<Longrightarrow> returns (f x s)) \<Longrightarrow> returns (ofold f xs s)"
  by (induction xs arbitrary: s) (auto intro!: returns_obind)

lemma returns_split [returns_intros]: "(\<And>a b. p = (a, b) \<Longrightarrow> returns (f a b)) \<Longrightarrow> returns (case p of (a, b) \<Rightarrow> f a b)"
  by (cases p) simp

section \<open>Range maps\<close>

lemma scan_returns: "returns (iter_mut_scan eq stop v since merges end_idx)"
proof (induction eq stop v since merges end_idx rule: iter_mut_scan.induct)
  case (1 eq stop v since merges end_idx)
  then show ?case by (subst iter_mut_scan.simps) (auto simp: Let_def)
qed

lemma iter_mut_returns: "returns (DedupRangeMap_iter_mut eq v offset len)"
  by (auto simp: DedupRangeMap_iter_mut_def DedupRangeMap_find_offset_def DedupRangeMap_split_index_def Let_def scan_returns
      split: sum.split intro!: returns_intros)

lemma elem_visit_returns: "(\<And>r d s. returns (f r d s)) \<Longrightarrow> returns (elem_visit f i vs)"
  by (auto simp: elem_visit_def intro!: returns_intros)

lemma for_each_returns [returns_intros]: "(\<And>r d s. returns (f r d s)) \<Longrightarrow> returns (DedupRangeMap_for_each eq f v offset len s)"
  by (auto simp: DedupRangeMap_for_each_def iter_mut_returns intro!: returns_intros elem_visit_returns)

lemma iter_all_returns [returns_intros]: "(\<And>r d s. returns (f r d s)) \<Longrightarrow> returns (DedupRangeMap_iter_mut_all f v s)"
  by (auto simp: DedupRangeMap_iter_mut_all_def intro!: returns_intros elem_visit_returns)

section \<open>The way up from a node\<close>

fun climbs :: "Nodes \<Rightarrow> nat \<Rightarrow> UniIndex option \<Rightarrow> bool" where
  "climbs ns n None = True"
| "climbs ns 0 (Some i) = False"
| "climbs ns (Suc n) (Some i) = (case UniValMap_get ns i of None \<Rightarrow> False | Some node \<Rightarrow> climbs ns n (node_parent node))"

lemma climbs_mono: "climbs ns n i \<Longrightarrow> n \<le> m \<Longrightarrow> climbs ns m i"
proof (induction ns n i arbitrary: m rule: climbs.induct)
  case (3 ns n i)
  then show ?case by (cases m) (auto split: option.splits)
qed simp_all

lemma climbs_cong:
  assumes "climbs ns n i"
    and "\<And>j. UniValMap_get ns j \<noteq> None \<Longrightarrow> map_option node_parent (UniValMap_get ns' j) = map_option node_parent (UniValMap_get ns j)"
  shows "climbs ns' n i"
  using assms
proof (induction ns n i rule: climbs.induct)
  case (3 ns n i)
  then obtain node where node: "UniValMap_get ns i = Some node" "climbs ns n (node_parent node)" by (auto split: option.splits)
  with "3.prems"(2) [of i] obtain node' where "UniValMap_get ns' i = Some node'" "node_parent node' = node_parent node" by auto
  with "3.IH" [OF node] "3.prems"(2) show ?case by simp
qed simp_all

lemma climbs_plug:
  assumes "represents ns (plug t ctx)" "map_option node_parent (UniValMap_get ns (rt_idx (plug t ctx))) = Some None"
  shows "climbs ns (Suc (length ctx)) (Some (rt_idx t))"
  using assms
proof (induction ctx arbitrary: t)
  case (Cons a ctx)
  obtain i l r where a: "a = (i, l, r)" by (cases a)
  let ?p = "RT i (l @ t # r)"
  have "represents ns (plug ?p ctx)" using Cons.prems(1) by (simp add: a)
  from represents_plug [OF this] obtain n where "UniValMap_get ns (rt_idx t) = Some n" "node_parent n = Some i" by auto
  with Cons.IH [of ?p] Cons.prems show ?case by (simp add: a)
qed auto

definition grounded :: "Nodes \<Rightarrow> bool" where
  "grounded ns \<longleftrightarrow> (\<forall>i. UniValMap_get ns i \<noteq> None \<longrightarrow> climbs ns (length ns) (Some i))"

lemma root_climbs:
  assumes "represents_root ns (plug t ctx)" shows "climbs ns (length ns) (Some (rt_idx t))"
proof -
  have r: "represents ns (plug t ctx)" "distinct (rt_nodes (plug t ctx))"
    "map_option node_parent (UniValMap_get ns (rt_idx (plug t ctx))) = Some None" using assms by (simp_all add: represents_root_def)
  have "Suc (length ctx) \<le> length ns"
    using tree_fits [OF r(1,2)] rt_nodes_not_empty [of t] by (cases "rt_nodes t") (simp_all add: length_plug)
  with climbs_plug [OF r(1,3)] show ?thesis by (rule climbs_mono)
qed

lemma node_in_forest:
  assumes "tree_shape tree Ts" "UniValMap_get (nodes tree) i \<noteq> None"
  obtains t ctx where "plug t ctx \<in> set Ts" "rt_idx t = i" "represents_root (nodes tree) (plug t ctx)"
proof -
  have "tags_ok tree" "set (forest_nodes Ts) = ran (UniKeyMap_get (tag_mapping tree))" and f: "forest_ok (nodes tree) (roots tree) Ts"
    using assms(1) by (simp_all add: tree_shape_tags)
  with tags_ok_ran [of tree i] assms(2) have "i \<in> set (forest_nodes Ts)" by blast
  then obtain T where T: "T \<in> set Ts" "i \<in> set (rt_nodes T)" by auto
  with subtree_at [OF T(2)] f that show thesis by (auto simp: forest_ok_def)
qed

lemma tag_in_forest:
  assumes "tree_shape tree Ts" "UniKeyMap_get (tag_mapping tree) tag = Some i" shows "UniValMap_get (nodes tree) i \<noteq> None"
  using assms unfolding tree_shape_def by fastforce

lemma shape_grounded: "tree_shape tree Ts \<Longrightarrow> grounded (nodes tree)"
  unfolding grounded_def by (metis node_in_forest root_climbs)

section \<open>Loops over the ancestors\<close>

lemma update_exposure_loop_returns: "climbs ns n i \<Longrightarrow> returns (update_exposure_loop n ns from to i c)"
proof (induction ns n i arbitrary: c rule: climbs.induct)
  case (3 ns n i)
  then obtain node where "UniValMap_get ns i = Some node" "climbs ns n (node_parent node)" by (auto split: option.splits)
  with "3.IH" show ?case
    by (auto simp: update_counts_def get_node_def unwrap_def split: prod.split WildcardAccessLevel.split intro!: returns_intros)
qed simp_all

lemma update_exposure_returns: "grounded ns \<Longrightarrow> UniValMap_get ns i \<noteq> None \<Longrightarrow> returns (update_exposure c ns i from to)"
  by (simp add: update_exposure_def grounded_def update_exposure_loop_returns)

lemma weaken_loop_returns: "climbs (nodes tree) n (Some i) \<Longrightarrow> returns (weaken_loop n i sifa tree)"
proof (induction n arbitrary: i tree)
  case (Suc n)
  then obtain node where node: "UniValMap_get (nodes tree) i = Some node" "climbs (nodes tree) n (node_parent node)" by (auto split: option.splits)
  have up: "climbs (UniValMap_get_mut (\<lambda>n. n\<lparr>default_initial_idempotent_foreign_access := s\<rparr>) (nodes tree) i) n (node_parent node)" for s
    by (rule climbs_cong [OF node(2)]) (auto simp: get_get_mut option.map_comp comp_def)
  have "returns (DedupRangeMap_iter_mut_all (weaken_location i sifa) (locations tree) False :: ('a, _) outcome)"
    by (rule iter_all_returns) (simp add: weaken_location_def Let_def split: option.split prod.split)
  with node(1) up show ?case
    by (auto simp: get_node_def unwrap_def Let_def split: option.split prod.split intro!: returns_intros Suc.IH)
qed simp

section \<open>Traversals\<close>

lemma visit_returns: "(\<And>i rel d. returns (fc i rel d)) \<Longrightarrow> (\<And>i rel d. returns (fp i rel d)) \<Longrightarrow> returns (visit fc fp rel t d)"
proof (induction t arbitrary: d)
  case (RT i ts)
  then show ?case by (auto split: ContinueTraversal.split intro!: returns_intros)
qed

lemma visit_all_returns: "(\<And>i rel d. returns (fc i rel d)) \<Longrightarrow> (\<And>i rel d. returns (fp i rel d)) \<Longrightarrow> returns (visit_all fc fp mode t ctx d)"
  by (auto simp: visit_all_def simp del: ofold.simps intro!: returns_intros visit_returns)

lemma transition_returns [simp]: "returns (transition_perform_access k r p prot)"
  by (cases k; cases r; cases p rule: perm_exhaust; cases prot) (simp_all add: tb_perm_defs)

lemma skip_returns [simp]: "returns (skip_if_known_noop s k r)" "returns (record_new_access s k r)"
proof -
  show "returns (skip_if_known_noop s k r)" for s :: LocationState by (simp add: skip_if_known_noop_def can_skip_foreign_access_def Let_def)
  then show "returns (record_new_access s k r)" by (auto simp: record_new_access_def intro!: returns_intros)
qed

lemma state_returns [simp]:
  "returns (default_location_state n)" "returns (perm_or_default loc i n)" "returns (access_relatedness c root i k w only_foreign)"
  by (auto simp: default_location_state_def new_non_accessed_def perm_or_default_def access_relatedness_def Let_def
      split: option.split prod.split intro!: returns_intros)

lemma perform_access_returns [simp]: "returns (LocationState_perform_access s k r prot)"
  by (auto simp: LocationState_perform_access_def Permission_perform_access_def Let_def split: option.split intro!: returns_intros)

lemma perform_transition_returns:
  assumes "grounded ns" shows "returns (perform_transition s i ns c k r prot)"
  by (auto simp: perform_transition_def Let_def get_node_def unwrap_def split: option.split intro!: returns_intros update_exposure_returns [OF assms])

lemma closures_return:
  assumes "grounded ns"
  shows "returns (normal_skipper ns k i r loc)" "returns (normal_app ns k g src i r loc)"
    "returns (wildcard_skipper root mx ns k w i r lb)" "returns (wildcard_app root src' mx ns k g w i r lb)"
  using perform_transition_returns [OF assms]
  by (auto simp: normal_skipper_def normal_app_def wildcard_skipper_def wildcard_app_def get_relatedness_def Let_def
      split: option.split prod.split intro!: returns_intros)

text \<open>A traversal from a node of a tree, and of a whole tree.\<close>

lemma traversals_return:
  assumes "represents_root ns (plug t ctx)" "\<And>i rel d. returns (fc i rel d)" "\<And>i rel d. returns (fp i rel d)"
  shows "returns (traverse_this_parents_children_other ns fc fp (rt_idx t) d)" "returns (traverse_nonchildren ns fc fp (rt_idx t) d)"
    "returns (traverse_children_this ns fc fp (rt_idx (plug t ctx)) d)"
  using traverse_runs [OF assms(1), of fc fp d] visit_all_returns [of fc fp, OF assms(2,3)] visit_returns [of fc fp, OF assms(2,3)]
  by (auto intro!: returns_obind)

lemma wildcard_access_returns:
  assumes "grounded ns" "represents_root ns T"
  shows "returns (perform_wildcard_access loc (rt_idx T) src mx ns k g w)"
  using assms(2)
  by (auto simp: perform_wildcard_access_def intro!: returns_intros traversals_return(3) [of ns T "[]", simplified] closures_return [OF assms(1)])

lemma other_trees_return:
  assumes "grounded ns" "\<forall>r\<in>set rs. \<exists>T. represents_root ns T \<and> rt_idx T = r"
  shows "returns (access_other_trees j rs ns src ar art k g mode mec loc)"
  using assms(2)
proof (induction rs arbitrary: j loc)
  case (Cons r rs)
  then obtain T where "represents_root ns T" "rt_idx T = r" by auto
  with Cons wildcard_access_returns [OF assms(1)] show ?case by (auto intro!: returns_intros)
qed simp

lemma location_access_returns:
  assumes sh: "tree_shape tree Ts" and i: "\<And>i. src = Some i \<Longrightarrow> UniValMap_get (nodes tree) i \<noteq> None"
  shows "returns (LocationTree_perform_access loc (roots tree) (nodes tree) src k g mode mec)"
proof -
  have g: "grounded (nodes tree)" by (rule shape_grounded [OF sh])
  have "returns (perform_normal_access loc i (nodes tree) k g mode)" if "src = Some i" for i
  proof -
    from node_in_forest [OF sh i [OF that]] obtain t ctx where t: "rt_idx t = i" "represents_root (nodes tree) (plug t ctx)" by blast
    show ?thesis unfolding t(1) [symmetric] perform_normal_access_run [OF t(2)]
      by (intro returns_obind visit_all_returns closures_return [OF g]) simp
  qed
  moreover have "\<forall>r\<in>set (roots tree). \<exists>T. represents_root (nodes tree) T \<and> rt_idx T = r"
    using sh by (auto simp: tree_shape_def forest_ok_def)
  ultimately show ?thesis
    by (auto simp: LocationTree_perform_access_def split: option.split intro!: returns_intros other_trees_return [OF g])
qed

lemma min_exposed_returns:
  "\<forall>t\<in>set ts. represents ns t \<Longrightarrow> forest_size ts \<le> fuel \<Longrightarrow> returns (min_exposed_loop fuel ns (map rt_idx ts) m :: ('e, _) outcome)"
proof (induction fuel arbitrary: ts m)
  case 0
  then show ?case using rt_nodes_not_empty by (cases ts) auto
next
  case (Suc fuel)
  show ?case
  proof (cases ts)
    case (Cons t us)
    obtain i cs where t: "t = RT i cs" by (cases t)
    have "represents ns (RT i cs)" using Suc.prems(1) by (simp add: Cons t)
    then obtain n where n: "UniValMap_get ns i = Some n" "node_children n = map rt_idx cs" "\<forall>c\<in>set cs. represents ns c" by (auto split: option.splits)
    have us: "\<forall>t\<in>set us. represents ns t" "forest_size us \<le> fuel" "forest_size (rev cs @ us) \<le> fuel"
      using Suc.prems by (auto simp: Cons t length_rt_nodes simp del: rt_nodes.simps)
    have "returns (min_exposed_loop fuel ns (map rt_idx us) m' :: ('e, _) outcome)"
      "returns (min_exposed_loop fuel ns (map rt_idx (rev cs @ us)) m' :: ('e, _) outcome)" for m'
      using us n(3) by (auto intro!: Suc.IH simp del: map_append)
    with n(1,2) show ?thesis by (auto simp: Cons t get_node_def unwrap_def rev_map Let_def)
  qed simp
qed

lemma min_exposed_child_returns:
  assumes "tree_shape tree Ts" "UniValMap_get (nodes tree) i \<noteq> None"
  shows "returns (get_min_exposed_child i (nodes tree))"
proof -
  from node_in_forest [OF assms] obtain t ctx where t: "rt_idx t = i" "represents_root (nodes tree) (plug t ctx)" by blast
  then have r: "represents (nodes tree) t" "distinct (rt_nodes t)" by (auto simp: represents_root_def represents_plug distinct_plug dest: represents_plug distinct_plug)
  show ?thesis using min_exposed_returns [of "[t]" "nodes tree"] tree_fits [OF r] r(1) t(1) by (simp add: get_min_exposed_child_def)
qed

section \<open>Operations on a tree\<close>

lemma access_returns:
  assumes "tree_shape tree Ts" shows "returns (Tree_perform_access tree prov s n k g)"
  using tag_in_forest [OF assms]
  by (cases prov) (auto simp: Tree_perform_access_def source_index_def unwrap_def split: option.split
      intro!: returns_intros location_access_returns [OF assms])

lemma check_tree_returns:
  assumes "tree_shape tree Ts" "UniValMap_get (nodes tree) i \<noteq> None"
  shows "returns (check_tree tree g src loc i)"
proof -
  from node_in_forest [OF assms] obtain t ctx where t: "rt_idx t = i" "represents_root (nodes tree) (plug t ctx)" by blast
  show ?thesis unfolding check_tree_def t(1) [symmetric]
    by (intro returns_obind traversals_return(1) [OF t(2)]) (auto intro!: returns_intros)
qed

lemma dealloc_returns:
  assumes sh: "tree_shape tree Ts" and ok: "s + n \<le> DedupRangeMap_size (locations tree)"
  shows "returns (Tree_dealloc tree prov s n g)"
  unfolding Tree_dealloc_def
proof (rule returns_obind [OF access_returns [OF sh]])
  fix tree1
  assume "Tree_perform_access tree prov s n Write g = Ok tree1"
  from same_structure_shape(1) [OF sh access_structure [OF this ok]] have sh1: "tree_shape tree1 Ts" .
  then have "UniValMap_get (nodes tree1) r \<noteq> None" if "r \<in> set (roots tree1)" for r
    using that by (auto simp: tree_shape_def forest_ok_def represents_root_def)
  then show "returns (obind (source_index tree1 prov) (\<lambda>start_idx.
     obind (DedupRangeMap_for_each LocationTree_eq
        (\<lambda>_ loc u.
           obind (case start_idx of
                    None \<Rightarrow> Ok None
                  | Some idx \<Rightarrow> obind (check_tree tree1 g start_idx loc idx) (\<lambda>r. Ok (Some r))) (\<lambda>accessed_root.
           obind (ofold (\<lambda>root _.
                    if Some root = accessed_root then Ok ()
                    else obind (check_tree tree1 g start_idx loc root) (\<lambda>_. Ok ())) (rev (roots tree1)) ()) (\<lambda>_.
           Ok (loc, u))))
        (locations tree1) s n ()) (\<lambda>(locs, _).
     Ok (tree1\<lparr>locations := locs\<rparr>))))"
    using tag_in_forest [OF sh1]
    by (cases prov) (auto simp: source_index_def unwrap_def split: option.split intro!: returns_intros check_tree_returns [OF sh1])
qed

lemma expose_location_returns: "grounded ns \<Longrightarrow> returns (expose_location ns i old new r loc u)"
  by (auto simp: expose_location_def get_node_def unwrap_def split: option.split intro!: returns_intros update_exposure_returns)

lemma release_returns:
  assumes sh: "tree_shape tree Ts" shows "returns (release_protector tree g tag)"
  unfolding release_protector_def
proof (rule returns_obind)
  show "returns (perform_protector_end_access tree tag g)"
    using tag_in_forest [OF sh]
    by (auto simp: perform_protector_end_access_def unwrap_def split: option.split
        intro!: returns_intros min_exposed_child_returns [OF sh] location_access_returns [OF sh])
  fix tree1
  assume "perform_protector_end_access tree tag g = Ok tree1"
  from same_structure_shape(1) [OF sh protector_end_structure [OF this]] have "grounded (nodes tree1)" by (rule shape_grounded)
  then show "returns (update_exposure_for_protector_release tree1 tag)"
    by (auto simp: update_exposure_for_protector_release_def intro!: returns_intros expose_location_returns)
qed

lemma length_get_mut [simp]: "length (UniValMap_get_mut f d i) = length d"
  by (simp add: UniValMap_get_mut_def split: option.split)

lemma grounded_get_mut:
  assumes "grounded ns" "\<And>n. node_parent (f n) = node_parent n" shows "grounded (UniValMap_get_mut f ns i)"
  unfolding grounded_def length_get_mut
proof (intro allI impI)
  fix j
  assume "UniValMap_get (UniValMap_get_mut f ns i) j \<noteq> None"
  then have "UniValMap_get ns j \<noteq> None" by (auto simp: get_get_mut split: if_splits)
  with assms(1) have "climbs ns (length ns) (Some j)" by (simp add: grounded_def)
  then show "climbs (UniValMap_get_mut f ns i) (length ns) (Some j)"
    by (rule climbs_cong) (auto simp: get_get_mut option.map_comp comp_def assms(2))
qed

lemma expose_returns:
  assumes "tree_shape tree Ts" shows "returns (Tree_expose_tag tree tag p)"
  using grounded_get_mut [OF shape_grounded [OF assms]]
  by (auto simp: Tree_expose_tag_def Let_def intro!: returns_intros expose_location_returns)

text \<open>A retag walks up from the parent of the new node, which was there before.\<close>

lemma sifa_returns: "returns (strongest_idempotent_foreign_access p prot)"
  by (simp split: PermissionPriv.split)

lemma insert_inside_returns: "returns (insert_inside_perm base i prot e acc)"
  by (auto simp: insert_inside_perm_def Let_def sifa_returns simp del: strongest_idempotent_foreign_access.simps split: prod.split intro!: returns_intros)

lemma iter_returns: "returns (DedupRangeMap_iter v offset len)"
  by (auto simp: DedupRangeMap_iter_def DedupRangeMap_find_offset_def split: sum.split intro!: returns_intros)

lemma key_insert_returns: "returns (UniKeyMap_insert m k)"
  by (auto simp: UniKeyMap_insert_def split: prod.split intro!: returns_intros)

lemma insert_climbs:
  assumes "climbs ns n i" "UniValMap_get ns idx = None"
  shows "climbs (UniValMap_get_mut (\<lambda>n. n\<lparr>node_children := f n\<rparr>) (UniValMap_insert ns idx new) j) n i"
  using assms(1) by (rule climbs_cong) (use assms(2) in \<open>auto simp: get_get_mut get_insert\<close>)

lemma new_child_walk:
  assumes sh: "tree_shape tree Ts" and m: "UniKeyMap_insert (tag_mapping tree) tag = (Ok (m, idx) :: ('e, _) outcome)"
    and p: "UniKeyMap_get m ptag = Some parent" "ptag \<noteq> tag"
  shows "returns (update_idempotent_foreign_access_after_retag \<lparr>tag_mapping = m,
    nodes = UniValMap_get_mut (\<lambda>n. n\<lparr>node_children := f n\<rparr>) (UniValMap_insert (nodes tree) idx new) parent, locations = locs, roots = rs\<rparr> parent sifa)"
proof -
  have key: "key_inv (tag_mapping tree)" using sh by (simp add: tree_shape_def virtual_inv_def)
  have ok: "tags_ok tree" using sh by (simp add: tree_shape_tags)
  have "UniKeyMap_get (tag_mapping tree) ptag = Some parent" using p key_get_insert [OF m] by simp
  then have "climbs (nodes tree) (length (nodes tree)) (Some parent)"
    using shape_grounded [OF sh] tag_in_forest [OF sh] by (simp add: grounded_def)
  moreover have "UniValMap_get (nodes tree) idx = None" using key_insert_fresh [OF key m] tags_ok_ran [OF ok, of idx] by blast
  moreover have "length (nodes tree) \<le> length (UniValMap_insert (nodes tree) idx new)"
    by (simp add: UniValMap_insert_def extend_to_length_def)
  ultimately have "climbs (UniValMap_get_mut (\<lambda>n. n\<lparr>node_children := f n\<rparr>) (UniValMap_insert (nodes tree) idx new) parent)
      (length (UniValMap_insert (nodes tree) idx new)) (Some parent)"
    using insert_climbs climbs_mono by blast
  then show ?thesis by (auto simp: update_idempotent_foreign_access_after_retag_def intro!: weaken_loop_returns)
qed

lemma new_child_returns:
  assumes sh: "tree_shape tree Ts" and prov: "prov \<noteq> Concrete tag"
  shows "returns (Tree_new_child tree base prov tag inside outp prot :: ('e, _) outcome)"
proof (cases prov)
  case (Concrete ptag)
  with prov have other: "ptag \<noteq> tag" by simp
  with Concrete show ?thesis
    by (auto simp: Tree_new_child_def Let_def iter_returns key_insert_returns insert_inside_returns sifa_returns unwrap_eq_Ok obind_eq_Ok
        simp del: strongest_idempotent_foreign_access.simps intro!: returns_intros new_child_walk [OF sh _ _ other])
next
  case Wildcard
  then show ?thesis
    by (auto simp: Tree_new_child_def Let_def iter_returns key_insert_returns insert_inside_returns sifa_returns
        simp del: strongest_idempotent_foreign_access.simps intro!: returns_intros)
qed

lemma tree_step_returns:
  assumes sh: "tree_shape tree Ts" and ok: "tree_op_ok (DedupRangeMap_size (locations tree)) op"
  shows "returns (tree_step op tree)"
proof (cases op)
  case (OpCollect live)
  from gc_shape [OF sh, where live = live and 'e = TbError] show ?thesis unfolding OpCollect tree_step.simps by (metis returns_simps(1))
qed (use ok in \<open>auto intro: new_child_returns [OF sh] access_returns [OF sh] dealloc_returns [OF sh] release_returns [OF sh] expose_returns [OF sh]\<close>)

section \<open>Property\<close>

text \<open>C17: The operations on the borrow tree of an allocation terminate. Whatever sequence of retags, accesses, deallocation checks, protector releases, exposures
  and tag collections runs from a new allocation on, with ranges inside the allocation, no loop of any of them runs forever: each one returns
  a tree, reports undefined behaviour or panics. So the fuel of the traversals and of the walks over ancestors and subtrees is always enough.\<close>

theorem tree_operations_terminate:
  assumes "sz < 2 ^ 64" "\<forall>op\<in>set ops. tree_op_ok sz op"
  shows "obind (Tree_new root_tag sz) (ofold tree_step ops) \<noteq> Diverge"
proof -
  have run: "returns (ofold tree_step ops tree)"
    if "tree_shape tree Ts" "DedupRangeMap_size (locations tree) = sz" "\<forall>op\<in>set ops. tree_op_ok sz op" for tree Ts ops
    using that
  proof (induction ops arbitrary: tree Ts)
    case (Cons op ops)
    then have ok: "tree_op_ok (DedupRangeMap_size (locations tree)) op" by simp
    show ?case
      unfolding ofold.simps
    proof (rule returns_obind [OF tree_step_returns [OF Cons.prems(1) ok]])
      fix tree1
      assume "tree_step op tree = Ok tree1"
      from tree_step_shape [OF Cons.prems(1) ok this] Cons.IH Cons.prems(2,3) show "returns (ofold tree_step ops tree1)" by auto
    qed
  qed simp
  have "returns (Tree_new root_tag sz :: (TbError, _) outcome)" by (auto simp: Tree_new_def key_insert_returns Let_def intro!: returns_intros)
  then have "returns (obind (Tree_new root_tag sz) (ofold tree_step ops))"
    by (rule returns_obind) (use run new_shape [OF _ assms(1)] assms(2) in blast)
  then show ?thesis by (simp add: returns_def)
qed

theorem tree_operations_terminate_witness:
  "obind (Tree_new 1 2) (ofold tree_step (demo_tree_ops @ [OpRelease demo_global 4, OpAccess Wildcard 0 2 Read demo_global, OpDealloc (Concrete 1) 0 2 demo_global])) \<noteq> Diverge"
proof -
  have "(2::nat) < 2 ^ 64" by simp
  moreover have "\<forall>op\<in>set (demo_tree_ops @ [OpRelease demo_global 4, OpAccess Wildcard 0 2 Read demo_global, OpDealloc (Concrete 1) 0 2 demo_global]). tree_op_ok 2 op"
    by (simp add: demo_tree_ops_def retagged_def map_inv_def DedupRangeMap_new_def DedupRangeMap_size_def)
  ultimately show ?thesis by (rule tree_operations_terminate)
qed

end
