(* ===== verification/SB_Item.thy ===== *)
theory SB_Item
  imports Borrow_Tracker
begin

text \<open>
  The items of a borrow stack, \<open>src/borrow_tracker/stacked_borrows/item.rs\<close>, and the permission
  relation \<open>Permission::grants\<close> of \<open>stacked_borrows/mod.rs\<close>. An item is one 64-bit word with three
  bit fields, and stays one here. The \<open>unwrap\<close> in \<open>Item::tag\<close> and the \<open>unreachable!\<close> in
  \<open>Permission::from_bits\<close> are the \<open>None\<close> of an option that the accessors open with \<open>the\<close>;
  \<open>Item_inv\<close> is what rules them out, and everything built by \<open>Item::new\<close> has it.
\<close>

unbundle bit_operations_syntax

section \<open>Model\<close>

datatype SbPermission = SbUnique | SharedReadWrite | SharedReadOnly | SbDisabled

definition SbPermission_to_bits :: "SbPermission \<Rightarrow> 64 word" where
  "SbPermission_to_bits perm =
     (case perm of SbUnique \<Rightarrow> 0 | SharedReadWrite \<Rightarrow> 1 | SharedReadOnly \<Rightarrow> 2 | SbDisabled \<Rightarrow> 3)"

definition SbPermission_from_bits :: "64 word \<Rightarrow> SbPermission option" where
  "SbPermission_from_bits perm =
     (if perm = 0 then Some SbUnique
      else if perm = 1 then Some SharedReadWrite
      else if perm = 2 then Some SharedReadOnly
      else if perm = 3 then Some SbDisabled
      else None)"

text \<open>\<open>Permission::grants\<close>\<close>

definition SbPermission_grants :: "SbPermission \<Rightarrow> AccessKind \<Rightarrow> bool" where
  "SbPermission_grants perm access \<longleftrightarrow> perm \<noteq> SbDisabled \<and> (access = Read \<or> perm \<noteq> SharedReadOnly)"

datatype Item = Item (item_bits: "64 word")

definition TAG_MASK :: "64 word" where
  "TAG_MASK = drop_bit 3 (- 1)"

definition PERM_MASK :: "64 word" where
  "PERM_MASK = push_bit 61 3"

definition PROTECTED_MASK :: "64 word" where
  "PROTECTED_MASK = push_bit 63 1"

definition Item_new :: "BorTag \<Rightarrow> SbPermission \<Rightarrow> bool \<Rightarrow> ('e, Item) outcome" where
  "Item_new tag perm protected =
     obind (check (BorTag_get tag \<le> TAG_MASK)) (\<lambda>_.
     let packed_tag = BorTag_get tag;
         packed_perm = push_bit 61 (SbPermission_to_bits perm);
         packed_protected = push_bit 63 (of_bool protected)
     in Ok (Item (packed_tag OR packed_perm OR packed_protected)))"

definition Item_tag :: "Item \<Rightarrow> BorTag" where
  "Item_tag item = the (BorTag_new (item_bits item AND TAG_MASK))"

definition Item_perm :: "Item \<Rightarrow> SbPermission" where
  "Item_perm item = the (SbPermission_from_bits (drop_bit 61 (item_bits item AND PERM_MASK)))"

definition Item_protected :: "Item \<Rightarrow> bool" where
  "Item_protected item \<longleftrightarrow> item_bits item AND PROTECTED_MASK > 0"

definition Item_set_permission :: "SbPermission \<Rightarrow> Item \<Rightarrow> Item" where
  "Item_set_permission perm item =
     (let cleared = item_bits item AND NOT PERM_MASK in
      Item (cleared OR push_bit 61 (SbPermission_to_bits perm)))"

definition Item_inv :: "Item \<Rightarrow> bool" where
  "Item_inv item \<longleftrightarrow> item_bits item AND TAG_MASK \<noteq> 0"

section \<open>Lemmas\<close>

lemma perm_bits_roundtrip [simp]: "SbPermission_from_bits (SbPermission_to_bits p) = Some p"
  by (cases p) (simp_all add: SbPermission_from_bits_def SbPermission_to_bits_def)

lemma perm_bits_le: "SbPermission_to_bits p = SbPermission_to_bits p AND mask 2"
  by (cases p) (simp_all add: SbPermission_to_bits_def mask_eq_exp_minus_1)

lemma perm_bits_small: "bit (SbPermission_to_bits p) n \<Longrightarrow> n < 2"
  by (subst (asm) perm_bits_le) (simp add: bit_simps)

lemma masks_bit:
  "bit TAG_MASK n \<longleftrightarrow> n < 61" "bit PERM_MASK n \<longleftrightarrow> n = 61 \<or> n = 62" "bit PROTECTED_MASK n \<longleftrightarrow> n = 63"
proof -
  show "bit TAG_MASK n \<longleftrightarrow> n < 61"
    by (auto simp: TAG_MASK_def bit_simps)
  have pm: "PERM_MASK = push_bit 61 (mask 2)" by (simp add: PERM_MASK_def mask_eq_exp_minus_1)
  show "bit PERM_MASK n \<longleftrightarrow> n = 61 \<or> n = 62" by (subst pm) (auto simp: bit_simps)
  show "bit PROTECTED_MASK n \<longleftrightarrow> n = 63" unfolding PROTECTED_MASK_def bit_simps by auto
qed

text \<open>Evaluation reads the two bits of the permission directly.\<close>

lemma Item_perm_code [code]:
  "Item_perm item =
     (if item_bits item AND 4611686018427387904 = 0
      then (if item_bits item AND 2305843009213693952 = 0 then SbUnique else SharedReadWrite)
      else (if item_bits item AND 2305843009213693952 = 0 then SharedReadOnly else SbDisabled))"
proof -
  let ?w = "item_bits item"
  have "?w AND push_bit 61 1 = 0 \<longleftrightarrow> \<not> bit ?w 61" "?w AND push_bit 62 1 = 0 \<longleftrightarrow> \<not> bit ?w 62"
    by (simp_all only: bit_iff_and_push_bit_not_eq_0 not_not)
  then have b: "?w AND 2305843009213693952 = 0 \<longleftrightarrow> \<not> bit ?w 61" "?w AND 4611686018427387904 = 0 \<longleftrightarrow> \<not> bit ?w 62"
    by simp_all
  have "drop_bit 61 (?w AND PERM_MASK) = (if bit ?w 61 then 1 else 0) OR (if bit ?w 62 then 2 else 0)"
    by (rule bit_word_eqI) (auto simp: bit_simps masks_bit intro: gr0I)
  then show ?thesis unfolding b by (simp add: Item_perm_def SbPermission_from_bits_def)
qed

lemma packed_perm_code:
  "push_bit 61 (SbPermission_to_bits perm) = (case perm of SbUnique \<Rightarrow> 0 | SharedReadWrite \<Rightarrow> 2305843009213693952
     | SharedReadOnly \<Rightarrow> 4611686018427387904 | SbDisabled \<Rightarrow> 6917529027641081856)"
  by (cases perm) (simp_all add: SbPermission_to_bits_def)

lemma masks_code [code]:
  "TAG_MASK = 2305843009213693951" "PERM_MASK = 6917529027641081856" "PROTECTED_MASK = 9223372036854775808"
proof -
  have "TAG_MASK = mask 61" by (rule bit_word_eqI) (simp add: masks_bit bit_simps)
  then show "TAG_MASK = 2305843009213693951" by (simp add: mask_eq_exp_minus_1)
qed (simp_all add: PERM_MASK_def PROTECTED_MASK_def)

lemma packed_protected_code: "push_bit 63 (of_bool b) = (if b then 9223372036854775808 else 0 :: 64 word)"
  by simp

declare Item_set_permission_def [unfolded packed_perm_code, code]
declare Item_new_def [unfolded packed_perm_code packed_protected_code, code]

lemma TAG_MASK_mask: "TAG_MASK = mask 61"
  by (rule bit_word_eqI) (simp add: masks_bit bit_simps)

lemma tag_bits:
  assumes "tag \<le> TAG_MASK" "bit tag n"
  shows "n < 61"
proof -
  have "tag < 2 ^ 61"
    using assms(1) by (simp add: TAG_MASK_mask mask_eq_exp_minus_1 word_le_nat_alt word_less_nat_alt)
  then have "tag AND mask 61 = tag" by (rule less_mask_eq)
  with assms(2) have "bit (tag AND mask 61) n" by simp
  then show ?thesis by (simp add: bit_simps)
qed

text \<open>The layout of the word: each accessor reads the bits of its own field.\<close>

lemma Item_new_fields:
  assumes "Item_new tag perm protected = (Ok item :: ('e, _) outcome)"
  shows "item_bits item AND TAG_MASK = tag" "Item_perm item = perm" "Item_protected item = protected"
    "tag \<noteq> 0 \<Longrightarrow> Item_tag item = tag" "tag \<noteq> 0 \<Longrightarrow> Item_inv item"
proof -
  let ?w = "tag OR push_bit 61 (SbPermission_to_bits perm) OR push_bit 63 (of_bool protected)"
  have item: "item = Item ?w" and le: "tag \<le> TAG_MASK"
    using assms by (auto simp: Item_new_def BorTag_get_def Let_def split: if_splits)
  have t: "?w AND TAG_MASK = tag"
    using tag_bits [OF le] by (intro bit_word_eqI) (auto simp: bit_simps masks_bit)
  then show "item_bits item AND TAG_MASK = tag" by (simp add: item)
  then show "tag \<noteq> 0 \<Longrightarrow> Item_tag item = tag" "tag \<noteq> 0 \<Longrightarrow> Item_inv item"
    by (simp_all add: Item_tag_def BorTag_new_def Item_inv_def)
  have "bit (drop_bit 61 (?w AND PERM_MASK)) n \<longleftrightarrow> bit (SbPermission_to_bits perm) n" for n
    using perm_bits_small [of perm n] tag_bits [OF le, of "61 + n"] by (auto simp: bit_simps masks_bit)
  then have "drop_bit 61 (?w AND PERM_MASK) = SbPermission_to_bits perm" by (rule bit_eqI)
  then show "Item_perm item = perm" by (simp add: item Item_perm_def)
  have "bit (?w AND PROTECTED_MASK) n \<longleftrightarrow> bit (if protected then PROTECTED_MASK else 0) n" for n
    using perm_bits_small [of perm "n - 61"] tag_bits [OF le, of n] unfolding bit_simps
    by (auto simp: bit_simps masks_bit)
  then have "?w AND PROTECTED_MASK = (if protected then PROTECTED_MASK else 0)" by (rule bit_eqI)
  moreover have "PROTECTED_MASK \<noteq> 0" by (simp add: PROTECTED_MASK_def)
  ultimately show "Item_protected item = protected" by (simp add: item Item_protected_def word_gt_0)
qed

lemma Item_set_permission_fields [simp]:
  "item_bits (Item_set_permission p item) AND TAG_MASK = item_bits item AND TAG_MASK"
  "Item_perm (Item_set_permission p item) = p"
  "Item_tag (Item_set_permission p item) = Item_tag item"
  "Item_protected (Item_set_permission p item) = Item_protected item"
  "Item_inv (Item_set_permission p item) = Item_inv item"
proof -
  let ?w = "item_bits item AND NOT PERM_MASK OR push_bit 61 (SbPermission_to_bits p)"
  have item: "Item_set_permission p item = Item ?w" by (simp add: Item_set_permission_def)
  have "?w AND TAG_MASK = item_bits item AND TAG_MASK"
    by (rule bit_word_eqI) (auto simp: bit_simps masks_bit)
  then show t: "item_bits (Item_set_permission p item) AND TAG_MASK = item_bits item AND TAG_MASK"
    by (simp add: item)
  then show "Item_tag (Item_set_permission p item) = Item_tag item"
    "Item_inv (Item_set_permission p item) = Item_inv item"
    by (simp_all add: Item_tag_def Item_inv_def)
  have "bit (drop_bit 61 (?w AND PERM_MASK)) n \<longleftrightarrow> bit (SbPermission_to_bits p) n" for n
    using perm_bits_small [of p n] by (auto simp: bit_simps masks_bit)
  then have "drop_bit 61 (?w AND PERM_MASK) = SbPermission_to_bits p" by (rule bit_eqI)
  then show "Item_perm (Item_set_permission p item) = p" by (simp add: item Item_perm_def)
  have "bit (?w AND PROTECTED_MASK) n \<longleftrightarrow> bit (item_bits item AND PROTECTED_MASK) n" for n
    using perm_bits_small [of p "n - 61"] by (auto simp: bit_simps masks_bit)
  then have "?w AND PROTECTED_MASK = item_bits item AND PROTECTED_MASK" by (rule bit_eqI)
  then show "Item_protected (Item_set_permission p item) = Item_protected item"
    by (simp add: item Item_protected_def)
qed

lemma from_bits_total: "\<exists>p. SbPermission_from_bits (drop_bit 61 (w AND PERM_MASK)) = Some p"
proof -
  have "drop_bit 61 (w AND PERM_MASK) = take_bit 2 (drop_bit 61 w)"
    by (rule bit_word_eqI) (auto simp: bit_simps masks_bit)
  moreover have "take_bit 2 v \<in> {0, 1, 2, 3}" for v :: "64 word"
  proof -
    have "unat (take_bit 2 v) < 4"
      by (simp only: unsigned_take_bit_eq) (simp add: take_bit_eq_mod)
    then have "unat (take_bit 2 v) \<in> {0, 1, 2, 3}" by auto
    then show ?thesis by (auto simp: word_unat_eq_iff)
  qed
  ultimately show ?thesis by (auto simp: SbPermission_from_bits_def)
qed

lemma Item_new_set_permission:
  assumes "tag \<le> TAG_MASK"
  shows "Item_new tag q protected =
    (Ok (Item_set_permission q (Item (tag OR push_bit 61 (SbPermission_to_bits p) OR push_bit 63 (of_bool protected)))) :: ('e, _) outcome)"
proof -
  let ?w = "\<lambda>p. tag OR push_bit 61 (SbPermission_to_bits p) OR push_bit 63 (of_bool protected)"
  have "bit (?w q) n \<longleftrightarrow> bit (?w p AND NOT PERM_MASK OR push_bit 61 (SbPermission_to_bits q)) n" for n
    using perm_bits_small [of p "n - 61"] perm_bits_small [of q "n - 61"] tag_bits [OF assms, of n]
    unfolding bit_simps by (auto simp: masks_bit)
  then have "?w q = ?w p AND NOT PERM_MASK OR push_bit 61 (SbPermission_to_bits q)" by (rule bit_eqI)
  with assms show ?thesis by (simp add: Item_new_def BorTag_get_def Item_set_permission_def)
qed

section \<open>Properties\<close>

text \<open>C18: The packing of items is lossless. \<open>Item::new\<close> succeeds exactly for tags of at most 61 bits,
  the three accessors return what it was given (so its debug assertions hold), and \<open>set_permission\<close>
  turns the item into the one \<open>Item::new\<close> builds from the same tag and flag with the new permission.\<close>

theorem item_packing:
  assumes "tag \<noteq> 0"
  shows "(Item_new tag perm protected = (Panic :: (unit, _) outcome) \<longleftrightarrow> tag > TAG_MASK) \<and>
    (tag \<le> TAG_MASK \<longrightarrow> (\<exists>item. Item_new tag perm protected = (Ok item :: (unit, _) outcome) \<and>
      Item_tag item = tag \<and> Item_perm item = perm \<and> Item_protected item = protected \<and>
      (\<forall>q. Item_new tag q protected = (Ok (Item_set_permission q item) :: (unit, _) outcome))))"
proof (cases "tag \<le> TAG_MASK")
  case True
  then obtain item where item: "Item_new tag perm protected = (Ok item :: (unit, _) outcome)"
    "item = Item (tag OR push_bit 61 (SbPermission_to_bits perm) OR push_bit 63 (of_bool protected))"
    by (auto simp: Item_new_def BorTag_get_def Let_def)
  have q: "\<forall>q. Item_new tag q protected = (Ok (Item_set_permission q item) :: (unit, _) outcome)"
    using Item_new_set_permission [OF True] item(2) by blast
  note f = Item_new_fields(2,3) [OF item(1)] Item_new_fields(4) [OF item(1) assms]
  have "\<exists>item. Item_new tag perm protected = (Ok item :: (unit, _) outcome) \<and>
      Item_tag item = tag \<and> Item_perm item = perm \<and> Item_protected item = protected \<and>
      (\<forall>q. Item_new tag q protected = (Ok (Item_set_permission q item) :: (unit, _) outcome))"
    using f item(1) q by blast
  with True item(1) show ?thesis by (simp add: not_less)
next
  case False
  then show ?thesis by (auto simp: Item_new_def BorTag_get_def)
qed

theorem item_packing_witness:
  "\<exists>item. Item_new 1 SbUnique True = (Ok item :: (unit, _) outcome) \<and> Item_tag item = 1 \<and>
    Item_perm item = SbUnique \<and> Item_protected item"
proof -
  have "(1 :: BorTag) \<le> TAG_MASK" by (simp add: TAG_MASK_mask mask_eq_exp_minus_1 word_le_nat_alt)
  with item_packing [of 1 SbUnique True] show ?thesis by auto
qed

end
