(* ===== verification/SB_Stack.thy ===== *)
theory SB_Stack
  imports SB_Item "HOL-Library.Multiset" "HOL-Library.Sublist"
begin

text \<open>
  The borrow stack of one location, \<open>src/borrow_tracker/stacked_borrows/stack.rs\<close>, as it is built with
  the default feature \<open>stack-cache\<close>: next to the items there is an LRU cache of 32 searches and a range
  outside of which no \<open>Unique\<close> item can be. The cache arrays have a fixed length, so indexing them needs
  no bounds check; indexing the stack itself panics out of range. Visitors, which check protectors, are
  parameters of the operations that take them. The second section gives what the same operations do on
  the bare items, which is the code without the feature.
\<close>

section \<open>The cached stack\<close>

definition CACHE_LEN :: nat where
  "CACHE_LEN = 32"

record StackCache =
  cache_items :: "Item list"
  cache_idx :: "nat list"

record Stack =
  borrows :: "Item list"
  unknown_bottom :: "BorTag option"
  cache :: StackCache
  unique_range :: "nat \<times> nat"

text \<open>\<open>Range::is_empty\<close> and a search from the top.\<close>

definition range_is_empty :: "nat \<times> nat \<Rightarrow> bool" where
  "range_is_empty r \<longleftrightarrow> \<not> fst r < snd r"

definition rposition :: "('a \<Rightarrow> bool) \<Rightarrow> 'a list \<Rightarrow> nat option" where
  "rposition P xs = find (\<lambda>i. P (xs ! i)) (rev [0..<length xs])"

subsection \<open>Garbage collection\<close>

definition should_keep :: "(BorTag \<Rightarrow> bool) \<Rightarrow> Item \<Rightarrow> Item \<Rightarrow> bool" where
  "should_keep tags left this =
     (case Item_perm this of
        SharedReadWrite \<Rightarrow> tags (Item_tag this)
      | SbDisabled \<Rightarrow> Item_perm left = SharedReadWrite
      | _ \<Rightarrow> Item_perm left = SharedReadWrite \<or> tags (Item_tag this))"

definition retain_step ::
  "(BorTag \<Rightarrow> bool) \<Rightarrow> nat \<Rightarrow> Item list \<times> nat \<times> nat option \<Rightarrow> Item list \<times> nat \<times> nat option" where
  "retain_step tags read_idx = (\<lambda>(bs, write_idx, first_removed).
     (let left = bs ! (read_idx - 1); this = bs ! read_idx in
      if should_keep tags left this
      then (if read_idx \<noteq> write_idx then bs[write_idx := bs ! read_idx] else bs, write_idx + 1, first_removed)
      else (bs, write_idx, if first_removed = None then Some read_idx else first_removed)))"

definition retain_cache :: "nat \<Rightarrow> Item \<Rightarrow> StackCache \<Rightarrow> StackCache" where
  "retain_cache first_removed root c =
     \<lparr>cache_items = map (\<lambda>(item, i). if i \<ge> first_removed then root else item) (zip (cache_items c) (cache_idx c)),
      cache_idx = map (\<lambda>i. if i \<ge> first_removed then 0 else i) (cache_idx c)\<rparr>"

definition Stack_retain :: "(BorTag \<Rightarrow> bool) \<Rightarrow> Stack \<Rightarrow> ('e, Stack) outcome" where
  "Stack_retain tags s =
     (let (bs, write_idx, first_removed) =
            fold (retain_step tags) [1..<length (borrows s)] (borrows s, 1, None);
          s = s\<lparr>borrows := take write_idx bs\<rparr>
      in case first_removed of
           None \<Rightarrow> Ok s
         | Some first_removed \<Rightarrow>
             let s = (if range_is_empty (unique_range s) then s
                      else s\<lparr>unique_range := (0, length (borrows s))\<rparr>)
             in obind (vec_get (borrows s) 0) (\<lambda>root.
                Ok (s\<lparr>cache := retain_cache first_removed root (cache s)\<rparr>)))"

subsection \<open>The cache\<close>

definition copy_within :: "'a list \<Rightarrow> 'a list" where
  "copy_within xs = take 1 xs @ take (CACHE_LEN - 1) xs"

definition StackCache_add :: "nat \<Rightarrow> Item \<Rightarrow> StackCache \<Rightarrow> StackCache" where
  "StackCache_add idx item c =
     \<lparr>cache_items = (copy_within (cache_items c))[0 := item], cache_idx = (copy_within (cache_idx c))[0 := idx]\<rparr>"

definition swap01 :: "'a list \<Rightarrow> 'a list" where
  "swap01 xs = xs[0 := xs ! 1, 1 := xs ! 0]"

definition Stack_eq :: "Stack \<Rightarrow> Stack \<Rightarrow> bool" where
  "Stack_eq s other \<longleftrightarrow> borrows s = borrows other \<and> unknown_bottom s = unknown_bottom other"

definition verify_cache_consistency :: "Stack \<Rightarrow> ('e, unit) outcome" where
  "verify_cache_consistency s =
     obind (if length (borrows s) \<ge> CACHE_LEN
            then ofold (\<lambda>(item, stack_idx) _.
                   obind (vec_get (borrows s) stack_idx) (\<lambda>b. check (b = item)))
                 (zip (cache_items (cache s)) (cache_idx (cache s))) ()
            else Ok ()) (\<lambda>_.
     obind (ofold (\<lambda>(idx, item) _.
              if Item_perm item = SbUnique
              then check (fst (unique_range s) \<le> idx \<and> idx < snd (unique_range s)) else Ok ())
            (zip [0..<length (borrows s)] (borrows s)) ()) (\<lambda>_.
     check (fst (unique_range s) \<le> snd (unique_range s) \<and> snd (unique_range s) \<le> length (borrows s))))"

subsection \<open>Searching\<close>

definition find_granting_cache :: "AccessKind \<Rightarrow> BorTag \<Rightarrow> Stack \<Rightarrow> Stack \<times> nat option" where
  "find_granting_cache access tag s =
     (if length (borrows s) \<le> CACHE_LEN then (s, None)
      else case position (\<lambda>t. Item_tag t = tag) (cache_items (cache s)) of
        None \<Rightarrow> (s, None)
      | Some i \<Rightarrow>
          let stack_idx = cache_idx (cache s) ! i; item = cache_items (cache s) ! i in
          if SbPermission_grants (Item_perm item) access then
            ((if i = 1 then
                s\<lparr>cache := \<lparr>cache_items = swap01 (cache_items (cache s)), cache_idx = swap01 (cache_idx (cache s))\<rparr>\<rparr>
              else if i > 1 then s\<lparr>cache := StackCache_add stack_idx item (cache s)\<rparr>
              else s), Some stack_idx)
          else (s, None))"

definition find_granting_tagged :: "AccessKind \<Rightarrow> BorTag \<Rightarrow> Stack \<Rightarrow> Stack \<times> nat option" where
  "find_granting_tagged access tag s =
     (let (s, found) = find_granting_cache access tag s in
      case found of
        Some idx \<Rightarrow> (s, Some idx)
      | None \<Rightarrow>
          (case rposition (\<lambda>item. tag = Item_tag item \<and> SbPermission_grants (Item_perm item) access) (borrows s) of
             Some stack_idx \<Rightarrow>
               (s\<lparr>cache := StackCache_add stack_idx (borrows s ! stack_idx) (cache s)\<rparr>, Some stack_idx)
           | None \<Rightarrow> (s, None)))"

text \<open>\<open>Ok(None)\<close> is a match in the unknown part of the stack, \<open>Err\<close> no match.\<close>

definition find_granting ::
  "AccessKind \<Rightarrow> ProvenanceExtra \<Rightarrow> (BorTag \<Rightarrow> bool) \<Rightarrow> Stack \<Rightarrow> (unit, Stack \<times> nat option) outcome" where
  "find_granting access tag exposed_tags s =
     (case tag of
        Wildcard \<Rightarrow>
          (case rposition (\<lambda>item. SbPermission_grants (Item_perm item) access \<and> exposed_tags (Item_tag item)) (borrows s) of
             Some idx \<Rightarrow> Ok (s, Some idx)
           | None \<Rightarrow> if unknown_bottom s \<noteq> None then Ok (s, None) else Err ())
      | Concrete tag \<Rightarrow>
          (let (s, found) = find_granting_tagged access tag s in
           case found of
             Some idx \<Rightarrow> Ok (s, Some idx)
           | None \<Rightarrow>
               if (case unknown_bottom s of None \<Rightarrow> False | Some unknown_limit \<Rightarrow> tag < unknown_limit)
               then Ok (s, None) else Err ()))"

subsection \<open>Inserting\<close>

definition insert_unique_range :: "nat \<Rightarrow> Item \<Rightarrow> nat \<times> nat \<Rightarrow> nat \<times> nat" where
  "insert_unique_range new_idx new r =
     (let r = (if fst r \<ge> new_idx then fst r + 1 else fst r, snd r);
          r = (fst r, if snd r \<ge> new_idx then snd r + 1 else snd r)
      in if Item_perm new = SbUnique
         then (if range_is_empty r then (new_idx, new_idx + 1)
               else (min (fst r) new_idx, max (snd r) (new_idx + 1)))
         else r)"

definition insert_cache :: "nat \<Rightarrow> Item \<Rightarrow> Stack \<Rightarrow> Stack" where
  "insert_cache new_idx new s =
     (let s = s\<lparr>unique_range := insert_unique_range new_idx new (unique_range s)\<rparr>;
          s = (if new_idx \<noteq> length (borrows s) - 1
               then s\<lparr>cache := (cache s)\<lparr>cache_idx := map (\<lambda>i. if i \<ge> new_idx then i + 1 else i) (cache_idx (cache s))\<rparr>\<rparr>
               else s)
      in s\<lparr>cache := StackCache_add new_idx new (cache s)\<rparr>)"

definition Stack_insert :: "nat \<Rightarrow> Item \<Rightarrow> Stack \<Rightarrow> ('e, Stack) outcome" where
  "Stack_insert new_idx new s =
     obind (vec_insert new_idx new (borrows s)) (\<lambda>bs.
     Ok (insert_cache new_idx new (s\<lparr>borrows := bs\<rparr>)))"

definition Stack_new :: "Item \<Rightarrow> Stack" where
  "Stack_new item =
     \<lparr>borrows = [item], unknown_bottom = None,
      cache = \<lparr>cache_items = replicate CACHE_LEN item, cache_idx = replicate CACHE_LEN 0\<rparr>,
      unique_range = (if Item_perm item = SbUnique then (0, 1) else (0, 0))\<rparr>"

definition Stack_get :: "nat \<Rightarrow> Stack \<Rightarrow> Item option" where
  "Stack_get idx s = (if idx < length (borrows s) then Some (borrows s ! idx) else None)"

definition Stack_len :: "Stack \<Rightarrow> nat" where
  "Stack_len s = length (borrows s)"

definition set_unknown_bottom :: "BorTag \<Rightarrow> Stack \<Rightarrow> Stack" where
  "set_unknown_bottom tag s = s\<lparr>borrows := [], unknown_bottom := Some tag, unique_range := (0, 0)\<rparr>"

subsection \<open>Disabling and popping\<close>

definition disable_step ::
  "(Item \<Rightarrow> ('e, unit) outcome) \<Rightarrow> nat \<Rightarrow> Item list \<times> Item list \<Rightarrow> ('e, Item list \<times> Item list) outcome" where
  "disable_step visitor i = (\<lambda>(bs, cached).
     (let item = bs ! i in
      if Item_perm item = SbUnique
      then obind (visitor item) (\<lambda>_.
           Ok (bs[i := Item_set_permission SbDisabled item],
               map (\<lambda>it. if Item_tag it = Item_tag item then Item_set_permission SbDisabled it else it) cached))
      else Ok (bs, cached)))"

definition disable_uniques_starting_at ::
  "nat \<Rightarrow> (Item \<Rightarrow> ('e, unit) outcome) \<Rightarrow> Stack \<Rightarrow> ('e, Stack) outcome" where
  "disable_uniques_starting_at disable_start visitor s =
     obind (if disable_start \<le> snd (unique_range s)
            then let lower = max (fst (unique_range s)) disable_start; upper = snd (unique_range s) in
              obind (check (lower \<le> upper \<and> upper \<le> length (borrows s))) (\<lambda>_.
              obind (ofold (disable_step visitor) [lower..<upper] (borrows s, cache_items (cache s))) (\<lambda>(bs, cached).
              Ok (s\<lparr>borrows := bs, cache := (cache s)\<lparr>cache_items := cached\<rparr>\<rparr>)))
            else Ok s) (\<lambda>s.
     if disable_start \<le> fst (unique_range s) then Ok (s\<lparr>unique_range := (0, 0)\<rparr>)
     else Ok (s\<lparr>unique_range := (fst (unique_range s), min (snd (unique_range s)) disable_start)\<rparr>))"

function pop_loop :: "nat \<Rightarrow> (Item \<Rightarrow> ('e, unit) outcome) \<Rightarrow> Item list \<Rightarrow> ('e, Item list) outcome" where
  "pop_loop start visitor bs =
     (if length bs > start
      then obind (visitor (last bs)) (\<lambda>_. pop_loop start visitor (butlast bs))
      else Ok bs)"
  by pat_completeness auto
termination by (relation "measure (\<lambda>(_, _, bs). length bs)") auto

declare pop_loop.simps [simp del]

text \<open>\<open>xs[a..b].rotate_left(1)\<close>\<close>

definition rotate_range :: "nat \<Rightarrow> nat \<Rightarrow> 'a list \<Rightarrow> 'a list" where
  "rotate_range a b xs = take a xs @ rotate1 (take (b - a) (drop a xs)) @ drop b xs"

fun repair_loop :: "nat \<Rightarrow> nat \<Rightarrow> StackCache \<Rightarrow> nat \<Rightarrow> nat \<Rightarrow> StackCache \<times> nat" where
  "repair_loop 0 start c removed cursor = (c, removed)"
| "repair_loop (Suc n) start c removed cursor =
     (if cache_idx c ! cursor \<ge> start
      then repair_loop n start
             \<lparr>cache_items = rotate_range cursor (CACHE_LEN - removed) (cache_items c),
              cache_idx = rotate_range cursor (CACHE_LEN - removed) (cache_idx c)\<rparr>
             (removed + 1) cursor
      else repair_loop n start c removed (cursor + 1))"

definition repair_cache :: "nat \<Rightarrow> Item \<Rightarrow> StackCache \<Rightarrow> StackCache" where
  "repair_cache start base_tag c =
     (let (c, removed) = repair_loop (CACHE_LEN - 1) start c 0 0 in
      fold (\<lambda>i c. \<lparr>cache_items = (cache_items c)[i := base_tag], cache_idx = (cache_idx c)[i := 0]\<rparr>)
        [CACHE_LEN - removed - 1..<CACHE_LEN] c)"

definition pop_items_after ::
  "nat \<Rightarrow> (Item \<Rightarrow> ('e, unit) outcome) \<Rightarrow> Stack \<Rightarrow> ('e, Stack) outcome" where
  "pop_items_after start visitor s =
     obind (pop_loop start visitor (borrows s)) (\<lambda>bs.
     let s = s\<lparr>borrows := bs\<rparr> in
     if bs \<noteq> [] then
       let s = s\<lparr>cache := repair_cache start (bs ! 0) (cache s)\<rparr> in
       if start \<le> fst (unique_range s) then Ok (s\<lparr>unique_range := (0, 0)\<rparr>)
       else Ok (s\<lparr>unique_range := (fst (unique_range s), min (snd (unique_range s)) start)\<rparr>)
     else Ok (s\<lparr>unique_range := (0, 0)\<rparr>))"

section \<open>The stack without the cache\<close>

definition plain_find ::
  "AccessKind \<Rightarrow> ProvenanceExtra \<Rightarrow> (BorTag \<Rightarrow> bool) \<Rightarrow> Item list \<Rightarrow> BorTag option \<Rightarrow> (unit, nat option) outcome" where
  "plain_find access tag exposed_tags bs bottom =
     (case rposition (\<lambda>item. SbPermission_grants (Item_perm item) access \<and>
             (case tag of Wildcard \<Rightarrow> exposed_tags (Item_tag item) | Concrete t \<Rightarrow> t = Item_tag item)) bs of
        Some idx \<Rightarrow> Ok (Some idx)
      | None \<Rightarrow>
          (case bottom of
             None \<Rightarrow> Err ()
           | Some unknown_limit \<Rightarrow>
               (case tag of
                  Wildcard \<Rightarrow> Ok None
                | Concrete t \<Rightarrow> if t < unknown_limit then Ok None else Err ())))"

definition plain_disable_step :: "(Item \<Rightarrow> ('e, unit) outcome) \<Rightarrow> nat \<Rightarrow> Item list \<Rightarrow> ('e, Item list) outcome" where
  "plain_disable_step visitor i bs =
     (if Item_perm (bs ! i) = SbUnique
      then obind (visitor (bs ! i)) (\<lambda>_. Ok (bs[i := Item_set_permission SbDisabled (bs ! i)]))
      else Ok bs)"

definition plain_disable :: "nat \<Rightarrow> (Item \<Rightarrow> ('e, unit) outcome) \<Rightarrow> Item list \<Rightarrow> ('e, Item list) outcome" where
  "plain_disable disable_start visitor bs = ofold (plain_disable_step visitor) [disable_start..<length bs] bs"

fun retain_from :: "(BorTag \<Rightarrow> bool) \<Rightarrow> Item \<Rightarrow> Item list \<Rightarrow> Item list" where
  "retain_from tags left [] = []"
| "retain_from tags left (this # bs) =
     (if should_keep tags left this then this # retain_from tags this bs else retain_from tags this bs)"

fun plain_retain :: "(BorTag \<Rightarrow> bool) \<Rightarrow> Item list \<Rightarrow> Item list" where
  "plain_retain tags [] = []"
| "plain_retain tags (root # bs) = root # retain_from tags root bs"

section \<open>The invariant\<close>

definition entries :: "StackCache \<Rightarrow> (Item \<times> nat) list" where
  "entries c = zip (cache_items c) (cache_idx c)"

definition entry_ok :: "Item list \<Rightarrow> Item \<times> nat \<Rightarrow> bool" where
  "entry_ok bs e \<longleftrightarrow> snd e < length bs \<and> bs ! snd e = fst e"

definition covers :: "Item list \<Rightarrow> (Item \<times> nat) list \<Rightarrow> bool" where
  "covers bs es \<longleftrightarrow> (\<forall>k\<le>length bs. k \<le> length (filter (\<lambda>e. snd e < k) es))"

text \<open>The cache starts with valid entries. What follows them may be left over from before the stack was
  forgotten; then the valid ones are at least as many as the items, also after popping to any height.\<close>

definition entries_inv :: "Item list \<Rightarrow> (Item \<times> nat) list \<Rightarrow> bool" where
  "entries_inv bs es \<longleftrightarrow> length es = CACHE_LEN \<and>
     (\<exists>good stale. es = good @ stale \<and> (\<forall>e\<in>set good. entry_ok bs e) \<and> (stale = [] \<or> covers bs good))"

definition cache_inv :: "Item list \<Rightarrow> StackCache \<Rightarrow> bool" where
  "cache_inv bs c \<longleftrightarrow> length (cache_items c) = CACHE_LEN \<and> length (cache_idx c) = CACHE_LEN \<and> entries_inv bs (entries c)"

definition unique_inv :: "Item list \<Rightarrow> nat \<times> nat \<Rightarrow> bool" where
  "unique_inv bs r \<longleftrightarrow> fst r \<le> snd r \<and> snd r \<le> length bs \<and>
     (\<forall>i<length bs. Item_perm (bs ! i) = SbUnique \<longrightarrow> fst r \<le> i \<and> i < snd r)"

definition tags_distinct :: "Item list \<Rightarrow> bool" where
  "tags_distinct bs \<longleftrightarrow> distinct (map Item_tag bs)"

text \<open>An empty range sits at the bottom; right after the first item above an unknown bottom was pushed it
  sits on top of that item.\<close>

definition range_inv :: "Item list \<Rightarrow> nat \<times> nat \<Rightarrow> bool" where
  "range_inv bs r \<longleftrightarrow> (fst r = snd r \<longrightarrow>
     fst r = 0 \<or> fst r = 1 \<and> length bs = 1 \<and> Item_perm (bs ! 0) \<noteq> SharedReadWrite)"

definition Stack_inv :: "Stack \<Rightarrow> bool" where
  "Stack_inv s \<longleftrightarrow> tags_distinct (borrows s) \<and> cache_inv (borrows s) (cache s) \<and>
     unique_inv (borrows s) (unique_range s) \<and> range_inv (borrows s) (unique_range s)"

text \<open>The cached stack \<open>s\<close> stands for the plain stack with items \<open>bs\<close> and unknown bottom \<open>bottom\<close>.\<close>

definition stack_rel :: "Item list \<Rightarrow> BorTag option \<Rightarrow> Stack \<Rightarrow> bool" where
  "stack_rel bs bottom s \<longleftrightarrow> Stack_inv s \<and> borrows s = bs \<and> unknown_bottom s = bottom"

definition range_reset :: "Stack \<Rightarrow> bool" where
  "range_reset s \<longleftrightarrow> (range_is_empty (unique_range s) \<longrightarrow> unique_range s = (0, 0))"

section \<open>Lemmas\<close>

lemma CACHE_LEN_simps [simp]: "0 < CACHE_LEN" "CACHE_LEN \<noteq> 0" "Suc (CACHE_LEN - 1) = CACHE_LEN"
  "1 < CACHE_LEN" "Suc 0 < CACHE_LEN" "Suc (CACHE_LEN - Suc 0) = CACHE_LEN"
  by (simp_all add: CACHE_LEN_def)

subsection \<open>Searches\<close>

lemma rposition_snoc: "rposition P (xs @ [x]) = (if P x then Some (length xs) else rposition P xs)"
proof -
  have "find (\<lambda>i. P ((xs @ [x]) ! i)) (rev [0..<length xs]) = find (\<lambda>i. P (xs ! i)) (rev [0..<length xs])"
    by (intro find_cong) (auto simp: nth_append)
  then show ?thesis by (simp add: rposition_def nth_append)
qed

lemma rposition_Nil [simp]: "rposition P [] = None"
  by (simp add: rposition_def)

lemma rposition_Some:
  "rposition P xs = Some i \<longleftrightarrow> i < length xs \<and> P (xs ! i) \<and> (\<forall>j. i < j \<and> j < length xs \<longrightarrow> \<not> P (xs ! j))"
proof (induction xs arbitrary: i rule: rev_induct)
  case (snoc x xs)
  consider "i < length xs" | "i = length xs" | "length xs < i" by linarith
  then show ?case
  proof cases
    case 1
    have "(\<forall>j. i < j \<and> j < length (xs @ [x]) \<longrightarrow> \<not> P ((xs @ [x]) ! j)) \<longleftrightarrow>
      \<not> P x \<and> (\<forall>j. i < j \<and> j < length xs \<longrightarrow> \<not> P (xs ! j))"
      using 1 by (auto simp: nth_append less_Suc_eq)
    with 1 snoc show ?thesis by (auto simp: rposition_snoc nth_append)
  next
    case 2
    with snoc [of i] show ?thesis by (simp add: rposition_snoc less_Suc_eq) linarith
  next
    case 3
    with snoc [of i] show ?thesis by (simp add: rposition_snoc)
  qed
qed simp

lemma rposition_None: "rposition P xs = None \<longleftrightarrow> (\<forall>x\<in>set xs. \<not> P x)"
  by (induction xs rule: rev_induct) (auto simp: rposition_snoc)

lemma tags_distinct_nth:
  "tags_distinct bs \<Longrightarrow> i < length bs \<Longrightarrow> j < length bs \<Longrightarrow> Item_tag (bs ! i) = Item_tag (bs ! j) \<Longrightarrow> i = j"
  by (auto simp: tags_distinct_def distinct_conv_nth)

subsection \<open>The cache\<close>

lemma cache_invI:
  assumes "length (cache_items c) = CACHE_LEN" "length (cache_idx c) = CACHE_LEN" "entries c = good @ stale"
    "\<forall>e\<in>set good. entry_ok bs e" "stale = [] \<or> covers bs good"
  shows "cache_inv bs c"
  using assms unfolding cache_inv_def entries_inv_def by (metis entries_def length_zip min.idem)

lemma cache_invE:
  assumes "cache_inv bs c"
  obtains good stale where "entries c = good @ stale" "\<And>e. e \<in> set good \<Longrightarrow> entry_ok bs e" "stale = [] \<or> covers bs good"
    "length (cache_items c) = CACHE_LEN" "length (cache_idx c) = CACHE_LEN" "length (entries c) = CACHE_LEN"
  using assms unfolding cache_inv_def entries_inv_def by blast

text \<open>A stack that is at least as long as the cache has a valid cache.\<close>

lemma full_cache_ok:
  assumes "cache_inv bs c" "CACHE_LEN \<le> length bs" "e \<in> set (entries c)"
  shows "entry_ok bs e"
proof -
  from assms(1) obtain good stale where gs: "entries c = good @ stale" "\<And>e. e \<in> set good \<Longrightarrow> entry_ok bs e"
    "stale = [] \<or> covers bs good" "length (entries c) = CACHE_LEN" by (rule cache_invE) blast
  have "CACHE_LEN \<le> length good" if "covers bs good"
    using that assms(2) length_filter_le [of "\<lambda>e. snd e < CACHE_LEN" good] unfolding covers_def by (meson order.trans)
  with gs(1,3,4) have "stale = []" by (metis add_le_same_cancel1 length_append le_zero_eq length_0_conv)
  with gs assms(3) show ?thesis by simp
qed

lemma entries_nth: "length (cache_items c) = length (cache_idx c) \<Longrightarrow> i < length (cache_items c) \<Longrightarrow>
    (cache_items c ! i, cache_idx c ! i) \<in> set (entries c)"
  by (auto simp: entries_def in_set_zip)

lemma copy_within_update: "length xs = CACHE_LEN \<Longrightarrow> (copy_within xs)[0 := x] = x # take (CACHE_LEN - 1) xs"
  by (cases xs) (auto simp: copy_within_def)

lemma entries_add:
  assumes "length (cache_items c) = CACHE_LEN" "length (cache_idx c) = CACHE_LEN"
  shows "entries (StackCache_add idx item c) = (item, idx) # take (CACHE_LEN - 1) (entries c)"
    "length (cache_items (StackCache_add idx item c)) = CACHE_LEN" "length (cache_idx (StackCache_add idx item c)) = CACHE_LEN"
  using assms by (simp_all add: entries_def StackCache_add_def copy_within_update take_zip)

lemma covers_Cons: "covers bs es \<Longrightarrow> covers bs (e # es)"
  by (auto simp: covers_def intro: le_SucI)

text \<open>Adding an entry in front of valid entries that may be followed by stale ones.\<close>

lemma cache_inv_push_entry:
  assumes "length (cache_items c) = CACHE_LEN" "length (cache_idx c) = CACHE_LEN" "entries c = good @ stale"
    "\<And>e. e \<in> set good \<Longrightarrow> entry_ok bs e" "stale = [] \<or> covers bs ((item, idx) # good)" "entry_ok bs (item, idx)"
  shows "cache_inv bs (StackCache_add idx item c)"
proof (cases "stale = []")
  case True
  have "\<forall>e\<in>set ((item, idx) # take (CACHE_LEN - 1) good). entry_ok bs e"
    using assms(4,6) by (metis in_set_takeD set_ConsD)
  with True assms(3) entries_add [OF assms(1,2)] show ?thesis
    by (intro cache_invI [where stale = "[]"]) auto
next
  case False
  have "length (good @ stale) = CACHE_LEN" using assms(1-3) by (metis entries_def length_zip min.idem)
  with False have "length good \<le> CACHE_LEN - 1"
    by (metis One_nat_def Suc_leI length_append length_greater_0_conv less_add_same_cancel1 less_Suc_eq_le CACHE_LEN_simps(3))
  with False assms(3-6) entries_add [OF assms(1,2)] show ?thesis
    by (intro cache_invI [where good = "(item, idx) # good"]) auto
qed

lemma cache_inv_add:
  assumes "cache_inv bs c" "entry_ok bs (item, idx)"
  shows "cache_inv bs (StackCache_add idx item c)"
proof -
  from assms(1) obtain good stale where gs: "entries c = good @ stale" "\<And>e. e \<in> set good \<Longrightarrow> entry_ok bs e"
    "stale = [] \<or> covers bs good" and len: "length (cache_items c) = CACHE_LEN" "length (cache_idx c) = CACHE_LEN"
    by (rule cache_invE) blast
  from covers_Cons gs(3) assms(2) show ?thesis by (intro cache_inv_push_entry [OF len gs(1,2)]) auto
qed

lemma set_swap01: "1 < length xs \<Longrightarrow> set (swap01 xs) \<subseteq> set xs"
  by (cases xs rule: remdups_adj.cases) (auto simp: swap01_def)

lemma cache_inv_swap:
  assumes "cache_inv bs c" "CACHE_LEN \<le> length bs"
  shows "cache_inv bs \<lparr>cache_items = swap01 (cache_items c), cache_idx = swap01 (cache_idx c)\<rparr>"
proof -
  from assms(1) have len: "length (cache_items c) = CACHE_LEN" "length (cache_idx c) = CACHE_LEN"
    by (auto simp: cache_inv_def)
  let ?c = "\<lparr>cache_items = swap01 (cache_items c), cache_idx = swap01 (cache_idx c)\<rparr>"
  have "entries ?c = swap01 (entries c)"
    using len by (simp add: entries_def swap01_def zip_update nth_zip del: One_nat_def)
  moreover have "set (swap01 (entries c)) \<subseteq> set (entries c)"
    using len by (intro set_swap01) (simp add: entries_def)
  ultimately have "\<forall>e\<in>set (entries ?c). entry_ok bs e" using full_cache_ok [OF assms] by (metis subsetD)
  then show ?thesis using len by (intro cache_invI [where stale = "[]"]) (auto simp: swap01_def)
qed

lemma find_granting_cache_inv:
  assumes "cache_inv (borrows s) (cache s)" "find_granting_cache access tag s = (s', found)"
  shows "cache_inv (borrows s) (cache s')" "s' = s\<lparr>cache := cache s'\<rparr>"
    "found = Some i \<Longrightarrow> i < length (borrows s) \<and> Item_tag (borrows s ! i) = tag \<and>
      SbPermission_grants (Item_perm (borrows s ! i)) access"
proof -
  have "cache_inv (borrows s) (cache s') \<and> s' = s\<lparr>cache := cache s'\<rparr> \<and>
    (\<forall>i. found = Some i \<longrightarrow> i < length (borrows s) \<and> Item_tag (borrows s ! i) = tag \<and>
      SbPermission_grants (Item_perm (borrows s ! i)) access)"
  proof (cases "length (borrows s) \<le> CACHE_LEN \<or> position (\<lambda>t. Item_tag t = tag) (cache_items (cache s)) = None")
    case True
    then have "find_granting_cache access tag s = (s, None)" by (auto simp: find_granting_cache_def)
    with assms show ?thesis by simp
  next
    case False
    then obtain k where k: "position (\<lambda>t. Item_tag t = tag) (cache_items (cache s)) = Some k"
      and long: "CACHE_LEN < length (borrows s)" by auto
    from assms(1) have len: "length (cache_items (cache s)) = CACHE_LEN" "length (cache_idx (cache s)) = CACHE_LEN"
      by (auto simp: cache_inv_def)
    let ?e = "(cache_items (cache s) ! k, cache_idx (cache s) ! k)"
    from k have kl: "k < CACHE_LEN" and kt: "Item_tag (fst ?e) = tag" by (auto simp: position_Some len)
    have ok: "entry_ok (borrows s) ?e"
      using full_cache_ok [OF assms(1)] long entries_nth [of "cache s" k] len kl by simp
    from cache_inv_swap [OF assms(1)] cache_inv_add [OF assms(1) ok] ok kt long assms k show ?thesis
      by (auto simp: find_granting_cache_def Let_def entry_ok_def split: if_splits)
  qed
  then show "cache_inv (borrows s) (cache s')" "s' = s\<lparr>cache := cache s'\<rparr>"
    "found = Some i \<Longrightarrow> i < length (borrows s) \<and> Item_tag (borrows s ! i) = tag \<and>
      SbPermission_grants (Item_perm (borrows s ! i)) access" by blast+
qed

text \<open>The cached search finds what the linear search finds.\<close>

lemma find_granting_tagged_spec:
  assumes inv: "Stack_inv s" and f: "find_granting_tagged access tag s = (s', found)"
  shows "Stack_inv s'" "s' = s\<lparr>cache := cache s'\<rparr>"
    "found = rposition (\<lambda>item. tag = Item_tag item \<and> SbPermission_grants (Item_perm item) access) (borrows s)"
proof -
  let ?P = "\<lambda>item. tag = Item_tag item \<and> SbPermission_grants (Item_perm item) access"
  have c: "cache_inv (borrows s) (cache s)" and d: "tags_distinct (borrows s)" using inv by (auto simp: Stack_inv_def)
  obtain s1 f1 where 1: "find_granting_cache access tag s = (s1, f1)" by (cases "find_granting_cache access tag s")
  note o = find_granting_cache_inv [OF c 1]
  have b1: "borrows s1 = borrows s" "unique_range s1 = unique_range s" by (subst o(2), simp)+
  have "Stack_inv s' \<and> s' = s\<lparr>cache := cache s'\<rparr> \<and> found = rposition ?P (borrows s)"
  proof (cases f1)
    case (Some i)
    have "rposition ?P (borrows s) = Some i"
      using o(3) [OF Some] tags_distinct_nth [OF d] unfolding rposition_Some by (metis less_irrefl)
    with f 1 Some o inv b1 show ?thesis by (auto simp: find_granting_tagged_def Stack_inv_def)
  next
    case None
    show ?thesis
    proof (cases "rposition ?P (borrows s)")
      case (Some i)
      then have "entry_ok (borrows s) (borrows s ! i, i)" by (auto simp: rposition_Some entry_ok_def)
      moreover obtain c1 where "s1 = s\<lparr>cache := c1\<rparr>" using o(2) by blast
      ultimately show ?thesis using cache_inv_add [OF o(1)] f 1 None Some inv
        by (auto simp: find_granting_tagged_def Stack_inv_def)
    next
      case none: None
      with f 1 None o inv b1 show ?thesis by (auto simp: find_granting_tagged_def Stack_inv_def)
    qed
  qed
  then show "Stack_inv s'" "s' = s\<lparr>cache := cache s'\<rparr>" "found = rposition ?P (borrows s)" by blast+
qed

lemma find_granting_refines:
  assumes "stack_rel bs bottom s"
  shows "rel_outcome (=) (\<lambda>(s', i) j. i = j \<and> stack_rel bs bottom s' \<and> unique_range s' = unique_range s)
    (find_granting access tag exposed s) (plain_find access tag exposed bs bottom)"
proof (cases tag)
  case Wildcard
  with assms show ?thesis by (simp add: find_granting_def plain_find_def stack_rel_def split: option.splits)
next
  case (Concrete t)
  obtain s1 f1 where 1: "find_granting_tagged access t s = (s1, f1)" by (cases "find_granting_tagged access t s")
  from assms have inv: "Stack_inv s" by (simp add: stack_rel_def)
  note o = find_granting_tagged_spec [OF inv 1]
  have s1: "unknown_bottom s1 = unknown_bottom s" "borrows s1 = borrows s" "unique_range s1 = unique_range s"
    by (subst o(2), simp)+
  with o Concrete 1 assms show ?thesis
    by (auto simp: find_granting_def plain_find_def stack_rel_def conj_commute split: option.splits)
qed

subsection \<open>Inserting\<close>

lemma nth_insert:
  "n \<le> length bs \<Longrightarrow> i < length bs \<Longrightarrow> (take n bs @ x # drop n bs) ! (if i \<ge> n then i + 1 else i) = bs ! i"
  by (auto simp: nth_append)

lemma entry_ok_insert:
  "n \<le> length bs \<Longrightarrow> entry_ok bs e \<Longrightarrow>
    entry_ok (take n bs @ x # drop n bs) (apsnd (\<lambda>i. if i \<ge> n then i + 1 else i) e)"
  using nth_insert [of n bs "snd e" x] by (cases e) (auto simp: entry_ok_def split: if_splits)

lemma covers_insert:
  assumes "covers bs es" "n \<le> length bs"
  shows "covers (take n bs @ x # drop n bs) ((x, n) # map (apsnd (\<lambda>i. if i \<ge> n then i + 1 else i)) es)"
proof -
  have low: "k \<le> n \<Longrightarrow> (if i \<ge> n then i + 1 else i) < k \<longleftrightarrow> i < k" for i k by auto
  have high: "n \<le> k \<Longrightarrow> (if i \<ge> n then i + 1 else i) < Suc k \<longleftrightarrow> i < k \<or> i < n" for i k by auto
  have "k \<le> length (filter (\<lambda>e. snd e < k) ((x, n) # map (apsnd (\<lambda>i. if i \<ge> n then i + 1 else i)) es))"
    if "k \<le> Suc (length bs)" for k
  proof (cases "k \<le> n")
    case True
    then have "k \<le> length (filter (\<lambda>e. snd e < k) es)" using assms by (simp add: covers_def)
    with True show ?thesis by (simp add: filter_map o_def low)
  next
    case False
    then obtain j where "k = Suc j" by (cases k) auto
    with False that have j: "k = Suc j" "n \<le> j" "j \<le> length bs" by simp_all
    then have "j \<le> length (filter (\<lambda>e. snd e < j) es)" using assms by (simp add: covers_def)
    moreover have "(i < j \<or> i < n) = (i < j)" for i using j(2) by auto
    ultimately show ?thesis using j by (simp add: filter_map o_def high)
  qed
  then show ?thesis using assms(2) by (simp add: covers_def)
qed

lemma cache_inv_insert:
  assumes c: "cache_inv bs c" and n: "n \<le> length bs"
  shows "cache_inv (take n bs @ x # drop n bs) (StackCache_add n x
    (if n \<noteq> length bs then c\<lparr>cache_idx := map (\<lambda>i. if i \<ge> n then i + 1 else i) (cache_idx c)\<rparr> else c))"
    (is "cache_inv ?bs (StackCache_add n x ?c)")
proof -
  let ?f = "\<lambda>i. if i \<ge> n then i + 1 else i"
  from c obtain good stale where gs: "entries c = good @ stale" "\<And>e. e \<in> set good \<Longrightarrow> entry_ok bs e"
    "stale = [] \<or> covers bs good" and len: "length (cache_items c) = CACHE_LEN" "length (cache_idx c) = CACHE_LEN"
    by (rule cache_invE) blast
  have push: "map (apsnd ?f) good = good" if "n = length bs"
    using gs(2) that by (intro map_idI) (fastforce simp: entry_ok_def)
  have "\<exists>stale'. entries ?c = map (apsnd ?f) good @ stale' \<and> (stale' = [] \<longleftrightarrow> stale = [])"
  proof (cases "n = length bs")
    case True
    with gs(1) push show ?thesis by auto
  next
    case False
    have "entries ?c = map (apsnd ?f) (entries c)"
      using False by (simp add: entries_def zip_map2 apsnd_def map_prod_def case_prod_beta)
    with gs(1) show ?thesis by auto
  qed
  then obtain stale' where e: "entries ?c = map (apsnd ?f) good @ stale'" "stale' = [] \<longleftrightarrow> stale = []" by blast
  show ?thesis
  proof (rule cache_inv_push_entry [OF _ _ e(1)])
    show "entry_ok ?bs e" if "e \<in> set (map (apsnd ?f) good)" for e
      using that gs(2) entry_ok_insert [OF n] by (auto simp del: apsnd_conv)
    show "stale' = [] \<or> covers ?bs ((x, n) # map (apsnd ?f) good)"
      using gs(3) e(2) covers_insert [OF _ n] by blast
    show "entry_ok ?bs (x, n)" using n by (simp add: entry_ok_def nth_append)
  qed (use len in auto)
qed

lemma unique_inv_insert:
  assumes u: "unique_inv bs r" and n: "n \<le> length bs"
  shows "unique_inv (take n bs @ x # drop n bs) (insert_unique_range n x r)"
proof -
  let ?bs = "take n bs @ x # drop n bs"
  obtain a b where r: "r = (a, b)" by (cases r)
  have old: "?bs ! i = bs ! i" if "i < n" for i using that n by (simp add: nth_append)
  have new: "?bs ! n = x" using n by (simp add: nth_append)
  have shifted: "?bs ! i = bs ! (i - 1)" if "n < i" for i
    using that n by (cases i) (auto simp: nth_append min_def)
  have "fst (insert_unique_range n x r) \<le> i \<and> i < snd (insert_unique_range n x r)"
    if i: "i < length ?bs" and p: "Item_perm (?bs ! i) = SbUnique" for i
  proof -
    consider "i < n" | "i = n" | "n < i" by linarith
    then show ?thesis
    proof cases
      case 1
      with u p old [OF 1] n have "a \<le> i" "i < b" by (auto simp: unique_inv_def r)
      with 1 show ?thesis by (auto simp: insert_unique_range_def r Let_def range_is_empty_def)
    next
      case 2
      with p new have "Item_perm x = SbUnique" by simp
      with 2 show ?thesis by (auto simp: insert_unique_range_def r Let_def range_is_empty_def)
    next
      case 3
      with u p shifted [OF 3] i n have "a \<le> i - 1" "i - 1 < b" by (auto simp: unique_inv_def r)
      with 3 show ?thesis by (auto simp: insert_unique_range_def r Let_def range_is_empty_def)
    qed
  qed
  moreover have "fst (insert_unique_range n x r) \<le> snd (insert_unique_range n x r)"
    "snd (insert_unique_range n x r) \<le> length ?bs"
    using u n by (auto simp: insert_unique_range_def r Let_def range_is_empty_def unique_inv_def)
  ultimately show ?thesis by (simp add: unique_inv_def)
qed

lemma range_inv_insert:
  assumes u: "unique_inv bs r" and n: "n \<le> length bs"
    and pos: "n = 0 \<Longrightarrow> bs = [] \<and> Item_perm x \<noteq> SharedReadWrite" "0 < n \<Longrightarrow> range_is_empty r \<Longrightarrow> r = (0, 0)"
  shows "range_inv (take n bs @ x # drop n bs) (insert_unique_range n x r)"
proof (cases "n = 0")
  case True
  with pos(1) u have "bs = []" "r = (0, 0)" by (auto simp: unique_inv_def prod_eq_iff)
  with pos(1) True show ?thesis by (auto simp: range_inv_def insert_unique_range_def range_is_empty_def Let_def)
next
  case False
  with u pos(2) show ?thesis
    by (cases r) (auto simp: range_inv_def insert_unique_range_def range_is_empty_def unique_inv_def Let_def)
qed

lemma tags_distinct_insert:
  assumes "tags_distinct bs" "Item_tag x \<notin> Item_tag ` set bs"
  shows "tags_distinct (take n bs @ x # drop n bs)"
proof -
  have "mset (map Item_tag (take n bs @ x # drop n bs)) = mset (Item_tag x # map Item_tag (take n bs @ drop n bs))"
    by (simp only: map_append mset_append list.map mset.simps) simp
  then have "distinct (map Item_tag (take n bs @ x # drop n bs)) \<longleftrightarrow> distinct (Item_tag x # map Item_tag bs)"
    unfolding append_take_drop_id by (rule mset_eq_imp_distinct_iff)
  with assms show ?thesis by (simp add: tags_distinct_def)
qed

lemma Stack_insert_refines:
  assumes rel: "stack_rel bs bottom s" and n: "n \<le> length bs" and fresh: "Item_tag x \<notin> Item_tag ` set bs"
    and pos: "n = 0 \<Longrightarrow> bs = [] \<and> Item_perm x \<noteq> SharedReadWrite"
      "0 < n \<Longrightarrow> range_is_empty (unique_range s) \<Longrightarrow> unique_range s = (0, 0)"
  shows "\<exists>s'. Stack_insert n x s = (Ok s' :: ('e, _) outcome) \<and> stack_rel (take n bs @ x # drop n bs) bottom s'"
proof -
  let ?bs = "take n bs @ x # drop n bs"
  let ?s = "insert_cache n x (s\<lparr>borrows := ?bs\<rparr>)"
  from rel have bs: "borrows s = bs" "unknown_bottom s = bottom" and inv: "tags_distinct bs" "cache_inv bs (cache s)"
    "unique_inv bs (unique_range s)" by (auto simp: stack_rel_def Stack_inv_def)
  have "length ?bs - 1 = length bs" using n by simp
  then have c: "cache ?s = StackCache_add n x (if n \<noteq> length bs
      then (cache s)\<lparr>cache_idx := map (\<lambda>i. if i \<ge> n then i + 1 else i) (cache_idx (cache s))\<rparr> else cache s)"
    and r: "unique_range ?s = insert_unique_range n x (unique_range s)" and b: "borrows ?s = ?bs"
    "unknown_bottom ?s = bottom"
    by (simp_all add: insert_cache_def Let_def bs)
  have "Stack_inv ?s"
    unfolding Stack_inv_def b c r
    by (intro conjI tags_distinct_insert cache_inv_insert unique_inv_insert range_inv_insert inv n fresh pos)
  moreover have "Stack_insert n x s = (Ok ?s :: ('e, _) outcome)" using n by (simp add: Stack_insert_def bs)
  ultimately show ?thesis using b by (auto simp: stack_rel_def)
qed

lemma Stack_new_rel: "stack_rel [item] None (Stack_new item)"
proof -
  have "entries (cache (Stack_new item)) = replicate CACHE_LEN (item, 0)"
    by (simp add: entries_def Stack_new_def)
  then have "cache_inv [item] (cache (Stack_new item))"
    by (intro cache_invI [where stale = "[]"]) (auto simp: entry_ok_def Stack_new_def)
  then show ?thesis
    by (auto simp: stack_rel_def Stack_inv_def Stack_new_def tags_distinct_def unique_inv_def range_inv_def)
qed

lemma set_unknown_bottom_rel:
  assumes "stack_rel bs bottom s"
  shows "stack_rel [] (Some tag) (set_unknown_bottom tag s)" "range_reset (set_unknown_bottom tag s)"
proof -
  from assms obtain good stale where "entries (cache s) = good @ stale"
    "length (cache_items (cache s)) = CACHE_LEN" "length (cache_idx (cache s)) = CACHE_LEN"
    unfolding stack_rel_def Stack_inv_def by (meson cache_invE)
  then have "cache_inv [] (cache s)" by (intro cache_invI [where good = "[]"]) (auto simp: covers_def)
  then show "stack_rel [] (Some tag) (set_unknown_bottom tag s)" "range_reset (set_unknown_bottom tag s)"
    by (auto simp: stack_rel_def Stack_inv_def set_unknown_bottom_def tags_distinct_def unique_inv_def range_inv_def
        range_reset_def)
qed

subsection \<open>Disabling\<close>

lemma map_tag_set_permission:
  "i < length bs \<Longrightarrow> map Item_tag (bs[i := Item_set_permission p (bs ! i)]) = map Item_tag bs"
  by (auto intro: nth_equalityI simp: nth_list_update)

lemma plain_disable_step_Ok:
  assumes "plain_disable_step visitor i bs = Ok bs'" "i < length bs"
  shows "length bs' = length bs" "map Item_tag bs' = map Item_tag bs" "\<And>j. j \<noteq> i \<Longrightarrow> bs' ! j = bs ! j"
    "Item_perm (bs' ! i) \<noteq> SbUnique"
    "Item_perm (bs' ! i) = (if Item_perm (bs ! i) = SbUnique then SbDisabled else Item_perm (bs ! i))"
  using assms map_tag_set_permission [OF assms(2)]
  by (auto simp: plain_disable_step_def outcome_eqs simp del: map_update split: if_splits)

lemma plain_disable_fold:
  assumes "ofold (plain_disable_step visitor) is bs = Ok bs'" "\<And>i. i \<in> set is \<Longrightarrow> i < length bs"
  shows "length bs' = length bs \<and> map Item_tag bs' = map Item_tag bs \<and> (\<forall>j. j \<notin> set is \<longrightarrow> bs' ! j = bs ! j) \<and>
    (\<forall>j\<in>set is. Item_perm (bs' ! j) = (if Item_perm (bs ! j) = SbUnique then SbDisabled else Item_perm (bs ! j)))"
  using assms
proof (induction "is" arbitrary: bs)
  case Nil
  then show ?case by simp
next
  case (Cons i "is")
  from Cons.prems(1) obtain b1 where b1: "plain_disable_step visitor i bs = Ok b1"
    "ofold (plain_disable_step visitor) is b1 = Ok bs'" by (auto simp: outcome_eqs)
  have i: "i < length bs" using Cons.prems(2) by simp
  note s = plain_disable_step_Ok [OF b1(1) i]
  have IH: "length bs' = length b1 \<and> map Item_tag bs' = map Item_tag b1 \<and> (\<forall>j. j \<notin> set is \<longrightarrow> bs' ! j = b1 ! j) \<and>
    (\<forall>j\<in>set is. Item_perm (bs' ! j) = (if Item_perm (b1 ! j) = SbUnique then SbDisabled else Item_perm (b1 ! j)))"
    using Cons.IH [OF b1(2)] Cons.prems(2) s(1) by simp
  have "Item_perm (bs' ! j) = (if Item_perm (bs ! j) = SbUnique then SbDisabled else Item_perm (bs ! j))"
    if "j \<in> set (i # is)" for j
    using IH s(3-5) that by (cases "j = i"; cases "j \<in> set is") auto
  with IH s(1-3) show ?case by auto
qed

lemma disable_nothing:
  assumes "\<And>i. i \<in> set is \<Longrightarrow> Item_perm (bs ! i) \<noteq> SbUnique"
  shows "ofold (plain_disable_step visitor) is bs = Ok bs"
  using assms by (induction "is") (auto simp: plain_disable_step_def)

text \<open>Only the indices that may hold a \<open>Unique\<close> matter.\<close>

lemma plain_disable_range:
  assumes "unique_inv bs r"
  shows "plain_disable start visitor bs = ofold (plain_disable_step visitor) [max (fst r) start..<snd r] bs"
proof -
  let ?a = "max (fst r) start"
  have u: "fst r \<le> i \<and> i < snd r" if "i < length bs" "Item_perm (bs ! i) = SbUnique" for i
    using assms that by (auto simp: unique_inv_def)
  show ?thesis
  proof (cases "?a \<le> snd r")
    case False
    then have "ofold (plain_disable_step visitor) [start..<length bs] bs = Ok bs"
      using u by (intro disable_nothing) fastforce
    moreover have "snd r \<le> ?a" using False by linarith
    then have "[?a..<snd r] = []" by (rule upt_conv_Nil)
    ultimately show ?thesis unfolding plain_disable_def by (simp only: ofold.simps)
  next
    case True
    have len: "snd r \<le> length bs" using assms by (simp add: unique_inv_def)
    with True have split: "[start..<length bs] = [start..<?a] @ [?a..<snd r] @ [snd r..<length bs]"
      by (metis max.cobounded2 upt_split order.trans)
    have low: "ofold (plain_disable_step visitor) [start..<?a] bs = Ok bs"
    proof (rule disable_nothing)
      fix i assume "i \<in> set [start..<?a]"
      then have "i < fst r" by (auto simp: max_def split: if_splits)
      with True len have "i < length bs" "\<not> fst r \<le> i" by auto
      with u show "Item_perm (bs ! i) \<noteq> SbUnique" by blast
    qed
    have high: "ofold (plain_disable_step visitor) [snd r..<length bs] b1 = Ok b1"
      if "ofold (plain_disable_step visitor) [?a..<snd r] bs = Ok b1" for b1
    proof (rule disable_nothing)
      fix i assume "i \<in> set [snd r..<length bs]"
      moreover from plain_disable_fold [OF that] len have "\<forall>j. j \<notin> set [?a..<snd r] \<longrightarrow> b1 ! j = bs ! j" by auto
      ultimately show "Item_perm (b1 ! i) \<noteq> SbUnique" using u by fastforce
    qed
    show ?thesis unfolding plain_disable_def split ofold_append low obind.simps
      using high by (cases "ofold (plain_disable_step visitor) [?a..<snd r] bs") simp_all
  qed
qed

lemma covers_map_items: "covers bs (map (apfst f) es) \<longleftrightarrow> covers bs es"
  by (simp add: covers_def filter_map o_def)

lemma covers_length: "length bs = length bs' \<Longrightarrow> covers bs es \<Longrightarrow> covers bs' es"
  by (simp add: covers_def)

lemma cache_inv_disable:
  assumes inv: "cache_inv bs \<lparr>cache_items = cached, cache_idx = idx\<rparr>" "tags_distinct bs" "i < length bs"
  shows "cache_inv (bs[i := Item_set_permission SbDisabled (bs ! i)])
    \<lparr>cache_items = map (\<lambda>it. if Item_tag it = Item_tag (bs ! i) then Item_set_permission SbDisabled it else it) cached,
     cache_idx = idx\<rparr>"
    (is "cache_inv ?bs \<lparr>cache_items = map ?f cached, cache_idx = idx\<rparr>")
proof -
  from inv(1) obtain good stale where gs: "zip cached idx = good @ stale" "\<And>e. e \<in> set good \<Longrightarrow> entry_ok bs e"
    "stale = [] \<or> covers bs good" and len: "length cached = CACHE_LEN" "length idx = CACHE_LEN"
    by (rule cache_invE) (auto simp: entries_def)
  have "entry_ok ?bs (apfst ?f e)" if "entry_ok bs e" for e
    using that inv(3) tags_distinct_nth [OF inv(2,3), of "snd e"]
    by (cases e) (auto simp: entry_ok_def nth_list_update)
  then have ok: "\<forall>e\<in>set (map (apfst ?f) good). entry_ok ?bs e" using gs(2) by auto
  have "zip (map ?f cached) idx = map (apfst ?f) good @ map (apfst ?f) stale"
    unfolding zip_map1 gs(1) by (simp add: apfst_def map_prod_def)
  with ok gs(3) len show ?thesis
    by (intro cache_invI [where good = "map (apfst ?f) good" and stale = "map (apfst ?f) stale"])
      (auto simp: entries_def covers_map_items intro: covers_length [of bs])
qed

text \<open>One step of the loop keeps the cache in sync with the items.\<close>

definition disable_rel :: "nat \<Rightarrow> nat list \<Rightarrow> Item list \<times> Item list \<Rightarrow> Item list \<Rightarrow> bool" where
  "disable_rel n idx x bs \<longleftrightarrow> fst x = bs \<and> length bs = n \<and> tags_distinct bs \<and>
     cache_inv bs \<lparr>cache_items = snd x, cache_idx = idx\<rparr>"

lemma disable_step_rel:
  assumes "i < n" "disable_rel n idx x bs"
  shows "rel_outcome (=) (disable_rel n idx) (disable_step visitor i x) (plain_disable_step visitor i bs)"
proof -
  obtain cached where x: "x = (bs, cached)" using assms(2) by (cases x) (simp add: disable_rel_def)
  from assms have d: "tags_distinct bs" "i < length bs" "cache_inv bs \<lparr>cache_items = cached, cache_idx = idx\<rparr>"
    by (auto simp: disable_rel_def x)
  from d(1) have "tags_distinct (bs[i := Item_set_permission SbDisabled (bs ! i)])"
    unfolding tags_distinct_def map_tag_set_permission [OF d(2)] .
  with cache_inv_disable [OF d(3,1,2)] assms(2) show ?thesis
    unfolding x disable_step_def plain_disable_step_def Let_def case_prod_conv
    by (auto simp: disable_rel_def intro!: rel_obind [where R = "\<lambda>_ _. True"] rel_outcome_refl)
qed

lemma unique_inv_disable:
  assumes "unique_inv bs r" "plain_disable start visitor bs = Ok bs'" "start \<le> length bs"
  shows "unique_inv bs' (if start \<le> fst r then (0, 0) else (fst r, min (snd r) start))"
proof -
  have "\<And>i. i \<in> set [start..<length bs] \<Longrightarrow> i < length bs" by simp
  note f = plain_disable_fold [OF assms(2) [unfolded plain_disable_def] this]
  have "i < start \<and> Item_perm (bs ! i) = SbUnique" if "i < length bs'" "Item_perm (bs' ! i) = SbUnique" for i
    using f that by (cases "i < start") (auto split: if_splits)
  with assms(1) f show ?thesis by (fastforce simp: unique_inv_def)
qed

lemma range_after:
  assumes "unique_inv bs r" "range_inv bs r" "start \<le> length bs"
  shows "(if start \<le> fst r then (0, 0) else (fst r, min (snd r) start)) = (a, b) \<Longrightarrow> a = b \<Longrightarrow> a = 0"
  using assms by (cases r) (auto simp: unique_inv_def range_inv_def min_def split: if_splits)

lemma disable_refines:
  assumes rel: "stack_rel bs bottom s" and start: "start \<le> length bs"
  shows "rel_outcome (=) (\<lambda>s' bs'. stack_rel bs' bottom s' \<and> range_reset s')
    (disable_uniques_starting_at start visitor s) (plain_disable start visitor bs)"
proof -
  let ?r = "unique_range s" and ?r' = "if start \<le> fst (unique_range s) then (0, 0) else (fst (unique_range s), min (snd (unique_range s)) start)"
  from rel have bs: "borrows s = bs" "unknown_bottom s = bottom" and inv: "tags_distinct bs" "cache_inv bs (cache s)"
    "unique_inv bs ?r" "range_inv bs ?r" by (auto simp: stack_rel_def Stack_inv_def)
  have ok: "stack_rel bs' bottom s' \<and> range_reset s'"
    if "plain_disable start visitor bs = Ok bs'" "s' = s\<lparr>borrows := bs', cache := c, unique_range := ?r'\<rparr>"
      "tags_distinct bs'" "cache_inv bs' c" for s' bs' c
    using unique_inv_disable [OF inv(3) that(1) start] range_after [OF inv(3,4) start] that(2-4) bs
    by (cases ?r') (auto simp: stack_rel_def Stack_inv_def range_inv_def range_reset_def range_is_empty_def unique_inv_def)
  show ?thesis
  proof (cases "start \<le> snd ?r")
    case False
    then have "plain_disable start visitor bs = Ok bs" unfolding plain_disable_range [OF inv(3)] by simp
    moreover from this ok [OF this, of "s\<lparr>unique_range := ?r'\<rparr>" "cache s"] inv bs False
    have "stack_rel bs bottom (s\<lparr>unique_range := ?r'\<rparr>) \<and> range_reset (s\<lparr>unique_range := ?r'\<rparr>)" by simp
    ultimately show ?thesis using False by (auto simp: disable_uniques_starting_at_def)
  next
    case True
    let ?idx = "cache_idx (cache s)"
    from inv(3) have r: "fst ?r \<le> snd ?r" "snd ?r \<le> length bs" by (auto simp: unique_inv_def)
    have loop: "rel_outcome (=) (disable_rel (length bs) ?idx)
      (ofold (disable_step visitor) [max (fst ?r) start..<snd ?r] (bs, cache_items (cache s))) (plain_disable start visitor bs)"
      unfolding plain_disable_range [OF inv(3)]
    proof (rule rel_ofold)
      show "disable_rel (length bs) ?idx (bs, cache_items (cache s)) bs"
        using inv by (cases "cache s") (simp add: disable_rel_def)
    qed (use r in \<open>auto intro: disable_step_rel\<close>)
    show ?thesis
    proof (cases "plain_disable start visitor bs")
      case (Ok bs')
      with loop obtain cached where l: "ofold (disable_step visitor) [max (fst ?r) start..<snd ?r] (bs, cache_items (cache s)) = Ok (bs', cached)"
        "disable_rel (length bs) ?idx (bs', cached) bs'"
        by (auto simp: disable_rel_def rel_outcome_right)
      have c: "(cache s)\<lparr>cache_items := cached\<rparr> = \<lparr>cache_items = cached, cache_idx = ?idx\<rparr>" by (cases "cache s") simp
      from ok [OF Ok refl, of "\<lparr>cache_items = cached, cache_idx = ?idx\<rparr>"] l True r Ok bs show ?thesis
        by (auto simp: c disable_uniques_starting_at_def Let_def disable_rel_def)
    qed (use loop True r bs in \<open>auto simp: disable_uniques_starting_at_def Let_def rel_outcome_right\<close>)
  qed
qed

subsection \<open>Popping\<close>

lemma pop_loop_take: "pop_loop start visitor bs = Ok bs' \<Longrightarrow> bs' = take start bs"
proof (induction start visitor bs rule: pop_loop.induct)
  case (1 start visitor bs)
  show ?case
  proof (cases "start < length bs")
    case True
    with "1.prems" have "pop_loop start visitor (butlast bs) = Ok bs'"
      by (subst (asm) pop_loop.simps) (auto simp: outcome_eqs)
    with "1.IH" [OF True] "1.prems" True have "bs' = take start (butlast bs)"
      by (subst (asm) (2) pop_loop.simps) (auto simp: outcome_eqs)
    with True show ?thesis by (simp add: butlast_conv_take)
  next
    case False
    with "1.prems" show ?thesis by (subst (asm) pop_loop.simps) simp
  qed
qed

lemma rotate_range_mid:
  assumes "length K = a" "length K + Suc (length T) = b"
  shows "rotate_range a b (K @ (x # T) @ R) = K @ T @ x # R"
proof -
  have "b = a + length (x # T)" using assms by simp
  then show ?thesis unfolding rotate_range_def using assms(1) by simp
qed

text \<open>The loop sorts out the entries at or above \<open>start\<close>, keeping the order of the others; the last
  entry is not looked at.\<close>

lemma repair_loop_entries:
  assumes "cache_items c = map fst (K @ T @ R)" "cache_idx c = map snd (K @ T @ R)"
    and "length K = cursor" "length R = removed" "length T = Suc n" "length (K @ T @ R) = CACHE_LEN"
    and "repair_loop n start c removed cursor = (c', removed')"
  shows "\<exists>X. cache_items c' = map fst (K @ filter (\<lambda>e. snd e < start) (take n T) @ X) \<and>
    cache_idx c' = map snd (K @ filter (\<lambda>e. snd e < start) (take n T) @ X) \<and> length X = Suc removed' \<and>
    length (K @ filter (\<lambda>e. snd e < start) (take n T) @ X) = CACHE_LEN"
  using assms
proof (induction n arbitrary: c K T R cursor removed)
  case 0
  then show ?case by (auto intro!: exI [of _ "T @ R"])
next
  case (Suc n)
  from Suc.prems(5) obtain e T' where T: "T = e # T'" "length T' = Suc n" by (cases T) auto
  have at: "cache_idx c ! cursor = snd e" using Suc.prems(2,3) T by (simp add: nth_append)
  show ?case
  proof (cases "snd e \<ge> start")
    case True
    have b: "CACHE_LEN - removed = cursor + Suc (length T')" using Suc.prems(3,4,6) T by simp
    let ?c = "\<lparr>cache_items = rotate_range cursor (CACHE_LEN - removed) (cache_items c),
      cache_idx = rotate_range cursor (CACHE_LEN - removed) (cache_idx c)\<rparr>"
    have rot: "rotate_range cursor (CACHE_LEN - removed) (map f (K @ T @ R)) = map f (K @ T' @ e # R)" for f :: "_ \<Rightarrow> 'x"
      using rotate_range_mid [of "map f K" cursor "map f T'" "CACHE_LEN - removed" "f e" "map f R"] Suc.prems(3) b T
      by simp
    have "cache_items ?c = map fst (K @ T' @ e # R)" "cache_idx ?c = map snd (K @ T' @ e # R)"
      using rot [of fst] rot [of snd] by (simp_all only: Suc.prems(1,2) StackCache.select_convs)
    moreover have "repair_loop n start ?c (Suc removed) cursor = (c', removed')"
      using Suc.prems(7) at True by simp
    ultimately show ?thesis
      using Suc.IH [of ?c K T' "e # R" cursor "Suc removed"] Suc.prems(3,4,6) T True by simp
  next
    case False
    have "cache_items c = map fst ((K @ [e]) @ T' @ R)" "cache_idx c = map snd ((K @ [e]) @ T' @ R)"
      using Suc.prems(1,2) T by simp_all
    from Suc.IH [OF this, of "Suc cursor" removed] Suc.prems(3,4,6,7) T at False show ?thesis by simp
  qed
qed

lemma overwrite_tail:
  "length xs = n \<Longrightarrow> length ys = m \<Longrightarrow>
    fold (\<lambda>i c. \<lparr>cache_items = (cache_items c)[i := a], cache_idx = (cache_idx c)[i := b]\<rparr>) [n..<n + m]
      \<lparr>cache_items = map fst (xs @ ys), cache_idx = map snd (xs @ ys)\<rparr> =
    \<lparr>cache_items = map fst (xs @ replicate m (a, b)), cache_idx = map snd (xs @ replicate m (a, b))\<rparr>"
proof (induction m arbitrary: n xs ys)
  case 0
  then show ?case by simp
next
  case (Suc m)
  from Suc.prems(2) obtain y zs where ys: "ys = y # zs" "length zs = m" by (cases ys) auto
  have u: "[n..<n + Suc m] = n # [Suc n..<Suc n + m]" by (simp add: upt_conv_Cons)
  have *: "(map fst (xs @ y # zs))[n := a] = map fst ((xs @ [(a, b)]) @ zs)"
    "(map snd (xs @ y # zs))[n := b] = map snd ((xs @ [(a, b)]) @ zs)"
    using Suc.prems(1) by (simp_all add: list_update_append)
  show ?case unfolding u ys(1) fold.simps o_apply StackCache.select_convs *
    using Suc.IH [of "xs @ [(a, b)]" "Suc n" zs] Suc.prems(1) ys(2) by simp
qed

lemma repair_cache_entries:
  assumes "length (cache_items c) = CACHE_LEN" "length (cache_idx c) = CACHE_LEN"
  shows "\<exists>k>0. entries (repair_cache start base c) =
      filter (\<lambda>e. snd e < start) (take (CACHE_LEN - 1) (entries c)) @ replicate k (base, 0) \<and>
    length (cache_items (repair_cache start base c)) = CACHE_LEN \<and> length (cache_idx (repair_cache start base c)) = CACHE_LEN"
proof -
  obtain c' removed where l: "repair_loop (CACHE_LEN - 1) start c 0 0 = (c', removed)"
    by (cases "repair_loop (CACHE_LEN - 1) start c 0 0")
  let ?F = "filter (\<lambda>e. snd e < start) (take (CACHE_LEN - 1) (entries c))"
  have "cache_items c = map fst ([] @ entries c @ [])" "cache_idx c = map snd ([] @ entries c @ [])"
    "length (entries c) = CACHE_LEN"
    using assms by (simp_all add: entries_def)
  from repair_loop_entries [OF this(1,2), of 0 0 "CACHE_LEN - 1" start c' removed] this(3) l
  obtain X where X: "cache_items c' = map fst (?F @ X)" "cache_idx c' = map snd (?F @ X)" "length X = Suc removed"
    "length ?F + length X = CACHE_LEN" by auto
  have c': "c' = \<lparr>cache_items = map fst (?F @ X), cache_idx = map snd (?F @ X)\<rparr>" using X(1,2) by (cases c') simp
  have n: "CACHE_LEN - removed - 1 = length ?F" "CACHE_LEN = length ?F + length X" using X(3,4) by auto
  have "repair_cache start base c = fold (\<lambda>i c. \<lparr>cache_items = (cache_items c)[i := base], cache_idx = (cache_idx c)[i := 0]\<rparr>)
      [CACHE_LEN - removed - 1..<CACHE_LEN] c'"
    by (simp only: repair_cache_def l Let_def case_prod_conv)
  also have "\<dots> = fold (\<lambda>i c. \<lparr>cache_items = (cache_items c)[i := base], cache_idx = (cache_idx c)[i := 0]\<rparr>)
      [length ?F..<length ?F + length X] c'"
    by (simp only: n(1)) (simp only: n(2) [symmetric])
  also have "\<dots> = \<lparr>cache_items = map fst (?F @ replicate (length X) (base, 0)),
      cache_idx = map snd (?F @ replicate (length X) (base, 0))\<rparr>"
    unfolding c' by (rule overwrite_tail) simp_all
  finally have "repair_cache start base c = \<dots>" .
  then show ?thesis using X(3,4) by (auto simp: entries_def zip_map_fst_snd)
qed

lemma cache_inv_pop:
  assumes inv: "cache_inv bs c" and start: "start \<le> length bs" "0 < start"
  shows "cache_inv (take start bs) (repair_cache start (bs ! 0) c)"
proof -
  let ?low = "\<lambda>e. snd e < start"
  from inv obtain good stale where gs: "entries c = good @ stale" "\<And>e. e \<in> set good \<Longrightarrow> entry_ok bs e"
    "stale = [] \<or> covers bs good" and len: "length (cache_items c) = CACHE_LEN" "length (cache_idx c) = CACHE_LEN"
    "length (entries c) = CACHE_LEN" by (rule cache_invE) blast
  obtain k where k: "entries (repair_cache start (bs ! 0) c) =
      filter ?low (take (CACHE_LEN - 1) (entries c)) @ replicate k (bs ! 0, 0)"
    "length (cache_items (repair_cache start (bs ! 0) c)) = CACHE_LEN"
    "length (cache_idx (repair_cache start (bs ! 0) c)) = CACHE_LEN"
    using repair_cache_entries [OF len(1,2)] by blast
  have ok: "entry_ok (take start bs) e" if "e \<in> set good" "?low e" for e
    using gs(2) [OF that(1)] that(2) start by (simp add: entry_ok_def)
  have base: "entry_ok (take start bs) (bs ! 0, 0)" using start by (simp add: entry_ok_def)
  show ?thesis
  proof (cases "stale = []")
    case True
    have "\<forall>e\<in>set (filter ?low (take (CACHE_LEN - 1) good) @ replicate k (bs ! 0, 0)). entry_ok (take start bs) e"
      using ok base by (auto dest: in_set_takeD)
    with True k gs(1) show ?thesis by (intro cache_invI [where stale = "[]"]) auto
  next
    case False
    with gs(1) len(3) have "length good \<le> CACHE_LEN - 1"
      by (metis One_nat_def Suc_leI length_append length_greater_0_conv less_add_same_cancel1 less_Suc_eq_le CACHE_LEN_simps(3))
    with gs(1) k(1) have e: "entries (repair_cache start (bs ! 0) c) = filter ?low good @
        filter ?low (take (CACHE_LEN - 1 - length good) stale) @ replicate k (bs ! 0, 0)" by simp
    have "covers bs good" using False gs(3) by simp
    have "filter (\<lambda>e. snd e < j) (filter ?low good) = filter (\<lambda>e. snd e < j) good" if "j \<le> start" for j
      using that by (auto intro!: filter_cong)
    with \<open>covers bs good\<close> start have "covers (take start bs) (filter ?low good)" by (simp add: covers_def)
    with ok k(2,3) show ?thesis by (intro cache_invI [OF _ _ e]) auto
  qed
qed

lemma unique_inv_pop:
  assumes "unique_inv bs r" "start \<le> length bs"
  shows "unique_inv (take start bs) (if start \<le> fst r then (0, 0) else (fst r, min (snd r) start))"
proof -
  have u: "fst r \<le> i \<and> i < snd r" if "i < length bs" "Item_perm (bs ! i) = SbUnique" for i
    using assms(1) that by (auto simp: unique_inv_def)
  have "fst r \<le> i \<and> i < snd r \<and> i < start" if "i < length (take start bs)" "Item_perm (take start bs ! i) = SbUnique" for i
    using u [of i] that by simp
  moreover have "fst r \<le> snd r" using assms(1) by (simp add: unique_inv_def)
  ultimately show ?thesis unfolding unique_inv_def using assms(2)
    by (cases "start \<le> fst r") (auto simp: not_le)
qed

lemma pop_refines:
  assumes rel: "stack_rel bs bottom s" and start: "start \<le> length bs"
  shows "rel_outcome (=) (\<lambda>s' bs'. stack_rel bs' bottom s' \<and> range_reset s')
    (pop_items_after start visitor s) (pop_loop start visitor bs)"
proof -
  let ?r = "unique_range s" and ?r' = "if start \<le> fst (unique_range s) then (0, 0) else (fst (unique_range s), min (snd (unique_range s)) start)"
  from rel have bs: "borrows s = bs" "unknown_bottom s = bottom" and inv: "tags_distinct bs" "cache_inv bs (cache s)"
    "unique_inv bs ?r" "range_inv bs ?r" by (auto simp: stack_rel_def Stack_inv_def)
  show ?thesis
  proof (cases "pop_loop start visitor bs")
    case (Ok bs')
    then have bs': "bs' = take start bs" by (rule pop_loop_take)
    have d: "tags_distinct bs'" using inv(1) by (simp add: bs' tags_distinct_def take_map [symmetric] distinct_take)
    show ?thesis
    proof (cases "bs' = []")
      case True
      from inv(2) have "cache_inv [] (cache s)"
        by (rule cache_invE) (rule cache_invI [where good = "[]"], auto simp: covers_def)
      with True Ok bs show ?thesis
        by (simp add: pop_items_after_def stack_rel_def Stack_inv_def tags_distinct_def unique_inv_def range_inv_def range_reset_def)
    next
      case False
      then have "0 < start" "bs' ! 0 = bs ! 0" by (auto simp: bs')
      let ?s = "s\<lparr>borrows := bs', cache := repair_cache start (bs ! 0) (cache s), unique_range := ?r'\<rparr>"
      have "stack_rel bs' bottom ?s \<and> range_reset ?s"
        using d cache_inv_pop [OF inv(2) start \<open>0 < start\<close>] unique_inv_pop [OF inv(3) start]
          range_after [OF inv(3,4) start] bs(2)
        by (cases ?r') (auto simp: stack_rel_def Stack_inv_def range_inv_def range_reset_def range_is_empty_def
            unique_inv_def bs')
      moreover have "pop_items_after start visitor s = Ok ?s"
        using Ok bs(1) False \<open>bs' ! 0 = bs ! 0\<close> by (simp add: pop_items_after_def Let_def)
      ultimately show ?thesis using Ok by simp
    qed
  qed (simp_all add: pop_items_after_def bs)
qed

subsection \<open>Garbage collection\<close>

lemma retain_from_snoc:
  "retain_from tags l (bs @ [x]) = retain_from tags l bs @ (if should_keep tags (last (l # bs)) x then [x] else [])"
  by (induction tags l bs rule: retain_from.induct) auto

lemma plain_retain_snoc:
  "bs \<noteq> [] \<Longrightarrow> plain_retain tags (bs @ [x]) = plain_retain tags bs @ (if should_keep tags (last bs) x then [x] else [])"
  by (cases bs) (auto simp: retain_from_snoc)

lemma plain_retain_take_Suc:
  assumes "0 < r" "r < length bs"
  shows "plain_retain tags (take (Suc r) bs) =
    plain_retain tags (take r bs) @ (if should_keep tags (bs ! (r - 1)) (bs ! r) then [bs ! r] else [])"
proof -
  have ne: "take r bs \<noteq> []" using assms by auto
  moreover have "last (take r bs) = bs ! (r - 1)" using last_conv_nth [OF ne] assms by simp
  ultimately show ?thesis
    using assms plain_retain_snoc [of "take r bs"] by (simp add: take_Suc_conv_app_nth)
qed

lemma plain_retain_length: "length (plain_retain tags bs) \<le> length bs"
proof -
  have "length (retain_from tags l bs) \<le> length bs" for l bs
    by (induction tags l bs rule: retain_from.induct) auto
  then show ?thesis by (cases bs) auto
qed

lemma plain_retain_subseq: "subseq (plain_retain tags bs) bs"
proof -
  have "subseq (retain_from tags l bs) bs" for l bs
    by (induction tags l bs rule: retain_from.induct) auto
  then show ?thesis by (cases bs) auto
qed

lemma subseq_distinct_set: "subseq xs ys \<Longrightarrow> set xs \<subseteq> set ys \<and> (distinct ys \<longrightarrow> distinct xs)"
  unfolding subseq_conv_nths by (auto dest: in_set_nthsD intro: distinct_nthsI)

text \<open>The state of the loop after it has looked at the first \<open>r\<close> items.\<close>

definition retain_inv :: "(BorTag \<Rightarrow> bool) \<Rightarrow> Item list \<Rightarrow> nat \<Rightarrow> Item list \<times> nat \<times> nat option \<Rightarrow> bool" where
  "retain_inv tags bs0 r x \<longleftrightarrow> (case x of (bs, w, f) \<Rightarrow>
     length bs = length bs0 \<and> take w bs = plain_retain tags (take r bs0) \<and> 0 < w \<and> w \<le> r \<and>
     (\<forall>p. r - 1 \<le> p \<and> p < length bs0 \<longrightarrow> bs ! p = bs0 ! p) \<and>
     (case f of None \<Rightarrow> w = r \<and> bs = bs0
      | Some i \<Rightarrow> 0 < i \<and> i \<le> w \<and> i < r \<and> w < r \<and> take i bs = take i bs0))"

lemma retain_step_inv:
  assumes inv: "retain_inv tags bs0 r x" and r: "0 < r" "r < length bs0"
  shows "retain_inv tags bs0 (Suc r) (retain_step tags r x)"
proof -
  obtain bs w f where x: "x = (bs, w, f)" by (cases x)
  have at: "bs ! (r - 1) = bs0 ! (r - 1)" "bs ! r = bs0 ! r" "length bs = length bs0" "w \<le> r" "0 < w"
    "take w bs = plain_retain tags (take r bs0)" "\<And>p. r \<le> p \<Longrightarrow> p < length bs0 \<Longrightarrow> bs ! p = bs0 ! p"
    using inv r by (auto simp: retain_inv_def x)
  note next_take = plain_retain_take_Suc [OF r, of tags]
  show ?thesis
  proof (cases "should_keep tags (bs0 ! (r - 1)) (bs0 ! r)")
    case False
    with at next_take inv r show ?thesis
      by (auto simp: retain_step_def retain_inv_def x split: option.splits)
  next
    case keep: True
    let ?bs = "if r \<noteq> w then bs[w := bs ! r] else bs"
    have "?bs = bs[w := bs ! r]" by auto
    then have "take (Suc w) ?bs = take w bs @ [bs ! r]"
      using at(3,4) r by (simp add: take_Suc_conv_app_nth)
    then have "take (Suc w) ?bs = plain_retain tags (take (Suc r) bs0)" using keep at(2,6) next_take by simp
    moreover have "?bs ! p = bs0 ! p" if "r \<le> p" "p < length bs0" for p using at(4,7) that by auto
    moreover have "take i ?bs = take i bs0" if "i \<le> w" "take i bs = take i bs0" for i using that by simp
    moreover have "w = r \<Longrightarrow> ?bs = bs" by simp
    ultimately show ?thesis using keep at(1-5) inv r
      unfolding retain_step_def retain_inv_def x Let_def case_prod_conv
      by (cases f) (simp_all del: take_Suc, auto)
  qed
qed

lemma retain_loop:
  assumes "bs0 \<noteq> []"
  shows "retain_inv tags bs0 (length bs0) (fold (retain_step tags) [1..<length bs0] (bs0, 1, None))"
proof -
  have "retain_inv tags bs0 r (fold (retain_step tags) [1..<r] (bs0, 1, None))" if "1 \<le> r" "r \<le> length bs0" for r
    using that
  proof (induction r rule: nat_induct_at_least)
    case base
    from assms show ?case by (cases bs0) (simp_all add: retain_inv_def)
  next
    case (Suc r)
    then have "retain_inv tags bs0 r (fold (retain_step tags) [1..<r] (bs0, 1, None))" by simp
    from retain_step_inv [OF this] Suc show ?case by simp
  qed
  moreover have "1 \<le> length bs0" using assms by (cases bs0) auto
  ultimately show ?thesis by simp
qed

lemma retain_cache_inv:
  assumes inv: "cache_inv bs c" and f: "take f bs' = take f bs" "0 < f" "f \<le> length bs'" "length bs' \<le> length bs"
  shows "cache_inv bs' (retain_cache f (bs' ! 0) c)"
proof -
  let ?g = "\<lambda>e. if snd e \<ge> f then (bs' ! 0, 0) else e"
  from inv obtain good stale where gs: "entries c = good @ stale" "\<And>e. e \<in> set good \<Longrightarrow> entry_ok bs e"
    "stale = [] \<or> covers bs good" and len: "length (cache_items c) = CACHE_LEN" "length (cache_idx c) = CACHE_LEN"
    by (rule cache_invE) blast
  have "map (\<lambda>i. if i \<ge> f then 0 else i) (cache_idx c) = map (\<lambda>e. if snd e \<ge> f then 0 else snd e) (entries c)"
    using len by (intro nth_equalityI) (auto simp: entries_def)
  then have "entries (retain_cache f (bs' ! 0) c) = map ?g (entries c)"
    by (simp add: retain_cache_def entries_def zip_map_map zip_same_conv_map case_prod_beta)
  then have e: "entries (retain_cache f (bs' ! 0) c) = map ?g good @ map ?g stale" by (simp add: gs(1))
  have ok: "entry_ok bs' (?g e)" if "entry_ok bs e" for e
  proof (cases "snd e \<ge> f")
    case False
    then have "bs' ! snd e = bs ! snd e" using f(1) by (metis not_le nth_take)
    with False that f show ?thesis by (simp add: entry_ok_def)
  next
    case True
    have "0 < length bs'" using f(2,3) by (rule less_le_trans)
    with True show ?thesis by (simp add: entry_ok_def)
  qed
  have "covers bs' (map ?g good)" if c: "covers bs good"
    unfolding covers_def
  proof (intro allI impI)
    fix k assume k: "k \<le> length bs'"
    then have lo: "k \<le> length (filter (\<lambda>e. snd e < k) good)" using c f(4) by (simp add: covers_def)
    show "k \<le> length (filter (\<lambda>e. snd e < k) (map ?g good))"
    proof (cases "k = 0")
      case False
      then have "length (filter (\<lambda>e. snd e < k) good) \<le> length (filter (\<lambda>e. snd (?g e) < k) good)"
        by (induction good) auto
      with lo show ?thesis by (simp add: filter_map o_def)
    qed simp
  qed
  moreover have "\<forall>e\<in>set (map ?g good). entry_ok bs' e" using gs(2) ok by (metis (no_types, lifting) imageE set_map)
  ultimately show ?thesis using gs(3) len
    by (intro cache_invI [OF _ _ e]) (auto simp: retain_cache_def)
qed

lemma retain_refines:
  assumes rel: "stack_rel bs bottom s"
  shows "\<exists>s'. Stack_retain tags s = (Ok s' :: ('e, _) outcome) \<and> stack_rel (plain_retain tags bs) bottom s'"
proof (cases "bs = []")
  case True
  with rel show ?thesis by (auto simp: Stack_retain_def stack_rel_def Stack_inv_def)
next
  case False
  from rel have bs: "borrows s = bs" "unknown_bottom s = bottom" and inv: "tags_distinct bs" "cache_inv bs (cache s)"
    "unique_inv bs (unique_range s)" "range_inv bs (unique_range s)" by (auto simp: stack_rel_def Stack_inv_def)
  obtain b w f where l: "fold (retain_step tags) [1..<length bs] (bs, 1, None) = (b, w, f)" by (metis prod_cases3)
  from retain_loop [OF False, of tags] l have r: "take w b = plain_retain tags bs" "length b = length bs"
    "0 < w" "w \<le> length bs" and ff: "case f of None \<Rightarrow> w = length bs \<and> b = bs
      | Some i \<Rightarrow> 0 < i \<and> i \<le> w \<and> i < length bs \<and> w < length bs \<and> take i b = take i bs"
    by (auto simp: retain_inv_def)
  let ?bs = "plain_retain tags bs"
  have d: "tags_distinct ?bs"
    using inv(1) subseq_distinct_set [OF subseq_map [OF plain_retain_subseq]] unfolding tags_distinct_def by blast
  show ?thesis
  proof (cases f)
    case None
    with ff r have "?bs = bs" by simp
    with None l r rel bs show ?thesis by (auto simp: Stack_retain_def stack_rel_def Stack_inv_def)
  next
    case (Some i)
    have len: "length ?bs = w" using r by (metis length_take min.absorb2)
    have i: "0 < i" "i \<le> w" "take i ?bs = take i bs" "w < length bs" using ff Some r(1) by (auto simp: r(1) [symmetric] min_def)
    let ?r = "if range_is_empty (unique_range s) then unique_range s else (0, w)"
    let ?s = "s\<lparr>borrows := ?bs, unique_range := ?r, cache := retain_cache i (?bs ! 0) (cache s)\<rparr>"
    have "Stack_retain tags s = (Ok ?s :: ('e, _) outcome)"
      using l Some r(1,3) len bs(1) by (auto simp: Stack_retain_def Let_def)
    moreover have "cache_inv ?bs (retain_cache i (?bs ! 0) (cache s))"
      using retain_cache_inv [OF inv(2) i(3,1)] i len r(4) by simp
    moreover have "unique_inv ?bs ?r \<and> range_inv ?bs ?r"
    proof (cases "range_is_empty (unique_range s)")
      case True
      with inv(3,4) have rr: "unique_range s = (0, 0) \<or> unique_range s = (1, 1) \<and> length bs = 1"
        by (cases "unique_range s") (auto simp: range_is_empty_def unique_inv_def range_inv_def)
      have "Item_perm x \<noteq> SbUnique" if "x \<in> set bs" for x
        using inv(3) True that by (auto simp: unique_inv_def range_is_empty_def in_set_conv_nth)
      then have "Item_perm x \<noteq> SbUnique" if "x \<in> set ?bs" for x
        using that subseq_distinct_set [OF plain_retain_subseq [of tags bs]] by blast
      then have "\<forall>i<length ?bs. Item_perm (?bs ! i) \<noteq> SbUnique" by simp
      with rr i r(3) True show ?thesis by (auto simp: unique_inv_def range_inv_def)
    next
      case False
      then show ?thesis using len r(3) by (auto simp: unique_inv_def range_inv_def)
    qed
    ultimately show ?thesis using d bs(2) by (auto simp: stack_rel_def Stack_inv_def)
  qed
qed

subsection \<open>The consistency check\<close>

lemma ofold_unit_checks: "(\<And>x. x \<in> set xs \<Longrightarrow> f x () = Ok ()) \<Longrightarrow> ofold f xs () = Ok ()"
  by (induction xs) auto

lemma verify_Ok:
  assumes inv: "Stack_inv s"
  shows "verify_cache_consistency s = (Ok () :: ('e, unit) outcome)"
proof -
  from inv have c: "cache_inv (borrows s) (cache s)" and u: "unique_inv (borrows s) (unique_range s)"
    by (auto simp: Stack_inv_def)
  have "ofold (\<lambda>(item, stack_idx) _. obind (vec_get (borrows s) stack_idx) (\<lambda>b. check (b = item)))
      (zip (cache_items (cache s)) (cache_idx (cache s))) () = (Ok () :: ('e, unit) outcome)" if "CACHE_LEN \<le> length (borrows s)"
    using full_cache_ok [OF c that]
    by (intro ofold_unit_checks) (fastforce simp: entries_def entry_ok_def)
  moreover have "ofold (\<lambda>(idx, item) _. if Item_perm item = SbUnique
        then check (fst (unique_range s) \<le> idx \<and> idx < snd (unique_range s)) else Ok ())
      (zip [0..<length (borrows s)] (borrows s)) () = (Ok () :: ('e, unit) outcome)"
    using u by (intro ofold_unit_checks) (auto simp: unique_inv_def in_set_zip)
  ultimately show ?thesis using u by (simp add: verify_cache_consistency_def unique_inv_def)
qed

end
