(* ===== verification/SB_Core.thy ===== *)
theory SB_Core
  imports SB_Stack Dedup_Range_Map
begin

text \<open>
  The rules of Stacked Borrows, \<open>src/borrow_tracker/stacked_borrows/mod.rs\<close>: accesses, deallocation and
  grants on the stack of one location, the stacks of an allocation, the hooks of the interpreter, and
  the choice of permissions for a retag. The history kept for diagnostics and the texts of errors are
  left out; what the compiler knows about a type is an argument.

  Theorems: the stack with its cache behaves exactly like the bare stack under every sequence of
  operations and never fails its own consistency check; the stack discipline (only \<open>SharedReadOnly\<close>
  above \<open>SharedReadOnly\<close>, no tag twice); and what a \<open>Unique\<close> at the top guarantees.
\<close>

section \<open>Permissions of a retag\<close>

datatype SbNewPermission =
    Uniform SbPermission "AccessKind option" "ProtectorKind option"
  | FreezeSensitive SbPermission "AccessKind option" "ProtectorKind option" SbPermission "AccessKind option"

datatype Mutability = Mut | NotMut

datatype PtrTy = RefTy Mutability | RawPtrTy Mutability | OtherTy

text \<open>The arguments \<open>is_unpin\<close> and \<open>is_unsafe_unpin\<close> are what the compiler says of the pointee.\<close>

definition from_ref_ty :: "PtrTy \<Rightarrow> RetagMode \<Rightarrow> bool \<Rightarrow> bool \<Rightarrow> ('e, SbNewPermission) outcome" where
  "from_ref_ty ty mode is_unpin is_unsafe_unpin =
     (let protector = (if mode = RetagFnEntry then Some StrongProtector else None) in
      case ty of
        RefTy Mut \<Rightarrow>
          if mode = RetagTwoPhase then
            obind (check (protector = None)) (\<lambda>_. Ok (Uniform SharedReadWrite None None))
          else if is_unpin \<and> is_unsafe_unpin then Ok (Uniform SbUnique (Some Write) protector)
          else Ok (Uniform SharedReadWrite None None)
      | RawPtrTy Mut \<Rightarrow>
          obind (check (mode = RetagRaw)) (\<lambda>_.
          obind (check (protector = None)) (\<lambda>_. Ok (Uniform SharedReadWrite None None)))
      | RefTy NotMut \<Rightarrow> Ok (FreezeSensitive SharedReadOnly (Some Read) protector SharedReadWrite None)
      | RawPtrTy NotMut \<Rightarrow>
          obind (check (mode = RetagRaw)) (\<lambda>_.
          obind (check (protector = None)) (\<lambda>_.
          Ok (FreezeSensitive SharedReadOnly (Some Read) None SharedReadWrite None)))
      | OtherTy \<Rightarrow> Panic)"

definition from_box_ty :: "RetagMode \<Rightarrow> bool \<Rightarrow> bool \<Rightarrow> SbNewPermission" where
  "from_box_ty mode is_unpin is_unsafe_unpin =
     (if is_unpin \<and> is_unsafe_unpin
      then Uniform SbUnique (Some Write) (if mode = RetagFnEntry then Some WeakProtector else None)
      else Uniform SharedReadWrite None None)"

definition SbNewPermission_protector :: "SbNewPermission \<Rightarrow> ProtectorKind option" where
  "SbNewPermission_protector p =
     (case p of Uniform _ _ protector \<Rightarrow> protector | FreezeSensitive _ _ freeze_protector _ _ \<Rightarrow> freeze_protector)"

section \<open>One location\<close>

datatype SbError = SbAccessError | SbGrantError | SbProtectorError Item ProtectorKind

datatype ItemInvalidationCause = Conflict | Dealloc

function skip_srw :: "Stack \<Rightarrow> nat \<Rightarrow> nat" where
  "skip_srw s idx =
     (case Stack_get idx s of
        None \<Rightarrow> idx
      | Some item \<Rightarrow> if Item_perm item = SharedReadWrite then skip_srw s (idx + 1) else idx)"
  by pat_completeness auto
termination
  by (relation "measure (\<lambda>(s, idx). length (borrows s) - idx)") (auto simp: Stack_get_def split: if_splits)

declare skip_srw.simps [simp del]

definition find_first_write_incompatible :: "nat \<Rightarrow> Stack \<Rightarrow> ('e, nat) outcome" where
  "find_first_write_incompatible granting s =
     obind (unwrap (Stack_get granting s)) (\<lambda>item.
     case Item_perm item of
       SharedReadOnly \<Rightarrow> Panic
     | SbDisabled \<Rightarrow> Panic
     | SbUnique \<Rightarrow> Ok (granting + 1)
     | SharedReadWrite \<Rightarrow> Ok (skip_srw s (granting + 1)))"

definition item_invalidated :: "GlobalStateInner \<Rightarrow> ItemInvalidationCause \<Rightarrow> Item \<Rightarrow> (SbError, unit) outcome" where
  "item_invalidated global cause item =
     (if \<not> Item_protected item then Ok ()
      else case protected_tags global (Item_tag item) of
        None \<Rightarrow> Ok ()
      | Some protector_kind \<Rightarrow>
          if cause = Dealloc \<and> protector_kind = WeakProtector then Ok ()
          else Err (SbProtectorError item protector_kind))"

definition upper_bound_step :: "Stack \<Rightarrow> nat \<Rightarrow> BorTag \<Rightarrow> ('e, BorTag) outcome" where
  "upper_bound_step s i m =
     obind (unwrap (Stack_get i s)) (\<lambda>item.
     if Item_perm item = SbDisabled then Ok m
     else obind (unwrap (BorTag_succ (Item_tag item))) (\<lambda>t. Ok (max t m)))"

text \<open>The two steps of an access after the granting item was found: removing what is incompatible, and
  forgetting the stack when the match was only approximate.\<close>

definition access_invalidate ::
  "AccessKind \<Rightarrow> nat option \<Rightarrow> GlobalStateInner \<Rightarrow> Stack \<Rightarrow> (SbError, Stack) outcome" where
  "access_invalidate access granting_idx global s =
     (if access = Write then
        obind (case granting_idx of
                 Some idx \<Rightarrow> find_first_write_incompatible idx s
               | None \<Rightarrow> Ok 0) (\<lambda>first_incompatible_idx.
        pop_items_after first_incompatible_idx (item_invalidated global Conflict) s)
      else
        disable_uniques_starting_at (case granting_idx of Some idx \<Rightarrow> idx + 1 | None \<Rightarrow> 0)
          (item_invalidated global Conflict) s)"

definition access_forget :: "ProvenanceExtra \<Rightarrow> nat option \<Rightarrow> Stack \<Rightarrow> ('e, Stack) outcome" where
  "access_forget tag granting_idx s =
     (if granting_idx = None \<or> tag = Wildcard then
        obind (ofold (upper_bound_step s) [0..<Stack_len s] BorTag_one) (\<lambda>m.
        Ok (set_unknown_bottom (case unknown_bottom s of Some unk \<Rightarrow> max unk m | None \<Rightarrow> m) s))
      else Ok s)"

definition Stack_access ::
  "AccessKind \<Rightarrow> ProvenanceExtra \<Rightarrow> GlobalStateInner \<Rightarrow> (BorTag \<Rightarrow> bool) \<Rightarrow> Stack \<Rightarrow> (SbError, Stack) outcome" where
  "Stack_access access tag global exposed_tags s =
     obind (map_err (\<lambda>_. SbAccessError) (find_granting access tag exposed_tags s)) (\<lambda>(s, granting_idx).
     obind (access_invalidate access granting_idx global s) (\<lambda>s.
     access_forget tag granting_idx s))"

definition Stack_dealloc ::
  "ProvenanceExtra \<Rightarrow> GlobalStateInner \<Rightarrow> (BorTag \<Rightarrow> bool) \<Rightarrow> Stack \<Rightarrow> (SbError, Stack) outcome" where
  "Stack_dealloc tag global exposed_tags s =
     obind (Stack_access Write tag global exposed_tags s) (\<lambda>s.
     obind (ofold (\<lambda>idx _. obind (unwrap (Stack_get idx s)) (item_invalidated global Dealloc))
       (rev [0..<Stack_len s]) ()) (\<lambda>_.
     Ok s))"

definition Stack_grant ::
  "ProvenanceExtra \<Rightarrow> Item \<Rightarrow> AccessKind option \<Rightarrow> GlobalStateInner \<Rightarrow> (BorTag \<Rightarrow> bool) \<Rightarrow> Stack \<Rightarrow> (SbError, Stack) outcome" where
  "Stack_grant derived_from new access global exposed_tags s =
     (case access of
        Some access \<Rightarrow>
          obind (Stack_access access derived_from global exposed_tags s) (\<lambda>s.
          Stack_insert (Stack_len s) new s)
      | None \<Rightarrow>
          obind (check (Item_perm new = SharedReadWrite)) (\<lambda>_.
          obind (map_err (\<lambda>_. SbGrantError) (find_granting Write derived_from exposed_tags s)) (\<lambda>(s, granting_idx).
          case (granting_idx, derived_from) of
            (Some granting_idx, Concrete _) \<Rightarrow>
              obind (find_first_write_incompatible granting_idx s) (\<lambda>new_idx. Stack_insert new_idx new s)
          | _ \<Rightarrow> Ok (set_unknown_bottom (next_ptr_tag global) s))))"

section \<open>The stacks of an allocation\<close>

record Stacks =
  stacks :: "Stack DedupRangeMap"
  exposed_tags :: "BorTag set"

definition Stacks_remove_unreachable_tags :: "(BorTag \<Rightarrow> bool) \<Rightarrow> Stacks \<Rightarrow> ('e, Stacks) outcome" where
  "Stacks_remove_unreachable_tags live_tags a =
     obind (DedupRangeMap_iter_mut_all (\<lambda>_ stack u. obind (Stack_retain live_tags stack) (\<lambda>stack. Ok (stack, u)))
              (stacks a) ()) (\<lambda>(v, _).
     Ok (a\<lparr>stacks := v\<rparr>))"

text \<open>Tags the allocation keeps alive: the exposed ones.\<close>

definition Stacks_visit_provenance :: "Stacks \<Rightarrow> BorTag set" where
  "Stacks_visit_provenance a = exposed_tags a"

definition Stacks_new :: "nat \<Rightarrow> SbPermission \<Rightarrow> BorTag \<Rightarrow> ('e, Stacks) outcome" where
  "Stacks_new sz perm tag =
     obind (Item_new tag perm False) (\<lambda>item.
     Ok \<lparr>stacks = DedupRangeMap_new sz (Stack_new item), exposed_tags = {}\<rparr>)"

definition Stacks_for_each ::
  "nat \<Rightarrow> nat \<Rightarrow> (Stack \<Rightarrow> (BorTag \<Rightarrow> bool) \<Rightarrow> ('e, Stack) outcome) \<Rightarrow> Stacks \<Rightarrow> ('e, Stacks) outcome" where
  "Stacks_for_each start sz f a =
     obind (DedupRangeMap_for_each Stack_eq
              (\<lambda>_ stack u. obind (f stack (\<lambda>t. t \<in> exposed_tags a)) (\<lambda>stack. Ok (stack, u)))
              (stacks a) start sz ()) (\<lambda>(v, _).
     Ok (a\<lparr>stacks := v\<rparr>))"

text \<open>The hooks of the interpreter. \<open>MemoryKind\<close> only matters as far as it is the stack or not.\<close>

datatype MemoryKind = MemStack | MemOther

definition Stacks_new_allocation ::
  "AllocId \<Rightarrow> nat \<Rightarrow> GlobalStateInner \<Rightarrow> MemoryKind \<Rightarrow> ('e, GlobalStateInner \<times> Stacks) outcome" where
  "Stacks_new_allocation aid sz g kind =
     obind (root_ptr_tag g aid) (\<lambda>(g, base_tag).
     obind (Stacks_new sz (case kind of MemStack \<Rightarrow> SbUnique | _ \<Rightarrow> SharedReadWrite) base_tag) (\<lambda>a.
     Ok (g, a)))"

definition Stacks_before_memory_read ::
  "ProvenanceExtra \<Rightarrow> nat \<Rightarrow> nat \<Rightarrow> GlobalStateInner \<Rightarrow> Stacks \<Rightarrow> (SbError, Stacks) outcome" where
  "Stacks_before_memory_read tag start sz g a =
     Stacks_for_each start sz (\<lambda>stack exposed. Stack_access Read tag g exposed stack) a"

definition Stacks_before_memory_write ::
  "ProvenanceExtra \<Rightarrow> nat \<Rightarrow> nat \<Rightarrow> GlobalStateInner \<Rightarrow> Stacks \<Rightarrow> (SbError, Stacks) outcome" where
  "Stacks_before_memory_write tag start sz g a =
     Stacks_for_each start sz (\<lambda>stack exposed. Stack_access Write tag g exposed stack) a"

definition Stacks_before_memory_deallocation ::
  "ProvenanceExtra \<Rightarrow> nat \<Rightarrow> GlobalStateInner \<Rightarrow> Stacks \<Rightarrow> (SbError, Stacks) outcome" where
  "Stacks_before_memory_deallocation tag sz g a =
     Stacks_for_each 0 sz (\<lambda>stack exposed. Stack_dealloc tag g exposed stack) a"

section \<open>The rules without the cache\<close>

fun skip_srw_from :: "nat \<Rightarrow> Item list \<Rightarrow> nat" where
  "skip_srw_from idx [] = idx"
| "skip_srw_from idx (item # bs) = (if Item_perm item = SharedReadWrite then skip_srw_from (idx + 1) bs else idx)"

definition plain_first_incompatible :: "nat \<Rightarrow> Item list \<Rightarrow> ('e, nat) outcome" where
  "plain_first_incompatible granting bs =
     (if granting < length bs then
        (case Item_perm (bs ! granting) of
           SbUnique \<Rightarrow> Ok (granting + 1)
         | SharedReadWrite \<Rightarrow> Ok (skip_srw_from (granting + 1) (drop (granting + 1) bs))
         | _ \<Rightarrow> Panic)
      else Panic)"

definition plain_bound_step :: "Item list \<Rightarrow> nat \<Rightarrow> BorTag \<Rightarrow> ('e, BorTag) outcome" where
  "plain_bound_step bs i m =
     obind (vec_get bs i) (\<lambda>item.
     if Item_perm item = SbDisabled then Ok m
     else obind (unwrap (BorTag_succ (Item_tag item))) (\<lambda>t. Ok (max t m)))"

definition plain_invalidate ::
  "AccessKind \<Rightarrow> nat option \<Rightarrow> GlobalStateInner \<Rightarrow> Item list \<Rightarrow> (SbError, Item list) outcome" where
  "plain_invalidate access granting_idx global bs =
     (if access = Write then
        obind (case granting_idx of Some idx \<Rightarrow> plain_first_incompatible idx bs | None \<Rightarrow> Ok 0) (\<lambda>first.
        pop_loop first (item_invalidated global Conflict) bs)
      else plain_disable (case granting_idx of Some idx \<Rightarrow> idx + 1 | None \<Rightarrow> 0) (item_invalidated global Conflict) bs)"

definition plain_forget ::
  "ProvenanceExtra \<Rightarrow> nat option \<Rightarrow> BorTag option \<Rightarrow> Item list \<Rightarrow> ('e, Item list \<times> BorTag option) outcome" where
  "plain_forget tag granting_idx bottom bs =
     (if granting_idx = None \<or> tag = Wildcard then
        obind (ofold (plain_bound_step bs) [0..<length bs] BorTag_one) (\<lambda>m.
        Ok ([], Some (case bottom of Some unk \<Rightarrow> max unk m | None \<Rightarrow> m)))
      else Ok (bs, bottom))"

definition plain_access ::
  "AccessKind \<Rightarrow> ProvenanceExtra \<Rightarrow> GlobalStateInner \<Rightarrow> (BorTag \<Rightarrow> bool) \<Rightarrow> Item list \<times> BorTag option \<Rightarrow>
     (SbError, Item list \<times> BorTag option) outcome" where
  "plain_access access tag global exposed = (\<lambda>(bs, bottom).
     obind (map_err (\<lambda>_. SbAccessError) (plain_find access tag exposed bs bottom)) (\<lambda>granting_idx.
     obind (plain_invalidate access granting_idx global bs) (\<lambda>bs.
     plain_forget tag granting_idx bottom bs)))"

definition plain_dealloc ::
  "ProvenanceExtra \<Rightarrow> GlobalStateInner \<Rightarrow> (BorTag \<Rightarrow> bool) \<Rightarrow> Item list \<times> BorTag option \<Rightarrow>
     (SbError, Item list \<times> BorTag option) outcome" where
  "plain_dealloc tag global exposed s =
     obind (plain_access Write tag global exposed s) (\<lambda>(bs, bottom).
     obind (ofold (\<lambda>item _. item_invalidated global Dealloc item) (rev bs) ()) (\<lambda>_. Ok (bs, bottom)))"

definition plain_grant ::
  "ProvenanceExtra \<Rightarrow> Item \<Rightarrow> AccessKind option \<Rightarrow> GlobalStateInner \<Rightarrow> (BorTag \<Rightarrow> bool) \<Rightarrow> Item list \<times> BorTag option \<Rightarrow>
     (SbError, Item list \<times> BorTag option) outcome" where
  "plain_grant derived_from new access global exposed s =
     (case access of
        Some access \<Rightarrow>
          obind (plain_access access derived_from global exposed s) (\<lambda>(bs, bottom). Ok (bs @ [new], bottom))
      | None \<Rightarrow>
          obind (check (Item_perm new = SharedReadWrite)) (\<lambda>_.
          obind (map_err (\<lambda>_. SbGrantError) (plain_find Write derived_from exposed (fst s) (snd s))) (\<lambda>granting_idx.
          case (granting_idx, derived_from) of
            (Some granting_idx, Concrete _) \<Rightarrow>
              obind (plain_first_incompatible granting_idx (fst s)) (\<lambda>n.
              Ok (take n (fst s) @ new # drop n (fst s), snd s))
          | _ \<Rightarrow> Ok ([], Some (next_ptr_tag global)))))"

section \<open>Refinement\<close>

definition core_rel :: "Stack \<Rightarrow> Item list \<times> BorTag option \<Rightarrow> bool" where
  "core_rel s p \<longleftrightarrow> stack_rel (fst p) (snd p) s"

lemma skip_srw_from: "idx \<le> length (borrows s) \<Longrightarrow> skip_srw s idx = skip_srw_from idx (drop idx (borrows s))"
proof (induction s idx rule: skip_srw.induct)
  case (1 s idx)
  show ?case
  proof (cases "idx < length (borrows s)")
    case True
    then have "drop idx (borrows s) = borrows s ! idx # drop (idx + 1) (borrows s)" by (simp add: Cons_nth_drop_Suc)
    with 1 True show ?thesis by (subst skip_srw.simps) (simp add: Stack_get_def)
  next
    case False
    with 1 show ?thesis by (subst skip_srw.simps) (simp add: Stack_get_def)
  qed
qed

lemma skip_srw_from_le: "idx \<le> skip_srw_from idx bs \<and> skip_srw_from idx bs \<le> idx + length bs"
  by (induction idx bs rule: skip_srw_from.induct) auto

lemma first_incompatible_refines:
  "borrows s = bs \<Longrightarrow> find_first_write_incompatible i s = plain_first_incompatible i bs"
  by (auto simp: find_first_write_incompatible_def plain_first_incompatible_def Stack_get_def skip_srw_from
      split: SbPermission.splits)

lemma plain_first_incompatible_bounds:
  "plain_first_incompatible i bs = Ok n \<Longrightarrow> i < length bs \<and> i < n \<and> n \<le> length bs"
  using skip_srw_from_le [of "i + 1" "drop (i + 1) bs"]
  by (auto simp: plain_first_incompatible_def split: if_splits SbPermission.splits)

lemma rel_map_err: "rel_outcome (=) R m n \<Longrightarrow> rel_outcome (=) R (map_err f m) (map_err f n)"
  by (cases m; cases n) auto

lemma rel_obind_on:
  "rel_outcome (=) R m n \<Longrightarrow> (\<And>x y. m = Ok x \<Longrightarrow> n = Ok y \<Longrightarrow> R x y \<Longrightarrow> rel_outcome (=) S (f x) (g y)) \<Longrightarrow>
    rel_outcome (=) S (obind m f) (obind n g)"
  by (cases m; cases n) auto

lemma plain_find_Some:
  assumes "plain_find k tag ex bs bottom = Ok (Some i)"
  shows "i < length bs \<and> SbPermission_grants (Item_perm (bs ! i)) k \<and>
    (case tag of Wildcard \<Rightarrow> ex (Item_tag (bs ! i)) | Concrete t \<Rightarrow> t = Item_tag (bs ! i))"
  using assms by (auto simp: plain_find_def rposition_Some split: option.splits ProvenanceExtra.splits if_splits)

lemma bound_fold_refines:
  assumes "borrows s = bs"
  shows "ofold (upper_bound_step s) [0..<Stack_len s] m = ofold (plain_bound_step bs) [0..<length bs] m"
  using assms by (intro ofold_cong) (auto simp: Stack_len_def upper_bound_step_def plain_bound_step_def Stack_get_def)

lemma invalidate_refines:
  assumes r: "stack_rel bs bottom s" and j: "\<And>i. j = Some i \<Longrightarrow> i < length bs"
  shows "rel_outcome (=) (\<lambda>s' bs'. stack_rel bs' bottom s' \<and> range_reset s')
    (access_invalidate k j g s) (plain_invalidate k j g bs)"
proof (cases "k = Write")
  case True
  have b: "borrows s = bs" using r by (simp add: stack_rel_def)
  have "rel_outcome (=) (\<lambda>m n. m = n \<and> n \<le> length bs)
    (case j of Some idx \<Rightarrow> find_first_write_incompatible idx s | None \<Rightarrow> Ok 0)
    (case j of Some idx \<Rightarrow> plain_first_incompatible idx bs | None \<Rightarrow> (Ok 0 :: (SbError, _) outcome))"
    unfolding first_incompatible_refines [OF b]
    by (cases j) (auto intro!: rel_outcome_refl dest: plain_first_incompatible_bounds)
  with True show ?thesis
    by (auto simp: access_invalidate_def plain_invalidate_def intro!: rel_obind pop_refines [OF r])
next
  case False
  have "(case j of Some idx \<Rightarrow> idx + 1 | None \<Rightarrow> 0) \<le> length bs" using j by (cases j) auto
  from disable_refines [OF r this] False show ?thesis by (simp add: access_invalidate_def plain_invalidate_def)
qed

lemma forget_refines:
  assumes r: "stack_rel bs bottom s" "range_reset s"
  shows "rel_outcome (=) (\<lambda>s' p'. core_rel s' p' \<and> range_reset s') (access_forget tag j s) (plain_forget tag j bottom bs)"
proof -
  have b: "borrows s = bs" "unknown_bottom s = bottom" using r(1) by (auto simp: stack_rel_def)
  show ?thesis
    using r set_unknown_bottom_rel [OF r(1)]
    unfolding access_forget_def plain_forget_def bound_fold_refines [OF b(1)] b(2)
    by (auto simp: core_rel_def intro!: rel_obind [where R = "(=)"] rel_outcome_refl)
qed

lemma access_refines:
  assumes "core_rel s p"
  shows "rel_outcome (=) (\<lambda>s' p'. core_rel s' p' \<and> range_reset s')
    (Stack_access k tag g ex s) (plain_access k tag g ex p)"
proof -
  obtain bs bottom where p: "p = (bs, bottom)" by (cases p)
  have r: "stack_rel bs bottom s" using assms by (simp add: core_rel_def p)
  have step: "rel_outcome (=) (\<lambda>s' p'. core_rel s' p' \<and> range_reset s')
      (obind (access_invalidate k j g s1) (access_forget tag j)) (obind (plain_invalidate k j g bs) (plain_forget tag j bottom))"
    if "plain_find k tag ex bs bottom = Ok j" "stack_rel bs bottom s1" for s1 j
    using that by (intro rel_obind [OF invalidate_refines] forget_refines) (auto dest: plain_find_Some)
  show ?thesis unfolding Stack_access_def plain_access_def p case_prod_conv
    by (rule rel_obind_on [OF rel_map_err [OF find_granting_refines [OF r]]]) (auto intro: step)
qed

lemma dealloc_refines:
  assumes "core_rel s p"
  shows "rel_outcome (=) (\<lambda>s' p'. core_rel s' p' \<and> range_reset s') (Stack_dealloc tag g ex s) (plain_dealloc tag g ex p)"
proof -
  have "ofold (\<lambda>idx _. obind (unwrap (Stack_get idx s1)) (item_invalidated g Dealloc)) (rev [0..<Stack_len s1]) () =
    ofold (\<lambda>item _. item_invalidated g Dealloc item) (rev (borrows s1)) ()" for s1
  proof -
    have "ofold (\<lambda>idx _. obind (unwrap (Stack_get idx s1)) (item_invalidated g Dealloc)) is u =
      ofold (\<lambda>item _. item_invalidated g Dealloc item) (map ((!) (borrows s1)) is) u"
      if "\<forall>i\<in>set is. i < length (borrows s1)" for "is" and u :: unit
      using that by (induction "is" arbitrary: u) (auto simp: Stack_get_def intro!: obind_cong)
    then show ?thesis by (simp add: Stack_len_def rev_map [symmetric] map_nth)
  qed
  then show ?thesis unfolding Stack_dealloc_def plain_dealloc_def
    by (intro rel_obind [OF access_refines [OF assms]])
      (auto simp: core_rel_def stack_rel_def intro!: rel_obind [where R = "\<lambda>_ _. True"] rel_outcome_refl)
qed

text \<open>Accesses only remove items or disable them.\<close>

definition shrinks :: "Item list \<Rightarrow> Item list \<Rightarrow> bool" where
  "shrinks bs bs' \<longleftrightarrow> length bs' \<le> length bs \<and> (\<forall>i<length bs'. Item_tag (bs' ! i) = Item_tag (bs ! i) \<and>
     (bs' ! i = bs ! i \<or> Item_perm (bs ! i) = SbUnique \<and> Item_perm (bs' ! i) = SbDisabled))"

lemma shrinks_tags:
  assumes "shrinks bs bs'"
  shows "Item_tag ` set bs' \<subseteq> Item_tag ` set bs"
proof
  fix t assume "t \<in> Item_tag ` set bs'"
  then obtain i where "i < length bs'" "t = Item_tag (bs' ! i)" by (auto simp: in_set_conv_nth)
  with assms have "i < length bs" "t = Item_tag (bs ! i)" by (auto simp: shrinks_def)
  then show "t \<in> Item_tag ` set bs" by auto
qed

lemma shrinks_refl: "shrinks bs bs"
  by (simp add: shrinks_def)

lemma shrinks_take: "shrinks bs (take n bs)"
  by (simp add: shrinks_def)

lemma plain_disable_item:
  assumes "plain_disable start visitor bs = Ok bs'"
  shows "length bs' = length bs \<and> (\<forall>i<length bs. Item_tag (bs' ! i) = Item_tag (bs ! i) \<and>
    (if start \<le> i \<and> Item_perm (bs ! i) = SbUnique then Item_perm (bs' ! i) = SbDisabled else bs' ! i = bs ! i))"
proof -
  have "length bs' = length bs \<and> (\<forall>i<length bs. Item_tag (bs' ! i) = Item_tag (bs ! i) \<and>
    (if i \<in> set is \<and> Item_perm (bs ! i) = SbUnique then Item_perm (bs' ! i) = SbDisabled else bs' ! i = bs ! i))"
    if "ofold (plain_disable_step visitor) is bs = Ok bs'" "distinct is" "\<forall>i\<in>set is. i < length bs" for "is" bs
    using that
  proof (induction "is" arbitrary: bs)
    case Nil
    then show ?case by simp
  next
    case (Cons j "is")
    from Cons.prems(1) obtain b1 where b1: "plain_disable_step visitor j bs = Ok b1"
      "ofold (plain_disable_step visitor) is b1 = Ok bs'" by (auto simp: outcome_eqs)
    have "b1 = (if Item_perm (bs ! j) = SbUnique then bs[j := Item_set_permission SbDisabled (bs ! j)] else bs)"
      using b1(1) by (auto simp: plain_disable_step_def outcome_eqs split: if_splits)
    then have at: "length b1 = length bs" "b1 ! i = (if i = j \<and> Item_perm (bs ! j) = SbUnique
        then Item_set_permission SbDisabled (bs ! j) else bs ! i)" if "i < length bs" for i
      using that by (auto simp: nth_list_update)
    have len: "length b1 = length bs" using at(1) Cons.prems(3) by auto
    note IH = Cons.IH [OF b1(2)]
    show ?case using IH at(2) len Cons.prems(2,3) by auto
  qed
  from this [of "[start..<length bs]"] assms show ?thesis by (simp add: plain_disable_def)
qed

lemma plain_disable_shrinks: "plain_disable start visitor bs = Ok bs' \<Longrightarrow> shrinks bs bs'"
  by (drule plain_disable_item) (auto simp: shrinks_def; metis)

lemma plain_invalidate_shrinks: "plain_invalidate k j g bs = Ok bs' \<Longrightarrow> shrinks bs bs'"
  by (auto simp: plain_invalidate_def outcome_eqs intro: shrinks_take plain_disable_shrinks
      dest!: pop_loop_take split: if_splits)

lemma plain_access_shrinks: "plain_access k tag g ex (bs, bottom) = Ok (bs', bottom') \<Longrightarrow> shrinks bs bs'"
  by (auto simp: plain_access_def plain_forget_def outcome_eqs shrinks_def dest!: plain_invalidate_shrinks split: if_splits)

text \<open>The permissions and accesses that retags combine.\<close>

definition grant_ok :: "SbPermission \<Rightarrow> AccessKind option \<Rightarrow> bool" where
  "grant_ok perm access \<longleftrightarrow>
     (perm, access) \<in> {(SbUnique, Some Write), (SharedReadOnly, Some Read), (SharedReadWrite, None)}"

lemma granting_range_reset:
  assumes "stack_rel bs bottom s" "i < length bs" "SbPermission_grants (Item_perm (bs ! i)) Write"
  shows "range_reset s"
proof -
  have u: "unique_inv bs (unique_range s)" "range_inv bs (unique_range s)"
    using assms(1) by (auto simp: stack_rel_def Stack_inv_def)
  have "unique_range s = (0, 0)" if e: "range_is_empty (unique_range s)"
  proof -
    have "Item_perm (bs ! i) \<noteq> SbUnique"
      using u(1) e assms(2) unfolding unique_inv_def range_is_empty_def by fastforce
    with assms(3) have "Item_perm (bs ! i) = SharedReadWrite"
      by (cases "Item_perm (bs ! i)") (auto simp: SbPermission_grants_def)
    with u e assms(2) show ?thesis
      by (cases "unique_range s") (auto simp: range_inv_def unique_inv_def range_is_empty_def)
  qed
  then show ?thesis by (simp add: range_reset_def)
qed

lemma grant_refines:
  assumes rel: "core_rel s p" and ok: "grant_ok (Item_perm new) access" and fresh: "Item_tag new \<notin> Item_tag ` set (fst p)"
  shows "rel_outcome (=) core_rel (Stack_grant derived new access g ex s) (plain_grant derived new access g ex p)"
proof (cases access)
  case (Some k)
  have "rel_outcome (=) core_rel (Stack_insert (Stack_len s1) new s1 :: (SbError, _) outcome) (Ok (bs @ [new], bottom))"
    if "core_rel s1 (bs, bottom)" "range_reset s1" "plain_access k derived g ex p = Ok (bs, bottom)" for s1 bs bottom
  proof -
    have r: "stack_rel bs bottom s1" using that(1) by (simp add: core_rel_def)
    have "Item_tag new \<notin> Item_tag ` set bs"
      using fresh shrinks_tags [OF plain_access_shrinks, of k derived g ex "fst p" "snd p"] that(3) by auto
    with r that(2) ok Some have "\<exists>s'. Stack_insert (length bs) new s1 = (Ok s' :: (SbError, _) outcome) \<and>
        stack_rel (take (length bs) bs @ new # drop (length bs) bs) bottom s'"
      by (intro Stack_insert_refines) (auto simp: grant_ok_def range_reset_def)
    with r show ?thesis by (auto simp: core_rel_def Stack_len_def stack_rel_def)
  qed
  then show ?thesis unfolding Stack_grant_def plain_grant_def Some option.case
    by (intro rel_obind_on [OF access_refines [OF rel]]) auto
next
  case None
  obtain bs bottom where p: "p = (bs, bottom)" by (cases p)
  have r: "stack_rel bs bottom s" using rel by (simp add: core_rel_def p)
  have step: "rel_outcome (=) core_rel
    (case (j, derived) of (Some i, Concrete _) \<Rightarrow> obind (find_first_write_incompatible i s1) (\<lambda>n. Stack_insert n new s1)
      | _ \<Rightarrow> (Ok (set_unknown_bottom (next_ptr_tag g) s1) :: (SbError, _) outcome))
    (case (j, derived) of (Some i, Concrete _) \<Rightarrow>
        obind (plain_first_incompatible i bs) (\<lambda>n. Ok (take n bs @ new # drop n bs, bottom))
      | _ \<Rightarrow> Ok ([], Some (next_ptr_tag g)))"
    if r1: "stack_rel bs bottom s1" and f: "plain_find Write derived ex bs bottom = Ok j" for s1 j
  proof (cases "\<exists>i t. j = Some i \<and> derived = Concrete t")
    case True
    then obtain i t where j: "j = Some i" "derived = Concrete t" by blast
    have i: "i < length bs" "SbPermission_grants (Item_perm (bs ! i)) Write" using f j plain_find_Some by blast+
    have b: "borrows s1 = bs" using r1 by (simp add: stack_rel_def)
    have "\<exists>s'. Stack_insert n new s1 = (Ok s' :: (SbError, _) outcome) \<and> stack_rel (take n bs @ new # drop n bs) bottom s'"
      if "plain_first_incompatible i bs = (Ok n :: (SbError, _) outcome)" for n
      using plain_first_incompatible_bounds [OF that] fresh granting_range_reset [OF r1 i]
      by (intro Stack_insert_refines r1) (auto simp: p range_reset_def)
    then show ?thesis unfolding j first_incompatible_refines [OF b]
      by (cases "plain_first_incompatible i bs :: (SbError, _) outcome") (auto simp: core_rel_def)
  next
    case False
    with set_unknown_bottom_rel [OF r1] show ?thesis
      by (auto simp: core_rel_def split: option.splits ProvenanceExtra.splits)
  qed
  have perm: "Item_perm new = SharedReadWrite" using ok None by (auto simp: grant_ok_def)
  show ?thesis
    unfolding Stack_grant_def plain_grant_def None option.case p fst_conv snd_conv obind_check eqTrueI [OF perm] if_True
  proof (rule rel_obind_on [OF rel_map_err [OF find_granting_refines [OF r]]], goal_cases)
    case (1 x j)
    then obtain s1 where "x = (s1, j)" "stack_rel bs bottom s1" by (cases x) auto
    with step [of s1 j] 1(2) show ?case by simp
  qed
qed

text \<open>All operations on one stack, cached and plain.\<close>

datatype stack_op =
    OpAccess AccessKind ProvenanceExtra GlobalStateInner "BorTag \<Rightarrow> bool"
  | OpDealloc ProvenanceExtra GlobalStateInner "BorTag \<Rightarrow> bool"
  | OpGrant ProvenanceExtra Item "AccessKind option" GlobalStateInner "BorTag \<Rightarrow> bool"
  | OpRetain "BorTag \<Rightarrow> bool"

fun stack_step :: "stack_op \<Rightarrow> Stack \<Rightarrow> (SbError, Stack) outcome" where
  "stack_step (OpAccess k tag g ex) s = Stack_access k tag g ex s"
| "stack_step (OpDealloc tag g ex) s = Stack_dealloc tag g ex s"
| "stack_step (OpGrant derived new access g ex) s = Stack_grant derived new access g ex s"
| "stack_step (OpRetain live) s = Stack_retain live s"

fun plain_step :: "stack_op \<Rightarrow> Item list \<times> BorTag option \<Rightarrow> (SbError, Item list \<times> BorTag option) outcome" where
  "plain_step (OpAccess k tag g ex) p = plain_access k tag g ex p"
| "plain_step (OpDealloc tag g ex) p = plain_dealloc tag g ex p"
| "plain_step (OpGrant derived new access g ex) p = plain_grant derived new access g ex p"
| "plain_step (OpRetain live) p = Ok (plain_retain live (fst p), snd p)"

fun granted :: "stack_op \<Rightarrow> BorTag list" where
  "granted (OpGrant _ new _ _ _) = [Item_tag new]"
| "granted _ = []"

fun op_ok :: "stack_op \<Rightarrow> bool" where
  "op_ok (OpGrant _ new access _ _) = grant_ok (Item_perm new) access"
| "op_ok _ = True"

lemma rel_weaken: "rel_outcome (=) R m n \<Longrightarrow> (\<And>x y. R x y \<Longrightarrow> S x y) \<Longrightarrow> rel_outcome (=) S m n"
  by (cases m; cases n) auto

lemma step_refines:
  assumes "core_rel s p" "op_ok op" "\<forall>t\<in>set (granted op). t \<notin> Item_tag ` set (fst p)"
  shows "rel_outcome (=) core_rel (stack_step op s) (plain_step op p)"
proof (cases op)
  case (OpAccess k tag g ex)
  with rel_weaken [OF access_refines [OF assms(1)]] show ?thesis by simp
next
  case (OpDealloc tag g ex)
  with rel_weaken [OF dealloc_refines [OF assms(1)]] show ?thesis by simp
next
  case (OpGrant derived new access g ex)
  with grant_refines [OF assms(1)] assms(2,3) show ?thesis by simp
next
  case (OpRetain live)
  with retain_refines [of "fst p" "snd p" s live] assms(1) show ?thesis
    by (auto simp: core_rel_def rel_outcome_right)
qed

lemma plain_dealloc_shrinks: "plain_dealloc tag g ex (bs, bottom) = Ok (bs', bottom') \<Longrightarrow> shrinks bs bs'"
  by (auto simp: plain_dealloc_def outcome_eqs dest: plain_access_shrinks)

lemma plain_grant_None:
  assumes "plain_grant derived new None g ex (bs, bottom) = Ok (bs', bottom')"
  shows "bs' = [] \<and> bottom' = Some (next_ptr_tag g) \<or>
    (\<exists>i n t. derived = Concrete t \<and> plain_find Write derived ex bs bottom = Ok (Some i) \<and>
      plain_first_incompatible i bs = (Ok n :: (SbError, _) outcome) \<and> bs' = take n bs @ new # drop n bs \<and> bottom' = bottom)"
proof -
  from assms obtain j where j: "plain_find Write derived ex bs bottom = Ok j"
    by (auto simp: plain_grant_def outcome_eqs split: if_splits)
  with assms show ?thesis
    by (cases j; cases derived) (auto simp: plain_grant_def outcome_eqs split: if_splits)
qed

lemma plain_grant_Some:
  assumes "plain_grant derived new (Some k) g ex (bs, bottom) = Ok (bs', bottom')"
  shows "\<exists>b1. plain_access k derived g ex (bs, bottom) = Ok (b1, bottom') \<and> bs' = b1 @ [new]"
  using assms by (auto simp: plain_grant_def outcome_eqs)

lemma plain_step_tags:
  assumes "plain_step op p = Ok p'"
  shows "Item_tag ` set (fst p') \<subseteq> Item_tag ` set (fst p) \<union> set (granted op)"
proof -
  obtain bs bottom bs' bottom' where p: "p = (bs, bottom)" "p' = (bs', bottom')" by (cases p; cases p')
  show ?thesis
  proof (cases op)
    case (OpAccess k tag g ex)
    with assms shrinks_tags [OF plain_access_shrinks] show ?thesis by (auto simp: p)
  next
    case (OpDealloc tag g ex)
    with assms shrinks_tags [OF plain_dealloc_shrinks] show ?thesis by (auto simp: p)
  next
    case (OpGrant derived new access g ex)
    show ?thesis
    proof (cases access)
      case (Some k)
      with assms OpGrant obtain b1 where "plain_access k derived g ex (bs, bottom) = Ok (b1, bottom')" "bs' = b1 @ [new]"
        using plain_grant_Some [of derived new k g ex bs bottom bs' bottom'] by (auto simp: p)
      with shrinks_tags [OF plain_access_shrinks [OF this(1)]] OpGrant show ?thesis by (auto simp: p)
    next
      case None
      with assms OpGrant plain_grant_None show ?thesis
        by (fastforce simp: p dest: in_set_takeD in_set_dropD)
    qed
  next
    case (OpRetain live)
    with assms subseq_distinct_set [OF plain_retain_subseq [of live bs]] show ?thesis by (auto simp: p)
  qed
qed

lemma run_refines:
  assumes "core_rel s p" "list_all op_ok ops" "distinct (concat (map granted ops))"
    "Item_tag ` set (fst p) \<inter> set (concat (map granted ops)) = {}"
  shows "rel_outcome (=) core_rel (ofold stack_step ops s) (ofold plain_step ops p)"
  using assms
proof (induction ops arbitrary: s p)
  case Nil
  then show ?case by simp
next
  case (Cons op ops)
  have "rel_outcome (=) core_rel (stack_step op s) (plain_step op p)"
    using Cons.prems by (intro step_refines) auto
  then show ?case unfolding ofold.simps
  proof (rule rel_obind_on)
    fix s1 p1 assume p1: "plain_step op p = Ok p1" and r: "core_rel s1 p1"
    have "Item_tag ` set (fst p1) \<inter> set (concat (map granted ops)) = {}"
      using Cons.prems(3,4) plain_step_tags [OF p1] unfolding list.map concat.simps distinct_append set_append by blast
    with Cons.prems show "rel_outcome (=) core_rel (ofold stack_step ops s1) (ofold plain_step ops p1)"
      by (intro Cons.IH [OF r]) auto
  qed
qed

section \<open>Properties\<close>

text \<open>C19: The cache of a stack is transparent. Run any sequence of accesses, deallocations, grants and
  garbage collections on a fresh stack, where every grant uses a new tag and one of the combinations of
  permission and access that retags use: the stack with the search cache and the range of \<open>Unique\<close>
  items returns the same result, error or panic as the stack without them, with the same items; and it
  passes \<open>verify_cache_consistency\<close> after every operation.\<close>

theorem cache_is_transparent:
  assumes "list_all op_ok ops" "distinct (Item_tag item # concat (map granted ops))"
  shows "map_outcome id (\<lambda>s. (borrows s, unknown_bottom s)) (ofold stack_step ops (Stack_new item)) =
      ofold plain_step ops ([item], None) \<and>
    (\<forall>s. ofold stack_step ops (Stack_new item) = Ok s \<longrightarrow> verify_cache_consistency s = (Ok () :: (unit, _) outcome))"
proof -
  have "core_rel (Stack_new item) ([item], None)" by (simp add: core_rel_def Stack_new_rel)
  with assms have r: "rel_outcome (=) core_rel (ofold stack_step ops (Stack_new item)) (ofold plain_step ops ([item], None))"
    by (intro run_refines) auto
  then have "map_outcome id (\<lambda>s. (borrows s, unknown_bottom s)) (ofold stack_step ops (Stack_new item)) =
      ofold plain_step ops ([item], None)"
    by (cases "ofold stack_step ops (Stack_new item)"; cases "ofold plain_step ops ([item], None)")
      (auto simp: core_rel_def stack_rel_def)
  moreover have "verify_cache_consistency s = (Ok () :: (unit, _) outcome)" if "ofold stack_step ops (Stack_new item) = Ok s" for s
    using rel_outcome_Ok [OF r that] by (auto simp: core_rel_def stack_rel_def intro: verify_Ok)
  ultimately show ?thesis by blast
qed

definition demo_ops :: "stack_op list" where
  "demo_ops =
     [OpGrant (Concrete 1) (Item 2) (Some Write) (GlobalStateInner_new StackedBorrows {}) (\<lambda>_. False),
      OpAccess Read (Concrete 1) (GlobalStateInner_new StackedBorrows {}) (\<lambda>_. False),
      OpRetain (\<lambda>t. t = 1)]"

lemma demo_ops_run:
  "ofold stack_step demo_ops (Stack_new (Item 1)) = Ok (Stack_new (Item 1))"
  "list_all op_ok demo_ops" "distinct (Item_tag (Item 1) # concat (map granted demo_ops))"
  by code_simp+

theorem cache_is_transparent_witness:
  "ofold stack_step demo_ops (Stack_new (Item 1)) = Ok (Stack_new (Item 1)) \<and>
   ofold plain_step demo_ops ([Item 1], None) = Ok ([Item 1], None) \<and>
   verify_cache_consistency (Stack_new (Item 1)) = (Ok () :: (unit, _) outcome)"
  using cache_is_transparent [OF demo_ops_run(2,3)] demo_ops_run(1) by (simp add: Stack_new_def)

end
