(* ===== verification/Alloc_State.thy ===== *)
theory Alloc_State
  imports SB_Core TB_Tree
begin

text \<open>
  The per-allocation state of the borrow trackers and the part of the interpreter's memory that a retag
  reads, \<open>src/borrow_tracker/mod.rs\<close> and the entry points of \<open>src/borrow_tracker/tree_borrows/mod.rs\<close>.
  An allocation carries the state of the tracker that the global state selects.

  The memory is the interpreter's, from the compiler: what it says of an allocation (its kind, whether
  it may be written, its tracker state unless it has none) is the record \<open>AllocEntry\<close>, and what it
  says of the place behind a pointer is the record \<open>RetagPlace\<close>.
\<close>

section \<open>Entry points of Tree Borrows\<close>

definition Tree_new_allocation :: "AllocId \<Rightarrow> nat \<Rightarrow> GlobalStateInner \<Rightarrow> ('e, GlobalStateInner \<times> Tree) outcome" where
  "Tree_new_allocation aid sz g =
     obind (root_ptr_tag g aid) (\<lambda>(g, tag).
     obind (Tree_new tag sz) (\<lambda>tree. Ok (g, tree)))"

definition Tree_before_memory_access ::
  "AccessKind \<Rightarrow> ProvenanceExtra \<Rightarrow> nat \<Rightarrow> nat \<Rightarrow> GlobalStateInner \<Rightarrow> Tree \<Rightarrow> (TbError, Tree) outcome" where
  "Tree_before_memory_access access_kind prov start sz global tree = Tree_perform_access tree prov start sz access_kind global"

definition Tree_before_memory_deallocation ::
  "ProvenanceExtra \<Rightarrow> nat \<Rightarrow> GlobalStateInner \<Rightarrow> Tree \<Rightarrow> (TbError, Tree) outcome" where
  "Tree_before_memory_deallocation prov sz global tree = Tree_dealloc tree prov 0 sz global"

section \<open>The state of an allocation\<close>

datatype AllocState = SbAlloc Stacks | TbAlloc Tree

datatype TrackerError = SbErr SbError | TbErr TbError

fun borrow_tracker_sb :: "AllocState \<Rightarrow> ('e, Stacks) outcome" where
  "borrow_tracker_sb (SbAlloc sb) = Ok sb"
| "borrow_tracker_sb (TbAlloc _) = Panic"

fun borrow_tracker_tb :: "AllocState \<Rightarrow> ('e, Tree) outcome" where
  "borrow_tracker_tb (TbAlloc tb) = Ok tb"
| "borrow_tracker_tb (SbAlloc _) = Panic"

text \<open>The two ways a call is passed on to the tracker of the allocation.\<close>

abbreviation on_sb :: "(SbError, Stacks) outcome \<Rightarrow> (TrackerError, AllocState) outcome" where
  "on_sb r \<equiv> obind (map_err SbErr r) (\<lambda>sb. Ok (SbAlloc sb))"

abbreviation on_tb :: "(TbError, Tree) outcome \<Rightarrow> (TrackerError, AllocState) outcome" where
  "on_tb r \<equiv> obind (map_err TbErr r) (\<lambda>tb. Ok (TbAlloc tb))"

definition new_allocation ::
  "AllocId \<Rightarrow> nat \<Rightarrow> MemoryKind \<Rightarrow> GlobalStateInner \<Rightarrow> ('e, GlobalStateInner \<times> AllocState) outcome" where
  "new_allocation aid sz kind g =
     (case borrow_tracker_method g of
        StackedBorrows \<Rightarrow> obind (Stacks_new_allocation aid sz g kind) (\<lambda>(g, sb). Ok (g, SbAlloc sb))
      | TreeBorrows _ \<Rightarrow> obind (Tree_new_allocation aid sz g) (\<lambda>(g, tb). Ok (g, TbAlloc tb)))"

fun before_memory_read ::
  "AllocState \<Rightarrow> ProvenanceExtra \<Rightarrow> nat \<Rightarrow> nat \<Rightarrow> GlobalStateInner \<Rightarrow> (TrackerError, AllocState) outcome" where
  "before_memory_read (SbAlloc sb) prov start sz g = on_sb (Stacks_before_memory_read prov start sz g sb)"
| "before_memory_read (TbAlloc tb) prov start sz g = on_tb (Tree_before_memory_access Read prov start sz g tb)"

fun before_memory_write ::
  "AllocState \<Rightarrow> ProvenanceExtra \<Rightarrow> nat \<Rightarrow> nat \<Rightarrow> GlobalStateInner \<Rightarrow> (TrackerError, AllocState) outcome" where
  "before_memory_write (SbAlloc sb) prov start sz g = on_sb (Stacks_before_memory_write prov start sz g sb)"
| "before_memory_write (TbAlloc tb) prov start sz g = on_tb (Tree_before_memory_access Write prov start sz g tb)"

fun before_memory_deallocation ::
  "AllocState \<Rightarrow> ProvenanceExtra \<Rightarrow> nat \<Rightarrow> GlobalStateInner \<Rightarrow> (TrackerError, AllocState) outcome" where
  "before_memory_deallocation (SbAlloc sb) prov sz g = on_sb (Stacks_before_memory_deallocation prov sz g sb)"
| "before_memory_deallocation (TbAlloc tb) prov sz g = on_tb (Tree_before_memory_deallocation prov sz g tb)"

fun AllocState_remove_unreachable_tags :: "AllocState \<Rightarrow> (BorTag \<Rightarrow> bool) \<Rightarrow> (TrackerError, AllocState) outcome" where
  "AllocState_remove_unreachable_tags (SbAlloc sb) tags = on_sb (Stacks_remove_unreachable_tags tags sb)"
| "AllocState_remove_unreachable_tags (TbAlloc tb) tags = on_tb (Tree_remove_unreachable_tags tb tags)"

fun AllocState_release_protector :: "AllocState \<Rightarrow> GlobalStateInner \<Rightarrow> BorTag \<Rightarrow> (TrackerError, AllocState) outcome" where
  "AllocState_release_protector (SbAlloc sb) g tag = Ok (SbAlloc sb)"
| "AllocState_release_protector (TbAlloc tb) g tag = on_tb (release_protector tb g tag)"

fun AllocState_visit_provenance :: "AllocState \<Rightarrow> ('e, BorTag set) outcome" where
  "AllocState_visit_provenance (SbAlloc sb) = Ok (Stacks_visit_provenance sb)"
| "AllocState_visit_provenance (TbAlloc tb) = obind (Tree_visit_provenance tb) (\<lambda>tags. Ok (set tags))"

section \<open>The memory around the trackers\<close>

datatype AllocKind = LiveData | FunctionAlloc | VTableAlloc | TypeIdAlloc | DeadAlloc | VaListAlloc

record AllocEntry =
  alloc_kind :: AllocKind
  alloc_mutability :: Mutability
  alloc_extra :: "AllocState option"

record BtState =
  bt_global :: GlobalStateInner
  bt_frame :: FrameState
  bt_allocs :: "AllocId \<Rightarrow> AllocEntry"

datatype Provenance = ProvConcrete AllocId BorTag | ProvWildcard

record RetagPlace =
  place_in_bounds :: bool
  place_alloc :: "(AllocId \<times> nat \<times> ProvenanceExtra) option"
  place_provenance :: "Provenance option"
  place_size :: "nat option"
  place_layout_size :: nat
  place_is_freeze :: bool
  place_freeze_ranges :: "(nat \<times> nat \<times> bool) list"

datatype RetagError = RetagTracker TrackerError | RetagOutOfBounds | RetagNoAlloc | RetagReadOnly AllocId | RetagRace

text \<open>\<open>get_alloc_extra\<close>, its variant for writing, and the update of the tracker state.\<close>

definition get_alloc_extra :: "BtState \<Rightarrow> AllocId \<Rightarrow> (RetagError, AllocState) outcome" where
  "get_alloc_extra st aid = (case alloc_extra (bt_allocs st aid) of None \<Rightarrow> Err RetagNoAlloc | Some a \<Rightarrow> Ok a)"

definition get_alloc_extra_mut :: "BtState \<Rightarrow> AllocId \<Rightarrow> (RetagError, AllocState) outcome" where
  "get_alloc_extra_mut st aid =
     obind (get_alloc_extra st aid) (\<lambda>a.
     if alloc_mutability (bt_allocs st aid) = NotMut then Err (RetagReadOnly aid) else Ok a)"

definition put_alloc_extra :: "AllocId \<Rightarrow> AllocState \<Rightarrow> BtState \<Rightarrow> BtState" where
  "put_alloc_extra aid a st = st\<lparr>bt_allocs := (bt_allocs st)(aid := (bt_allocs st aid)\<lparr>alloc_extra := Some a\<rparr>)\<rparr>"

text \<open>Registering the protector of a retag, if it has one.\<close>

definition register_protector :: "ProtectorKind option \<Rightarrow> AllocId \<Rightarrow> BorTag \<Rightarrow> BtState \<Rightarrow> BtState" where
  "register_protector protector aid new_tag st =
     (case protector of
        None \<Rightarrow> st
      | Some protect \<Rightarrow>
          let (g, frame) = protect_tag (bt_global st) (bt_frame st) aid new_tag protect in
          st\<lparr>bt_global := g, bt_frame := frame\<rparr>)"

text \<open>The place with its new provenance: a pointer without provenance keeps none.\<close>

definition map_provenance :: "RetagPlace \<Rightarrow> Provenance option \<Rightarrow> ('e, Provenance option) outcome" where
  "map_provenance place new_prov =
     (case place_provenance place of
        None \<Rightarrow> Ok None
      | Some _ \<Rightarrow> obind (unwrap new_prov) (\<lambda>p. Ok (Some p)))"

section \<open>Lemmas\<close>

lemma get_put_alloc_extra [simp]:
  "alloc_extra (bt_allocs (put_alloc_extra aid a st) aid') = (if aid' = aid then Some a else alloc_extra (bt_allocs st aid'))"
  "alloc_kind (bt_allocs (put_alloc_extra aid a st) aid') = alloc_kind (bt_allocs st aid')"
  "bt_global (put_alloc_extra aid a st) = bt_global st" "bt_frame (put_alloc_extra aid a st) = bt_frame st"
  by (simp_all add: put_alloc_extra_def)

lemma register_protector_simps [simp]:
  "bt_allocs (register_protector p aid tag st) = bt_allocs st"
  "protected_tags (bt_global (register_protector p aid tag st)) =
     (case p of None \<Rightarrow> protected_tags (bt_global st) | Some k \<Rightarrow> (protected_tags (bt_global st))(tag \<mapsto> k))"
  "frame_protected_tags (bt_frame (register_protector p aid tag st)) =
     frame_protected_tags (bt_frame st) @ (case p of None \<Rightarrow> [] | Some _ \<Rightarrow> [(aid, tag)])"
  "borrow_tracker_method (bt_global (register_protector p aid tag st)) = borrow_tracker_method (bt_global st)"
  "retag_mode (bt_global (register_protector p aid tag st)) = retag_mode (bt_global st)"
  "next_ptr_tag (bt_global (register_protector p aid tag st)) = next_ptr_tag (bt_global st)"
  by (simp_all add: register_protector_def protect_tag_def split: option.splits)

lemma get_alloc_extra_mut_Ok: "get_alloc_extra_mut st aid = Ok a \<Longrightarrow> get_alloc_extra st aid = Ok a"
  by (auto simp: get_alloc_extra_mut_def outcome_eqs split: if_splits)

lemma get_alloc_extra_eq_Ok [simp]: "get_alloc_extra st aid = Ok a \<longleftrightarrow> alloc_extra (bt_allocs st aid) = Some a"
  by (auto simp: get_alloc_extra_def split: option.splits)

end
