(* ===== verification/TB_Retag.thy ===== *)
theory TB_Retag
  imports TB_Shape Alloc_State
begin

text \<open>
  Retagging under Tree Borrows, \<open>src/borrow_tracker/tree_borrows/mod.rs\<close>: the policy
  (\<open>NewPermission::new\<close>), \<open>tb_reborrow\<close>, \<open>tb_retag_place\<close>, \<open>tb_retag_ptr_value\<close>, \<open>tb_protect_place\<close>
  and \<open>tb_expose_tag\<close>. What the compiler says of the pointee is a record of its own; the place, the
  memory and the verdict of the data race detector are as for Stacked Borrows.
\<close>

section \<open>Model\<close>

record TbNewPermission =
  freeze_perm :: Permission
  nonfreeze_perm :: Permission
  outside_perm :: Permission
  tb_protector :: "ProtectorKind option"

datatype Part = InsideFrozen | InsideUnsafeCell | Outside

text \<open>\<open>no_writable\<close> says whether the running function carries \<open>#[rustc_no_writable]\<close>.\<close>

record Pointee =
  is_unpin :: bool
  is_unsafe_unpin :: bool
  is_freeze :: bool
  no_writable :: bool

text \<open>The closure \<open>perm\<close> of \<open>NewPermission::new\<close>.\<close>

definition part_perm :: "bool \<Rightarrow> bool \<Rightarrow> bool \<Rightarrow> Mutability option \<Rightarrow> Part \<Rightarrow> Permission" where
  "part_perm ty_is_freeze protected implicit_writes_enabled ref_mutability part =
     (let frozen = (case part of InsideFrozen \<Rightarrow> True | InsideUnsafeCell \<Rightarrow> False | Outside \<Rightarrow> ty_is_freeze) in
      case ref_mutability of
        Some NotMut \<Rightarrow> if frozen then Frozen else Cell
      | Some Mut \<Rightarrow>
          if implicit_writes_enabled \<and> part \<noteq> Outside then Unique
          else if protected \<or> frozen then ReservedFrz False
          else ReservedIM
      | None \<Rightarrow>
          if implicit_writes_enabled \<and> part \<noteq> Outside then Unique
          else if protected \<or> frozen then ReservedFrz False
          else ReservedIM)"

definition TbNewPermission_new ::
  "Pointee \<Rightarrow> Mutability option \<Rightarrow> RetagMode \<Rightarrow> GlobalStateInner \<Rightarrow> ('e, TbNewPermission option) outcome" where
  "TbNewPermission_new pointee ref_mutability mode g =
     (if mode = RetagNone then Ok None
      else
        let ty_is_unpin = is_unpin pointee \<and> is_unsafe_unpin pointee;
            ty_is_freeze = is_freeze pointee;
            protected = (mode = RetagFnEntry)
        in
        obind (if protected
               then obind (get_tree_borrows_params (borrow_tracker_method g)) (\<lambda>params.
                 Ok (implicit_writes params \<and> \<not> no_writable pointee))
               else Ok False) (\<lambda>implicit_writes_enabled.
        if ref_mutability \<noteq> Some NotMut \<and> \<not> ty_is_unpin then Ok None
        else
          let perm = part_perm ty_is_freeze protected implicit_writes_enabled ref_mutability in
          Ok (Some \<lparr>freeze_perm = perm InsideFrozen, nonfreeze_perm = perm InsideUnsafeCell, outside_perm = perm Outside,
            tb_protector = (if protected
              then Some (if ref_mutability \<noteq> None then StrongProtector else WeakProtector) else None)\<rparr>)))"

text \<open>The initial state of a byte inside the range, the closure \<open>loc_state\<close> of \<open>tb_reborrow\<close>.\<close>

definition loc_state :: "TbNewPermission \<Rightarrow> bool \<Rightarrow> ('e, LocationState) outcome" where
  "loc_state new_perm frozen =
     (let perm = (if frozen then freeze_perm new_perm else nonfreeze_perm new_perm) in
      obind (strongest_idempotent_foreign_access perm (tb_protector new_perm \<noteq> None)) (\<lambda>sifa.
      if associated_access perm \<noteq> None then Ok (new_accessed perm sifa) else new_non_accessed perm sifa))"

definition overwrite_range ::
  "TbNewPermission \<Rightarrow> nat \<times> nat \<times> bool \<Rightarrow> LocationState DedupRangeMap \<Rightarrow> ('e, LocationState DedupRangeMap) outcome" where
  "overwrite_range new_perm = (\<lambda>(start, len, frozen) perms_map.
     obind (loc_state new_perm frozen) (\<lambda>state.
     obind (DedupRangeMap_for_each (=) (\<lambda>_ _ u. Ok (state, u)) perms_map start len ()) (\<lambda>(perms_map, _).
     Ok perms_map)))"

definition compute_inside_perms ::
  "RetagPlace \<Rightarrow> nat \<Rightarrow> TbNewPermission \<Rightarrow> bool \<Rightarrow> ('e, LocationState DedupRangeMap) outcome" where
  "compute_inside_perms place ptr_size new_perm precise =
     (if \<not> precise
      then obind (loc_state new_perm (place_is_freeze place)) (\<lambda>s. Ok (DedupRangeMap_new ptr_size s))
      else
        ofold (overwrite_range new_perm) (place_freeze_ranges place) (DedupRangeMap_new ptr_size (new_accessed Disabled SifaNone)))"

text \<open>The access that a reborrow makes through the parent, for one range of the new permissions.\<close>

definition reborrow_access ::
  "(AccessKind \<Rightarrow> AllocId \<Rightarrow> nat \<Rightarrow> nat \<Rightarrow> bool) \<Rightarrow> BtState \<Rightarrow> AllocId \<Rightarrow> nat \<Rightarrow> ProvenanceExtra \<Rightarrow>
     (nat \<times> nat) \<times> LocationState \<Rightarrow> Tree \<Rightarrow> (RetagError, Tree) outcome" where
  "reborrow_access race_free st alloc_id base_offset parent_prov = (\<lambda>((start, stop), state) tree.
     case associated_access (permission state) of
       None \<Rightarrow> Ok tree
     | Some access \<Rightarrow>
         if access = Write \<and> alloc_mutability (bt_allocs st alloc_id) = NotMut then Err (RetagReadOnly alloc_id)
         else
           obind (add_u64 start base_offset) (\<lambda>start_in_alloc.
           obind (map_err (\<lambda>e. RetagTracker (TbErr e))
             (Tree_perform_access tree parent_prov start_in_alloc (stop - start) access (bt_global st))) (\<lambda>tree.
           if stop - start > 0 \<and> \<not> race_free access alloc_id start_in_alloc (stop - start) then Err RetagRace
           else Ok tree)))"

definition tb_reborrow ::
  "(AccessKind \<Rightarrow> AllocId \<Rightarrow> nat \<Rightarrow> nat \<Rightarrow> bool) \<Rightarrow> RetagPlace \<Rightarrow> nat \<Rightarrow> TbNewPermission \<Rightarrow> BorTag \<Rightarrow> BtState \<Rightarrow>
     (RetagError, BtState \<times> Provenance option) outcome" where
  "tb_reborrow race_free place ptr_size new_perm new_tag st =
     (if \<not> place_in_bounds place then Err RetagOutOfBounds
      else case place_alloc place of
        None \<Rightarrow> obind (check (ptr_size = 0)) (\<lambda>_. Ok (st, place_provenance place))
      | Some (alloc_id, base_offset, parent_prov) \<Rightarrow>
          let new_prov = ProvConcrete alloc_id new_tag;
              st = register_protector (tb_protector new_perm) alloc_id new_tag st
          in if alloc_kind (bt_allocs st alloc_id) \<noteq> LiveData
             then obind (check (ptr_size = 0)) (\<lambda>_. Ok (st, Some new_prov))
             else
               let protected = (tb_protector new_perm \<noteq> None) in
               obind (get_tree_borrows_params (borrow_tracker_method (bt_global st))) (\<lambda>params.
               obind (compute_inside_perms place ptr_size new_perm (precise_interior_mut params)) (\<lambda>inside_perms.
               obind (get_alloc_extra st alloc_id) (\<lambda>extra.
               obind (borrow_tracker_tb extra) (\<lambda>tree.
               obind (ofold (reborrow_access race_free st alloc_id base_offset parent_prov)
                        (DedupRangeMap_iter_all inside_perms) tree) (\<lambda>tree.
               obind (Tree_new_child tree base_offset parent_prov new_tag inside_perms (outside_perm new_perm) protected) (\<lambda>tree.
               Ok (put_alloc_extra alloc_id (TbAlloc tree) st, Some new_prov))))))))"

definition tb_retag_place ::
  "(AccessKind \<Rightarrow> AllocId \<Rightarrow> nat \<Rightarrow> nat \<Rightarrow> bool) \<Rightarrow> RetagPlace \<Rightarrow> TbNewPermission \<Rightarrow> BtState \<Rightarrow>
     (RetagError, BtState \<times> Provenance option) outcome" where
  "tb_retag_place race_free place new_perm st =
     (let reborrow_size = (case place_size place of Some sz \<Rightarrow> sz | None \<Rightarrow> place_layout_size place) in
      obind (new_ptr (bt_global st)) (\<lambda>(g, new_tag).
      obind (tb_reborrow race_free place reborrow_size new_perm new_tag (st\<lparr>bt_global := g\<rparr>)) (\<lambda>(st, new_prov).
      obind (map_provenance place new_prov) (\<lambda>p. Ok (st, p)))))"

text \<open>A box counts as one even if its type is not a pointer type; \<open>is_box_global\<close> says that it uses the
  global allocator.\<close>

definition tb_retag_ptr_value ::
  "(AccessKind \<Rightarrow> AllocId \<Rightarrow> nat \<Rightarrow> nat \<Rightarrow> bool) \<Rightarrow> RetagPlace \<Rightarrow> bool \<Rightarrow> bool \<Rightarrow> PtrTy \<Rightarrow> Pointee \<Rightarrow> RetagMode \<Rightarrow> BtState \<Rightarrow>
     (RetagError, BtState \<times> Provenance option option) outcome" where
  "tb_retag_ptr_value race_free place is_box is_box_global ty pointee mode st =
     obind (case ty of
              RefTy mutability \<Rightarrow> TbNewPermission_new pointee (Some mutability) mode (bt_global st)
            | _ \<Rightarrow>
                if is_box then
                  obind (get_tree_borrows_params (borrow_tracker_method (bt_global st))) (\<lambda>params.
                  if box_custom_allocator_unique params \<or> is_box_global
                  then TbNewPermission_new pointee None mode (bt_global st)
                  else Ok None)
                else (case ty of
                        RawPtrTy _ \<Rightarrow> obind (check (mode = RetagRaw)) (\<lambda>_. Ok None)
                      | _ \<Rightarrow> Panic)) (\<lambda>new_perm.
     case new_perm of
       Some new_perm \<Rightarrow> obind (tb_retag_place race_free place new_perm st) (\<lambda>(st, p). Ok (st, Some p))
     | None \<Rightarrow> Ok (st, None))"

definition tb_protect_place ::
  "(AccessKind \<Rightarrow> AllocId \<Rightarrow> nat \<Rightarrow> nat \<Rightarrow> bool) \<Rightarrow> RetagPlace \<Rightarrow> BtState \<Rightarrow>
     (RetagError, BtState \<times> Provenance option) outcome" where
  "tb_protect_place race_free place st =
     tb_retag_place race_free place
       \<lparr>freeze_perm = ReservedFrz False, nonfreeze_perm = ReservedFrz False, outside_perm = ReservedFrz False,
        tb_protector = Some StrongProtector\<rparr> st"

definition tb_expose_tag :: "AllocId \<Rightarrow> BorTag \<Rightarrow> BtState \<Rightarrow> (RetagError, BtState) outcome" where
  "tb_expose_tag alloc_id tag st =
     (if alloc_kind (bt_allocs st alloc_id) = LiveData then
        obind (get_alloc_extra st alloc_id) (\<lambda>extra.
        obind (borrow_tracker_tb extra) (\<lambda>tree.
        obind (Tree_expose_tag tree tag (is_protected (bt_global st) tag)) (\<lambda>tree.
        Ok (put_alloc_extra alloc_id (TbAlloc tree) st))))
      else Ok st)"

section \<open>The permissions inside the range\<close>

text \<open>The frozen and unfrozen ranges of a place, in order and without gaps; and which bytes count as frozen.\<close>

fun ranges_cover :: "nat \<Rightarrow> nat \<Rightarrow> (nat \<times> nat \<times> bool) list \<Rightarrow> bool" where
  "ranges_cover a b [] \<longleftrightarrow> a = b"
| "ranges_cover a b ((start, len, _) # rs) \<longleftrightarrow> start = a \<and> a + len \<le> b \<and> ranges_cover (a + len) b rs"

fun frozen_byte :: "(nat \<times> nat \<times> bool) list \<Rightarrow> nat \<Rightarrow> bool" where
  "frozen_byte [] k = False"
| "frozen_byte ((start, len, frozen) # rs) k = (if start \<le> k \<and> k < start + len then frozen else frozen_byte rs k)"

definition frozen_at :: "RetagPlace \<Rightarrow> bool \<Rightarrow> nat \<Rightarrow> bool" where
  "frozen_at place precise k = (if precise then frozen_byte (place_freeze_ranges place) k else place_is_freeze place)"

definition chosen_perm :: "TbNewPermission \<Rightarrow> bool \<Rightarrow> Permission" where
  "chosen_perm new_perm frozen = (if frozen then freeze_perm new_perm else nonfreeze_perm new_perm)"

lemma loc_state_perm: "loc_state new_perm frozen = Ok s \<Longrightarrow> permission s = chosen_perm new_perm frozen"
  by (auto simp: loc_state_def chosen_perm_def Let_def new_accessed_def new_non_accessed_def outcome_eqs split: if_splits)

lemma overwrite_ranges:
  assumes "ofold (overwrite_range new_perm) rs m = (Ok m' :: ('e, _) outcome)"
    "ranges_cover a (DedupRangeMap_size m) rs" "map_inv m"
  shows "map_inv m'" "DedupRangeMap_size m' = DedupRangeMap_size m" "k < a \<Longrightarrow> lookup m' k = lookup m k"
    "a \<le> k \<Longrightarrow> k < DedupRangeMap_size m \<Longrightarrow> \<exists>s. lookup m' k = Some s \<and> permission s = chosen_perm new_perm (frozen_byte rs k)"
proof -
  have "map_inv m' \<and> DedupRangeMap_size m' = DedupRangeMap_size m \<and> (k < a \<longrightarrow> lookup m' k = lookup m k) \<and>
    (a \<le> k \<longrightarrow> k < DedupRangeMap_size m \<longrightarrow> (\<exists>s. lookup m' k = Some s \<and> permission s = chosen_perm new_perm (frozen_byte rs k)))"
    using assms
  proof (induction rs arbitrary: a m)
    case (Cons r rs)
    obtain len frozen where r: "r = (a, len, frozen)" "a + len \<le> DedupRangeMap_size m" "ranges_cover (a + len) (DedupRangeMap_size m) rs"
      using Cons.prems(2) by (cases r) auto
    from Cons.prems(1) r(1) obtain state m1 where s: "loc_state new_perm frozen = (Ok state :: ('e, _) outcome)"
      and each: "DedupRangeMap_for_each (=) (\<lambda>_ _ u. Ok (state, u)) m a len () = (Ok (m1, ()) :: ('e, _) outcome)"
      and rest: "ofold (overwrite_range new_perm) rs m1 = (Ok m' :: ('e, _) outcome)" by (auto simp: overwrite_range_def obind_eq_Ok)
    note i1 = plain_map.each_inv [OF Cons.prems(3) r(2) each]
    have IH: "map_inv m' \<and> DedupRangeMap_size m' = DedupRangeMap_size m1 \<and> (k < a + len \<longrightarrow> lookup m' k = lookup m1 k) \<and>
      (a + len \<le> k \<longrightarrow> k < DedupRangeMap_size m1 \<longrightarrow> (\<exists>s. lookup m' k = Some s \<and> permission s = chosen_perm new_perm (frozen_byte rs k)))"
      using Cons.IH [OF rest] i1 r(3) by simp
    have "k < a \<Longrightarrow> lookup m1 k = lookup m k"
      using plain_map.each_outside [OF Cons.prems(3) r(2) each, of k] by (auto simp: option.rel_eq)
    moreover have "a \<le> k \<Longrightarrow> k < a + len \<Longrightarrow> lookup m1 k = Some state"
      using plain_map.each_inside [OF Cons.prems(3) r(2) each, of k] by auto
    ultimately show ?case using IH i1 loc_state_perm [OF s] by (auto simp: r(1))
  qed simp
  then show "map_inv m'" "DedupRangeMap_size m' = DedupRangeMap_size m" "k < a \<Longrightarrow> lookup m' k = lookup m k"
    "a \<le> k \<Longrightarrow> k < DedupRangeMap_size m \<Longrightarrow> \<exists>s. lookup m' k = Some s \<and> permission s = chosen_perm new_perm (frozen_byte rs k)"
    by blast+
qed

lemma inside_perms:
  assumes "compute_inside_perms place sz new_perm precise = Ok inside" "sz < 2 ^ 64" "ranges_cover 0 sz (place_freeze_ranges place)"
  shows "map_inv inside" "DedupRangeMap_size inside = sz"
    "k < sz \<Longrightarrow> \<exists>s. lookup inside k = Some s \<and> permission s = chosen_perm new_perm (frozen_at place precise k)"
proof -
  have "map_inv inside \<and> DedupRangeMap_size inside = sz \<and>
    (k < sz \<longrightarrow> (\<exists>s. lookup inside k = Some s \<and> permission s = chosen_perm new_perm (frozen_at place precise k)))"
  proof (cases precise)
    case True
    let ?m = "DedupRangeMap_new sz (new_accessed Disabled SifaNone)"
    have this': "ranges_cover 0 (DedupRangeMap_size ?m) (place_freeze_ranges place)" using assms(3) by (simp add: DedupRangeMap_new_inv)
    have "ofold (overwrite_range new_perm) (place_freeze_ranges place) ?m = (Ok inside :: ('a, _) outcome)"
      using assms(1) True by (simp add: compute_inside_perms_def)
    note o = overwrite_ranges [OF this this' DedupRangeMap_new_inv(1) [OF assms(2)]]
    from o(1,2) o(4) [of k] True show ?thesis by (simp add: DedupRangeMap_new_inv frozen_at_def)
  next
    case False
    with assms(1) obtain s where "loc_state new_perm (place_is_freeze place) = (Ok s :: ('a, _) outcome)" "inside = DedupRangeMap_new sz s"
      by (auto simp: compute_inside_perms_def obind_eq_Ok)
    with False assms(2) loc_state_perm show ?thesis by (auto simp: DedupRangeMap_new_inv frozen_at_def)
  qed
  then show "map_inv inside" "DedupRangeMap_size inside = sz"
    "k < sz \<Longrightarrow> \<exists>s. lookup inside k = Some s \<and> permission s = chosen_perm new_perm (frozen_at place precise k)" by blast+
qed

lemma reborrow_access_structure:
  assumes "ofold (reborrow_access rf st aid base prov) xs tree = Ok tree'" "tree_shape tree Ts"
    "\<And>a b s. ((a, b), s) \<in> set xs \<Longrightarrow> a \<le> b \<and> base + b \<le> DedupRangeMap_size (locations tree)"
  shows "same_structure tree tree'"
  using assms
proof (induction xs arbitrary: tree)
  case Nil
  then show ?case by (simp add: same_structure_refl)
next
  case (Cons x xs)
  obtain a b s where x: "x = ((a, b), s)" by (metis surj_pair)
  with Cons.prems(1) obtain tree1 where s1: "reborrow_access rf st aid base prov ((a, b), s) tree = Ok tree1"
    "ofold (reborrow_access rf st aid base prov) xs tree1 = Ok tree'" by (auto simp: obind_eq_Ok)
  have r: "a \<le> b" "base + b \<le> DedupRangeMap_size (locations tree)" using Cons.prems(3) [of a b s] x by auto
  have "same_structure tree tree1"
  proof (cases "associated_access (permission s)")
    case None
    with s1(1) show ?thesis by (simp add: reborrow_access_def same_structure_refl)
  next
    case (Some k)
    with s1(1) have "Tree_perform_access tree prov (a + base) (b - a) k (bt_global st) = Ok tree1"
      by (auto simp: reborrow_access_def obind_eq_Ok add_u64_def split: if_splits)
    then show ?thesis by (rule access_structure) (use r in simp)
  qed
  note t1 = same_structure_shape [OF Cons.prems(2) this] this
  have "same_structure tree1 tree'" by (rule Cons.IH [OF s1(2) t1(1)]) (use Cons.prems(3) t1(2) in auto)
  with t1(3) show ?case by (rule same_structure_trans)
qed

section \<open>Properties\<close>

text \<open>C25: A reborrow makes exactly one new leaf. If \<open>tb_reborrow\<close> of a place inside a live allocation succeeds
  for a new tag, then the new pointer carries that tag, a protector is registered if the policy asks
  for one, the tree gets one new node below the node of the parent tag and stays a proper tree with the
  same other tags, and at every byte of the place the new node has the permission that the policy
  prescribes for frozen or unfrozen bytes.\<close>

theorem reborrow_adds_leaf:
  assumes place: "place_alloc place = Some (aid, base, Concrete t)" "ranges_cover 0 sz (place_freeze_ranges place)" "new_tag \<noteq> t"
    and alloc: "alloc_kind (bt_allocs st aid) = LiveData" "alloc_extra (bt_allocs st aid) = Some (TbAlloc tree)"
      "tree_shape tree Ts" "base + sz \<le> DedupRangeMap_size (locations tree)" "borrow_tracker_method (bt_global st) = TreeBorrows params"
    and ok: "tb_reborrow rf place sz new_perm new_tag st = Ok (st', prov)"
  shows "\<exists>tree' idx parent. prov = Some (ProvConcrete aid new_tag) \<and> protected_tags (bt_global st') =
      (case tb_protector new_perm of None \<Rightarrow> protected_tags (bt_global st) | Some p \<Rightarrow> (protected_tags (bt_global st))(new_tag \<mapsto> p)) \<and>
    alloc_extra (bt_allocs st' aid) = Some (TbAlloc tree') \<and> UniKeyMap_get (tag_mapping tree) t = Some parent \<and>
    UniKeyMap_get (tag_mapping tree') = (UniKeyMap_get (tag_mapping tree))(new_tag \<mapsto> idx) \<and>
    tree_shape tree' (map (graft parent idx) Ts) \<and>
    (\<forall>k. k < sz \<longrightarrow> (\<exists>d s. lookup (locations tree') (base + k) = Some d \<and> UniValMap_get (perms d) idx = Some s \<and>
      permission s = chosen_perm new_perm (frozen_at place (precise_interior_mut params) k)))"
proof -
  let ?st = "register_protector (tb_protector new_perm) aid new_tag st"
  from ok place alloc obtain inside tree1 tree' where
    inside: "compute_inside_perms place sz new_perm (precise_interior_mut params) = (Ok inside :: (RetagError, _) outcome)"
    and acc: "ofold (reborrow_access rf ?st aid base (Concrete t)) (DedupRangeMap_iter_all inside) tree = Ok tree1"
    and child: "Tree_new_child tree1 base (Concrete t) new_tag inside (outside_perm new_perm) (tb_protector new_perm \<noteq> None) =
      (Ok tree' :: (RetagError, _) outcome)"
    and st': "st' = put_alloc_extra aid (TbAlloc tree') ?st" "prov = Some (ProvConcrete aid new_tag)"
    by (auto simp: tb_reborrow_def Let_def outcome_eqs get_tree_borrows_params_def split: if_splits)
  have m: "map_inv (locations tree)" using alloc(3) by (simp add: tree_shape_def)
  then have sz: "sz < 2 ^ 64" using alloc(4) by (simp add: map_inv_def)
  note i = inside_perms [OF inside sz place(2)]
  have c: "contiguous 0 inside" using i(1) by (simp add: map_inv_def)
  have "same_structure tree tree1"
    by (rule reborrow_access_structure [OF acc alloc(3)])
      (use contiguous_bounds [OF c] i(2) alloc(4) in \<open>force simp: DedupRangeMap_iter_all_def size_chain_end\<close>)
  note s1 = same_structure_shape [OF alloc(3) this] this
  have "base + DedupRangeMap_size inside \<le> DedupRangeMap_size (locations tree1)" "Concrete t \<noteq> Concrete new_tag"
    using i(2) alloc(4) s1(2) place(3) by simp_all
  note nc = new_child_shape [OF s1(1) i(1) this(1) child this(2)]
  have tm: "tag_mapping tree1 = tag_mapping tree" using s1(3) by (simp add: same_structure_def)
  obtain parent where parent: "UniKeyMap_get (tag_mapping tree) t = Some parent"
  proof -
    from child obtain km idx where km: "UniKeyMap_insert (tag_mapping tree1) new_tag = (Ok (km, idx) :: (RetagError, _) outcome)"
      and "UniKeyMap_get km t \<noteq> None" by (auto simp: Tree_new_child_def obind_eq_Ok)
    with place(3) that show thesis by (auto simp: key_get_insert [OF km] tm)
  qed
  show ?thesis
  proof (rule nc)
    fix idx
    assume bytes: "\<And>b s. base \<le> b \<Longrightarrow> lookup inside (b - base) = Some s \<Longrightarrow> \<exists>d d'. lookup (locations tree1) b = Some d \<and>
        lookup (locations tree') b = Some d' \<and> map_option core (UniValMap_get (perms d') idx) = Some (core s) \<and>
        (\<forall>i. i \<noteq> idx \<longrightarrow> map_option core (UniValMap_get (perms d') i) = map_option core (UniValMap_get (perms d) i))"
      and tags: "UniKeyMap_get (tag_mapping tree') = (UniKeyMap_get (tag_mapping tree1))(new_tag \<mapsto> idx)"
      and shape: "tree_shape tree' (case Concrete t of Concrete t \<Rightarrow> map (graft (the (UniKeyMap_get (tag_mapping tree1) t)) idx) Ts
        | Wildcard \<Rightarrow> Ts @ [RT idx []])"
    have "\<exists>d s. lookup (locations tree') (base + k) = Some d \<and> UniValMap_get (perms d) idx = Some s \<and>
        permission s = chosen_perm new_perm (frozen_at place (precise_interior_mut params) k)" if "k < sz" for k
    proof -
      from i(3) [OF that] obtain s where s: "lookup inside k = Some s" "permission s = chosen_perm new_perm (frozen_at place (precise_interior_mut params) k)" by blast
      from bytes [of "base + k" s] s(1) obtain d' s' where "lookup (locations tree') (base + k) = Some d'" "UniValMap_get (perms d') idx = Some s'"
        "core s' = core s" by auto
      with s(2) show ?thesis by (auto simp: core_def)
    qed
    with tags shape parent st' show ?thesis
      by (intro exI [of _ tree'] exI [of _ idx] exI [of _ parent]) (simp add: tm)
  qed
qed

text \<open>The state of a program with one allocation of two bytes, and a place that covers it.\<close>

definition demo_tb_state :: BtState where
  "demo_tb_state =
     \<lparr>bt_global = GlobalStateInner_new (TreeBorrows \<lparr>precise_interior_mut = True, implicit_writes = False, box_custom_allocator_unique = False\<rparr>) {},
      bt_frame = \<lparr>frame_protected_tags = []\<rparr>,
      bt_allocs = (\<lambda>_. \<lparr>alloc_kind = DeadAlloc, alloc_mutability = Mut, alloc_extra = None\<rparr>)
        (7 := \<lparr>alloc_kind = LiveData, alloc_mutability = Mut, alloc_extra = Some (TbAlloc (demo_tree (demo_state Frozen SifaRead)))\<rparr>)\<rparr>"

definition demo_tb_place :: RetagPlace where
  "demo_tb_place = \<lparr>place_in_bounds = True, place_alloc = Some (7, 0, Concrete 1), place_provenance = Some (ProvConcrete 7 1),
     place_size = Some 2, place_layout_size = 2, place_is_freeze = False, place_freeze_ranges = [(0, 1, True), (1, 1, False)]\<rparr>"

definition demo_tb_perm :: TbNewPermission where
  "demo_tb_perm = \<lparr>freeze_perm = Frozen, nonfreeze_perm = Cell, outside_perm = Cell, tb_protector = Some StrongProtector\<rparr>"

theorem reborrow_adds_leaf_witness:
  "\<exists>st' tree' idx d s. tb_reborrow (\<lambda>_ _ _ _. True) demo_tb_place 2 demo_tb_perm 3 demo_tb_state = Ok (st', Some (ProvConcrete 7 3)) \<and>
    alloc_extra (bt_allocs st' 7) = Some (TbAlloc tree') \<and> tree_shape tree' [RT 0 [RT 1 [], RT idx []]] \<and>
    lookup (locations tree') 1 = Some d \<and> UniValMap_get (perms d) idx = Some s \<and> permission s = Cell"
proof -
  let ?r = "tb_reborrow (\<lambda>_ _ _ _. True) demo_tb_place 2 demo_tb_perm 3 demo_tb_state"
  have "is_Ok ?r" by code_simp
  then obtain st' prov where run: "?r = Ok (st', prov)" by (auto elim: is_Ok.elims)
  have p: "place_alloc demo_tb_place = Some (7, 0, Concrete 1)" "ranges_cover 0 2 (place_freeze_ranges demo_tb_place)" "3 \<noteq> (1 :: BorTag)"
    "alloc_kind (bt_allocs demo_tb_state 7) = LiveData" "alloc_extra (bt_allocs demo_tb_state 7) = Some (TbAlloc (demo_tree (demo_state Frozen SifaRead)))"
    by (simp_all add: demo_tb_place_def demo_tb_state_def)
  have q: "0 + 2 \<le> DedupRangeMap_size (locations (demo_tree (demo_state Frozen SifaRead)))"
    "borrow_tracker_method (bt_global demo_tb_state) = TreeBorrows \<lparr>precise_interior_mut = True, implicit_writes = False, box_custom_allocator_unique = False\<rparr>"
    by (simp_all add: demo_tree_def DedupRangeMap_size_def demo_tb_state_def GlobalStateInner_new_def)
  from reborrow_adds_leaf [OF p(1-5) demo_tree_shape q run] obtain tree' idx parent where
    r: "prov = Some (ProvConcrete 7 3)" "alloc_extra (bt_allocs st' 7) = Some (TbAlloc tree')"
      "UniKeyMap_get (tag_mapping (demo_tree (demo_state Frozen SifaRead))) 1 = Some parent" "tree_shape tree' (map (graft parent idx) [RT 0 [RT 1 []]])"
      "\<forall>k. k < 2 \<longrightarrow> (\<exists>d s. lookup (locations tree') (0 + k) = Some d \<and> UniValMap_get (perms d) idx = Some s \<and>
        permission s = chosen_perm demo_tb_perm (frozen_at demo_tb_place True k))" by auto
  have "parent = 0" using r(3) by (simp add: demo_tree_def UniKeyMap_get_def)
  moreover have "chosen_perm demo_tb_perm (frozen_at demo_tb_place True 1) = Cell"
    by (simp add: chosen_perm_def demo_tb_perm_def frozen_at_def demo_tb_place_def)
  moreover obtain d s where "lookup (locations tree') 1 = Some d" "UniValMap_get (perms d) idx = Some s"
    "permission s = chosen_perm demo_tb_perm (frozen_at demo_tb_place True 1)" using r(5) [rule_format, of 1] by auto
  ultimately show ?thesis using run r(1,2,4) by auto
qed

end
