(* ===== verification/SB_Discipline.thy ===== *)
theory SB_Discipline
  imports SB_Core
begin

text \<open>
  What the rules of Stacked Borrows guarantee. The comments in \<open>stacked_borrows/stack.rs\<close> and
  \<open>stacked_borrows/mod.rs\<close> state the invariants of a stack and the rules U1, U2, F1, F2; here they are
  proved of the plain rules and carried over to the cached stack by the refinement of \<open>SB_Core\<close>, and to
  the stacks of an allocation through the range map.
\<close>

section \<open>The invariant of a stack\<close>

text \<open>Above a \<open>SharedReadOnly\<close> there are only \<open>SharedReadOnly\<close>; with an unknown bottom the lowest known item is
  \<open>SharedReadOnly\<close> or \<open>Unique\<close>.\<close>

definition stack_disc :: "Item list \<times> BorTag option \<Rightarrow> bool" where
  "stack_disc p \<longleftrightarrow> sorted_wrt (\<lambda>x y. Item_perm x = SharedReadOnly \<longrightarrow> Item_perm y = SharedReadOnly) (fst p) \<and>
     (snd p \<noteq> None \<longrightarrow> fst p \<noteq> [] \<longrightarrow> Item_perm (fst p ! 0) \<in> {SharedReadOnly, SbUnique})"

lemma disc_nth:
  assumes "stack_disc (bs, bottom)" "i < j" "j < length bs" "Item_perm (bs ! i) = SharedReadOnly"
  shows "Item_perm (bs ! j) = SharedReadOnly"
  using assms by (auto simp: stack_disc_def sorted_wrt_iff_nth_less)

lemma skip_srw_from_srw:
  "i \<le> j \<Longrightarrow> j < skip_srw_from i bs \<Longrightarrow> Item_perm (bs ! (j - i)) = SharedReadWrite"
proof (induction i bs arbitrary: j rule: skip_srw_from.induct)
  case (2 i item bs)
  then show ?case by (cases "j = i") (auto simp: nth_Cons' split: if_splits)
qed simp

lemma skip_srw_from_stop:
  "skip_srw_from i bs < i + length bs \<Longrightarrow> Item_perm (bs ! (skip_srw_from i bs - i)) \<noteq> SharedReadWrite"
proof (induction i bs rule: skip_srw_from.induct)
  case (2 i item bs)
  show ?case
  proof (cases "Item_perm item = SharedReadWrite")
    case True
    have "Suc i \<le> skip_srw_from (Suc i) bs" using skip_srw_from_le [of "Suc i" bs] by simp
    with 2 True show ?thesis by (simp add: nth_Cons')
  qed simp
qed simp

text \<open>Everything up to the write-compatible items may be written through.\<close>

lemma first_incompatible_prefix:
  assumes d: "stack_disc (bs, bottom)" and n: "plain_first_incompatible i bs = Ok n" and j: "j < n"
  shows "Item_perm (bs ! j) \<noteq> SharedReadOnly"
proof -
  have i: "i < length bs" "Item_perm (bs ! i) = SbUnique \<and> n = i + 1 \<or>
      Item_perm (bs ! i) = SharedReadWrite \<and> n = skip_srw_from (i + 1) (drop (i + 1) bs)"
    using n by (auto simp: plain_first_incompatible_def split: if_splits SbPermission.splits)
  consider "j < i" | "j = i" | "i < j" by linarith
  then show ?thesis
  proof cases
    case 1
    with disc_nth [OF d 1 i(1)] i(2) show ?thesis by auto
  next
    case 3
    with i j have "Item_perm (drop (i + 1) bs ! (j - (i + 1))) = SharedReadWrite"
      by (intro skip_srw_from_srw) auto
    with 3 i(1) show ?thesis by simp
  qed (use i in auto)
qed

lemma disc_shrinks:
  assumes "stack_disc (bs, bottom)" "shrinks bs bs'" "bs' \<noteq> [] \<Longrightarrow> bottom \<noteq> None \<Longrightarrow> bs' ! 0 = bs ! 0"
  shows "stack_disc (bs', bottom)"
proof -
  have at: "i < length bs" "Item_perm (bs' ! i) = SharedReadOnly \<longleftrightarrow> Item_perm (bs ! i) = SharedReadOnly"
    if "i < length bs'" for i using assms(2) that by (auto simp: shrinks_def)
  have "Item_perm (bs' ! j) = SharedReadOnly" if "i < j" "j < length bs'" "Item_perm (bs' ! i) = SharedReadOnly" for i j
    using at that disc_nth [OF assms(1) that(1)] by auto
  moreover have "Item_perm (bs' ! 0) \<in> {SharedReadOnly, SbUnique}" if "bottom \<noteq> None" "bs' \<noteq> []"
    using assms(1) assms(3) [OF that(2,1)] that at(1) [of 0] by (auto simp: stack_disc_def)
  ultimately show ?thesis by (auto simp: stack_disc_def sorted_wrt_iff_nth_less)
qed

lemma plain_access_cases:
  assumes "plain_access k tag g ex (bs, bottom) = Ok (bs', bottom')"
  shows "bs' = [] \<and> bottom' \<noteq> None \<or>
    (\<exists>i t. tag = Concrete t \<and> plain_find k tag ex bs bottom = Ok (Some i) \<and> bottom' = bottom \<and>
      plain_invalidate k (Some i) g bs = Ok bs')"
proof -
  from assms obtain j b1 where j: "plain_find k tag ex bs bottom = Ok j" "plain_invalidate k j g bs = Ok b1"
    and c: "plain_forget tag j bottom b1 = (Ok (bs', bottom') :: (SbError, _) outcome)"
    by (auto simp: plain_access_def outcome_eqs)
  show ?thesis
  proof (cases "j = None \<or> tag = Wildcard")
    case True
    with c show ?thesis by (auto simp: plain_forget_def outcome_eqs)
  next
    case False
    then obtain i t where "j = Some i" "tag = Concrete t" by (cases tag) auto
    with c j show ?thesis by (auto simp: plain_forget_def)
  qed
qed

lemma plain_invalidate_bottom:
  assumes "plain_invalidate k (Some i) g bs = Ok bs'" "bs' \<noteq> []"
  shows "bs' ! 0 = bs ! 0"
proof (cases k)
  case Write
  with assms show ?thesis by (auto simp: plain_invalidate_def outcome_eqs dest!: pop_loop_take)
next
  case Read
  with assms have d: "plain_disable (i + 1) (item_invalidated g Conflict) bs = Ok bs'"
    by (simp add: plain_invalidate_def)
  have "0 < length bs" using plain_disable_item [OF d] assms(2) by auto
  with plain_disable_item [OF d] show ?thesis by (metis Suc_eq_plus1 not_less_eq_eq le0 not_one_le_zero less_eq_Suc_le)
qed

lemma disc_access:
  assumes "stack_disc (bs, bottom)" "plain_access k tag g ex (bs, bottom) = Ok (bs', bottom')"
  shows "stack_disc (bs', bottom')"
  using plain_access_cases [OF assms(2)]
proof (elim disjE exE conjE)
  fix i t assume i: "plain_invalidate k (Some i) g bs = Ok bs'" "bottom' = bottom"
  from plain_invalidate_bottom [OF i(1)] disc_shrinks [OF assms(1) plain_invalidate_shrinks [OF i(1)]] i(2)
  show ?thesis by simp
qed (simp add: stack_disc_def)

lemma disc_insert:
  assumes d: "stack_disc (bs, bottom)" and n: "n \<le> length bs" "0 < n \<or> bottom = None \<or> Item_perm x \<noteq> SharedReadWrite \<and> Item_perm x \<noteq> SbDisabled"
    and low: "\<And>j. j < n \<Longrightarrow> Item_perm (bs ! j) \<noteq> SharedReadOnly" and x: "n = length bs \<or> Item_perm x \<noteq> SharedReadOnly"
  shows "stack_disc (take n bs @ x # drop n bs, bottom)"
proof -
  let ?R = "\<lambda>x y. Item_perm x = SharedReadOnly \<longrightarrow> Item_perm y = SharedReadOnly"
  have "sorted_wrt ?R bs" using d by (simp add: stack_disc_def)
  then have "sorted_wrt ?R (take n bs)" "sorted_wrt ?R (drop n bs)" by (simp_all add: sorted_wrt_take sorted_wrt_drop)
  moreover have "\<forall>y\<in>set (take n bs). Item_perm y \<noteq> SharedReadOnly" using low n(1) by (auto simp: in_set_conv_nth)
  moreover have "\<forall>z\<in>set (drop n bs). ?R x z" using x by auto
  ultimately have "sorted_wrt ?R (take n bs @ x # drop n bs)" by (auto simp: sorted_wrt_append)
  moreover have "Item_perm ((take n bs @ x # drop n bs) ! 0) \<in> {SharedReadOnly, SbUnique}" if "bottom \<noteq> None"
  proof (cases "n = 0")
    case True
    with n(2) that show ?thesis by (cases "Item_perm x") auto
  next
    case False
    with d n(1) that show ?thesis by (cases bs) (auto simp: stack_disc_def nth_append)
  qed
  ultimately show ?thesis by (auto simp: stack_disc_def)
qed

lemma disc_push:
  assumes "stack_disc (bs, bottom)" "Item_perm x = SharedReadOnly \<or> (\<forall>y\<in>set bs. Item_perm y \<noteq> SharedReadOnly)"
    "Item_perm x \<in> {SharedReadOnly, SbUnique}"
  shows "stack_disc (bs @ [x], bottom)"
  using assms by (cases bs) (auto simp: stack_disc_def sorted_wrt_append)

text \<open>After a write through a known item, only items that grant writing or are disabled remain.\<close>

lemma write_leaves_no_sro:
  assumes d: "stack_disc (bs, bottom)" and a: "plain_access Write tag g ex (bs, bottom) = Ok (bs', bottom')"
  shows "\<forall>y\<in>set bs'. Item_perm y \<noteq> SharedReadOnly"
  using plain_access_cases [OF a]
proof (elim disjE exE conjE)
  fix i assume "plain_invalidate Write (Some i) g bs = Ok bs'"
  then obtain n where n: "plain_first_incompatible i bs = (Ok n :: (SbError, _) outcome)" "bs' = take n bs"
    by (auto simp: plain_invalidate_def outcome_eqs dest!: pop_loop_take)
  with first_incompatible_prefix [OF d n(1)] show ?thesis by (auto simp: in_set_conv_nth)
qed simp

lemma disc_grant:
  assumes d: "stack_disc (bs, bottom)" and ok: "grant_ok (Item_perm new) access"
    and a: "plain_grant derived new access g ex (bs, bottom) = Ok (bs', bottom')"
  shows "stack_disc (bs', bottom')"
proof (cases access)
  case (Some k)
  with a plain_grant_Some obtain b1 where b1: "plain_access k derived g ex (bs, bottom) = Ok (b1, bottom')" "bs' = b1 @ [new]"
    by blast
  have k: "Item_perm new = SharedReadOnly \<and> k = Read \<or> Item_perm new = SbUnique \<and> k = Write"
    using ok Some by (auto simp: grant_ok_def)
  show ?thesis unfolding b1(2)
    by (rule disc_push [OF disc_access [OF d b1(1)]]) (use k b1(1) write_leaves_no_sro [OF d] in auto)
next
  case None
  then have srw: "Item_perm new = SharedReadWrite" using ok by (auto simp: grant_ok_def)
  from plain_grant_None [OF a [unfolded None]] show ?thesis
  proof (elim disjE exE conjE)
    fix i n assume n: "plain_first_incompatible i bs = (Ok n :: (SbError, _) outcome)"
      and b: "bs' = take n bs @ new # drop n bs" "bottom' = bottom"
    from plain_first_incompatible_bounds [OF n] first_incompatible_prefix [OF d n] srw
    show ?thesis unfolding b by (intro disc_insert [OF d]) auto
  qed (simp add: stack_disc_def)
qed

lemma disc_retain:
  assumes "stack_disc (bs, bottom)"
  shows "stack_disc (plain_retain live bs, bottom)"
proof -
  have "sorted_wrt R ys" if "subseq ys xs" "sorted_wrt R xs" for R and xs ys :: "Item list"
    using that subseq_distinct_set by (induction rule: list_emb.induct) auto
  from this [OF plain_retain_subseq] assms have
    "sorted_wrt (\<lambda>x y. Item_perm x = SharedReadOnly \<longrightarrow> Item_perm y = SharedReadOnly) (plain_retain live bs)"
    by (simp add: stack_disc_def)
  moreover have "plain_retain live bs ! 0 = bs ! 0" "plain_retain live bs = [] \<longleftrightarrow> bs = []" by (cases bs; simp)+
  ultimately show ?thesis using assms by (simp add: stack_disc_def)
qed

lemma disc_step:
  assumes "stack_disc p" "op_ok op" "plain_step op p = Ok p'"
  shows "stack_disc p'"
proof -
  obtain bs bottom bs' bottom' where p: "p = (bs, bottom)" "p' = (bs', bottom')" by (cases p; cases p')
  show ?thesis
  proof (cases op)
    case (OpAccess k tag g ex)
    with assms disc_access show ?thesis by (simp add: p)
  next
    case (OpDealloc tag g ex)
    with assms disc_access [of bs bottom Write tag g ex] show ?thesis by (auto simp: p plain_dealloc_def outcome_eqs)
  next
    case (OpGrant derived new access g ex)
    with assms disc_grant show ?thesis by (simp add: p)
  next
    case (OpRetain live)
    with assms disc_retain show ?thesis by (auto simp: p)
  qed
qed

section \<open>A Unique at the top\<close>

lemma disable_visits:
  assumes "plain_disable start visitor bs = Ok bs'" "start \<le> j" "j < length bs" "Item_perm (bs ! j) = SbUnique"
  shows "visitor (bs ! j) = Ok ()"
proof -
  have "visitor (bs ! j) = Ok ()"
    if "ofold (plain_disable_step visitor) is bs = Ok bs'" "distinct is" "j \<in> set is" "Item_perm (bs ! j) = SbUnique" for "is" bs
    using that
  proof (induction "is" arbitrary: bs)
    case (Cons i "is")
    from Cons.prems(1) obtain b1 where b1: "plain_disable_step visitor i bs = Ok b1"
      "ofold (plain_disable_step visitor) is b1 = Ok bs'" by (auto simp: outcome_eqs)
    show ?case
    proof (cases "i = j")
      case True
      with b1(1) Cons.prems(4) show ?thesis by (auto simp: plain_disable_step_def outcome_eqs)
    next
      case False
      then have "b1 ! j = bs ! j" using b1(1) by (auto simp: plain_disable_step_def outcome_eqs split: if_splits)
      with Cons.IH [OF b1(2)] Cons.prems False show ?thesis by simp
    qed
  qed simp
  from this [of "[start..<length bs]"] assms show ?thesis by (simp add: plain_disable_def)
qed

lemma find_absent: "t \<notin> Item_tag ` set bs \<Longrightarrow> plain_find k (Concrete t) ex bs None = Err ()"
proof -
  assume "t \<notin> Item_tag ` set bs"
  then have "rposition (\<lambda>item. SbPermission_grants (Item_perm item) k \<and> t = Item_tag item) bs = None"
    by (auto simp: rposition_None)
  then show ?thesis by (simp add: plain_find_def)
qed

lemma find_disabled:
  assumes "\<And>i. i < length bs \<Longrightarrow> Item_tag (bs ! i) = t \<Longrightarrow> Item_perm (bs ! i) = SbDisabled"
  shows "plain_find k (Concrete t) ex bs None = Err ()"
proof -
  have "rposition (\<lambda>item. SbPermission_grants (Item_perm item) k \<and> t = Item_tag item) bs = None"
    using assms by (auto simp: rposition_None in_set_conv_nth SbPermission_grants_def)
  then show ?thesis by (simp add: plain_find_def)
qed

text \<open>A write through a lower item pops the top.\<close>

lemma write_pops_top:
  assumes n: "plain_first_incompatible i (cs @ [x]) = Ok n" and x: "Item_perm x = SbUnique" and i: "i < length cs"
  shows "n \<le> length cs"
proof (rule ccontr)
  assume "\<not> n \<le> length cs"
  with n i have s: "n = skip_srw_from (i + 1) (drop (i + 1) (cs @ [x]))"
    by (auto simp: plain_first_incompatible_def split: if_splits SbPermission.splits)
  have "Item_perm (drop (i + 1) (cs @ [x]) ! (length cs - (i + 1))) = SharedReadWrite"
    by (rule skip_srw_from_srw) (use i s \<open>\<not> n \<le> length cs\<close> in auto)
  with i x show False by (simp add: nth_append)
qed

lemma foreign_access_kills_unique:
  assumes d: "tags_distinct (cs @ [x])" and x: "Item_perm x = SbUnique" and u: "u \<noteq> Item_tag x"
    and a: "plain_access k (Concrete u) g ex (cs @ [x], None) = Ok (bs', bottom')"
  shows "bottom' = None \<and> item_invalidated g Conflict x = Ok () \<and>
    plain_find Write (Concrete (Item_tag x)) ex' bs' None = Err () \<and>
    (k = Write \<longrightarrow> plain_find k' (Concrete (Item_tag x)) ex' bs' None = Err ())"
proof -
  let ?bs = "cs @ [x]"
  have "plain_find k (Concrete u) ex ?bs None \<noteq> Ok None" by (auto simp: plain_find_def split: option.splits)
  with a obtain i where f: "plain_find k (Concrete u) ex ?bs None = Ok (Some i)" and b': "bottom' = None"
    and inv: "plain_invalidate k (Some i) g ?bs = Ok bs'"
    by (auto simp: plain_access_def plain_forget_def outcome_eqs split: if_splits)
  have i: "i < length cs" using plain_find_Some [OF f] u by (auto simp: nth_append less_Suc_eq)
  have only: "j = length cs" if "j < length ?bs" "Item_tag (?bs ! j) = Item_tag x" for j
    using tags_distinct_nth [OF d that(1), of "length cs"] that(2) by simp
  show ?thesis
  proof (cases k)
    case Write
    with inv obtain n where n: "plain_first_incompatible i ?bs = (Ok n :: (SbError, _) outcome)"
      "pop_loop n (item_invalidated g Conflict) ?bs = Ok bs'"
      by (auto simp: plain_invalidate_def outcome_eqs)
    have le: "n \<le> length cs" by (rule write_pops_top [OF n(1) x i])
    then have "item_invalidated g Conflict x = Ok ()"
      using n(2) by (subst (asm) pop_loop.simps) (auto simp: outcome_eqs)
    moreover have "Item_tag x \<notin> Item_tag ` set bs'"
      using pop_loop_take [OF n(2)] le d by (auto simp: tags_distinct_def dest: in_set_takeD)
    ultimately show ?thesis using b' find_absent by blast
  next
    case Read
    with inv have dis: "plain_disable (Suc i) (item_invalidated g Conflict) ?bs = Ok bs'" by (simp add: plain_invalidate_def)
    have "item_invalidated g Conflict x = Ok ()"
      using disable_visits [OF dis, of "length cs"] i x by simp
    moreover have "plain_find Write (Concrete (Item_tag x)) ex' bs' None = Err ()"
    proof (rule find_disabled)
      fix j assume "j < length bs'" "Item_tag (bs' ! j) = Item_tag x"
      with plain_disable_item [OF dis] only have "j = length cs" by auto
      with plain_disable_item [OF dis] i x show "Item_perm (bs' ! j) = SbDisabled" by auto
    qed
    ultimately show ?thesis using b' Read by simp
  qed
qed

section \<open>A new item at the top\<close>

lemma access_through_top:
  assumes "SbPermission_grants (Item_perm x) k" "k = Write \<Longrightarrow> Item_perm x = SbUnique"
  shows "plain_access k (Concrete (Item_tag x)) g ex (bs @ [x], bottom) = Ok (bs @ [x], bottom)"
proof -
  have f: "plain_find k (Concrete (Item_tag x)) ex (bs @ [x]) bottom = Ok (Some (length bs))"
    using assms(1) by (simp add: plain_find_def rposition_snoc)
  have "pop_loop (Suc (length bs)) v (bs @ [x]) = Ok (bs @ [x])" for v :: "Item \<Rightarrow> (SbError, unit) outcome"
    by (subst pop_loop.simps) simp
  with assms have "plain_invalidate k (Some (length bs)) g (bs @ [x]) = Ok (bs @ [x])"
    by (cases k) (simp_all add: plain_invalidate_def plain_first_incompatible_def plain_disable_def nth_append)
  with f show ?thesis by (simp add: plain_access_def plain_forget_def)
qed

section \<open>The cached stack\<close>

lemma Stack_inv_core_rel: "Stack_inv s \<Longrightarrow> core_rel s (borrows s, unknown_bottom s)"
  by (simp add: core_rel_def stack_rel_def)

lemma core_relD: "core_rel s p \<Longrightarrow> p = (borrows s, unknown_bottom s) \<and> Stack_inv s"
  by (auto simp: core_rel_def stack_rel_def)

lemma access_Ok_plain:
  assumes "Stack_inv s" "Stack_access k tag g ex s = Ok s'"
  shows "plain_access k tag g ex (borrows s, unknown_bottom s) = Ok (borrows s', unknown_bottom s') \<and> Stack_inv s'"
  using rel_outcome_Ok [OF access_refines [OF Stack_inv_core_rel [OF assms(1)]] assms(2)] core_relD by blast

lemma access_plain_Err:
  assumes "Stack_inv s" "plain_access k tag g ex (borrows s, unknown_bottom s) = Err e"
  shows "Stack_access k tag g ex s = Err e"
  using access_refines [OF Stack_inv_core_rel [OF assms(1)], of k tag g ex] assms(2) by (simp add: rel_outcome_right)

lemma access_plain_Ok:
  assumes "Stack_inv s" "plain_access k tag g ex (borrows s, unknown_bottom s) = Ok (bs, bottom)"
  shows "\<exists>s'. Stack_access k tag g ex s = Ok s' \<and> borrows s' = bs \<and> unknown_bottom s' = bottom"
  using access_refines [OF Stack_inv_core_rel [OF assms(1)], of k tag g ex] assms(2) core_relD
  by (fastforce simp: rel_outcome_right)

lemma grant_Ok_plain:
  assumes "Stack_inv s" "grant_ok (Item_perm new) access" "Item_tag new \<notin> Item_tag ` set (borrows s)"
    "Stack_grant derived new access g ex s = Ok s'"
  shows "plain_grant derived new access g ex (borrows s, unknown_bottom s) = Ok (borrows s', unknown_bottom s') \<and> Stack_inv s'"
proof -
  have "Item_tag new \<notin> Item_tag ` set (fst (borrows s, unknown_bottom s))" using assms(3) by simp
  from rel_outcome_Ok [OF grant_refines [OF Stack_inv_core_rel [OF assms(1)] assms(2) this] assms(4)] core_relD
  show ?thesis by blast
qed

section \<open>Properties\<close>

text \<open>C20: The documented invariants of a borrow stack hold after every sequence of operations on a fresh
  stack: no tag occurs twice, above a \<open>SharedReadOnly\<close> there are only \<open>SharedReadOnly\<close>, and when the bottom
  of the stack is unknown the lowest known item is a \<open>SharedReadOnly\<close> or a \<open>Unique\<close>.\<close>

theorem stack_discipline:
  assumes "list_all op_ok ops" "distinct (Item_tag item # concat (map granted ops))"
    and run: "ofold stack_step ops (Stack_new item) = Ok s"
  shows "tags_distinct (borrows s) \<and>
    (\<forall>i j. i < j \<and> j < length (borrows s) \<and> Item_perm (borrows s ! i) = SharedReadOnly \<longrightarrow>
      Item_perm (borrows s ! j) = SharedReadOnly) \<and>
    (unknown_bottom s \<noteq> None \<and> borrows s \<noteq> [] \<longrightarrow> Item_perm (borrows s ! 0) \<in> {SharedReadOnly, SbUnique})"
proof -
  have r: "rel_outcome (=) core_rel (ofold stack_step ops (Stack_new item)) (ofold plain_step ops ([item], None))"
    using assms(1,2) by (intro run_refines) (auto simp: core_rel_def Stack_new_rel)
  from rel_outcome_Ok [OF r run] have p: "ofold plain_step ops ([item], None) = Ok (borrows s, unknown_bottom s)" and "Stack_inv s"
    by (auto simp: core_rel_def stack_rel_def)
  have "stack_disc (borrows s, unknown_bottom s)"
  proof (rule ofold_invariant [OF p])
    show "stack_disc ([item], None)" by (simp add: stack_disc_def)
    show "\<And>op p p'. op \<in> set ops \<Longrightarrow> stack_disc p \<Longrightarrow> plain_step op p = Ok p' \<Longrightarrow> stack_disc p'"
      using assms(1) disc_step unfolding list_all_iff by blast
  qed
  with \<open>Stack_inv s\<close> show ?thesis
    by (auto simp: stack_disc_def sorted_wrt_iff_nth_less Stack_inv_def)
qed

theorem stack_discipline_witness:
  "Item_perm (borrows (Stack_new (Item 1)) ! 0) = SbUnique \<and> tags_distinct (borrows (Stack_new (Item 1)))"
proof -
  have "Item_perm (Item 1) = SbUnique" by code_simp
  with stack_discipline [OF demo_ops_run(2,3,1)] show ?thesis by (simp add: Stack_new_def)
qed

text \<open>C21: A \<open>Unique\<close> at the top of a stack is exclusive (rules U2 and U3). After an access through any other
  tag that was not undefined behaviour, writing through the \<open>Unique\<close> is undefined behaviour, and after a
  write also reading. If the item is protected, the access itself is undefined behaviour as long as the
  protector is registered.\<close>

theorem unique_is_exclusive:
  assumes "Stack_inv s" "unknown_bottom s = None" "borrows s = cs @ [x]" "Item_perm x = SbUnique" "u \<noteq> Item_tag x"
    and "Stack_access k (Concrete u) g ex s = Ok s'"
  shows "Stack_access Write (Concrete (Item_tag x)) g' ex' s' = Err SbAccessError \<and>
    (k = Write \<longrightarrow> Stack_access Read (Concrete (Item_tag x)) g' ex' s' = Err SbAccessError) \<and>
    (Item_protected x \<longrightarrow> protected_tags g (Item_tag x) = None)"
proof -
  have d: "tags_distinct (cs @ [x])" using assms(1,3) by (simp add: Stack_inv_def)
  have p: "plain_access k (Concrete u) g ex (cs @ [x], None) = Ok (borrows s', unknown_bottom s')" "Stack_inv s'"
    using access_Ok_plain [OF assms(1,6)] assms(2,3) by auto
  note f = foreign_access_kills_unique [OF d assms(4,5) p(1), of ex' Read]
  have "plain_access k' (Concrete (Item_tag x)) g' ex' (borrows s', unknown_bottom s') = Err SbAccessError"
    if "plain_find k' (Concrete (Item_tag x)) ex' (borrows s') None = Err ()" for k'
    using f that by (simp add: plain_access_def)
  with f access_plain_Err [OF p(2)] show ?thesis
    by (auto simp: item_invalidated_def split: option.splits if_splits)
qed

theorem unique_is_exclusive_witness:
  "\<exists>s s'. ofold stack_step (take 1 demo_ops) (Stack_new (Item 1)) = Ok s \<and>
     Stack_access Read (Concrete 1) (GlobalStateInner_new StackedBorrows {}) (\<lambda>_. False) s = Ok s' \<and>
     Stack_access Write (Concrete 2) (GlobalStateInner_new StackedBorrows {}) (\<lambda>_. False) s' = Err SbAccessError"
proof -
  let ?g = "GlobalStateInner_new StackedBorrows {}"
  have f: "Item_tag (Item 1) = 1" "Item_tag (Item 2) = 2" "Item_perm (Item 1) = SbUnique" "Item_perm (Item 2) = SbUnique"
    "Item_protected (Item 2) = False" by code_simp+
  have top: "plain_access Write (Concrete 1) ?g ex ([Item 1], None) = Ok ([Item 1], None)" for ex
    using access_through_top [of "Item 1" Write ?g ex "[]" None] f by (simp add: SbPermission_grants_def)
  have r: "rel_outcome (=) core_rel (ofold stack_step (take 1 demo_ops) (Stack_new (Item 1))) (ofold plain_step (take 1 demo_ops) ([Item 1], None))"
    by (intro run_refines) (auto simp: core_rel_def Stack_new_rel demo_ops_def grant_ok_def f)
  moreover have "ofold plain_step (take 1 demo_ops) ([Item 1], None) = Ok ([Item 1, Item 2], None)"
    by (simp add: demo_ops_def plain_grant_def top)
  ultimately obtain s where s: "ofold stack_step (take 1 demo_ops) (Stack_new (Item 1)) = Ok s" "Stack_inv s"
    "borrows s = [Item 1] @ [Item 2]" "unknown_bottom s = None"
    by (auto simp: rel_outcome_right dest: core_relD)
  have "plain_access Read (Concrete 1) ?g (\<lambda>_. False) ([Item 1, Item 2], None) =
    Ok ([Item 1, Item_set_permission SbDisabled (Item 2)], None)"
    by (simp add: plain_access_def plain_find_def rposition_def f SbPermission_grants_def plain_invalidate_def
        plain_disable_def plain_disable_step_def item_invalidated_def plain_forget_def numeral_2_eq_2)
  then obtain s' where s': "Stack_access Read (Concrete 1) ?g (\<lambda>_. False) s = Ok s'"
    using access_plain_Ok [OF s(2), of Read "Concrete 1" ?g "\<lambda>_. False"] s(3,4) by auto
  have "1 \<noteq> Item_tag (Item 2)" by (simp add: f)
  from unique_is_exclusive [OF s(2,4,3) f(4) this s'] s(1) s' show ?thesis by (auto simp: f)
qed

text \<open>A freshly granted reference sits on top of the stack and can be used right away (rules U1 and F1):
  after a grant that is an access, the new item is the topmost one, and an access of the same kind
  through its tag succeeds and changes neither the items nor the unknown bottom.\<close>

theorem fresh_grant_is_usable:
  assumes "Stack_inv s" "grant_ok (Item_perm new) (Some k)" "Item_tag new \<notin> Item_tag ` set (borrows s)"
    and "Stack_grant derived new (Some k) g ex s = Ok s'"
  shows "Stack_inv s' \<and> last (borrows s') = new \<and>
    (\<exists>s''. Stack_access k (Concrete (Item_tag new)) g' ex' s' = Ok s'' \<and> Stack_eq s'' s')"
proof -
  have p: "plain_grant derived new (Some k) g ex (borrows s, unknown_bottom s) = Ok (borrows s', unknown_bottom s')" "Stack_inv s'"
    using grant_Ok_plain [OF assms] by auto
  from plain_grant_Some [OF p(1)] obtain b1 where b1: "borrows s' = b1 @ [new]" by blast
  have "SbPermission_grants (Item_perm new) k" "k = Write \<Longrightarrow> Item_perm new = SbUnique"
    using assms(2) by (auto simp: grant_ok_def SbPermission_grants_def)
  from access_plain_Ok [OF p(2)] access_through_top [OF this, of g' ex' b1 "unknown_bottom s'"] b1 p(2)
  show ?thesis by (auto simp: Stack_eq_def)
qed

theorem fresh_grant_is_usable_witness:
  "\<exists>s' s''. Stack_grant (Concrete 1) (Item 2) (Some Write) (GlobalStateInner_new StackedBorrows {}) (\<lambda>_. False)
      (Stack_new (Item 1)) = Ok s' \<and> last (borrows s') = Item 2 \<and>
     Stack_access Write (Concrete 2) (GlobalStateInner_new StackedBorrows {}) (\<lambda>_. False) s' = Ok s''"
proof -
  let ?g = "GlobalStateInner_new StackedBorrows {}"
  have f: "Item_tag (Item 1) = 1" "Item_tag (Item 2) = 2" "Item_perm (Item 1) = SbUnique" "Item_perm (Item 2) = SbUnique"
    by code_simp+
  have inv: "Stack_inv (Stack_new (Item 1))" "grant_ok (Item_perm (Item 2)) (Some Write)"
    "Item_tag (Item 2) \<notin> Item_tag ` set (borrows (Stack_new (Item 1)))"
    using Stack_new_rel [of "Item 1"] by (auto simp: stack_rel_def grant_ok_def f)
  have top: "plain_access Write (Concrete 1) ?g (\<lambda>_. False) ([Item 1], None) = Ok ([Item 1], None)"
    using access_through_top [of "Item 1" Write ?g "\<lambda>_. False" "[]" None] f by (simp add: SbPermission_grants_def)
  obtain s' where s': "Stack_grant (Concrete 1) (Item 2) (Some Write) ?g (\<lambda>_. False) (Stack_new (Item 1)) = Ok s'"
    using grant_refines [OF Stack_inv_core_rel [OF inv(1)] inv(2), of "Concrete 1" ?g "\<lambda>_. False"] inv(3) top
    by (auto simp: Stack_new_def plain_grant_def rel_outcome_right)
  from fresh_grant_is_usable [OF inv s', of ?g "\<lambda>_. False"] s' show ?thesis by (auto simp: f)
qed

end
