(* ===== verification/SB_Retag.thy ===== *)
theory SB_Retag
  imports SB_Discipline Alloc_State
begin

text \<open>
  Retagging under Stacked Borrows: \<open>sb_reborrow\<close>, \<open>sb_retag_place\<close>, \<open>sb_retag_ptr_value\<close>,
  \<open>sb_protect_place\<close> and \<open>sb_expose_tag\<close> of \<open>src/borrow_tracker/stacked_borrows/mod.rs\<close>. The state is
  the global tracker state, the frame of the running function and the tracker states of the allocations.
  The verdict of the data race detector is a parameter.

  Theorem: a successful retag of a \<open>&mut\<close> argument leaves its item on top of every byte with a registered
  protector, and from then on until the function returns every access to one of the bytes through a
  different tag is undefined behaviour.
\<close>

section \<open>Model\<close>

text \<open>Granting an item to a range, with the report to the data race detector.\<close>

definition grant_range ::
  "(AccessKind \<Rightarrow> AllocId \<Rightarrow> nat \<Rightarrow> nat \<Rightarrow> bool) \<Rightarrow> GlobalStateInner \<Rightarrow> AllocId \<Rightarrow> BorTag \<Rightarrow> ProvenanceExtra \<Rightarrow>
     SbPermission \<Rightarrow> AccessKind option \<Rightarrow> bool \<Rightarrow> AccessKind \<Rightarrow> nat \<Rightarrow> nat \<Rightarrow> Stacks \<Rightarrow> (RetagError, Stacks) outcome" where
  "grant_range race_free global alloc_id new_tag orig_tag perm access protected expected start sz a =
     obind (Item_new new_tag perm protected) (\<lambda>item.
     obind (map_err (\<lambda>e. RetagTracker (SbErr e))
              (Stacks_for_each start sz (\<lambda>stack exposed. Stack_grant orig_tag item access global exposed stack) a)) (\<lambda>a.
     case access of
       None \<Rightarrow> Ok a
     | Some access \<Rightarrow>
         obind (check (access = expected)) (\<lambda>_.
         if race_free access alloc_id start sz then Ok a else Err RetagRace)))"

text \<open>What \<open>log_creation\<close> does besides logging: it needs the tracker state of a live allocation.\<close>

definition sb_log_creation :: "BtState \<Rightarrow> AllocId \<Rightarrow> (RetagError, unit) outcome" where
  "sb_log_creation st aid =
     (if alloc_kind (bt_allocs st aid) = LiveData
      then obind (get_alloc_extra st aid) (\<lambda>extra. obind (borrow_tracker_sb extra) (\<lambda>_. Ok ()))
      else Ok ())"

definition sb_reborrow ::
  "(AccessKind \<Rightarrow> AllocId \<Rightarrow> nat \<Rightarrow> nat \<Rightarrow> bool) \<Rightarrow> RetagPlace \<Rightarrow> nat \<Rightarrow> SbNewPermission \<Rightarrow> BorTag \<Rightarrow> BtState \<Rightarrow>
     (RetagError, BtState \<times> Provenance option) outcome" where
  "sb_reborrow race_free place sz new_perm new_tag st =
     (if \<not> place_in_bounds place then Err RetagOutOfBounds
      else if sz = 0 then
        (case place_alloc place of
           Some (alloc_id, _, _) \<Rightarrow>
             obind (sb_log_creation st alloc_id) (\<lambda>_. Ok (st, Some (ProvConcrete alloc_id new_tag)))
         | None \<Rightarrow> Ok (st, place_provenance place))
      else case place_alloc place of
        None \<Rightarrow> Err RetagNoAlloc
      | Some (alloc_id, base_offset, orig_tag) \<Rightarrow>
          obind (sb_log_creation st alloc_id) (\<lambda>_.
          let st = register_protector (SbNewPermission_protector new_perm) alloc_id new_tag st in
          obind (case new_perm of
                   Uniform perm access protector \<Rightarrow>
                     obind (check (perm \<noteq> SharedReadOnly)) (\<lambda>_.
                     obind (get_alloc_extra_mut st alloc_id) (\<lambda>extra.
                     obind (borrow_tracker_sb extra) (\<lambda>a.
                     grant_range race_free (bt_global st) alloc_id new_tag orig_tag perm access (protector \<noteq> None)
                       Write base_offset sz a)))
                 | FreezeSensitive freeze_perm freeze_access freeze_protector nonfreeze_perm nonfreeze_access \<Rightarrow>
                     obind (get_alloc_extra st alloc_id) (\<lambda>extra.
                     obind (borrow_tracker_sb extra) (\<lambda>a.
                     ofold (\<lambda>(start, len, frozen) a.
                       let (perm, access, protector) =
                             (if frozen then (freeze_perm, freeze_access, freeze_protector)
                              else (nonfreeze_perm, nonfreeze_access, None))
                       in grant_range race_free (bt_global st) alloc_id new_tag orig_tag perm access (protector \<noteq> None)
                            Read (base_offset + start) len a)
                       (place_freeze_ranges place) a))) (\<lambda>a.
          Ok (put_alloc_extra alloc_id (SbAlloc a) st, Some (ProvConcrete alloc_id new_tag)))))"

definition sb_retag_place ::
  "(AccessKind \<Rightarrow> AllocId \<Rightarrow> nat \<Rightarrow> nat \<Rightarrow> bool) \<Rightarrow> RetagPlace \<Rightarrow> SbNewPermission \<Rightarrow> BtState \<Rightarrow>
     (RetagError, BtState \<times> Provenance option) outcome" where
  "sb_retag_place race_free place new_perm st =
     (case place_size place of
        None \<Rightarrow> Ok (st, place_provenance place)
      | Some sz \<Rightarrow>
          obind (new_ptr (bt_global st)) (\<lambda>(g, new_tag).
          obind (sb_reborrow race_free place sz new_perm new_tag (st\<lparr>bt_global := g\<rparr>)) (\<lambda>(st, new_prov).
          obind (map_provenance place new_prov) (\<lambda>p. Ok (st, p)))))"

definition sb_retag_ptr_value ::
  "(AccessKind \<Rightarrow> AllocId \<Rightarrow> nat \<Rightarrow> nat \<Rightarrow> bool) \<Rightarrow> RetagPlace \<Rightarrow> bool \<Rightarrow> PtrTy \<Rightarrow> bool \<Rightarrow> bool \<Rightarrow> RetagMode \<Rightarrow> BtState \<Rightarrow>
     (RetagError, BtState \<times> Provenance option option) outcome" where
  "sb_retag_ptr_value race_free place is_box ty is_unpin is_unsafe_unpin mode st =
     (if mode = RetagNone then Ok (st, None)
      else
        obind (if is_box then Ok (from_box_ty mode is_unpin is_unsafe_unpin)
               else from_ref_ty ty mode is_unpin is_unsafe_unpin) (\<lambda>new_perm.
        obind (sb_retag_place race_free place new_perm st) (\<lambda>(st, p). Ok (st, Some p))))"

definition sb_protect_place ::
  "(AccessKind \<Rightarrow> AllocId \<Rightarrow> nat \<Rightarrow> nat \<Rightarrow> bool) \<Rightarrow> RetagPlace \<Rightarrow> BtState \<Rightarrow>
     (RetagError, BtState \<times> Provenance option) outcome" where
  "sb_protect_place race_free place st =
     sb_retag_place race_free place (Uniform SbUnique (Some Write) (Some StrongProtector)) st"

definition sb_expose_tag :: "AllocId \<Rightarrow> BorTag \<Rightarrow> BtState \<Rightarrow> (RetagError, BtState) outcome" where
  "sb_expose_tag alloc_id tag st =
     (if alloc_kind (bt_allocs st alloc_id) = LiveData then
        obind (get_alloc_extra st alloc_id) (\<lambda>extra.
        obind (borrow_tracker_sb extra) (\<lambda>a.
        Ok (put_alloc_extra alloc_id (SbAlloc (a\<lparr>exposed_tags := insert tag (exposed_tags a)\<rparr>)) st)))
      else Ok st)"

section \<open>The stacks of an allocation\<close>

lemma Stack_eq_equivp: "equivp Stack_eq"
  by (rule equivpI) (auto simp: Stack_eq_def reflp_def symp_def transp_def)

interpretation sb_map: ranged_state Stack_eq map_inv DedupRangeMap_size lookup "DedupRangeMap_for_each Stack_eq"
  by (rule ranged_state_for_each) (rule Stack_eq_equivp)

definition Stacks_inv :: "Stacks \<Rightarrow> bool" where
  "Stacks_inv a \<longleftrightarrow> map_inv (stacks a) \<and> every Stack_inv (stacks a)"

definition fresh_in :: "BorTag \<Rightarrow> Stack \<Rightarrow> bool" where
  "fresh_in tag s \<longleftrightarrow> tag \<notin> Item_tag ` set (borrows s)"

lemma fresh_in_eq: "Stack_eq s t \<Longrightarrow> fresh_in tag s \<longleftrightarrow> fresh_in tag t"
  by (simp add: Stack_eq_def fresh_in_def)

text \<open>A range operation whose body turns \<open>P\<close>-stacks into well-formed stacks.\<close>

lemma Stacks_for_each_bytes:
  assumes i: "map_inv (stacks a)" and len: "start + sz \<le> DedupRangeMap_size (stacks a)"
    and P: "every P (stacks a)" "\<forall>s. P s \<longrightarrow> Stack_inv s"
    and body: "\<forall>s s'. P s \<longrightarrow> f s (\<lambda>t. t \<in> exposed_tags a) = Ok s' \<longrightarrow> Stack_inv s'"
    and each: "Stacks_for_each start sz f a = Ok a'"
  shows "Stacks_inv a'" "DedupRangeMap_size (stacks a') = DedupRangeMap_size (stacks a)" "exposed_tags a' = exposed_tags a"
    "start \<le> k \<Longrightarrow> k < start + sz \<Longrightarrow> \<exists>s0 s s'. lookup (stacks a) k = Some s0 \<and> Stack_eq s0 s \<and> P s \<and>
      f s (\<lambda>t. t \<in> exposed_tags a) = Ok s' \<and> lookup (stacks a') k = Some s'"
    "\<not> (start \<le> k \<and> k < start + sz) \<Longrightarrow> rel_option Stack_eq (lookup (stacks a) k) (lookup (stacks a') k)"
proof -
  let ?f = "\<lambda>_ stack u. obind (f stack (\<lambda>t. t \<in> exposed_tags a)) (\<lambda>stack. Ok (stack, u))"
  from each obtain v where v: "DedupRangeMap_for_each Stack_eq ?f (stacks a) start sz () = Ok (v, ())"
    and a': "a' = a\<lparr>stacks := v\<rparr>" by (auto simp: Stacks_for_each_def outcome_eqs)
  have "every Stack_inv v"
    by (rule for_each_elements [OF Stack_eq_equivp i len P(1) v]) (use body P(2) in \<open>auto simp: outcome_eqs\<close>)
  with sb_map.each_inv [OF i len v] show "Stacks_inv a'" "DedupRangeMap_size (stacks a') = DedupRangeMap_size (stacks a)"
    "exposed_tags a' = exposed_tags a" by (auto simp: Stacks_inv_def a')
  show "\<exists>s0 s s'. lookup (stacks a) k = Some s0 \<and> Stack_eq s0 s \<and> P s \<and>
      f s (\<lambda>t. t \<in> exposed_tags a) = Ok s' \<and> lookup (stacks a') k = Some s'" if "start \<le> k" "k < start + sz"
    using for_each_inside [OF Stack_eq_equivp i len P(1) v that] by (auto simp: a' outcome_eqs)
  show "rel_option Stack_eq (lookup (stacks a) k) (lookup (stacks a') k)" if "\<not> (start \<le> k \<and> k < start + sz)"
    using sb_map.each_outside [OF i len v that] by (simp add: a')
qed

section \<open>Retagging a mutable reference\<close>

lemma grant_keeps_known_bottom:
  assumes "Stack_inv s" "grant_ok (Item_perm new) (Some k)" "Item_tag new \<notin> Item_tag ` set (borrows s)"
    "Stack_grant (Concrete t) new (Some k) g ex s = Ok s'" "unknown_bottom s = None"
  shows "Stack_inv s' \<and> unknown_bottom s' = None \<and> (\<exists>cs. borrows s' = cs @ [new])"
proof -
  have p: "plain_grant (Concrete t) new (Some k) g ex (borrows s, None) = Ok (borrows s', unknown_bottom s')" "Stack_inv s'"
    using grant_Ok_plain [OF assms(1-4)] assms(5) by auto
  from plain_grant_Some [OF p(1)] obtain b1 where b1: "plain_access k (Concrete t) g ex (borrows s, None) = Ok (b1, unknown_bottom s')"
    "borrows s' = b1 @ [new]" by blast
  have "plain_find k (Concrete t) ex (borrows s) None \<noteq> Ok None" by (auto simp: plain_find_def split: option.splits)
  with b1 have "unknown_bottom s' = None"
    by (auto simp: plain_access_def plain_forget_def outcome_eqs split: if_splits)
  with p b1 show ?thesis by auto
qed

text \<open>The bytes of a range after a protected \<open>Unique\<close> was granted to it.\<close>

definition exclusively_held :: "Stacks \<Rightarrow> BorTag \<Rightarrow> nat \<Rightarrow> bool" where
  "exclusively_held a tag k \<longleftrightarrow> (\<exists>s cs x. lookup (stacks a) k = Some s \<and> Stack_inv s \<and> unknown_bottom s = None \<and>
     borrows s = cs @ [x] \<and> Item_tag x = tag \<and> Item_perm x = SbUnique \<and> Item_protected x)"

definition known_bottoms :: "Stacks \<Rightarrow> nat \<Rightarrow> nat \<Rightarrow> bool" where
  "known_bottoms a start sz \<longleftrightarrow> (\<forall>k s. start \<le> k \<and> k < start + sz \<and> lookup (stacks a) k = Some s \<longrightarrow> unknown_bottom s = None)"

lemma grant_range_exclusive:
  assumes inv: "Stacks_inv a" and len: "start + sz \<le> DedupRangeMap_size (stacks a)" and fresh: "every (fresh_in tag) (stacks a)"
    and bot: "known_bottoms a start sz" and tag: "tag \<noteq> 0"
    and g: "grant_range rf g aid tag (Concrete t) SbUnique (Some Write) True Write start sz a = Ok a'"
  shows "Stacks_inv a'" "DedupRangeMap_size (stacks a') = DedupRangeMap_size (stacks a)"
    "start \<le> k \<Longrightarrow> k < start + sz \<Longrightarrow> exclusively_held a' tag k"
proof -
  from g obtain item where item: "Item_new tag SbUnique True = (Ok item :: (RetagError, _) outcome)"
    and each: "Stacks_for_each start sz (\<lambda>s ex. Stack_grant (Concrete t) item (Some Write) g ex s) a = Ok a'"
    by (auto simp: grant_range_def outcome_eqs split: if_splits)
  note it = Item_new_fields(2,3) [OF item] Item_new_fields(4) [OF item tag]
  have P: "every (\<lambda>s. Stack_inv s \<and> fresh_in tag s) (stacks a)" using inv fresh by (simp add: Stacks_inv_def every_def)
  have i: "map_inv (stacks a)" using inv by (simp add: Stacks_inv_def)
  have "Stack_inv s'" if "Stack_inv s \<and> fresh_in tag s" "Stack_grant (Concrete t) item (Some Write) g ex s = Ok s'" for s s' ex
    using grant_Ok_plain [OF _ _ _ that(2)] that(1) it by (simp add: grant_ok_def fresh_in_def)
  then have body: "\<forall>s s'. Stack_inv s \<and> fresh_in tag s \<longrightarrow>
      Stack_grant (Concrete t) item (Some Write) g (\<lambda>t. t \<in> exposed_tags a) s = Ok s' \<longrightarrow> Stack_inv s'" by blast
  have P': "\<forall>s. Stack_inv s \<and> fresh_in tag s \<longrightarrow> Stack_inv s" by simp
  note b = Stacks_for_each_bytes [OF i len P P' body each]
  show "Stacks_inv a'" "DedupRangeMap_size (stacks a') = DedupRangeMap_size (stacks a)" by (rule b)+
  show "exclusively_held a' tag k" if k: "start \<le> k" "k < start + sz"
  proof -
    from b(4) [OF k] obtain s0 s s' where s: "lookup (stacks a) k = Some s0" "Stack_eq s0 s" "Stack_inv s \<and> fresh_in tag s"
      "Stack_grant (Concrete t) item (Some Write) g (\<lambda>t. t \<in> exposed_tags a) s = Ok s'" "lookup (stacks a') k = Some s'" by auto
    have "unknown_bottom s = None" using bot s(1,2) k by (auto simp: known_bottoms_def Stack_eq_def)
    with grant_keeps_known_bottom [OF _ _ _ s(4)] s(3) it have "Stack_inv s'" "unknown_bottom s' = None" "\<exists>cs. borrows s' = cs @ [item]"
      by (auto simp: grant_ok_def fresh_in_def)
    with s(5) it show ?thesis by (auto simp: exclusively_held_def)
  qed
qed

text \<open>As long as the protector is registered, accesses through other tags are undefined behaviour.\<close>

lemma exclusively_held_foreign:
  assumes held: "exclusively_held a tag k" and inv: "Stacks_inv a" and len: "start + sz \<le> DedupRangeMap_size (stacks a)"
    and k: "start \<le> k" "k < start + sz" and u: "u \<noteq> tag" and prot: "protected_tags g tag = Some p"
  shows "Stacks_for_each start sz (\<lambda>s ex. Stack_access kind (Concrete u) g ex s) a \<noteq> Ok a'"
proof
  assume each: "Stacks_for_each start sz (\<lambda>s ex. Stack_access kind (Concrete u) g ex s) a = Ok a'"
  have i: "map_inv (stacks a)" "every Stack_inv (stacks a)" using inv by (auto simp: Stacks_inv_def)
  have body: "\<forall>s s'. Stack_inv s \<longrightarrow> Stack_access kind (Concrete u) g (\<lambda>t. t \<in> exposed_tags a) s = Ok s' \<longrightarrow> Stack_inv s'"
    using access_Ok_plain by blast
  have P': "\<forall>s. Stack_inv s \<longrightarrow> Stack_inv s" by simp
  from Stacks_for_each_bytes(4) [OF i(1) len i(2) P' body each k] obtain s0 s s' where
    s: "lookup (stacks a) k = Some s0" "Stack_eq s0 s" "Stack_inv s"
      "Stack_access kind (Concrete u) g (\<lambda>t. t \<in> exposed_tags a) s = Ok s'" by auto
  from held s(1,2) obtain cs x where x: "borrows s = cs @ [x]" "unknown_bottom s = None" "Item_tag x = tag"
    "Item_perm x = SbUnique" "Item_protected x" by (auto simp: exclusively_held_def Stack_eq_def)
  have "plain_access kind (Concrete u) g (\<lambda>t. t \<in> exposed_tags a) (cs @ [x], None) = Ok (borrows s', unknown_bottom s')"
    using access_Ok_plain [OF s(3,4)] x by simp
  moreover have "tags_distinct (cs @ [x])" using s(3) x(1) by (simp add: Stack_inv_def)
  ultimately have "item_invalidated g Conflict x = Ok ()"
    using foreign_access_kills_unique x(3,4) u by blast
  with x(3,5) prot show False by (simp add: item_invalidated_def)
qed

section \<open>Properties\<close>

text \<open>C22: Retagging a mutable reference on function entry makes it \<open>noalias\<close>. If \<open>sb_reborrow\<close> of a non-empty
  place with permission \<open>Unique\<close>, a write access and a protector succeeds (from a pointer with a known
  tag, where the bottom of the stacks is known and the new tag is new), then the protector is registered
  in the frame and globally, the stacks stay well-formed, and every read or write through another tag
  that touches one of the bytes is undefined behaviour.\<close>

theorem protected_borrow_is_noalias:
  assumes place: "place_alloc place = Some (aid, base, Concrete t)" "0 < sz"
    and alloc: "alloc_extra (bt_allocs st aid) = Some (SbAlloc a)" "Stacks_inv a" "base + sz \<le> DedupRangeMap_size (stacks a)"
    and tag: "tag \<noteq> 0" "every (fresh_in tag) (stacks a)" "known_bottoms a base sz"
    and ok: "sb_reborrow rf place sz (Uniform SbUnique (Some Write) (Some protect)) tag st = Ok (st', prov)"
    and k: "base \<le> k" "k < base + sz"
    and other: "u \<noteq> tag" "start \<le> k" "k < start + n" "start + n \<le> DedupRangeMap_size (stacks a)"
  shows "prov = Some (ProvConcrete aid tag) \<and> protected_tags (bt_global st') tag = Some protect \<and>
    (aid, tag) \<in> set (frame_protected_tags (bt_frame st')) \<and>
    (\<exists>a'. alloc_extra (bt_allocs st' aid) = Some (SbAlloc a') \<and> Stacks_inv a' \<and>
      (\<forall>a''. Stacks_before_memory_read (Concrete u) start n (bt_global st') a' \<noteq> Ok a'' \<and>
        Stacks_before_memory_write (Concrete u) start n (bt_global st') a' \<noteq> Ok a''))"
proof -
  let ?st = "register_protector (Some protect) aid tag st" let ?g = "bt_global ?st"
  from ok place alloc obtain a' where
    a': "grant_range rf ?g aid tag (Concrete t) SbUnique (Some Write) True Write base sz a = Ok a'"
    and st': "st' = put_alloc_extra aid (SbAlloc a') ?st"
    and prov: "prov = Some (ProvConcrete aid tag)"
    by (auto simp: sb_reborrow_def SbNewPermission_protector_def Let_def outcome_eqs dest!: get_alloc_extra_mut_Ok split: if_splits)
  note ex = grant_range_exclusive [OF alloc(2,3) tag(2,3,1) a']
  have g: "protected_tags ?g tag = Some protect" "(aid, tag) \<in> set (frame_protected_tags (bt_frame ?st))" by simp_all
  have "start + n \<le> DedupRangeMap_size (stacks a')" using other(4) ex(2) by simp
  note no = exclusively_held_foreign [OF ex(3) [OF k] ex(1) this other(2,3,1) g(1)]
  have "Stacks_before_memory_read (Concrete u) start n ?g a' \<noteq> Ok a''"
    "Stacks_before_memory_write (Concrete u) start n ?g a' \<noteq> Ok a''" for a''
    using no [of Read a''] no [of Write a''] by (simp_all add: Stacks_before_memory_read_def Stacks_before_memory_write_def)
  with st' prov g ex(1) show ?thesis by auto
qed

definition demo_retag_state :: BtState where
  "demo_retag_state =
     \<lparr>bt_global = GlobalStateInner_new StackedBorrows {}, bt_frame = \<lparr>frame_protected_tags = []\<rparr>,
      bt_allocs = (\<lambda>_. \<lparr>alloc_kind = DeadAlloc, alloc_mutability = Mut, alloc_extra = None\<rparr>)
        (7 := \<lparr>alloc_kind = LiveData, alloc_mutability = Mut,
               alloc_extra = Some (SbAlloc \<lparr>stacks = DedupRangeMap_new 1 (Stack_new (Item 1)), exposed_tags = {}\<rparr>)\<rparr>)\<rparr>"

definition demo_place :: RetagPlace where
  "demo_place = \<lparr>place_in_bounds = True, place_alloc = Some (7, 0, Concrete 1), place_provenance = Some (ProvConcrete 7 1),
     place_size = Some 1, place_layout_size = 1, place_is_freeze = True, place_freeze_ranges = [(0, 1, True)]\<rparr>"

theorem protected_borrow_is_noalias_witness:
  "\<exists>st' prov a'. sb_reborrow (\<lambda>_ _ _ _. True) demo_place 1 (Uniform SbUnique (Some Write) (Some StrongProtector)) 2 demo_retag_state =
      Ok (st', prov) \<and> alloc_extra (bt_allocs st' 7) = Some (SbAlloc a') \<and>
    (\<forall>a''. Stacks_before_memory_read (Concrete 1) 0 1 (bt_global st') a' \<noteq> Ok a'')"
proof -
  let ?a = "\<lparr>stacks = DedupRangeMap_new 1 (Stack_new (Item 1)), exposed_tags = {}\<rparr>"
  have "is_Ok (sb_reborrow (\<lambda>_ _ _ _. True) demo_place 1 (Uniform SbUnique (Some Write) (Some StrongProtector)) 2 demo_retag_state)"
    by code_simp
  then obtain st' prov where ok: "sb_reborrow (\<lambda>_ _ _ _. True) demo_place 1 (Uniform SbUnique (Some Write) (Some StrongProtector)) 2 demo_retag_state =
      Ok (st', prov)" by (auto elim: is_Ok.elims)
  have p: "place_alloc demo_place = Some (7, 0, Concrete 1)" "alloc_extra (bt_allocs demo_retag_state 7) = Some (SbAlloc ?a)"
    by (simp_all add: demo_place_def demo_retag_state_def)
  have inv: "Stack_inv (Stack_new (Item 1))" using Stack_new_rel [of "Item 1"] by (simp add: stack_rel_def)
  have t: "Item_tag (Item 1) = 1" by code_simp
  have a: "Stacks_inv ?a" "0 + 1 \<le> DedupRangeMap_size (stacks ?a)" "every (fresh_in 2) (stacks ?a)" "known_bottoms ?a 0 1"
    using inv by (auto simp: Stacks_inv_def every_def map_inv_def DedupRangeMap_new_def DedupRangeMap_size_def fresh_in_def
        known_bottoms_def Stack_new_def t split: if_splits)
  from protected_borrow_is_noalias [OF p(1) _ p(2) a(1,2) _ a(3,4) ok, of 0 1 0 1] a(2) ok show ?thesis by auto
qed

end
