(* ===== verification/Tracker.thy ===== *)
theory Tracker
  imports SB_Retag TB_Retag
begin

text \<open>
  The interface of the borrow tracker to the interpreter, \<open>EvalContextExt\<close> of
  \<open>src/borrow_tracker/mod.rs\<close>: every operation looks up the selected tracker and calls its version of
  the operation. The calls that the interpreter makes on the state of one allocation are lifted to the
  memory here.

  Theorem: whatever sequence of operations runs, every allocation carries the state of the tracker that
  the global state selects, tags stay fresh, and the protected tags of the running function are exactly
  registered until it returns.
\<close>

section \<open>Model\<close>

text \<open>What the interpreter knows about the pointer to retag: its place, its type and its pointee.\<close>

record RetagVal =
  val_place :: RetagPlace
  val_is_box :: bool
  val_is_box_global :: bool
  val_ty :: PtrTy
  val_pointee :: Pointee

type_synonym race_check = "AccessKind \<Rightarrow> AllocId \<Rightarrow> nat \<Rightarrow> nat \<Rightarrow> bool"

definition retag_ptr_value ::
  "race_check \<Rightarrow> RetagVal \<Rightarrow> BtState \<Rightarrow> (RetagError, BtState \<times> Provenance option option) outcome" where
  "retag_ptr_value race_free val st =
     (case borrow_tracker_method (bt_global st) of
        StackedBorrows \<Rightarrow>
          sb_retag_ptr_value race_free (val_place val) (val_is_box val) (val_ty val) (is_unpin (val_pointee val))
            (is_unsafe_unpin (val_pointee val)) (retag_mode (bt_global st)) st
      | TreeBorrows _ \<Rightarrow>
          tb_retag_ptr_value race_free (val_place val) (val_is_box val) (val_is_box_global val) (val_ty val)
            (val_pointee val) (retag_mode (bt_global st)) st)"

definition set_retag_mode :: "RetagMode \<Rightarrow> BtState \<Rightarrow> BtState" where
  "set_retag_mode mode st = st\<lparr>bt_global := (bt_global st)\<lparr>retag_mode := mode\<rparr>\<rparr>"

definition with_retag_mode ::
  "RetagMode \<Rightarrow> (BtState \<Rightarrow> ('e, BtState \<times> 'a) outcome) \<Rightarrow> BtState \<Rightarrow> ('e, BtState \<times> 'a) outcome" where
  "with_retag_mode mode f st =
     (let old_mode = retag_mode (bt_global st) in
      obind (f (set_retag_mode mode st)) (\<lambda>(st, ret). Ok (set_retag_mode old_mode st, ret)))"

definition protect_place ::
  "race_check \<Rightarrow> RetagPlace \<Rightarrow> BtState \<Rightarrow> (RetagError, BtState \<times> Provenance option) outcome" where
  "protect_place race_free place st =
     (case borrow_tracker_method (bt_global st) of
        StackedBorrows \<Rightarrow> sb_protect_place race_free place st
      | TreeBorrows _ \<Rightarrow> tb_protect_place race_free place st)"

definition expose_tag :: "AllocId \<Rightarrow> BorTag \<Rightarrow> BtState \<Rightarrow> (RetagError, BtState) outcome" where
  "expose_tag aid tag st =
     (case borrow_tracker_method (bt_global st) of
        StackedBorrows \<Rightarrow> sb_expose_tag aid tag st
      | TreeBorrows _ \<Rightarrow> tb_expose_tag aid tag st)"

text \<open>An operation on the tracker state of one allocation.\<close>

definition on_alloc ::
  "(AllocState \<Rightarrow> (TrackerError, AllocState) outcome) \<Rightarrow> AllocId \<Rightarrow> BtState \<Rightarrow> (RetagError, BtState) outcome" where
  "on_alloc f aid st =
     obind (get_alloc_extra st aid) (\<lambda>a.
     obind (map_err RetagTracker (f a)) (\<lambda>a. Ok (put_alloc_extra aid a st)))"

definition release_one :: "AllocId \<times> BorTag \<Rightarrow> BtState \<Rightarrow> (RetagError, BtState) outcome" where
  "release_one = (\<lambda>(aid, tag) st.
     if alloc_kind (bt_allocs st aid) = LiveData
     then on_alloc (\<lambda>a. AllocState_release_protector a (bt_global st) tag) aid st
     else Ok st)"

definition on_stack_pop :: "FrameState \<Rightarrow> BtState \<Rightarrow> (RetagError, BtState) outcome" where
  "on_stack_pop frame st =
     obind (ofold release_one (frame_protected_tags frame) st) (\<lambda>st.
     Ok (st\<lparr>bt_global := end_call (bt_global st) frame\<rparr>))"

section \<open>Sequences of operations\<close>

text \<open>The calls that the interpreter makes while a program runs. The state holds the frames of the callers
  beside the tracker state, whose frame is that of the running function.\<close>

datatype bt_op =
    OpRetagPtr race_check RetagVal
  | OpProtectPlace race_check RetagPlace
  | OpExposeTag AllocId BorTag
  | OpRead AllocId ProvenanceExtra nat nat
  | OpWrite AllocId ProvenanceExtra nat nat
  | OpFree AllocId ProvenanceExtra nat
  | OpAlloc AllocId nat MemoryKind
  | OpCollectTags AllocId "BorTag \<Rightarrow> bool"
  | OpSetMode RetagMode
  | OpCall
  | OpReturn

fun bt_step :: "bt_op \<Rightarrow> BtState \<times> FrameState list \<Rightarrow> (RetagError, BtState \<times> FrameState list) outcome" where
  "bt_step (OpRetagPtr rf val) (st, fs) = obind (retag_ptr_value rf val st) (\<lambda>(st, _). Ok (st, fs))"
| "bt_step (OpProtectPlace rf place) (st, fs) = obind (protect_place rf place st) (\<lambda>(st, _). Ok (st, fs))"
| "bt_step (OpExposeTag aid tag) (st, fs) = obind (expose_tag aid tag st) (\<lambda>st. Ok (st, fs))"
| "bt_step (OpRead aid prov start sz) (st, fs) =
     obind (on_alloc (\<lambda>a. before_memory_read a prov start sz (bt_global st)) aid st) (\<lambda>st. Ok (st, fs))"
| "bt_step (OpWrite aid prov start sz) (st, fs) =
     obind (on_alloc (\<lambda>a. before_memory_write a prov start sz (bt_global st)) aid st) (\<lambda>st. Ok (st, fs))"
| "bt_step (OpFree aid prov sz) (st, fs) =
     obind (on_alloc (\<lambda>a. before_memory_deallocation a prov sz (bt_global st)) aid st) (\<lambda>st.
     Ok (st\<lparr>bt_allocs := (bt_allocs st)(aid := \<lparr>alloc_kind = DeadAlloc, alloc_mutability = Mut, alloc_extra = None\<rparr>)\<rparr>, fs))"
| "bt_step (OpAlloc aid sz kind) (st, fs) =
     obind (new_allocation aid sz kind (bt_global st)) (\<lambda>(g, a).
     Ok (st\<lparr>bt_global := g,
            bt_allocs := (bt_allocs st)(aid := \<lparr>alloc_kind = LiveData, alloc_mutability = Mut, alloc_extra = Some a\<rparr>)\<rparr>, fs))"
| "bt_step (OpCollectTags aid live) (st, fs) =
     obind (on_alloc (\<lambda>a. AllocState_remove_unreachable_tags a live) aid st) (\<lambda>st. Ok (st, fs))"
| "bt_step (OpSetMode mode) (st, fs) = Ok (set_retag_mode mode st, fs)"
| "bt_step OpCall (st, fs) = Ok (st\<lparr>bt_frame := new_frame (bt_global st)\<rparr>, bt_frame st # fs)"
| "bt_step OpReturn (st, fs) =
     obind (on_stack_pop (bt_frame st) st) (\<lambda>st.
     case fs of
       [] \<Rightarrow> Ok (st\<lparr>bt_frame := new_frame (bt_global st)\<rparr>, [])
     | f # fs \<Rightarrow> Ok (st\<lparr>bt_frame := f\<rparr>, fs))"

fun matches :: "BorrowTrackerMethod \<Rightarrow> AllocState \<Rightarrow> bool" where
  "matches StackedBorrows (SbAlloc _) = True"
| "matches (TreeBorrows _) (TbAlloc _) = True"
| "matches _ _ = False"

definition states_match :: "BtState \<Rightarrow> bool" where
  "states_match st \<longleftrightarrow> (\<forall>aid a. alloc_extra (bt_allocs st aid) = Some a \<longrightarrow> matches (borrow_tracker_method (bt_global st)) a)"

definition stack_tags :: "BtState \<times> FrameState list \<Rightarrow> BorTag list" where
  "stack_tags = (\<lambda>(st, fs). map snd (concat (map frame_protected_tags (bt_frame st # fs))))"

definition bt_inv :: "BtState \<times> FrameState list \<Rightarrow> bool" where
  "bt_inv s \<longleftrightarrow> global_inv (bt_global (fst s)) \<and> states_match (fst s) \<and> distinct (stack_tags s) \<and>
     dom (protected_tags (bt_global (fst s))) = set (stack_tags s)"

text \<open>A step that leaves the global state and the frames alone.\<close>

lemma bt_inv_allocs:
  assumes "bt_inv (st, fs)" "bt_global st' = bt_global st" "bt_frame st' = bt_frame st" "states_match st'"
  shows "bt_inv (st', fs)"
  using assms by (simp add: bt_inv_def stack_tags_def)

lemma states_match_put:
  "states_match st \<Longrightarrow> matches (borrow_tracker_method (bt_global st)) a \<Longrightarrow> states_match (put_alloc_extra aid a st)"
  by (auto simp: states_match_def)

lemma on_alloc_inv:
  assumes "bt_inv (st, fs)" "on_alloc f aid st = Ok st'"
    and "\<And>a a'. f a = Ok a' \<Longrightarrow> matches (borrow_tracker_method (bt_global st)) a \<Longrightarrow> matches (borrow_tracker_method (bt_global st)) a'"
  shows "bt_inv (st', fs)" "bt_global st' = bt_global st" "bt_frame st' = bt_frame st"
proof -
  from assms(2) obtain a a' where a: "alloc_extra (bt_allocs st aid) = Some a" "f a = Ok a'" "st' = put_alloc_extra aid a' st"
    by (auto simp: on_alloc_def outcome_eqs)
  have m: "states_match st" using assms(1) by (simp add: bt_inv_def)
  then have "matches (borrow_tracker_method (bt_global st)) a'" using a(1) assms(3) [OF a(2)] by (auto simp: states_match_def)
  with m have "states_match st'" by (simp add: a(3) states_match_put)
  then show "bt_inv (st', fs)" "bt_global st' = bt_global st" "bt_frame st' = bt_frame st"
    using bt_inv_allocs [OF assms(1), of st'] by (simp_all add: a(3))
qed

lemma alloc_ops_match:
  "before_memory_read a prov start sz g = Ok a' \<Longrightarrow> matches m a \<Longrightarrow> matches m a'"
  "before_memory_write a prov start sz g = Ok a' \<Longrightarrow> matches m a \<Longrightarrow> matches m a'"
  "before_memory_deallocation a prov sz g = Ok a' \<Longrightarrow> matches m a \<Longrightarrow> matches m a'"
  "AllocState_remove_unreachable_tags a live = Ok a' \<Longrightarrow> matches m a \<Longrightarrow> matches m a'"
  "AllocState_release_protector a g tag = Ok a' \<Longrightarrow> matches m a \<Longrightarrow> matches m a'"
  by (cases a; cases m; auto simp: outcome_eqs)+

text \<open>A retag registers at most one protector, for the tag it was given.\<close>

definition retag_effect :: "BorTag \<Rightarrow> BtState \<Rightarrow> BtState \<Rightarrow> bool" where
  "retag_effect tag st st' \<longleftrightarrow> (\<exists>p aid. bt_global st' = bt_global (register_protector p aid tag st) \<and>
     bt_frame st' = bt_frame (register_protector p aid tag st)) \<and> (states_match st \<longrightarrow> states_match st')"

lemma retag_effect_refl: "retag_effect tag st st"
  unfolding retag_effect_def by (metis (no_types) option.case(1) register_protector_def)

lemma retag_effect_put:
  assumes "st' = put_alloc_extra aid a (register_protector p aid tag st)"
    and "states_match st \<Longrightarrow> matches (borrow_tracker_method (bt_global st)) a"
  shows "retag_effect tag st st'"
proof -
  have "states_match (register_protector p aid tag st)" if "states_match st" using that by (simp add: states_match_def)
  then have "states_match st'" if "states_match st" using assms that by (simp add: states_match_put)
  then show ?thesis unfolding retag_effect_def assms(1) by auto
qed

lemma retag_effect_protector: "st' = register_protector p aid tag st \<Longrightarrow> retag_effect tag st st'"
  unfolding retag_effect_def by (auto simp: states_match_def)

lemma tracker_accessors:
  "borrow_tracker_sb a = Ok sb \<longleftrightarrow> a = SbAlloc sb" "borrow_tracker_tb a = Ok tb \<longleftrightarrow> a = TbAlloc tb"
  by (cases a; auto)+

lemma states_match_kind:
  "states_match st \<Longrightarrow> alloc_extra (bt_allocs st aid) = Some (SbAlloc sb) \<Longrightarrow> matches (borrow_tracker_method (bt_global st)) (SbAlloc sb')"
  "states_match st \<Longrightarrow> alloc_extra (bt_allocs st aid) = Some (TbAlloc tb) \<Longrightarrow> matches (borrow_tracker_method (bt_global st)) (TbAlloc tb')"
  by (cases "borrow_tracker_method (bt_global st)"; force simp: states_match_def)+

lemma sb_reborrow_effect:
  assumes "sb_reborrow rf place sz new_perm tag st = Ok (st', prov)"
  shows "retag_effect tag st st'"
proof (cases "sz = 0 \<or> place_alloc place = None")
  case True
  with assms show ?thesis
    by (auto simp: sb_reborrow_def outcome_eqs retag_effect_refl split: if_splits option.splits)
next
  case False
  then obtain aid base t where p: "place_alloc place = Some (aid, base, t)" by auto
  let ?st = "register_protector (SbNewPermission_protector new_perm) aid tag st"
  from assms False p obtain a where a: "\<exists>sb. alloc_extra (bt_allocs ?st aid) = Some (SbAlloc sb)" "st' = put_alloc_extra aid (SbAlloc a) ?st"
    by (auto simp: sb_reborrow_def Let_def outcome_eqs tracker_accessors split: if_splits SbNewPermission.splits dest!: get_alloc_extra_mut_Ok)
  show ?thesis by (rule retag_effect_put [OF a(2)]) (use a(1) states_match_kind(1) in auto)
qed

lemma tb_reborrow_effect:
  assumes "tb_reborrow rf place sz new_perm tag st = Ok (st', prov)"
  shows "retag_effect tag st st'"
proof (cases "place_alloc place")
  case None
  with assms show ?thesis by (auto simp: tb_reborrow_def retag_effect_refl split: if_splits)
next
  case (Some x)
  then obtain aid base t where p: "place_alloc place = Some (aid, base, t)" by (cases x) auto
  let ?st = "register_protector (tb_protector new_perm) aid tag st"
  show ?thesis
  proof (cases "alloc_kind (bt_allocs ?st aid) = LiveData")
    case True
    with assms p obtain a where a: "\<exists>tb. alloc_extra (bt_allocs ?st aid) = Some (TbAlloc tb)" "st' = put_alloc_extra aid (TbAlloc a) ?st"
      by (auto simp: tb_reborrow_def Let_def outcome_eqs tracker_accessors split: if_splits)
    show ?thesis by (rule retag_effect_put [OF a(2)]) (use a(1) states_match_kind(2) in auto)
  next
    case False
    with assms p show ?thesis by (auto simp: tb_reborrow_def Let_def intro!: retag_effect_protector split: if_splits)
  qed
qed

text \<open>The tag of a retag is fresh.\<close>

lemma retag_effect_inv:
  assumes inv: "bt_inv (st, fs)" and g: "new_ptr (bt_global st) = (Ok (g, tag) :: ('e, _) outcome)"
    and eff: "retag_effect tag (st\<lparr>bt_global := g\<rparr>) st'"
  shows "bt_inv (st', fs)"
proof -
  let ?st = "st\<lparr>bt_global := g\<rparr>"
  note n = new_ptr_Ok [OF g]
  have gi: "global_inv (bt_global st)" using inv by (simp add: bt_inv_def)
  have g': "global_inv g" "protected_tags g = protected_tags (bt_global st)" "borrow_tracker_method g = borrow_tracker_method (bt_global st)"
    by (rule global_inv_new_ptr(1) [OF gi g], subst n(4), simp, subst n(4), simp)
  have fresh: "protected_tags (bt_global st) tag = None"
    using gi n(1) unfolding global_inv_def is_protected_def by (metis order.irrefl)
  from eff obtain p aid where e: "bt_global st' = bt_global (register_protector p aid tag ?st)" "bt_frame st' = bt_frame (register_protector p aid tag ?st)"
    and m: "states_match ?st \<longrightarrow> states_match st'" by (auto simp: retag_effect_def)
  have "states_match ?st" using inv g'(3) by (simp add: bt_inv_def states_match_def)
  with m have "states_match st'" by blast
  moreover have "global_inv (bt_global st')"
    using g'(1) n(2) by (auto simp: e(1) register_protector_def protect_tag_def global_inv_def is_protected_def split: option.splits if_splits)
  moreover have "distinct (stack_tags (st', fs)) \<and> dom (protected_tags (bt_global st')) = set (stack_tags (st', fs))"
  proof -
    have new: "stack_tags (st', fs) = map snd (frame_protected_tags (bt_frame st)) @ (case p of None \<Rightarrow> [] | Some _ \<Rightarrow> [tag]) @
        map snd (concat (map frame_protected_tags fs))"
      and old: "stack_tags (st, fs) = map snd (frame_protected_tags (bt_frame st)) @ map snd (concat (map frame_protected_tags fs))"
      by (cases p; simp add: stack_tags_def e)+
    have d: "distinct (stack_tags (st, fs))" "dom (protected_tags (bt_global st)) = set (stack_tags (st, fs))" using inv by (simp_all add: bt_inv_def)
    with fresh have "tag \<notin> set (stack_tags (st, fs))" by auto
    then have "distinct (stack_tags (st', fs))" "set (stack_tags (st', fs)) = (case p of None \<Rightarrow> {} | Some _ \<Rightarrow> {tag}) \<union> set (stack_tags (st, fs))"
      using d(1) unfolding new old by (auto split: option.splits)
    then show ?thesis using d(2) g'(2) by (cases p) (simp_all add: e)
  qed
  ultimately show ?thesis by (simp add: bt_inv_def)
qed

lemma sb_retag_place_inv:
  assumes "bt_inv (st, fs)" "sb_retag_place rf place new_perm st = Ok (st', p)"
  shows "bt_inv (st', fs)"
proof (cases "place_size place")
  case None
  with assms show ?thesis by (simp add: sb_retag_place_def)
next
  case (Some sz)
  with assms(2) obtain g tag prov where "new_ptr (bt_global st) = (Ok (g, tag) :: (RetagError, _) outcome)"
    "sb_reborrow rf place sz new_perm tag (st\<lparr>bt_global := g\<rparr>) = Ok (st', prov)"
    by (auto simp: sb_retag_place_def outcome_eqs)
  with retag_effect_inv [OF assms(1)] sb_reborrow_effect show ?thesis by blast
qed

lemma tb_retag_place_inv:
  assumes "bt_inv (st, fs)" "tb_retag_place rf place new_perm st = Ok (st', p)"
  shows "bt_inv (st', fs)"
proof -
  from assms(2) obtain g tag prov sz where "new_ptr (bt_global st) = (Ok (g, tag) :: (RetagError, _) outcome)"
    "tb_reborrow rf place sz new_perm tag (st\<lparr>bt_global := g\<rparr>) = Ok (st', prov)"
    by (auto simp: tb_retag_place_def Let_def outcome_eqs)
  with retag_effect_inv [OF assms(1)] tb_reborrow_effect show ?thesis by blast
qed

lemma retag_inv:
  assumes "bt_inv (st, fs)"
  shows "retag_ptr_value rf val st = Ok (st', p) \<Longrightarrow> bt_inv (st', fs)"
    "protect_place rf place st = Ok (st', q) \<Longrightarrow> bt_inv (st', fs)"
  using assms sb_retag_place_inv [OF assms] tb_retag_place_inv [OF assms]
  by (auto simp: retag_ptr_value_def protect_place_def sb_retag_ptr_value_def tb_retag_ptr_value_def sb_protect_place_def tb_protect_place_def
      outcome_eqs split: BorrowTrackerMethod.splits if_splits option.splits)

lemma expose_frame:
  assumes "states_match st"
  shows "sb_expose_tag aid tag st = Ok st' \<Longrightarrow> states_match st' \<and> bt_global st' = bt_global st \<and> bt_frame st' = bt_frame st"
    "tb_expose_tag aid tag st = Ok st' \<Longrightarrow> states_match st' \<and> bt_global st' = bt_global st \<and> bt_frame st' = bt_frame st"
  using assms states_match_kind [OF assms]
  by (auto simp: sb_expose_tag_def tb_expose_tag_def outcome_eqs tracker_accessors intro!: states_match_put split: if_splits)

lemma expose_inv:
  assumes "bt_inv (st, fs)" "expose_tag aid tag st = Ok st'"
  shows "bt_inv (st', fs)"
proof -
  have "states_match st" using assms(1) by (simp add: bt_inv_def)
  from expose_frame [OF this] assms(2) have "states_match st' \<and> bt_global st' = bt_global st \<and> bt_frame st' = bt_frame st"
    by (auto simp: expose_tag_def split: BorrowTrackerMethod.splits)
  with bt_inv_allocs [OF assms(1)] show ?thesis by blast
qed

lemma release_inv:
  assumes "ofold release_one ps st = Ok st'" "bt_inv (st, fs)"
  shows "bt_inv (st', fs)" "bt_global st' = bt_global st" "bt_frame st' = bt_frame st"
proof -
  have "bt_inv (st', fs) \<and> bt_global st' = bt_global st \<and> bt_frame st' = bt_frame st"
    using assms
  proof (induction ps arbitrary: st)
    case (Cons p ps)
    obtain aid tag where p: "p = (aid, tag)" by (cases p)
    from Cons.prems(1) obtain st1 where s: "release_one p st = Ok st1" "ofold release_one ps st1 = Ok st'" by (auto simp: obind_eq_Ok)
    from s(1) have "st1 = st \<or> on_alloc (\<lambda>a. AllocState_release_protector a (bt_global st) tag) aid st = Ok st1"
      by (auto simp: release_one_def p split: if_splits)
    then have "bt_inv (st1, fs) \<and> bt_global st1 = bt_global st \<and> bt_frame st1 = bt_frame st"
    proof
      assume o: "on_alloc (\<lambda>a. AllocState_release_protector a (bt_global st) tag) aid st = Ok st1"
      show ?thesis using on_alloc_inv [OF Cons.prems(2) o] alloc_ops_match(5) by blast
    qed (use Cons.prems(2) in simp)
    with Cons.IH [OF s(2)] show ?case by simp
  qed simp
  then show "bt_inv (st', fs)" "bt_global st' = bt_global st" "bt_frame st' = bt_frame st" by blast+
qed

lemma end_call_frame:
  "borrow_tracker_method (end_call g frame) = borrow_tracker_method g"
proof -
  have "borrow_tracker_method (fold (\<lambda>(_, tag) g. g\<lparr>protected_tags := (protected_tags g)(tag := None)\<rparr>) ps g) = borrow_tracker_method g"
    for ps :: "(AllocId \<times> BorTag) list" and g :: GlobalStateInner by (induction ps arbitrary: g) auto
  then show ?thesis by (simp add: end_call_def)
qed

lemma return_inv:
  assumes "bt_inv (st, fs)" "on_stack_pop (bt_frame st) st = Ok st'"
    "fs = f # gs \<or> (fs = [] \<and> f = \<lparr>frame_protected_tags = []\<rparr> \<and> gs = [])"
  shows "bt_inv (st'\<lparr>bt_frame := f\<rparr>, gs)"
proof -
  from assms(2) obtain st1 where s: "ofold release_one (frame_protected_tags (bt_frame st)) st = Ok st1"
    "st' = st1\<lparr>bt_global := end_call (bt_global st1) (bt_frame st)\<rparr>" by (auto simp: on_stack_pop_def obind_eq_Ok)
  note r = release_inv [OF s(1) assms(1)]
  have i: "global_inv (bt_global st)" "states_match st1" "distinct (stack_tags (st, fs))"
    "dom (protected_tags (bt_global st)) = set (stack_tags (st, fs))" using assms(1) r(1) by (simp_all add: bt_inv_def)
  have tags: "stack_tags (st, fs) = map snd (frame_protected_tags (bt_frame st)) @ stack_tags (st'\<lparr>bt_frame := f\<rparr>, gs)"
    using assms(3) by (auto simp: stack_tags_def)
  have "dom (protected_tags (end_call (bt_global st) (bt_frame st))) = dom (protected_tags (bt_global st)) - snd ` set (frame_protected_tags (bt_frame st))"
    unfolding dom_def end_call_protected(1) by auto
  with i(3,4) have "dom (protected_tags (end_call (bt_global st) (bt_frame st))) = set (stack_tags (st'\<lparr>bt_frame := f\<rparr>, gs))"
    unfolding tags by (auto simp del: dom_fun_upd)
  moreover have "states_match (st'\<lparr>bt_frame := f\<rparr>)" using i(2) r(2) by (simp add: s(2) states_match_def end_call_frame)
  ultimately show ?thesis using i(1,3) end_call_inv r(2) unfolding tags by (simp add: bt_inv_def s(2))
qed

lemma alloc_inv:
  assumes "bt_inv (st, fs)" "new_allocation aid sz kind (bt_global st) = (Ok (g, a) :: ('e, _) outcome)"
  shows "bt_inv (st\<lparr>bt_global := g, bt_allocs := (bt_allocs st)(aid := e\<lparr>alloc_extra := Some a\<rparr>)\<rparr>, fs)"
proof -
  from assms(2) obtain tag where r: "root_ptr_tag (bt_global st) aid = (Ok (g, tag) :: ('e, _) outcome)"
    and m: "matches (borrow_tracker_method (bt_global st)) a"
    by (auto simp: new_allocation_def Stacks_new_allocation_def Tree_new_allocation_def outcome_eqs split: BorrowTrackerMethod.splits)
  have gi: "global_inv (bt_global st)" using assms(1) by (simp add: bt_inv_def)
  have "protected_tags g = protected_tags (bt_global st) \<and> borrow_tracker_method g = borrow_tracker_method (bt_global st)"
    using r by (auto simp: root_ptr_tag_def new_ptr_def Let_def outcome_eqs split: option.splits)
  with root_ptr_tag_Ok(1) [OF gi r] assms(1) m show ?thesis
    by (auto simp: bt_inv_def stack_tags_def states_match_def)
qed

lemma bt_step_inv:
  assumes "bt_inv s" "bt_step op s = Ok s'" shows "bt_inv s'"
proof -
  obtain st fs where s: "s = (st, fs)" by (cases s)
  note inv = assms(1) [unfolded s]
  note oa = on_alloc_inv(1) [OF inv]
  show ?thesis
  proof (cases op)
    case (OpFree aid prov sz)
    with assms(2) s obtain st1 where o: "on_alloc (\<lambda>a. before_memory_deallocation a prov sz (bt_global st)) aid st = Ok st1"
      "s' = (st1\<lparr>bt_allocs := (bt_allocs st1)(aid := \<lparr>alloc_kind = DeadAlloc, alloc_mutability = Mut, alloc_extra = None\<rparr>)\<rparr>, fs)"
      by (auto simp: obind_eq_Ok)
    have b: "bt_inv (st1, fs)" by (rule oa [OF o(1)]) (rule alloc_ops_match(3))
    then have "states_match st1" by (simp add: bt_inv_def)
    then show ?thesis unfolding o(2) by (intro bt_inv_allocs [OF b]) (auto simp: states_match_def)
  next
    case (OpAlloc aid sz kind)
    with assms(2) s alloc_inv [OF inv, of aid sz kind _ _ "\<lparr>alloc_kind = LiveData, alloc_mutability = Mut, alloc_extra = None\<rparr>"] show ?thesis
      by (auto simp: obind_eq_Ok)
  next
    case (OpSetMode mode)
    with assms(2) s have s': "s' = (set_retag_mode mode st, fs)" by simp
    show ?thesis unfolding s' using inv
      by (simp add: set_retag_mode_def bt_inv_def global_inv_def is_protected_def states_match_def stack_tags_def)
  next
    case OpCall
    with assms(2) s have s': "s' = (st\<lparr>bt_frame := new_frame (bt_global st)\<rparr>, bt_frame st # fs)" by simp
    show ?thesis unfolding s' using inv by (simp add: bt_inv_def states_match_def stack_tags_def new_frame_def)
  next
    case OpReturn
    with assms(2) s obtain st1 where o: "on_stack_pop (bt_frame st) st = Ok st1"
      "(case fs of [] \<Rightarrow> Ok (st1\<lparr>bt_frame := new_frame (bt_global st1)\<rparr>, []) | f # fs \<Rightarrow> Ok (st1\<lparr>bt_frame := f\<rparr>, fs)) =
        (Ok s' :: (RetagError, _) outcome)" by (auto simp: obind_eq_Ok)
    show ?thesis
    proof (cases fs)
      case Nil
      with o(2) return_inv [OF inv o(1), of "\<lparr>frame_protected_tags = []\<rparr>" "[]"] show ?thesis by (simp add: new_frame_def)
    next
      case (Cons f gs)
      with o(2) return_inv [OF inv o(1), of f gs] show ?thesis by simp
    qed
  next
    case (OpRead aid prov start sz)
    with assms(2) s oa alloc_ops_match(1) show ?thesis by (auto simp: obind_eq_Ok)
  next
    case (OpWrite aid prov start sz)
    with assms(2) s oa alloc_ops_match(2) show ?thesis by (auto simp: obind_eq_Ok)
  next
    case (OpCollectTags aid live)
    with assms(2) s oa alloc_ops_match(4) show ?thesis by (auto simp: obind_eq_Ok)
  next
    case (OpRetagPtr rf val)
    with assms(2) s retag_inv(1) [OF inv] show ?thesis by (auto simp: obind_eq_Ok)
  next
    case (OpProtectPlace rf place)
    with assms(2) s retag_inv(2) [OF inv] show ?thesis by (auto simp: obind_eq_Ok)
  next
    case (OpExposeTag aid tag)
    with assms(2) s expose_inv [OF inv] show ?thesis by (auto simp: obind_eq_Ok)
  qed
qed

section \<open>Properties\<close>

text \<open>C1: The two trackers never get mixed up, and protectors follow the call stack. After any sequence of
  retags, protections, exposures, accesses, allocations, deallocations, tag collections, calls and
  returns that started from a program without allocations, every allocation carries the state of the
  selected tracker, and the protected tags are exactly those that the frames on the call stack have
  registered, each once.\<close>

theorem protectors_follow_the_stack:
  assumes "ofold bt_step ops (\<lparr>bt_global = GlobalStateInner_new bt_kind watched, bt_frame = \<lparr>frame_protected_tags = []\<rparr>,
      bt_allocs = (\<lambda>_. \<lparr>alloc_kind = DeadAlloc, alloc_mutability = Mut, alloc_extra = None\<rparr>)\<rparr>, []) = Ok (st, fs)"
  shows "(\<forall>aid a. alloc_extra (bt_allocs st aid) = Some a \<longrightarrow> matches (borrow_tracker_method (bt_global st)) a) \<and>
    dom (protected_tags (bt_global st)) = set (stack_tags (st, fs)) \<and> distinct (stack_tags (st, fs)) \<and>
    (\<forall>tag \<in> set (stack_tags (st, fs)). tag < next_ptr_tag (bt_global st))"
proof -
  let ?s = "(\<lparr>bt_global = GlobalStateInner_new bt_kind watched, bt_frame = \<lparr>frame_protected_tags = []\<rparr>,
      bt_allocs = (\<lambda>_. \<lparr>alloc_kind = DeadAlloc, alloc_mutability = Mut, alloc_extra = None\<rparr>)\<rparr>, [])"
  have "bt_inv ?s"
    using global_inv_new [of bt_kind watched] by (simp add: bt_inv_def states_match_def stack_tags_def GlobalStateInner_new_def)
  with assms have i: "bt_inv (st, fs)" by (rule ofold_invariant [where P = bt_inv]) (rule bt_step_inv)
  then have "tag < next_ptr_tag (bt_global st)" if "tag \<in> set (stack_tags (st, fs))" for tag
    using that unfolding bt_inv_def global_inv_def is_protected_def fst_conv by (metis domIff)
  with i show ?thesis by (simp add: bt_inv_def states_match_def)
qed

definition demo_val :: "AllocId \<Rightarrow> BorTag \<Rightarrow> RetagVal" where
  "demo_val aid tag =
     \<lparr>val_place = \<lparr>place_in_bounds = True, place_alloc = Some (aid, 0, Concrete tag), place_provenance = Some (ProvConcrete aid tag),
        place_size = Some 2, place_layout_size = 2, place_is_freeze = True, place_freeze_ranges = [(0, 2, True)]\<rparr>,
      val_is_box = False, val_is_box_global = False, val_ty = RefTy Mut,
      val_pointee = \<lparr>is_unpin = True, is_unsafe_unpin = True, is_freeze = True, no_writable = False\<rparr>\<rparr>"

definition demo_bt_ops :: "bt_op list" where
  "demo_bt_ops = [OpAlloc 7 2 MemOther, OpSetMode RetagFnEntry, OpRetagPtr (\<lambda>_ _ _ _. True) (demo_val 7 1), OpCall,
     OpRetagPtr (\<lambda>_ _ _ _. True) (demo_val 7 2), OpWrite 7 (Concrete 3) 0 2, OpReturn]"

theorem protectors_follow_the_stack_witness:
  "\<exists>st. ofold bt_step demo_bt_ops (\<lparr>bt_global = GlobalStateInner_new (TreeBorrows \<lparr>precise_interior_mut = True, implicit_writes = False,
        box_custom_allocator_unique = False\<rparr>) {}, bt_frame = \<lparr>frame_protected_tags = []\<rparr>,
      bt_allocs = (\<lambda>_. \<lparr>alloc_kind = DeadAlloc, alloc_mutability = Mut, alloc_extra = None\<rparr>)\<rparr>, []) = Ok (st, []) \<and>
    frame_protected_tags (bt_frame st) = [(7, 2)] \<and> dom (protected_tags (bt_global st)) = {2}"
proof -
  let ?r = "ofold bt_step demo_bt_ops (\<lparr>bt_global = GlobalStateInner_new (TreeBorrows \<lparr>precise_interior_mut = True, implicit_writes = False,
        box_custom_allocator_unique = False\<rparr>) {}, bt_frame = \<lparr>frame_protected_tags = []\<rparr>,
      bt_allocs = (\<lambda>_. \<lparr>alloc_kind = DeadAlloc, alloc_mutability = Mut, alloc_extra = None\<rparr>)\<rparr>, [])"
  have "obind ?r (\<lambda>(st, fs). Ok (frame_protected_tags (bt_frame st), length fs)) = Ok ([(7, 2)], 0)" by code_simp
  then obtain st where run: "?r = Ok (st, [])" and f: "frame_protected_tags (bt_frame st) = [(7, 2)]" by (auto simp: obind_eq_Ok)
  from protectors_follow_the_stack [OF run] run f show ?thesis by (auto simp: stack_tags_def)
qed

end
