(* ===== verification/Vector_Clock.thy ===== *)
theory Vector_Clock
  imports Prelude
begin

unbundle bit_operations_syntax

text \<open>
  Vector clocks (\<open>src/src/concurrency/vector_clock.rs\<close>): timestamps that pack a time and the kind of a
  read into 32 bits, and clocks as slices of timestamps that end in a nonzero one. The source spans that
  timestamps carry for error messages are left out: no operation depends on them.

  \<open>clock_time\<close> reads a clock as a function from vector indices to times that is zero beyond the slice. The
  lemmas show what every operation does to that function; the five short-circuiting comparisons are the
  pointwise order on it.
\<close>

section \<open>Timestamps\<close>

text \<open>Vector indices are \<open>u32\<close> values, kept as natural numbers.\<close>

type_synonym VectorIdx = nat

definition VectorIdx_new :: "nat \<Rightarrow> ('e, VectorIdx) outcome" where
  "VectorIdx_new idx = (if idx < 2 ^ 32 then Ok idx else Panic)"

datatype NaReadType = PlainRead | RetagRead

datatype VTimestamp = VTimestamp (time_and_read_type: "32 word")

definition encode_time_and_read_type :: "32 word \<Rightarrow> NaReadType \<Rightarrow> ('e, 32 word) outcome" where
  "encode_time_and_read_type time read_type =
     (let read_type_bit = (case read_type of PlainRead \<Rightarrow> 0 | RetagRead \<Rightarrow> 1)
      in if unat time * 2 < 2 ^ 32 then Ok (read_type_bit OR time * 2) else Panic)"

definition VTimestamp_new :: "32 word \<Rightarrow> NaReadType \<Rightarrow> ('e, VTimestamp) outcome" where
  "VTimestamp_new time read_type = obind (encode_time_and_read_type time read_type) (\<lambda>w. Ok (VTimestamp w))"

text \<open>The constant \<open>ZERO\<close> is \<open>new(0, NaReadType::Read, DUMMY_SP)\<close>; \<open>ZERO_new\<close> shows that this is its value.\<close>

definition VTimestamp_ZERO :: VTimestamp where
  "VTimestamp_ZERO = VTimestamp 0"

definition VTimestamp_time :: "VTimestamp \<Rightarrow> 32 word" where
  "VTimestamp_time self = drop_bit 1 (time_and_read_type self)"

definition VTimestamp_read_type :: "VTimestamp \<Rightarrow> NaReadType" where
  "VTimestamp_read_type self = (if time_and_read_type self AND 1 = 0 then PlainRead else RetagRead)"

definition VTimestamp_set_time :: "VTimestamp \<Rightarrow> 32 word \<Rightarrow> ('e, VTimestamp) outcome" where
  "VTimestamp_set_time self time =
     obind (encode_time_and_read_type time (VTimestamp_read_type self)) (\<lambda>w. Ok (VTimestamp w))"

definition VTimestamp_set_read_type :: "VTimestamp \<Rightarrow> NaReadType \<Rightarrow> ('e, VTimestamp) outcome" where
  "VTimestamp_set_read_type self read_type =
     obind (encode_time_and_read_type (VTimestamp_time self) read_type) (\<lambda>w. Ok (VTimestamp w))"

text \<open>Timestamps are compared by their time alone.\<close>

definition VTimestamp_eq :: "VTimestamp \<Rightarrow> VTimestamp \<Rightarrow> bool" where
  "VTimestamp_eq self other \<longleftrightarrow> VTimestamp_time self = VTimestamp_time other"

definition VTimestamp_cmp :: "VTimestamp \<Rightarrow> VTimestamp \<Rightarrow> ordering" where
  "VTimestamp_cmp self other =
     (if VTimestamp_time self < VTimestamp_time other then Less
      else if VTimestamp_time self = VTimestamp_time other then Equal else Greater)"

text \<open>The operators \<open><=\<close>, \<open>>\<close> and \<open><\<close>, and \<open>Ord::max\<close>, which returns its second argument on a tie, all in
  terms of \<open>cmp\<close>.\<close>

definition VTimestamp_le :: "VTimestamp \<Rightarrow> VTimestamp \<Rightarrow> bool" where
  "VTimestamp_le self other \<longleftrightarrow> VTimestamp_cmp self other \<noteq> Greater"

definition VTimestamp_gt :: "VTimestamp \<Rightarrow> VTimestamp \<Rightarrow> bool" where
  "VTimestamp_gt self other \<longleftrightarrow> VTimestamp_cmp self other = Greater"

definition VTimestamp_lt :: "VTimestamp \<Rightarrow> VTimestamp \<Rightarrow> bool" where
  "VTimestamp_lt self other \<longleftrightarrow> VTimestamp_cmp self other = Less"

definition VTimestamp_max :: "VTimestamp \<Rightarrow> VTimestamp \<Rightarrow> VTimestamp" where
  "VTimestamp_max self other = (if VTimestamp_gt self other then self else other)"

section \<open>Clocks\<close>

type_synonym VClock = "VTimestamp list"

definition VClock_new_with_index :: "VectorIdx \<Rightarrow> VTimestamp \<Rightarrow> VClock" where
  "VClock_new_with_index index timestamp =
     (if VTimestamp_time timestamp = 0 then []
      else let len = index + 1; vec = replicate len VTimestamp_ZERO in vec[index := timestamp])"

text \<open>\<open>Index::index\<close>: reading an entry, zero beyond the end.\<close>

definition VClock_index :: "VClock \<Rightarrow> VectorIdx \<Rightarrow> VTimestamp" where
  "VClock_index self index = (if index < length self then self ! index else VTimestamp_ZERO)"

text \<open>\<open>index_mut\<close> hands out a reference: the model applies the change made through it.\<close>

definition VClock_index_mut ::
  "VClock \<Rightarrow> VectorIdx \<Rightarrow> (VTimestamp \<Rightarrow> ('e, VTimestamp) outcome) \<Rightarrow> ('e, VClock) outcome" where
  "VClock_index_mut self index change =
     obind (vec_get self index) (\<lambda>t. obind (change t) (\<lambda>t. Ok (self[index := t])))"

definition get_mut_with_min_len :: "VClock \<Rightarrow> nat \<Rightarrow> VClock" where
  "get_mut_with_min_len self min_len =
     (if length self < min_len then self @ replicate (min_len - length self) VTimestamp_ZERO else self)"

definition increment_index :: "VClock \<Rightarrow> VectorIdx \<Rightarrow> ('e, VClock) outcome" where
  "increment_index self idx =
     (let mut_slice = get_mut_with_min_len self (idx + 1);
          idx_ref = mut_slice ! idx;
          time = VTimestamp_time idx_ref
      in obind (if unat time + 1 < 2 ^ 32 then Ok (time + 1) else Panic) (\<lambda>time.
         obind (VTimestamp_set_time idx_ref time) (\<lambda>idx_ref.
         Ok (mut_slice[idx := idx_ref]))))"

definition VClock_join :: "VClock \<Rightarrow> VClock \<Rightarrow> VClock" where
  "VClock_join self other =
     (let rhs_slice = other;
          lhs_slice = get_mut_with_min_len self (length rhs_slice)
      in map (\<lambda>(l, r). VTimestamp_max r l) (zip lhs_slice rhs_slice) @ drop (length rhs_slice) lhs_slice)"

definition set_at_index :: "VClock \<Rightarrow> VClock \<Rightarrow> VectorIdx \<Rightarrow> ('e, VClock) outcome" where
  "set_at_index self other idx =
     (let new_timestamp = VClock_index other idx
      in if VTimestamp_time new_timestamp = 0 \<and> idx \<ge> length self then Ok self
         else let mut_slice = get_mut_with_min_len self (idx + 1);
                  mut_timestamp = mut_slice ! idx
              in obind (check (VTimestamp_le mut_timestamp new_timestamp)) (\<lambda>_.
                 Ok (mut_slice[idx := new_timestamp])))"

definition set_zero_vector :: "VClock \<Rightarrow> VClock" where
  "set_zero_vector self = []"

text \<open>\<open>clone_from\<close> empties the vector and copies the source.\<close>

definition VClock_clone_from :: "VClock \<Rightarrow> VClock \<Rightarrow> VClock" where
  "VClock_clone_from self source = [] @ source"

text \<open>The derived equality compares the slices element by element.\<close>

definition VClock_eq :: "VClock \<Rightarrow> VClock \<Rightarrow> bool" where
  "VClock_eq self other \<longleftrightarrow> list_all2 VTimestamp_eq self other"

fun partial_cmp_loop :: "ordering \<Rightarrow> (VTimestamp \<times> VTimestamp) list \<Rightarrow> ordering option" where
  "partial_cmp_loop order [] = Some order"
| "partial_cmp_loop Equal ((l, r) # iter) = partial_cmp_loop (VTimestamp_cmp l r) iter"
| "partial_cmp_loop Less ((l, r) # iter) = (if VTimestamp_gt l r then None else partial_cmp_loop Less iter)"
| "partial_cmp_loop Greater ((l, r) # iter) = (if VTimestamp_lt l r then None else partial_cmp_loop Greater iter)"

definition VClock_partial_cmp :: "VClock \<Rightarrow> VClock \<Rightarrow> ordering option" where
  "VClock_partial_cmp self other =
     (let iter = zip self other;
          first = (case iter of [] \<Rightarrow> Equal | (lhs, rhs) # _ \<Rightarrow> VTimestamp_cmp lhs rhs)
      in case partial_cmp_loop first (tl iter) of
           None \<Rightarrow> None
         | Some order \<Rightarrow>
             (if length self = length other then Some order
              else if length self < length other
              then (case order of Less \<Rightarrow> Some Less | Equal \<Rightarrow> Some Less | Greater \<Rightarrow> None)
              else (case order of Greater \<Rightarrow> Some Greater | Equal \<Rightarrow> Some Greater | Less \<Rightarrow> None)))"

fun lt_loop :: "bool \<Rightarrow> (VTimestamp \<times> VTimestamp) list \<Rightarrow> bool" where
  "lt_loop equal [] \<longleftrightarrow> \<not> equal"
| "lt_loop equal ((l, r) # iter) \<longleftrightarrow>
     (if VTimestamp_gt l r then False
      else if VTimestamp_lt l r then lt_loop False iter
      else lt_loop equal iter)"

definition VClock_lt :: "VClock \<Rightarrow> VClock \<Rightarrow> bool" where
  "VClock_lt self other \<longleftrightarrow>
     (if length self \<le> length other then lt_loop (length self = length other) (zip self other) else False)"

definition VClock_le :: "VClock \<Rightarrow> VClock \<Rightarrow> bool" where
  "VClock_le self other \<longleftrightarrow>
     (if length self \<le> length other then \<not> list_ex (\<lambda>(l, r). VTimestamp_gt l r) (zip self other) else False)"

fun gt_loop :: "bool \<Rightarrow> (VTimestamp \<times> VTimestamp) list \<Rightarrow> bool" where
  "gt_loop equal [] \<longleftrightarrow> \<not> equal"
| "gt_loop equal ((l, r) # iter) \<longleftrightarrow>
     (if VTimestamp_lt l r then False
      else if VTimestamp_gt l r then gt_loop False iter
      else gt_loop equal iter)"

definition VClock_gt :: "VClock \<Rightarrow> VClock \<Rightarrow> bool" where
  "VClock_gt self other \<longleftrightarrow>
     (if length self \<ge> length other then gt_loop (length self = length other) (zip self other) else False)"

definition VClock_ge :: "VClock \<Rightarrow> VClock \<Rightarrow> bool" where
  "VClock_ge self other \<longleftrightarrow>
     (if length self \<ge> length other then \<not> list_ex (\<lambda>(l, r). VTimestamp_lt l r) (zip self other) else False)"

section \<open>Invariant and abstraction\<close>

text \<open>The condition of the debug assertion in \<open>as_slice\<close>.\<close>

definition vclock_inv :: "VClock \<Rightarrow> bool" where
  "vclock_inv self \<longleftrightarrow> (self = [] \<or> VTimestamp_time (last self) \<noteq> 0)"

definition stamp_time :: "VTimestamp \<Rightarrow> nat" where
  "stamp_time t = unat (VTimestamp_time t)"

definition clock_time :: "VClock \<Rightarrow> VectorIdx \<Rightarrow> nat" where
  "clock_time self i = stamp_time (VClock_index self i)"

lemma encode_unat:
  fixes time :: "32 word"
  assumes "unat time * 2 < 2 ^ 32" "b = 0 \<or> b = 1"
  shows "unat (b OR time * 2) = unat time * 2 + unat b"
proof -
  have u: "unat (time * 2) = unat time * 2" using assms(1) by (simp add: unat_mult_lem [THEN iffD1])
  have "unat time * 2 + 1 < 2 ^ 32" using assms(1) by simp
  with u have "unat (time * 2 + 1) = unat time * 2 + 1" using unat_add_lem [of "time * 2" 1, THEN iffD1] by simp
  with u assms(2) show ?thesis by (auto simp: one_or_eq)
qed

lemma stamp_fields:
  "stamp_time (VTimestamp w) = unat w div 2" "VTimestamp_read_type (VTimestamp w) = (if even (unat w) then PlainRead else RetagRead)"
  by (simp_all add: stamp_time_def VTimestamp_time_def VTimestamp_read_type_def drop_bit_eq_div unat_div
      and_one_eq unat_arith_simps even_iff_mod_2_eq_zero)

lemma stamp_time_less: "stamp_time t < 2 ^ 31"
proof (cases t)
  case (VTimestamp w)
  have "unat w < 2 ^ LENGTH(32)" by (rule unsigned_less)
  then show ?thesis by (simp add: VTimestamp stamp_fields)
qed

lemma encode_cases:
  "encode_time_and_read_type time rt = (if unat time < 2 ^ 31
     then Ok ((case rt of PlainRead \<Rightarrow> 0 | RetagRead \<Rightarrow> 1) OR time * 2) else Panic)"
  by (simp add: encode_time_and_read_type_def Let_def)

lemma encoded_stamp:
  assumes "unat time < 2 ^ 31"
  shows "stamp_time (VTimestamp ((case rt of PlainRead \<Rightarrow> 0 | RetagRead \<Rightarrow> 1) OR time * 2)) = unat time"
    "VTimestamp_read_type (VTimestamp ((case rt of PlainRead \<Rightarrow> 0 | RetagRead \<Rightarrow> 1) OR time * 2)) = rt"
  using assms encode_unat [of time 0] encode_unat [of time 1] by (cases rt; simp add: stamp_fields)+

text \<open>Encoding fails exactly for times of 32 bits, and a timestamp returns what was stored.\<close>

lemma new_stamp:
  "unat time < 2 ^ 31 \<Longrightarrow> \<exists>t. VTimestamp_new time rt = Ok t \<and> stamp_time t = unat time \<and> VTimestamp_read_type t = rt"
  "\<not> unat time < 2 ^ 31 \<Longrightarrow> VTimestamp_new time rt = Panic"
  by (auto simp: VTimestamp_new_def encode_cases encoded_stamp)

lemma set_time_stamp:
  "unat time < 2 ^ 31 \<Longrightarrow> \<exists>t'. VTimestamp_set_time t time = (Ok t' :: ('e, VTimestamp) outcome) \<and> stamp_time t' = unat time \<and>
     VTimestamp_read_type t' = VTimestamp_read_type t"
  "\<not> unat time < 2 ^ 31 \<Longrightarrow> VTimestamp_set_time t time = Panic"
  by (auto simp: VTimestamp_set_time_def encode_cases encoded_stamp)

lemma set_read_type_stamp:
  "\<exists>t'. VTimestamp_set_read_type t rt = Ok t' \<and> stamp_time t' = stamp_time t \<and> VTimestamp_read_type t' = rt"
proof -
  have "unat (VTimestamp_time t) < 2 ^ 31" using stamp_time_less [of t] by (simp add: stamp_time_def)
  from encoded_stamp [OF this, of rt] this show ?thesis
    by (simp add: VTimestamp_set_read_type_def encode_cases stamp_time_def [of t])
qed

lemma ZERO_new: "VTimestamp_new 0 PlainRead = Ok VTimestamp_ZERO"
  by (simp add: VTimestamp_new_def encode_cases VTimestamp_ZERO_def)

lemma stamp_order [simp]:
  "VTimestamp_gt a b \<longleftrightarrow> stamp_time b < stamp_time a" "VTimestamp_lt a b \<longleftrightarrow> stamp_time a < stamp_time b"
  "VTimestamp_le a b \<longleftrightarrow> stamp_time a \<le> stamp_time b" "VTimestamp_eq a b \<longleftrightarrow> stamp_time a = stamp_time b"
  "stamp_time (VTimestamp_max a b) = max (stamp_time a) (stamp_time b)"
  "stamp_time VTimestamp_ZERO = 0" "VTimestamp_time a = 0 \<longleftrightarrow> stamp_time a = 0"
  by (auto simp: VTimestamp_gt_def VTimestamp_lt_def VTimestamp_le_def VTimestamp_eq_def VTimestamp_max_def VTimestamp_cmp_def
      stamp_time_def word_less_nat_alt word_unat_eq_iff max_def VTimestamp_ZERO_def VTimestamp_time_def)

section \<open>The operations on times\<close>

lemma clock_time_nth: "i < length v \<Longrightarrow> clock_time v i = stamp_time (v ! i)"
  and clock_time_beyond [simp]: "length v \<le> i \<Longrightarrow> clock_time v i = 0"
  by (simp_all add: clock_time_def VClock_index_def)

lemma clock_time_Nil [simp]: "clock_time [] = (\<lambda>_. 0)"
  by (simp add: fun_eq_iff)

lemma vclock_inv_alt: "vclock_inv v \<longleftrightarrow> v = [] \<or> clock_time v (length v - 1) \<noteq> 0"
  by (cases v rule: rev_cases) (simp_all add: vclock_inv_def clock_time_nth)

lemma vclock_inv_Nil [simp]: "vclock_inv []"
  by (simp add: vclock_inv_def)

lemma clock_time_update:
  "i < length v \<Longrightarrow> clock_time (v[i := t]) = (clock_time v)(i := stamp_time t)"
  by (auto simp: fun_eq_iff clock_time_def VClock_index_def nth_list_update)

lemma clock_time_min_len [simp]: "clock_time (get_mut_with_min_len v n) = clock_time v"
  by (auto simp: fun_eq_iff get_mut_with_min_len_def clock_time_def VClock_index_def nth_append)

lemma length_min_len [simp]: "length (get_mut_with_min_len v n) = max (length v) n"
  by (auto simp: get_mut_with_min_len_def)

lemma new_with_index_time: "clock_time (VClock_new_with_index i t) = (\<lambda>_. 0)(i := stamp_time t)"
proof (cases "stamp_time t = 0")
  case False
  have "clock_time (replicate (i + 1) VTimestamp_ZERO) = (\<lambda>_. 0)"
    by (auto simp: fun_eq_iff clock_time_def VClock_index_def simp del: replicate_Suc)
  with False clock_time_update [of i "replicate (i + 1) VTimestamp_ZERO" t] show ?thesis
    by (simp add: VClock_new_with_index_def Let_def)
qed (simp add: VClock_new_with_index_def fun_eq_iff)

lemma new_with_index_inv: "vclock_inv (VClock_new_with_index i t)"
proof (cases "stamp_time t = 0")
  case False
  then have "length (VClock_new_with_index i t) = i + 1" by (simp add: VClock_new_with_index_def Let_def del: replicate_Suc)
  with False show ?thesis by (simp add: vclock_inv_alt new_with_index_time)
qed (simp add: VClock_new_with_index_def)

lemma update_inv:
  assumes "vclock_inv v" "stamp_time t \<noteq> 0 \<or> (i < length v \<and> clock_time v i \<le> stamp_time t)"
  shows "vclock_inv ((get_mut_with_min_len v (i + 1))[i := t])"
proof -
  have "length ((get_mut_with_min_len v (i + 1))[i := t]) = max (length v) (i + 1)" by simp
  moreover have "clock_time ((get_mut_with_min_len v (i + 1))[i := t]) = (clock_time v)(i := stamp_time t)"
    by (simp add: clock_time_update)
  moreover have "clock_time v (length v - 1) \<noteq> 0" if "i + 1 \<le> length v" using assms(1) that by (auto simp: vclock_inv_alt)
  moreover from this have "clock_time v i \<noteq> 0" if "i + 1 = length v"
    using that by (metis add_diff_cancel_right' order_refl)
  ultimately show ?thesis using assms(2) by (cases "i + 1 = length v") (auto simp: vclock_inv_alt max_def split: if_splits)
qed

lemma min_len_nth: "stamp_time (get_mut_with_min_len v (i + 1) ! i) = clock_time v i"
  using clock_time_nth [of i "get_mut_with_min_len v (i + 1)"] by simp

text \<open>An increment fails exactly when the new time does not fit into 31 bits.\<close>

lemma increment_index_time:
  assumes "vclock_inv v"
  shows "clock_time v i + 1 < 2 ^ 31 \<Longrightarrow> \<exists>w. increment_index v i = (Ok w :: ('e, VClock) outcome) \<and> vclock_inv w \<and>
      clock_time w = (clock_time v)(i := clock_time v i + 1)"
    "\<not> clock_time v i + 1 < 2 ^ 31 \<Longrightarrow> increment_index v i = (Panic :: ('e, VClock) outcome)"
proof -
  let ?s = "get_mut_with_min_len v (i + 1)" and ?t = "VTimestamp_time (get_mut_with_min_len v (i + 1) ! i)"
  have t: "unat ?t = clock_time v i" using min_len_nth [of v i] by (simp add: stamp_time_def)
  have lt: "clock_time v i < 2 ^ 31" using stamp_time_less by (simp add: clock_time_def)
  have "unat (?t + 1) = unat ?t + 1"
    using lt t unat_add_lem [of ?t 1, THEN iffD1] by simp
  then have inc: "increment_index v i = obind (VTimestamp_set_time (?s ! i) (?t + 1)) (\<lambda>x. Ok (?s[i := x]) :: ('e, VClock) outcome)" "unat (?t + 1) = clock_time v i + 1"
    using lt t by (simp_all add: increment_index_def Let_def)
  show "increment_index v i = (Panic :: ('e, VClock) outcome)" if "\<not> clock_time v i + 1 < 2 ^ 31"
    using that inc(2) unfolding inc(1) by (subst set_time_stamp(2)) simp_all
  show "\<exists>w. increment_index v i = (Ok w :: ('e, VClock) outcome) \<and> vclock_inv w \<and> clock_time w = (clock_time v)(i := clock_time v i + 1)"
    if small: "clock_time v i + 1 < 2 ^ 31"
  proof -
    obtain x where "VTimestamp_set_time (?s ! i) (?t + 1) = (Ok x :: ('e, _) outcome)" "stamp_time x = clock_time v i + 1"
      using set_time_stamp(1) [of "?t + 1" "?s ! i", where 'e = 'e] inc(2) small by auto
    with inc(1) update_inv [OF assms, of x i] show ?thesis by (simp add: clock_time_update)
  qed
qed

lemma join_length: "length (VClock_join a b) = max (length a) (length b)"
  by (auto simp: VClock_join_def Let_def)

lemma join_time: "clock_time (VClock_join a b) i = max (clock_time a i) (clock_time b i)"
proof (cases "i < length b")
  case True
  then show ?thesis using clock_time_nth [of i "get_mut_with_min_len a (length b)"]
    by (simp add: clock_time_nth join_length) (simp add: VClock_join_def Let_def nth_append max.commute)
next
  case False
  then show ?thesis using clock_time_nth [of i "get_mut_with_min_len a (length b)"]
    by (cases "i < length a") (simp_all add: clock_time_nth join_length, simp add: VClock_join_def Let_def nth_append)
qed

lemma join_inv: "vclock_inv a \<Longrightarrow> vclock_inv b \<Longrightarrow> vclock_inv (VClock_join a b)"
  using join_length [of a b] by (auto simp: vclock_inv_alt join_time max_def)

text \<open>Setting an entry fails exactly when it would decrease.\<close>

lemma set_at_index_time:
  assumes "vclock_inv a"
  shows "clock_time a i \<le> clock_time b i \<Longrightarrow> \<exists>c. set_at_index a b i = (Ok c :: ('e, VClock) outcome) \<and> vclock_inv c \<and>
      clock_time c = (clock_time a)(i := clock_time b i)"
    "\<not> clock_time a i \<le> clock_time b i \<Longrightarrow> set_at_index a b i = (Panic :: ('e, VClock) outcome)"
proof -
  have n: "stamp_time (get_mut_with_min_len a (Suc i) ! i) = clock_time a i" using min_len_nth [of a i] by simp
  have st: "stamp_time (VClock_index b i) = clock_time b i" by (simp add: clock_time_def)
  show "set_at_index a b i = (Panic :: ('e, VClock) outcome)" if "\<not> clock_time a i \<le> clock_time b i"
    using that by (auto simp: set_at_index_def Let_def n st)
  show "\<exists>c. set_at_index a b i = (Ok c :: ('e, VClock) outcome) \<and> vclock_inv c \<and> clock_time c = (clock_time a)(i := clock_time b i)"
    if le: "clock_time a i \<le> clock_time b i"
  proof (cases "clock_time b i = 0 \<and> length a \<le> i")
    case True
    with assms show ?thesis by (auto simp: set_at_index_def st)
  next
    case False
    with le update_inv [OF assms, of "VClock_index b i" i] show ?thesis
      by (auto simp: set_at_index_def Let_def n st clock_time_update)
  qed
qed

lemma index_mut_time:
  assumes "i < length v" "change (v ! i) = Ok t" "stamp_time t = clock_time v i" "vclock_inv v"
  shows "\<exists>w. VClock_index_mut v i change = Ok w \<and> vclock_inv w \<and> clock_time w = clock_time v \<and> length w = length v"
proof -
  have e: "clock_time (v[i := t]) = clock_time v" using assms(1,3) by (simp add: clock_time_update fun_eq_iff)
  with assms(4) have "vclock_inv (v[i := t])" by (auto simp: vclock_inv_alt)
  with e assms(1,2) show ?thesis by (auto simp: VClock_index_mut_def)
qed

section \<open>The comparisons\<close>

abbreviation stamps_le :: "(VTimestamp \<times> VTimestamp) list \<Rightarrow> bool" where
  "stamps_le z \<equiv> list_all (\<lambda>(l, r). stamp_time l \<le> stamp_time r) z"

abbreviation stamps_ge :: "(VTimestamp \<times> VTimestamp) list \<Rightarrow> bool" where
  "stamps_ge z \<equiv> list_all (\<lambda>(l, r). stamp_time r \<le> stamp_time l) z"

lemma partial_cmp_loop_result:
  "partial_cmp_loop order z =
     (case order of
        Less \<Rightarrow> if stamps_le z then Some Less else None
      | Greater \<Rightarrow> if stamps_ge z then Some Greater else None
      | Equal \<Rightarrow> if stamps_le z then if stamps_ge z then Some Equal else Some Less
          else if stamps_ge z then Some Greater else None)"
proof (induction order z rule: partial_cmp_loop.induct)
  case (2 l r iter)
  have "VTimestamp_cmp l r = (if stamp_time l < stamp_time r then Less else if stamp_time l = stamp_time r then Equal else Greater)"
    by (simp add: VTimestamp_cmp_def stamp_time_def word_less_nat_alt word_unat_eq_iff)
  with 2 show ?case by auto
qed (auto split: ordering.splits)

lemma lt_loop_result: "lt_loop equal z \<longleftrightarrow> stamps_le z \<and> (equal \<longrightarrow> \<not> stamps_ge z)"
proof (induction z arbitrary: equal)
  case (Cons x z)
  obtain l r where x: "x = (l, r)" by (cases x)
  show ?case by (cases "stamp_time l" "stamp_time r" rule: linorder_cases) (simp_all add: x Cons.IH)
qed simp

lemma gt_loop_result: "gt_loop equal z \<longleftrightarrow> stamps_ge z \<and> (equal \<longrightarrow> \<not> stamps_le z)"
proof (induction z arbitrary: equal)
  case (Cons x z)
  obtain l r where x: "x = (l, r)" by (cases x)
  show ?case by (cases "stamp_time l" "stamp_time r" rule: linorder_cases) (simp_all add: x Cons.IH)
qed simp

lemma not_any: "(\<not> list_ex (\<lambda>(l, r). P l r) z) = list_all (\<lambda>(l, r). \<not> P l r) z"
  by (induction z) auto

lemma VClock_le_list: "VClock_le a b \<longleftrightarrow> length a \<le> length b \<and> stamps_le (zip a b)"
  by (simp add: VClock_le_def not_any not_less)

lemma stamps_swap: "stamps_ge (zip a b) \<longleftrightarrow> stamps_le (zip b a)"
  by (subst zip_commute) (simp add: list.pred_map comp_def split_def)

lemma compare_by_le:
  "VClock_ge a b \<longleftrightarrow> VClock_le b a"
  "VClock_lt a b \<longleftrightarrow> VClock_le a b \<and> \<not> VClock_le b a"
  "VClock_gt a b \<longleftrightarrow> VClock_le b a \<and> \<not> VClock_le a b"
  "VClock_partial_cmp a b = (if VClock_le a b then if VClock_le b a then Some Equal else Some Less
     else if VClock_le b a then Some Greater else None)"
proof -
  show "VClock_ge a b \<longleftrightarrow> VClock_le b a"
    by (simp add: VClock_le_list stamps_swap [of a b, symmetric]) (simp add: VClock_ge_def not_any not_less)
  show "VClock_lt a b \<longleftrightarrow> VClock_le a b \<and> \<not> VClock_le b a" "VClock_gt a b \<longleftrightarrow> VClock_le b a \<and> \<not> VClock_le a b"
    by (auto simp: VClock_le_list stamps_swap [of a b, symmetric] VClock_lt_def VClock_gt_def lt_loop_result gt_loop_result)
  have first: "partial_cmp_loop (case zip a b of [] \<Rightarrow> Equal | (l, r) # _ \<Rightarrow> VTimestamp_cmp l r) (tl (zip a b)) =
      partial_cmp_loop Equal (zip a b)"
    by (cases "zip a b") (auto split: prod.split)
  show "VClock_partial_cmp a b = (if VClock_le a b then if VClock_le b a then Some Equal else Some Less
      else if VClock_le b a then Some Greater else None)"
    unfolding VClock_partial_cmp_def Let_def unfolding first unfolding partial_cmp_loop_result VClock_le_list stamps_swap [of a b, symmetric]
    by (cases "length a" "length b" rule: linorder_cases) simp_all
qed

lemma VClock_le_time:
  assumes "vclock_inv a"
  shows "VClock_le a b \<longleftrightarrow> clock_time a \<le> clock_time b"
proof
  assume le: "VClock_le a b"
  have "clock_time a i \<le> clock_time b i" for i
  proof (cases "i < length a")
    case True
    with le have "i < length b" "(a ! i, b ! i) \<in> set (zip a b)" by (auto simp: VClock_le_list set_zip)
    with le True show ?thesis by (fastforce simp: VClock_le_list clock_time_nth list_all_iff)
  qed simp
  then show "clock_time a \<le> clock_time b" by (simp add: le_fun_def)
next
  assume le: "clock_time a \<le> clock_time b"
  then have "length a \<le> length b" using assms le_funD [OF le, of "length a - 1"]
    by (cases "length a \<le> length b") (auto simp: vclock_inv_alt)
  moreover from this have "stamps_le (zip a b)"
    using le by (auto simp: list_all_iff in_set_zip le_fun_def) (metis clock_time_nth dual_order.strict_trans1)
  ultimately show "VClock_le a b" by (simp add: VClock_le_list)
qed

lemma VClock_eq_time:
  assumes "vclock_inv a" "vclock_inv b"
  shows "VClock_eq a b \<longleftrightarrow> clock_time a = clock_time b"
proof -
  have "VClock_eq a b \<longleftrightarrow> VClock_le a b \<and> VClock_le b a"
  proof -
    have "(\<forall>(l, r)\<in>set z. stamp_time l = stamp_time r) \<longleftrightarrow> stamps_le z \<and> stamps_ge z" for z
      by (induction z) auto
    then show ?thesis
      unfolding VClock_eq_def VClock_le_list stamps_swap [of a b, symmetric] list_all2_iff stamp_order by auto
  qed
  then show ?thesis using assms by (auto simp: VClock_le_time)
qed

section \<open>The interface of clocks\<close>

text \<open>What the users of clocks rely on: clocks are finite maps from indices to times with a pointwise order,
  and joining takes maxima.\<close>

locale clock_ops =
  fixes inv :: "'c \<Rightarrow> bool"
    and at :: "'c \<Rightarrow> VectorIdx \<Rightarrow> nat"
    and le :: "'c \<Rightarrow> 'c \<Rightarrow> bool"
    and join :: "'c \<Rightarrow> 'c \<Rightarrow> 'c"
  assumes le_at: "inv a \<Longrightarrow> le a b \<longleftrightarrow> (\<forall>i. at a i \<le> at b i)"
    and join_at: "at (join a b) i = max (at a i) (at b i)"
    and join_keeps: "inv a \<Longrightarrow> inv b \<Longrightarrow> inv (join a b)"
begin

lemma le_refl: "inv a \<Longrightarrow> le a a"
  by (simp add: le_at)

lemma le_trans: "inv a \<Longrightarrow> inv b \<Longrightarrow> le a b \<Longrightarrow> le b c \<Longrightarrow> le a c"
  by (metis le_at order_trans)

lemma join_least: "inv a \<Longrightarrow> inv b \<Longrightarrow> le (join a b) c \<longleftrightarrow> le a c \<and> le b c"
  by (auto simp: le_at join_at join_keeps)

lemma join_upper: "inv a \<Longrightarrow> inv b \<Longrightarrow> le a (join a b) \<and> le b (join a b)"
  by (simp add: le_at join_at)

text \<open>Whoever knows an event after a join knew it before from one of the two sides.\<close>

lemma join_knows: "t \<le> at (join a b) i \<longleftrightarrow> t \<le> at a i \<or> t \<le> at b i"
  by (simp add: join_at le_max_iff_disj)

lemma join_below: "(\<And>i. at a i \<le> f i) \<Longrightarrow> (\<And>i. at b i \<le> f i) \<Longrightarrow> at (join a b) i \<le> f i"
  by (simp add: join_at)

end

interpretation vclock: clock_ops vclock_inv clock_time VClock_le VClock_join
  by unfold_locales (simp_all add: VClock_le_time le_fun_def join_time join_inv)

section \<open>Properties\<close>

text \<open>C32: the short-circuiting comparisons of vector clocks decide the pointwise order of the times, and the
  derived equality decides equality of all times, although the slices may have different lengths.\<close>

theorem clock_comparisons_pointwise:
  assumes "vclock_inv a" "vclock_inv b"
  shows "(VClock_le a b \<longleftrightarrow> clock_time a \<le> clock_time b) \<and> (VClock_lt a b \<longleftrightarrow> clock_time a < clock_time b) \<and>
    (VClock_ge a b \<longleftrightarrow> clock_time b \<le> clock_time a) \<and> (VClock_gt a b \<longleftrightarrow> clock_time b < clock_time a) \<and>
    (VClock_eq a b \<longleftrightarrow> clock_time a = clock_time b) \<and>
    VClock_partial_cmp a b = (if clock_time a = clock_time b then Some Equal
      else if clock_time a \<le> clock_time b then Some Less
      else if clock_time b \<le> clock_time a then Some Greater else None)"
  by (auto simp: compare_by_le VClock_le_time VClock_eq_time less_fun_def assms)

theorem clock_comparisons_pointwise_witness:
  "VClock_partial_cmp [VTimestamp 2] [VTimestamp 2, VTimestamp 0, VTimestamp 6] = Some Less \<and>
    clock_time [VTimestamp 2] < clock_time [VTimestamp 2, VTimestamp 0, VTimestamp 6]"
proof -
  have "vclock_inv [VTimestamp 2]" "vclock_inv [VTimestamp 2, VTimestamp 0, VTimestamp 6]"
    "VClock_lt [VTimestamp 2] [VTimestamp 2, VTimestamp 0, VTimestamp 6]"
    "VClock_partial_cmp [VTimestamp 2] [VTimestamp 2, VTimestamp 0, VTimestamp 6] = Some Less" by code_simp+
  with clock_comparisons_pointwise [OF this(1,2)] show ?thesis by blast
qed

text \<open>C33: advancing a clock adds one to a single entry and keeps the invariant of clocks; when the entry has
  reached its last value of 31 bits, and only then, it panics, so that times never wrap around.\<close>

theorem clock_increment_exact:
  assumes "vclock_inv v"
  shows "case (increment_index v i :: ('e, VClock) outcome) of
      Ok w \<Rightarrow> clock_time v i < 2 ^ 31 - 1 \<and> vclock_inv w \<and> clock_time w = (clock_time v)(i := clock_time v i + 1)
    | Panic \<Rightarrow> clock_time v i = 2 ^ 31 - 1
    | _ \<Rightarrow> False"
proof (cases "clock_time v i + 1 < 2 ^ 31")
  case True
  with increment_index_time(1) [OF assms, of i, where 'e = 'e] show ?thesis by auto
next
  case False
  moreover have "clock_time v i < 2 ^ 31" using stamp_time_less by (simp add: clock_time_def)
  ultimately show ?thesis by (simp add: increment_index_time(2) [OF assms])
qed

theorem clock_increment_exact_witness:
  "increment_index [VTimestamp 0, VTimestamp 4294967294] 1 = (Panic :: (unit, VClock) outcome) \<and>
    clock_time [VTimestamp 0, VTimestamp 4294967294] 1 = 2 ^ 31 - 1"
proof -
  have "vclock_inv [VTimestamp 0, VTimestamp 4294967294]"
    "increment_index [VTimestamp 0, VTimestamp 4294967294] 1 = (Panic :: (unit, VClock) outcome)" by code_simp+
  with clock_increment_exact [OF this(1), of 1, where 'e = unit] show ?thesis by simp
qed

end
