(* ===== verification/Race_Cell.thy ===== *)
theory Race_Cell
  imports Vector_Clock
begin

text \<open>
  The race detector's metadata of one memory cell (\<open>src/src/concurrency/data_race.rs\<close>): the clocks of a
  thread, the clocks of a byte, and the checks that an atomic or non-atomic access makes there. A failed
  check stops the interpreter after a report, and the report reads the metadata as the failing operation
  left them, so the error value \<open>DataRace\<close> of the model carries them.
\<close>

section \<open>Orderings and access types\<close>

datatype AtomicRwOrd = RwRelaxed | RwAcquire | RwRelease | RwAcqRel | RwSeqCst
datatype AtomicReadOrd = ReadRelaxed | ReadAcquire | ReadSeqCst
datatype AtomicWriteOrd = WriteRelaxed | WriteRelease | WriteSeqCst
datatype AtomicFenceOrd = FenceAcquire | FenceRelease | FenceAcqRel | FenceSeqCst

datatype AtomicAccessType = Load AtomicReadOrd | Store | Rmw

datatype NaWriteType = Allocate | PlainWrite | RetagWrite | Deallocate

datatype AccessType = NaRead NaReadType | NaWrite NaWriteType | AtomicLoad | AtomicStore | AtomicRmw

fun AccessType_is_atomic :: "AccessType \<Rightarrow> bool" where
  "AccessType_is_atomic AtomicLoad = True"
| "AccessType_is_atomic AtomicStore = True"
| "AccessType_is_atomic AtomicRmw = True"
| "AccessType_is_atomic (NaRead _) = False"
| "AccessType_is_atomic (NaWrite _) = False"

fun AccessType_is_read :: "AccessType \<Rightarrow> bool" where
  "AccessType_is_read AtomicLoad = True"
| "AccessType_is_read (NaRead _) = True"
| "AccessType_is_read (NaWrite _) = False"
| "AccessType_is_read AtomicStore = False"
| "AccessType_is_read AtomicRmw = False"

fun AccessType_is_retag :: "AccessType \<Rightarrow> bool" where
  "AccessType_is_retag (NaRead RetagRead) = True"
| "AccessType_is_retag (NaWrite RetagWrite) = True"
| "AccessType_is_retag _ = False"

section \<open>Clocks of a thread\<close>

record ThreadClockSet =
  clock :: VClock
  fence_acquire :: VClock
  fence_release :: VClock
  write_seqcst :: VClock
  read_seqcst :: VClock

definition ThreadClockSet_default :: ThreadClockSet where
  "ThreadClockSet_default = \<lparr>clock = [], fence_acquire = [], fence_release = [], write_seqcst = [], read_seqcst = []\<rparr>"

definition apply_release_fence :: "ThreadClockSet \<Rightarrow> ThreadClockSet" where
  "apply_release_fence self = self\<lparr>fence_release := VClock_clone_from (fence_release self) (clock self)\<rparr>"

definition apply_acquire_fence :: "ThreadClockSet \<Rightarrow> ThreadClockSet" where
  "apply_acquire_fence self = self\<lparr>clock := VClock_join (clock self) (fence_acquire self)\<rparr>"

definition increment_clock :: "ThreadClockSet \<Rightarrow> VectorIdx \<Rightarrow> ('e, ThreadClockSet) outcome" where
  "increment_clock self index = obind (increment_index (clock self) index) (\<lambda>c. Ok (self\<lparr>clock := c\<rparr>))"

definition join_with :: "ThreadClockSet \<Rightarrow> ThreadClockSet \<Rightarrow> ThreadClockSet" where
  "join_with self other = self\<lparr>clock := VClock_join (clock self) (clock other)\<rparr>"

section \<open>Clocks of a memory cell\<close>

record AtomicMemoryCellClocks =
  read_vector :: VClock
  write_vector :: VClock
  sync_vector :: VClock
  access_size :: "nat option"

record MemoryCellClocks =
  cell_write :: "VectorIdx \<times> VTimestamp"
  cell_write_type :: NaWriteType
  cell_read :: VClock
  atomic_ops :: "AtomicMemoryCellClocks option"

datatype race = DataRace MemoryCellClocks ThreadClockSet

text \<open>The derived equality, by which equal neighbours are merged.\<close>

definition AtomicMemoryCellClocks_eq :: "AtomicMemoryCellClocks \<Rightarrow> AtomicMemoryCellClocks \<Rightarrow> bool" where
  "AtomicMemoryCellClocks_eq a b \<longleftrightarrow>
     VClock_eq (read_vector a) (read_vector b) \<and> VClock_eq (write_vector a) (write_vector b) \<and>
     VClock_eq (sync_vector a) (sync_vector b) \<and> access_size a = access_size b"

definition MemoryCellClocks_eq :: "MemoryCellClocks \<Rightarrow> MemoryCellClocks \<Rightarrow> bool" where
  "MemoryCellClocks_eq a b \<longleftrightarrow>
     fst (cell_write a) = fst (cell_write b) \<and> VTimestamp_eq (snd (cell_write a)) (snd (cell_write b)) \<and>
     cell_write_type a = cell_write_type b \<and> VClock_eq (cell_read a) (cell_read b) \<and>
     rel_option AtomicMemoryCellClocks_eq (atomic_ops a) (atomic_ops b)"

definition AtomicMemoryCellClocks_new :: "nat \<Rightarrow> AtomicMemoryCellClocks" where
  "AtomicMemoryCellClocks_new sz = \<lparr>read_vector = [], write_vector = [], sync_vector = [], access_size = Some sz\<rparr>"

definition MemoryCellClocks_new :: "VTimestamp \<Rightarrow> VectorIdx \<Rightarrow> MemoryCellClocks" where
  "MemoryCellClocks_new alloc alloc_index =
     \<lparr>cell_write = (alloc_index, alloc), cell_write_type = Allocate, cell_read = [], atomic_ops = None\<rparr>"

definition write_was_before :: "MemoryCellClocks \<Rightarrow> VClock \<Rightarrow> bool" where
  "write_was_before self other \<longleftrightarrow> VTimestamp_le (snd (cell_write self)) (VClock_index other (fst (cell_write self)))"

text \<open>\<open>MemoryCellClocks::write\<close>: the clock that the last write stands for.\<close>

definition write_clock :: "MemoryCellClocks \<Rightarrow> VClock" where
  "write_clock self = VClock_new_with_index (fst (cell_write self)) (snd (cell_write self))"

definition atomic_mut_unwrap :: "MemoryCellClocks \<Rightarrow> ('e, AtomicMemoryCellClocks) outcome" where
  "atomic_mut_unwrap self = unwrap (atomic_ops self)"

text \<open>\<open>atomic_access\<close> returns a reference to the atomic clocks of the changed cell.\<close>

definition atomic_access ::
  "MemoryCellClocks \<Rightarrow> ThreadClockSet \<Rightarrow> nat \<Rightarrow> bool \<Rightarrow> (race, MemoryCellClocks \<times> AtomicMemoryCellClocks) outcome" where
  "atomic_access self thread_clocks sz write =
     (case atomic_ops self of
        Some atomic \<Rightarrow>
          if access_size atomic = Some sz then Ok (self, atomic)
          else if VClock_le (read_vector atomic) (clock thread_clocks) \<and> VClock_le (write_vector atomic) (clock thread_clocks)
          then let atomic = atomic\<lparr>access_size := Some sz\<rparr> in Ok (self\<lparr>atomic_ops := Some atomic\<rparr>, atomic)
          else if \<not> write \<and> VClock_le (write_vector atomic) (clock thread_clocks)
          then let atomic = atomic\<lparr>access_size := None\<rparr> in Ok (self\<lparr>atomic_ops := Some atomic\<rparr>, atomic)
          else Err (DataRace self thread_clocks)
      | None \<Rightarrow>
          let atomic = AtomicMemoryCellClocks_new sz in Ok (self\<lparr>atomic_ops := Some atomic\<rparr>, atomic))"

definition atomic_read_detect ::
  "MemoryCellClocks \<Rightarrow> ThreadClockSet \<Rightarrow> VectorIdx \<Rightarrow> nat \<Rightarrow> (race, MemoryCellClocks) outcome" where
  "atomic_read_detect self thread_clocks index sz =
     obind (atomic_access self thread_clocks sz False) (\<lambda>(self, atomic).
     obind (set_at_index (read_vector atomic) (clock thread_clocks) index) (\<lambda>v.
       let self = self\<lparr>atomic_ops := Some (atomic\<lparr>read_vector := v\<rparr>)\<rparr>
       in if write_was_before self (clock thread_clocks) then Ok self else Err (DataRace self thread_clocks)))"

definition atomic_write_detect ::
  "MemoryCellClocks \<Rightarrow> ThreadClockSet \<Rightarrow> VectorIdx \<Rightarrow> nat \<Rightarrow> (race, MemoryCellClocks) outcome" where
  "atomic_write_detect self thread_clocks index sz =
     obind (atomic_access self thread_clocks sz True) (\<lambda>(self, atomic).
     obind (set_at_index (write_vector atomic) (clock thread_clocks) index) (\<lambda>v.
       let self = self\<lparr>atomic_ops := Some (atomic\<lparr>write_vector := v\<rparr>)\<rparr>
       in if write_was_before self (clock thread_clocks) \<and> VClock_le (cell_read self) (clock thread_clocks)
          then Ok self else Err (DataRace self thread_clocks)))"

text \<open>The clock that a load synchronizes with: the one given, or that of the last store to the cell.\<close>

definition load_sync :: "VClock option \<Rightarrow> MemoryCellClocks \<Rightarrow> VClock option" where
  "load_sync sync_clock self =
     (case sync_clock of Some c \<Rightarrow> Some c | None \<Rightarrow> map_option sync_vector (atomic_ops self))"

definition load_acquire ::
  "MemoryCellClocks \<Rightarrow> ThreadClockSet \<Rightarrow> VectorIdx \<Rightarrow> nat \<Rightarrow> VClock option \<Rightarrow> (race, MemoryCellClocks \<times> ThreadClockSet) outcome" where
  "load_acquire self thread_clocks index sz sync_clock =
     obind (atomic_read_detect self thread_clocks index sz) (\<lambda>self.
       Ok (self, case load_sync sync_clock self of
                   Some c \<Rightarrow> thread_clocks\<lparr>clock := VClock_join (clock thread_clocks) c\<rparr>
                 | None \<Rightarrow> thread_clocks))"

definition load_relaxed ::
  "MemoryCellClocks \<Rightarrow> ThreadClockSet \<Rightarrow> VectorIdx \<Rightarrow> nat \<Rightarrow> VClock option \<Rightarrow> (race, MemoryCellClocks \<times> ThreadClockSet) outcome" where
  "load_relaxed self thread_clocks index sz sync_clock =
     obind (atomic_read_detect self thread_clocks index sz) (\<lambda>self.
       Ok (self, case load_sync sync_clock self of
                   Some c \<Rightarrow> thread_clocks\<lparr>fence_acquire := VClock_join (fence_acquire thread_clocks) c\<rparr>
                 | None \<Rightarrow> thread_clocks))"

definition store_release ::
  "MemoryCellClocks \<Rightarrow> ThreadClockSet \<Rightarrow> VectorIdx \<Rightarrow> nat \<Rightarrow> (race, MemoryCellClocks) outcome" where
  "store_release self thread_clocks index sz =
     obind (atomic_write_detect self thread_clocks index sz) (\<lambda>self.
     obind (atomic_mut_unwrap self) (\<lambda>atomic.
       Ok (self\<lparr>atomic_ops := Some (atomic\<lparr>sync_vector := VClock_clone_from (sync_vector atomic) (clock thread_clocks)\<rparr>)\<rparr>)))"

definition store_relaxed ::
  "MemoryCellClocks \<Rightarrow> ThreadClockSet \<Rightarrow> VectorIdx \<Rightarrow> nat \<Rightarrow> (race, MemoryCellClocks) outcome" where
  "store_relaxed self thread_clocks index sz =
     obind (atomic_write_detect self thread_clocks index sz) (\<lambda>self.
     obind (atomic_mut_unwrap self) (\<lambda>atomic.
       Ok (self\<lparr>atomic_ops := Some (atomic\<lparr>sync_vector := VClock_clone_from (sync_vector atomic) (fence_release thread_clocks)\<rparr>)\<rparr>)))"

definition rmw_release ::
  "MemoryCellClocks \<Rightarrow> ThreadClockSet \<Rightarrow> VectorIdx \<Rightarrow> nat \<Rightarrow> (race, MemoryCellClocks) outcome" where
  "rmw_release self thread_clocks index sz =
     obind (atomic_write_detect self thread_clocks index sz) (\<lambda>self.
     obind (atomic_mut_unwrap self) (\<lambda>atomic.
       Ok (self\<lparr>atomic_ops := Some (atomic\<lparr>sync_vector := VClock_join (sync_vector atomic) (clock thread_clocks)\<rparr>)\<rparr>)))"

definition rmw_relaxed ::
  "MemoryCellClocks \<Rightarrow> ThreadClockSet \<Rightarrow> VectorIdx \<Rightarrow> nat \<Rightarrow> (race, MemoryCellClocks) outcome" where
  "rmw_relaxed self thread_clocks index sz =
     obind (atomic_write_detect self thread_clocks index sz) (\<lambda>self.
     obind (atomic_mut_unwrap self) (\<lambda>atomic.
       Ok (self\<lparr>atomic_ops := Some (atomic\<lparr>sync_vector := VClock_join (sync_vector atomic) (fence_release thread_clocks)\<rparr>)\<rparr>)))"

definition non_atomic_read_detect ::
  "MemoryCellClocks \<Rightarrow> ThreadClockSet \<Rightarrow> VectorIdx \<Rightarrow> NaReadType \<Rightarrow> (race, MemoryCellClocks \<times> ThreadClockSet) outcome" where
  "non_atomic_read_detect self thread_clocks index read_type =
     obind (VClock_index_mut (clock thread_clocks) index (\<lambda>t. VTimestamp_set_read_type t read_type)) (\<lambda>c.
       let thread_clocks = thread_clocks\<lparr>clock := c\<rparr>
       in if \<not> write_was_before self (clock thread_clocks) then Err (DataRace self thread_clocks)
          else if \<not> (case atomic_ops self of None \<Rightarrow> True | Some atomic \<Rightarrow> VClock_le (write_vector atomic) (clock thread_clocks))
          then Err (DataRace self thread_clocks)
          else obind (set_at_index (cell_read self) (clock thread_clocks) index) (\<lambda>r.
               Ok (self\<lparr>cell_read := r\<rparr>, thread_clocks)))"

definition non_atomic_write_detect ::
  "MemoryCellClocks \<Rightarrow> ThreadClockSet \<Rightarrow> VectorIdx \<Rightarrow> NaWriteType \<Rightarrow> (race, MemoryCellClocks \<times> ThreadClockSet) outcome" where
  "non_atomic_write_detect self thread_clocks index write_type =
     (if \<not> (write_was_before self (clock thread_clocks) \<and> VClock_le (cell_read self) (clock thread_clocks))
      then Err (DataRace self thread_clocks)
      else if \<not> (case atomic_ops self of None \<Rightarrow> True | Some atomic \<Rightarrow>
                   VClock_le (write_vector atomic) (clock thread_clocks) \<and> VClock_le (read_vector atomic) (clock thread_clocks))
      then Err (DataRace self thread_clocks)
      else Ok (self\<lparr>cell_write := (index, VClock_index (clock thread_clocks) index), cell_write_type := write_type,
                    cell_read := set_zero_vector (cell_read self), atomic_ops := None\<rparr>, thread_clocks))"

end
