(* ===== verification/Race_State.thy ===== *)
theory Race_State
  imports Race_Cell Dedup_Range_Map
begin

text \<open>
  The data race detector (\<open>src/src/concurrency/data_race.rs\<close>): the global state with the clocks of all
  threads, the clocks of an allocation, the clocks of locals without memory, and the hooks that the
  interpreter calls. \<open>Cell\<close> and \<open>RefCell\<close> fields are plain fields of the state that is passed on. What the
  detector asks of the thread manager (the active thread, the number of live threads) and of the memory
  (the allocation and offset of a place, its alignment and mutability) is an argument. Where the code
  iterates over a hash set the order is an argument. Of an error report the model keeps everything but
  the message texts, names and source spans.
\<close>

type_synonym ThreadId = nat

definition MAIN_THREAD :: ThreadId where
  "MAIN_THREAD = 0"

record ThreadExtraState =
  vector_index :: "VectorIdx option"
  termination_vector_clock :: "VClock option"

record GlobalState =
  multi_threaded :: bool
  ongoing_action_data_race_free :: bool
  vector_clocks :: "ThreadClockSet list"
  vector_info :: "ThreadId list"
  thread_info :: "ThreadExtraState list"
  reuse_candidates :: "VectorIdx set"
  last_sc_fence :: VClock
  last_sc_write_per_thread :: VClock
  track_outdated_loads :: bool
  weak_memory :: bool

section \<open>Thread states\<close>

definition ThreadExtraState_default :: ThreadExtraState where
  "ThreadExtraState_default = \<lparr>vector_index = None, termination_vector_clock = None\<rparr>"

definition GlobalState_new :: "bool \<Rightarrow> bool \<Rightarrow> GlobalState" where
  "GlobalState_new track_outdated weak =
     \<lparr>multi_threaded = False, ongoing_action_data_race_free = False, vector_clocks = [ThreadClockSet_default],
      vector_info = [MAIN_THREAD], thread_info = [\<lparr>vector_index = Some 0, termination_vector_clock = None\<rparr>],
      reuse_candidates = {}, last_sc_fence = [], last_sc_write_per_thread = [],
      track_outdated_loads = track_outdated, weak_memory = weak\<rparr>"

definition race_detecting :: "GlobalState \<Rightarrow> bool" where
  "race_detecting self \<longleftrightarrow> multi_threaded self \<and> \<not> ongoing_action_data_race_free self"

definition set_ongoing_action_data_race_free :: "GlobalState \<Rightarrow> bool \<Rightarrow> ('e, GlobalState) outcome" where
  "set_ongoing_action_data_race_free self enable =
     obind (check (ongoing_action_data_race_free self \<noteq> enable)) (\<lambda>_.
     Ok (self\<lparr>ongoing_action_data_race_free := enable\<rparr>))"

definition thread_index :: "GlobalState \<Rightarrow> ThreadId \<Rightarrow> ('e, VectorIdx) outcome" where
  "thread_index self thread = obind (vec_get (thread_info self) thread) (\<lambda>info. unwrap (vector_index info))"

text \<open>\<open>thread_state\<close> and \<open>thread_state_mut\<close>; the latter's reference is written back by \<open>put_clocks\<close>.\<close>

definition thread_state :: "GlobalState \<Rightarrow> ThreadId \<Rightarrow> ('e, VectorIdx \<times> ThreadClockSet) outcome" where
  "thread_state self thread =
     obind (thread_index self thread) (\<lambda>index.
     obind (vec_get (vector_clocks self) index) (\<lambda>clocks.
     Ok (index, clocks)))"

definition put_clocks :: "GlobalState \<Rightarrow> VectorIdx \<Rightarrow> ThreadClockSet \<Rightarrow> GlobalState" where
  "put_clocks self index clocks = self\<lparr>vector_clocks := (vector_clocks self)[index := clocks]\<rparr>"

section \<open>Synchronization\<close>

definition acquire_clock :: "GlobalState \<Rightarrow> VClock \<Rightarrow> ThreadId \<Rightarrow> ('e, GlobalState) outcome" where
  "acquire_clock self c active =
     obind (thread_state self active) (\<lambda>(index, clocks).
     Ok (put_clocks self index (clocks\<lparr>clock := VClock_join (clock clocks) c\<rparr>)))"

text \<open>The callback of \<open>release_clock\<close> receives the clock that is returned here.\<close>

definition release_clock :: "GlobalState \<Rightarrow> ThreadId \<Rightarrow> ('e, GlobalState \<times> VClock) outcome" where
  "release_clock self active =
     obind (thread_state self active) (\<lambda>(index, clocks).
     let r = clock clocks
     in obind (increment_clock clocks index) (\<lambda>clocks.
        Ok (put_clocks self index clocks, r)))"

text \<open>A synchronizing operation changes the clocks of the active thread and some data of its own, and says
  whether the thread's time advances.\<close>

definition maybe_perform_sync_operation ::
  "GlobalState \<Rightarrow> ThreadId \<Rightarrow> (VectorIdx \<Rightarrow> ThreadClockSet \<Rightarrow> ('e, bool \<times> ThreadClockSet \<times> 'x) outcome) \<Rightarrow> 'x \<Rightarrow>
     ('e, GlobalState \<times> 'x) outcome" where
  "maybe_perform_sync_operation self active op x =
     (if multi_threaded self
      then obind (thread_state self active) (\<lambda>(index, clocks).
           obind (op index clocks) (\<lambda>(advance, clocks, x).
             if advance then obind (increment_clock clocks index) (\<lambda>clocks. Ok (put_clocks self index clocks, x))
             else Ok (put_clocks self index clocks, x)))
      else Ok (self, x))"

definition atomic_fence :: "GlobalState \<Rightarrow> ThreadId \<Rightarrow> AtomicFenceOrd \<Rightarrow> ('e, GlobalState) outcome" where
  "atomic_fence self active atomic =
     obind (maybe_perform_sync_operation self active (\<lambda>index clocks.
       let clocks = (if atomic \<noteq> FenceRelease then apply_acquire_fence clocks else clocks);
           (clocks, sc_fence_clock) =
             (if atomic = FenceSeqCst
              then let sc_fence_clock = VClock_join (last_sc_fence self) (clock clocks);
                       clocks = clocks\<lparr>clock := VClock_join (clock clocks) sc_fence_clock\<rparr>;
                       clocks = clocks\<lparr>write_seqcst := VClock_join (write_seqcst clocks) (last_sc_write_per_thread self)\<rparr>
                   in (clocks, sc_fence_clock)
              else (clocks, last_sc_fence self));
           clocks = (if atomic \<noteq> FenceAcquire then apply_release_fence clocks else clocks)
       in Ok (atomic \<noteq> FenceAcquire, clocks, sc_fence_clock)) (last_sc_fence self))
     (\<lambda>(self, sc_fence_clock). Ok (self\<lparr>last_sc_fence := sc_fence_clock\<rparr>))"

definition sc_write :: "GlobalState \<Rightarrow> ThreadId \<Rightarrow> ('e, GlobalState) outcome" where
  "sc_write self active =
     obind (thread_state self active) (\<lambda>(index, clocks).
     obind (set_at_index (last_sc_write_per_thread self) (clock clocks) index) (\<lambda>v.
     Ok (self\<lparr>last_sc_write_per_thread := v\<rparr>)))"

definition sc_read :: "GlobalState \<Rightarrow> ThreadId \<Rightarrow> ('e, GlobalState) outcome" where
  "sc_read self active =
     obind (thread_state self active) (\<lambda>(index, clocks).
     Ok (put_clocks self index (clocks\<lparr>read_seqcst := VClock_join (read_seqcst clocks) (last_sc_fence self)\<rparr>)))"

section \<open>Threads\<close>

text \<open>The loop over the candidates, in the order given.\<close>

fun reuse_loop :: "GlobalState \<Rightarrow> VectorIdx list \<Rightarrow> ('e, VectorIdx option) outcome" where
  "reuse_loop self [] = Ok None"
| "reuse_loop self (candidate # rest) =
     obind (vec_get (vector_clocks self) candidate) (\<lambda>clocks.
       let target_timestamp = VClock_index (clock clocks) candidate
       in if list_all (\<lambda>(clock_idx, clocks).
               VTimestamp_le target_timestamp (VClock_index (clock clocks) candidate) \<or> clock_idx \<in> reuse_candidates self)
             (enumerate 0 (vector_clocks self))
          then Ok (Some candidate)
          else reuse_loop self rest)"

definition find_vector_index_reuse_candidate ::
  "GlobalState \<Rightarrow> VectorIdx list \<Rightarrow> ('e, GlobalState \<times> VectorIdx option) outcome" where
  "find_vector_index_reuse_candidate self order =
     obind (reuse_loop self order) (\<lambda>found.
       case found of
         None \<Rightarrow> Ok (self, None)
       | Some candidate \<Rightarrow>
           obind (check (candidate \<in> reuse_candidates self)) (\<lambda>_.
           Ok (self\<lparr>reuse_candidates := reuse_candidates self - {candidate}\<rparr>, Some candidate)))"

definition ensure_contains_elem :: "'a list \<Rightarrow> nat \<Rightarrow> 'a \<Rightarrow> 'a list" where
  "ensure_contains_elem xs i d = xs @ replicate (i + 1 - length xs) d"

text \<open>Re-using a vector index for the new thread, or adding one.\<close>

definition assign_vector_index ::
  "GlobalState \<Rightarrow> ThreadId \<Rightarrow> VectorIdx option \<Rightarrow> ('e, GlobalState \<times> VectorIdx) outcome" where
  "assign_vector_index self thread reuse =
     (case reuse of
        Some reuse_index \<Rightarrow>
          obind (vec_get (vector_clocks self) reuse_index) (\<lambda>clocks.
          obind (increment_clock clocks reuse_index) (\<lambda>clocks.
          obind (vec_get (vector_info self) reuse_index) (\<lambda>old_thread.
          obind (vec_get (thread_info self) old_thread) (\<lambda>old_info.
          Ok (self\<lparr>vector_clocks := (vector_clocks self)[reuse_index := clocks],
                   vector_info := (vector_info self)[reuse_index := thread],
                   thread_info := (thread_info self)[old_thread := old_info\<lparr>vector_index := None\<rparr>]\<rparr>, reuse_index)))))
      | None \<Rightarrow>
          obind (VectorIdx_new (length (vector_info self))) (\<lambda>index.
          Ok (self\<lparr>vector_info := vector_info self @ [thread]\<rparr>, index)))"

definition thread_created :: "GlobalState \<Rightarrow> ThreadId \<Rightarrow> ThreadId \<Rightarrow> VectorIdx list \<Rightarrow> ('e, GlobalState) outcome" where
  "thread_created self active thread order =
     obind (thread_index self active) (\<lambda>current_index.
     let self = self\<lparr>multi_threaded := True, thread_info := ensure_contains_elem (thread_info self) thread ThreadExtraState_default\<rparr>
     in obind (find_vector_index_reuse_candidate self order) (\<lambda>(self, reuse).
        obind (assign_vector_index self thread reuse) (\<lambda>(self, created_index).
        obind (vec_get (thread_info self) thread) (\<lambda>info.
        let self = self\<lparr>thread_info := (thread_info self)[thread := info\<lparr>vector_index := Some created_index\<rparr>]\<rparr>;
            self = (if created_index = length (vector_clocks self)
                    then self\<lparr>vector_clocks := vector_clocks self @ [ThreadClockSet_default]\<rparr> else self)
        in obind (check (current_index \<noteq> created_index)) (\<lambda>_.
           obind (vec_get (vector_clocks self) current_index) (\<lambda>current.
           obind (vec_get (vector_clocks self) created_index) (\<lambda>created.
           let created = join_with created current
           in obind (increment_clock current current_index) (\<lambda>current.
              obind (increment_clock created created_index) (\<lambda>created.
              Ok (put_clocks (put_clocks self current_index current) created_index created))))))))))"

definition thread_joined :: "GlobalState \<Rightarrow> ThreadId \<Rightarrow> nat \<Rightarrow> ThreadId \<Rightarrow> ('e, GlobalState) outcome" where
  "thread_joined self active live_thread_count joinee =
     obind (vec_get (thread_info self) joinee) (\<lambda>info.
     obind (unwrap (termination_vector_clock info)) (\<lambda>join_clock.
     obind (acquire_clock self join_clock active) (\<lambda>self.
       case vector_index info of
         None \<Rightarrow> Ok self
       | Some current_index \<Rightarrow>
           if live_thread_count = 1
           then obind (vec_get (vector_clocks self) current_index) (\<lambda>current_clock.
                  if list_all (\<lambda>(idx, clocks). VTimestamp_le (VClock_index (clock clocks) idx) (VClock_index (clock current_clock) idx))
                       (enumerate 0 (vector_clocks self))
                  then Ok (self\<lparr>multi_threaded := False\<rparr>)
                  else Ok self)
           else Ok self)))"

definition thread_terminated :: "GlobalState \<Rightarrow> ThreadId \<Rightarrow> ('e, GlobalState) outcome" where
  "thread_terminated self active =
     obind (thread_index self active) (\<lambda>current_index.
     obind (release_clock self active) (\<lambda>(self, termination_clock).
     obind (vec_get (thread_info self) active) (\<lambda>info.
     Ok (self\<lparr>thread_info := (thread_info self)[active := info\<lparr>termination_vector_clock := Some termination_clock\<rparr>],
              reuse_candidates := insert current_index (reuse_candidates self)\<rparr>))))"

section \<open>Race reports\<close>

definition find_gt_index :: "VClock \<Rightarrow> VClock \<Rightarrow> ('e, VectorIdx option) outcome" where
  "find_gt_index l r =
     (case position (\<lambda>(l, r). VTimestamp_gt l r) (zip l r) of
        Some idx \<Rightarrow> obind (VectorIdx_new idx) (\<lambda>i. Ok (Some i))
      | None \<Rightarrow>
          if length l > length r
          then obind (unwrap (position (\<lambda>t. \<not> VTimestamp_eq t VTimestamp_ZERO) (drop (length r) l))) (\<lambda>idx.
               obind (VectorIdx_new (idx + length r)) (\<lambda>i. Ok (Some i)))
          else Ok None)"

record RaceReport =
  involves_non_atomic :: bool
  mixed_size :: bool
  retag_explain :: bool
  other_access :: AccessType
  other_thread :: VectorIdx
  active_thread_idx :: VectorIdx

text \<open>The size checks of \<open>AccessType::description\<close>; the text it builds is left out.\<close>

definition AccessType_description :: "AccessType \<Rightarrow> bool \<Rightarrow> nat option \<Rightarrow> ('e, unit) outcome" where
  "AccessType_description self has_ty sz =
     (if sz = Some 0 then obind (check (self = AtomicLoad)) (\<lambda>_. check (\<not> has_ty)) else Ok ())"

text \<open>The chain of conditions that selects the other access of a race: its type, thread and clock, and its size
  for a race between differently sized accesses. \<open>unordered_atomic\<close> is the condition
  \<open>let Some(atomic) = mem_clocks.atomic() && let Some(idx) = find_gt_index(...)\<close> of two branches.\<close>

definition unordered_atomic ::
  "(AtomicMemoryCellClocks \<Rightarrow> VClock) \<Rightarrow> MemoryCellClocks \<Rightarrow> VClock \<Rightarrow> ('e, (VectorIdx \<times> VClock) option) outcome" where
  "unordered_atomic vector mem_clocks active_clock =
     (case atomic_ops mem_clocks of
        None \<Rightarrow> Ok None
      | Some atomic \<Rightarrow> obind (find_gt_index (vector atomic) active_clock) (\<lambda>found. Ok (map_option (\<lambda>idx. (idx, vector atomic)) found)))"

definition racing_mixed_size ::
  "VClock \<Rightarrow> MemoryCellClocks \<Rightarrow> AccessType \<Rightarrow> nat \<Rightarrow> ('e, AccessType \<times> VectorIdx \<times> VClock \<times> nat option) outcome" where
  "racing_mixed_size active_clock mem_clocks access sz =
     (case atomic_ops mem_clocks of
        None \<Rightarrow> Panic
      | Some atomic \<Rightarrow>
          if AccessType_is_atomic access \<and> access_size atomic \<noteq> Some sz
          then let other_size = Some (case access_size atomic of Some s \<Rightarrow> s | None \<Rightarrow> 0)
               in obind (find_gt_index (write_vector atomic) active_clock) (\<lambda>found.
                  case found of
                    Some idx \<Rightarrow> Ok (AtomicStore, idx, write_vector atomic, other_size)
                  | None \<Rightarrow>
                      obind (find_gt_index (read_vector atomic) active_clock) (\<lambda>found.
                      case found of
                        Some idx \<Rightarrow> Ok (AtomicLoad, idx, read_vector atomic, other_size)
                      | None \<Rightarrow> Panic))
          else Panic)"

definition racing_access ::
  "VClock \<Rightarrow> MemoryCellClocks \<Rightarrow> AccessType \<Rightarrow> nat \<Rightarrow> ('e, AccessType \<times> VectorIdx \<times> VClock \<times> nat option) outcome" where
  "racing_access active_clock mem_clocks access sz =
     obind (if \<not> AccessType_is_atomic access then unordered_atomic write_vector mem_clocks active_clock else Ok None) (\<lambda>found.
     case found of
       Some (idx, c) \<Rightarrow> Ok (AtomicStore, idx, c, None)
     | None \<Rightarrow>
     obind (if \<not> AccessType_is_atomic access \<and> \<not> AccessType_is_read access
            then unordered_atomic read_vector mem_clocks active_clock else Ok None) (\<lambda>found.
     case found of
       Some (idx, c) \<Rightarrow> Ok (AtomicLoad, idx, c, None)
     | None \<Rightarrow>
       if VTimestamp_gt (snd (cell_write mem_clocks)) (VClock_index active_clock (fst (cell_write mem_clocks)))
       then Ok (NaWrite (cell_write_type mem_clocks), fst (cell_write mem_clocks), write_clock mem_clocks, None)
       else obind (if \<not> AccessType_is_read access then find_gt_index (cell_read mem_clocks) active_clock else Ok None) (\<lambda>found.
         case found of
           Some idx \<Rightarrow> Ok (NaRead (VTimestamp_read_type (VClock_index (cell_read mem_clocks) idx)), idx, cell_read mem_clocks, None)
         | None \<Rightarrow> racing_mixed_size active_clock mem_clocks access sz)))"

definition report_data_race ::
  "GlobalState \<Rightarrow> ThreadId \<Rightarrow> MemoryCellClocks \<Rightarrow> AccessType \<Rightarrow> nat \<Rightarrow> bool \<Rightarrow> (RaceReport, 'a) outcome" where
  "report_data_race g active mem_clocks access sz has_ty =
     obind (thread_state g active) (\<lambda>(active_index, active_clocks).
     obind (racing_access (clock active_clocks) mem_clocks access sz) (\<lambda>(other, idx, other_clock, other_size).
     obind (vec_get (vector_info g) active_index) (\<lambda>_.
     obind (vec_get (vector_info g) idx) (\<lambda>_.
     let non_atomic = (\<not> AccessType_is_atomic access \<or> \<not> AccessType_is_atomic other)
     in obind (if other_size \<noteq> None then check (\<not> non_atomic)
               else check (\<not> (AccessType_is_read access \<and> AccessType_is_read other))) (\<lambda>_.
        obind (AccessType_description other False other_size) (\<lambda>_.
        obind (vec_get other_clock idx) (\<lambda>_.
        obind (AccessType_description access has_ty (map_option (\<lambda>_. sz) other_size)) (\<lambda>_.
        obind (vec_get (clock active_clocks) active_index) (\<lambda>_.
        Err \<lparr>involves_non_atomic = non_atomic, mixed_size = (other_size \<noteq> None),
             retag_explain = (AccessType_is_retag access \<or> AccessType_is_retag other),
             other_access = other, other_thread = idx, active_thread_idx = active_index\<rparr>)))))))))"

text \<open>A check that failed is reported with the clocks as the check left them.\<close>

fun report_race ::
  "GlobalState \<Rightarrow> ThreadId \<Rightarrow> VectorIdx \<Rightarrow> AccessType \<Rightarrow> nat \<Rightarrow> bool \<Rightarrow> (race, 'a) outcome \<Rightarrow> (RaceReport, 'a) outcome" where
  "report_race g active index access sz has_ty (Ok x) = Ok x"
| "report_race g active index access sz has_ty (Err (DataRace mem_clocks clocks)) =
     report_data_race (put_clocks g index clocks) active mem_clocks access sz has_ty"
| "report_race g active index access sz has_ty Panic = Panic"
| "report_race g active index access sz has_ty Diverge = Diverge"

section \<open>Allocations\<close>

type_synonym VClockAlloc = "MemoryCellClocks DedupRangeMap"

datatype RaceMemoryKind = KindRust | KindMiri | KindC | KindWinHeap | KindWinLocal | KindMmap | KindSocketAddress | KindKernel
  | KindStack | KindGlobal | KindMachine | KindRuntime | KindExternStatic | KindTls | KindCallerLocation

definition VClockAlloc_new_allocation ::
  "GlobalState \<Rightarrow> ThreadId \<Rightarrow> nat \<Rightarrow> RaceMemoryKind \<Rightarrow> ('e, VClockAlloc) outcome" where
  "VClockAlloc_new_allocation g active len kind =
     obind (if kind \<in> {KindRust, KindMiri, KindC, KindWinHeap, KindWinLocal, KindMmap, KindSocketAddress, KindKernel, KindStack}
            then obind (thread_state g active) (\<lambda>(alloc_index, clocks). Ok (VClock_index (clock clocks) alloc_index, alloc_index))
            else obind (thread_index g MAIN_THREAD) (\<lambda>index. Ok (VTimestamp_ZERO, index)))
     (\<lambda>(alloc_timestamp, alloc_index). Ok (DedupRangeMap_new len (MemoryCellClocks_new alloc_timestamp alloc_index)))"

definition sync_clock :: "VClockAlloc \<Rightarrow> nat \<Rightarrow> nat \<Rightarrow> ('e, VClock) outcome" where
  "sync_clock self start sz =
     obind (DedupRangeMap_iter self start sz) (\<lambda>ranges.
       Ok (fold (\<lambda>(_, mem_clocks) c. case atomic_ops mem_clocks of Some atomic \<Rightarrow> VClock_join c (sync_vector atomic) | None \<Rightarrow> c)
             ranges []))"

definition read_non_atomic ::
  "GlobalState \<Rightarrow> ThreadId \<Rightarrow> bool \<Rightarrow> VClockAlloc \<Rightarrow> nat \<Rightarrow> nat \<Rightarrow> NaReadType \<Rightarrow> bool \<Rightarrow> (RaceReport, GlobalState \<times> VClockAlloc) outcome" where
  "read_non_atomic g active cpu_local self start sz read_type has_ty =
     (if cpu_local \<or> \<not> race_detecting g then Ok (g, self)
      else obind (thread_state g active) (\<lambda>(index, thread_clocks).
           obind (report_race g active index (NaRead read_type) sz has_ty
             (DedupRangeMap_for_each MemoryCellClocks_eq
               (\<lambda>_ mem_clocks clocks. non_atomic_read_detect mem_clocks clocks index read_type) self start sz thread_clocks))
           (\<lambda>(self, thread_clocks). Ok (put_clocks g index thread_clocks, self))))"

definition write_non_atomic ::
  "GlobalState \<Rightarrow> ThreadId \<Rightarrow> bool \<Rightarrow> VClockAlloc \<Rightarrow> nat \<Rightarrow> nat \<Rightarrow> NaWriteType \<Rightarrow> bool \<Rightarrow> (RaceReport, GlobalState \<times> VClockAlloc) outcome" where
  "write_non_atomic g active cpu_local self start sz write_type has_ty =
     (if cpu_local \<or> \<not> race_detecting g then Ok (g, self)
      else obind (thread_state g active) (\<lambda>(index, thread_clocks).
           obind (report_race g active index (NaWrite write_type) sz has_ty
             (DedupRangeMap_for_each MemoryCellClocks_eq
               (\<lambda>_ mem_clocks clocks. non_atomic_write_detect mem_clocks clocks index write_type) self start sz thread_clocks))
           (\<lambda>(self, thread_clocks). Ok (put_clocks g index thread_clocks, self))))"

section \<open>Atomic accesses\<close>

type_synonym cell_op = "MemoryCellClocks \<Rightarrow> ThreadClockSet \<Rightarrow> VectorIdx \<Rightarrow> (race, MemoryCellClocks \<times> ThreadClockSet) outcome"

definition validate_atomic_op ::
  "GlobalState \<Rightarrow> ThreadId \<Rightarrow> VClockAlloc \<Rightarrow> nat \<Rightarrow> nat \<Rightarrow> AccessType \<Rightarrow> cell_op \<Rightarrow> (RaceReport, GlobalState \<times> VClockAlloc) outcome" where
  "validate_atomic_op g active alloc base_offset sz access op =
     obind (check (AccessType_is_atomic access)) (\<lambda>_.
       if \<not> race_detecting g then Ok (g, alloc)
       else maybe_perform_sync_operation g active (\<lambda>index thread_clocks.
              obind (report_race g active index access sz False
                (DedupRangeMap_for_each MemoryCellClocks_eq (\<lambda>_ mem_clocks clocks. op mem_clocks clocks index)
                  alloc base_offset sz thread_clocks))
              (\<lambda>(alloc, thread_clocks). Ok (True, thread_clocks, alloc))) alloc)"

definition load_op :: "AtomicReadOrd \<Rightarrow> nat \<Rightarrow> VClock option \<Rightarrow> cell_op" where
  "load_op atomic sz sync = (\<lambda>memory clocks index.
     if atomic = ReadRelaxed then load_relaxed memory clocks index sz sync
     else load_acquire memory clocks index sz sync)"

definition validate_atomic_load ::
  "GlobalState \<Rightarrow> ThreadId \<Rightarrow> VClockAlloc \<Rightarrow> nat \<Rightarrow> nat \<Rightarrow> AtomicReadOrd \<Rightarrow> VClock option \<Rightarrow> (RaceReport, GlobalState \<times> VClockAlloc) outcome" where
  "validate_atomic_load g active alloc off sz atomic sync = validate_atomic_op g active alloc off sz AtomicLoad (load_op atomic sz sync)"

definition store_op :: "AtomicWriteOrd \<Rightarrow> nat \<Rightarrow> cell_op" where
  "store_op atomic sz = (\<lambda>memory clocks index.
     obind (if atomic = WriteRelaxed then store_relaxed memory clocks index sz else store_release memory clocks index sz)
     (\<lambda>memory. Ok (memory, clocks)))"

definition validate_atomic_store ::
  "GlobalState \<Rightarrow> ThreadId \<Rightarrow> VClockAlloc \<Rightarrow> nat \<Rightarrow> nat \<Rightarrow> AtomicWriteOrd \<Rightarrow> (RaceReport, GlobalState \<times> VClockAlloc) outcome" where
  "validate_atomic_store g active alloc off sz atomic = validate_atomic_op g active alloc off sz AtomicStore (store_op atomic sz)"

definition rmw_op :: "AtomicRwOrd \<Rightarrow> nat \<Rightarrow> cell_op" where
  "rmw_op atomic sz = (\<lambda>memory clocks index.
     let acquire = atomic \<in> {RwAcquire, RwAcqRel, RwSeqCst};
         release = atomic \<in> {RwRelease, RwAcqRel, RwSeqCst}
     in obind (if acquire then load_acquire memory clocks index sz None else load_relaxed memory clocks index sz None)
        (\<lambda>(memory, clocks).
        obind (if release then rmw_release memory clocks index sz else rmw_relaxed memory clocks index sz)
        (\<lambda>memory. Ok (memory, clocks))))"

definition validate_atomic_rmw ::
  "GlobalState \<Rightarrow> ThreadId \<Rightarrow> VClockAlloc \<Rightarrow> nat \<Rightarrow> nat \<Rightarrow> AtomicRwOrd \<Rightarrow> (RaceReport, GlobalState \<times> VClockAlloc) outcome" where
  "validate_atomic_rmw g active alloc off sz atomic = validate_atomic_op g active alloc off sz AtomicRmw (rmw_op atomic sz)"

datatype AtomicAccessError = AlignmentCheckFailed | WriteToReadOnly | LargeLoadOfReadOnly | NonRelaxedLoadOfReadOnly

definition atomic_access_check ::
  "bool \<Rightarrow> bool \<Rightarrow> nat \<Rightarrow> nat \<Rightarrow> AtomicAccessType \<Rightarrow> (AtomicAccessError, unit) outcome" where
  "atomic_access_check aligned read_only sz pointer_size access_type =
     (if \<not> aligned then Err AlignmentCheckFailed
      else if read_only
      then (case access_type of
              Rmw \<Rightarrow> Err WriteToReadOnly
            | Store \<Rightarrow> Err WriteToReadOnly
            | Load ord \<Rightarrow>
                if sz > pointer_size then Err LargeLoadOfReadOnly
                else if ord \<noteq> ReadRelaxed then Err NonRelaxedLoadOfReadOnly
                else Ok ())
      else Ok ())"

section \<open>Locals without memory\<close>

record LocalClocks =
  local_write_stamp :: VTimestamp
  local_write_type :: NaWriteType
  local_read_stamp :: VTimestamp

type_synonym FrameState = "nat \<Rightarrow> LocalClocks option"

definition LocalClocks_default :: LocalClocks where
  "LocalClocks_default = \<lparr>local_write_stamp = VTimestamp_ZERO, local_write_type = Allocate, local_read_stamp = VTimestamp_ZERO\<rparr>"

definition local_write :: "FrameState \<Rightarrow> nat \<Rightarrow> bool \<Rightarrow> GlobalState \<Rightarrow> ThreadId \<Rightarrow> ('e, FrameState) outcome" where
  "local_write self loc storage_live g active =
     (if \<not> race_detecting g then Ok self
      else obind (thread_state g active) (\<lambda>(index, thread_clocks).
           let t = VClock_index (clock thread_clocks) index
           in if storage_live
              then Ok (self(loc \<mapsto> \<lparr>local_write_stamp = t, local_write_type = Allocate, local_read_stamp = VTimestamp_ZERO\<rparr>))
              else let clocks = (case self loc of Some c \<Rightarrow> c | None \<Rightarrow> LocalClocks_default)
                   in Ok (self(loc \<mapsto> clocks\<lparr>local_write_stamp := t, local_write_type := PlainWrite\<rparr>))))"

definition local_read :: "FrameState \<Rightarrow> nat \<Rightarrow> GlobalState \<Rightarrow> ThreadId \<Rightarrow> ('e, FrameState \<times> GlobalState) outcome" where
  "local_read self loc g active =
     (if \<not> race_detecting g then Ok (self, g)
      else obind (thread_state g active) (\<lambda>(index, thread_clocks).
           obind (VClock_index_mut (clock thread_clocks) index (\<lambda>t. VTimestamp_set_read_type t PlainRead)) (\<lambda>c.
           let thread_clocks = thread_clocks\<lparr>clock := c\<rparr>;
               clocks = (case self loc of Some c \<Rightarrow> c | None \<Rightarrow> LocalClocks_default)
           in Ok (self(loc \<mapsto> clocks\<lparr>local_read_stamp := VClock_index (clock thread_clocks) index\<rparr>),
                  put_clocks g index thread_clocks))))"

definition local_moved_to_memory ::
  "FrameState \<Rightarrow> nat \<Rightarrow> VClockAlloc \<Rightarrow> GlobalState \<Rightarrow> ThreadId \<Rightarrow> ('e, FrameState \<times> VClockAlloc) outcome" where
  "local_moved_to_memory self loc alloc g active =
     (if \<not> race_detecting g then Ok (self, alloc)
      else obind (thread_state g active) (\<lambda>(index, _).
           let local_clocks = (case self loc of Some c \<Rightarrow> c | None \<Rightarrow> LocalClocks_default)
           in obind (DedupRangeMap_iter_mut_all (\<lambda>_ mem_clocks u.
                  obind (check (fst (cell_write mem_clocks) = index)) (\<lambda>_.
                  Ok (mem_clocks\<lparr>cell_write := (index, local_write_stamp local_clocks),
                                  cell_write_type := local_write_type local_clocks,
                                  cell_read := VClock_new_with_index index (local_read_stamp local_clocks)\<rparr>, u)))
                alloc ())
              (\<lambda>(alloc, _). Ok (self(loc := None), alloc))))"

end
