(* ===== verification/Weak_Memory.thy ===== *)
theory Weak_Memory
  imports Race_State Range_Object_Map
begin

text \<open>
  Weak memory emulation (\<open>src/src/concurrency/weak_memory.rs\<close>) and the atomic operations of
  \<open>src/src/concurrency/data_race.rs\<close> that use it. The buffer of an atomic object lists its stores in
  modification order, oldest first. A load may return an old store; which one is decided by the random
  number generator of the interpreter, whose choice among \<open>n\<close> candidates is the argument \<open>pick\<close>
  (\<open>IteratorRandom::choose\<close> of the crate rand). The map from threads to the times of their first loads is
  an association list. References to elements of a buffer are positions.

  The interpreter's memory and its operators on values are a parameter of the atomic operations, the record
  \<open>interp\<close>. The operations are those of an interpreter that runs with the race detector on (the other two
  handlers are no detection and GenMC). The notice about outdated loads is left out.
\<close>

definition STORE_BUFFER_LIMIT :: nat where
  "STORE_BUFFER_LIMIT = 128"

record LoadInfo =
  timestamps :: "(VectorIdx \<times> VTimestamp) list"
  sc_loaded :: bool

record 'v StoreElement =
  store_thread :: VectorIdx
  store_timestamp :: VTimestamp
  elem_sync_clock :: VClock
  is_seqcst :: bool
  val :: "'v option"
  load_info :: LoadInfo

type_synonym 'v StoreBuffer = "'v StoreElement list"

type_synonym 'v StoreBufferAlloc = "'v StoreBuffer RangeObjectMap"

datatype LoadRecency = Latest | Outdated

definition LoadInfo_default :: LoadInfo where
  "LoadInfo_default = \<lparr>timestamps = [], sc_loaded = False\<rparr>"

definition StoreBuffer_new :: "'v option \<Rightarrow> 'v StoreBuffer" where
  "StoreBuffer_new init =
     [\<lparr>store_thread = 0, store_timestamp = VTimestamp_ZERO, elem_sync_clock = [], is_seqcst = False, val = init,
       load_info = LoadInfo_default\<rparr>]"

section \<open>Loads and stores of a buffer\<close>

text \<open>\<open>load_impl\<close> keeps only the first time of a thread (\<open>try_insert\<close>).\<close>

definition load_impl :: "'v StoreElement \<Rightarrow> VectorIdx \<Rightarrow> ThreadClockSet \<Rightarrow> bool \<Rightarrow> 'v StoreElement \<times> 'v option" where
  "load_impl self index clocks sc =
     (let info = load_info self;
          info = info\<lparr>sc_loaded := sc_loaded info \<or> sc\<rparr>;
          info = (if index \<in> fst ` set (timestamps info) then info
                  else info\<lparr>timestamps := (index, VClock_index (clock clocks) index) # timestamps info\<rparr>)
      in (self\<lparr>load_info := info\<rparr>, val self))"

definition read_from_last_store :: "'v StoreBuffer \<Rightarrow> GlobalState \<Rightarrow> ThreadId \<Rightarrow> bool \<Rightarrow> ('e, 'v StoreBuffer) outcome" where
  "read_from_last_store self global active sc =
     (if self = [] then Ok self
      else obind (thread_state global active) (\<lambda>(index, clocks).
           Ok (self[length self - 1 := fst (load_impl (last self) index clocks sc)])))"

text \<open>Whether the search stops at an element: the negation of \<open>keep_searching\<close>.\<close>

definition stop_searching :: "bool \<Rightarrow> ThreadClockSet \<Rightarrow> 'v StoreElement \<Rightarrow> bool" where
  "stop_searching sc clocks store_elem \<longleftrightarrow>
     (if VTimestamp_le (store_timestamp store_elem) (VClock_index (clock clocks) (store_thread store_elem)) then True
      else if list_ex (\<lambda>(load_index, load_timestamp). VTimestamp_le load_timestamp (VClock_index (clock clocks) load_index))
                (timestamps (load_info store_elem)) then True
      else if VTimestamp_le (store_timestamp store_elem) (VClock_index (write_seqcst clocks) (store_thread store_elem))
           \<and> is_seqcst store_elem then True
      else if sc \<and> VTimestamp_le (store_timestamp store_elem) (VClock_index (read_seqcst clocks) (store_thread store_elem)) then True
      else if sc \<and> sc_loaded (load_info store_elem) then True
      else False)"

text \<open>The two adaptors of the iterator, over the positions of the buffer from the last one.\<close>

fun take_while_inclusive :: "(nat \<Rightarrow> bool) \<Rightarrow> nat list \<Rightarrow> nat list" where
  "take_while_inclusive stop [] = []"
| "take_while_inclusive stop (i # iter) = i # (if stop i then [] else take_while_inclusive stop iter)"

fun filter_sc :: "(nat \<Rightarrow> bool) \<Rightarrow> bool \<Rightarrow> nat list \<Rightarrow> nat list" where
  "filter_sc marked found_sc [] = []"
| "filter_sc marked found_sc (i # iter) =
     (if marked i then (if \<not> found_sc then i # filter_sc marked True iter else filter_sc marked True iter)
      else i # filter_sc marked found_sc iter)"

definition candidates :: "'v StoreBuffer \<Rightarrow> bool \<Rightarrow> ThreadClockSet \<Rightarrow> nat list" where
  "candidates self sc clocks =
     filter_sc (\<lambda>i. sc \<and> is_seqcst (self ! i)) False
       (take_while_inclusive (\<lambda>i. stop_searching sc clocks (self ! i)) (rev [0..<length self]))"

definition fetch_store :: "(nat \<Rightarrow> nat) \<Rightarrow> 'v StoreBuffer \<Rightarrow> bool \<Rightarrow> ThreadClockSet \<Rightarrow> ('e, nat \<times> LoadRecency) outcome" where
  "fetch_store pick self sc clocks =
     (let cs = candidates self sc clocks
      in obind (check (cs \<noteq> [])) (\<lambda>_.
         obind (vec_get cs (pick (length cs))) (\<lambda>chosen.
         Ok (chosen, if chosen = length self - 1 then Latest else Outdated))))"

text \<open>\<open>validate\<close> is the check of the race detector, which updates its state.\<close>

definition buffered_read ::
  "(nat \<Rightarrow> nat) \<Rightarrow> 'v StoreBuffer \<Rightarrow> GlobalState \<Rightarrow> ThreadId \<Rightarrow> bool \<Rightarrow> (VClock option \<Rightarrow> ('e, GlobalState \<times> VClockAlloc) outcome) \<Rightarrow>
     ('e, GlobalState \<times> VClockAlloc \<times> 'v StoreBuffer \<times> 'v option \<times> LoadRecency) outcome" where
  "buffered_read pick self global active sc validate =
     obind (thread_state global active) (\<lambda>(_, clocks).
     obind (fetch_store pick self sc clocks) (\<lambda>(pos, recency).
     obind (vec_get self pos) (\<lambda>store_elem.
     obind (validate (Some (elem_sync_clock store_elem))) (\<lambda>(global, data_race_clocks).
     obind (thread_state global active) (\<lambda>(index, clocks).
     let (store_elem, loaded) = load_impl store_elem index clocks sc
     in Ok (global, data_race_clocks, self[pos := store_elem], loaded, recency))))))"

definition mark_sc :: "VClock \<Rightarrow> 'v StoreElement \<Rightarrow> 'v StoreElement" where
  "mark_sc thread_clock elem =
     (if VTimestamp_le (store_timestamp elem) (VClock_index thread_clock (store_thread elem)) then elem\<lparr>is_seqcst := True\<rparr>
      else if list_ex (\<lambda>(idx, load_ts). VTimestamp_le load_ts (VClock_index thread_clock idx)) (timestamps (load_info elem))
      then elem\<lparr>is_seqcst := True\<rparr>
      else elem)"

definition store_impl :: "'v StoreBuffer \<Rightarrow> 'v \<Rightarrow> VectorIdx \<Rightarrow> VClock \<Rightarrow> bool \<Rightarrow> VClock \<Rightarrow> 'v StoreBuffer" where
  "store_impl self v index thread_clock sc sync =
     (let store_elem = \<lparr>store_thread = index, store_timestamp = VClock_index thread_clock index, elem_sync_clock = sync,
                        is_seqcst = sc, val = Some v, load_info = LoadInfo_default\<rparr>;
          self = (if length self \<ge> STORE_BUFFER_LIMIT then tl self else self);
          self = self @ [store_elem]
      in if sc then map (mark_sc thread_clock) self else self)"

definition buffered_write ::
  "'v StoreBuffer \<Rightarrow> 'v \<Rightarrow> GlobalState \<Rightarrow> ThreadId \<Rightarrow> bool \<Rightarrow> VClock \<Rightarrow> ('e, 'v StoreBuffer) outcome" where
  "buffered_write self v global active sc sync =
     obind (thread_state global active) (\<lambda>(index, clocks). Ok (store_impl self v index (clock clocks) sc sync))"

section \<open>The buffers of an allocation\<close>

definition StoreBufferAlloc_new_allocation :: "'v StoreBufferAlloc" where
  "StoreBufferAlloc_new_allocation = RangeObjectMap_new"

definition non_atomic_write :: "'v StoreBufferAlloc \<Rightarrow> AllocRange \<Rightarrow> GlobalState \<Rightarrow> ('e, 'v StoreBufferAlloc) outcome" where
  "non_atomic_write buffers rng global =
     (if \<not> ongoing_action_data_race_free global
      then obind (access_type buffers rng) (\<lambda>access.
           case access of
             PerfectlyOverlapping pos \<Rightarrow> remove_from_pos buffers pos
           | ImperfectlyOverlapping a b \<Rightarrow> remove_pos_range buffers a b
           | EmptyAt _ \<Rightarrow> Ok buffers)
      else Ok buffers)"

text \<open>The position of the buffer for a range, if there is one.\<close>

definition get_store_buffer :: "'v StoreBufferAlloc \<Rightarrow> AllocRange \<Rightarrow> ('e, nat option) outcome" where
  "get_store_buffer buffers rng =
     obind (access_type buffers rng) (\<lambda>access.
     case access of PerfectlyOverlapping pos \<Rightarrow> Ok (Some pos) | _ \<Rightarrow> Ok None)"

definition get_or_create_store_buffer_mut ::
  "'v StoreBufferAlloc \<Rightarrow> AllocRange \<Rightarrow> 'v option \<Rightarrow> ('e, 'v StoreBufferAlloc \<times> nat) outcome" where
  "get_or_create_store_buffer_mut buffers rng init =
     obind (access_type buffers rng) (\<lambda>access.
     case access of
       PerfectlyOverlapping pos \<Rightarrow> Ok (buffers, pos)
     | EmptyAt pos \<Rightarrow> obind (insert_at_pos buffers pos rng (StoreBuffer_new init)) (\<lambda>buffers. Ok (buffers, pos))
     | ImperfectlyOverlapping a b \<Rightarrow>
         obind (remove_pos_range buffers a b) (\<lambda>buffers.
         obind (insert_at_pos buffers a rng (StoreBuffer_new init)) (\<lambda>buffers. Ok (buffers, a))))"

text \<open>What an allocation keeps for the race detector (\<open>AllocDataRaceHandler::Vclocks\<close>).\<close>

record 'v RaceAlloc =
  data_race_clocks :: VClockAlloc
  alloc_buffers :: "'v StoreBufferAlloc option"

text \<open>Replacing the buffer at a position: the state of the buffer after a call through its reference.\<close>

definition put_buffer :: "'v StoreBufferAlloc \<Rightarrow> nat \<Rightarrow> 'v StoreBuffer \<Rightarrow> ('e, 'v StoreBufferAlloc) outcome" where
  "put_buffer buffers pos b = RangeObjectMap_index_mut (\<lambda>_. b) buffers pos"

definition buffered_atomic_rmw ::
  "GlobalState \<Rightarrow> ThreadId \<Rightarrow> 'v RaceAlloc \<Rightarrow> AllocRange \<Rightarrow> 'v \<Rightarrow> AtomicRwOrd \<Rightarrow> 'v \<Rightarrow> ('e, GlobalState \<times> 'v RaceAlloc) outcome" where
  "buffered_atomic_rmw global active alloc rng new_val atomic init =
     (case alloc_buffers alloc of
        None \<Rightarrow> Ok (global, alloc)
      | Some buffers \<Rightarrow>
          obind (if atomic = RwSeqCst
                 then obind (sc_read global active) (\<lambda>global. sc_write global active) else Ok global) (\<lambda>global.
          obind (sync_clock (data_race_clocks alloc) (start rng) (bytes rng)) (\<lambda>sync.
          obind (get_or_create_store_buffer_mut buffers rng (Some init)) (\<lambda>(buffers, pos).
          obind (RangeObjectMap_index buffers pos) (\<lambda>buffer.
          obind (read_from_last_store buffer global active (atomic = RwSeqCst)) (\<lambda>buffer.
          obind (buffered_write buffer new_val global active (atomic = RwSeqCst) sync) (\<lambda>buffer.
          obind (put_buffer buffers pos buffer) (\<lambda>buffers.
          Ok (global, alloc\<lparr>alloc_buffers := Some buffers\<rparr>)))))))))"

text \<open>\<open>validate\<close> is called with the state of the detector, in which \<open>sc_read\<close> may have changed the clocks.\<close>

definition buffered_atomic_read ::
  "(nat \<Rightarrow> nat) \<Rightarrow> GlobalState \<Rightarrow> ThreadId \<Rightarrow> 'v RaceAlloc \<Rightarrow> AllocRange \<Rightarrow> AtomicReadOrd \<Rightarrow> 'v \<Rightarrow>
     (GlobalState \<Rightarrow> VClock option \<Rightarrow> ('e, GlobalState \<times> VClockAlloc) outcome) \<Rightarrow>
     ('e, GlobalState \<times> 'v RaceAlloc \<times> 'v option) outcome" where
  "buffered_atomic_read pick global active alloc rng atomic latest_in_mo validate =
     (let fallback = (\<lambda>global.
            obind (validate global None) (\<lambda>(global, clocks). Ok (global, alloc\<lparr>data_race_clocks := clocks\<rparr>, Some latest_in_mo)))
      in case alloc_buffers alloc of
           None \<Rightarrow> fallback global
         | Some buffers \<Rightarrow>
             obind (if atomic = ReadSeqCst then sc_read global active else Ok global) (\<lambda>global.
             obind (get_store_buffer buffers rng) (\<lambda>found.
             case found of
               None \<Rightarrow> fallback global
             | Some pos \<Rightarrow>
                 obind (RangeObjectMap_index buffers pos) (\<lambda>buffer.
                 obind (buffered_read pick buffer global active (atomic = ReadSeqCst) (validate global))
                   (\<lambda>(global, clocks, buffer, loaded, _).
                 obind (put_buffer buffers pos buffer) (\<lambda>buffers.
                 Ok (global, alloc\<lparr>data_race_clocks := clocks, alloc_buffers := Some buffers\<rparr>, loaded)))))))"

definition buffered_atomic_write ::
  "GlobalState \<Rightarrow> ThreadId \<Rightarrow> 'v RaceAlloc \<Rightarrow> AllocRange \<Rightarrow> 'v \<Rightarrow> AtomicWriteOrd \<Rightarrow> 'v option \<Rightarrow>
     ('e, GlobalState \<times> 'v RaceAlloc) outcome" where
  "buffered_atomic_write global active alloc rng v atomic init =
     (case alloc_buffers alloc of
        None \<Rightarrow> Ok (global, alloc)
      | Some buffers \<Rightarrow>
          obind (if atomic = WriteSeqCst then sc_write global active else Ok global) (\<lambda>global.
          obind (sync_clock (data_race_clocks alloc) (start rng) (bytes rng)) (\<lambda>sync.
          obind (get_or_create_store_buffer_mut buffers rng init) (\<lambda>(buffers, pos).
          obind (RangeObjectMap_index buffers pos) (\<lambda>buffer.
          obind (buffered_write buffer v global active (atomic = WriteSeqCst) sync) (\<lambda>buffer.
          obind (put_buffer buffers pos buffer) (\<lambda>buffers.
          Ok (global, alloc\<lparr>alloc_buffers := Some buffers\<rparr>))))))))"

definition perform_read_on_buffered_latest ::
  "GlobalState \<Rightarrow> ThreadId \<Rightarrow> 'v RaceAlloc \<Rightarrow> AllocRange \<Rightarrow> AtomicReadOrd \<Rightarrow> ('e, GlobalState \<times> 'v RaceAlloc) outcome" where
  "perform_read_on_buffered_latest global active alloc rng atomic =
     obind (if atomic = ReadSeqCst then sc_read global active else Ok global) (\<lambda>global.
     case alloc_buffers alloc of
       None \<Rightarrow> Ok (global, alloc)
     | Some buffers \<Rightarrow>
         obind (get_store_buffer buffers rng) (\<lambda>found.
         case found of
           None \<Rightarrow> Ok (global, alloc)
         | Some pos \<Rightarrow>
             obind (RangeObjectMap_index buffers pos) (\<lambda>buffer.
             obind (read_from_last_store buffer global active (atomic = ReadSeqCst)) (\<lambda>buffer.
             obind (put_buffer buffers pos buffer) (\<lambda>buffers.
             Ok (global, alloc\<lparr>alloc_buffers := Some buffers\<rparr>))))))"

section \<open>Atomic operations\<close>

text \<open>What the operations call of the interpreter: reading and writing a place, and the operators on values
  with the conversion of comparisons to Boolean values.\<close>

record ('m, 'v, 'op, 'e) interp =
  read_scalar :: "'m \<Rightarrow> AllocRange \<Rightarrow> ('e, 'v) outcome"
  write_scalar :: "'m \<Rightarrow> AllocRange \<Rightarrow> 'v \<Rightarrow> ('e, 'm) outcome"
  binary_op :: "'op \<Rightarrow> 'v \<Rightarrow> 'v \<Rightarrow> ('e, 'v) outcome"
  unary_not :: "'v \<Rightarrow> ('e, 'v) outcome"
  lt_op :: "'v \<Rightarrow> 'v \<Rightarrow> ('e, bool) outcome"
  eq_op :: "'v \<Rightarrow> 'v \<Rightarrow> ('e, bool) outcome"

record AtomicPlace =
  place_range :: AllocRange
  place_aligned :: bool
  place_read_only :: bool
  place_pointer_size :: nat

datatype 'e AtomicError = AccessError AtomicAccessError | RaceError RaceReport | MemoryError 'e | InvalidUninitBytes

record ('m, 'v) AtomicState =
  global_state :: GlobalState
  race_alloc :: "'v RaceAlloc"
  memory :: 'm

definition place_access_check :: "AtomicPlace \<Rightarrow> AtomicAccessType \<Rightarrow> ('e AtomicError, unit) outcome" where
  "place_access_check place access =
     map_err AccessError (atomic_access_check (place_aligned place) (place_read_only place) (bytes (place_range place))
       (place_pointer_size place) access)"

text \<open>\<open>allow_data_races_ref\<close> and \<open>allow_data_races_mut\<close>\<close>

definition allow_data_races :: "GlobalState \<Rightarrow> ('e, 'a) outcome \<Rightarrow> ('e AtomicError, GlobalState \<times> 'a) outcome" where
  "allow_data_races global oper =
     obind (set_ongoing_action_data_race_free global True) (\<lambda>global.
     obind (map_err MemoryError oper) (\<lambda>x.
     obind (set_ongoing_action_data_race_free global False) (\<lambda>global. Ok (global, x))))"

fun discard_err :: "('e, 'a) outcome \<Rightarrow> ('f, 'a option) outcome" where
  "discard_err (Ok x) = Ok (Some x)"
| "discard_err (Err e) = Ok None"
| "discard_err Panic = Panic"
| "discard_err Diverge = Diverge"

definition read_scalar_atomic ::
  "('m, 'v, 'op, 'e) interp \<Rightarrow> (nat \<Rightarrow> nat) \<Rightarrow> ThreadId \<Rightarrow> ('m, 'v) AtomicState \<Rightarrow> AtomicPlace \<Rightarrow> AtomicReadOrd \<Rightarrow>
     ('e AtomicError, ('m, 'v) AtomicState \<times> 'v) outcome" where
  "read_scalar_atomic ip pick active s place atomic =
     (let rng = place_range place
      in obind (place_access_check place (Load atomic)) (\<lambda>_.
         obind (allow_data_races (global_state s) (read_scalar ip (memory s) rng)) (\<lambda>(global, scalar).
         obind (buffered_atomic_read pick global active (race_alloc s) rng atomic scalar (\<lambda>global sync.
           map_err RaceError
             (validate_atomic_load global active (data_race_clocks (race_alloc s)) (start rng) (bytes rng) atomic sync)))
         (\<lambda>(global, alloc, buffered_scalar).
         case buffered_scalar of
           None \<Rightarrow> Err InvalidUninitBytes
         | Some v \<Rightarrow> Ok (s\<lparr>global_state := global, race_alloc := alloc\<rparr>, v)))))"

definition write_scalar_atomic ::
  "('m, 'v, 'op, 'e) interp \<Rightarrow> ThreadId \<Rightarrow> ('m, 'v) AtomicState \<Rightarrow> 'v \<Rightarrow> AtomicPlace \<Rightarrow> AtomicWriteOrd \<Rightarrow>
     ('e AtomicError, ('m, 'v) AtomicState) outcome" where
  "write_scalar_atomic ip active s v dest atomic =
     (let rng = place_range dest
      in obind (place_access_check dest Store) (\<lambda>_.
         obind (discard_err (read_scalar ip (memory s) rng)) (\<lambda>old_val.
         obind (allow_data_races (global_state s) (write_scalar ip (memory s) rng v)) (\<lambda>(global, m).
         obind (map_err RaceError
           (validate_atomic_store global active (data_race_clocks (race_alloc s)) (start rng) (bytes rng) atomic)) (\<lambda>(global, clocks).
         obind (buffered_atomic_write global active ((race_alloc s)\<lparr>data_race_clocks := clocks\<rparr>) rng v atomic old_val)
         (\<lambda>(global, alloc). Ok \<lparr>global_state = global, race_alloc = alloc, memory = m\<rparr>))))))"

text \<open>The common end of the read-modify-write operations: write the value, then inform the race detector and
  the store buffers.\<close>

definition finish_rmw ::
  "('m, 'v, 'op, 'e) interp \<Rightarrow> ThreadId \<Rightarrow> GlobalState \<Rightarrow> ('m, 'v) AtomicState \<Rightarrow> AllocRange \<Rightarrow> 'v \<Rightarrow> 'v \<Rightarrow> AtomicRwOrd \<Rightarrow>
     ('e AtomicError, ('m, 'v) AtomicState) outcome" where
  "finish_rmw ip active global s rng new old ord =
     obind (allow_data_races global (write_scalar ip (memory s) rng new)) (\<lambda>(global, m).
     obind (map_err RaceError
       (validate_atomic_rmw global active (data_race_clocks (race_alloc s)) (start rng) (bytes rng) ord)) (\<lambda>(global, clocks).
     obind (buffered_atomic_rmw global active ((race_alloc s)\<lparr>data_race_clocks := clocks\<rparr>) rng new ord old)
     (\<lambda>(global, alloc). Ok \<lparr>global_state = global, race_alloc = alloc, memory = m\<rparr>)))"

datatype 'op AtomicRmwOp = MirOp 'op bool | RmwMax | RmwMin

fun rmw_value :: "('m, 'v, 'op, 'e) interp \<Rightarrow> 'op AtomicRmwOp \<Rightarrow> 'v \<Rightarrow> 'v \<Rightarrow> ('e, 'v) outcome" where
  "rmw_value ip (MirOp oper neg) old rhs =
     obind (binary_op ip oper old rhs) (\<lambda>v. if neg then unary_not ip v else Ok v)"
| "rmw_value ip RmwMax old rhs = obind (lt_op ip old rhs) (\<lambda>lt. Ok (if lt then rhs else old))"
| "rmw_value ip RmwMin old rhs = obind (lt_op ip old rhs) (\<lambda>lt. Ok (if lt then old else rhs))"

definition atomic_rmw_op_immediate ::
  "('m, 'v, 'op, 'e) interp \<Rightarrow> ThreadId \<Rightarrow> ('m, 'v) AtomicState \<Rightarrow> AtomicPlace \<Rightarrow> 'v \<Rightarrow> 'op AtomicRmwOp \<Rightarrow> AtomicRwOrd \<Rightarrow>
     ('e AtomicError, ('m, 'v) AtomicState \<times> 'v) outcome" where
  "atomic_rmw_op_immediate ip active s place rhs atomic_op ord =
     (let rng = place_range place
      in obind (place_access_check place Rmw) (\<lambda>_.
         obind (allow_data_races (global_state s) (read_scalar ip (memory s) rng)) (\<lambda>(global, old).
         obind (map_err MemoryError (rmw_value ip atomic_op old rhs)) (\<lambda>v.
         obind (finish_rmw ip active global s rng v old ord) (\<lambda>s. Ok (s, old))))))"

definition atomic_exchange_scalar ::
  "('m, 'v, 'op, 'e) interp \<Rightarrow> ThreadId \<Rightarrow> ('m, 'v) AtomicState \<Rightarrow> AtomicPlace \<Rightarrow> 'v \<Rightarrow> AtomicRwOrd \<Rightarrow>
     ('e AtomicError, ('m, 'v) AtomicState \<times> 'v) outcome" where
  "atomic_exchange_scalar ip active s place new atomic =
     (let rng = place_range place
      in obind (place_access_check place Rmw) (\<lambda>_.
         obind (allow_data_races (global_state s) (read_scalar ip (memory s) rng)) (\<lambda>(global, old).
         obind (finish_rmw ip active global s rng new old atomic) (\<lambda>s. Ok (s, old)))))"

text \<open>\<open>lucky\<close> is the draw that decides whether a weak compare-exchange succeeds.\<close>

definition atomic_compare_exchange_scalar ::
  "('m, 'v, 'op, 'e) interp \<Rightarrow> bool \<Rightarrow> ThreadId \<Rightarrow> ('m, 'v) AtomicState \<Rightarrow> AtomicPlace \<Rightarrow> 'v \<Rightarrow> 'v \<Rightarrow> AtomicRwOrd \<Rightarrow> AtomicReadOrd \<Rightarrow>
     bool \<Rightarrow> ('e AtomicError, ('m, 'v) AtomicState \<times> 'v \<times> bool) outcome" where
  "atomic_compare_exchange_scalar ip lucky active s place expect_old new success fail can_fail_spuriously =
     (let rng = place_range place
      in obind (place_access_check place Rmw) (\<lambda>_.
         obind (allow_data_races (global_state s) (read_scalar ip (memory s) rng)) (\<lambda>(global, old).
         obind (map_err MemoryError (eq_op ip old expect_old)) (\<lambda>eq.
         let cmpxchg_success = (eq \<and> (if can_fail_spuriously then lucky else True))
         in if cmpxchg_success
            then obind (finish_rmw ip active global s rng new old success) (\<lambda>s. Ok (s, old, True))
            else obind (map_err RaceError
                   (validate_atomic_load global active (data_race_clocks (race_alloc s)) (start rng) (bytes rng) fail None)) (\<lambda>(global, clocks).
                 obind (perform_read_on_buffered_latest global active ((race_alloc s)\<lparr>data_race_clocks := clocks\<rparr>) rng fail)
                 (\<lambda>(global, alloc). Ok (s\<lparr>global_state := global, race_alloc := alloc\<rparr>, old, False)))))))"

end
