(* ===== verification/Store_Buffer.thy ===== *)
theory Store_Buffer
  imports Weak_Memory
begin

text \<open>
  Coherence of a store buffer. The log of an atomic object lists its stores and loads, newest first, each load
  with the clock of its thread and the store it returned (a position in modification order). \<open>coherent\<close> says
  that no load goes back in modification order behind a store or load that happened before it, and what
  sequentially consistent loads and read-modify-write operations add to that. \<open>buffer_ok\<close> relates a buffer, which
  forgets old stores and all but the first load of a thread, to the log.
\<close>

section \<open>Logs\<close>

datatype 'v weak_event =
    WStore (w_idx: VectorIdx) (w_time: nat) (w_sc: bool) (w_val: "'v option")
  | WLoad (l_clock: "VectorIdx \<Rightarrow> nat") (l_idx: VectorIdx) (l_time: nat) (l_sc: bool) (l_latest: bool) (l_from: nat) (l_val: "'v option")

text \<open>The stores of a log in modification order.\<close>

primrec stores_of :: "'v weak_event list \<Rightarrow> 'v weak_event list" where
  "stores_of [] = []"
| "stores_of (e # log) = (if is_WStore e then stores_of log @ [e] else stores_of log)"

definition loads_of :: "'v weak_event list \<Rightarrow> 'v weak_event set" where
  "loads_of log = {e \<in> set log. \<not> is_WStore e}"

definition coherent_load :: "'v weak_event list \<Rightarrow> 'v weak_event \<Rightarrow> bool" where
  "coherent_load log l \<longleftrightarrow>
     l_from l < length (stores_of log) \<and> l_val l = w_val (stores_of log ! l_from l) \<and>
     (\<forall>k<length (stores_of log). w_time (stores_of log ! k) \<le> l_clock l (w_idx (stores_of log ! k)) \<longrightarrow> k \<le> l_from l) \<and>
     (\<forall>e\<in>loads_of log. l_time e \<le> l_clock l (l_idx e) \<longrightarrow> l_from e \<le> l_from l) \<and>
     (l_sc l \<longrightarrow> (\<forall>e\<in>loads_of log. l_sc e \<longrightarrow> l_from e \<le> l_from l)) \<and>
     (l_sc l \<and> w_sc (stores_of log ! l_from l) \<longrightarrow> (\<forall>k<length (stores_of log). w_sc (stores_of log ! k) \<longrightarrow> k \<le> l_from l)) \<and>
     (l_latest l \<longrightarrow> l_from l = length (stores_of log) - 1)"

primrec coherent :: "'v weak_event list \<Rightarrow> bool" where
  "coherent [] \<longleftrightarrow> True"
| "coherent (e # log) \<longleftrightarrow> coherent log \<and> (\<not> is_WStore e \<longrightarrow> coherent_load log e)"

lemma coherent_from: "coherent log \<Longrightarrow> e \<in> loads_of log \<Longrightarrow> l_from e < length (stores_of log)"
proof (induction log)
  case (Cons x log)
  then show ?case by (cases "e \<in> loads_of log") (auto simp: loads_of_def coherent_load_def)
qed (simp add: loads_of_def)

lemma loads_of_Cons [simp]: "loads_of (WStore i t sc v # log) = loads_of log"
  "loads_of (WLoad C i t sc lt n v # log) = insert (WLoad C i t sc lt n v) (loads_of log)"
  by (auto simp: loads_of_def)

lemma loads_of_Nil [simp]: "loads_of [] = {}"
  by (simp add: loads_of_def)

section \<open>Buffers and logs\<close>

definition elem_ok :: "'v StoreElement \<Rightarrow> 'v weak_event \<Rightarrow> bool" where
  "elem_ok el w \<longleftrightarrow> store_thread el = w_idx w \<and> stamp_time (store_timestamp el) = w_time w \<and> (w_sc w \<longrightarrow> is_seqcst el) \<and> val el = w_val w"

definition loaded_ok :: "'v StoreElement \<Rightarrow> 'v weak_event \<Rightarrow> bool" where
  "loaded_ok el e \<longleftrightarrow> (\<exists>t. (l_idx e, t) \<in> set (timestamps (load_info el)) \<and> stamp_time t \<le> l_time e) \<and> (l_sc e \<longrightarrow> sc_loaded (load_info el))"

text \<open>The position in modification order of the oldest store that the buffer still has.\<close>

abbreviation forgotten :: "'v StoreBuffer \<Rightarrow> 'v weak_event list \<Rightarrow> nat" where
  "forgotten buf log \<equiv> length (stores_of log) - length buf"

definition buffer_ok :: "(VectorIdx \<Rightarrow> nat) \<Rightarrow> VClock set \<Rightarrow> 'v StoreBuffer \<Rightarrow> 'v weak_event list \<Rightarrow> bool" where
  "buffer_ok own released buf log \<longleftrightarrow>
     buf \<noteq> [] \<and> length buf \<le> STORE_BUFFER_LIMIT \<and> length buf \<le> length (stores_of log) \<and>
     (\<forall>p<length buf. elem_ok (buf ! p) (stores_of log ! (forgotten buf log + p))) \<and>
     (\<forall>e\<in>loads_of log. \<forall>p<length buf. l_from e = forgotten buf log + p \<longrightarrow> loaded_ok (buf ! p) e) \<and>
     (\<forall>el\<in>set buf. elem_sync_clock el \<in> released \<and> (\<forall>(j, t)\<in>set (timestamps (load_info el)). stamp_time t \<le> own j))"

lemma buffer_ok_mono:
  assumes "buffer_ok own released buf log" "own \<le> own'" "released \<subseteq> released'"
  shows "buffer_ok own' released' buf log"
proof -
  have "own j \<le> own' j" for j using assms(2) by (simp add: le_fun_def)
  then have "stamp_time t \<le> own' j" if "stamp_time t \<le> own j" for t j using that order_trans by blast
  with assms(1,3) show ?thesis unfolding buffer_ok_def by fast
qed

lemma buffer_ok_new: "[] \<in> released \<Longrightarrow> buffer_ok own released (StoreBuffer_new init) [WStore 0 0 False init]"
  by (simp add: buffer_ok_def StoreBuffer_new_def STORE_BUFFER_LIMIT_def elem_ok_def LoadInfo_default_def)

section \<open>Choosing a store\<close>

lemma take_while_inclusive_prefix: "\<exists>zs. xs = take_while_inclusive stop xs @ zs"
  by (induction xs) auto

lemma take_while_inclusive_before: "take_while_inclusive stop xs = ys @ i # zs \<Longrightarrow> \<forall>y\<in>set ys. \<not> stop y"
proof (induction xs arbitrary: ys)
  case (Cons x xs)
  then show ?case by (cases ys) (auto split: if_splits)
qed simp

lemma filter_sc_sound:
  "i \<in> set (filter_sc marked found xs) \<Longrightarrow>
    \<exists>ys zs. xs = ys @ i # zs \<and> (marked i \<longrightarrow> \<not> found \<and> (\<forall>y\<in>set ys. \<not> marked y))"
proof (induction xs arbitrary: found)
  case (Cons x xs)
  show ?case
  proof (cases "i = x \<and> (marked x \<longrightarrow> \<not> found)")
    case True
    then show ?thesis by (intro exI [of _ "[]"] exI [of _ xs]) auto
  next
    case False
    with Cons.prems have "i \<in> set (filter_sc marked (found \<or> marked x) xs)" by (auto split: if_splits)
    from Cons.IH [OF this] obtain ys zs where "xs = ys @ i # zs" "marked i \<longrightarrow> \<not> (found \<or> marked x) \<and> (\<forall>y\<in>set ys. \<not> marked y)" by blast
    then show ?thesis by (intro exI [of _ "x # ys"] exI [of _ zs]) auto
  qed
qed simp

lemma filter_sc_first: "xs \<noteq> [] \<Longrightarrow> \<exists>ys. filter_sc marked False xs = hd xs # ys"
  by (cases xs) auto

lemma rev_upt_split: "rev [0..<n] = ys @ i # zs \<Longrightarrow> i < n \<and> set ys = {i<..<n}"
proof -
  assume a: "rev [0..<n] = ys @ i # zs"
  define k where "k = length ys"
  have l: "k < n" using arg_cong [OF a, of length] by (simp add: k_def)
  have "ys = take k (rev [0..<n])" using a by (simp add: k_def)
  also have "\<dots> = rev [n - k..<n]" using l by (simp add: take_rev)
  finally have "set ys = {n - k..<n}" by simp
  moreover have "i = rev [0..<n] ! k" using a by (simp add: k_def)
  then have "i = n - k - 1" using l by (simp add: rev_nth)
  moreover have "{n - k..<n} = {n - k - 1<..<n}" using l by auto
  ultimately show ?thesis using l by simp
qed

lemma candidates_sound:
  assumes "i \<in> set (candidates buf sc tc)"
  shows "i < length buf" "\<And>q. i < q \<Longrightarrow> q < length buf \<Longrightarrow> \<not> stop_searching sc tc (buf ! q)"
    "sc \<Longrightarrow> is_seqcst (buf ! i) \<Longrightarrow> i < q \<Longrightarrow> q < length buf \<Longrightarrow> \<not> is_seqcst (buf ! q)"
proof -
  let ?T = "take_while_inclusive (\<lambda>i. stop_searching sc tc (buf ! i)) (rev [0..<length buf])"
  from filter_sc_sound [OF assms [unfolded candidates_def]] obtain ys zs where T: "?T = ys @ i # zs"
    and m: "sc \<and> is_seqcst (buf ! i) \<longrightarrow> (\<forall>y\<in>set ys. \<not> (sc \<and> is_seqcst (buf ! y)))" by blast
  from take_while_inclusive_prefix [of "rev [0..<length buf]" "\<lambda>i. stop_searching sc tc (buf ! i)"] T
  obtain ws where "rev [0..<length buf] = ys @ i # ws" by auto
  from rev_upt_split [OF this] take_while_inclusive_before [OF T] m
  show "i < length buf" "\<And>q. i < q \<Longrightarrow> q < length buf \<Longrightarrow> \<not> stop_searching sc tc (buf ! q)"
    "sc \<Longrightarrow> is_seqcst (buf ! i) \<Longrightarrow> i < q \<Longrightarrow> q < length buf \<Longrightarrow> \<not> is_seqcst (buf ! q)" by auto
qed

lemma candidates_last:
  assumes "buf \<noteq> []"
  shows "length buf - 1 \<in> set (candidates buf sc tc)"
proof -
  let ?xs = "rev [0..<length buf]"
  have xs: "?xs = (length buf - 1) # rev [0..<length buf - 1]"
    using assms by (cases buf rule: rev_cases) auto
  then have "hd (take_while_inclusive (\<lambda>i. stop_searching sc tc (buf ! i)) ?xs) = length buf - 1"
    "take_while_inclusive (\<lambda>i. stop_searching sc tc (buf ! i)) ?xs \<noteq> []" by simp_all
  with filter_sc_first [of "take_while_inclusive (\<lambda>i. stop_searching sc tc (buf ! i)) ?xs"] show ?thesis
    unfolding candidates_def by (metis list.set_intros(1))
qed

text \<open>The clock of the load knows neither a later store of the buffer nor a load of one.\<close>

lemma not_stop_searching:
  assumes "\<not> stop_searching sc tc el"
  shows "\<not> stamp_time (store_timestamp el) \<le> clock_time (clock tc) (store_thread el)"
    "(j, t) \<in> set (timestamps (load_info el)) \<Longrightarrow> \<not> stamp_time t \<le> clock_time (clock tc) j"
    "sc \<Longrightarrow> \<not> sc_loaded (load_info el)"
  using assms by (auto simp: stop_searching_def clock_time_def list_ex_iff split: if_splits)

lemma fetch_coherent:
  assumes ok: "buffer_ok own released buf log" and coh: "coherent log"
    and pos: "pos \<in> set (candidates buf sc tc)"
  shows "pos < length buf \<and>
    coherent_load log (WLoad (clock_time (clock tc)) i t sc False (forgotten buf log + pos) (val (buf ! pos)))"
proof -
  let ?b = "forgotten buf log" and ?S = "stores_of log" and ?C = "clock_time (clock tc)"
  note cand = candidates_sound [OF pos]
  have len: "length buf \<le> length ?S" and el: "\<And>p. p < length buf \<Longrightarrow> elem_ok (buf ! p) (?S ! (?b + p))"
    and ld: "\<And>e p. e \<in> loads_of log \<Longrightarrow> p < length buf \<Longrightarrow> l_from e = ?b + p \<Longrightarrow> loaded_ok (buf ! p) e"
    using ok unfolding buffer_ok_def by blast+
  text \<open>a position behind the chosen one is that of a buffer element at which the search went on\<close>
  have later: "\<exists>q. k = ?b + q \<and> pos < q \<and> q < length buf" if "?b + pos < k" "k < length ?S" for k
    using that len by (intro exI [of _ "k - ?b"]) auto
  have "k \<le> ?b + pos" if "k < length ?S" "w_time (?S ! k) \<le> ?C (w_idx (?S ! k))" for k
  proof (rule ccontr)
    assume "\<not> k \<le> ?b + pos"
    then have "?b + pos < k" by simp
    from later [OF this that(1)] obtain q where "k = ?b + q" "pos < q" "q < length buf" by blast
    with not_stop_searching(1) [OF cand(2) [of q]] el [of q] that(2) show False unfolding elem_ok_def by metis
  qed
  moreover have from_le: "l_from e \<le> ?b + pos" if e: "e \<in> loads_of log" and "l_time e \<le> ?C (l_idx e) \<or> sc \<and> l_sc e" for e
  proof (rule ccontr)
    assume "\<not> l_from e \<le> ?b + pos"
    then have "?b + pos < l_from e" by simp
    from later [OF this coherent_from [OF coh e]] obtain q where q: "l_from e = ?b + q" "pos < q" "q < length buf" by blast
    with ld [OF e q(3,1)] not_stop_searching(2,3) [OF cand(2) [OF q(2,3)]] that(2) show False
      by (meson le_trans loaded_ok_def)
  qed
  moreover have "k \<le> ?b + pos" if "sc" "w_sc (?S ! (?b + pos))" "k < length ?S" "w_sc (?S ! k)" for k
  proof (rule ccontr)
    assume "\<not> k \<le> ?b + pos"
    then have "?b + pos < k" by simp
    from later [OF this that(3)] obtain q where "k = ?b + q" "pos < q" "q < length buf" by blast
    with cand(3) [OF that(1)] el [of q] el [OF cand(1)] that show False by (auto simp: elem_ok_def)
  qed
  moreover have "val (buf ! pos) = w_val (?S ! (?b + pos))" "?b + pos < length ?S"
    using el [OF cand(1)] cand(1) len by (auto simp: elem_ok_def)
  ultimately show ?thesis using cand(1) unfolding coherent_load_def by auto
qed

text \<open>The most recent store can always be chosen, so the search never fails.\<close>

lemma fetch_store_Ok:
  assumes "buf \<noteq> []" "\<And>n. 0 < n \<Longrightarrow> pick n < n"
  shows "\<exists>pos r. fetch_store pick buf sc tc = Ok (pos, r) \<and> pos \<in> set (candidates buf sc tc)"
proof -
  have "candidates buf sc tc \<noteq> []" using candidates_last [OF assms(1), of sc tc] by auto
  with assms(2) [of "length (candidates buf sc tc)"] show ?thesis by (simp add: fetch_store_def Let_def)
qed

lemma fetch_store_candidate: "fetch_store pick buf sc tc = Ok (pos, r) \<Longrightarrow> pos \<in> set (candidates buf sc tc)"
  unfolding fetch_store_def Let_def vec_get_def by (auto simp: outcome_eqs simp del: nth_mem intro: nth_mem split: if_splits) (metis nth_mem)+

lemma latest_coherent:
  assumes ok: "buffer_ok own released buf log" and coh: "coherent log"
  shows "coherent_load log (WLoad C i t sc True (length (stores_of log) - 1) (val (last buf)))"
proof -
  have len: "buf \<noteq> []" "length buf \<le> length (stores_of log)" and el: "elem_ok (buf ! (length buf - 1)) (stores_of log ! (forgotten buf log + (length buf - 1)))"
    using ok by (auto simp: buffer_ok_def)
  moreover have "forgotten buf log + (length buf - 1) = length (stores_of log) - 1" using len by (cases buf) auto
  moreover have "l_from e \<le> length (stores_of log) - 1" if "e \<in> loads_of log" for e using coherent_from [OF coh that] by simp
  ultimately show ?thesis unfolding coherent_load_def by (cases buf rule: rev_cases) (auto simp: elem_ok_def)
qed

section \<open>Updates\<close>

lemma load_impl_ok:
  assumes ok: "buffer_ok own released buf log" and pos: "pos < length buf" and t: "clock_time (clock tc) i = own i"
  shows "buffer_ok own released (buf[pos := fst (load_impl (buf ! pos) i tc sc)]) (WLoad C i (own i) sc lt (forgotten buf log + pos) v # log)"
proof -
  let ?el = "fst (load_impl (buf ! pos) i tc sc)" and ?e = "WLoad C i (own i) sc lt (forgotten buf log + pos) v"
  have fields: "store_thread ?el = store_thread (buf ! pos)" "store_timestamp ?el = store_timestamp (buf ! pos)"
    "elem_sync_clock ?el = elem_sync_clock (buf ! pos)" "is_seqcst ?el = is_seqcst (buf ! pos)" "val ?el = val (buf ! pos)"
    "sc_loaded (load_info ?el) \<longleftrightarrow> sc_loaded (load_info (buf ! pos)) \<or> sc"
    "set (timestamps (load_info (buf ! pos))) \<subseteq> set (timestamps (load_info ?el))"
    by (auto simp: load_impl_def Let_def)
  have st: "stamp_time (VClock_index (clock tc) i) = own i" using t by (simp add: clock_time_def)
  have entry: "\<exists>u. (i, u) \<in> set (timestamps (load_info ?el)) \<and> stamp_time u \<le> own i"
  proof (cases "i \<in> fst ` set (timestamps (load_info (buf ! pos)))")
    case True
    then obtain u where "(i, u) \<in> set (timestamps (load_info (buf ! pos)))" by auto
    moreover from this have "stamp_time u \<le> own i" using ok pos by (fastforce simp: buffer_ok_def)
    ultimately show ?thesis using fields(7) by blast
  next
    case False
    then show ?thesis using st by (auto simp: load_impl_def Let_def)
  qed
  have old: "loaded_ok ?el e" if "loaded_ok (buf ! pos) e" for e using that fields(6,7) unfolding loaded_ok_def by blast
  have new: "loaded_ok ?el ?e" using entry fields(6) unfolding loaded_ok_def weak_event.sel by blast
  have times: "stamp_time u \<le> own j" if "(j, u) \<in> set (timestamps (load_info ?el))" for j u
    using that st ok pos by (fastforce simp: load_impl_def Let_def buffer_ok_def split: if_splits)
  have sets: "elem_sync_clock el \<in> released \<and> (\<forall>(j, t)\<in>set (timestamps (load_info el)). stamp_time t \<le> own j)"
    if "el \<in> set (buf[pos := ?el])" for el
    using that set_update_subset_insert [of buf pos ?el] times fields(3) ok pos by (fastforce simp: buffer_ok_def)
  have "elem_ok ?el w = elem_ok (buf ! pos) w" for w by (simp add: elem_ok_def fields)
  with ok old new sets pos show ?thesis unfolding buffer_ok_def
    by (auto simp: nth_list_update)
qed

lemma mark_sc_fields [simp]:
  "store_thread (mark_sc c el) = store_thread el" "store_timestamp (mark_sc c el) = store_timestamp el"
  "elem_sync_clock (mark_sc c el) = elem_sync_clock el" "val (mark_sc c el) = val el" "load_info (mark_sc c el) = load_info el"
  "is_seqcst el \<Longrightarrow> is_seqcst (mark_sc c el)"
  by (simp_all add: mark_sc_def)

lemma buffer_ok_mark: "buffer_ok own released buf log \<Longrightarrow> buffer_ok own released (map (mark_sc c) buf) log"
  by (auto simp: buffer_ok_def elem_ok_def loaded_ok_def)

lemma buffer_ok_drop:
  assumes "buffer_ok own released buf log" "2 \<le> length buf"
  shows "buffer_ok own released (tl buf) log"
proof -
  have ok: "length buf \<le> STORE_BUFFER_LIMIT" "length buf \<le> length (stores_of log)"
    "\<And>p. p < length buf \<Longrightarrow> elem_ok (buf ! p) (stores_of log ! (forgotten buf log + p))"
    "\<And>e p. e \<in> loads_of log \<Longrightarrow> p < length buf \<Longrightarrow> l_from e = forgotten buf log + p \<Longrightarrow> loaded_ok (buf ! p) e"
    "\<And>el. el \<in> set buf \<Longrightarrow> elem_sync_clock el \<in> released \<and> (\<forall>(j, t)\<in>set (timestamps (load_info el)). stamp_time t \<le> own j)"
    using assms(1) unfolding buffer_ok_def by blast+
  have f: "forgotten (tl buf) log + p = forgotten buf log + Suc p" for p using assms(2) ok(2) by (cases buf) auto
  have n: "tl buf ! p = buf ! Suc p" "Suc p < length buf" if "p < length (tl buf)" for p using that by (auto simp: nth_tl)
  have sub: "set (tl buf) \<subseteq> set buf" by (cases buf) auto
  show ?thesis unfolding buffer_ok_def f
  proof (intro conjI ballI allI impI)
    show "tl buf \<noteq> []" using assms(2) by (cases buf) auto
    show "elem_ok (tl buf ! p) (stores_of log ! (forgotten buf log + Suc p))" if "p < length (tl buf)" for p
      using ok(3) [OF n(2) [OF that]] unfolding n(1) [OF that] .
    show "loaded_ok (tl buf ! p) e" if "e \<in> loads_of log" "p < length (tl buf)" "l_from e = forgotten buf log + Suc p" for e p
      using n [OF that(2)] ok(4) [OF that(1)] that(3) by metis
    fix el
    assume "el \<in> set (tl buf)"
    then have "el \<in> set buf" using sub by blast
    note ok(5) [OF this]
    then show "elem_sync_clock el \<in> released" "\<And>x. x \<in> set (timestamps (load_info el)) \<Longrightarrow> case x of (j, t) \<Rightarrow> stamp_time t \<le> own j" by blast+
  qed (use ok(1,2) in auto)
qed

lemma buffer_ok_push:
  assumes "buffer_ok own released buf log" "coherent log" "length buf < STORE_BUFFER_LIMIT" "sync \<in> released"
  shows "buffer_ok own released (buf @ [\<lparr>store_thread = i, store_timestamp = t, elem_sync_clock = sync, is_seqcst = sc, val = v,
      load_info = LoadInfo_default\<rparr>]) (WStore i (stamp_time t) sc v # log)"
proof -
  have "l_from e < length (stores_of log)" if "e \<in> loads_of log" for e using coherent_from [OF assms(2) that] .
  with assms show ?thesis
    by (auto simp: buffer_ok_def nth_append elem_ok_def LoadInfo_default_def) force+
qed

lemma store_impl_ok:
  assumes "buffer_ok own released buf log" "coherent log" "sync \<in> released"
  shows "buffer_ok own released (store_impl buf v i c sc sync) (WStore i (clock_time c i) sc (Some v) # log)"
proof -
  let ?buf = "if length buf \<ge> STORE_BUFFER_LIMIT then tl buf else buf"
  have b: "buffer_ok own released ?buf log" "length ?buf < STORE_BUFFER_LIMIT"
    using assms(1) buffer_ok_drop [OF assms(1)] by (auto simp: buffer_ok_def STORE_BUFFER_LIMIT_def)
  let ?new = "\<lparr>store_thread = i, store_timestamp = VClock_index c i, elem_sync_clock = sync, is_seqcst = sc, val = Some v,
    load_info = LoadInfo_default\<rparr>"
  have impl: "store_impl buf v i c sc sync = (if sc then map (mark_sc c) (?buf @ [?new]) else ?buf @ [?new])"
    by (simp only: store_impl_def Let_def)
  note push = buffer_ok_push [OF b(1) assms(2) b(2) assms(3), of i "VClock_index c i" sc "Some v"]
  show ?thesis unfolding impl clock_time_def
  proof (cases sc)
    case True
    show "buffer_ok own released (if sc then map (mark_sc c) (?buf @ [?new]) else ?buf @ [?new]) (WStore i (stamp_time (VClock_index c i)) sc (Some v) # log)"
      unfolding if_P [OF True] by (rule buffer_ok_mark [OF push])
  next
    case False
    show "buffer_ok own released (if sc then map (mark_sc c) (?buf @ [?new]) else ?buf @ [?new]) (WStore i (stamp_time (VClock_index c i)) sc (Some v) # log)"
      unfolding if_not_P [OF False] by (rule push)
  qed
qed

lemma store_impl_last: "val (last (store_impl buf v i c sc sync)) = Some v"
  by (simp add: store_impl_def Let_def last_map)

end
