(* ===== verification/Race_History.thy ===== *)
theory Race_History
  imports Race_State
begin

text \<open>
  A reference for the checks of the race detector. A history lists all accesses that a byte has seen,
  newest first, with the index and time of the accessing thread; the metadata of a memory cell are a
  summary of it that keeps only the last non-atomic write and the latest accesses since. The lemmas show
  what every check and update of a cell means for the history it stands for. \<open>closed\<close> is the property of
  clocks that makes the summary enough: whoever knows a non-atomic write knows everything before it.
\<close>

section \<open>Histories\<close>

datatype access_mode = NaR | NaW | AtR | AtW

datatype mem_event = Event (ev_mode: access_mode) (ev_idx: VectorIdx) (ev_time: nat)

type_synonym history = "mem_event list"

abbreviation before :: "(VectorIdx \<Rightarrow> nat) \<Rightarrow> mem_event \<Rightarrow> bool" where
  "before C e \<equiv> ev_time e \<le> C (ev_idx e)"

primrec latest :: "access_mode \<Rightarrow> history \<Rightarrow> VectorIdx \<Rightarrow> nat" where
  "latest m [] j = 0"
| "latest m (e # h) j = (if ev_mode e = m \<and> ev_idx e = j then max (ev_time e) (latest m h j) else latest m h j)"

primrec closed :: "(VectorIdx \<Rightarrow> nat) \<Rightarrow> history \<Rightarrow> bool" where
  "closed C [] \<longleftrightarrow> True"
| "closed C (e # h) \<longleftrightarrow> closed C h \<and> (ev_mode e = NaW \<and> 0 < ev_time e \<and> before C e \<longrightarrow> (\<forall>f\<in>set h. before C f))"

text \<open>All recorded times have been reached by their threads, and only the oldest access, the allocation, may
  have time zero.\<close>

definition hist_ok :: "(VectorIdx \<Rightarrow> nat) \<Rightarrow> nat \<Rightarrow> history \<Rightarrow> bool" where
  "hist_ok own n h \<longleftrightarrow> (\<forall>e\<in>set h. ev_idx e < n \<and> before own e) \<and> (\<forall>e\<in>set (butlast h). 0 < ev_time e)"

lemma latest_le: "(\<forall>j. latest m h j \<le> C j) \<longleftrightarrow> (\<forall>e\<in>set h. ev_mode e = m \<longrightarrow> before C e)"
proof (induction h)
  case (Cons e h)
  have "(\<forall>j. latest m (e # h) j \<le> C j) \<longleftrightarrow> (ev_mode e = m \<longrightarrow> before C e) \<and> (\<forall>j. latest m h j \<le> C j)" by auto
  with Cons show ?case by simp
qed simp

lemma latest_hist_ok: "hist_ok own n h \<Longrightarrow> set g \<subseteq> set h \<Longrightarrow> latest m g j \<le> own j"
  using latest_le [of m g own] by (auto simp: hist_ok_def)

lemma latest_Event: "latest m (Event m' i t # h) = (if m = m' then (latest m h)(i := max t (latest m h i)) else latest m h)"
  by (auto simp: fun_eq_iff)

lemma closed_zero [simp]: "closed (\<lambda>_. 0) h"
  by (induction h) auto

lemma closed_join: "closed C h \<Longrightarrow> closed D h \<Longrightarrow> closed (\<lambda>i. max (C i) (D i)) h"
  by (induction h) (auto simp: le_max_iff_disj)

lemma closed_raise:
  "closed C h \<Longrightarrow> (\<And>e. e \<in> set h \<Longrightarrow> ev_idx e = i \<Longrightarrow> ev_time e \<le> C i) \<Longrightarrow> C i \<le> t \<Longrightarrow> closed (C(i := t)) h"
proof (induction h)
  case (Cons e h)
  have "before C e" if "before (C(i := t)) e" using that Cons.prems(2) [of e] by (cases "ev_idx e = i") auto
  moreover have "before (C(i := t)) f" if "before C f" for f using that Cons.prems(3) by (cases "ev_idx f = i") auto
  moreover have "closed (C(i := t)) h" by (rule Cons.IH) (use Cons.prems in auto)
  ultimately show ?case using Cons.prems(1) unfolding closed.simps by blast
qed simp

lemma closed_append: "closed C (g @ h) \<Longrightarrow> closed C h"
  by (induction g) simp_all

lemma closed_split:
  assumes "closed C (since @ w # old)" "ev_mode w = NaW" "before C w" "hist_ok own n (since @ w # old)"
  shows "\<forall>e\<in>set old. before C e"
proof (cases "old = []")
  case False
  then have "w \<in> set (butlast (since @ w # old))" by (simp add: butlast_append)
  then have "0 < ev_time w" using assms(4) by (simp add: hist_ok_def)
  moreover have "closed C (w # old)" by (rule closed_append [OF assms(1)])
  ultimately show ?thesis using assms(2,3) unfolding closed.simps by blast
qed simp

lemma hist_ok_mono: "hist_ok own n h \<Longrightarrow> own \<le> own' \<Longrightarrow> n \<le> n' \<Longrightarrow> hist_ok own' n' h"
  unfolding hist_ok_def le_fun_def by (meson order_trans less_le_trans)

lemma hist_ok_Cons: "hist_ok own n h \<Longrightarrow> i < n \<Longrightarrow> 0 < t \<Longrightarrow> t \<le> own i \<Longrightarrow> hist_ok own n (Event m i t # h)"
  by (auto simp: hist_ok_def)

section \<open>Cells as summaries\<close>

definition cell_clocks_ok :: "MemoryCellClocks \<Rightarrow> bool" where
  "cell_clocks_ok cell \<longleftrightarrow> vclock_inv (cell_read cell) \<and>
     (\<forall>a. atomic_ops cell = Some a \<longrightarrow> vclock_inv (read_vector a) \<and> vclock_inv (write_vector a) \<and> vclock_inv (sync_vector a))"

definition atomic_times :: "(AtomicMemoryCellClocks \<Rightarrow> VClock) \<Rightarrow> MemoryCellClocks \<Rightarrow> VectorIdx \<Rightarrow> nat" where
  "atomic_times vector cell = (case atomic_ops cell of None \<Rightarrow> (\<lambda>_. 0) | Some a \<Rightarrow> clock_time (vector a))"

definition cell_rel :: "MemoryCellClocks \<Rightarrow> history \<Rightarrow> bool" where
  "cell_rel cell h \<longleftrightarrow> (\<exists>since w old. h = since @ w # old \<and> ev_mode w = NaW \<and> (\<forall>e\<in>set since. ev_mode e \<noteq> NaW) \<and>
     fst (cell_write cell) = ev_idx w \<and> stamp_time (snd (cell_write cell)) = ev_time w \<and>
     clock_time (cell_read cell) = latest NaR since \<and>
     atomic_times read_vector cell = latest AtR since \<and> atomic_times write_vector cell = latest AtW since)"

lemma cell_relE:
  assumes "cell_rel cell h"
  obtains since w old where "h = since @ w # old" "ev_mode w = NaW" "\<forall>e\<in>set since. ev_mode e \<noteq> NaW"
    "fst (cell_write cell) = ev_idx w" "stamp_time (snd (cell_write cell)) = ev_time w"
    "clock_time (cell_read cell) = latest NaR since"
    "atomic_times read_vector cell = latest AtR since" "atomic_times write_vector cell = latest AtW since"
  using assms unfolding cell_rel_def by blast

lemma MemoryCellClocks_eq_times:
  assumes "MemoryCellClocks_eq a b" "cell_clocks_ok a" "cell_clocks_ok b"
  shows "fst (cell_write a) = fst (cell_write b)" "stamp_time (snd (cell_write a)) = stamp_time (snd (cell_write b))"
    "clock_time (cell_read a) = clock_time (cell_read b)"
    "atomic_times read_vector a = atomic_times read_vector b" "atomic_times write_vector a = atomic_times write_vector b"
  using assms by (auto simp: MemoryCellClocks_eq_def cell_clocks_ok_def VClock_eq_time atomic_times_def
      AtomicMemoryCellClocks_eq_def option_rel_Some1 option_rel_Some2 split: option.splits)

lemma cell_rel_eq:
  assumes "cell_rel a h" "MemoryCellClocks_eq a b" "cell_clocks_ok a" "cell_clocks_ok b"
  shows "cell_rel b h"
  using assms(1) MemoryCellClocks_eq_times [OF assms(2-4)] unfolding cell_rel_def by simp

lemma MemoryCellClocks_eq_equivp: "equivp MemoryCellClocks_eq"
proof -
  have st: "VTimestamp_eq = (\<lambda>a b. stamp_time a = stamp_time b)" by (simp add: fun_eq_iff)
  have v: "equivp VClock_eq"
  proof (rule equivpI)
    show "reflp VClock_eq" by (auto simp: reflp_def VClock_eq_def st list_all2_refl)
    show "symp VClock_eq" by (auto simp: symp_def VClock_eq_def st list_all2_conv_all_nth)
    show "transp VClock_eq" by (auto simp: transp_def VClock_eq_def st list_all2_conv_all_nth)
  qed
  have a: "equivp AtomicMemoryCellClocks_eq"
  proof (rule equivpI)
    show "reflp AtomicMemoryCellClocks_eq" by (simp add: reflp_def AtomicMemoryCellClocks_eq_def equivp_reflp [OF v])
    show "symp AtomicMemoryCellClocks_eq" by (auto simp: symp_def AtomicMemoryCellClocks_eq_def intro: equivp_symp [OF v])
    show "transp AtomicMemoryCellClocks_eq"
      unfolding transp_def AtomicMemoryCellClocks_eq_def using equivp_transp [OF v] by metis
  qed
  have o: "equivp (rel_option AtomicMemoryCellClocks_eq)"
    using a by (intro equivpI option.rel_reflp option.rel_symp option.rel_transp) (auto elim: equivpE)
  show ?thesis
  proof (rule equivpI)
    show "reflp MemoryCellClocks_eq" by (simp add: reflp_def MemoryCellClocks_eq_def equivp_reflp [OF v] equivp_reflp [OF o])
    show "symp MemoryCellClocks_eq"
      by (auto simp: symp_def MemoryCellClocks_eq_def intro: equivp_symp [OF v] equivp_symp [OF o])
    show "transp MemoryCellClocks_eq"
      unfolding transp_def MemoryCellClocks_eq_def st using equivp_transp [OF v] equivp_transp [OF o] by metis
  qed
qed

lemma write_was_before_time:
  "write_was_before cell c \<longleftrightarrow> stamp_time (snd (cell_write cell)) \<le> clock_time c (fst (cell_write cell))"
  by (simp add: write_was_before_def clock_time_def)

lemma atomic_le:
  assumes "cell_clocks_ok cell" "vector = read_vector \<or> vector = write_vector"
  shows "(case atomic_ops cell of None \<Rightarrow> True | Some a \<Rightarrow> VClock_le (vector a) c) \<longleftrightarrow> (\<forall>j. atomic_times vector cell j \<le> clock_time c j)"
  using assms by (auto simp: cell_clocks_ok_def atomic_times_def VClock_le_time le_fun_def split: option.splits)

text \<open>The two non-atomic checks decide whether all conflicting accesses of the history are known.\<close>

lemma na_write_check:
  assumes "cell_rel cell h" "cell_clocks_ok cell" "closed (clock_time c) h" "hist_ok own n h"
  shows "write_was_before cell c \<and> VClock_le (cell_read cell) c \<and>
      (case atomic_ops cell of None \<Rightarrow> True | Some a \<Rightarrow> VClock_le (write_vector a) c \<and> VClock_le (read_vector a) c) \<longleftrightarrow>
    (\<forall>e\<in>set h. before (clock_time c) e)"
proof -
  from assms(1) obtain since w old where h: "h = since @ w # old" "ev_mode w = NaW" "\<forall>e\<in>set since. ev_mode e \<noteq> NaW"
    and cell: "fst (cell_write cell) = ev_idx w" "stamp_time (snd (cell_write cell)) = ev_time w"
      "clock_time (cell_read cell) = latest NaR since"
      "atomic_times read_vector cell = latest AtR since" "atomic_times write_vector cell = latest AtW since"
    by (rule cell_relE)
  let ?C = "clock_time c"
  have r: "VClock_le (cell_read cell) c \<longleftrightarrow> (\<forall>e\<in>set since. ev_mode e = NaR \<longrightarrow> before ?C e)"
    using assms(2) latest_le [of NaR since ?C] by (simp add: cell_clocks_ok_def VClock_le_time le_fun_def cell)
  have a: "(case atomic_ops cell of None \<Rightarrow> True | Some a \<Rightarrow> VClock_le (write_vector a) c \<and> VClock_le (read_vector a) c) \<longleftrightarrow>
      (\<forall>e\<in>set since. ev_mode e = AtW \<longrightarrow> before ?C e) \<and> (\<forall>e\<in>set since. ev_mode e = AtR \<longrightarrow> before ?C e)"
    using atomic_le [OF assms(2), of write_vector c] atomic_le [OF assms(2), of read_vector c]
      latest_le [of AtW since ?C] latest_le [of AtR since ?C] by (auto simp: cell split: option.splits)
  have "ev_mode e = NaR \<or> ev_mode e = AtR \<or> ev_mode e = AtW" if "e \<in> set since" for e
    using h(3) that by (cases "ev_mode e") auto
  then have mode: "(\<forall>e\<in>set since. before ?C e) \<longleftrightarrow> (\<forall>e\<in>set since. ev_mode e = NaR \<longrightarrow> before ?C e) \<and>
      (\<forall>e\<in>set since. ev_mode e = AtW \<longrightarrow> before ?C e) \<and> (\<forall>e\<in>set since. ev_mode e = AtR \<longrightarrow> before ?C e)" by blast
  have old: "before ?C w \<Longrightarrow> \<forall>e\<in>set old. before ?C e"
    using closed_split [of ?C since w old] assms(3,4) h by blast
  show ?thesis unfolding r a write_was_before_time cell h(1) set_append list.set ball_Un using old mode by auto
qed

lemma na_read_check:
  assumes "cell_rel cell h" "cell_clocks_ok cell" "closed (clock_time c) h" "hist_ok own n h"
  shows "write_was_before cell c \<and> (case atomic_ops cell of None \<Rightarrow> True | Some a \<Rightarrow> VClock_le (write_vector a) c) \<longleftrightarrow>
    (\<forall>e\<in>set h. ev_mode e \<in> {NaW, AtW} \<longrightarrow> before (clock_time c) e)"
proof -
  from assms(1) obtain since w old where h: "h = since @ w # old" "ev_mode w = NaW" "\<forall>e\<in>set since. ev_mode e \<noteq> NaW"
    and cell: "fst (cell_write cell) = ev_idx w" "stamp_time (snd (cell_write cell)) = ev_time w"
      "clock_time (cell_read cell) = latest NaR since"
      "atomic_times read_vector cell = latest AtR since" "atomic_times write_vector cell = latest AtW since"
    by (rule cell_relE)
  let ?C = "clock_time c"
  have a: "(case atomic_ops cell of None \<Rightarrow> True | Some a \<Rightarrow> VClock_le (write_vector a) c) \<longleftrightarrow>
      (\<forall>e\<in>set since. ev_mode e = AtW \<longrightarrow> before ?C e)"
    using atomic_le [OF assms(2), of write_vector c] latest_le [of AtW since ?C] by (auto simp: cell split: option.splits)
  have old: "before ?C w \<Longrightarrow> \<forall>e\<in>set old. before ?C e"
    using closed_split [of ?C since w old] assms(3,4) h by blast
  show ?thesis unfolding a write_was_before_time cell h(1) using old h(2,3) by auto
qed

lemma write_check:
  assumes "cell_rel cell h" "closed (clock_time c) h" "hist_ok own n h"
  shows "write_was_before cell c \<longleftrightarrow> (\<forall>e\<in>set h. ev_mode e = NaW \<longrightarrow> before (clock_time c) e)"
proof -
  from assms(1) obtain since w old where h: "h = since @ w # old" "ev_mode w = NaW" "\<forall>e\<in>set since. ev_mode e \<noteq> NaW"
    and cell: "fst (cell_write cell) = ev_idx w" "stamp_time (snd (cell_write cell)) = ev_time w"
    by (rule cell_relE)
  have old: "before (clock_time c) w \<Longrightarrow> \<forall>e\<in>set old. before (clock_time c) e"
    using closed_split [of "clock_time c" since w old] assms(2,3) h by blast
  show ?thesis unfolding write_was_before_time cell h(1) using old h(2,3) by auto
qed

section \<open>Non-atomic accesses of a cell\<close>

lemma clock_time_length: "0 < clock_time c i \<Longrightarrow> i < length c"
  by (cases "i < length c") auto

lemma non_atomic_write_detect_correct:
  assumes "cell_rel cell h" "cell_clocks_ok cell" "closed (clock_time (clock tc)) h" "hist_ok own n h"
  shows "if \<forall>e\<in>set h. before (clock_time (clock tc)) e
    then \<exists>cell'. non_atomic_write_detect cell tc i wt = Ok (cell', tc) \<and> cell_clocks_ok cell' \<and> atomic_ops cell' = None \<and>
      cell_rel cell' (Event NaW i (clock_time (clock tc) i) # h)
    else non_atomic_write_detect cell tc i wt = Err (DataRace cell tc)"
proof -
  note check = na_write_check [OF assms]
  let ?cell = "cell\<lparr>cell_write := (i, VClock_index (clock tc) i), cell_write_type := wt, cell_read := [], atomic_ops := None\<rparr>"
  have "cell_rel ?cell (Event NaW i (clock_time (clock tc) i) # h)"
    unfolding cell_rel_def by (rule exI [of _ "[]"]) (auto simp: clock_time_def atomic_times_def fun_eq_iff)
  moreover have "cell_clocks_ok ?cell" by (simp add: cell_clocks_ok_def)
  moreover have "non_atomic_write_detect cell tc i wt =
      (if \<forall>e\<in>set h. before (clock_time (clock tc)) e then Ok (?cell, tc) else Err (DataRace cell tc))"
    unfolding check [symmetric] by (auto simp: non_atomic_write_detect_def set_zero_vector_def)
  ultimately show ?thesis by auto
qed

lemma latest_at_index:
  assumes "clock_time v = latest m since" "hist_ok own n h" "set since \<subseteq> set h" "clock_time c i = own i" "vclock_inv v"
  shows "\<exists>v'. set_at_index v c i = Ok v' \<and> vclock_inv v' \<and> clock_time v' = latest m (Event m i (clock_time c i) # since)"
proof -
  have "clock_time v i \<le> clock_time c i" using latest_hist_ok [OF assms(2,3)] assms(1,4) by simp
  with set_at_index_time(1) [OF assms(5) this] show ?thesis by (auto simp: latest_Event assms(1) max_def)
qed

lemma non_atomic_read_detect_correct:
  assumes "cell_rel cell h" "cell_clocks_ok cell" "closed (clock_time (clock tc)) h" "hist_ok own n h"
    and "vclock_inv (clock tc)" "clock_time (clock tc) i = own i" "0 < own i"
  shows "\<exists>c. vclock_inv c \<and> clock_time c = clock_time (clock tc) \<and>
    (if \<forall>e\<in>set h. ev_mode e \<in> {NaW, AtW} \<longrightarrow> before (clock_time (clock tc)) e
     then \<exists>cell'. non_atomic_read_detect cell tc i rt = Ok (cell', tc\<lparr>clock := c\<rparr>) \<and> cell_clocks_ok cell' \<and>
       atomic_ops cell' = atomic_ops cell \<and> cell_rel cell' (Event NaR i (clock_time (clock tc) i) # h)
     else non_atomic_read_detect cell tc i rt = Err (DataRace cell (tc\<lparr>clock := c\<rparr>)))"
proof -
  have i: "i < length (clock tc)" using assms(6,7) by (intro clock_time_length) simp
  obtain t where t: "VTimestamp_set_read_type (clock tc ! i) rt = (Ok t :: (race, _) outcome)" "stamp_time t = clock_time (clock tc) i"
    using set_read_type_stamp i by (metis clock_time_nth)
  obtain c where c: "VClock_index_mut (clock tc) i (\<lambda>t. VTimestamp_set_read_type t rt) = (Ok c :: (race, _) outcome)"
    "vclock_inv c" "clock_time c = clock_time (clock tc)"
    using index_mut_time [OF i, of "\<lambda>t. VTimestamp_set_read_type t rt" t] t assms(5) by blast
  have cl: "closed (clock_time c) h" using assms(3) c(3) by simp
  have *: "non_atomic_read_detect cell tc i rt = (if \<forall>e\<in>set h. ev_mode e \<in> {NaW, AtW} \<longrightarrow> before (clock_time c) e
      then obind (set_at_index (cell_read cell) c i) (\<lambda>r. Ok (cell\<lparr>cell_read := r\<rparr>, tc\<lparr>clock := c\<rparr>))
      else Err (DataRace cell (tc\<lparr>clock := c\<rparr>)))"
    unfolding na_read_check [OF assms(1,2) cl assms(4), symmetric] by (simp add: non_atomic_read_detect_def c(1) Let_def split: option.split)
  from assms(1) obtain since w old where h: "h = since @ w # old" "ev_mode w = NaW" "\<forall>e\<in>set since. ev_mode e \<noteq> NaW"
    and cell: "fst (cell_write cell) = ev_idx w" "stamp_time (snd (cell_write cell)) = ev_time w"
      "clock_time (cell_read cell) = latest NaR since"
      "atomic_times read_vector cell = latest AtR since" "atomic_times write_vector cell = latest AtW since"
    by (rule cell_relE)
  obtain r where r: "set_at_index (cell_read cell) c i = (Ok r :: (race, _) outcome)" "vclock_inv r"
    "clock_time r = latest NaR (Event NaR i (clock_time c i) # since)"
    using latest_at_index [OF cell(3) assms(4), of c i] h(1) assms(2,6) c(3) by (auto simp: cell_clocks_ok_def)
  have "cell_rel (cell\<lparr>cell_read := r\<rparr>) (Event NaR i (clock_time c i) # h)"
    unfolding cell_rel_def
    by (rule exI [of _ "Event NaR i (clock_time c i) # since"], rule exI [of _ w], rule exI [of _ old])
      (use h cell r(3) in \<open>simp add: atomic_times_def latest_Event del: latest.simps\<close>)
  moreover have "cell_clocks_ok (cell\<lparr>cell_read := r\<rparr>)" using assms(2) r(2) by (simp add: cell_clocks_ok_def)
  ultimately show ?thesis using c(2,3) * r(1) by (intro exI [of _ c]) auto
qed

section \<open>Atomic accesses of a cell\<close>

definition sync_of :: "MemoryCellClocks \<Rightarrow> VClock" where
  "sync_of cell = (case atomic_ops cell of None \<Rightarrow> [] | Some a \<Rightarrow> sync_vector a)"

lemma atomic_access_correct:
  assumes "cell_clocks_ok cell"
  shows "case atomic_access cell tc sz wr of
      Ok (cell', a) \<Rightarrow> atomic_ops cell' = Some a \<and> cell_write cell' = cell_write cell \<and> cell_read cell' = cell_read cell \<and>
        cell_clocks_ok cell' \<and> sync_vector a = sync_of cell \<and>
        clock_time (read_vector a) = atomic_times read_vector cell \<and> clock_time (write_vector a) = atomic_times write_vector cell
    | Err (DataRace cell' tc') \<Rightarrow> cell' = cell \<and> tc' = tc \<and> (\<exists>a. atomic_ops cell = Some a \<and> access_size a \<noteq> Some sz \<and>
        (wr \<and> \<not> VClock_le (read_vector a) (clock tc) \<or> \<not> VClock_le (write_vector a) (clock tc)))
    | _ \<Rightarrow> False"
  using assms by (auto simp: atomic_access_def cell_clocks_ok_def sync_of_def atomic_times_def AtomicMemoryCellClocks_new_def
      Let_def split: option.splits)

text \<open>The common part of the two atomic checks: the access is recorded in one of the two vectors.\<close>

lemma record_atomic:
  assumes "cell_rel cell h" "hist_ok own n h" "clock_time c i = own i"
    and acc: "atomic_access cell tc sz wr = Ok (cell', a)" and ok: "cell_clocks_ok cell"
  shows "\<exists>v. set_at_index (read_vector a) c i = (Ok v :: (race, _) outcome) \<and>
      cell_clocks_ok (cell'\<lparr>atomic_ops := Some (a\<lparr>read_vector := v\<rparr>)\<rparr>) \<and>
      cell_rel (cell'\<lparr>atomic_ops := Some (a\<lparr>read_vector := v\<rparr>)\<rparr>) (Event AtR i (own i) # h)"
    "\<exists>v. set_at_index (write_vector a) c i = (Ok v :: (race, _) outcome) \<and>
      cell_clocks_ok (cell'\<lparr>atomic_ops := Some (a\<lparr>write_vector := v\<rparr>)\<rparr>) \<and>
      cell_rel (cell'\<lparr>atomic_ops := Some (a\<lparr>write_vector := v\<rparr>)\<rparr>) (Event AtW i (own i) # h)"
proof -
  note acc' = atomic_access_correct [OF ok, of tc sz wr, unfolded acc, simplified]
  from assms(1) obtain since w old where h: "h = since @ w # old" "ev_mode w = NaW" "\<forall>e\<in>set since. ev_mode e \<noteq> NaW"
    and cell: "fst (cell_write cell) = ev_idx w" "stamp_time (snd (cell_write cell)) = ev_time w"
      "clock_time (cell_read cell) = latest NaR since"
      "atomic_times read_vector cell = latest AtR since" "atomic_times write_vector cell = latest AtW since"
    by (rule cell_relE)
  have inv: "vclock_inv (read_vector a)" "vclock_inv (write_vector a)" using acc' by (auto simp: cell_clocks_ok_def)
  have t: "clock_time (read_vector a) = latest AtR since" "clock_time (write_vector a) = latest AtW since"
    using acc' cell by simp_all
  have sub: "set since \<subseteq> set h" by (auto simp: h)
  obtain r where r: "set_at_index (read_vector a) c i = (Ok r :: (race, _) outcome)" "vclock_inv r"
    "clock_time r = latest AtR (Event AtR i (own i) # since)"
    using latest_at_index [OF t(1) assms(2) sub assms(3) inv(1)] assms(3) by auto
  obtain u where u: "set_at_index (write_vector a) c i = (Ok u :: (race, _) outcome)" "vclock_inv u"
    "clock_time u = latest AtW (Event AtW i (own i) # since)"
    using latest_at_index [OF t(2) assms(2) sub assms(3) inv(2)] assms(3) by auto
  have "cell_rel (cell'\<lparr>atomic_ops := Some (a\<lparr>read_vector := r\<rparr>)\<rparr>) (Event AtR i (own i) # h)"
    unfolding cell_rel_def
    by (rule exI [of _ "Event AtR i (own i) # since"], rule exI [of _ w], rule exI [of _ old])
      (use h cell r(3) t acc' in \<open>simp add: atomic_times_def latest_Event del: latest.simps\<close>)
  moreover have "cell_rel (cell'\<lparr>atomic_ops := Some (a\<lparr>write_vector := u\<rparr>)\<rparr>) (Event AtW i (own i) # h)"
    unfolding cell_rel_def
    by (rule exI [of _ "Event AtW i (own i) # since"], rule exI [of _ w], rule exI [of _ old])
      (use h cell u(3) t acc' in \<open>simp add: atomic_times_def latest_Event del: latest.simps\<close>)
  ultimately show "\<exists>v. set_at_index (read_vector a) c i = (Ok v :: (race, _) outcome) \<and>
      cell_clocks_ok (cell'\<lparr>atomic_ops := Some (a\<lparr>read_vector := v\<rparr>)\<rparr>) \<and>
      cell_rel (cell'\<lparr>atomic_ops := Some (a\<lparr>read_vector := v\<rparr>)\<rparr>) (Event AtR i (own i) # h)"
    "\<exists>v. set_at_index (write_vector a) c i = (Ok v :: (race, _) outcome) \<and>
      cell_clocks_ok (cell'\<lparr>atomic_ops := Some (a\<lparr>write_vector := v\<rparr>)\<rparr>) \<and>
      cell_rel (cell'\<lparr>atomic_ops := Some (a\<lparr>write_vector := v\<rparr>)\<rparr>) (Event AtW i (own i) # h)"
    using r u acc' by (auto simp: cell_clocks_ok_def)
qed

text \<open>Why an atomic access can be refused: a non-atomic access is not known, or the sizes differ and an atomic
  access is not known.\<close>

definition size_race :: "bool \<Rightarrow> MemoryCellClocks \<Rightarrow> VClock \<Rightarrow> nat \<Rightarrow> bool" where
  "size_race wr cell c sz \<longleftrightarrow> (\<exists>a. atomic_ops cell = Some a \<and> access_size a \<noteq> Some sz \<and>
     (wr \<and> \<not> VClock_le (read_vector a) c \<or> \<not> VClock_le (write_vector a) c))"

lemma atomic_read_detect_correct:
  assumes "cell_rel cell h" "cell_clocks_ok cell" "hist_ok own n h" "clock_time (clock tc) i = own i"
  shows "case atomic_read_detect cell tc i sz of
      Ok cell' \<Rightarrow> cell_rel cell' (Event AtR i (own i) # h) \<and> cell_clocks_ok cell' \<and> sync_of cell' = sync_of cell \<and>
        atomic_ops cell' \<noteq> None \<and> write_was_before cell (clock tc)
    | Err (DataRace cell' tc') \<Rightarrow> tc' = tc \<and> cell_clocks_ok cell' \<and> cell_write cell' = cell_write cell \<and>
        (\<not> write_was_before cell' (clock tc) \<or> size_race False cell' (clock tc) sz)
    | _ \<Rightarrow> False"
proof (cases "atomic_access cell tc sz False")
  case (Ok z)
  obtain cell' a where z: "z = (cell', a)" by (cases z)
  note acc = atomic_access_correct [OF assms(2), of tc sz False, unfolded Ok z, simplified]
  from record_atomic(1) [OF assms(1,3,4) Ok [unfolded z] assms(2)] obtain v where
    v: "set_at_index (read_vector a) (clock tc) i = (Ok v :: (race, _) outcome)"
      "cell_clocks_ok (cell'\<lparr>atomic_ops := Some (a\<lparr>read_vector := v\<rparr>)\<rparr>)"
      "cell_rel (cell'\<lparr>atomic_ops := Some (a\<lparr>read_vector := v\<rparr>)\<rparr>) (Event AtR i (own i) # h)" by blast
  then show ?thesis using acc by (auto simp: atomic_read_detect_def Ok z sync_of_def write_was_before_def Let_def)
next
  case (Err x)
  obtain d y where x: "x = DataRace d y" by (cases x)
  note acc = atomic_access_correct [OF assms(2), of tc sz False, unfolded Err x, simplified]
  then show ?thesis using assms(2) by (auto simp: atomic_read_detect_def Err x size_race_def)
qed (use atomic_access_correct [OF assms(2), of tc sz False] in auto)

lemma atomic_write_detect_correct:
  assumes "cell_rel cell h" "cell_clocks_ok cell" "hist_ok own n h" "clock_time (clock tc) i = own i"
  shows "case atomic_write_detect cell tc i sz of
      Ok cell' \<Rightarrow> cell_rel cell' (Event AtW i (own i) # h) \<and> cell_clocks_ok cell' \<and> sync_of cell' = sync_of cell \<and>
        atomic_ops cell' \<noteq> None \<and> write_was_before cell (clock tc) \<and> VClock_le (cell_read cell) (clock tc)
    | Err (DataRace cell' tc') \<Rightarrow> tc' = tc \<and> cell_clocks_ok cell' \<and> cell_write cell' = cell_write cell \<and>
        (\<not> write_was_before cell' (clock tc) \<or> \<not> VClock_le (cell_read cell') (clock tc) \<or> size_race True cell' (clock tc) sz)
    | _ \<Rightarrow> False"
proof (cases "atomic_access cell tc sz True")
  case (Ok z)
  obtain cell' a where z: "z = (cell', a)" by (cases z)
  note acc = atomic_access_correct [OF assms(2), of tc sz True, unfolded Ok z, simplified]
  from record_atomic(2) [OF assms(1,3,4) Ok [unfolded z] assms(2)] obtain v where
    v: "set_at_index (write_vector a) (clock tc) i = (Ok v :: (race, _) outcome)"
      "cell_clocks_ok (cell'\<lparr>atomic_ops := Some (a\<lparr>write_vector := v\<rparr>)\<rparr>)"
      "cell_rel (cell'\<lparr>atomic_ops := Some (a\<lparr>write_vector := v\<rparr>)\<rparr>) (Event AtW i (own i) # h)" by blast
  then show ?thesis using acc by (auto simp: atomic_write_detect_def Ok z sync_of_def write_was_before_def Let_def)
next
  case (Err x)
  obtain d y where x: "x = DataRace d y" by (cases x)
  note acc = atomic_access_correct [OF assms(2), of tc sz True, unfolded Err x, simplified]
  then show ?thesis using assms(2) by (auto simp: atomic_write_detect_def Err x size_race_def)
qed (use atomic_access_correct [OF assms(2), of tc sz True] in auto)

end
