(* ===== verification/Race_Inv.thy ===== *)
theory Race_Inv
  imports Race_History
begin

text \<open>
  The invariant of the race detector's global state. No clock other than a thread's own has reached the
  current time of that thread: a clock is handed out (by a store, a fence, a released lock, a thread's end)
  only before the time advances. Every clock is closed with respect to every history. The lemmas show that
  each hook keeps the invariant.
\<close>

section \<open>Clocks\<close>

definition known :: "(VectorIdx \<Rightarrow> nat) \<Rightarrow> history set \<Rightarrow> VClock \<Rightarrow> bool" where
  "known own hs c \<longleftrightarrow> vclock_inv c \<and> (\<forall>j. clock_time c j = 0 \<or> clock_time c j < own j) \<and> (\<forall>h\<in>hs. closed (clock_time c) h)"

definition reached :: "(VectorIdx \<Rightarrow> nat) \<Rightarrow> VClock \<Rightarrow> bool" where
  "reached own c \<longleftrightarrow> vclock_inv c \<and> (\<forall>j. clock_time c j \<le> own j)"

abbreviation bump :: "(VectorIdx \<Rightarrow> nat) \<Rightarrow> VectorIdx \<Rightarrow> VectorIdx \<Rightarrow> nat" where
  "bump own i \<equiv> own(i := own i + 1)"

lemma known_Nil [simp]: "known own hs []"
  by (simp add: known_def)

lemma reached_Nil [simp]: "reached own []"
  by (simp add: reached_def)

lemma known_reached: "known own hs c \<Longrightarrow> reached own c"
  unfolding known_def reached_def by (metis le0 less_imp_le)

lemma known_join: "known own hs a \<Longrightarrow> known own hs b \<Longrightarrow> known own hs (VClock_join a b)"
proof -
  assume a: "known own hs a" and b: "known own hs b"
  have "clock_time (VClock_join a b) = (\<lambda>j. max (clock_time a j) (clock_time b j))" by (simp add: fun_eq_iff join_time)
  moreover have "max (clock_time a j) (clock_time b j) = 0 \<or> max (clock_time a j) (clock_time b j) < own j" for j
    using a b unfolding known_def by (metis max_def)
  ultimately show ?thesis using a b unfolding known_def by (simp add: join_inv closed_join)
qed

lemma reached_join: "reached own a \<Longrightarrow> reached own b \<Longrightarrow> reached own (VClock_join a b)"
  by (simp add: reached_def join_inv join_time)

lemma known_mono: "known own hs c \<Longrightarrow> own \<le> own' \<Longrightarrow> known own' hs c"
  unfolding known_def le_fun_def by (metis less_le_trans)

lemma reached_mono: "reached own c \<Longrightarrow> own \<le> own' \<Longrightarrow> reached own' c"
  unfolding reached_def le_fun_def by (metis order_trans)

lemma bump_le [simp]: "own \<le> own(i := Suc (own i))"
  by (simp add: le_fun_def)

lemma known_less: "known own hs c \<Longrightarrow> 0 < own i \<Longrightarrow> clock_time c i < own i"
  unfolding known_def by (metis)

section \<open>Threads\<close>

definition thread_ok :: "(VectorIdx \<Rightarrow> nat) \<Rightarrow> history set \<Rightarrow> VectorIdx \<Rightarrow> ThreadClockSet \<Rightarrow> bool" where
  "thread_ok own hs i tc \<longleftrightarrow> known (bump own i) hs (clock tc) \<and> clock_time (clock tc) i = own i \<and>
     known own hs (fence_acquire tc) \<and> known own hs (fence_release tc) \<and>
     reached own (write_seqcst tc) \<and> reached own (read_seqcst tc)"

lemma thread_ok_mono:
  assumes "thread_ok own hs i tc" "own \<le> own'" "own' i = own i"
  shows "thread_ok own' hs i tc"
proof -
  have "bump own i \<le> bump own' i" using assms(2) by (simp add: le_fun_def)
  with assms show ?thesis unfolding thread_ok_def using known_mono reached_mono by metis
qed

lemma thread_ok_clock:
  assumes "thread_ok own hs i tc" "known own hs c"
  shows "thread_ok own hs i (tc\<lparr>clock := VClock_join (clock tc) c\<rparr>)" "thread_ok own hs i (tc\<lparr>fence_acquire := VClock_join (fence_acquire tc) c\<rparr>)"
proof -
  have "clock_time c i \<le> own i" using assms(2) by (metis known_reached reached_def)
  moreover have "known (bump own i) hs c" by (rule known_mono [OF assms(2)]) simp
  ultimately show "thread_ok own hs i (tc\<lparr>clock := VClock_join (clock tc) c\<rparr>)" "thread_ok own hs i (tc\<lparr>fence_acquire := VClock_join (fence_acquire tc) c\<rparr>)"
    using assms by (auto simp: thread_ok_def known_join join_time)
qed

lemma thread_ok_increment:
  assumes "thread_ok own hs i tc" "\<And>h. h \<in> hs \<Longrightarrow> hist_ok own n h" "increment_clock tc i = Ok tc'"
  shows "thread_ok (bump own i) hs i tc'" "clock_time (clock tc') i = own i + 1"
    "fence_release tc' = fence_release tc" "known (bump own i) hs (clock tc)"
proof -
  have inv: "vclock_inv (clock tc)" using assms(1) by (simp add: thread_ok_def known_def)
  from assms(3) obtain c where c: "increment_index (clock tc) i = (Ok c :: ('a, _) outcome)" "tc' = tc\<lparr>clock := c\<rparr>"
    by (auto simp: increment_clock_def outcome_eqs)
  have t: "vclock_inv c" "clock_time c = (clock_time (clock tc))(i := own i + 1)"
    using increment_index_time [OF inv, of i, where 'e = 'a] c(1) assms(1) by (auto simp: thread_ok_def)
  have "closed (clock_time c) h" if "h \<in> hs" for h
    unfolding t(2) using assms(1,2) [unfolded thread_ok_def known_def hist_ok_def] that by (intro closed_raise) auto
  then have "known (bump (bump own i) i) hs c" using assms(1) t unfolding thread_ok_def known_def by auto
  then show "thread_ok (bump own i) hs i tc'" "clock_time (clock tc') i = own i + 1"
    "fence_release tc' = fence_release tc" "known (bump own i) hs (clock tc)"
    using assms(1) t unfolding thread_ok_def c(2) by (auto elim!: known_mono reached_mono)
qed

section \<open>Atomic operations on a cell\<close>

definition cell_known :: "(VectorIdx \<Rightarrow> nat) \<Rightarrow> history set \<Rightarrow> MemoryCellClocks \<Rightarrow> bool" where
  "cell_known own hs cell \<longleftrightarrow> cell_clocks_ok cell \<and> known own hs (sync_of cell)"

lemma cell_known_mono: "cell_known own hs cell \<Longrightarrow> own \<le> own' \<Longrightarrow> cell_known own' hs cell"
  unfolding cell_known_def using known_mono by blast

lemma cell_set_sync:
  assumes "cell_rel cell h" "cell_clocks_ok cell" "atomic_ops cell = Some a" "known own hs c"
  shows "cell_rel (cell\<lparr>atomic_ops := Some (a\<lparr>sync_vector := c\<rparr>)\<rparr>) h" "cell_known own hs (cell\<lparr>atomic_ops := Some (a\<lparr>sync_vector := c\<rparr>)\<rparr>)"
  using assms by (auto simp: cell_rel_def atomic_times_def cell_known_def cell_clocks_ok_def sync_of_def known_def)

lemma load_op_correct:
  assumes "cell_rel d h" "hist_ok own n h" "cell_known own hs d" "thread_ok own hs i x"
    and "\<And>c. sync = Some c \<Longrightarrow> known own hs c"
  shows "case load_op ord sz sync d x i of
      Ok (d', y) \<Rightarrow> cell_rel d' (Event AtR i (own i) # h) \<and> cell_known own hs d' \<and> thread_ok own hs i y \<and>
        fence_release y = fence_release x \<and> write_was_before d (clock x)
    | Err (DataRace d' y) \<Rightarrow> y = x \<and> cell_clocks_ok d' \<and> cell_write d' = cell_write d \<and>
        (\<not> write_was_before d' (clock x) \<or> size_race False d' (clock x) sz)
    | _ \<Rightarrow> False"
proof -
  have ok: "cell_clocks_ok d" "clock_time (clock x) i = own i" using assms(3,4) by (simp_all add: cell_known_def thread_ok_def)
  note read = atomic_read_detect_correct [OF assms(1) ok(1) assms(2) ok(2), of sz]
  show ?thesis
  proof (cases "atomic_read_detect d x i sz")
    case (Ok d')
    note d' = read [unfolded Ok, simplified]
    have k: "cell_known own hs d'" using d' assms(3) by (simp add: cell_known_def)
    have "known own hs c" if "load_sync sync d' = Some c" for c
    proof (cases sync)
      case None
      with that have "c = sync_of d'" by (auto simp: load_sync_def sync_of_def)
      with k show ?thesis by (simp add: cell_known_def)
    qed (use that assms(5) in \<open>simp add: load_sync_def\<close>)
    then show ?thesis using d' k Ok assms(4) thread_ok_clock [OF assms(4)]
      by (auto simp: load_op_def load_relaxed_def load_acquire_def split: option.splits)
  next
    case (Err e)
    obtain d' y where "e = DataRace d' y" by (cases e)
    with Err read show ?thesis by (simp add: load_op_def load_relaxed_def load_acquire_def)
  qed (use read in auto)
qed

lemma store_op_correct:
  assumes "cell_rel d h" "hist_ok own n h" "cell_known own hs d" "thread_ok own hs i x"
  shows "case store_op ord sz d x i of
      Ok (d', y) \<Rightarrow> cell_rel d' (Event AtW i (own i) # h) \<and> cell_known (bump own i) hs d' \<and> y = x \<and>
        write_was_before d (clock x) \<and> VClock_le (cell_read d) (clock x)
    | Err (DataRace d' y) \<Rightarrow> y = x \<and> cell_clocks_ok d' \<and> cell_write d' = cell_write d \<and>
        (\<not> write_was_before d' (clock x) \<or> \<not> VClock_le (cell_read d') (clock x) \<or> size_race True d' (clock x) sz)
    | _ \<Rightarrow> False"
proof -
  have ok: "cell_clocks_ok d" "clock_time (clock x) i = own i" using assms(3,4) by (simp_all add: cell_known_def thread_ok_def)
  note wd = atomic_write_detect_correct [OF assms(1) ok(1) assms(2) ok(2), of sz]
  have k: "known (bump own i) hs (clock x)" "known (bump own i) hs (fence_release x)"
    using assms(4) by (auto simp: thread_ok_def elim!: known_mono)
  show ?thesis
  proof (cases "atomic_write_detect d x i sz")
    case (Ok d')
    note d' = wd [unfolded Ok, simplified]
    then obtain a where a: "atomic_ops d' = Some a" by auto
    note set = cell_set_sync [OF _ _ a k(1), of "Event AtW i (own i) # h"] cell_set_sync [OF _ _ a k(2), of "Event AtW i (own i) # h"]
    show ?thesis using d' a set
      by (simp add: store_op_def store_release_def store_relaxed_def Ok atomic_mut_unwrap_def VClock_clone_from_def)
  next
    case (Err e)
    obtain d' y where "e = DataRace d' y" by (cases e)
    with Err wd show ?thesis by (simp add: store_op_def store_release_def store_relaxed_def)
  qed (use wd in auto)
qed

lemma rmw_op_correct:
  assumes "cell_rel d h" "hist_ok own n h" "cell_known own hs d" "thread_ok own hs i x" "i < n" "0 < own i"
  shows "case rmw_op ord sz d x i of
      Ok (d', y) \<Rightarrow> cell_rel d' (Event AtW i (own i) # Event AtR i (own i) # h) \<and> cell_known (bump own i) hs d' \<and> thread_ok own hs i y \<and>
        write_was_before d (clock x)
    | Err (DataRace d' y) \<Rightarrow> thread_ok own hs i y \<and> cell_clocks_ok d' \<and> cell_write d' = cell_write d \<and>
        (\<not> write_was_before d' (clock y) \<or> \<not> VClock_le (cell_read d') (clock y) \<or> size_race True d' (clock y) sz)
    | _ \<Rightarrow> False"
proof -
  obtain lo rel where op: "rmw_op ord sz d x i = obind (load_op lo sz None d x i) (\<lambda>(memory, clocks).
      obind (if rel then rmw_release memory clocks i sz else rmw_relaxed memory clocks i sz) (\<lambda>memory. Ok (memory, clocks)))"
  proof
    show "rmw_op ord sz d x i = obind (load_op (if ord \<in> {RwAcquire, RwAcqRel, RwSeqCst} then ReadAcquire else ReadRelaxed) sz None d x i)
      (\<lambda>(memory, clocks). obind (if ord \<in> {RwRelease, RwAcqRel, RwSeqCst} then rmw_release memory clocks i sz
        else rmw_relaxed memory clocks i sz) (\<lambda>memory. Ok (memory, clocks)))"
      by (simp add: rmw_op_def load_op_def)
  qed
  note load = load_op_correct [OF assms(1-4), of None sz lo]
  show ?thesis
  proof (cases "load_op lo sz None d x i")
    case (Ok z)
    obtain d1 y where z: "z = (d1, y)" by (cases z)
    note d1 = load [unfolded Ok z, simplified]
    have ok: "cell_clocks_ok d1" "clock_time (clock y) i = own i" using d1 by (simp_all add: cell_known_def thread_ok_def)
    have h1: "hist_ok own n (Event AtR i (own i) # h)" by (rule hist_ok_Cons) (use assms in auto)
    have rel1: "cell_rel d1 (Event AtR i (own i) # h)" using d1 by blast
    note wd = atomic_write_detect_correct [OF rel1 ok(1) h1 ok(2), of sz]
    have k: "known (bump own i) hs (VClock_join (sync_of d1) (clock y))" "known (bump own i) hs (VClock_join (sync_of d1) (fence_release y))"
      using d1 by (auto simp: thread_ok_def cell_known_def intro!: known_join elim!: known_mono)
    have cw: "cell_write d1 = cell_write d"
      using Ok z d1 by (auto simp: load_op_def load_relaxed_def load_acquire_def atomic_read_detect_def atomic_access_def Let_def
          outcome_eqs split: if_splits option.splits)
    show ?thesis
    proof (cases "atomic_write_detect d1 y i sz")
      case Ok': (Ok d')
      note d' = wd [unfolded Ok', simplified]
      then obtain a where a: "atomic_ops d' = Some a" "sync_vector a = sync_of d1" by (auto simp: sync_of_def)
      let ?h = "Event AtW i (own i) # Event AtR i (own i) # h"
      note set = cell_set_sync [OF _ _ a(1) k(1), of ?h] cell_set_sync [OF _ _ a(1) k(2), of ?h]
      show ?thesis using d' d1 a set by (simp add: op Ok z rmw_release_def rmw_relaxed_def Ok' atomic_mut_unwrap_def)
    next
      case (Err e)
      obtain d' y' where "e = DataRace d' y'" by (cases e)
      with Err wd d1 cw show ?thesis by (simp add: op Ok z rmw_release_def rmw_relaxed_def)
    qed (use wd in auto)
  next
    case (Err e)
    obtain d' y where "e = DataRace d' y" by (cases e)
    with Err load assms(4) show ?thesis by (auto simp: op size_race_def)
  qed (use load in \<open>auto simp: op\<close>)
qed

section \<open>The global state\<close>

definition own_time :: "GlobalState \<Rightarrow> VectorIdx \<Rightarrow> nat" where
  "own_time g i = (if i < length (vector_clocks g) then clock_time (clock (vector_clocks g ! i)) i else 0)"

lemma own_time_cong: "vector_clocks g = vector_clocks g' \<Longrightarrow> own_time g = own_time g'"
  by (simp add: own_time_def fun_eq_iff)

definition info_ok :: "history set \<Rightarrow> GlobalState \<Rightarrow> bool" where
  "info_ok hs g \<longleftrightarrow> (\<forall>t<length (thread_info g).
     (\<forall>i. vector_index (thread_info g ! t) = Some i \<longrightarrow> i < length (vector_clocks g) \<and> vector_info g ! i = t) \<and>
     (\<forall>c. termination_vector_clock (thread_info g ! t) = Some c \<longrightarrow> known (own_time g) hs c \<and>
       (\<forall>i. vector_index (thread_info g ! t) = Some i \<longrightarrow> i \<in> reuse_candidates g)))"

definition race_inv :: "history set \<Rightarrow> GlobalState \<Rightarrow> bool" where
  "race_inv hs g \<longleftrightarrow>
     length (vector_info g) = length (vector_clocks g) \<and> length (vector_clocks g) \<le> 2 ^ 32 \<and>
     (\<forall>i<length (vector_clocks g). thread_ok (own_time g) hs i (vector_clocks g ! i)) \<and>
     known (own_time g) hs (last_sc_fence g) \<and> reached (own_time g) (last_sc_write_per_thread g) \<and>
     info_ok hs g \<and> (\<forall>i\<in>reuse_candidates g. i < length (vector_clocks g) \<and> 0 < own_time g i) \<and>
     (multi_threaded g \<longrightarrow> 2 \<le> length (vector_clocks g)) \<and>
     (2 \<le> length (vector_clocks g) \<longrightarrow> (\<forall>i<length (vector_clocks g). 0 < own_time g i)) \<and>
     (\<forall>h\<in>hs. hist_ok (own_time g) (length (vector_clocks g)) h)"

text \<open>A thread that has a vector index and has not terminated.\<close>

definition alive :: "GlobalState \<Rightarrow> ThreadId \<Rightarrow> bool" where
  "alive g t \<longleftrightarrow> t < length (thread_info g) \<and> (\<exists>i. vector_index (thread_info g ! t) = Some i \<and> i \<notin> reuse_candidates g)"

lemma race_inv_new: "race_inv {} (GlobalState_new a b)"
  by (auto simp: race_inv_def GlobalState_new_def info_ok_def thread_ok_def ThreadClockSet_default_def own_time_def MAIN_THREAD_def)

lemma thread_state_alive:
  assumes "race_inv hs g" "alive g t"
  obtains i where "thread_state g t = Ok (i, vector_clocks g ! i)" "thread_index g t = Ok i" "i < length (vector_clocks g)"
    "i \<notin> reuse_candidates g" "vector_info g ! i = t" "thread_ok (own_time g) hs i (vector_clocks g ! i)"
proof -
  from assms(2) obtain i where i: "t < length (thread_info g)" "vector_index (thread_info g ! t) = Some i" "i \<notin> reuse_candidates g"
    by (auto simp: alive_def)
  with assms(1) have "i < length (vector_clocks g)" "vector_info g ! i = t" "thread_ok (own_time g) hs i (vector_clocks g ! i)"
    by (auto simp: race_inv_def info_ok_def)
  with i that show ?thesis by (simp add: thread_state_def thread_index_def)
qed

lemma thread_state_Ok:
  assumes "race_inv hs g" "thread_state g t = Ok (i, tc)"
  shows "i < length (vector_clocks g)" "tc = vector_clocks g ! i" "thread_ok (own_time g) hs i tc"
  using assms by (auto simp: thread_state_def outcome_eqs vec_get_def race_inv_def split: if_splits)

lemma own_time_put:
  "i < length (vector_clocks g) \<Longrightarrow> own_time (put_clocks g i tc) = (own_time g)(i := clock_time (clock tc) i)"
  by (auto simp: fun_eq_iff own_time_def put_clocks_def)

lemma race_inv_hist: "race_inv hs g \<Longrightarrow> h \<in> hs \<Longrightarrow> hist_ok (own_time g) (length (vector_clocks g)) h"
  by (simp add: race_inv_def)

lemma race_inv_put:
  assumes inv: "race_inv hs g" and i: "i < length (vector_clocks g)" and le: "own_time g i \<le> clock_time (clock tc) i"
    and tc: "thread_ok ((own_time g)(i := clock_time (clock tc) i)) hs i tc"
  shows "race_inv hs (put_clocks g i tc)"
proof -
  let ?g = "put_clocks g i tc"
  define own where "own = own_time ?g"
  have own': "own = (own_time g)(i := clock_time (clock tc) i)" using own_time_put [OF i] by (simp add: own_def)
  have mono: "own_time g \<le> own" using le by (simp add: own' le_fun_def)
  have len: "length (vector_clocks ?g) = length (vector_clocks g)" by (simp add: put_clocks_def)
  have th: "thread_ok own hs j (vector_clocks ?g ! j)" if "j < length (vector_clocks g)" for j
  proof (cases "j = i")
    case True
    then show ?thesis using tc i by (simp add: put_clocks_def own')
  next
    case False
    moreover from inv that have "thread_ok (own_time g) hs j (vector_clocks g ! j)" by (simp add: race_inv_def)
    ultimately show ?thesis using thread_ok_mono [OF _ mono, of hs j] by (simp add: put_clocks_def own')
  qed
  have pos: "0 < own j" if "0 < own_time g j" for j using that le_funD [OF mono, of j] by linarith
  show ?thesis
    using inv th len unfolding race_inv_def info_ok_def own_def [symmetric]
    by (auto simp: put_clocks_def intro: known_mono [OF _ mono] reached_mono [OF _ mono] pos hist_ok_mono [OF _ mono])
qed

lemma race_inv_advance:
  assumes inv: "race_inv hs g" and i: "i < length (vector_clocks g)" and tc: "thread_ok (own_time g) hs i tc"
    and inc: "increment_clock tc i = Ok tc'"
  shows "race_inv hs (put_clocks g i tc')" "own_time (put_clocks g i tc') = bump (own_time g) i"
    "known (own_time (put_clocks g i tc')) hs (clock tc)"
proof -
  note step = thread_ok_increment [OF tc race_inv_hist [OF inv] inc]
  then show "race_inv hs (put_clocks g i tc')" by (intro race_inv_put [OF inv i]) simp_all
  show own: "own_time (put_clocks g i tc') = bump (own_time g) i" using own_time_put [OF i, of tc'] step(2) by simp
  show "known (own_time (put_clocks g i tc')) hs (clock tc)" unfolding own by (rule step(4))
qed

lemma race_inv_same_time:
  assumes "race_inv hs g" "i < length (vector_clocks g)" "thread_ok (own_time g) hs i tc"
  shows "race_inv hs (put_clocks g i tc)" "own_time (put_clocks g i tc) = own_time g"
proof -
  have e: "(own_time g)(i := clock_time (clock tc) i) = own_time g" using assms(3) by (simp add: thread_ok_def fun_eq_iff)
  show "own_time (put_clocks g i tc) = own_time g" using own_time_put [OF assms(2), of tc] e by simp
  show "race_inv hs (put_clocks g i tc)" by (rule race_inv_put [OF assms(1,2)]) (use assms(3) e in \<open>simp_all add: thread_ok_def\<close>)
qed

section \<open>Synchronization keeps the invariant\<close>

text \<open>What a hook may do to the part of the state that other invariants look at.\<close>

definition advances :: "GlobalState \<Rightarrow> GlobalState \<Rightarrow> bool" where
  "advances g g' \<longleftrightarrow> own_time g \<le> own_time g' \<and> length (vector_clocks g) \<le> length (vector_clocks g')"

lemma advances_refl [simp]: "advances g g"
  by (simp add: advances_def)

lemma advances_trans: "advances g h \<Longrightarrow> advances h k \<Longrightarrow> advances g k"
  unfolding advances_def by (meson order_trans)

lemma length_put [simp]: "length (vector_clocks (put_clocks g i tc)) = length (vector_clocks g)"
  by (simp add: put_clocks_def)

lemma acquire_clock_inv:
  assumes "race_inv hs g" "known (own_time g) hs c" "acquire_clock g c t = Ok g'"
  shows "race_inv hs g' \<and> advances g g' \<and> thread_info g' = thread_info g \<and> multi_threaded g' = multi_threaded g"
proof -
  from assms(3) obtain i tc where st: "thread_state g t = (Ok (i, tc) :: ('a, _) outcome)"
    and g': "g' = put_clocks g i (tc\<lparr>clock := VClock_join (clock tc) c\<rparr>)" by (auto simp: acquire_clock_def outcome_eqs)
  note tc = thread_state_Ok [OF assms(1) st]
  show ?thesis
    using race_inv_same_time [OF assms(1) tc(1) thread_ok_clock(1) [OF tc(3) assms(2)]] unfolding g'
    by (auto simp: advances_def put_clocks_def)
qed

lemma release_clock_inv:
  assumes "race_inv hs g" "release_clock g t = Ok (g', r)"
  shows "race_inv hs g' \<and> advances g g' \<and> known (own_time g') hs r \<and> thread_info g' = thread_info g \<and>
    reuse_candidates g' = reuse_candidates g \<and> (\<exists>i. thread_index g t = (Ok i :: ('e, _) outcome) \<and> i < length (vector_clocks g') \<and> 0 < own_time g' i)"
proof -
  from assms(2) obtain i tc tc' where st: "thread_state g t = (Ok (i, tc) :: ('a, _) outcome)"
    and inc: "increment_clock tc i = (Ok tc' :: ('a, _) outcome)" and g': "g' = put_clocks g i tc'" "r = clock tc"
    by (auto simp: release_clock_def outcome_eqs Let_def)
  note tc = thread_state_Ok [OF assms(1) st]
  note adv = race_inv_advance [OF assms(1) tc(1,3) inc]
  have "thread_index g t = (Ok i :: ('e, _) outcome)"
    using st by (auto simp: thread_state_def thread_index_def outcome_eqs vec_get_def split: if_splits)
  with adv tc(1) show ?thesis unfolding g' by (auto simp: advances_def put_clocks_def)
qed

lemma atomic_fence_inv:
  assumes inv: "race_inv hs g" and run: "atomic_fence g t ord = Ok g'"
  shows "race_inv hs g' \<and> advances g g'"
proof (cases "multi_threaded g")
  case False
  with run have "g' = g" by (simp add: atomic_fence_def maybe_perform_sync_operation_def)
  with inv show ?thesis by simp
next
  case True
  from run True obtain i tc where st: "thread_state g t = (Ok (i, tc) :: ('a, _) outcome)"
    by (auto simp: atomic_fence_def maybe_perform_sync_operation_def outcome_eqs)
  note tc = thread_state_Ok [OF inv st]
  have sc: "known (own_time g) hs (last_sc_fence g)" "reached (own_time g) (last_sc_write_per_thread g)" using inv by (simp_all add: race_inv_def)
  let ?b = "bump (own_time g) i"
  have mono: "own_time g \<le> ?b" by simp
  define tc1 where "tc1 = (if ord \<noteq> FenceRelease then apply_acquire_fence tc else tc)"
  have tc1: "thread_ok (own_time g) hs i tc1"
    using tc(3) thread_ok_clock(1) [OF tc(3)] by (auto simp: tc1_def apply_acquire_fence_def thread_ok_def)
  define scf where "scf = (if ord = FenceSeqCst then VClock_join (last_sc_fence g) (clock tc1) else last_sc_fence g)"
  define tc2 where "tc2 = (if ord = FenceSeqCst then tc1\<lparr>clock := VClock_join (clock tc1) scf,
      write_seqcst := VClock_join (write_seqcst tc1) (last_sc_write_per_thread g)\<rparr> else tc1)"
  have scf: "known ?b hs scf" using tc1 known_mono [OF sc(1) mono] by (auto simp: scf_def thread_ok_def intro!: known_join)
  have time2: "clock_time (VClock_join (clock tc1) (VClock_join (last_sc_fence g) (clock tc1))) i = own_time g i"
    using tc1 known_reached [OF sc(1)] by (simp add: join_time thread_ok_def reached_def max_absorb1 max_absorb2)
  have tc2: "thread_ok (own_time g) hs i tc2"
    using tc1 scf time2 sc(2) known_mono [OF sc(1) mono]
    by (auto simp: tc2_def thread_ok_def scf_def intro!: known_join reached_join)
  define tc3 where "tc3 = (if ord \<noteq> FenceAcquire then apply_release_fence tc2 else tc2)"
  have eq: "atomic_fence g t ord = obind (if ord \<noteq> FenceAcquire
      then obind (increment_clock tc3 i) (\<lambda>tc. Ok (put_clocks g i tc, scf)) else Ok (put_clocks g i tc3, scf))
      (\<lambda>(self, c). Ok (self\<lparr>last_sc_fence := c\<rparr>) :: ('a, _) outcome)"
    by (simp add: atomic_fence_def maybe_perform_sync_operation_def True st tc3_def tc2_def scf_def tc1_def Let_def)
  show ?thesis
  proof (cases "ord = FenceAcquire")
    case True
    then have "g' = (put_clocks g i tc2)\<lparr>last_sc_fence := last_sc_fence g\<rparr>" using run unfolding eq by (simp add: tc3_def scf_def)
    also have "\<dots> = put_clocks g i tc2" by (simp add: put_clocks_def)
    finally show ?thesis using race_inv_same_time [OF inv tc(1) tc2] by (simp add: advances_def)
  next
    case False
    then obtain tc4 where inc: "increment_clock tc3 i = (Ok tc4 :: ('a, _) outcome)"
      and g': "g' = (put_clocks g i tc4)\<lparr>last_sc_fence := scf\<rparr>" using run unfolding eq by (auto simp: outcome_eqs)
    have tc3': "tc3 = tc2\<lparr>fence_release := clock tc2\<rparr>" using False by (simp add: tc3_def apply_release_fence_def VClock_clone_from_def)
    obtain tc2' where inc2: "increment_clock tc2 i = (Ok tc2' :: ('a, _) outcome)" "tc4 = tc2'\<lparr>fence_release := clock tc2\<rparr>"
      using inc unfolding tc3' by (auto simp: increment_clock_def outcome_eqs)
    note step = thread_ok_increment [OF tc2 race_inv_hist [OF inv] inc2(1)]
    have tc4: "thread_ok ?b hs i tc4" "clock_time (clock tc4) i = own_time g i + 1"
      using step unfolding inc2(2) by (auto simp: thread_ok_def)
    have inv4: "race_inv hs (put_clocks g i tc4)" by (rule race_inv_put [OF inv tc(1)]) (use tc4 in simp_all)
    have own4: "own_time (put_clocks g i tc4) = ?b" using own_time_put [OF tc(1), of tc4] tc4(2) by simp
    have own': "own_time g' = ?b" using own4 own_time_cong [of g' "put_clocks g i tc4"] by (simp add: g')
    have "info_ok hs g' = info_ok hs (put_clocks g i tc4)" by (simp add: info_ok_def own' own4) (simp add: g')
    then have "race_inv hs g'" using inv4 scf unfolding race_inv_def own' own4 by (simp add: g')
    then show ?thesis using own' by (simp add: advances_def) (simp add: g')
  qed
qed

lemma sc_write_inv:
  assumes "race_inv hs g" "sc_write g t = Ok g'"
  shows "race_inv hs g' \<and> advances g g'"
proof -
  from assms(2) obtain i tc v where st: "thread_state g t = (Ok (i, tc) :: ('a, _) outcome)"
    and v: "set_at_index (last_sc_write_per_thread g) (clock tc) i = (Ok v :: ('a, _) outcome)"
      and g': "g' = g\<lparr>last_sc_write_per_thread := v\<rparr>" by (auto simp: sc_write_def outcome_eqs)
  note tc = thread_state_Ok [OF assms(1) st]
  have r: "reached (own_time g) (last_sc_write_per_thread g)" using assms(1) by (simp add: race_inv_def)
  then have "vclock_inv (last_sc_write_per_thread g)" by (simp add: reached_def)
  note set = set_at_index_time [OF this, of i "clock tc", where 'e = 'a]
  have "clock_time (last_sc_write_per_thread g) i \<le> clock_time (clock tc) i"
    using set(2) v by (metis outcome.distinct(3))
  from set(1) [OF this] v have "vclock_inv v" "clock_time v = (clock_time (last_sc_write_per_thread g))(i := clock_time (clock tc) i)"
    by auto
  with r tc(3) have "reached (own_time g) v" by (auto simp: reached_def thread_ok_def)
  moreover have "own_time g' = own_time g" by (rule own_time_cong) (simp add: g')
  ultimately show ?thesis using assms(1) by (auto simp: race_inv_def advances_def info_ok_def g')
qed

lemma sc_read_inv:
  assumes "race_inv hs g" "sc_read g t = Ok g'"
  shows "race_inv hs g' \<and> advances g g'"
proof -
  from assms(2) obtain i tc where st: "thread_state g t = (Ok (i, tc) :: ('a, _) outcome)"
    and g': "g' = put_clocks g i (tc\<lparr>read_seqcst := VClock_join (read_seqcst tc) (last_sc_fence g)\<rparr>)"
    by (auto simp: sc_read_def outcome_eqs)
  note tc = thread_state_Ok [OF assms(1) st]
  have "reached (own_time g) (last_sc_fence g)" using assms(1) by (auto simp: race_inv_def intro: known_reached)
  with tc(3) have "thread_ok (own_time g) hs i (tc\<lparr>read_seqcst := VClock_join (read_seqcst tc) (last_sc_fence g)\<rparr>)"
    by (auto simp: thread_ok_def intro: reached_join)
  from race_inv_same_time [OF assms(1) tc(1) this] show ?thesis by (auto simp: g' advances_def)
qed

section \<open>Threads keep the invariant\<close>

lemma clock_behind:
  assumes "thread_ok own hs i tc" "c \<noteq> i" "0 < own c"
  shows "clock_time (clock tc) c < own c"
proof -
  have "known (bump own i) hs (clock tc)" using assms(1) by (simp add: thread_ok_def)
  from known_less [OF this, of c] assms(2,3) show ?thesis by simp
qed

lemma stamp_index: "stamp_time (VClock_index c j) = clock_time c j"
  by (simp add: clock_time_def)

text \<open>The index of a terminated thread is never taken over: its time advanced once more after the clock of its
  end was handed out, and no running thread can have seen that time.\<close>

lemma reuse_loop_None:
  assumes "\<And>c. c \<in> set order \<Longrightarrow> c < length (vector_clocks g) \<and> 0 < own_time g c \<and> c \<noteq> i"
    and "i < length (vector_clocks g)" "i \<notin> reuse_candidates g" "thread_ok (own_time g) hs i (vector_clocks g ! i)"
  shows "reuse_loop g order = Ok None"
  using assms(1)
proof (induction order)
  case (Cons c order)
  have c: "c < length (vector_clocks g)" "0 < own_time g c" "c \<noteq> i" using Cons.prems [of c] by simp_all
  have "clock_time (clock (vector_clocks g ! i)) c < own_time g c" by (rule clock_behind [OF assms(4) c(3,2)])
  then have lt: "clock_time (clock (vector_clocks g ! i)) c < clock_time (clock (vector_clocks g ! c)) c" using c(1) by (simp add: own_time_def)
  have "(i, vector_clocks g ! i) \<in> set (enumerate 0 (vector_clocks g))" using assms(2) by (simp add: in_set_enumerate_eq)
  with lt assms(3) have "\<not> list_all (\<lambda>(clock_idx, clocks). VTimestamp_le (VClock_index (clock (vector_clocks g ! c)) c) (VClock_index (clock clocks) c) \<or>
      clock_idx \<in> reuse_candidates g) (enumerate 0 (vector_clocks g))"
    by (auto simp: list_all_iff stamp_index not_le intro!: bexI [of _ "(i, vector_clocks g ! i)"])
  then show ?case using c(1) Cons by (simp add: Let_def)
qed simp

lemma no_reuse:
  assumes "race_inv hs g" "alive g t" "set order \<subseteq> reuse_candidates g"
  shows "find_vector_index_reuse_candidate g order = (Ok (g, None) :: ('e, _) outcome)"
proof -
  obtain i where "i < length (vector_clocks g)" "i \<notin> reuse_candidates g" "thread_ok (own_time g) hs i (vector_clocks g ! i)"
    using thread_state_alive [OF assms(1,2)] by metis
  moreover have "c < length (vector_clocks g) \<and> 0 < own_time g c \<and> c \<noteq> i" if "c \<in> set order" for c
    using assms(1,3) that \<open>i \<notin> reuse_candidates g\<close> by (auto simp: race_inv_def)
  ultimately have "reuse_loop g order = (Ok None :: ('e, _) outcome)" by (intro reuse_loop_None [where i = i and hs = hs]) auto
  then show ?thesis by (simp add: find_vector_index_reuse_candidate_def)
qed

lemma fresh_entry: "ThreadExtraState_default\<lparr>vector_index := x\<rparr> = \<lparr>vector_index = x, termination_vector_clock = None\<rparr>"
  by (simp add: ThreadExtraState_default_def)

lemma thread_created_shape:
  assumes inv: "race_inv hs g" and al: "alive g t" and ord: "set order \<subseteq> reuse_candidates g" and fresh: "length (thread_info g) \<le> t'"
    and run: "thread_created g t t' order = (Ok g' :: ('b, _) outcome)"
  obtains i cur new where "i < length (vector_clocks g)" "length (vector_clocks g) < 2 ^ 32"
    "increment_clock (vector_clocks g ! i) i = (Ok cur :: ('e, _) outcome)"
    "increment_clock (join_with ThreadClockSet_default (vector_clocks g ! i)) (length (vector_clocks g)) = (Ok new :: ('e, _) outcome)"
    "g' = g\<lparr>multi_threaded := True, vector_clocks := (vector_clocks g)[i := cur] @ [new], vector_info := vector_info g @ [t'],
      thread_info := (ensure_contains_elem (thread_info g) t' ThreadExtraState_default)
        [t' := \<lparr>vector_index = Some (length (vector_clocks g)), termination_vector_clock = None\<rparr>]\<rparr>"
proof -
  let ?n = "length (vector_clocks g)"
  obtain i where i: "thread_index g t = (Ok i :: ('b, _) outcome)" "i < ?n" "i \<notin> reuse_candidates g" "thread_ok (own_time g) hs i (vector_clocks g ! i)"
    using thread_state_alive [OF inv al] by metis
  let ?ti = "ensure_contains_elem (thread_info g) t' ThreadExtraState_default"
  let ?g1 = "g\<lparr>multi_threaded := True, thread_info := ?ti\<rparr>"
  have cand: "c < ?n \<and> 0 < own_time g c \<and> c \<noteq> i" if "c \<in> set order" for c
    using inv ord that i(3) by (auto simp: race_inv_def)
  have own1: "own_time ?g1 = own_time g" by (rule own_time_cong) simp
  have "reuse_loop ?g1 order = (Ok None :: ('b, _) outcome)"
    by (rule reuse_loop_None [where i = i and hs = hs]) (use cand i own1 in simp_all)
  then have find: "find_vector_index_reuse_candidate ?g1 order = (Ok (?g1, None) :: ('b, _) outcome)" by (simp add: find_vector_index_reuse_candidate_def)
  have lti: "t' < length ?ti" "?ti ! t' = ThreadExtraState_default"
    using fresh by (simp_all add: ensure_contains_elem_def nth_append)
  have vi: "length (vector_info g) = ?n" using inv by (simp add: race_inv_def)
  let ?h = "\<lambda>cur new. put_clocks (put_clocks (?g1\<lparr>vector_info := vector_info g @ [t'],
        thread_info := ?ti[t' := \<lparr>vector_index = Some ?n, termination_vector_clock = None\<rparr>],
        vector_clocks := vector_clocks g @ [ThreadClockSet_default]\<rparr>) i cur) ?n new"
  have eq: "thread_created g t t' order = (if ?n < 2 ^ 32
      then obind (increment_clock (vector_clocks g ! i) i) (\<lambda>cur.
        obind (increment_clock (join_with ThreadClockSet_default (vector_clocks g ! i)) ?n) (\<lambda>new. Ok (?h cur new))) else Panic :: ('b, _) outcome)"
    using i(2) lti by (simp add: thread_created_def i(1) Let_def find assign_vector_index_def vi VectorIdx_new_def nth_append fresh_entry)
  from run have small: "?n < 2 ^ 32" unfolding eq by (simp split: if_splits)
  from run small obtain cur new where inc: "increment_clock (vector_clocks g ! i) i = (Ok cur :: ('b, _) outcome)"
    "increment_clock (join_with ThreadClockSet_default (vector_clocks g ! i)) ?n = (Ok new :: ('b, _) outcome)"
    and g': "g' = ?h cur new" unfolding eq by (auto simp: obind_eq_Ok)
  have conv: "increment_clock tc j = (Ok x :: ('e, _) outcome)" if "increment_clock tc j = (Ok x :: ('b, _) outcome)" for tc j x
    using that by (auto simp: increment_clock_def increment_index_def VTimestamp_set_time_def encode_cases outcome_eqs Let_def split: if_splits)
  show ?thesis
    by (rule that [OF i(2) small conv [OF inc(1)] conv [OF inc(2)]])
      (use i(2) in \<open>simp add: g' put_clocks_def list_update_append\<close>)
qed

lemma thread_ok_created:
  assumes tc: "thread_ok own hs i tc" and h: "\<And>h. h \<in> hs \<Longrightarrow> hist_ok own n h" and n: "i < n" "own n = 0"
    and inc: "increment_clock (join_with ThreadClockSet_default tc) n = Ok new"
  shows "clock_time (clock new) n = 1" "thread_ok ((bump own i)(n := 1)) hs n new"
proof -
  have k: "known (bump own i) hs (clock tc)" using tc by (simp add: thread_ok_def)
  let ?c = "VClock_join [] (clock tc)"
  have t: "clock_time ?c = clock_time (clock tc)" by (simp add: fun_eq_iff join_time)
  have inv: "vclock_inv ?c" using k by (simp add: join_inv known_def)
  have z: "clock_time (clock tc) n = 0" using k n by (auto simp: known_def)
  from inc obtain c where c: "increment_index ?c n = (Ok c :: ('a, _) outcome)" "new = ThreadClockSet_default\<lparr>clock := c\<rparr>"
    by (auto simp: increment_clock_def outcome_eqs join_with_def ThreadClockSet_default_def)
  have ct: "vclock_inv c" "clock_time c = (clock_time (clock tc))(n := 1)"
    using increment_index_time [OF inv, of n, where 'e = 'a] c(1) by (auto simp: t z)
  have "closed (clock_time c) h" if "h \<in> hs" for h
    unfolding ct(2) using k that assms(2) [OF that] z by (intro closed_raise) (auto simp: known_def hist_ok_def)
  moreover have "clock_time c j = 0 \<or> clock_time c j < (bump ((bump own i)(n := 1)) n) j" for j
    using k ct(2) by (auto simp: known_def)
  ultimately have "known (bump ((bump own i)(n := 1)) n) hs c" using ct(1) unfolding known_def by blast
  then show "thread_ok ((bump own i)(n := 1)) hs n new" "clock_time (clock new) n = 1"
    unfolding thread_ok_def c(2) by (auto simp: ThreadClockSet_default_def ct(2))
qed

lemma thread_created_inv:
  assumes inv: "race_inv hs g" and al: "alive g t" and ord: "set order \<subseteq> reuse_candidates g" and fresh: "length (thread_info g) \<le> t'"
    and run: "thread_created g t t' order = (Ok g' :: ('e, _) outcome)"
  shows "race_inv hs g' \<and> advances g g' \<and> multi_threaded g'"
proof -
  let ?n = "length (vector_clocks g)"
  obtain i cur new where i: "i < ?n" "?n < 2 ^ 32" and inc: "increment_clock (vector_clocks g ! i) i = (Ok cur :: ('e, _) outcome)"
    "increment_clock (join_with ThreadClockSet_default (vector_clocks g ! i)) ?n = (Ok new :: ('e, _) outcome)"
    and g': "g' = g\<lparr>multi_threaded := True, vector_clocks := (vector_clocks g)[i := cur] @ [new], vector_info := vector_info g @ [t'],
      thread_info := (ensure_contains_elem (thread_info g) t' ThreadExtraState_default)
        [t' := \<lparr>vector_index = Some ?n, termination_vector_clock = None\<rparr>]\<rparr>"
    using thread_created_shape [OF inv al ord fresh run, where 'e = 'e] by blast
  have tci: "thread_ok (own_time g) hs i (vector_clocks g ! i)" using inv i by (simp add: race_inv_def)
  note cur = thread_ok_increment [OF tci race_inv_hist [OF inv] inc(1)]
  have zn: "own_time g ?n = 0" by (simp add: own_time_def)
  note new = thread_ok_created [OF tci race_inv_hist [OF inv] i(1) zn inc(2)]
  define own where "own = (bump (own_time g) i)(?n := 1)"
  have len: "length (vector_clocks g') = ?n + 1" by (simp add: g')
  have own': "own_time g' = own"
    using i cur(2) new(1) by (auto simp: fun_eq_iff own_time_def own_def g' nth_append nth_list_update)
  have mono: "own_time g \<le> own" using zn by (auto simp: own_def le_fun_def)
  have th: "thread_ok own hs j (vector_clocks g' ! j)" if j: "j < ?n + 1" for j
  proof -
    have b: "bump (own_time g) i \<le> own" using zn i by (auto simp: own_def le_fun_def)
    consider "j = ?n" | "j = i" | "j < ?n" "j \<noteq> i" using j by linarith
    then show ?thesis
    proof cases
      case 1
      with new(2) show ?thesis by (simp add: g' nth_append own_def)
    next
      case 2
      with i have "own j = bump (own_time g) i j" by (simp add: own_def)
      with thread_ok_mono [OF cur(1) b] 2 i show ?thesis by (simp add: g' nth_append)
    next
      case 3
      then have "thread_ok (own_time g) hs j (vector_clocks g ! j)" "own j = own_time g j" using inv by (simp_all add: race_inv_def own_def)
      with thread_ok_mono [OF this(1) mono] 3 show ?thesis by (simp add: g' nth_append)
    qed
  qed
  have pos: "0 < own j" if "j < ?n + 1" for j
  proof (cases "2 \<le> ?n")
    case True
    then have "0 < own_time g j" if "j < ?n" using inv that by (simp add: race_inv_def)
    then show ?thesis using that by (auto simp: own_def)
  next
    case False
    then show ?thesis using that i by (auto simp: own_def)
  qed
  have info: "info_ok hs g'"
  proof -
    have "length (thread_info g') = t' + 1" using fresh by (simp add: g' ensure_contains_elem_def)
    moreover have "thread_info g' ! k = (if k = t' then \<lparr>vector_index = Some ?n, termination_vector_clock = None\<rparr>
        else if k < length (thread_info g) then thread_info g ! k else ThreadExtraState_default)" if "k < t' + 1" for k
      using that fresh by (auto simp: g' ensure_contains_elem_def nth_append nth_list_update)
    moreover have "length (vector_info g) = ?n" "reuse_candidates g' = reuse_candidates g" "vector_info g' = vector_info g @ [t']"
      using inv by (simp_all add: race_inv_def g')
    moreover have "info_ok hs g" using inv by (simp add: race_inv_def)
    ultimately show ?thesis unfolding info_ok_def own' len
      by (auto simp: ThreadExtraState_default_def nth_append less_SucI known_mono [OF _ mono])
  qed
  have "\<forall>j\<in>reuse_candidates g. j < ?n \<and> 0 < own_time g j" using inv by (simp add: race_inv_def)
  then have reuse: "\<forall>j\<in>reuse_candidates g'. j < ?n + 1 \<and> 0 < own j" using pos by (auto simp: g')
  have rest: "known own hs (last_sc_fence g)" "reached own (last_sc_write_per_thread g)" "\<forall>h\<in>hs. hist_ok own (?n + 1) h"
    "length (vector_info g) = ?n"
    using inv known_mono [OF _ mono] reached_mono [OF _ mono] hist_ok_mono [OF _ mono] by (auto simp: race_inv_def)
  have "race_inv hs g'" unfolding race_inv_def own' len using th info reuse pos rest i by (simp add: g')
  then show ?thesis using mono by (simp add: advances_def own' len) (simp add: g')
qed

text \<open>Joining never turns race detection off again: the joined thread cannot have seen the current time of the
  thread that waits for it.\<close>

lemma thread_joined_inv:
  assumes inv: "race_inv hs g" and al: "alive g t" and run: "thread_joined g t live j = (Ok g' :: ('e, _) outcome)"
  shows "race_inv hs g' \<and> advances g g' \<and> multi_threaded g' = multi_threaded g"
proof -
  from run obtain c g1 where j: "j < length (thread_info g)" "termination_vector_clock (thread_info g ! j) = Some c"
    and acq: "acquire_clock g c t = (Ok g1 :: ('e, _) outcome)"
    by (auto simp: thread_joined_def outcome_eqs vec_get_def split: if_splits)
  have k: "known (own_time g) hs c" using inv j by (simp add: race_inv_def info_ok_def)
  note g1 = acquire_clock_inv [OF inv k acq]
  have cont: "(thread_joined g t live j :: ('e, _) outcome) = (case vector_index (thread_info g ! j) of None \<Rightarrow> Ok g1 | Some ci \<Rightarrow>
      if live = 1 then obind (vec_get (vector_clocks g1) ci) (\<lambda>cc.
        if list_all (\<lambda>(idx, clocks). VTimestamp_le (VClock_index (clock clocks) idx) (VClock_index (clock cc) idx)) (enumerate 0 (vector_clocks g1))
        then Ok (g1\<lparr>multi_threaded := False\<rparr>) else Ok g1)
      else Ok g1)"
    by (simp add: thread_joined_def j acq)
  have "g' = g1 \<or> (g' = g1\<lparr>multi_threaded := False\<rparr> \<and> \<not> multi_threaded g1)"
  proof (cases "vector_index (thread_info g ! j)")
    case None
    then show ?thesis using run unfolding cont by simp
  next
    case (Some ci)
    show ?thesis
    proof (cases "multi_threaded g1")
      case True
      obtain i where i: "i < length (vector_clocks g)" "i \<notin> reuse_candidates g" using thread_state_alive [OF inv al] by metis
      have ci: "ci \<in> reuse_candidates g" using inv j Some by (simp add: race_inv_def info_ok_def)
      have n1: "length (vector_clocks g) \<le> length (vector_clocks g1)" using g1 by (simp add: advances_def)
      with i have i1: "i < length (vector_clocks g1)" by simp
      have "ci < length (vector_clocks g1)" using inv ci n1 by (auto simp: race_inv_def)
      then have cc: "thread_ok (own_time g1) hs ci (vector_clocks g1 ! ci)" "vec_get (vector_clocks g1) ci = (Ok (vector_clocks g1 ! ci) :: ('e, _) outcome)"
        using g1 by (simp_all add: race_inv_def)
      have "0 < own_time g1 i" using g1 True i1 by (auto simp: race_inv_def)
      from clock_behind [OF cc(1) _ this] i(2) ci have "clock_time (clock (vector_clocks g1 ! ci)) i < own_time g1 i" by auto
      then have "\<not> list_all (\<lambda>(idx, clocks). VTimestamp_le (VClock_index (clock clocks) idx) (VClock_index (clock (vector_clocks g1 ! ci)) idx))
          (enumerate 0 (vector_clocks g1))"
        using i1 by (auto simp: list_all_iff in_set_enumerate_eq stamp_index own_time_def not_le intro!: exI [of _ i] bexI [of _ "(i, vector_clocks g1 ! i)"])
      then show ?thesis using run unfolding cont by (simp add: Some cc(2) split: if_splits)
    next
      case False
      then show ?thesis using run unfolding cont Some by (auto simp: outcome_eqs split: if_splits)
    qed
  qed
  then show ?thesis
  proof
    assume e: "g' = g1\<lparr>multi_threaded := False\<rparr> \<and> \<not> multi_threaded g1"
    then have "g' = g1" by simp
    with g1 show ?thesis by simp
  qed (use g1 in simp)
qed

lemma thread_terminated_inv:
  assumes inv: "race_inv hs g" and run: "thread_terminated g t = (Ok g' :: ('e, _) outcome)"
  shows "race_inv hs g' \<and> advances g g' \<and> multi_threaded g' = multi_threaded g"
proof -
  from run obtain i g1 c where i: "thread_index g t = (Ok i :: ('e, _) outcome)" and rel: "release_clock g t = (Ok (g1, c) :: ('e, _) outcome)"
    and t: "t < length (thread_info g1)"
    and g': "g' = g1\<lparr>thread_info := (thread_info g1)[t := (thread_info g1 ! t)\<lparr>termination_vector_clock := Some c\<rparr>],
      reuse_candidates := insert i (reuse_candidates g1)\<rparr>"
    by (auto simp: thread_terminated_def outcome_eqs vec_get_def split: if_splits)
  note g1 = release_clock_inv [OF inv rel, where 'e = 'e]
  have mt: "multi_threaded g1 = multi_threaded g" using rel by (auto simp: release_clock_def outcome_eqs put_clocks_def Let_def)
  have own: "own_time g' = own_time g1" by (rule own_time_cong) (simp add: g')
  have pos: "i < length (vector_clocks g1)" "0 < own_time g1 i" using g1 i by auto
  have vi: "vector_index (thread_info g1 ! t) = Some i"
    using i g1 by (auto simp: thread_index_def outcome_eqs vec_get_def split: if_splits)
  have "info_ok hs g1" using g1 by (simp add: race_inv_def)
  then have "info_ok hs g'" using g1 vi t unfolding info_ok_def own by (auto simp: g' nth_list_update)
  then have "race_inv hs g'" using g1 pos unfolding race_inv_def own by (simp add: g')
  then show ?thesis using g1 mt by (auto simp: advances_def own) (simp_all add: g')
qed

end
