(* ===== verification/Race_System.thy ===== *)
theory Race_System
  imports Race_Inv
begin

text \<open>
  The race detector at work: a system of threads, allocations and released clocks whose steps are the
  detector's hooks, with the history of every byte as a ghost. \<open>sys_inv\<close> holds in every reachable state; from
  it follow the exactness of the non-atomic checks, the accuracy of the reports, and two facts about the
  management of vector indices.
\<close>

section \<open>The system\<close>

record RaceSys =
  sys_global :: GlobalState
  sys_mem :: "nat \<Rightarrow> VClockAlloc option"
  sys_released :: "VClock set"
  sys_hist :: "nat \<Rightarrow> nat \<Rightarrow> history"

definition sys_init :: "bool \<Rightarrow> bool \<Rightarrow> RaceSys" where
  "sys_init track_outdated weak =
     \<lparr>sys_global = GlobalState_new track_outdated weak, sys_mem = (\<lambda>_. None), sys_released = {[]}, sys_hist = (\<lambda>_ _. [])\<rparr>"

definition log_access :: "RaceSys \<Rightarrow> nat \<Rightarrow> nat \<Rightarrow> nat \<Rightarrow> history \<Rightarrow> nat \<Rightarrow> nat \<Rightarrow> history" where
  "log_access s a off len evs = (\<lambda>b k. if b = a \<and> off \<le> k \<and> k < off + len then evs @ sys_hist s b k else sys_hist s b k)"

text \<open>The accesses that the hooks record, at the index and time of the accessing thread.\<close>

definition logged :: "GlobalState \<Rightarrow> ThreadId \<Rightarrow> access_mode list \<Rightarrow> history" where
  "logged g t modes =
     (case thread_state g t of
        Ok (i, tc) \<Rightarrow> map (\<lambda>m. Event m i (clock_time (clock tc) i)) modes
      | Err (e :: unit) \<Rightarrow> [] | Panic \<Rightarrow> [] | Diverge \<Rightarrow> [])"

definition in_mem :: "RaceSys \<Rightarrow> nat \<Rightarrow> nat \<Rightarrow> nat \<Rightarrow> VClockAlloc \<Rightarrow> bool" where
  "in_mem s a off len m \<longleftrightarrow> sys_mem s a = Some m \<and> off + len \<le> DedupRangeMap_size m"

type_synonym 'a hook = "(RaceReport, 'a) outcome"

text \<open>The steps of a thread \<open>t\<close> that runs. Clocks reach the synchronization objects of the interpreter (locks,
  condition variables, store buffers) when they are released or read off an allocation, and objects join them.\<close>

inductive race_step :: "RaceSys \<Rightarrow> RaceSys \<Rightarrow> bool" where
  spawn: "alive (sys_global s) t \<Longrightarrow> set order = reuse_candidates (sys_global s) \<Longrightarrow>
    (thread_created (sys_global s) t (length (thread_info (sys_global s))) order :: GlobalState hook) = Ok g \<Longrightarrow>
    race_step s (s\<lparr>sys_global := g\<rparr>)"
| join: "alive (sys_global s) t \<Longrightarrow> (thread_joined (sys_global s) t live j :: GlobalState hook) = Ok g \<Longrightarrow> race_step s (s\<lparr>sys_global := g\<rparr>)"
| terminate: "alive (sys_global s) t \<Longrightarrow> (thread_terminated (sys_global s) t :: GlobalState hook) = Ok g \<Longrightarrow> race_step s (s\<lparr>sys_global := g\<rparr>)"
| fence: "alive (sys_global s) t \<Longrightarrow> (atomic_fence (sys_global s) t ford :: GlobalState hook) = Ok g \<Longrightarrow> race_step s (s\<lparr>sys_global := g\<rparr>)"
| release: "alive (sys_global s) t \<Longrightarrow> (release_clock (sys_global s) t :: (GlobalState \<times> VClock) hook) = Ok (g, c) \<Longrightarrow>
    race_step s (s\<lparr>sys_global := g, sys_released := insert c (sys_released s)\<rparr>)"
| acquire: "alive (sys_global s) t \<Longrightarrow> c \<in> sys_released s \<Longrightarrow> (acquire_clock (sys_global s) c t :: GlobalState hook) = Ok g \<Longrightarrow>
    race_step s (s\<lparr>sys_global := g\<rparr>)"
| combine: "c \<in> sys_released s \<Longrightarrow> d \<in> sys_released s \<Longrightarrow> race_step s (s\<lparr>sys_released := insert (VClock_join c d) (sys_released s)\<rparr>)"
| sync: "sys_mem s a = Some m \<Longrightarrow> (sync_clock m off len :: VClock hook) = Ok c \<Longrightarrow>
    race_step s (s\<lparr>sys_released := insert c (sys_released s)\<rparr>)"
| scread: "alive (sys_global s) t \<Longrightarrow> (sc_read (sys_global s) t :: GlobalState hook) = Ok g \<Longrightarrow> race_step s (s\<lparr>sys_global := g\<rparr>)"
| scwrite: "alive (sys_global s) t \<Longrightarrow> (sc_write (sys_global s) t :: GlobalState hook) = Ok g \<Longrightarrow> race_step s (s\<lparr>sys_global := g\<rparr>)"
| alloc: "alive (sys_global s) t \<Longrightarrow> sys_mem s a = None \<Longrightarrow> len < 2 ^ 64 \<Longrightarrow>
    (VClockAlloc_new_allocation (sys_global s) t len kind :: VClockAlloc hook) = Ok m \<Longrightarrow> lookup m 0 = Some d \<or> len = 0 \<Longrightarrow>
    race_step s (s\<lparr>sys_mem := (sys_mem s)(a \<mapsto> m),
      sys_hist := (sys_hist s)(a := (\<lambda>k. if k < len then [Event NaW (fst (cell_write d)) (stamp_time (snd (cell_write d)))] else []))\<rparr>)"
| free: "race_step s (s\<lparr>sys_mem := (sys_mem s)(a := None), sys_hist := (sys_hist s)(a := (\<lambda>_. []))\<rparr>)"
| na_read: "alive (sys_global s) t \<Longrightarrow> race_detecting (sys_global s) \<Longrightarrow> in_mem s a off len m \<Longrightarrow>
    read_non_atomic (sys_global s) t False m off len rt ty = Ok (g, m') \<Longrightarrow>
    race_step s (s\<lparr>sys_global := g, sys_mem := (sys_mem s)(a \<mapsto> m'), sys_hist := log_access s a off len (logged (sys_global s) t [NaR])\<rparr>)"
| na_write: "alive (sys_global s) t \<Longrightarrow> race_detecting (sys_global s) \<Longrightarrow> in_mem s a off len m \<Longrightarrow>
    write_non_atomic (sys_global s) t False m off len wt ty = Ok (g, m') \<Longrightarrow>
    race_step s (s\<lparr>sys_global := g, sys_mem := (sys_mem s)(a \<mapsto> m'), sys_hist := log_access s a off len (logged (sys_global s) t [NaW])\<rparr>)"
| load: "alive (sys_global s) t \<Longrightarrow> race_detecting (sys_global s) \<Longrightarrow> in_mem s a off len m \<Longrightarrow>
    (\<And>c. sc = Some c \<Longrightarrow> c \<in> sys_released s) \<Longrightarrow> validate_atomic_load (sys_global s) t m off len rord sc = Ok (g, m') \<Longrightarrow>
    race_step s (s\<lparr>sys_global := g, sys_mem := (sys_mem s)(a \<mapsto> m'), sys_hist := log_access s a off len (logged (sys_global s) t [AtR])\<rparr>)"
| store: "alive (sys_global s) t \<Longrightarrow> race_detecting (sys_global s) \<Longrightarrow> in_mem s a off len m \<Longrightarrow>
    validate_atomic_store (sys_global s) t m off len word = Ok (g, m') \<Longrightarrow>
    race_step s (s\<lparr>sys_global := g, sys_mem := (sys_mem s)(a \<mapsto> m'), sys_hist := log_access s a off len (logged (sys_global s) t [AtW])\<rparr>)"
| rmw: "alive (sys_global s) t \<Longrightarrow> race_detecting (sys_global s) \<Longrightarrow> in_mem s a off len m \<Longrightarrow>
    validate_atomic_rmw (sys_global s) t m off len rwo = Ok (g, m') \<Longrightarrow>
    race_step s (s\<lparr>sys_global := g, sys_mem := (sys_mem s)(a \<mapsto> m'), sys_hist := log_access s a off len (logged (sys_global s) t [AtW, AtR])\<rparr>)"
| suppress: "(set_ongoing_action_data_race_free (sys_global s) b :: GlobalState hook) = Ok g \<Longrightarrow> race_step s (s\<lparr>sys_global := g\<rparr>)"

definition histories :: "RaceSys \<Rightarrow> history set" where
  "histories s = {sys_hist s a k |a k. True}"

definition mem_ok :: "(VectorIdx \<Rightarrow> nat) \<Rightarrow> history set \<Rightarrow> VClockAlloc \<Rightarrow> (nat \<Rightarrow> history) \<Rightarrow> bool" where
  "mem_ok own hs m hist \<longleftrightarrow> map_inv m \<and> every (cell_known own hs) m \<and>
     (\<forall>k. if k < DedupRangeMap_size m then \<exists>d. lookup m k = Some d \<and> cell_rel d (hist k) else hist k = [])"

definition sys_inv :: "RaceSys \<Rightarrow> bool" where
  "sys_inv s \<longleftrightarrow> race_inv (histories s) (sys_global s) \<and>
     (\<forall>c\<in>sys_released s. known (own_time (sys_global s)) (histories s) c) \<and>
     (\<forall>a m. sys_mem s a = Some m \<longrightarrow> mem_ok (own_time (sys_global s)) (histories s) m (sys_hist s a)) \<and>
     (\<forall>a. sys_mem s a = None \<longrightarrow> sys_hist s a = (\<lambda>_. []))"

section \<open>Loops over an allocation\<close>

lemma every_related:
  assumes "mem_ok own hs m hist" "\<And>k. hist k \<in> hs"
  shows "every (\<lambda>d. cell_known own hs d \<and> (\<exists>h\<in>hs. cell_rel d h)) m"
proof -
  have c: "contiguous 0 m" using assms(1) by (simp add: mem_ok_def map_inv_def)
  have "\<exists>h\<in>hs. cell_rel (data (m ! i)) h" if i: "i < length m" for i
  proof -
    let ?k = "range_start (m ! i)"
    have cov: "Dedup_Range_Map.covers (m ! i) ?k" using contiguous_nth [OF c i] by (simp add: Dedup_Range_Map.covers_def)
    have l: "lookup m ?k = Some (data (m ! i))" by (rule lookup_nth [OF c i cov])
    then have "?k < DedupRangeMap_size m" using lookup_Some_iff [of m ?k] assms(1) by (auto simp: mem_ok_def)
    with l assms show ?thesis unfolding mem_ok_def by (metis option.inject)
  qed
  with assms(1) show ?thesis by (auto simp: mem_ok_def every_def in_set_conv_nth)
qed

text \<open>One lemma for all access loops: what the body does for every history that a cell may stand for, the loop
  does for every byte of the range.\<close>

lemma access_loop:
  assumes m: "mem_ok own hs m hist" and hs: "\<And>k. hist k \<in> hs" and len: "off + len \<le> DedupRangeMap_size m" and s: "S s"
    and body: "\<And>d h x. cell_rel d h \<Longrightarrow> h \<in> hs \<Longrightarrow> cell_known own hs d \<Longrightarrow> S x \<Longrightarrow>
      (case f d x of
         Ok (d', y) \<Rightarrow> S y \<and> cell_known own' hs d' \<and> cell_rel d' (evs @ h) \<and> good h x
       | Err (DataRace d' y) \<Rightarrow> bad h x d' y
       | _ \<Rightarrow> False)"
    and mono: "own \<le> own'"
  shows "case DedupRangeMap_for_each MemoryCellClocks_eq (\<lambda>_ d x. f d x) m off len s of
      Ok (m', t) \<Rightarrow> map_inv m' \<and> DedupRangeMap_size m' = DedupRangeMap_size m \<and> S t \<and> every (cell_known own' hs) m' \<and>
        (\<forall>k<DedupRangeMap_size m. \<exists>d. lookup m' k = Some d \<and> cell_rel d (if off \<le> k \<and> k < off + len then evs @ hist k else hist k)) \<and>
        (\<forall>k. off \<le> k \<and> k < off + len \<longrightarrow> (\<exists>x. S x \<and> good (hist k) x))
    | Err (DataRace d' y) \<Rightarrow> \<exists>k x. off \<le> k \<and> k < off + len \<and> S x \<and> bad (hist k) x d' y
    | _ \<Rightarrow> False"
proof -
  let ?P = "\<lambda>d. cell_known own hs d \<and> (\<exists>h\<in>hs. cell_rel d h)"
  have inv: "map_inv m" using m by (simp add: mem_ok_def)
  have body': "S y \<and> cell_known own' hs d'" if "?P d" "S x" "f d x = Ok (d', y)" for d x d' y
    using that body [of d _ x] by fastforce
  have vis: "cell_rel d (hist k)" "cell_known own hs d" "k < DedupRangeMap_size m"
    if "off \<le> k" "k < off + len" "?P d" "lookup m k = Some d0" "MemoryCellClocks_eq d0 d" for k d d0
  proof -
    show k: "k < DedupRangeMap_size m" using that len by simp
    show "cell_known own hs d" using that by simp
    from m k that(4) have "cell_rel d0 (hist k)" unfolding mem_ok_def by (metis option.inject)
    moreover have "cell_clocks_ok d0" using m lookup_in_set [OF that(4)] by (auto simp: mem_ok_def every_def cell_known_def)
    ultimately show "cell_rel d (hist k)" using cell_rel_eq [OF _ that(5)] that(3) by (simp add: cell_known_def)
  qed
  define visits where "visits = (\<lambda>k d x. off \<le> k \<and> k < off + len \<and> ?P d \<and> S x \<and> (\<exists>d0. lookup m k = Some d0 \<and> MemoryCellClocks_eq d0 d))"
  have th: "case DedupRangeMap_for_each MemoryCellClocks_eq (\<lambda>_. f) m off len s of
      Ok (w, t) \<Rightarrow> map_inv w \<and> DedupRangeMap_size w = DedupRangeMap_size m \<and> S t \<and> every (cell_known own' hs) w \<and>
        (\<forall>k. if off \<le> k \<and> k < off + len then \<exists>d (r :: nat \<times> nat) x d' y. visits k d x \<and> f d x = Ok (d', y) \<and> lookup w k = Some d'
           else rel_option MemoryCellClocks_eq (lookup m k) (lookup w k))
    | Err e \<Rightarrow> \<exists>k d (r :: nat \<times> nat) x. visits k d x \<and> f d x = Err e
    | Panic \<Rightarrow> \<exists>k d (r :: nat \<times> nat) x. visits k d x \<and> f d x = Panic
    | Diverge \<Rightarrow> \<exists>k d (r :: nat \<times> nat) x. visits k d x \<and> f d x = Diverge"
    unfolding visits_def
    by (rule for_each_threaded [where f = "\<lambda>_. f" and P = ?P and S = S and s = s and Q = "cell_known own' hs",
          OF MemoryCellClocks_eq_equivp inv len every_related [OF m hs] s])
      (rule body', assumption+, use cell_known_mono mono in blast)
  show ?thesis
  proof (cases "DedupRangeMap_for_each MemoryCellClocks_eq (\<lambda>_. f) m off len s")
    case (Ok z)
    obtain m' t where z: "z = (m', t)" by (cases z)
    note r = th [unfolded Ok z, simplified]
    have ev: "every (cell_known own' hs) m'" using r by blast
    have cells: "\<exists>d. lookup m' k = Some d \<and> cell_rel d (if off \<le> k \<and> k < off + len then evs @ hist k else hist k) \<and>
        (off \<le> k \<and> k < off + len \<longrightarrow> (\<exists>x. S x \<and> good (hist k) x))" if k: "k < DedupRangeMap_size m" for k
    proof (cases "off \<le> k \<and> k < off + len")
      case True
      with r obtain d x d' y d0 where v: "?P d" "S x" "lookup m k = Some d0" "MemoryCellClocks_eq d0 d" "f d x = Ok (d', y)" "lookup m' k = Some d'"
        unfolding visits_def by metis
      from body [OF vis(1) [OF _ _ v(1,3,4)] hs vis(2) [OF _ _ v(1,3,4)] v(2)] True v show ?thesis by auto
    next
      case False
      obtain d0 where d0: "lookup m k = Some d0" "cell_rel d0 (hist k)" using m k unfolding mem_ok_def by meson
      with r False obtain d where d: "lookup m' k = Some d" "MemoryCellClocks_eq d0 d" by (metis option_rel_Some1)
      have "cell_clocks_ok d0" "cell_clocks_ok d"
        using m lookup_in_set [OF d0(1)] ev lookup_in_set [OF d(1)] by (auto simp: mem_ok_def every_def cell_known_def)
      with cell_rel_eq [OF d0(2) d(2)] d False show ?thesis by auto
    qed
    have "\<exists>x. S x \<and> good (hist k) x" if "off \<le> k" "k < off + len" for k using cells [of k] that len by auto
    with cells r ev show ?thesis unfolding Ok z by auto
  next
    case (Err e)
    obtain d' y where e: "e = DataRace d' y" by (cases e)
    from th [unfolded Err, simplified] obtain k d x d0 where v: "off \<le> k" "k < off + len" "?P d" "S x" "lookup m k = Some d0"
      "MemoryCellClocks_eq d0 d" "f d x = Err e" unfolding visits_def by blast
    from body [OF vis(1) [OF v(1,2,3,5,6)] hs vis(2) [OF v(1,2,3,5,6)] v(4)] v show ?thesis unfolding Err e by auto
  next
    case Panic
    from th [unfolded Panic, simplified] obtain k d x d0 where v: "off \<le> k" "k < off + len" "?P d" "S x" "lookup m k = Some d0"
      "MemoryCellClocks_eq d0 d" "f d x = Panic" unfolding visits_def by blast
    from body [OF vis(1) [OF v(1,2,3,5,6)] hs vis(2) [OF v(1,2,3,5,6)] v(4)] v show ?thesis by simp
  next
    case Diverge
    from th [unfolded Diverge, simplified] obtain k d x d0 where v: "off \<le> k" "k < off + len" "?P d" "S x" "lookup m k = Some d0"
      "MemoryCellClocks_eq d0 d" "f d x = Diverge" unfolding visits_def by blast
    from body [OF vis(1) [OF v(1,2,3,5,6)] hs vis(2) [OF v(1,2,3,5,6)] v(4)] v show ?thesis by simp
  qed
qed

section \<open>The invariant\<close>

lemma mem_ok_mono: "mem_ok own hs m hist \<Longrightarrow> own \<le> own' \<Longrightarrow> mem_ok own' hs m hist"
  unfolding mem_ok_def every_def using cell_known_mono by blast

lemma sys_inv_global:
  assumes "sys_inv s" "race_inv (histories s) g \<and> advances (sys_global s) g"
  shows "sys_inv (s\<lparr>sys_global := g\<rparr>) \<and> advances (sys_global s) (sys_global (s\<lparr>sys_global := g\<rparr>))"
proof -
  have own: "own_time (sys_global s) \<le> own_time g" using assms(2) by (simp add: advances_def)
  have h: "histories (s\<lparr>sys_global := g\<rparr>) = histories s" by (simp add: histories_def)
  from assms known_mono [OF _ own] mem_ok_mono [OF _ own] h show ?thesis by (simp add: sys_inv_def)
qed

lemma hist_in: "sys_hist s a k \<in> histories s"
  by (auto simp: histories_def)

lemma sys_inv_mem: "sys_inv s \<Longrightarrow> sys_mem s a = Some m \<Longrightarrow> mem_ok (own_time (sys_global s)) (histories s) m (sys_hist s a)"
  by (simp add: sys_inv_def)

subsection \<open>Histories that grow\<close>

lemma closed_log: "(\<And>e. e \<in> set evs \<Longrightarrow> ev_mode e \<noteq> NaW) \<Longrightarrow> closed C (evs @ h) = closed C h"
  by (induction evs) auto

lemma race_inv_histories:
  assumes "race_inv hs g" "\<And>h. h \<in> hs' \<Longrightarrow> hist_ok (own_time g) (length (vector_clocks g)) h"
    and kn: "\<And>c. known (own_time g) hs c \<Longrightarrow> known (own_time g) hs' c"
    and th: "\<And>j. j < length (vector_clocks g) \<Longrightarrow> known (bump (own_time g) j) hs' (clock (vector_clocks g ! j))"
  shows "race_inv hs' g"
proof -
  have "thread_ok (own_time g) hs' j (vector_clocks g ! j)" if "j < length (vector_clocks g)" for j
    using assms(1) th [OF that] kn that by (auto simp: race_inv_def thread_ok_def)
  with assms(1,2) kn show ?thesis unfolding race_inv_def info_ok_def by auto
qed

lemma mem_ok_histories:
  assumes "mem_ok own hs m hist" "\<And>c. known own hs c \<Longrightarrow> known own hs' c"
  shows "mem_ok own hs' m hist"
  using assms by (auto simp: mem_ok_def every_def cell_known_def)

text \<open>Replacing the metadata and the histories of one allocation.\<close>

lemma sys_inv_update:
  fixes s g a mo H
  defines "s' \<equiv> s\<lparr>sys_global := g, sys_mem := (sys_mem s)(a := mo), sys_hist := H\<rparr>"
  assumes inv: "sys_inv s" and adv: "advances (sys_global s) g" and g: "race_inv (histories s) g"
    and same: "\<And>b. b \<noteq> a \<Longrightarrow> H b = sys_hist s b"
    and hist: "\<And>k. hist_ok (own_time g) (length (vector_clocks g)) (H a k)"
    and kn: "\<And>c k. known (own_time g) (histories s) c \<Longrightarrow> closed (clock_time c) (H a k)"
    and th: "\<And>j k. j < length (vector_clocks g) \<Longrightarrow> closed (clock_time (clock (vector_clocks g ! j))) (H a k)"
    and mem: "case mo of Some m' \<Rightarrow> mem_ok (own_time g) (histories s) m' (H a) | None \<Rightarrow> H a = (\<lambda>_. [])"
  shows "sys_inv s'"
proof -
  have own: "own_time (sys_global s) \<le> own_time g" using adv by (simp add: advances_def)
  have hs: "h \<in> histories s \<or> (\<exists>k. h = H a k)" if "h \<in> histories s'" for h
    using that same by (auto simp: histories_def s'_def) metis
  have kn': "known (own_time g) (histories s') c" if "known (own_time g) (histories s) c" for c
    using that kn [OF that] hs unfolding known_def by blast
  have "race_inv (histories s') g"
  proof (rule race_inv_histories [OF g _ kn'])
    show "hist_ok (own_time g) (length (vector_clocks g)) h" if "h \<in> histories s'" for h
      using hs [OF that] hist race_inv_hist [OF g] by blast
    show "known (bump (own_time g) j) (histories s') (clock (vector_clocks g ! j))" if "j < length (vector_clocks g)" for j
    proof -
      have "known (bump (own_time g) j) (histories s) (clock (vector_clocks g ! j))" using g that by (simp add: race_inv_def thread_ok_def)
      with th [OF that] hs show ?thesis unfolding known_def by blast
    qed
  qed
  moreover have "known (own_time g) (histories s') c" if "c \<in> sys_released s" for c
    using inv that kn' known_mono [OF _ own] by (auto simp: sys_inv_def)
  moreover have "mem_ok (own_time g) (histories s') m (sys_hist s' b)" if "sys_mem s' b = Some m" for b m
  proof (cases "b = a")
    case True
    then show ?thesis using that mem mem_ok_histories [OF _ kn'] by (auto simp: s'_def)
  next
    case False
    then have "sys_mem s b = Some m" "sys_hist s' b = sys_hist s b" using that same by (simp_all add: s'_def)
    then show ?thesis using mem_ok_histories [OF mem_ok_mono [OF sys_inv_mem [OF inv] own] kn'] by simp
  qed
  moreover have "sys_hist s' b = (\<lambda>_. [])" if "sys_mem s' b = None" for b
    using that mem same inv by (cases "b = a") (auto simp: s'_def sys_inv_def)
  ultimately show ?thesis unfolding sys_inv_def by (simp add: s'_def)
qed

lemma own_pos: "race_inv hs g \<Longrightarrow> race_detecting g \<Longrightarrow> i < length (vector_clocks g) \<Longrightarrow> 0 < own_time g i"
  by (auto simp: race_inv_def race_detecting_def)

lemma thread_state_type: "thread_state g t = (Ok x :: ('e, _) outcome) \<Longrightarrow> thread_state g t = (Ok x :: ('f, _) outcome)"
  by (auto simp: thread_state_def thread_index_def outcome_eqs vec_get_def split: if_splits)

lemma logged_Ok: "thread_state g t = (Ok (i, tc) :: ('e, _) outcome) \<Longrightarrow> logged g t modes = map (\<lambda>m. Event m i (clock_time (clock tc) i)) modes"
  by (drule thread_state_type [where 'f = unit]) (simp add: logged_def)

subsection \<open>The loops of the hooks\<close>

lemma thread_ok_times:
  "thread_ok own hs i tc \<Longrightarrow> vclock_inv c \<Longrightarrow> clock_time c = clock_time (clock tc) \<Longrightarrow> thread_ok own hs i (tc\<lparr>clock := c\<rparr>)"
  by (simp add: thread_ok_def known_def)

lemma write_loop:
  assumes "mem_ok own hs m hist" "\<And>k. hist k \<in> hs" "off + len \<le> DedupRangeMap_size m" "thread_ok own hs i tc"
    and "\<And>h. h \<in> hs \<Longrightarrow> hist_ok own n h"
  shows "case DedupRangeMap_for_each MemoryCellClocks_eq (\<lambda>_ d x. non_atomic_write_detect d x i wt) m off len tc of
      Ok (m', t) \<Rightarrow> map_inv m' \<and> DedupRangeMap_size m' = DedupRangeMap_size m \<and> t = tc \<and> every (cell_known own hs) m' \<and>
        (\<forall>k<DedupRangeMap_size m. \<exists>d. lookup m' k = Some d \<and>
          cell_rel d (if off \<le> k \<and> k < off + len then [Event NaW i (own i)] @ hist k else hist k)) \<and>
        (\<forall>k. off \<le> k \<and> k < off + len \<longrightarrow> (\<exists>x. x = tc \<and> (\<forall>e\<in>set (hist k). before (clock_time (clock tc)) e)))
    | Err (DataRace d' y) \<Rightarrow> \<exists>k x. off \<le> k \<and> k < off + len \<and> x = tc \<and>
        (y = tc \<and> cell_rel d' (hist k) \<and> cell_clocks_ok d' \<and> \<not> (\<forall>e\<in>set (hist k). before (clock_time (clock tc)) e))
    | _ \<Rightarrow> False"
proof (rule access_loop [OF assms(1-3), where S = "\<lambda>x. x = tc"])
  fix d h x
  assume d: "cell_rel d h" "h \<in> hs" "cell_known own hs d" and x: "x = tc"
  have "closed (clock_time (clock tc)) h" "clock_time (clock tc) i = own i" using assms(4) d(2) by (auto simp: thread_ok_def known_def)
  with non_atomic_write_detect_correct [OF d(1) _ _ assms(5) [OF d(2)], of tc i wt] d x
  show "case non_atomic_write_detect d x i wt of
         Ok (d', y) \<Rightarrow> y = tc \<and> cell_known own hs d' \<and> cell_rel d' ([Event NaW i (own i)] @ h) \<and> (\<forall>e\<in>set h. before (clock_time (clock tc)) e)
       | Err (DataRace d' y) \<Rightarrow> y = tc \<and> cell_rel d' h \<and> cell_clocks_ok d' \<and> \<not> (\<forall>e\<in>set h. before (clock_time (clock tc)) e)
       | _ \<Rightarrow> False"
    by (cases "\<forall>e\<in>set h. before (clock_time (clock tc)) e") (auto simp: cell_known_def sync_of_def)
qed simp_all

lemma read_loop:
  fixes tc
  defines "C \<equiv> clock_time (clock tc)"
  assumes "mem_ok own hs m hist" "\<And>k. hist k \<in> hs" "off + len \<le> DedupRangeMap_size m" "thread_ok own hs i tc"
    and "\<And>h. h \<in> hs \<Longrightarrow> hist_ok own n h" "0 < own i"
  shows "case DedupRangeMap_for_each MemoryCellClocks_eq (\<lambda>_ d x. non_atomic_read_detect d x i rt) m off len tc of
      Ok (m', t) \<Rightarrow> map_inv m' \<and> DedupRangeMap_size m' = DedupRangeMap_size m \<and> (thread_ok own hs i t \<and> clock_time (clock t) = C) \<and>
        every (cell_known own hs) m' \<and>
        (\<forall>k<DedupRangeMap_size m. \<exists>d. lookup m' k = Some d \<and>
          cell_rel d (if off \<le> k \<and> k < off + len then [Event NaR i (own i)] @ hist k else hist k)) \<and>
        (\<forall>k. off \<le> k \<and> k < off + len \<longrightarrow> (\<exists>x. (thread_ok own hs i x \<and> clock_time (clock x) = C) \<and>
          (\<forall>e\<in>set (hist k). ev_mode e \<in> {NaW, AtW} \<longrightarrow> before C e)))
    | Err (DataRace d' y) \<Rightarrow> \<exists>k x. off \<le> k \<and> k < off + len \<and> (thread_ok own hs i x \<and> clock_time (clock x) = C) \<and>
        ((thread_ok own hs i y \<and> clock_time (clock y) = C) \<and> cell_rel d' (hist k) \<and> cell_clocks_ok d' \<and>
          \<not> (\<forall>e\<in>set (hist k). ev_mode e \<in> {NaW, AtW} \<longrightarrow> before C e))
    | _ \<Rightarrow> False"
proof (rule access_loop [OF assms(2-4), where S = "\<lambda>x. thread_ok own hs i x \<and> clock_time (clock x) = C"])
  fix d h x
  assume d: "cell_rel d h" "h \<in> hs" "cell_known own hs d" and x: "thread_ok own hs i x \<and> clock_time (clock x) = C"
  have cl: "closed (clock_time (clock x)) h" "clock_time (clock x) i = own i" "vclock_inv (clock x)" "cell_clocks_ok d"
    using x d by (auto simp: thread_ok_def known_def cell_known_def)
  obtain c where c: "vclock_inv c" "clock_time c = clock_time (clock x)"
    "if \<forall>e\<in>set h. ev_mode e \<in> {NaW, AtW} \<longrightarrow> before (clock_time (clock x)) e
     then \<exists>cell'. non_atomic_read_detect d x i rt = Ok (cell', x\<lparr>clock := c\<rparr>) \<and> cell_clocks_ok cell' \<and>
       atomic_ops cell' = atomic_ops d \<and> cell_rel cell' (Event NaR i (clock_time (clock x) i) # h)
     else non_atomic_read_detect d x i rt = Err (DataRace d (x\<lparr>clock := c\<rparr>))"
    using non_atomic_read_detect_correct [OF d(1) cl(4,1) assms(6) [OF d(2)] cl(3,2) assms(7), of rt] by blast
  have "thread_ok own hs i (x\<lparr>clock := c\<rparr>)" using x c thread_ok_times by blast
  with c x cl d show "case non_atomic_read_detect d x i rt of
         Ok (d', y) \<Rightarrow> (thread_ok own hs i y \<and> clock_time (clock y) = C) \<and> cell_known own hs d' \<and> cell_rel d' ([Event NaR i (own i)] @ h) \<and>
           (\<forall>e\<in>set h. ev_mode e \<in> {NaW, AtW} \<longrightarrow> before C e)
       | Err (DataRace d' y) \<Rightarrow> (thread_ok own hs i y \<and> clock_time (clock y) = C) \<and> cell_rel d' h \<and> cell_clocks_ok d' \<and>
           \<not> (\<forall>e\<in>set h. ev_mode e \<in> {NaW, AtW} \<longrightarrow> before C e)
       | _ \<Rightarrow> False"
    by (cases "\<forall>e\<in>set h. ev_mode e \<in> {NaW, AtW} \<longrightarrow> before C e") (auto simp: cell_known_def sync_of_def)
qed (use assms in simp_all)

subsection \<open>Every step keeps the invariant\<close>

lemma logged_step:
  assumes inv: "sys_inv s" and m: "in_mem s a off len m" and g: "race_inv (histories s) g" "advances (sys_global s) g"
    and evs: "\<And>e. e \<in> set evs \<Longrightarrow> ev_idx e = i \<and> 0 < ev_time e \<and> ev_time e \<le> own_time g i" and i: "i < length (vector_clocks g)"
    and m': "map_inv m'" "DedupRangeMap_size m' = DedupRangeMap_size m" "every (cell_known (own_time g) (histories s)) m'"
      "\<And>k. k < DedupRangeMap_size m \<Longrightarrow> \<exists>d. lookup m' k = Some d \<and>
         cell_rel d (if off \<le> k \<and> k < off + len then evs @ sys_hist s a k else sys_hist s a k)"
    and known: "\<And>c h. known (own_time g) (histories s) c \<Longrightarrow> h \<in> histories s \<Longrightarrow> closed (clock_time c) (evs @ h)"
    and threads: "\<And>j k. j < length (vector_clocks g) \<Longrightarrow> off \<le> k \<Longrightarrow> k < off + len \<Longrightarrow>
      closed (clock_time (clock (vector_clocks g ! j))) (evs @ sys_hist s a k)"
  shows "sys_inv (s\<lparr>sys_global := g, sys_mem := (sys_mem s)(a \<mapsto> m'), sys_hist := log_access s a off len evs\<rparr>) \<and>
    advances (sys_global s) g"
proof (rule conjI [OF sys_inv_update [OF inv g(2,1)] g(2)])
  have H: "log_access s a off len evs a k = (if off \<le> k \<and> k < off + len then evs @ sys_hist s a k else sys_hist s a k)" for k
    by (simp add: log_access_def)
  have sz: "off + len \<le> DedupRangeMap_size m" "sys_mem s a = Some m" using m by (simp_all add: in_mem_def)
  show "log_access s a off len evs b = sys_hist s b" if "b \<noteq> a" for b using that by (auto simp: log_access_def)
  show "hist_ok (own_time g) (length (vector_clocks g)) (log_access s a off len evs a k)" for k
  proof -
    have "hist_ok (own_time g) (length (vector_clocks g)) (evs @ sys_hist s a k)"
      using evs race_inv_hist [OF g(1) hist_in, of a k]
    proof (induction evs)
      case (Cons e evs)
      then have "hist_ok (own_time g) (length (vector_clocks g)) (Event (ev_mode e) i (ev_time e) # evs @ sys_hist s a k)"
        using i by (intro hist_ok_Cons) auto
      moreover have "Event (ev_mode e) i (ev_time e) = e" using Cons.prems(1) [of e] by (cases e) auto
      ultimately show ?case by simp
    qed simp
    then show ?thesis using race_inv_hist [OF g(1) hist_in, of a k] by (simp add: H)
  qed
  show "closed (clock_time c) (log_access s a off len evs a k)" if "known (own_time g) (histories s) c" for c k
    using known [OF that hist_in] that hist_in [of s a k] unfolding H by (auto simp: known_def)
  show "closed (clock_time (clock (vector_clocks g ! j))) (log_access s a off len evs a k)" if "j < length (vector_clocks g)" for j k
  proof -
    have "known (bump (own_time g) j) (histories s) (clock (vector_clocks g ! j))" using g(1) that by (simp add: race_inv_def thread_ok_def)
    then show ?thesis using threads [OF that] hist_in [of s a k] by (auto simp: known_def H)
  qed
  have "mem_ok (own_time g) (histories s) m' (log_access s a off len evs a)"
    unfolding mem_ok_def
  proof (intro conjI allI)
    fix k
    have "sys_hist s a k = []" if "\<not> k < DedupRangeMap_size m" using sys_inv_mem [OF inv sz(2)] that by (metis mem_ok_def)
    then show "if k < DedupRangeMap_size m' then \<exists>d. lookup m' k = Some d \<and> cell_rel d (log_access s a off len evs a k)
        else log_access s a off len evs a k = []"
      using m'(4) [of k] sz(1) by (auto simp: m'(2) H)
  qed (use m' in auto)
  then show "case Some m' of None \<Rightarrow> log_access s a off len evs a = (\<lambda>_. [])
      | Some m' \<Rightarrow> mem_ok (own_time g) (histories s) m' (log_access s a off len evs a)" by simp
qed

lemma report_is_no_success [simp]: "report_data_race g t d acc sz ty \<noteq> Ok x"
  by (auto simp: report_data_race_def obind_eq_Ok Let_def)

lemma report_race_Ok [simp]: "report_race g t i acc sz ty R = Ok x \<longleftrightarrow> R = Ok x"
proof (cases R)
  case (Err e)
  then show ?thesis by (cases e) simp
qed simp_all

text \<open>What the proofs of the access steps start from.\<close>

lemma access_start:
  assumes "sys_inv s" "alive (sys_global s) t" "race_detecting (sys_global s)" "in_mem s a off len m"
  obtains i where "thread_state (sys_global s) t = (Ok (i, vector_clocks (sys_global s) ! i) :: (RaceReport, _) outcome)"
    "i < length (vector_clocks (sys_global s))" "race_inv (histories s) (sys_global s)"
    "thread_ok (own_time (sys_global s)) (histories s) i (vector_clocks (sys_global s) ! i)" "0 < own_time (sys_global s) i"
    "mem_ok (own_time (sys_global s)) (histories s) m (sys_hist s a)" "off + len \<le> DedupRangeMap_size m"
    "\<And>modes. logged (sys_global s) t modes = map (\<lambda>mo. Event mo i (own_time (sys_global s) i)) modes"
proof -
  have ri: "race_inv (histories s) (sys_global s)" using assms(1) by (simp add: sys_inv_def)
  obtain i where i: "thread_state (sys_global s) t = (Ok (i, vector_clocks (sys_global s) ! i) :: (RaceReport, _) outcome)"
    "i < length (vector_clocks (sys_global s))" "thread_ok (own_time (sys_global s)) (histories s) i (vector_clocks (sys_global s) ! i)"
    using thread_state_alive [OF ri assms(2)] by metis
  have "logged (sys_global s) t modes = map (\<lambda>mo. Event mo i (own_time (sys_global s) i)) modes" for modes
    using logged_Ok [OF i(1)] i(2) by (simp add: own_time_def)
  with that i ri own_pos [OF ri assms(3) i(2)] assms(4) sys_inv_mem [OF assms(1)] show ?thesis by (auto simp: in_mem_def)
qed

lemma read_step:
  assumes inv: "sys_inv s" and al: "alive (sys_global s) t" and det: "race_detecting (sys_global s)" and m: "in_mem s a off len m"
    and run: "read_non_atomic (sys_global s) t False m off len rt ty = Ok (g, m')"
  shows "sys_inv (s\<lparr>sys_global := g, sys_mem := (sys_mem s)(a \<mapsto> m'), sys_hist := log_access s a off len (logged (sys_global s) t [NaR])\<rparr>) \<and>
    advances (sys_global s) g"
proof -
  let ?g = "sys_global s" and ?hs = "histories s"
  obtain i where st: "thread_state ?g t = (Ok (i, vector_clocks ?g ! i) :: (RaceReport, _) outcome)" "i < length (vector_clocks ?g)"
    and ri: "race_inv ?hs ?g" and tc: "thread_ok (own_time ?g) ?hs i (vector_clocks ?g ! i)" "0 < own_time ?g i"
    and mm: "mem_ok (own_time ?g) ?hs m (sys_hist s a)" "off + len \<le> DedupRangeMap_size m"
    and log: "\<And>modes. logged ?g t modes = map (\<lambda>mo. Event mo i (own_time ?g i)) modes" by (rule access_start [OF inv al det m]) blast
  from run det obtain tc' where each: "DedupRangeMap_for_each MemoryCellClocks_eq (\<lambda>_ d x. non_atomic_read_detect d x i rt) m off len
      (vector_clocks ?g ! i) = Ok (m', tc')" and g: "g = put_clocks ?g i tc'"
    by (auto simp: read_non_atomic_def st(1) obind_eq_Ok)
  note loop = read_loop [OF mm(1) hist_in mm(2) tc(1) race_inv_hist [OF ri] tc(2), of rt, unfolded each, simplified]
  have "thread_ok (own_time ?g) ?hs i tc'" using loop by blast
  note same = race_inv_same_time [OF ri st(2) this]
  have own: "own_time g = own_time ?g" using same unfolding g by simp
  show ?thesis unfolding log
  proof (rule logged_step [OF inv m])
    show "race_inv ?hs g" "advances ?g g" using same by (simp_all add: g advances_def)
    show "closed (clock_time (clock (vector_clocks g ! j))) (map (\<lambda>mo. Event mo i (own_time ?g i)) [NaR] @ sys_hist s a k)"
      if "j < length (vector_clocks g)" for j k
    proof -
      have "known (bump (own_time g) j) ?hs (clock (vector_clocks g ! j))" using same that by (simp add: g race_inv_def thread_ok_def)
      then show ?thesis using hist_in [of s a k] by (simp add: known_def)
    qed
  qed (use loop own tc(2) st(2) g in \<open>auto simp: known_def\<close>)
qed

lemma write_step:
  assumes inv: "sys_inv s" and al: "alive (sys_global s) t" and det: "race_detecting (sys_global s)" and m: "in_mem s a off len m"
    and run: "write_non_atomic (sys_global s) t False m off len wt ty = Ok (g, m')"
  shows "sys_inv (s\<lparr>sys_global := g, sys_mem := (sys_mem s)(a \<mapsto> m'), sys_hist := log_access s a off len (logged (sys_global s) t [NaW])\<rparr>) \<and>
    advances (sys_global s) g"
proof -
  let ?g = "sys_global s" and ?hs = "histories s"
  obtain i where st: "thread_state ?g t = (Ok (i, vector_clocks ?g ! i) :: (RaceReport, _) outcome)" "i < length (vector_clocks ?g)"
    and ri: "race_inv ?hs ?g" and tc: "thread_ok (own_time ?g) ?hs i (vector_clocks ?g ! i)" "0 < own_time ?g i"
    and mm: "mem_ok (own_time ?g) ?hs m (sys_hist s a)" "off + len \<le> DedupRangeMap_size m"
    and log: "\<And>modes. logged ?g t modes = map (\<lambda>mo. Event mo i (own_time ?g i)) modes" by (rule access_start [OF inv al det m]) blast
  from run det obtain tc' where each: "DedupRangeMap_for_each MemoryCellClocks_eq (\<lambda>_ d x. non_atomic_write_detect d x i wt) m off len
      (vector_clocks ?g ! i) = Ok (m', tc')" and g: "g = put_clocks ?g i tc'"
    by (auto simp: write_non_atomic_def st(1) obind_eq_Ok)
  note loop = write_loop [OF mm(1) hist_in mm(2) tc(1) race_inv_hist [OF ri], of wt, unfolded each, simplified]
  have tc': "tc' = vector_clocks ?g ! i" using loop by blast
  have g': "g = ?g" using st(2) by (simp add: g tc' put_clocks_def)
  show ?thesis unfolding log
  proof (rule logged_step [OF inv m])
    show "race_inv ?hs g" "advances ?g g" using ri by (simp_all add: g')
    show "closed (clock_time c) (map (\<lambda>mo. Event mo i (own_time ?g i)) [NaW] @ h)" if "known (own_time g) ?hs c" "h \<in> ?hs" for c h
      using known_less [OF that(1) [unfolded g'] tc(2)] that by (auto simp: known_def)
    show "closed (clock_time (clock (vector_clocks g ! j))) (map (\<lambda>mo. Event mo i (own_time ?g i)) [NaW] @ sys_hist s a k)"
      if j: "j < length (vector_clocks g)" and k: "off \<le> k" "k < off + len" for j k
    proof -
      have ok: "thread_ok (own_time ?g) ?hs j (vector_clocks ?g ! j)" using ri j by (simp add: g' race_inv_def)
      then have cl: "closed (clock_time (clock (vector_clocks g ! j))) (sys_hist s a k)"
        using hist_in [of s a k] by (simp add: g' thread_ok_def known_def)
      show ?thesis
      proof (cases "j = i")
        case True
        then show ?thesis using cl loop k by (auto simp: g')
      next
        case False
        then show ?thesis using cl clock_behind [OF ok _ tc(2)] by (auto simp: g')
      qed
    qed
  qed (use loop tc(2) st(2) g' in auto)
qed

lemma atomic_step:
  assumes inv: "sys_inv s" and al: "alive (sys_global s) t" and det: "race_detecting (sys_global s)" and m: "in_mem s a off len m"
    and run: "validate_atomic_op (sys_global s) t m off len access oper = Ok (g, m')" and modes: "NaW \<notin> set modes"
    and body: "\<And>d h x i. cell_rel d h \<Longrightarrow> h \<in> histories s \<Longrightarrow> cell_known (own_time (sys_global s)) (histories s) d \<Longrightarrow>
      thread_ok (own_time (sys_global s)) (histories s) i x \<Longrightarrow> i < length (vector_clocks (sys_global s)) \<Longrightarrow> 0 < own_time (sys_global s) i \<Longrightarrow>
      (case oper d x i of
         Ok (d', y) \<Rightarrow> thread_ok (own_time (sys_global s)) (histories s) i y \<and> cell_known (bump (own_time (sys_global s)) i) (histories s) d' \<and>
           cell_rel d' (map (\<lambda>mo. Event mo i (own_time (sys_global s) i)) modes @ h)
       | Err e \<Rightarrow> True
       | _ \<Rightarrow> False)"
  shows "sys_inv (s\<lparr>sys_global := g, sys_mem := (sys_mem s)(a \<mapsto> m'), sys_hist := log_access s a off len (logged (sys_global s) t modes)\<rparr>) \<and>
    advances (sys_global s) g"
proof -
  let ?g = "sys_global s" and ?hs = "histories s"
  obtain i where st: "thread_state ?g t = (Ok (i, vector_clocks ?g ! i) :: (RaceReport, _) outcome)" "i < length (vector_clocks ?g)"
    and ri: "race_inv ?hs ?g" and tc: "thread_ok (own_time ?g) ?hs i (vector_clocks ?g ! i)" "0 < own_time ?g i"
    and mm: "mem_ok (own_time ?g) ?hs m (sys_hist s a)" "off + len \<le> DedupRangeMap_size m"
    and log: "\<And>modes. logged ?g t modes = map (\<lambda>mo. Event mo i (own_time ?g i)) modes" by (rule access_start [OF inv al det m]) blast
  have mt: "multi_threaded ?g" using det by (simp add: race_detecting_def)
  have "maybe_perform_sync_operation ?g t (\<lambda>index thread_clocks.
      obind (report_race ?g t index access len False
        (DedupRangeMap_for_each MemoryCellClocks_eq (\<lambda>_ mem_clocks clocks. oper mem_clocks clocks index) m off len thread_clocks))
      (\<lambda>(alloc, thread_clocks). Ok (True, thread_clocks, alloc))) m = Ok (g, m')"
    using run det by (simp add: validate_atomic_op_def split: if_splits)
  then obtain tc1 tc2 where each: "DedupRangeMap_for_each MemoryCellClocks_eq (\<lambda>_ d x. oper d x i) m off len
      (vector_clocks ?g ! i) = Ok (m', tc1)" and inc: "increment_clock tc1 i = (Ok tc2 :: (RaceReport, _) outcome)" and g: "g = put_clocks ?g i tc2"
    by (auto simp: maybe_perform_sync_operation_def mt st(1) obind_eq_Ok)
  have "case DedupRangeMap_for_each MemoryCellClocks_eq (\<lambda>_ d x. oper d x i) m off len (vector_clocks ?g ! i) of
      Ok (m', t) \<Rightarrow> map_inv m' \<and> DedupRangeMap_size m' = DedupRangeMap_size m \<and> thread_ok (own_time ?g) ?hs i t \<and>
        every (cell_known (bump (own_time ?g) i) ?hs) m' \<and>
        (\<forall>k<DedupRangeMap_size m. \<exists>d. lookup m' k = Some d \<and> cell_rel d (if off \<le> k \<and> k < off + len
           then map (\<lambda>mo. Event mo i (own_time ?g i)) modes @ sys_hist s a k else sys_hist s a k)) \<and>
        (\<forall>k. off \<le> k \<and> k < off + len \<longrightarrow> (\<exists>x. thread_ok (own_time ?g) ?hs i x \<and> True))
    | Err (DataRace d' y) \<Rightarrow> \<exists>k x. off \<le> k \<and> k < off + len \<and> thread_ok (own_time ?g) ?hs i x \<and> True
    | _ \<Rightarrow> False"
  proof (rule access_loop [OF mm(1) hist_in mm(2), where S = "thread_ok (own_time ?g) ?hs i"])
    fix d h x
    assume "cell_rel d h" "h \<in> ?hs" "cell_known (own_time ?g) ?hs d" "thread_ok (own_time ?g) ?hs i x"
    from body [OF this st(2) tc(2)] show "case oper d x i of
        Ok (d', y) \<Rightarrow> thread_ok (own_time ?g) ?hs i y \<and> cell_known (bump (own_time ?g) i) ?hs d' \<and>
          cell_rel d' (map (\<lambda>mo. Event mo i (own_time ?g i)) modes @ h) \<and> True
      | Err (DataRace d' y) \<Rightarrow> True | _ \<Rightarrow> False"
      by (auto split: outcome.splits race.splits)
  qed (use tc in \<open>simp_all add: le_fun_def\<close>)
  note loop = this [unfolded each, simplified]
  have "thread_ok (own_time ?g) ?hs i tc1" using loop by blast
  note adv = race_inv_advance [OF ri st(2) this inc]
  have own: "own_time g = bump (own_time ?g) i" using adv by (simp add: g)
  have cl: "closed C (map (\<lambda>mo. Event mo i (own_time ?g i)) modes @ h) = closed C h" for C h
    using modes by (intro closed_log) auto
  show ?thesis unfolding log
  proof (rule logged_step [OF inv m])
    show "race_inv ?hs g" "advances ?g g" using adv by (simp_all add: g advances_def)
    show "closed (clock_time (clock (vector_clocks g ! j))) (map (\<lambda>mo. Event mo i (own_time ?g i)) modes @ sys_hist s a k)"
      if "j < length (vector_clocks g)" for j k
    proof -
      have "known (bump (own_time g) j) ?hs (clock (vector_clocks g ! j))" using adv that by (simp add: g race_inv_def thread_ok_def)
      then show ?thesis using hist_in [of s a k] by (simp add: known_def cl)
    qed
    show "closed (clock_time c) (map (\<lambda>mo. Event mo i (own_time ?g i)) modes @ h)" if "known (own_time g) ?hs c" "h \<in> ?hs" for c h
      using that by (simp add: cl known_def)
    show "every (cell_known (own_time g) ?hs) m'" using loop by (simp add: own)
  qed (use loop own tc(2) st(2) g in auto)
qed

lemma alloc_step:
  assumes inv: "sys_inv s" and al: "alive (sys_global s) t" and new: "sys_mem s a = None" and len: "len < 2 ^ 64"
    and run: "(VClockAlloc_new_allocation (sys_global s) t len kind :: VClockAlloc hook) = Ok m" and d: "lookup m 0 = Some d \<or> len = 0"
  shows "sys_inv (s\<lparr>sys_mem := (sys_mem s)(a \<mapsto> m),
      sys_hist := (sys_hist s)(a := (\<lambda>k. if k < len then [Event NaW (fst (cell_write d)) (stamp_time (snd (cell_write d)))] else []))\<rparr>)"
proof -
  let ?g = "sys_global s" and ?hs = "histories s"
  have ri: "race_inv ?hs ?g" using inv by (simp add: sys_inv_def)
  from run obtain st idx where m: "m = DedupRangeMap_new len (MemoryCellClocks_new st idx)" and idx: "idx < length (vector_clocks ?g)" "stamp_time st \<le> own_time ?g idx"
  proof (cases "kind \<in> {KindRust, KindMiri, KindC, KindWinHeap, KindWinLocal, KindMmap, KindSocketAddress, KindKernel, KindStack}")
    case True
    with run obtain i tc where ts: "thread_state ?g t = (Ok (i, tc) :: (RaceReport, _) outcome)"
      "m = DedupRangeMap_new len (MemoryCellClocks_new (VClock_index (clock tc) i) i)"
      by (auto simp: VClockAlloc_new_allocation_def obind_eq_Ok)
    from that [OF ts(2)] thread_state_Ok [OF ri ts(1)] show ?thesis by (simp add: stamp_index thread_ok_def)
  next
    case False
    with run obtain i where ts: "thread_index ?g MAIN_THREAD = (Ok i :: (RaceReport, _) outcome)"
      "m = DedupRangeMap_new len (MemoryCellClocks_new VTimestamp_ZERO i)"
      by (auto simp: VClockAlloc_new_allocation_def obind_eq_Ok)
    have "i < length (vector_clocks ?g)" using ts(1) ri
      by (auto simp: thread_index_def outcome_eqs vec_get_def race_inv_def info_ok_def split: if_splits)
    from that [OF ts(2) this] show ?thesis by simp
  qed
  let ?e = "Event NaW idx (stamp_time st)"
  let ?H = "(sys_hist s)(a := (\<lambda>k. if k < len then [?e] else []))"
  have cell: "cell_write d = (idx, st)" if "0 < len" using d that by (auto simp: m DedupRangeMap_new_inv MemoryCellClocks_new_def)
  have H: "(sys_hist s)(a := (\<lambda>k. if k < len then [Event NaW (fst (cell_write d)) (stamp_time (snd (cell_write d)))] else [])) = ?H"
    using cell by (auto simp: fun_eq_iff)
  have "cell_known (own_time ?g) ?hs (MemoryCellClocks_new st idx)"
    by (simp add: cell_known_def cell_clocks_ok_def sync_of_def MemoryCellClocks_new_def)
  then have known': "every (cell_known (own_time ?g) ?hs) m" by (simp add: m every_def DedupRangeMap_new_def)
  have rel: "cell_rel (MemoryCellClocks_new st idx) [?e]"
    unfolding cell_rel_def by (rule exI [of _ "[]"]) (auto simp: MemoryCellClocks_new_def atomic_times_def fun_eq_iff)
  have "sys_inv (s\<lparr>sys_global := ?g, sys_mem := (sys_mem s)(a := Some m), sys_hist := ?H\<rparr>)"
  proof (rule sys_inv_update [OF inv advances_refl ri])
    show "case Some m of None \<Rightarrow> ?H a = (\<lambda>_. []) | Some m' \<Rightarrow> mem_ok (own_time ?g) ?hs m' (?H a)"
      using known' rel len by (simp add: mem_ok_def m DedupRangeMap_new_inv)
  qed (use idx in \<open>auto simp: hist_ok_def\<close>)
  then show ?thesis unfolding H by simp
qed

lemma sync_clock_known:
  assumes "mem_ok own hs m hist" "(sync_clock m off len :: VClock hook) = Ok c"
  shows "known own hs c"
proof -
  from assms(2) obtain rs where rs: "DedupRangeMap_iter m off len = (Ok rs :: _ hook)"
    and c: "c = fold (\<lambda>(_, d) c. case atomic_ops d of Some a \<Rightarrow> VClock_join c (sync_vector a) | None \<Rightarrow> c) rs []"
    by (auto simp: sync_clock_def obind_eq_Ok)
  have inv: "map_inv m" using assms(1) by (simp add: mem_ok_def)
  have "known own hs (sync_of (snd x))" if "x \<in> set rs" for x
    using iter_elements(3) [OF inv rs, of "fst (fst x)" "snd (fst x)" "snd x"] that assms(1)
    by (auto simp: mem_ok_def every_def cell_known_def)
  then have "known own hs (fold (\<lambda>(_, d) c. case atomic_ops d of Some a \<Rightarrow> VClock_join c (sync_vector a) | None \<Rightarrow> c) rs [])"
    by (rule fold_invariant) (auto simp: sync_of_def intro: known_join split: option.splits)
  then show ?thesis by (simp add: c)
qed

lemma sys_inv_init: "sys_inv (sys_init a b)"
proof -
  have "histories (sys_init a b) = {[]}" by (auto simp: histories_def sys_init_def)
  moreover have "race_inv {[]} (GlobalState_new a b)"
    by (rule race_inv_histories [OF race_inv_new]) (auto simp: hist_ok_def known_def GlobalState_new_def ThreadClockSet_default_def)
  ultimately show ?thesis by (simp add: sys_inv_def sys_init_def)
qed

lemma race_step_advances: "race_step s s' \<Longrightarrow> sys_inv s \<Longrightarrow> sys_inv s' \<and> advances (sys_global s) (sys_global s')"
proof (induction rule: race_step.induct)
  case (spawn s t order g)
  then show ?case
    by (intro sys_inv_global) (auto simp: sys_inv_def dest!: thread_created_inv [where hs = "histories s", rotated -1])
next
  case (join s t live j g)
  then show ?case using thread_joined_inv [of "histories s" "sys_global s" t live j g] by (intro sys_inv_global) (auto simp: sys_inv_def)
next
  case (terminate s t g)
  then show ?case using thread_terminated_inv [of "histories s" "sys_global s" t g] by (intro sys_inv_global) (auto simp: sys_inv_def)
next
  case (fence s t ford g)
  then show ?case using atomic_fence_inv [of "histories s" "sys_global s" t ford g] by (intro sys_inv_global) (auto simp: sys_inv_def)
next
  case (release s t g c)
  have ri: "race_inv (histories s) (sys_global s)" using release.prems by (simp add: sys_inv_def)
  note r = release_clock_inv [OF ri release.hyps(2), where 'e = unit]
  then have "sys_inv (s\<lparr>sys_global := g\<rparr>)" using release.prems sys_inv_global by blast
  with r show ?case by (auto simp: sys_inv_def histories_def)
next
  case (acquire s t c g)
  have "race_inv (histories s) (sys_global s)" "known (own_time (sys_global s)) (histories s) c"
    using acquire by (simp_all add: sys_inv_def)
  from acquire_clock_inv [OF this acquire.hyps(3)] acquire.prems show ?case by (intro sys_inv_global) auto
next
  case (combine c s d)
  then show ?case by (auto simp: sys_inv_def histories_def intro: known_join)
next
  case (sync s a m off len c)
  have "known (own_time (sys_global s)) (histories s) c"
    using sync_clock_known [OF sys_inv_mem [OF sync.prems sync.hyps(1)] sync.hyps(2)] .
  with sync.prems show ?case by (auto simp: sys_inv_def histories_def)
next
  case (scread s t g)
  then show ?case using sc_read_inv [of "histories s" "sys_global s" t g] by (intro sys_inv_global) (auto simp: sys_inv_def)
next
  case (scwrite s t g)
  then show ?case using sc_write_inv [of "histories s" "sys_global s" t g] by (intro sys_inv_global) (auto simp: sys_inv_def)
next
  case (alloc s t a len kind m d)
  then show ?case using alloc_step [of s t a len kind m d] by simp
next
  case (free s a)
  have ri: "race_inv (histories s) (sys_global s)" using free by (simp add: sys_inv_def)
  have "sys_inv (s\<lparr>sys_global := sys_global s, sys_mem := (sys_mem s)(a := None), sys_hist := (sys_hist s)(a := (\<lambda>_. []))\<rparr>)"
    by (rule sys_inv_update [OF free advances_refl ri]) (auto simp: hist_ok_def)
  then show ?case by simp
next
  case (na_read s t a off len m rt ty g m')
  then show ?case using read_step [of s t a off len m rt ty g m'] by simp
next
  case (na_write s t a off len m wt ty g m')
  then show ?case using write_step [of s t a off len m wt ty g m'] by simp
next
  case (load s t a off len m sc rord g m')
  have "sys_inv (s\<lparr>sys_global := g, sys_mem := (sys_mem s)(a \<mapsto> m'), sys_hist := log_access s a off len (logged (sys_global s) t [AtR])\<rparr>) \<and>
      advances (sys_global s) g"
  proof (rule atomic_step [OF load.prems load.hyps(1-3) load.hyps(5) [unfolded validate_atomic_load_def]])
    fix d h x i
    assume c: "cell_rel d h" "h \<in> histories s" "cell_known (own_time (sys_global s)) (histories s) d"
      and x: "thread_ok (own_time (sys_global s)) (histories s) i x"
    have ok: "hist_ok (own_time (sys_global s)) (length (vector_clocks (sys_global s))) h"
      using load.prems race_inv_hist c(2) by (auto simp: sys_inv_def)
    have sc: "known (own_time (sys_global s)) (histories s) c" if "sc = Some c" for c
      using load.hyps(4) [OF that] load.prems by (simp add: sys_inv_def)
    from load_op_correct [where sync = sc and ord = rord and sz = len, OF c(1) ok c(3) x sc]
    show "case load_op rord len sc d x i of
         Ok (d', y) \<Rightarrow> thread_ok (own_time (sys_global s)) (histories s) i y \<and> cell_known (bump (own_time (sys_global s)) i) (histories s) d' \<and>
           cell_rel d' (map (\<lambda>mo. Event mo i (own_time (sys_global s) i)) [AtR] @ h)
       | Err e \<Rightarrow> True | _ \<Rightarrow> False"
      by (auto split: outcome.splits intro: cell_known_mono [OF _ bump_le])
  qed simp
  then show ?case by simp
next
  case (store s t a off len m word g m')
  have "sys_inv (s\<lparr>sys_global := g, sys_mem := (sys_mem s)(a \<mapsto> m'), sys_hist := log_access s a off len (logged (sys_global s) t [AtW])\<rparr>) \<and>
      advances (sys_global s) g"
  proof (rule atomic_step [OF store.prems store.hyps(1-3) store.hyps(4) [unfolded validate_atomic_store_def]])
    fix d h x i
    assume c: "cell_rel d h" "h \<in> histories s" "cell_known (own_time (sys_global s)) (histories s) d"
      and x: "thread_ok (own_time (sys_global s)) (histories s) i x"
    have ok: "hist_ok (own_time (sys_global s)) (length (vector_clocks (sys_global s))) h"
      using store.prems race_inv_hist c(2) by (auto simp: sys_inv_def)
    from store_op_correct [OF c(1) ok c(3) x, of len word] x
    show "case store_op word len d x i of
         Ok (d', y) \<Rightarrow> thread_ok (own_time (sys_global s)) (histories s) i y \<and> cell_known (bump (own_time (sys_global s)) i) (histories s) d' \<and>
           cell_rel d' (map (\<lambda>mo. Event mo i (own_time (sys_global s) i)) [AtW] @ h)
       | Err e \<Rightarrow> True | _ \<Rightarrow> False"
      by (auto split: outcome.splits)
  qed simp
  then show ?case by simp
next
  case (rmw s t a off len m rwo g m')
  have "sys_inv (s\<lparr>sys_global := g, sys_mem := (sys_mem s)(a \<mapsto> m'), sys_hist := log_access s a off len (logged (sys_global s) t [AtW, AtR])\<rparr>) \<and>
      advances (sys_global s) g"
  proof (rule atomic_step [OF rmw.prems rmw.hyps(1-3) rmw.hyps(4) [unfolded validate_atomic_rmw_def]])
    fix d h x i
    assume c: "cell_rel d h" "h \<in> histories s" "cell_known (own_time (sys_global s)) (histories s) d"
      and x: "thread_ok (own_time (sys_global s)) (histories s) i x" and i: "i < length (vector_clocks (sys_global s))" "0 < own_time (sys_global s) i"
    have ok: "hist_ok (own_time (sys_global s)) (length (vector_clocks (sys_global s))) h"
      using rmw.prems race_inv_hist c(2) by (auto simp: sys_inv_def)
    from rmw_op_correct [OF c(1) ok c(3) x i, of len rwo]
    show "case rmw_op rwo len d x i of
         Ok (d', y) \<Rightarrow> thread_ok (own_time (sys_global s)) (histories s) i y \<and> cell_known (bump (own_time (sys_global s)) i) (histories s) d' \<and>
           cell_rel d' (map (\<lambda>mo. Event mo i (own_time (sys_global s) i)) [AtW, AtR] @ h)
       | Err e \<Rightarrow> True | _ \<Rightarrow> False"
      by (auto split: outcome.splits)
  qed simp
  then show ?case by simp
next
  case (suppress s b g)
  then have g: "g = (sys_global s)\<lparr>ongoing_action_data_race_free := b\<rparr>"
    by (auto simp: set_ongoing_action_data_race_free_def obind_eq_Ok split: if_splits)
  have own: "own_time g = own_time (sys_global s)" by (rule own_time_cong) (simp add: g)
  have "race_inv (histories s) g" using suppress.prems unfolding sys_inv_def race_inv_def info_ok_def own by (simp add: g)
  moreover have "advances (sys_global s) g" by (simp add: advances_def own) (simp add: g)
  ultimately show ?case using suppress.prems by (intro sys_inv_global) auto
qed

lemma race_step_inv: "race_step s s' \<Longrightarrow> sys_inv s \<Longrightarrow> sys_inv s'"
  by (simp add: race_step_advances)

lemma race_step_released: "race_step s s' \<Longrightarrow> sys_released s \<subseteq> sys_released s'"
  by (induction rule: race_step.induct) auto

lemma race_steps_inv:
  assumes "race_step\<^sup>*\<^sup>* s s'" "sys_inv s"
  shows "sys_inv s' \<and> advances (sys_global s) (sys_global s') \<and> sys_released s \<subseteq> sys_released s'"
  using assms
proof (induction rule: rtranclp_induct)
  case (step u v)
  then show ?case using race_step_advances [OF step.hyps(2)] race_step_released [OF step.hyps(2)] advances_trans by blast
qed simp

end
