(* ===== verification/Weak_System.thy ===== *)
theory Weak_System
  imports Store_Buffer Race_System
begin

text \<open>
  Atomic accesses of several threads with weak memory emulation: the steps are the atomic operations of
  \<open>Weak_Memory\<close> as a whole (the access check, the access to the interpreter's memory, the race detector and the
  store buffers), next to all steps of \<open>Race_System\<close>. Ghosts record the log of every atomic object. The
  invariant relates every buffer to its log and to the contents of the memory; it gives the coherence of
  all logs. Every step projects to steps of the race detector, so the results about it carry over.
\<close>

section \<open>The buffers of an allocation\<close>

lemma object_ranges_distinct:
  assumes "object_inv v" "i < length v" "j < length v" "obj_range (v ! i) = obj_range (v ! j)"
  shows "i = j"
proof (rule ccontr)
  assume "i \<noteq> j"
  then consider "i < j" | "j < i" by linarith
  then show False
    using object_inv_nth(1) [OF assms(1), of i j] object_inv_nth(1) [OF assms(1), of j i]
      object_inv_nth(2) [OF assms(1,2)] object_inv_nth(2) [OF assms(1,3)] assms by cases auto
qed

lemma range_stored:
  assumes "object_inv v" "0 < bytes rng"
  shows "rng \<in> obj_range ` set v \<longleftrightarrow> first_ending v (start rng) < length v \<and> obj_range (v ! first_ending v (start rng)) = rng" (is "?l \<longleftrightarrow> ?r")
proof
  assume ?l
  then obtain j where "j < length v" "obj_range (v ! j) = rng" by (auto simp: in_set_conv_nth)
  with first_ending_own [OF assms(1) this assms(2)] show ?r by simp
next
  assume r: ?r
  then have "v ! first_ending v (start rng) \<in> set v" by (intro nth_mem) blast
  with r show ?l by (metis imageI)
qed

lemma in_cut:
  assumes "x \<in> set (take a v @ drop b v)" "a \<le> b" "b \<le> length v"
  obtains j where "j < length v" "x = v ! j" "j < a \<or> b \<le> j"
proof -
  from assms(1) consider "x \<in> set (take a v)" | "x \<in> set (drop b v)" by auto
  then show ?thesis
  proof cases
    case 1
    then obtain j where "j < a" "x = v ! j" "j < length v" by (auto simp: in_set_conv_nth)
    with that show ?thesis by blast
  next
    case 2
    then obtain j where "j < length v - b" "x = v ! (b + j)" using assms(3) by (auto simp: in_set_conv_nth)
    with that [of "b + j"] show ?thesis by simp
  qed
qed

lemma get_store_buffer_Ok:
  assumes "object_inv v" "0 < bytes rng" "range_stop rng < 2 ^ 64"
  shows "get_store_buffer v rng = Ok (Some p) \<longleftrightarrow> p < length v \<and> obj_range (v ! p) = rng"
    "get_store_buffer v rng = Ok None \<longleftrightarrow> rng \<notin> obj_range ` set v"
proof -
  let ?a = "first_ending v (start rng)"
  have hit: "?a = j" if "j < length v" "obj_range (v ! j) = rng" for j using first_ending_own [OF assms(1) that assms(2)] .
  have g: "get_store_buffer v rng = Ok (if ?a < length v \<and> obj_range (v ! ?a) = rng then Some ?a else None)"
    by (simp add: get_store_buffer_def access_type_slice [OF assms])
  show "get_store_buffer v rng = Ok (Some p) \<longleftrightarrow> p < length v \<and> obj_range (v ! p) = rng"
  proof (cases "p < length v \<and> obj_range (v ! p) = rng")
    case True
    then have "?a = p" using hit by blast
    then show ?thesis using True unfolding g by simp
  next
    case False
    then show ?thesis unfolding g by auto
  qed
  show "get_store_buffer v rng = Ok None \<longleftrightarrow> rng \<notin> obj_range ` set v" unfolding range_stored [OF assms(1,2)] g by simp
qed

text \<open>The buffers that remain after making room for a range, and the new buffer.\<close>

lemma get_or_create_Ok:
  assumes inv: "object_inv v" "0 < bytes rng" "range_stop rng < 2 ^ 64"
    and run: "get_or_create_store_buffer_mut v rng init = Ok (w, pos)"
  shows "object_inv w \<and> pos < length w \<and> obj_range (w ! pos) = rng \<and>
    (\<forall>x\<in>set w. obj_range x \<noteq> rng \<longrightarrow> x \<in> set v \<and> \<not> overlap rng (obj_range x)) \<and>
    (if rng \<in> obj_range ` set v then w ! pos \<in> set v else obj_data (w ! pos) = StoreBuffer_new init)"
proof -
  let ?a = "first_ending v (start rng)" and ?b = "first_starting v (range_stop rng - 1)" and ?new = "StoreBuffer_new init"
  have le: "?a \<le> ?b" "?b \<le> length v" using slice_ordered [OF inv(1,2)] search_in_bounds(1) [OF inv(1)] by auto
  have hit: "?a = j" if "j < length v" "obj_range (v ! j) = rng" for j using first_ending_own [OF inv(1) that inv(2)] .
  show ?thesis
  proof (cases "?a < length v \<and> obj_range (v ! ?a) = rng")
    case True
    then have w: "w = v" "pos = ?a" using run by (auto simp: get_or_create_store_buffer_mut_def access_type_slice [OF inv])
    have "\<not> overlap rng (obj_range x)" if x: "x \<in> set v" "obj_range x \<noteq> rng" for x
    proof -
      obtain j where j: "j < length v" "x = v ! j" using x(1) by (auto simp: in_set_conv_nth)
      then have "j \<noteq> ?a" using x(2) True by auto
      with object_inv_nth(1) [OF inv(1), of j ?a] object_inv_nth(1) [OF inv(1), of ?a j] True j
      show ?thesis by (cases "j < ?a") (auto simp: overlap_def range_stop_def)
    qed
    then show ?thesis using True inv(1) w range_stored [OF inv(1,2)] by auto
  next
    case False
    then have no: "rng \<notin> obj_range ` set v" using range_stored [OF inv(1,2)] by simp
    let ?u = "take ?a v @ drop ?b v"
    have u: "object_inv ?u" by (rule object_inv_remove [OF inv(1) le(1)])
    have "\<forall>j<?a. range_stop (obj_range (?u ! j)) \<le> start rng"
      using beside_slice(1) [OF inv(1,2)] le by (auto simp: nth_append)
    moreover have "\<forall>j<length ?u. ?a \<le> j \<longrightarrow> range_stop rng \<le> start (obj_range (?u ! j))"
      using beside_slice(2) [OF inv(1,2)] le by (auto simp: nth_append)
    moreover have "?a \<le> length ?u" using le by simp
    ultimately obtain w' where w': "insert_at_pos ?u ?a rng ?new = (Ok w' :: ('b, _) outcome)" "object_inv w'"
      "w' = take ?a ?u @ \<lparr>obj_range = rng, obj_data = ?new\<rparr> # drop ?a ?u"
      using insert_no_overlap [OF u inv(2,3), of ?a ?new, where 'b = 'b] by blast
    have w: "w = w'" "pos = ?a"
      using run w'(1) False le by (auto simp: get_or_create_store_buffer_mut_def access_type_slice [OF inv] remove_pos_range_def split: if_splits)
    have at: "length (take ?a ?u) = ?a" using le by simp
    have "w' ! ?a = \<lparr>obj_range = rng, obj_data = ?new\<rparr>" "?a < length w'"
      using at w'(3) by (metis nth_append_length, simp)
    moreover have "x \<in> set v \<and> \<not> overlap rng (obj_range x)" if x: "x \<in> set w'" "obj_range x \<noteq> rng" for x
    proof -
      have "x \<noteq> \<lparr>obj_range = rng, obj_data = ?new\<rparr>" using x(2) by auto
      then have "x \<in> set ?u" using x(1) unfolding w'(3) set_append [of "take ?a ?u"] list.set by (blast dest: in_set_takeD in_set_dropD)
      from in_cut [OF this le] obtain j where "j < length v" "x = v ! j" "j < ?a \<or> ?b \<le> j" .
      then show ?thesis using overlap_slice [OF inv(1,2), of j] by auto
    qed
    ultimately show ?thesis using no w w'(2) by auto
  qed
qed

lemma put_buffer_Ok: "put_buffer v pos b = Ok w \<longleftrightarrow> pos < length v \<and> w = v[pos := (v ! pos)\<lparr>obj_data := b\<rparr>]"
  by (auto simp: put_buffer_def RangeObjectMap_index_mut_def outcome_eqs vec_get_def split: if_splits)

lemma index_Ok: "RangeObjectMap_index v pos = Ok b \<longleftrightarrow> pos < length v \<and> b = obj_data (v ! pos)"
  by (auto simp: RangeObjectMap_index_def outcome_eqs vec_get_def split: if_splits)

lemma object_inv_put:
  assumes "object_inv v" "pos < length v"
  shows "object_inv (v[pos := (v ! pos)\<lparr>obj_data := b\<rparr>])"
proof -
  have "map obj_range (v[pos := (v ! pos)\<lparr>obj_data := b\<rparr>]) = map obj_range v"
    using assms(2) by (simp add: map_update list_update_id [of "map obj_range v" pos, unfolded nth_map [OF assms(2)]])
  moreover have "object_inv u \<longleftrightarrow> sorted_wrt (\<lambda>r s. range_stop r \<le> start s) (map obj_range u) \<and> (\<forall>r\<in>set (map obj_range u). 0 < bytes r)" for u :: "'a RangeObjectMap"
    by (simp add: object_inv_def sorted_wrt_map)
  ultimately show ?thesis using assms(1) by metis
qed

lemma non_atomic_write_Ok:
  assumes "object_inv v" "0 < bytes rng" "range_stop rng < 2 ^ 64" "non_atomic_write v rng g = Ok w" "\<not> ongoing_action_data_race_free g"
  shows "object_inv w \<and> (\<forall>x\<in>set w. x \<in> set v \<and> \<not> overlap rng (obj_range x))"
proof -
  let ?a = "first_ending v (start rng)" and ?b = "first_starting v (range_stop rng - 1)"
  have le: "?a \<le> ?b" "?b \<le> length v" using slice_ordered [OF assms(1,2)] search_in_bounds(1) [OF assms(1)] by auto
  have own: "?b = Suc ?a" if "?a < length v" "obj_range (v ! ?a) = rng"
  proof -
    have r: "start rng < range_stop rng" using assms(2) by (simp add: range_stop_def)
    have "?a < ?b" using first_starting [OF assms(1) that(1), of "range_stop rng - 1"] that(2) r by simp
    moreover have "\<not> Suc ?a < ?b"
    proof
      assume c: "Suc ?a < ?b"
      then have "Suc ?a < length v" using le by simp
      with first_starting [OF assms(1) this, of "range_stop rng - 1"] object_inv_nth(1) [OF assms(1), of ?a "Suc ?a"] c that r
      show False by simp
    qed
    ultimately show ?thesis by simp
  qed
  have w: "w = take ?a v @ drop ?b v"
    using assms(4,5) own le by (auto simp: non_atomic_write_def access_type_slice [OF assms(1-3)] remove_from_pos_def remove_pos_range_def
        split: if_splits)
  have "x \<in> set v \<and> \<not> overlap rng (obj_range x)" if "x \<in> set w" for x
  proof -
    from in_cut [OF that [unfolded w] le] obtain j where "j < length v" "x = v ! j" "j < ?a \<or> ?b \<le> j" .
    then show ?thesis using overlap_slice [OF assms(1,2), of j] by auto
  qed
  then show ?thesis using object_inv_remove [OF assms(1) le(1)] w by auto
qed

section \<open>The system\<close>

record ('m, 'v) WeakSys =
  ws_race :: RaceSys
  ws_buffers :: "nat \<Rightarrow> 'v StoreBufferAlloc option"
  ws_memory :: "nat \<Rightarrow> 'm"
  ws_log :: "nat \<Rightarrow> AllocRange \<Rightarrow> 'v weak_event list"

definition weak_init :: "bool \<Rightarrow> bool \<Rightarrow> 'm \<Rightarrow> ('m, 'v) WeakSys" where
  "weak_init track_outdated weak m =
     \<lparr>ws_race = sys_init track_outdated weak, ws_buffers = (\<lambda>_. None), ws_memory = (\<lambda>_. m), ws_log = (\<lambda>_ _. [])\<rparr>"

text \<open>An access by thread \<open>t\<close> to a range of the allocation \<open>a\<close>: what the operation sees, and the system after it.\<close>

definition sees :: "('m, 'v) WeakSys \<Rightarrow> ThreadId \<Rightarrow> nat \<Rightarrow> AllocRange \<Rightarrow> ('m, 'v) AtomicState \<Rightarrow> bool" where
  "sees s t a rng st \<longleftrightarrow>
     alive (sys_global (ws_race s)) t \<and> 0 < bytes rng \<and> in_mem (ws_race s) a (start rng) (bytes rng) (data_race_clocks (race_alloc st)) \<and>
     st = \<lparr>global_state = sys_global (ws_race s),
           race_alloc = \<lparr>data_race_clocks = data_race_clocks (race_alloc st), alloc_buffers = ws_buffers s a\<rparr>,
           memory = ws_memory s a\<rparr> \<and> ws_buffers s a \<noteq> None"

definition after_access ::
  "('m, 'v) WeakSys \<Rightarrow> ThreadId \<Rightarrow> nat \<Rightarrow> AllocRange \<Rightarrow> access_mode list \<Rightarrow> ('m, 'v) AtomicState \<Rightarrow> VClock set \<Rightarrow> 'v weak_event list \<Rightarrow>
     ('m, 'v) WeakSys" where
  "after_access s t a rng modes st released log =
     (let r = ws_race s
      in s\<lparr>ws_race := r\<lparr>sys_global := global_state st, sys_mem := (sys_mem r)(a \<mapsto> data_race_clocks (race_alloc st)),
               sys_hist := (if race_detecting (sys_global r) then log_access r a (start rng) (bytes rng) (logged (sys_global r) t modes)
                            else sys_hist r),
               sys_released := released \<union> sys_released r\<rparr>,
           ws_buffers := (ws_buffers s)(a := alloc_buffers (race_alloc st)),
           ws_memory := (ws_memory s)(a := memory st),
           ws_log := (ws_log s)(a := (ws_log s a)(rng := log))\<rparr>)"

text \<open>The log of an atomic object before an access: empty but for the initial value if there is no buffer.\<close>

definition object_log :: "('m, 'v) WeakSys \<Rightarrow> nat \<Rightarrow> AllocRange \<Rightarrow> 'v option \<Rightarrow> 'v weak_event list" where
  "object_log s a rng init =
     (case ws_buffers s a of
        Some bufs \<Rightarrow> if rng \<in> obj_range ` set bufs then ws_log s a rng else [WStore 0 0 False init]
      | None \<Rightarrow> [WStore 0 0 False init])"

definition init_value :: "('m, 'v, 'op, 'e) interp \<Rightarrow> 'm \<Rightarrow> AllocRange \<Rightarrow> 'v option" where
  "init_value ip m rng = (case read_scalar ip m rng of Ok v \<Rightarrow> Some v | Err e \<Rightarrow> None | Panic \<Rightarrow> None | Diverge \<Rightarrow> None)"

text \<open>A successful read-modify-write operation that stores \<open>v\<close> and returns \<open>old\<close>.\<close>

definition rmw_result ::
  "('m, 'v, 'op, 'e) interp \<Rightarrow> ThreadId \<Rightarrow> ('m, 'v) AtomicState \<Rightarrow> AtomicPlace \<Rightarrow> AtomicRwOrd \<Rightarrow> ('m, 'v) AtomicState \<Rightarrow> 'v \<Rightarrow> 'v \<Rightarrow> bool" where
  "rmw_result ip t st place ord st' old v \<longleftrightarrow>
     (\<exists>rhs oper. atomic_rmw_op_immediate ip t st place rhs oper ord = Ok (st', old) \<and> rmw_value ip oper old rhs = Ok v) \<or>
     atomic_exchange_scalar ip t st place v ord = Ok (st', old) \<or>
     (\<exists>lucky expected fail spurious. atomic_compare_exchange_scalar ip lucky t st place expected v ord fail spurious = Ok (st', old, True))"

inductive weak_step :: "('m, 'v, 'op, 'e) interp \<Rightarrow> ('m, 'v) WeakSys \<Rightarrow> ('m, 'v) WeakSys \<Rightarrow> bool" for ip where
  race: "race_step (ws_race s) r \<Longrightarrow> weak_step ip s (s\<lparr>ws_race := r\<rparr>)"
| alloc: "ws_buffers s a = None \<Longrightarrow>
    weak_step ip s (s\<lparr>ws_buffers := (ws_buffers s)(a \<mapsto> StoreBufferAlloc_new_allocation), ws_memory := (ws_memory s)(a := m)\<rparr>)"
| free: "weak_step ip s (s\<lparr>ws_buffers := (ws_buffers s)(a := None)\<rparr>)"
| overwrite: "ws_buffers s a = Some bufs \<Longrightarrow> 0 < bytes rng \<Longrightarrow> range_stop rng < 2 ^ 64 \<Longrightarrow>
    \<not> ongoing_action_data_race_free (sys_global (ws_race s)) \<Longrightarrow>
    (non_atomic_write bufs rng (sys_global (ws_race s)) :: (unit, _) outcome) = Ok bufs' \<Longrightarrow>
    (\<And>r. \<not> overlap rng r \<Longrightarrow> read_scalar ip m r = read_scalar ip (ws_memory s a) r) \<Longrightarrow>
    weak_step ip s (s\<lparr>ws_buffers := (ws_buffers s)(a \<mapsto> bufs'), ws_memory := (ws_memory s)(a := m)\<rparr>)"
| store: "sees s t a rng st \<Longrightarrow> place_range place = rng \<Longrightarrow> write_scalar_atomic ip t st v place ord = Ok st' \<Longrightarrow>
    (sync_clock (data_race_clocks (race_alloc st')) (start rng) (bytes rng) :: VClock hook) = Ok c \<Longrightarrow>
    thread_state (global_state st') t = (Ok (i, tc) :: (unit, _) outcome) \<Longrightarrow>
    weak_step ip s (after_access s t a rng [AtW] st' {c}
      (WStore i (clock_time (clock tc) i) (ord = WriteSeqCst) (Some v) # object_log s a rng (init_value ip (ws_memory s a) rng)))"
| load: "sees s t a rng st \<Longrightarrow> place_range place = rng \<Longrightarrow> read_scalar_atomic ip pick t st place ord = Ok (st', v) \<Longrightarrow>
    ws_buffers s a = Some bufs \<Longrightarrow> x \<in> set bufs \<Longrightarrow> obj_range x = rng \<Longrightarrow>
    (if ord = ReadSeqCst then sc_read (global_state st) t else Ok (global_state st)) = (Ok g :: (unit, _) outcome) \<Longrightarrow>
    thread_state g t = (Ok (i, tc0) :: (unit, _) outcome) \<Longrightarrow>
    fetch_store pick (obj_data x) (ord = ReadSeqCst) tc0 = (Ok (pos, recency) :: (unit, _) outcome) \<Longrightarrow>
    thread_state (global_state st') t = (Ok (i, tc) :: (unit, _) outcome) \<Longrightarrow>
    weak_step ip s (after_access s t a rng [AtR] st' {}
      (WLoad (clock_time (clock tc0)) i (clock_time (clock tc) i) (ord = ReadSeqCst) False
         (forgotten (obj_data x) (ws_log s a rng) + pos) (Some v) # ws_log s a rng))"
| load_memory: "sees s t a rng st \<Longrightarrow> place_range place = rng \<Longrightarrow> read_scalar_atomic ip pick t st place ord = Ok (st', v) \<Longrightarrow>
    ws_buffers s a = Some bufs \<Longrightarrow> rng \<notin> obj_range ` set bufs \<Longrightarrow> weak_step ip s (after_access s t a rng [AtR] st' {} (ws_log s a rng))"
| rmw: "sees s t a rng st \<Longrightarrow> place_range place = rng \<Longrightarrow> rmw_result ip t st place ord st' old v \<Longrightarrow>
    (sync_clock (data_race_clocks (race_alloc st')) (start rng) (bytes rng) :: VClock hook) = Ok c \<Longrightarrow>
    thread_state (global_state st') t = (Ok (i, tc) :: (unit, _) outcome) \<Longrightarrow> log = object_log s a rng (Some old) \<Longrightarrow>
    weak_step ip s (after_access s t a rng [AtW, AtR] st' {c}
      (WStore i (clock_time (clock tc) i) (ord = RwSeqCst) (Some v) #
       WLoad (clock_time (clock tc)) i (clock_time (clock tc) i) (ord = RwSeqCst) True (length (stores_of log) - 1) (Some old) # log))"
| failed_exchange: "sees s t a rng st \<Longrightarrow> place_range place = rng \<Longrightarrow>
    atomic_compare_exchange_scalar ip lucky t st place expected new success fail spurious = Ok (st', old, False) \<Longrightarrow>
    ws_buffers s a = Some bufs \<Longrightarrow> thread_state (global_state st') t = (Ok (i, tc) :: (unit, _) outcome) \<Longrightarrow> log = ws_log s a rng \<Longrightarrow>
    weak_step ip s (after_access s t a rng [AtR] st' {}
      (if rng \<in> obj_range ` set bufs
       then WLoad (clock_time (clock tc)) i (clock_time (clock tc) i) (fail = ReadSeqCst) True (length (stores_of log) - 1) (Some old) # log
       else log))"

section \<open>The invariant\<close>

definition object_ok ::
  "(VectorIdx \<Rightarrow> nat) \<Rightarrow> VClock set \<Rightarrow> (AllocRange \<Rightarrow> ('e, 'v) outcome) \<Rightarrow> (AllocRange \<Rightarrow> 'v weak_event list) \<Rightarrow> 'v StoreBuffer ObjElem \<Rightarrow> bool" where
  "object_ok own released rd logs x \<longleftrightarrow> buffer_ok own released (obj_data x) (logs (obj_range x)) \<and>
     (\<forall>v. rd (obj_range x) = Ok v \<longrightarrow> val (last (obj_data x)) = Some v)"

definition weak_inv :: "('m, 'v, 'op, 'e) interp \<Rightarrow> ('m, 'v) WeakSys \<Rightarrow> bool" where
  "weak_inv ip s \<longleftrightarrow> sys_inv (ws_race s) \<and> [] \<in> sys_released (ws_race s) \<and> (\<forall>a r. coherent (ws_log s a r)) \<and>
     (\<forall>a bufs. ws_buffers s a = Some bufs \<longrightarrow> object_inv bufs \<and>
       (\<forall>x\<in>set bufs. object_ok (own_time (sys_global (ws_race s))) (sys_released (ws_race s)) (read_scalar ip (ws_memory s a)) (ws_log s a) x))"

text \<open>What the interpreter's memory promises: a range holds what was last written to it.\<close>

definition memory_laws :: "('m, 'v, 'op, 'e) interp \<Rightarrow> bool" where
  "memory_laws ip \<longleftrightarrow> (\<forall>m rng v m'. write_scalar ip m rng v = Ok m' \<longrightarrow>
     (\<forall>w. read_scalar ip m' rng = Ok w \<longrightarrow> w = v) \<and> (\<forall>r. \<not> overlap rng r \<longrightarrow> read_scalar ip m' r = read_scalar ip m r))"

lemma weak_update:
  assumes inv: "weak_inv ip s" and steps: "race_step\<^sup>*\<^sup>* (ws_race s) r" and bufs: "ws_buffers s a = Some bufs"
    and w: "object_inv w" and log: "coherent log"
    and old: "\<And>x. x \<in> set w \<Longrightarrow> obj_range x \<noteq> rng \<Longrightarrow> x \<in> set bufs \<and> read_scalar ip m (obj_range x) = read_scalar ip (ws_memory s a) (obj_range x)"
    and new: "\<And>x. x \<in> set w \<Longrightarrow> obj_range x = rng \<Longrightarrow> buffer_ok (own_time (sys_global r)) (sys_released r) (obj_data x) log \<and>
      (\<forall>v. read_scalar ip m rng = Ok v \<longrightarrow> val (last (obj_data x)) = Some v)"
  shows "weak_inv ip (s\<lparr>ws_race := r, ws_buffers := (ws_buffers s)(a \<mapsto> w), ws_memory := (ws_memory s)(a := m),
    ws_log := (ws_log s)(a := (ws_log s a)(rng := log))\<rparr>)"
proof -
  let ?own = "own_time (sys_global r)" and ?rel = "sys_released r"
  have r: "sys_inv r" "own_time (sys_global (ws_race s)) \<le> ?own" "sys_released (ws_race s) \<subseteq> ?rel"
    using race_steps_inv [OF steps] inv by (auto simp: weak_inv_def advances_def)
  have mono: "object_ok ?own ?rel rd logs x"
    if "object_ok (own_time (sys_global (ws_race s))) (sys_released (ws_race s)) rd logs x" for rd :: "AllocRange \<Rightarrow> ('d, 'b) outcome" and logs x
    using that buffer_ok_mono [OF _ r(2,3)] unfolding object_ok_def by blast
  have a: "object_ok ?own ?rel (read_scalar ip m) ((ws_log s a)(rng := log)) x" if x: "x \<in> set w" for x
  proof (cases "obj_range x = rng")
    case True
    then show ?thesis using new [OF x] by (simp add: object_ok_def)
  next
    case False
    from old [OF x False] inv bufs have "object_ok ?own ?rel (read_scalar ip (ws_memory s a)) (ws_log s a) x"
      by (auto simp: weak_inv_def intro!: mono)
    then show ?thesis using old [OF x False] False by (simp add: object_ok_def)
  qed
  show ?thesis using inv r w log a mono unfolding weak_inv_def by auto
qed

end
