(* ===== verification/Weak_Inv.thy ===== *)
theory Weak_Inv
  imports Weak_System
begin

text \<open>
  The invariant of \<open>Weak_System\<close> is kept by every step: each atomic operation is a sequence of steps of the
  race detector followed by an update of one store buffer. Coherence of all logs follows, and that the
  emulation never fails to find a store to load from.
\<close>

section \<open>The operations as steps of the race detector\<close>

text \<open>Operations that return no error value have the same outcome at every error type.\<close>

lemma map_err_obind: "map_err f (obind m k) = obind (map_err f m) (\<lambda>x. map_err f (k x))"
  by (cases m) auto

lemma map_err_basic [simp]: "map_err f (vec_get xs i) = vec_get xs i" "map_err f (unwrap z) = unwrap z" "map_err f (check b) = check b"
  "map_err f (add_u64 x y) = add_u64 x y"
  by (auto simp: vec_get_def check_def add_u64_def unwrap_def split: option.split)

lemma no_error_value:
  "map_err f (thread_state g t) = thread_state g t" "map_err f (set_at_index c d i) = set_at_index c d i"
  "map_err f (sc_read g t) = sc_read g t" "map_err f (sc_write g t) = sc_write g t" "map_err f (sync_clock m off len) = sync_clock m off len"
proof -
  show ts: "map_err f (thread_state g t) = thread_state g t"
    by (simp add: thread_state_def thread_index_def map_err_obind obind_assoc)
  show si: "map_err f (set_at_index c d i) = set_at_index c d i" for c d i by (simp add: set_at_index_def Let_def map_err_obind)
  show "map_err f (sc_read g t) = sc_read g t" "map_err f (sc_write g t) = sc_write g t"
    by (simp_all add: sc_read_def sc_write_def map_err_obind ts si split_def)
  have "map_err f (DedupRangeMap_find_offset m off) = DedupRangeMap_find_offset m off"
    by (simp add: DedupRangeMap_find_offset_def split: sum.split)
  then show "map_err f (sync_clock m off len) = sync_clock m off len"
    by (cases "len = 0") (simp_all add: sync_clock_def DedupRangeMap_iter_def map_err_obind del: obind_check)
qed

lemma change_error_type: "(\<And>f. map_err f m = m') \<Longrightarrow> m = Ok x \<Longrightarrow> m' = Ok x"
  by (metis map_err.simps(1))

lemma allow_data_races_Ok:
  "allow_data_races g oper = Ok (g', x) \<longleftrightarrow> \<not> ongoing_action_data_race_free g \<and> oper = Ok x \<and> g' = g"
  by (cases oper) (auto simp: allow_data_races_def set_ongoing_action_data_race_free_def outcome_eqs split: if_splits)

lemma map_err_Ok: "map_err f m = Ok x \<longleftrightarrow> m = Ok x"
  by (cases m) auto

lemma discard_err_Ok: "discard_err m = Ok x \<Longrightarrow> x = (case m of Ok v \<Rightarrow> Some v | Err e \<Rightarrow> None | Panic \<Rightarrow> None | Diverge \<Rightarrow> None)"
  by (cases m) auto

lemma alive_vector_clocks [simp]: "alive (g\<lparr>vector_clocks := vc\<rparr>) t = alive g t"
  by (simp add: alive_def)

lemma validate_keeps:
  assumes "validate_atomic_op g t m off len access oper = Ok (g', m')"
  shows "\<exists>vc. g' = g\<lparr>vector_clocks := vc\<rparr>" "\<not> race_detecting g \<Longrightarrow> g' = g \<and> m' = m"
  using assms
  by (auto simp: validate_atomic_op_def maybe_perform_sync_operation_def outcome_eqs put_clocks_def race_detecting_def split: if_splits prod.splits)
    (metis GlobalState.surjective GlobalState.update_convs(3))+

lemma thread_state_unique: "thread_state g t = (Ok x :: ('e, _) outcome) \<Longrightarrow> thread_state g t = (Ok y :: ('f, _) outcome) \<Longrightarrow> x = y"
  by (drule thread_state_type [where 'f = 'f]) simp

lemma sync_clock_unique:
  assumes "sync_clock m off len = (Ok c :: ('e, _) outcome)" "sync_clock m off len = (Ok d :: ('f, _) outcome)"
  shows "c = d"
  using no_error_value(5) [of "\<lambda>_ :: 'e. undefined :: 'f" m off len] assms by simp

lemma update_keeps: "i < length xs \<Longrightarrow> f x = f (xs ! i) \<Longrightarrow> f (xs[i := x] ! j) = f (xs ! j)"
  by (cases "i = j") auto

lemma sc_keeps:
  assumes "sc_read g t = (Ok g' :: ('e, _) outcome) \<or> sc_write g t = (Ok g' :: ('e, _) outcome)"
  shows "alive g' u = alive g u" "race_detecting g' = race_detecting g" "logged g' u modes = logged g u modes"
    "thread_state g' u = (Ok (i, tc') :: (unit, _) outcome) \<Longrightarrow> \<exists>tc. thread_state g u = (Ok (i, tc) :: (unit, _) outcome) \<and> clock tc' = clock tc"
proof -
  have f: "thread_info g' = thread_info g" "reuse_candidates g' = reuse_candidates g" "multi_threaded g' = multi_threaded g"
    "ongoing_action_data_race_free g' = ongoing_action_data_race_free g" "length (vector_clocks g') = length (vector_clocks g)"
    "\<And>j. clock (vector_clocks g' ! j) = clock (vector_clocks g ! j)"
    using assms by (auto simp: sc_read_def sc_write_def outcome_eqs put_clocks_def thread_state_def vec_get_def update_keeps [where f = clock] split: if_splits)
  show "alive g' u = alive g u" "race_detecting g' = race_detecting g" by (simp_all add: f alive_def race_detecting_def)
  have ts: "thread_state h u = (if u < length (thread_info h) then case vector_index (thread_info h ! u) of None \<Rightarrow> Panic
      | Some j \<Rightarrow> if j < length (vector_clocks h) then Ok (j, vector_clocks h ! j) else Panic else Panic)" for h :: GlobalState
    by (simp add: thread_state_def thread_index_def vec_get_def unwrap_def split: option.split)
  show "logged g' u modes = logged g u modes" unfolding logged_def ts f by (simp add: f split: option.split)
  show "\<exists>tc. thread_state g u = (Ok (i, tc) :: (unit, _) outcome) \<and> clock tc' = clock tc"
    if "thread_state g' u = (Ok (i, tc') :: (unit, _) outcome)"
    using that f(6) [of i] unfolding ts f(1,5) by (auto split: if_splits option.splits)
qed

text \<open>The system of the race detector after a validated access.\<close>

definition validated :: "RaceSys \<Rightarrow> ThreadId \<Rightarrow> nat \<Rightarrow> AllocRange \<Rightarrow> access_mode list \<Rightarrow> GlobalState \<Rightarrow> VClockAlloc \<Rightarrow> RaceSys" where
  "validated r t a rng modes g m =
     r\<lparr>sys_global := g, sys_mem := (sys_mem r)(a \<mapsto> m),
       sys_hist := (if race_detecting (sys_global r) then log_access r a (start rng) (bytes rng) (logged (sys_global r) t modes) else sys_hist r)\<rparr>"

lemma validated_step:
  assumes "alive (sys_global r) t" "in_mem r a (start rng) (bytes rng) m"
    and run: "validate_atomic_store (sys_global r) t m (start rng) (bytes rng) word = Ok (g, m') \<and> modes = [AtW] \<or>
      validate_atomic_rmw (sys_global r) t m (start rng) (bytes rng) rwo = Ok (g, m') \<and> modes = [AtW, AtR] \<or>
      validate_atomic_load (sys_global r) t m (start rng) (bytes rng) rord sc = Ok (g, m') \<and> modes = [AtR] \<and> (\<forall>c. sc = Some c \<longrightarrow> c \<in> sys_released r)"
  shows "race_step\<^sup>*\<^sup>* r (validated r t a rng modes g m') \<and> alive g t"
proof (rule conjI)
  note defs = validate_atomic_store_def validate_atomic_rmw_def validate_atomic_load_def
  from run obtain access oper where op: "validate_atomic_op (sys_global r) t m (start rng) (bytes rng) access oper = Ok (g, m')"
    unfolding defs by blast
  from validate_keeps(1) [OF op] assms(1) show "alive g t" by auto
  show "race_step\<^sup>*\<^sup>* r (validated r t a rng modes g m')"
  proof (cases "race_detecting (sys_global r)")
    case True
    have "race_step r (validated r t a rng modes g m')"
      using run
    proof (elim disjE conjE)
      assume "validate_atomic_load (sys_global r) t m (start rng) (bytes rng) rord sc = Ok (g, m')" "modes = [AtR]"
        "\<forall>c. sc = Some c \<longrightarrow> c \<in> sys_released r"
      with race_step.load [OF assms(1) True assms(2), of sc rord g m'] show ?thesis using True by (simp add: validated_def)
    qed (use race_step.store [OF assms(1) True assms(2)] race_step.rmw [OF assms(1) True assms(2)] True in \<open>auto simp: validated_def\<close>)
    then show ?thesis by blast
  next
    case False
    with validate_keeps(2) [OF op] assms(2) have "validated r t a rng modes g m' = r"
      by (simp add: validated_def in_mem_def fun_upd_idem)
    then show ?thesis by simp
  qed
qed

lemma sc_step:
  assumes "alive (sys_global r) t"
  shows "(if b then sc_write (sys_global r) t else Ok (sys_global r)) = (Ok g :: ('e, _) outcome) \<Longrightarrow> race_step\<^sup>*\<^sup>* r (r\<lparr>sys_global := g\<rparr>)"
    "(if b then sc_read (sys_global r) t else Ok (sys_global r)) = (Ok g :: ('e, _) outcome) \<Longrightarrow> race_step\<^sup>*\<^sup>* r (r\<lparr>sys_global := g\<rparr>)"
  using race_step.scwrite [OF assms change_error_type [OF no_error_value(4)]] race_step.scread [OF assms change_error_type [OF no_error_value(3)]]
  by (auto split: if_splits)

lemma validated_global [simp]: "(validated r t a rng modes g m)\<lparr>sys_global := g'\<rparr> = validated r t a rng modes g' m"
  "sys_global (validated r t a rng modes g m) = g" "sys_released (validated r t a rng modes g m) = sys_released r"
  "(validated r t a rng modes g m)\<lparr>sys_released := sys_released r\<rparr> = validated r t a rng modes g m"
  by (simp_all add: validated_def)

lemma write_race:
  assumes al: "alive (sys_global r) t" and m: "in_mem r a (start rng) (bytes rng) m"
    and run: "validate_atomic_store (sys_global r) t m (start rng) (bytes rng) word = Ok (g, m') \<and> modes = [AtW] \<or>
      validate_atomic_rmw (sys_global r) t m (start rng) (bytes rng) rwo = Ok (g, m') \<and> modes = [AtW, AtR]"
    and sc: "(if b then sc_read g t else Ok g) = (Ok g1 :: ('e, _) outcome)" "(if b' then sc_write g1 t else Ok g1) = (Ok g2 :: ('e, _) outcome)"
    and c: "(sync_clock m' (start rng) (bytes rng) :: VClock hook) = Ok c"
  shows "race_step\<^sup>*\<^sup>* r ((validated r t a rng modes g2 m')\<lparr>sys_released := {c} \<union> sys_released r\<rparr>)"
proof -
  let ?v = "\<lambda>g. validated r t a rng modes g m'"
  from validated_step [OF al m, of word g m' modes rwo ReadRelaxed None] run
  have 1: "race_step\<^sup>*\<^sup>* r (?v g)" "alive g t" by blast+
  have 2: "race_step\<^sup>*\<^sup>* (?v g) (?v g1)" using sc_step(2) [of "?v g" t b g1, where 'e = 'e, unfolded validated_global] 1(2) sc(1) by simp
  have al1: "alive g1 t" using sc(1) 1(2) sc_keeps(1) [of g t g1, where 'e = 'e] by (auto split: if_splits)
  have 3: "race_step\<^sup>*\<^sup>* (?v g1) (?v g2)" using sc_step(1) [of "?v g1" t b' g2, where 'e = 'e, unfolded validated_global] al1 sc(2) by simp
  have "race_step (?v g2) ((?v g2)\<lparr>sys_released := insert c (sys_released (?v g2))\<rparr>)"
    by (rule race_step.sync [OF _ c, of _ a]) (simp add: validated_def)
  then show ?thesis using 1(1) 2 3 by auto
qed

section \<open>The operations on the buffers\<close>

lemma sees_inv:
  assumes "weak_inv ip s" "sees s t a rng st"
  obtains bufs m where "ws_buffers s a = Some bufs" "object_inv bufs" "range_stop rng < 2 ^ 64" "0 < bytes rng"
    "alive (sys_global (ws_race s)) t" "in_mem (ws_race s) a (start rng) (bytes rng) m"
    "st = \<lparr>global_state = sys_global (ws_race s), race_alloc = \<lparr>data_race_clocks = m, alloc_buffers = Some bufs\<rparr>, memory = ws_memory s a\<rparr>"
    "\<And>x. x \<in> set bufs \<Longrightarrow> object_ok (own_time (sys_global (ws_race s))) (sys_released (ws_race s)) (read_scalar ip (ws_memory s a)) (ws_log s a) x"
    "sys_inv (ws_race s)" "[] \<in> sys_released (ws_race s)" "\<And>r. coherent (ws_log s a r)"
proof -
  from assms(2) obtain bufs where b: "ws_buffers s a = Some bufs" by (auto simp: sees_def)
  have m: "in_mem (ws_race s) a (start rng) (bytes rng) (data_race_clocks (race_alloc st))" using assms(2) by (simp add: sees_def)
  then have "map_inv (data_race_clocks (race_alloc st))" using assms(1) sys_inv_mem by (auto simp: weak_inv_def in_mem_def mem_ok_def)
  then have "range_stop rng < 2 ^ 64" using m by (simp add: in_mem_def map_inv_def range_stop_def)
  with that [OF b _ _ _ _ m] assms b show ?thesis by (auto simp: weak_inv_def sees_def)
qed

text \<open>A buffer after a store or a load of the most recent store, with its log.\<close>

lemma read_last_ok:
  assumes ok: "buffer_ok own released buf log" and st: "thread_state g t = (Ok (i, tc) :: (unit, _) outcome)"
    and own: "clock_time (clock tc) i = own i" and run: "read_from_last_store buf g t sc = (Ok buf' :: ('e, _) outcome)"
  shows "buffer_ok own released buf' (WLoad C i (own i) sc lt (length (stores_of log) - 1) v # log) \<and> length buf' = length buf \<and>
    val (last buf') = val (last buf)"
proof -
  have ne: "buf \<noteq> []" and len: "length buf \<le> length (stores_of log)" using ok by (auto simp: buffer_ok_def)
  from run ne obtain j tc' where st': "thread_state g t = (Ok (j, tc') :: ('e, _) outcome)"
    and b: "buf' = buf[length buf - 1 := fst (load_impl (last buf) j tc' sc)]" by (auto simp: read_from_last_store_def outcome_eqs)
  have j: "j = i" "tc' = tc" using thread_state_unique [OF st' st] by auto
  have "forgotten buf log + (length buf - 1) = length (stores_of log) - 1" using ne len by (cases buf) auto
  moreover have "last buf = buf ! (length buf - 1)" using ne by (simp add: last_conv_nth)
  moreover have "val (fst (load_impl el i tc sc)) = val el" for el :: "'a StoreElement" by (simp add: load_impl_def Let_def)
  ultimately show ?thesis using load_impl_ok [OF ok _ own, of "length buf - 1" sc C lt v] ne b j
    by (auto simp: last_list_update)
qed

lemma buffered_write_Ok:
  "buffered_write buf v g t sc sync = Ok buf' \<Longrightarrow> thread_state g t = (Ok (i, tc) :: (unit, _) outcome) \<Longrightarrow>
    buf' = store_impl buf v i (clock tc) sc sync"
  by (auto simp: buffered_write_def outcome_eqs dest: thread_state_unique)

lemma after_access_eq:
  assumes "alloc_buffers (race_alloc st) = Some w"
  shows "after_access s t a rng modes st rel log =
    s\<lparr>ws_race := (validated (ws_race s) t a rng modes (global_state st) (data_race_clocks (race_alloc st)))\<lparr>sys_released := rel \<union> sys_released (ws_race s)\<rparr>,
      ws_buffers := (ws_buffers s)(a \<mapsto> w), ws_memory := (ws_memory s)(a := memory st), ws_log := (ws_log s)(a := (ws_log s a)(rng := log))\<rparr>"
  using assms by (simp add: after_access_def validated_def Let_def)

lemma final_time:
  assumes "sys_inv r" "thread_state (sys_global r) t = (Ok (i, tc) :: (unit, _) outcome)"
  shows "clock_time (clock tc) i = own_time (sys_global r) i"
  using thread_state_Ok(3) [of "histories r" "sys_global r" t i tc, where 'a = unit] assms by (auto simp: sys_inv_def thread_ok_def)

text \<open>The log of an object agrees with the buffer that \<open>get_or_create_store_buffer_mut\<close> returns.\<close>

lemma created_ok:
  assumes inv: "weak_inv ip s" and b: "ws_buffers s a = Some bufs" "object_inv bufs"
    and rng: "0 < bytes rng" "range_stop rng < 2 ^ 64" and run: "get_or_create_store_buffer_mut bufs rng init = Ok (w, pos)"
  shows "buffer_ok (own_time (sys_global (ws_race s))) (sys_released (ws_race s)) (obj_data (w ! pos)) (object_log s a rng init)"
    "coherent (object_log s a rng init)"
proof -
  note w = get_or_create_Ok [OF b(2) rng run]
  have log: "object_log s a rng init = (if rng \<in> obj_range ` set bufs then ws_log s a rng else [WStore 0 0 False init])"
    using b by (simp add: object_log_def)
  show "coherent (object_log s a rng init)" using inv by (simp add: log weak_inv_def)
  show "buffer_ok (own_time (sys_global (ws_race s))) (sys_released (ws_race s)) (obj_data (w ! pos)) (object_log s a rng init)"
  proof (cases "rng \<in> obj_range ` set bufs")
    case True
    then have "w ! pos \<in> set bufs" "obj_range (w ! pos) = rng" using w by auto
    moreover from this have "object_ok (own_time (sys_global (ws_race s))) (sys_released (ws_race s)) (read_scalar ip (ws_memory s a)) (ws_log s a) (w ! pos)"
      using inv b unfolding weak_inv_def by blast
    ultimately show ?thesis using True by (simp add: log object_ok_def)
  next
    case False
    then show ?thesis using w inv by (simp add: log buffer_ok_new weak_inv_def)
  qed
qed

section \<open>Every step keeps the invariant\<close>

text \<open>An access changes the buffer at one position, after other buffers may have been removed.\<close>

lemma put_update:
  assumes inv: "weak_inv ip s" and steps: "race_step\<^sup>*\<^sup>* (ws_race s) r" and b: "ws_buffers s a = Some bufs"
    and w: "object_inv w" "pos < length w" "obj_range (w ! pos) = rng" and put: "put_buffer w pos buf = Ok w'"
    and old: "\<And>x. x \<in> set w \<Longrightarrow> obj_range x \<noteq> rng \<Longrightarrow> x \<in> set bufs \<and> read_scalar ip m (obj_range x) = read_scalar ip (ws_memory s a) (obj_range x)"
    and log: "coherent log" and new: "buffer_ok (own_time (sys_global r)) (sys_released r) buf log"
    and rd: "\<And>u. read_scalar ip m rng = Ok u \<Longrightarrow> val (last buf) = Some u"
  shows "weak_inv ip (s\<lparr>ws_race := r, ws_buffers := (ws_buffers s)(a \<mapsto> w'), ws_memory := (ws_memory s)(a := m),
    ws_log := (ws_log s)(a := (ws_log s a)(rng := log))\<rparr>)"
proof (rule weak_update [OF inv steps b _ log])
  have w': "w' = w[pos := (w ! pos)\<lparr>obj_data := buf\<rparr>]" using put by (simp add: put_buffer_Ok)
  show "object_inv w'" unfolding w' by (rule object_inv_put [OF w(1,2)])
  fix x
  assume "x \<in> set w'"
  then obtain j where j: "j < length w" "x = w' ! j" by (auto simp: w' in_set_conv_nth)
  have eq: "j = pos \<longleftrightarrow> obj_range x = rng"
  proof
    show "j = pos \<Longrightarrow> obj_range x = rng" using j w by (simp add: w')
    show "j = pos" if "obj_range x = rng"
    proof (rule ccontr)
      assume "j \<noteq> pos"
      then have "obj_range (w ! j) = obj_range (w ! pos)" using that j w by (simp add: w')
      from object_ranges_distinct [OF w(1) j(1) w(2) this] \<open>j \<noteq> pos\<close> show False by simp
    qed
  qed
  show "x \<in> set bufs \<and> read_scalar ip m (obj_range x) = read_scalar ip (ws_memory s a) (obj_range x)" if "obj_range x \<noteq> rng"
  proof -
    have "j \<noteq> pos" using eq that by simp
    then have "x = w ! j" using j by (simp add: w')
    then have "x \<in> set w" using j by simp
    from old [OF this that] show ?thesis .
  qed
  show "buffer_ok (own_time (sys_global r)) (sys_released r) (obj_data x) log \<and> (\<forall>v. read_scalar ip m rng = Ok v \<longrightarrow> val (last (obj_data x)) = Some v)"
    if "obj_range x = rng"
  proof -
    have "j = pos" using eq that by simp
    then have "obj_data x = buf" using j by (simp add: w')
    then show ?thesis using new rd by simp
  qed
qed

lemma store_inv:
  assumes inv: "weak_inv ip s" and laws: "memory_laws ip" and sees: "sees s t a rng st" and pl: "place_range place = rng"
    and run: "write_scalar_atomic ip t st v place ord = Ok st'"
    and c: "(sync_clock (data_race_clocks (race_alloc st')) (start rng) (bytes rng) :: VClock hook) = Ok c"
    and ts: "thread_state (global_state st') t = (Ok (i, tc) :: (unit, _) outcome)"
  shows "weak_inv ip (after_access s t a rng [AtW] st' {c}
    (WStore i (clock_time (clock tc) i) (ord = WriteSeqCst) (Some v) # object_log s a rng (init_value ip (ws_memory s a) rng)))"
proof -
  let ?r = "ws_race s" and ?init = "init_value ip (ws_memory s a) rng"
  obtain bufs m where b: "ws_buffers s a = Some bufs" "object_inv bufs" and rng: "range_stop rng < 2 ^ 64" "0 < bytes rng"
    and al: "alive (sys_global ?r) t" and m: "in_mem ?r a (start rng) (bytes rng) m"
    and st: "st = \<lparr>global_state = sys_global ?r, race_alloc = \<lparr>data_race_clocks = m, alloc_buffers = Some bufs\<rparr>, memory = ws_memory s a\<rparr>"
    by (rule sees_inv [OF inv sees]) blast
  from run obtain g m1 mem g' c' bufs1 pos buf bufs2
    where wr: "write_scalar ip (ws_memory s a) rng v = Ok mem"
      and val: "validate_atomic_store (sys_global ?r) t m (start rng) (bytes rng) ord = Ok (g, m1)"
      and sc: "(if ord = WriteSeqCst then sc_write g t else Ok g) = (Ok g' :: ('d AtomicError, _) outcome)"
      and sync: "sync_clock m1 (start rng) (bytes rng) = (Ok c' :: ('d AtomicError, _) outcome)"
      and get: "get_or_create_store_buffer_mut bufs rng ?init = (Ok (bufs1, pos) :: ('d AtomicError, _) outcome)"
      and buf: "buffered_write (obj_data (bufs1 ! pos)) v g' t (ord = WriteSeqCst) c' = (Ok buf :: ('d AtomicError, _) outcome)"
      and put: "put_buffer bufs1 pos buf = (Ok bufs2 :: ('d AtomicError, _) outcome)"
      and st': "st' = \<lparr>global_state = g', race_alloc = \<lparr>data_race_clocks = m1, alloc_buffers = Some bufs2\<rparr>, memory = mem\<rparr>"
    unfolding write_scalar_atomic_def buffered_atomic_write_def pl st Let_def
    by (auto simp: outcome_eqs allow_data_races_Ok index_Ok init_value_def dest!: discard_err_Ok)
  have c': "c' = c" using sync_clock_unique [OF sync] c by (simp add: st')
  let ?r' = "(validated ?r t a rng [AtW] g' m1)\<lparr>sys_released := {c} \<union> sys_released ?r\<rparr>"
  have steps: "race_step\<^sup>*\<^sup>* ?r ?r'"
    using write_race [OF al m, of ord g m1 "[AtW]" RwRelaxed False g "ord = WriteSeqCst" g' c, where 'e = "'d AtomicError"] val sc c by (simp add: st')
  have r': "sys_inv ?r'" "own_time (sys_global ?r) \<le> own_time g'" using race_steps_inv [OF steps] inv by (auto simp: weak_inv_def advances_def)
  note w = get_or_create_Ok [OF b(2) rng(2,1) get]
  have old: "buffer_ok (own_time g') ({c} \<union> sys_released ?r) (obj_data (bufs1 ! pos)) (object_log s a rng ?init)"
    using buffer_ok_mono [OF created_ok(1) [OF inv b rng(2,1) get] r'(2), of "{c} \<union> sys_released ?r"] by blast
  have bufeq: "buf = store_impl (obj_data (bufs1 ! pos)) v i (clock tc) (ord = WriteSeqCst) c"
    using buffered_write_Ok [OF buf] ts by (simp add: st' c')
  have new: "buffer_ok (own_time g') ({c} \<union> sys_released ?r) buf
      (WStore i (clock_time (clock tc) i) (ord = WriteSeqCst) (Some v) # object_log s a rng ?init)"
    unfolding bufeq by (rule store_impl_ok [OF old created_ok(2) [OF inv b rng(2,1) get]]) simp
  have frame: "read_scalar ip mem r = read_scalar ip (ws_memory s a) r" if "\<not> overlap rng r" for r
    using laws wr that unfolding memory_laws_def by blast
  have rd: "u = v" if "read_scalar ip mem rng = Ok u" for u using laws wr that unfolding memory_laws_def by blast
  have acc: "alloc_buffers (race_alloc st') = Some bufs2" by (simp add: st')
  have "weak_inv ip (s\<lparr>ws_race := ?r', ws_buffers := (ws_buffers s)(a \<mapsto> bufs2), ws_memory := (ws_memory s)(a := mem), ws_log := (ws_log s)(a := (ws_log s a)
      (rng := WStore i (clock_time (clock tc) i) (ord = WriteSeqCst) (Some v) # object_log s a rng ?init))\<rparr>)"
  proof (rule put_update [OF inv steps b(1) _ _ _ put])
    show "val (last buf) = Some u" if "read_scalar ip mem rng = Ok u" for u using rd [OF that] store_impl_last by (simp add: bufeq)
    show "coherent (WStore i (clock_time (clock tc) i) (ord = WriteSeqCst) (Some v) # object_log s a rng ?init)"
      using created_ok(2) [OF inv b rng(2,1) get] by simp
    show "x \<in> set bufs \<and> read_scalar ip mem (obj_range x) = read_scalar ip (ws_memory s a) (obj_range x)" if "x \<in> set bufs1" "obj_range x \<noteq> rng" for x
      using w that frame by blast
  qed (use w new in auto)
  then show ?thesis unfolding after_access_eq [OF acc] by (simp add: st')
qed

lemma fetch_store_type: "map_err f (fetch_store pick buf sc tc) = fetch_store pick buf sc tc"
  by (simp add: fetch_store_def Let_def map_err_obind del: obind_check)

lemma buffered_read_Ok:
  assumes "buffered_read pick buf g t sc validate = (Ok (g', m', buf', loaded, rec) :: ('e, _) outcome)"
  obtains i tc pos j tc' where "thread_state g t = (Ok (i, tc) :: ('e, _) outcome)" "fetch_store pick buf sc tc = (Ok (pos, rec) :: ('e, _) outcome)"
    "pos < length buf" "validate (Some (elem_sync_clock (buf ! pos))) = Ok (g', m')" "thread_state g' t = (Ok (j, tc') :: ('e, _) outcome)"
    "buf' = buf[pos := fst (load_impl (buf ! pos) j tc' sc)]" "loaded = val (buf ! pos)"
proof -
  have "snd (load_impl el j tc' sc) = val el" for el :: "'a StoreElement" and j tc' by (simp add: load_impl_def Let_def)
  with assms that show ?thesis
    by (auto simp: buffered_read_def outcome_eqs vec_get_def Let_def case_prod_unfold split: if_splits)
qed

lemma log_access_global: "log_access (r\<lparr>sys_global := g\<rparr>) = log_access r"
proof -
  have "sys_hist (r\<lparr>sys_global := g\<rparr>) = sys_hist r" by simp
  then show ?thesis unfolding log_access_def by (rule arg_cong)
qed

lemma sc_read_race:
  assumes al: "alive (sys_global r) t" and m: "in_mem r a (start rng) (bytes rng) m"
    and sc: "(if b then sc_read (sys_global r) t else Ok (sys_global r)) = (Ok g :: ('e, _) outcome)"
    and run: "validate_atomic_load g t m (start rng) (bytes rng) ord sync = Ok (g', m')" and rel: "\<And>c. sync = Some c \<Longrightarrow> c \<in> sys_released r"
  shows "race_step\<^sup>*\<^sup>* r (validated r t a rng [AtR] g' m')"
proof -
  have keep: "alive g t" "race_detecting g = race_detecting (sys_global r)" "logged g t [AtR] = logged (sys_global r) t [AtR]"
    using sc al sc_keeps(1-3) [of "sys_global r" t g, where 'e = 'e] by (auto split: if_splits)
  have "race_step\<^sup>*\<^sup>* r (r\<lparr>sys_global := g\<rparr>)" by (rule sc_step(2) [OF al sc])
  moreover have "race_step\<^sup>*\<^sup>* (r\<lparr>sys_global := g\<rparr>) (validated (r\<lparr>sys_global := g\<rparr>) t a rng [AtR] g' m')"
    using validated_step [of "r\<lparr>sys_global := g\<rparr>" t a rng m _ g' m' "[AtR]" _ ord sync] keep m run rel by (simp add: in_mem_def)
  moreover have "validated (r\<lparr>sys_global := g\<rparr>) t a rng [AtR] g' m' = validated r t a rng [AtR] g' m'"
    using keep log_access_global by (simp add: validated_def)
  ultimately show ?thesis by simp
qed

lemma load_inv:
  assumes inv: "weak_inv ip s" and sees: "sees s t a rng st" and pl: "place_range place = rng"
    and run: "read_scalar_atomic ip pick t st place ord = Ok (st', v)"
    and x: "ws_buffers s a = Some bufs0" "x \<in> set bufs0" "obj_range x = rng"
    and sc0: "(if ord = ReadSeqCst then sc_read (global_state st) t else Ok (global_state st)) = (Ok g0 :: (unit, _) outcome)"
    and ts0: "thread_state g0 t = (Ok (i0, tc0) :: (unit, _) outcome)"
    and f0: "fetch_store pick (obj_data x) (ord = ReadSeqCst) tc0 = (Ok (pos0, recency0) :: (unit, _) outcome)"
    and ts: "thread_state (global_state st') t = (Ok (i, tc) :: (unit, _) outcome)"
  shows "weak_inv ip (after_access s t a rng [AtR] st' {}
    (WLoad (clock_time (clock tc0)) i (clock_time (clock tc) i) (ord = ReadSeqCst) False
       (forgotten (obj_data x) (ws_log s a rng) + pos0) (Some v) # ws_log s a rng))"
proof -
  let ?r = "ws_race s" and ?sc = "ord = ReadSeqCst"
  obtain bufs m where b: "ws_buffers s a = Some bufs" "object_inv bufs" and rng: "range_stop rng < 2 ^ 64" "0 < bytes rng"
    and al: "alive (sys_global ?r) t" and m: "in_mem ?r a (start rng) (bytes rng) m"
    and st: "st = \<lparr>global_state = sys_global ?r, race_alloc = \<lparr>data_race_clocks = m, alloc_buffers = Some bufs\<rparr>, memory = ws_memory s a\<rparr>"
    and ok: "\<And>x. x \<in> set bufs \<Longrightarrow> object_ok (own_time (sys_global ?r)) (sys_released ?r) (read_scalar ip (ws_memory s a)) (ws_log s a) x"
    and coh: "coherent (ws_log s a rng)"
    by (rule sees_inv [OF inv sees]) blast
  have xb: "x \<in> set bufs" "rng \<in> obj_range ` set bufs" using x b by auto
  obtain p where p: "p < length bufs" "bufs ! p = x" using xb(1) by (auto simp: in_set_conv_nth)
  have found: "get_store_buffer bufs rng = (Ok (Some p) :: ('d AtomicError, _) outcome)" using p x by (simp add: get_store_buffer_Ok(1) [OF b(2) rng(2,1)])
  let ?buf = "obj_data x"
  from run found p obtain g1 g2 m2 buf2 rec bufs2
    where sc: "(if ?sc then sc_read (sys_global ?r) t else Ok (sys_global ?r)) = (Ok g1 :: ('d AtomicError, _) outcome)"
      and br: "buffered_read pick ?buf g1 t ?sc (\<lambda>sync. map_err RaceError (validate_atomic_load g1 t m (start rng) (bytes rng) ord sync))
        = (Ok (g2, m2, buf2, Some v, rec) :: ('d AtomicError, _) outcome)"
      and put: "put_buffer bufs p buf2 = (Ok bufs2 :: ('d AtomicError, _) outcome)"
      and st': "st' = \<lparr>global_state = g2, race_alloc = \<lparr>data_race_clocks = m2, alloc_buffers = Some bufs2\<rparr>, memory = ws_memory s a\<rparr>"
    unfolding read_scalar_atomic_def buffered_atomic_read_def pl st Let_def
    by (auto simp: outcome_eqs allow_data_races_Ok index_Ok split: option.splits)
  from buffered_read_Ok [OF br] obtain i1 tc1 pos i2 tc2
    where ts1: "thread_state g1 t = (Ok (i1, tc1) :: ('d AtomicError, _) outcome)"
      and f: "fetch_store pick ?buf ?sc tc1 = (Ok (pos, rec) :: ('d AtomicError, _) outcome)" and pos: "pos < length ?buf"
      and val: "validate_atomic_load g1 t m (start rng) (bytes rng) ord (Some (elem_sync_clock (?buf ! pos))) = Ok (g2, m2)"
      and ts2: "thread_state g2 t = (Ok (i2, tc2) :: ('d AtomicError, _) outcome)"
      and buf2: "buf2 = ?buf[pos := fst (load_impl (?buf ! pos) i2 tc2 ?sc)]" and v: "val (?buf ! pos) = Some v"
    unfolding map_err_Ok by metis
  have same: "g1 = g0" "i1 = i0" "tc1 = tc0" "pos = pos0" "i2 = i" "tc2 = tc"
  proof -
    have "sc_read (sys_global ?r) t = (Ok g1 :: (unit, _) outcome)" if "sc_read (sys_global ?r) t = (Ok g1 :: ('d AtomicError, _) outcome)"
      using that by (rule change_error_type [OF no_error_value(3)])
    with sc sc0 show g: "g1 = g0" by (auto simp: st split: if_splits)
    show tc: "i1 = i0" "tc1 = tc0" using thread_state_unique [OF ts1] ts0 by (auto simp: g)
    have "fetch_store pick ?buf ?sc tc1 = (Ok (pos, rec) :: (unit, _) outcome)" by (rule change_error_type [OF fetch_store_type f])
    then show "pos = pos0" using f0 by (simp add: tc)
    show "i2 = i" "tc2 = tc" using thread_state_unique [OF ts2] ts by (auto simp: st')
  qed
  have okx: "buffer_ok (own_time (sys_global ?r)) (sys_released ?r) ?buf (ws_log s a rng)"
    and rdx: "\<And>u. read_scalar ip (ws_memory s a) rng = Ok u \<Longrightarrow> val (last ?buf) = Some u"
    using ok [OF xb(1)] x(3) by (auto simp: object_ok_def)
  let ?r' = "validated ?r t a rng [AtR] g2 m2"
  have steps: "race_step\<^sup>*\<^sup>* ?r ?r'"
    by (rule sc_read_race [OF al m sc val]) (use okx pos in \<open>auto simp: buffer_ok_def\<close>)
  have r': "sys_inv ?r'" "own_time (sys_global ?r) \<le> own_time g2" using race_steps_inv [OF steps] inv by (auto simp: weak_inv_def advances_def)
  have own: "clock_time (clock tc) i = own_time g2 i" using final_time [OF r'(1)] ts by (simp add: st')
  have okg: "buffer_ok (own_time g2) (sys_released ?r) ?buf (ws_log s a rng)" by (rule buffer_ok_mono [OF okx r'(2)]) simp
  let ?e = "WLoad (clock_time (clock tc0)) i (clock_time (clock tc) i) ?sc False (forgotten ?buf (ws_log s a rng) + pos) (Some v)"
  let ?new = "?buf[pos := fst (load_impl (?buf ! pos) i tc ?sc)]"
  have "coherent_load (ws_log s a rng) ?e"
    using fetch_coherent [OF okx coh fetch_store_candidate [OF f], of i] v same by simp
  moreover have "buffer_ok (own_time g2) (sys_released ?r) ?new (?e # ws_log s a rng)"
    unfolding own by (rule load_impl_ok [OF okg pos own])
  moreover have "val (last ?new) = val (last ?buf)"
  proof -
    have "val (fst (load_impl (?buf ! pos) i tc ?sc)) = val (?buf ! pos)" by (simp add: load_impl_def Let_def)
    from update_keeps [where f = val, OF pos this, of "length ?buf - 1"] show ?thesis using pos by (cases ?buf rule: rev_cases) (auto simp: last_conv_nth)
  qed
  ultimately have "weak_inv ip (s\<lparr>ws_race := ?r', ws_buffers := (ws_buffers s)(a \<mapsto> bufs2), ws_memory := (ws_memory s)(a := ws_memory s a),
      ws_log := (ws_log s)(a := (ws_log s a)(rng := ?e # ws_log s a rng))\<rparr>)"
    using put buf2 coh p x(3) rdx same by (intro put_update [OF inv steps b(1,2) p(1)]) auto
  then show ?thesis using same after_access_eq [of st' bufs2] by (simp add: st')
qed

lemma load_memory_inv:
  assumes inv: "weak_inv ip s" and sees: "sees s t a rng st" and pl: "place_range place = rng"
    and run: "read_scalar_atomic ip pick t st place ord = Ok (st', v)" and b0: "ws_buffers s a = Some bufs0" "rng \<notin> obj_range ` set bufs0"
  shows "weak_inv ip (after_access s t a rng [AtR] st' {} (ws_log s a rng))"
proof -
  let ?r = "ws_race s"
  obtain bufs m where b: "ws_buffers s a = Some bufs" "object_inv bufs" and rng: "range_stop rng < 2 ^ 64" "0 < bytes rng"
    and al: "alive (sys_global ?r) t" and m: "in_mem ?r a (start rng) (bytes rng) m" and coh: "coherent (ws_log s a rng)"
    and st: "st = \<lparr>global_state = sys_global ?r, race_alloc = \<lparr>data_race_clocks = m, alloc_buffers = Some bufs\<rparr>, memory = ws_memory s a\<rparr>"
    by (rule sees_inv [OF inv sees]) blast
  have none: "rng \<notin> obj_range ` set bufs" using b b0 by simp
  then have "get_store_buffer bufs rng = (Ok None :: ('d AtomicError, _) outcome)"
    by (simp add: get_store_buffer_Ok(2) [OF b(2) rng(2,1)])
  with run obtain g1 g2 m2
    where sc: "(if ord = ReadSeqCst then sc_read (sys_global ?r) t else Ok (sys_global ?r)) = (Ok g1 :: ('d AtomicError, _) outcome)"
      and val: "validate_atomic_load g1 t m (start rng) (bytes rng) ord None = Ok (g2, m2)"
      and st': "st' = \<lparr>global_state = g2, race_alloc = \<lparr>data_race_clocks = m2, alloc_buffers = Some bufs\<rparr>, memory = ws_memory s a\<rparr>"
    unfolding read_scalar_atomic_def buffered_atomic_read_def pl st Let_def
    by (auto simp: outcome_eqs allow_data_races_Ok map_err_Ok split: option.splits)
  let ?r' = "validated ?r t a rng [AtR] g2 m2"
  have steps: "race_step\<^sup>*\<^sup>* ?r ?r'" by (rule sc_read_race [OF al m sc val]) simp
  have "weak_inv ip (s\<lparr>ws_race := ?r', ws_buffers := (ws_buffers s)(a \<mapsto> bufs), ws_memory := (ws_memory s)(a := ws_memory s a),
      ws_log := (ws_log s)(a := (ws_log s a)(rng := ws_log s a rng))\<rparr>)"
    by (rule weak_update [OF inv steps b coh]) (use none in auto)
  then show ?thesis using after_access_eq [of st' bufs] by (simp add: st')
qed

lemma rmw_result_finish:
  assumes "rmw_result ip t st place ord st' old v"
  shows "read_scalar ip (memory st) (place_range place) = Ok old \<and> finish_rmw ip t (global_state st) st (place_range place) v old ord = Ok st'"
  using assms
  by (auto simp: rmw_result_def atomic_rmw_op_immediate_def atomic_exchange_scalar_def atomic_compare_exchange_scalar_def Let_def
      outcome_eqs allow_data_races_Ok map_err_Ok split: if_splits)

lemma rmw_inv:
  assumes inv: "weak_inv ip s" and laws: "memory_laws ip" and sees: "sees s t a rng st" and pl: "place_range place = rng"
    and run: "rmw_result ip t st place ord st' old v"
    and c: "(sync_clock (data_race_clocks (race_alloc st')) (start rng) (bytes rng) :: VClock hook) = Ok c"
    and ts: "thread_state (global_state st') t = (Ok (i, tc) :: (unit, _) outcome)" and lg: "log = object_log s a rng (Some old)"
  shows "weak_inv ip (after_access s t a rng [AtW, AtR] st' {c}
      (WStore i (clock_time (clock tc) i) (ord = RwSeqCst) (Some v) #
       WLoad (clock_time (clock tc)) i (clock_time (clock tc) i) (ord = RwSeqCst) True (length (stores_of log) - 1) (Some old) # log))"
proof -
  let ?r = "ws_race s" and ?sc = "ord = RwSeqCst"
  obtain bufs m where b: "ws_buffers s a = Some bufs" "object_inv bufs" and rng: "range_stop rng < 2 ^ 64" "0 < bytes rng"
    and al: "alive (sys_global ?r) t" and m: "in_mem ?r a (start rng) (bytes rng) m"
    and st: "st = \<lparr>global_state = sys_global ?r, race_alloc = \<lparr>data_race_clocks = m, alloc_buffers = Some bufs\<rparr>, memory = ws_memory s a\<rparr>"
    and ok: "\<And>x. x \<in> set bufs \<Longrightarrow> object_ok (own_time (sys_global ?r)) (sys_released ?r) (read_scalar ip (ws_memory s a)) (ws_log s a) x"
    by (rule sees_inv [OF inv sees]) blast
  from rmw_result_finish [OF run] have rd_old: "read_scalar ip (ws_memory s a) rng = Ok old"
    and fin: "finish_rmw ip t (sys_global ?r) st rng v old ord = Ok st'" by (simp_all add: pl st)
  from fin obtain g m1 mem g1 g2 c' bufs1 pos buf0 buf bufs2
    where wr: "write_scalar ip (ws_memory s a) rng v = Ok mem"
      and val: "validate_atomic_rmw (sys_global ?r) t m (start rng) (bytes rng) ord = Ok (g, m1)"
      and sc: "(if ?sc then sc_read g t else Ok g) = (Ok g1 :: ('d AtomicError, _) outcome)"
        "(if ?sc then sc_write g1 t else Ok g1) = (Ok g2 :: ('d AtomicError, _) outcome)"
      and sync: "sync_clock m1 (start rng) (bytes rng) = (Ok c' :: ('d AtomicError, _) outcome)"
      and get: "get_or_create_store_buffer_mut bufs rng (Some old) = (Ok (bufs1, pos) :: ('d AtomicError, _) outcome)"
      and buf0: "read_from_last_store (obj_data (bufs1 ! pos)) g2 t ?sc = (Ok buf0 :: ('d AtomicError, _) outcome)"
      and buf: "buffered_write buf0 v g2 t ?sc c' = (Ok buf :: ('d AtomicError, _) outcome)"
      and put: "put_buffer bufs1 pos buf = (Ok bufs2 :: ('d AtomicError, _) outcome)"
      and st': "st' = \<lparr>global_state = g2, race_alloc = \<lparr>data_race_clocks = m1, alloc_buffers = Some bufs2\<rparr>, memory = mem\<rparr>"
    unfolding finish_rmw_def buffered_atomic_rmw_def st
    by (cases ?sc) (auto simp: outcome_eqs allow_data_races_Ok index_Ok map_err_Ok)
  have c': "c' = c" using sync_clock_unique [OF sync] c by (simp add: st')
  let ?rel = "{c} \<union> sys_released ?r"
  let ?r' = "(validated ?r t a rng [AtW, AtR] g2 m1)\<lparr>sys_released := ?rel\<rparr>"
  have steps: "race_step\<^sup>*\<^sup>* ?r ?r'"
    by (rule write_race [OF al m _ sc]) (use val c in \<open>auto simp: st'\<close>)
  have r': "sys_inv ?r'" "own_time (sys_global ?r) \<le> own_time g2" using race_steps_inv [OF steps] inv by (auto simp: weak_inv_def advances_def)
  have own: "clock_time (clock tc) i = own_time g2 i" using final_time [OF r'(1)] ts by (simp add: st')
  have ts2: "thread_state g2 t = (Ok (i, tc) :: (unit, _) outcome)" using ts by (simp add: st')
  note w = get_or_create_Ok [OF b(2) rng(2,1) get]
  let ?buf = "obj_data (bufs1 ! pos)"
  have made: "buffer_ok (own_time (sys_global ?r)) (sys_released ?r) ?buf log" "coherent log"
    unfolding lg by (rule created_ok [OF inv b rng(2,1) get])+
  have last: "val (last ?buf) = Some old"
  proof (cases "rng \<in> obj_range ` set bufs")
    case True
    then have "bufs1 ! pos \<in> set bufs" "obj_range (bufs1 ! pos) = rng" using w by auto
    with ok rd_old show ?thesis by (auto simp: object_ok_def)
  next
    case False
    then show ?thesis using w by (simp add: StoreBuffer_new_def)
  qed
  let ?l = "WLoad (clock_time (clock tc)) i (clock_time (clock tc) i) ?sc True (length (stores_of log) - 1) (Some old)"
  have "buffer_ok (own_time g2) ?rel ?buf log" by (rule buffer_ok_mono [OF made(1) r'(2)]) blast
  from read_last_ok [OF this ts2 own buf0, of "clock_time (clock tc)" True "Some old"]
  have ok0: "buffer_ok (own_time g2) ?rel buf0 (?l # log)" by (simp add: own)
  have coh: "coherent (?l # log)" using made(2) latest_coherent [OF made, of "clock_time (clock tc)" i "clock_time (clock tc) i" ?sc] last by simp
  have bufeq: "buf = store_impl buf0 v i (clock tc) ?sc c" using buffered_write_Ok [OF buf ts2] by (simp add: c')
  let ?s = "WStore i (clock_time (clock tc) i) ?sc (Some v)"
  have new: "buffer_ok (own_time g2) ?rel buf (?s # ?l # log)" unfolding bufeq by (rule store_impl_ok [OF ok0 coh]) simp
  have frame: "read_scalar ip mem r = read_scalar ip (ws_memory s a) r" if "\<not> overlap rng r" for r
    using laws wr that unfolding memory_laws_def by blast
  have rd: "u = v" if "read_scalar ip mem rng = Ok u" for u using laws wr that unfolding memory_laws_def by blast
  have acc: "alloc_buffers (race_alloc st') = Some bufs2" by (simp add: st')
  have "weak_inv ip (s\<lparr>ws_race := ?r', ws_buffers := (ws_buffers s)(a \<mapsto> bufs2), ws_memory := (ws_memory s)(a := mem),
      ws_log := (ws_log s)(a := (ws_log s a)(rng := ?s # ?l # log))\<rparr>)"
  proof (rule put_update [OF inv steps b(1) _ _ _ put])
    show "val (last buf) = Some u" if "read_scalar ip mem rng = Ok u" for u using rd [OF that] store_impl_last by (simp add: bufeq)
    show "coherent (?s # ?l # log)" using coh by simp
    show "x \<in> set bufs \<and> read_scalar ip mem (obj_range x) = read_scalar ip (ws_memory s a) (obj_range x)" if "x \<in> set bufs1" "obj_range x \<noteq> rng" for x
      using w that frame by blast
  qed (use w new in auto)
  then show ?thesis unfolding after_access_eq [OF acc] by (simp add: st')
qed

lemma failed_exchange_inv:
  assumes inv: "weak_inv ip s" and sees: "sees s t a rng st" and pl: "place_range place = rng"
    and run: "atomic_compare_exchange_scalar ip lucky t st place expected new success fail spurious = Ok (st', old, False)"
    and b0: "ws_buffers s a = Some bufs0" and ts: "thread_state (global_state st') t = (Ok (i, tc) :: (unit, _) outcome)" and lg: "log = ws_log s a rng"
  shows "weak_inv ip (after_access s t a rng [AtR] st' {}
      (if rng \<in> obj_range ` set bufs0
       then WLoad (clock_time (clock tc)) i (clock_time (clock tc) i) (fail = ReadSeqCst) True (length (stores_of log) - 1) (Some old) # log
       else log))"
proof -
  let ?r = "ws_race s" and ?sc = "fail = ReadSeqCst"
  obtain bufs m where b: "ws_buffers s a = Some bufs" "object_inv bufs" and rng: "range_stop rng < 2 ^ 64" "0 < bytes rng"
    and al: "alive (sys_global ?r) t" and m: "in_mem ?r a (start rng) (bytes rng) m" and coh: "coherent log"
    and st: "st = \<lparr>global_state = sys_global ?r, race_alloc = \<lparr>data_race_clocks = m, alloc_buffers = Some bufs\<rparr>, memory = ws_memory s a\<rparr>"
    and ok: "\<And>x. x \<in> set bufs \<Longrightarrow> object_ok (own_time (sys_global ?r)) (sys_released ?r) (read_scalar ip (ws_memory s a)) (ws_log s a) x"
    unfolding lg by (rule sees_inv [OF inv sees]) blast
  have bb: "bufs0 = bufs" using b b0 by simp
  from run obtain g m2 alloc g2 where rd_old: "read_scalar ip (ws_memory s a) rng = Ok old"
      and val: "validate_atomic_load (sys_global ?r) t m (start rng) (bytes rng) fail None = Ok (g, m2)"
      and latest: "perform_read_on_buffered_latest g t \<lparr>data_race_clocks = m2, alloc_buffers = Some bufs\<rparr> rng fail = (Ok (g2, alloc) :: ('d AtomicError, _) outcome)"
      and st': "st' = \<lparr>global_state = g2, race_alloc = alloc, memory = ws_memory s a\<rparr>"
    unfolding atomic_compare_exchange_scalar_def pl st Let_def
    by (auto simp: outcome_eqs allow_data_races_Ok map_err_Ok split: if_splits)
  from latest obtain found where sc: "(if ?sc then sc_read g t else Ok g) = (Ok g2 :: ('d AtomicError, _) outcome)"
      and found: "get_store_buffer bufs rng = (Ok found :: ('d AtomicError, _) outcome)"
      and rest: "(case found of None \<Rightarrow> Ok (g2, \<lparr>data_race_clocks = m2, alloc_buffers = Some bufs\<rparr>)
       | Some pos \<Rightarrow> obind (RangeObjectMap_index bufs pos) (\<lambda>buffer. obind (read_from_last_store buffer g2 t ?sc) (\<lambda>buffer.
             obind (put_buffer bufs pos buffer) (\<lambda>buffers. Ok (g2, \<lparr>data_race_clocks = m2, alloc_buffers = Some buffers\<rparr>)))))
         = (Ok (g2, alloc) :: ('d AtomicError, _) outcome)"
    unfolding perform_read_on_buffered_latest_def by (auto simp: outcome_eqs split: option.splits)
  let ?r' = "validated ?r t a rng [AtR] g2 m2"
  have steps: "race_step\<^sup>*\<^sup>* ?r ?r'"
  proof -
    have 1: "race_step\<^sup>*\<^sup>* ?r (validated ?r t a rng [AtR] g m2)" "alive g t"
      using validated_step [OF al m, of WriteRelaxed g m2 "[AtR]" RwRelaxed fail None] val by auto
    then have "race_step\<^sup>*\<^sup>* (validated ?r t a rng [AtR] g m2) ?r'"
      using sc_step(2) [of "validated ?r t a rng [AtR] g m2" t ?sc g2, where 'e = "'d AtomicError", unfolded validated_global] sc by blast
    with 1(1) show ?thesis by simp
  qed
  show ?thesis
  proof (cases "rng \<in> obj_range ` set bufs")
    case False
    then have "found = None" using found by (cases found) (auto simp: get_store_buffer_Ok(1) [OF b(2) rng(2,1)])
    then have al': "alloc = \<lparr>data_race_clocks = m2, alloc_buffers = Some bufs\<rparr>" using rest by simp
    have "weak_inv ip (s\<lparr>ws_race := ?r', ws_buffers := (ws_buffers s)(a \<mapsto> bufs), ws_memory := (ws_memory s)(a := ws_memory s a),
        ws_log := (ws_log s)(a := (ws_log s a)(rng := log))\<rparr>)"
      by (rule weak_update [OF inv steps b coh]) (use False in auto)
    then show ?thesis using False after_access_eq [of st' bufs] by (simp add: st' al' bb)
  next
    case True
    then obtain p where p: "p < length bufs" "obj_range (bufs ! p) = rng" by (auto simp: in_set_conv_nth)
    then have "get_store_buffer bufs rng = (Ok (Some p) :: ('d AtomicError, _) outcome)" by (simp add: get_store_buffer_Ok(1) [OF b(2) rng(2,1)])
    with found have "found = Some p" by simp
    with rest p obtain buf bufs2 where buf: "read_from_last_store (obj_data (bufs ! p)) g2 t ?sc = (Ok buf :: ('d AtomicError, _) outcome)"
      and put: "put_buffer bufs p buf = (Ok bufs2 :: ('d AtomicError, _) outcome)"
      and alloc: "alloc = \<lparr>data_race_clocks = m2, alloc_buffers = Some bufs2\<rparr>"
      by (auto simp: outcome_eqs index_Ok)
    have okp: "buffer_ok (own_time (sys_global ?r)) (sys_released ?r) (obj_data (bufs ! p)) log" "val (last (obj_data (bufs ! p))) = Some old"
      using ok [of "bufs ! p"] p rd_old by (auto simp: object_ok_def lg)
    have r': "sys_inv ?r'" "own_time (sys_global ?r) \<le> own_time g2" using race_steps_inv [OF steps] inv by (auto simp: weak_inv_def advances_def)
    have own: "clock_time (clock tc) i = own_time g2 i" using final_time [OF r'(1)] ts by (simp add: st')
    have ts2: "thread_state g2 t = (Ok (i, tc) :: (unit, _) outcome)" using ts by (simp add: st')
    let ?l = "WLoad (clock_time (clock tc)) i (clock_time (clock tc) i) ?sc True (length (stores_of log) - 1) (Some old)"
    have "buffer_ok (own_time g2) (sys_released ?r) (obj_data (bufs ! p)) log" by (rule buffer_ok_mono [OF okp(1) r'(2)]) simp
    from read_last_ok [OF this ts2 own buf, of "clock_time (clock tc)" True "Some old"]
    have new: "buffer_ok (own_time g2) (sys_released ?r) buf (?l # log)" "val (last buf) = Some old" using okp(2) by (auto simp: own)
    have "coherent (?l # log)" using coh latest_coherent [OF okp(1) coh, of "clock_time (clock tc)" i "clock_time (clock tc) i" ?sc] okp(2) by simp
    with new have "weak_inv ip (s\<lparr>ws_race := ?r', ws_buffers := (ws_buffers s)(a \<mapsto> bufs2), ws_memory := (ws_memory s)(a := ws_memory s a),
        ws_log := (ws_log s)(a := (ws_log s a)(rng := ?l # log))\<rparr>)"
      using rd_old put by (intro put_update [OF inv steps b p]) auto
    then show ?thesis using True after_access_eq [of st' bufs2] by (simp add: st' alloc bb)
  qed
qed

lemma weak_inv_race:
  assumes inv: "weak_inv ip s" and step: "race_step (ws_race s) r"
  shows "weak_inv ip (s\<lparr>ws_race := r\<rparr>)"
proof -
  have "race_step\<^sup>*\<^sup>* (ws_race s) r" using step by blast
  from race_steps_inv [OF this] inv have r: "sys_inv r" "own_time (sys_global (ws_race s)) \<le> own_time (sys_global r)"
    "sys_released (ws_race s) \<subseteq> sys_released r" by (auto simp: weak_inv_def advances_def)
  have "object_ok (own_time (sys_global r)) (sys_released r) rd logs x"
    if "object_ok (own_time (sys_global (ws_race s))) (sys_released (ws_race s)) rd logs x" for rd :: "AllocRange \<Rightarrow> ('d, 'b) outcome" and logs x
    using that buffer_ok_mono [OF _ r(2,3)] unfolding object_ok_def by blast
  with inv r show ?thesis unfolding weak_inv_def by auto
qed

lemma weak_inv_overwrite:
  assumes inv: "weak_inv ip s" and b: "ws_buffers s a = Some bufs" and rng: "0 < bytes rng" "range_stop rng < 2 ^ 64"
    and free: "\<not> ongoing_action_data_race_free (sys_global (ws_race s))"
    and run: "(non_atomic_write bufs rng (sys_global (ws_race s)) :: (unit, _) outcome) = Ok bufs'"
    and rd: "\<And>r. \<not> overlap rng r \<Longrightarrow> read_scalar ip m r = read_scalar ip (ws_memory s a) r"
  shows "weak_inv ip (s\<lparr>ws_buffers := (ws_buffers s)(a \<mapsto> bufs'), ws_memory := (ws_memory s)(a := m)\<rparr>)"
proof -
  have o: "object_inv bufs" using inv b by (auto simp: weak_inv_def)
  note w = non_atomic_write_Ok [OF o rng run free]
  have "object_ok (own_time (sys_global (ws_race s))) (sys_released (ws_race s)) (read_scalar ip m) (ws_log s a) x" if x: "x \<in> set bufs'" for x
  proof -
    from w x have "x \<in> set bufs" "\<not> overlap rng (obj_range x)" by auto
    with inv b rd show ?thesis unfolding weak_inv_def object_ok_def by metis
  qed
  with inv w show ?thesis unfolding weak_inv_def by auto
qed

theorem weak_step_inv: "weak_step ip s s' \<Longrightarrow> memory_laws ip \<Longrightarrow> weak_inv ip s \<Longrightarrow> weak_inv ip s'"
proof (induction rule: weak_step.induct)
  case (race s r)
  then show ?case by (blast intro: weak_inv_race)
next
  case (alloc s a m)
  then show ?case by (auto simp: weak_inv_def StoreBufferAlloc_new_allocation_def RangeObjectMap_new_def object_inv_def)
next
  case (free s a)
  then show ?case by (auto simp: weak_inv_def)
next
  case (overwrite s a bufs rng bufs' m)
  then show ?case by (intro weak_inv_overwrite) auto
next
  case (store s t a rng st place v ord st' c i tc)
  from store_inv [OF store.prems(2,1) store.hyps] show ?case .
next
  case (load s t a rng st place pick ord st' v bufs x g i tc0 pos recency tc)
  from load_inv [OF load.prems(2) load.hyps] show ?case .
next
  case (load_memory s t a rng st place pick ord st' v bufs)
  from load_memory_inv [OF load_memory.prems(2) load_memory.hyps] show ?case .
next
  case (rmw s t a rng st place ord st' old v c i tc log)
  from rmw_inv [OF rmw.prems(2,1) rmw.hyps] show ?case .
next
  case (failed_exchange s t a rng st place lucky expected new success fail spurious st' old bufs i tc log)
  from failed_exchange_inv [OF failed_exchange.prems(2) failed_exchange.hyps] show ?case .
qed

lemma weak_init_inv: "weak_inv ip (weak_init track weak m)"
  using sys_inv_init [of track weak] by (simp add: weak_inv_def weak_init_def) (simp add: sys_init_def)

lemma weak_reachable: "(weak_step ip)\<^sup>*\<^sup>* (weak_init track weak m) s \<Longrightarrow> memory_laws ip \<Longrightarrow> weak_inv ip s"
  by (induction rule: rtranclp_induct) (auto intro: weak_init_inv weak_step_inv)

end
