(* ===== verification/Race_Theorems.thy ===== *)
theory Race_Theorems
  imports Race_System
begin

text \<open>
  What the race detector guarantees in every state that its hooks can reach: the non-atomic checks are exact
  with respect to the full history of every byte, the reports name an access that races, and vector indices
  are never taken over. The last section shows a report that cannot be made.
\<close>

section \<open>Reports\<close>

lemma find_gt_index_correct:
  assumes inv: "vclock_inv l" and small: "\<And>j. 0 < clock_time l j \<Longrightarrow> j < 2 ^ 32"
  shows "if VClock_le l r then find_gt_index l r = (Ok None :: ('e, _) outcome)
    else \<exists>idx. find_gt_index l r = (Ok (Some idx) :: ('e, _) outcome) \<and> clock_time r idx < clock_time l idx"
proof (cases "position (\<lambda>(l, r). VTimestamp_gt l r) (zip l r)")
  case (Some idx)
  then have idx: "idx < length l" "idx < length r" "stamp_time (r ! idx) < stamp_time (l ! idx)" by (auto simp: position_Some)
  then have lt: "clock_time r idx < clock_time l idx" by (simp add: clock_time_nth)
  then have "\<not> VClock_le l r" using VClock_le_time [OF inv, of r] by (auto simp: le_fun_def not_le)
  with lt small [of idx] Some show ?thesis by (simp add: find_gt_index_def VectorIdx_new_def)
next
  case None
  then have prefix: "stamps_le (zip l r)" by (auto simp: position_None list_all_iff not_less)
  show ?thesis
  proof (cases "length r < length l")
    case False
    then have "VClock_le l r" using prefix by (simp add: VClock_le_list)
    with False None show ?thesis by (simp add: find_gt_index_def)
  next
    case True
    let ?rest = "drop (length r) l"
    have "last l \<in> set ?rest" using True by (metis last_drop last_in_set drop_eq_Nil leD)
    moreover have "stamp_time (last l) \<noteq> 0" using inv True by (auto simp: vclock_inv_def)
    ultimately obtain idx where idx: "position (\<lambda>t. \<not> VTimestamp_eq t VTimestamp_ZERO) ?rest = Some idx"
      by (cases "position (\<lambda>t. \<not> VTimestamp_eq t VTimestamp_ZERO) ?rest") (auto simp: position_None)
    then have i: "idx + length r < length l" "stamp_time (l ! (idx + length r)) \<noteq> 0" by (auto simp: position_Some add.commute)
    then have lt: "clock_time r (idx + length r) < clock_time l (idx + length r)" by (simp add: clock_time_nth)
    have "\<not> VClock_le l r" using True by (simp add: VClock_le_list)
    with lt small [of "idx + length r"] True None idx show ?thesis by (simp add: find_gt_index_def VectorIdx_new_def)
  qed
qed

lemma latest_attained: "0 < latest m h j \<Longrightarrow> \<exists>e\<in>set h. ev_mode e = m \<and> ev_idx e = j \<and> ev_time e = latest m h j"
  by (induction h) (auto simp: max_def split: if_splits)

fun mode_of :: "AccessType \<Rightarrow> access_mode" where
  "mode_of (NaRead _) = NaR"
| "mode_of (NaWrite _) = NaW"
| "mode_of AtomicLoad = AtR"
| "mode_of AtomicStore = AtW"
| "mode_of AtomicRmw = AtW"

text \<open>The access chosen for the report is in the history, and the accessing thread does not know it.\<close>

definition names_race :: "history \<Rightarrow> VClock \<Rightarrow> AccessType \<Rightarrow> AccessType \<times> VectorIdx \<times> VClock \<times> nat option \<Rightarrow> bool" where
  "names_race h c access = (\<lambda>(other, idx, oc, other_size). idx < length oc \<and> other_size = None \<and>
     \<not> (AccessType_is_read access \<and> AccessType_is_read other) \<and>
     (\<exists>e\<in>set h. ev_mode e = mode_of other \<and> ev_idx e = idx \<and> \<not> before (clock_time c) e))"

lemma unordered_atomic_correct:
  assumes "cell_clocks_ok d" "vector = read_vector \<or> vector = write_vector" "\<And>j. 0 < atomic_times vector d j \<Longrightarrow> j < 2 ^ 32"
  shows "if \<forall>j. atomic_times vector d j \<le> clock_time c j then unordered_atomic vector d c = (Ok None :: ('e, _) outcome)
    else \<exists>idx oc. unordered_atomic vector d c = (Ok (Some (idx, oc)) :: ('e, _) outcome) \<and> clock_time oc = atomic_times vector d \<and>
      clock_time c idx < atomic_times vector d idx"
proof (cases "atomic_ops d")
  case None
  then show ?thesis by (simp add: unordered_atomic_def atomic_times_def)
next
  case (Some a)
  have inv: "vclock_inv (vector a)" using assms(1,2) Some by (auto simp: cell_clocks_ok_def)
  from find_gt_index_correct [OF inv, of c, where 'e = 'e] assms(3) show ?thesis
    by (auto simp: unordered_atomic_def Some atomic_times_def VClock_le_time [OF inv] le_fun_def split: if_splits)
qed

lemma racing_access_na:
  assumes rel: "cell_rel d h" and ok: "cell_clocks_ok d" and hist: "hist_ok own n h" and cl: "closed (clock_time c) h" and n: "n \<le> 2 ^ 32"
    and access: "(\<exists>wt. access = NaWrite wt) \<and> \<not> (\<forall>e\<in>set h. before (clock_time c) e) \<or>
      (\<exists>rt. access = NaRead rt) \<and> \<not> (\<forall>e\<in>set h. ev_mode e \<in> {NaW, AtW} \<longrightarrow> before (clock_time c) e)"
  shows "\<exists>r. racing_access c d access sz = (Ok r :: ('e, _) outcome) \<and> names_race h c access r"
proof -
  from rel obtain since w old where h: "h = since @ w # old" "ev_mode w = NaW" "\<forall>e\<in>set since. ev_mode e \<noteq> NaW"
    and cell: "fst (cell_write d) = ev_idx w" "stamp_time (snd (cell_write d)) = ev_time w" "clock_time (cell_read d) = latest NaR since"
      "atomic_times read_vector d = latest AtR since" "atomic_times write_vector d = latest AtW since" by (rule cell_relE)
  have small: "j < 2 ^ 32" if "0 < latest m since j" for m j
  proof -
    from latest_attained [OF that] obtain e where "e \<in> set h" "ev_idx e = j" by (auto simp: h(1))
    with hist have "j < n" by (auto simp: hist_ok_def)
    with n show ?thesis by (rule less_le_trans [rotated])
  qed
  have found: "\<exists>e\<in>set h. ev_mode e = m \<and> ev_idx e = idx \<and> \<not> before (clock_time c) e" if "clock_time c idx < latest m since idx" for m idx
    using latest_attained [of m since idx] that by (fastforce simp: h(1) not_le)
  have inside: "idx < length oc" if "clock_time oc = latest m since" "clock_time c idx < latest m since idx" for oc m idx
    using that by (intro clock_time_length) simp
  note aw = unordered_atomic_correct [OF ok, of write_vector c, where 'e = 'e] and ar = unordered_atomic_correct [OF ok, of read_vector c, where 'e = 'e]
  have rinv: "vclock_inv (cell_read d)" using ok by (simp add: cell_clocks_ok_def)
  note rd = find_gt_index_correct [OF rinv, of c, where 'e = 'e]
  have nonatomic: "\<not> AccessType_is_atomic access" using access by auto
  consider (aw) "\<not> (\<forall>j. latest AtW since j \<le> clock_time c j)"
    | (ar) "\<forall>j. latest AtW since j \<le> clock_time c j" "\<not> AccessType_is_read access" "\<not> (\<forall>j. latest AtR since j \<le> clock_time c j)"
    | (w) "\<forall>j. latest AtW since j \<le> clock_time c j" "AccessType_is_read access \<or> (\<forall>j. latest AtR since j \<le> clock_time c j)" "\<not> before (clock_time c) w"
    | (rd) "\<forall>j. latest AtW since j \<le> clock_time c j" "\<not> AccessType_is_read access" "\<forall>j. latest AtR since j \<le> clock_time c j" "before (clock_time c) w"
        "\<not> (\<forall>j. latest NaR since j \<le> clock_time c j)"
  proof -
    have "\<not> (write_was_before d c \<and> VClock_le (cell_read d) c \<and>
        (case atomic_ops d of None \<Rightarrow> True | Some a \<Rightarrow> VClock_le (write_vector a) c \<and> VClock_le (read_vector a) c))" if "\<not> AccessType_is_read access"
      using na_write_check [OF rel ok cl hist] access that by auto
    then have "\<not> AccessType_is_read access \<Longrightarrow> \<not> (before (clock_time c) w \<and> (\<forall>j. latest NaR since j \<le> clock_time c j) \<and>
        (\<forall>j. latest AtW since j \<le> clock_time c j) \<and> (\<forall>j. latest AtR since j \<le> clock_time c j))"
      using atomic_le [OF ok, of write_vector c] atomic_le [OF ok, of read_vector c] VClock_le_time [OF rinv, of c]
      by (auto simp: cell write_was_before_time le_fun_def split: option.splits)
    moreover have "\<not> (write_was_before d c \<and> (case atomic_ops d of None \<Rightarrow> True | Some a \<Rightarrow> VClock_le (write_vector a) c))" if "AccessType_is_read access"
      using na_read_check [OF rel ok cl hist] access that by auto
    then have "AccessType_is_read access \<Longrightarrow> \<not> (before (clock_time c) w \<and> (\<forall>j. latest AtW since j \<le> clock_time c j))"
      using atomic_le [OF ok, of write_vector c] by (auto simp: cell write_was_before_time split: option.splits)
    ultimately show ?thesis using that by blast
  qed
  then show ?thesis
  proof cases
    case aw
    with unordered_atomic_correct [OF ok, of write_vector c, where 'e = 'e] small obtain idx oc where
      "unordered_atomic write_vector d c = (Ok (Some (idx, oc)) :: ('e, _) outcome)" "clock_time oc = latest AtW since" "clock_time c idx < latest AtW since idx"
      by (auto simp: cell)
    with found [of idx AtW] inside [of oc AtW idx] nonatomic show ?thesis by (auto simp: racing_access_def names_race_def)
  next
    case ar
    then have "unordered_atomic write_vector d c = (Ok None :: ('e, _) outcome)" using aw small by (simp add: cell)
    moreover obtain idx oc where "unordered_atomic read_vector d c = (Ok (Some (idx, oc)) :: ('e, _) outcome)" "clock_time oc = latest AtR since"
      "clock_time c idx < latest AtR since idx" using unordered_atomic_correct [OF ok, of read_vector c, where 'e = 'e] small ar by (auto simp: cell)
    ultimately show ?thesis using found [of idx AtR] inside [of oc AtR idx] nonatomic ar(2) by (auto simp: racing_access_def names_race_def)
  next
    case w
    have a: "unordered_atomic write_vector d c = (Ok None :: ('e, _) outcome)" using aw small w(1) by (simp add: cell)
    have b: "(if \<not> AccessType_is_atomic access \<and> \<not> AccessType_is_read access then unordered_atomic read_vector d c else Ok None) = (Ok None :: ('e, _) outcome)"
      using ar small w(2) by (auto simp: cell)
    have g: "VTimestamp_gt (snd (cell_write d)) (VClock_index c (fst (cell_write d)))" using w(3) by (simp add: cell stamp_index not_le)
    have "clock_time (write_clock d) (ev_idx w) = ev_time w" by (simp add: write_clock_def new_with_index_time cell)
    then have "ev_idx w < length (write_clock d)" using w(3) by (intro clock_time_length) simp
    moreover have "\<exists>e\<in>set h. ev_mode e = NaW \<and> ev_idx e = ev_idx w \<and> \<not> before (clock_time c) e" using w(3) h by (intro bexI [of _ w]) auto
    ultimately show ?thesis using g a b nonatomic by (simp add: racing_access_def names_race_def cell)
  next
    case rd
    have a: "unordered_atomic write_vector d c = (Ok None :: ('e, _) outcome)" "unordered_atomic read_vector d c = (Ok None :: ('e, _) outcome)"
      using aw ar small rd(1,3) by (simp_all add: cell)
    have g: "\<not> VTimestamp_gt (snd (cell_write d)) (VClock_index c (fst (cell_write d)))" using rd(4) by (simp add: cell stamp_index)
    have "\<not> VClock_le (cell_read d) c" using rd(5) VClock_le_time [OF rinv, of c] by (simp add: cell le_fun_def)
    then obtain idx where "find_gt_index (cell_read d) c = (Ok (Some idx) :: ('e, _) outcome)" "clock_time c idx < latest NaR since idx"
      using find_gt_index_correct [OF rinv, of c, where 'e = 'e] small by (auto simp: cell)
    then show ?thesis using found [of idx NaR] inside [of "cell_read d" NaR idx] a g rd(2) nonatomic
      by (auto simp: racing_access_def names_race_def cell)
  qed
qed

lemma report_data_race_names:
  assumes "thread_state g t = (Ok (i, tc) :: (RaceReport, _) outcome)" "racing_access (clock tc) d access sz = (Ok r :: (RaceReport, _) outcome)"
    and "names_race h (clock tc) access r" "length (vector_info g) = n" "hist_ok own n h" "i < n" "i < length (clock tc)"
  shows "\<exists>rep e. report_data_race g t d access sz ty = Err rep \<and> e \<in> set h \<and> ev_mode e = mode_of (other_access rep) \<and>
    ev_idx e = other_thread rep \<and> \<not> before (clock_time (clock tc)) e \<and> \<not> (AccessType_is_read access \<and> AccessType_is_read (other_access rep))"
proof -
  obtain other idx oc os where r: "r = (other, idx, oc, os)" by (cases r)
  from assms(3) obtain e where nr: "idx < length oc" "os = None" "\<not> (AccessType_is_read access \<and> AccessType_is_read other)"
    "e \<in> set h" "ev_mode e = mode_of other" "ev_idx e = idx" "\<not> before (clock_time (clock tc)) e" by (auto simp: names_race_def r)
  then have "idx < n" using assms(5) by (auto simp: hist_ok_def)
  with nr assms show ?thesis
    by (auto simp: report_data_race_def r AccessType_description_def Let_def)
qed

text \<open>A report of a failed check in a loop.\<close>

definition accurate :: "RaceSys \<Rightarrow> nat \<Rightarrow> nat \<Rightarrow> nat \<Rightarrow> VClock \<Rightarrow> AccessType \<Rightarrow> RaceReport \<Rightarrow> bool" where
  "accurate s a off len c access rep \<longleftrightarrow> (\<exists>k e. off \<le> k \<and> k < off + len \<and> e \<in> set (sys_hist s a k) \<and>
     ev_mode e = mode_of (other_access rep) \<and> ev_idx e = other_thread rep \<and> \<not> before (clock_time c) e \<and>
     \<not> (AccessType_is_read access \<and> AccessType_is_read (other_access rep)))"

lemma thread_state_put:
  assumes "thread_state g t = (Ok (i, tc) :: ('e, _) outcome)"
  shows "thread_state (put_clocks g i tc') t = (Ok (i, tc') :: ('e, _) outcome)"
  using assms by (auto simp: thread_state_def thread_index_def put_clocks_def outcome_eqs vec_get_def split: if_splits)

lemma report_race_accurate:
  assumes inv: "sys_inv s" and st: "thread_state (sys_global s) t = (Ok (i, tc) :: (RaceReport, _) outcome)" and pos: "0 < own_time (sys_global s) i"
    and k: "off \<le> k" "k < off + len" and d: "cell_rel d (sys_hist s a k)" "cell_clocks_ok d"
    and y: "thread_ok (own_time (sys_global s)) (histories s) i y" "clock_time (clock y) = clock_time (clock tc)"
    and access: "(\<exists>wt. access = NaWrite wt) \<and> \<not> (\<forall>e\<in>set (sys_hist s a k). before (clock_time (clock tc)) e) \<or>
      (\<exists>rt. access = NaRead rt) \<and> \<not> (\<forall>e\<in>set (sys_hist s a k). ev_mode e \<in> {NaW, AtW} \<longrightarrow> before (clock_time (clock tc)) e)"
  shows "\<exists>rep. report_race (sys_global s) t i access sz ty (Err (DataRace d y)) = Err rep \<and> accurate s a off len (clock tc) access rep"
proof -
  let ?g = "sys_global s" and ?h = "sys_hist s a k" and ?n = "length (vector_clocks (sys_global s))"
  have ri: "race_inv (histories s) ?g" using inv by (simp add: sys_inv_def)
  have n: "?n \<le> 2 ^ 32" "length (vector_info ?g) = ?n" using ri by (simp_all add: race_inv_def)
  have hist: "hist_ok (own_time ?g) ?n ?h" using race_inv_hist [OF ri hist_in] .
  have cl: "closed (clock_time (clock y)) ?h" using y(1) hist_in [of s a k] by (auto simp: thread_ok_def known_def)
  have acc: "(\<exists>wt. access = NaWrite wt) \<and> \<not> (\<forall>e\<in>set ?h. before (clock_time (clock y)) e) \<or>
      (\<exists>rt. access = NaRead rt) \<and> \<not> (\<forall>e\<in>set ?h. ev_mode e \<in> {NaW, AtW} \<longrightarrow> before (clock_time (clock y)) e)"
    using access y(2) by simp
  obtain r where r: "racing_access (clock y) d access sz = (Ok r :: (RaceReport, _) outcome)" "names_race ?h (clock y) access r"
    using racing_access_na [OF d hist cl n(1) acc] by blast
  have i: "i < ?n" "i < length (clock y)"
    using thread_state_Ok [OF ri st] y(1) pos by (auto simp: thread_ok_def intro!: clock_time_length)
  have vi: "length (vector_info (put_clocks ?g i y)) = ?n" using n(2) by (simp add: put_clocks_def)
  from report_data_race_names [OF thread_state_put [OF st] r vi hist i, of ty] k y(2) show ?thesis
    unfolding accurate_def by (metis report_race.simps(2))
qed

lemma write_result:
  assumes inv: "sys_inv s" and al: "alive (sys_global s) t" and det: "race_detecting (sys_global s)" and m: "in_mem s a off len m"
    and st: "thread_state (sys_global s) t = (Ok (i, tc) :: (RaceReport, _) outcome)"
  shows "if \<forall>k. off \<le> k \<and> k < off + len \<longrightarrow> (\<forall>e\<in>set (sys_hist s a k). before (clock_time (clock tc)) e)
    then is_Ok (write_non_atomic (sys_global s) t False m off len wt ty)
    else \<exists>rep. write_non_atomic (sys_global s) t False m off len wt ty = Err rep \<and> accurate s a off len (clock tc) (NaWrite wt) rep"
proof -
  let ?g = "sys_global s"
  obtain j where st': "thread_state ?g t = (Ok (j, vector_clocks ?g ! j) :: (RaceReport, _) outcome)" and ri: "race_inv (histories s) ?g"
    and tc': "thread_ok (own_time ?g) (histories s) j (vector_clocks ?g ! j)" "0 < own_time ?g j"
    and mm: "mem_ok (own_time ?g) (histories s) m (sys_hist s a)" "off + len \<le> DedupRangeMap_size m"
    by (rule access_start [OF inv al det m]) blast
  have "(i, tc) = (j, vector_clocks ?g ! j)" using trans [OF sym [OF st] st'] by (rule outcome.inject(1) [THEN iffD1])
  then have ij: "j = i" "vector_clocks ?g ! i = tc" by auto
  note tc = tc' [unfolded ij]
  note loop = write_loop [OF mm(1) hist_in mm(2) tc(1) race_inv_hist [OF ri], of wt]
  have run: "write_non_atomic ?g t False m off len wt ty = obind (report_race ?g t i (NaWrite wt) len ty
      (DedupRangeMap_for_each MemoryCellClocks_eq (\<lambda>_ d x. non_atomic_write_detect d x i wt) m off len tc))
      (\<lambda>(m, x). Ok (put_clocks ?g i x, m))" using det by (simp add: write_non_atomic_def st)
  show ?thesis
  proof (cases "DedupRangeMap_for_each MemoryCellClocks_eq (\<lambda>_ d x. non_atomic_write_detect d x i wt) m off len tc")
    case (Ok z)
    obtain m' x where z: "z = (m', x)" by (cases z)
    show ?thesis using loop unfolding run Ok z by auto
  next
    case (Err e)
    obtain d y where e: "e = DataRace d y" by (cases e)
    from loop [unfolded Err e, simplified] obtain k where k: "off \<le> k" "k < off + len" "y = tc" "cell_rel d (sys_hist s a k)" "cell_clocks_ok d"
      "\<not> (\<forall>e\<in>set (sys_hist s a k). before (clock_time (clock tc)) e)" by blast
    from report_race_accurate [OF inv st tc(2) k(1,2,4,5), of y "NaWrite wt" len ty] k(3,6) tc(1) obtain rep where
      "report_race ?g t i (NaWrite wt) len ty (Err (DataRace d y)) = (Err rep :: (RaceReport, VClockAlloc \<times> ThreadClockSet) outcome)" "accurate s a off len (clock tc) (NaWrite wt) rep" by blast
    then show ?thesis using k unfolding run Err e by auto
  qed (use loop in auto)
qed

lemma read_result:
  assumes inv: "sys_inv s" and al: "alive (sys_global s) t" and det: "race_detecting (sys_global s)" and m: "in_mem s a off len m"
    and st: "thread_state (sys_global s) t = (Ok (i, tc) :: (RaceReport, _) outcome)"
  shows "if \<forall>k. off \<le> k \<and> k < off + len \<longrightarrow> (\<forall>e\<in>set (sys_hist s a k). ev_mode e \<in> {NaW, AtW} \<longrightarrow> before (clock_time (clock tc)) e)
    then is_Ok (read_non_atomic (sys_global s) t False m off len rt ty)
    else \<exists>rep. read_non_atomic (sys_global s) t False m off len rt ty = Err rep \<and> accurate s a off len (clock tc) (NaRead rt) rep"
proof -
  let ?g = "sys_global s"
  obtain j where st': "thread_state ?g t = (Ok (j, vector_clocks ?g ! j) :: (RaceReport, _) outcome)" and ri: "race_inv (histories s) ?g"
    and tc': "thread_ok (own_time ?g) (histories s) j (vector_clocks ?g ! j)" "0 < own_time ?g j"
    and mm: "mem_ok (own_time ?g) (histories s) m (sys_hist s a)" "off + len \<le> DedupRangeMap_size m"
    by (rule access_start [OF inv al det m]) blast
  have "(i, tc) = (j, vector_clocks ?g ! j)" using trans [OF sym [OF st] st'] by (rule outcome.inject(1) [THEN iffD1])
  then have ij: "j = i" "vector_clocks ?g ! i = tc" by auto
  note tc = tc' [unfolded ij]
  note loop = read_loop [OF mm(1) hist_in mm(2) tc(1) race_inv_hist [OF ri] tc(2), of rt]
  have run: "read_non_atomic ?g t False m off len rt ty = obind (report_race ?g t i (NaRead rt) len ty
      (DedupRangeMap_for_each MemoryCellClocks_eq (\<lambda>_ d x. non_atomic_read_detect d x i rt) m off len tc))
      (\<lambda>(m, x). Ok (put_clocks ?g i x, m))" using det by (simp add: read_non_atomic_def st)
  show ?thesis
  proof (cases "DedupRangeMap_for_each MemoryCellClocks_eq (\<lambda>_ d x. non_atomic_read_detect d x i rt) m off len tc")
    case (Ok z)
    obtain m' x where z: "z = (m', x)" by (cases z)
    have ord: "\<forall>k. off \<le> k \<and> k < off + len \<longrightarrow> (\<forall>e\<in>set (sys_hist s a k). ev_mode e \<in> {NaW, AtW} \<longrightarrow> before (clock_time (clock tc)) e)"
      using loop unfolding Ok z outcome.case prod.case by blast
    then show ?thesis unfolding run Ok z by simp
  next
    case (Err e)
    obtain d y where e: "e = DataRace d y" by (cases e)
    from loop [unfolded Err e outcome.case race.case] obtain k where k: "off \<le> k" "k < off + len" "thread_ok (own_time ?g) (histories s) i y"
      "clock_time (clock y) = clock_time (clock tc)" "cell_rel d (sys_hist s a k)" "cell_clocks_ok d"
      "\<not> (\<forall>e\<in>set (sys_hist s a k). ev_mode e \<in> {NaW, AtW} \<longrightarrow> before (clock_time (clock tc)) e)" by blast
    from report_race_accurate [OF inv st tc(2) k(1,2,5,6,3,4), of "NaRead rt" len ty] k(7) obtain rep where
      "report_race ?g t i (NaRead rt) len ty (Err (DataRace d y)) = (Err rep :: (RaceReport, VClockAlloc \<times> ThreadClockSet) outcome)" "accurate s a off len (clock tc) (NaRead rt) rep" by blast
    then show ?thesis using k(1,2,7) unfolding run Err e by (auto simp del: insert_iff)
  qed (use loop in auto)
qed

section \<open>Properties\<close>

lemma reachable_inv: "race_step\<^sup>*\<^sup>* (sys_init tr wm) s \<Longrightarrow> sys_inv s"
  by (induction rule: rtranclp_induct) (auto intro: sys_inv_init race_step_inv)

text \<open>Executable runs of the system, for concrete examples.\<close>

datatype run_op = RunSpawn ThreadId | RunAlloc ThreadId nat nat | RunWrite ThreadId nat nat nat
  | RunLoad ThreadId nat nat nat AtomicReadOrd | RunStore ThreadId nat nat nat AtomicWriteOrd | RunTerminate ThreadId

lemma alive_code [code]:
  "alive g t \<longleftrightarrow> t < length (thread_info g) \<and> (case vector_index (thread_info g ! t) of None \<Rightarrow> False | Some i \<Rightarrow> i \<notin> reuse_candidates g)"
  by (auto simp: alive_def split: option.splits)

definition run_mem :: "RaceSys \<Rightarrow> ThreadId \<Rightarrow> nat \<Rightarrow> nat \<Rightarrow> nat \<Rightarrow> VClockAlloc hook" where
  "run_mem s t a off len =
     (if alive (sys_global s) t \<and> race_detecting (sys_global s)
      then obind (unwrap (sys_mem s a)) (\<lambda>m. if off + len \<le> DedupRangeMap_size m then Ok m else Panic) else Panic)"

fun run_step :: "run_op \<Rightarrow> RaceSys \<Rightarrow> RaceSys hook" where
  "run_step (RunSpawn t) s =
     (if alive (sys_global s) t \<and> reuse_candidates (sys_global s) = {}
      then obind (thread_created (sys_global s) t (length (thread_info (sys_global s))) []) (\<lambda>g. Ok (s\<lparr>sys_global := g\<rparr>)) else Panic)"
| "run_step (RunTerminate t) s =
     (if alive (sys_global s) t then obind (thread_terminated (sys_global s) t) (\<lambda>g. Ok (s\<lparr>sys_global := g\<rparr>)) else Panic)"
| "run_step (RunAlloc t a len) s =
     (if alive (sys_global s) t \<and> sys_mem s a = None \<and> len < 2 ^ 64
      then obind (VClockAlloc_new_allocation (sys_global s) t len KindRust) (\<lambda>m.
           obind (unwrap (lookup m 0)) (\<lambda>d.
           Ok (s\<lparr>sys_mem := (sys_mem s)(a \<mapsto> m),
             sys_hist := (sys_hist s)(a := (\<lambda>k. if k < len then [Event NaW (fst (cell_write d)) (stamp_time (snd (cell_write d)))] else []))\<rparr>)))
      else Panic)"
| "run_step (RunWrite t a off len) s =
     obind (run_mem s t a off len) (\<lambda>m. obind (write_non_atomic (sys_global s) t False m off len PlainWrite False) (\<lambda>(g, m').
     Ok (s\<lparr>sys_global := g, sys_mem := (sys_mem s)(a \<mapsto> m'), sys_hist := log_access s a off len (logged (sys_global s) t [NaW])\<rparr>)))"
| "run_step (RunLoad t a off len rord) s =
     obind (run_mem s t a off len) (\<lambda>m. obind (validate_atomic_load (sys_global s) t m off len rord None) (\<lambda>(g, m').
     Ok (s\<lparr>sys_global := g, sys_mem := (sys_mem s)(a \<mapsto> m'), sys_hist := log_access s a off len (logged (sys_global s) t [AtR])\<rparr>)))"
| "run_step (RunStore t a off len word) s =
     obind (run_mem s t a off len) (\<lambda>m. obind (validate_atomic_store (sys_global s) t m off len word) (\<lambda>(g, m').
     Ok (s\<lparr>sys_global := g, sys_mem := (sys_mem s)(a \<mapsto> m'), sys_hist := log_access s a off len (logged (sys_global s) t [AtW])\<rparr>)))"

lemma run_mem_Ok: "run_mem s t a off len = Ok m \<Longrightarrow> alive (sys_global s) t \<and> race_detecting (sys_global s) \<and> in_mem s a off len m"
  by (auto simp: run_mem_def in_mem_def outcome_eqs split: if_splits)

lemma run_step_sound: "run_step oper s = Ok s' \<Longrightarrow> race_step s s'"
proof (induction oper s rule: run_step.induct)
  case (1 t s)
  then show ?case by (auto simp: obind_eq_Ok split: if_splits intro!: race_step.spawn [where order = "[]"])
next
  case (2 t s)
  then show ?case by (auto simp: obind_eq_Ok split: if_splits intro: race_step.terminate)
next
  case (3 t a len s)
  then show ?case by (auto simp: obind_eq_Ok split: if_splits intro!: race_step.alloc)
next
  case (4 t a off len s)
  then show ?case by (auto simp: obind_eq_Ok dest!: run_mem_Ok intro!: race_step.na_write)
next
  case (5 t a off len rord s)
  then show ?case by (auto simp: obind_eq_Ok dest!: run_mem_Ok intro!: race_step.load)
next
  case (6 t a off len word s)
  then show ?case by (auto simp: obind_eq_Ok dest!: run_mem_Ok intro!: race_step.store)
qed

lemma run_sound: "ofold run_step ops s = Ok s' \<Longrightarrow> race_step\<^sup>*\<^sup>* s s'"
proof (induction ops arbitrary: s)
  case (Cons x ops)
  then show ?case by (auto simp: obind_eq_Ok intro: converse_rtranclp_into_rtranclp run_step_sound)
qed simp

text \<open>The main thread allocates four bytes, starts a thread and writes the first two bytes.\<close>

definition demo_run :: "RaceSys hook" where
  "demo_run = ofold run_step [RunAlloc 0 7 4, RunSpawn 0, RunWrite 0 7 0 2] (sys_init False True)"

definition demo_facts :: "RaceSys \<Rightarrow> (bool \<times> bool \<times> bool) hook" where
  "demo_facts s =
     obind (unwrap (sys_mem s 7)) (\<lambda>m.
       Ok (alive (sys_global s) 1 \<and> race_detecting (sys_global s) \<and> DedupRangeMap_size m = 4,
           is_Ok (write_non_atomic (sys_global s) 1 False m 2 2 PlainWrite False),
           is_Ok (write_non_atomic (sys_global s) 1 False m 0 2 PlainWrite False)))"

lemma demo_run_facts: "obind demo_run demo_facts = Ok (True, True, False)"
  by code_simp

lemma demo_state:
  obtains s m i tc where "race_step\<^sup>*\<^sup>* (sys_init False True) s" "alive (sys_global s) 1" "race_detecting (sys_global s)"
    "in_mem s 7 2 2 m" "in_mem s 7 0 2 m" "thread_state (sys_global s) 1 = (Ok (i, tc) :: (RaceReport, _) outcome)"
    "is_Ok (write_non_atomic (sys_global s) 1 False m 2 2 PlainWrite False)" "\<not> is_Ok (write_non_atomic (sys_global s) 1 False m 0 2 PlainWrite False)"
proof -
  from demo_run_facts obtain s where run: "demo_run = Ok s" and f: "demo_facts s = Ok (True, True, False)" by (auto simp: obind_eq_Ok)
  have reach: "race_step\<^sup>*\<^sup>* (sys_init False True) s" using run unfolding demo_run_def by (rule run_sound)
  from f obtain m where m: "sys_mem s 7 = Some m" "alive (sys_global s) 1" "race_detecting (sys_global s)" "DedupRangeMap_size m = 4"
    "is_Ok (write_non_atomic (sys_global s) 1 False m 2 2 PlainWrite False)" "\<not> is_Ok (write_non_atomic (sys_global s) 1 False m 0 2 PlainWrite False)"
    by (auto simp: demo_facts_def obind_eq_Ok)
  then have "in_mem s 7 2 2 m" "in_mem s 7 0 2 m" by (simp_all add: in_mem_def)
  with access_start [OF reachable_inv [OF reach] m(2,3) this(1)] that reach m show ?thesis by metis
qed

text \<open>C28: whatever threads have done before, the detector accepts a non-atomic write exactly if every access that
  the written bytes have ever seen happened before it, and a non-atomic read exactly if every write did,
  although it keeps only a summary of the accesses. The executions consist of non-atomic and atomic accesses, allocation and freeing, fences, releasing and
  acquiring of clocks, and
  creation, termination and joining of threads; locals that are kept outside of memory and accesses of CPU-local memory are not part of them.\<close>

theorem race_checks_exact:
  assumes "race_step\<^sup>*\<^sup>* (sys_init tr wm) s" and "alive (sys_global s) t" "race_detecting (sys_global s)" "in_mem s a off len m"
    and "thread_state (sys_global s) t = (Ok (i, tc) :: (RaceReport, _) outcome)"
  shows "(is_Ok (write_non_atomic (sys_global s) t False m off len wt ty) \<longleftrightarrow>
      (\<forall>k. off \<le> k \<and> k < off + len \<longrightarrow> (\<forall>e\<in>set (sys_hist s a k). ev_time e \<le> clock_time (clock tc) (ev_idx e)))) \<and>
    (is_Ok (read_non_atomic (sys_global s) t False m off len rt ty) \<longleftrightarrow>
      (\<forall>k. off \<le> k \<and> k < off + len \<longrightarrow>
        (\<forall>e\<in>set (sys_hist s a k). ev_mode e \<in> {NaW, AtW} \<longrightarrow> ev_time e \<le> clock_time (clock tc) (ev_idx e))))"
  using write_result [OF reachable_inv [OF assms(1)] assms(2-5), of wt ty] read_result [OF reachable_inv [OF assms(1)] assms(2-5), of rt ty]
  by (metis is_Ok.simps(2))

theorem race_checks_exact_witness:
  "\<exists>s m i tc k e. race_step\<^sup>*\<^sup>* (sys_init False True) s \<and> in_mem s 7 2 2 m \<and> thread_state (sys_global s) 1 = (Ok (i, tc) :: (RaceReport, _) outcome) \<and>
    is_Ok (write_non_atomic (sys_global s) 1 False m 2 2 PlainWrite False) \<and>
    k < 2 \<and> e \<in> set (sys_hist s 7 k) \<and> \<not> ev_time e \<le> clock_time (clock tc) (ev_idx e)"
proof (rule demo_state)
  fix s m i tc
  assume a: "race_step\<^sup>*\<^sup>* (sys_init False True) s" "alive (sys_global s) 1" "race_detecting (sys_global s)"
    "in_mem s 7 2 2 m" "in_mem s 7 0 2 m" "thread_state (sys_global s) 1 = (Ok (i, tc) :: (RaceReport, _) outcome)"
    "is_Ok (write_non_atomic (sys_global s) 1 False m 2 2 PlainWrite False)" "\<not> is_Ok (write_non_atomic (sys_global s) 1 False m 0 2 PlainWrite False)"
  from race_checks_exact [OF a(1-3,5,6), of PlainWrite False] a(8) obtain k e where k: "k < 0 + 2" "e \<in> set (sys_hist s 7 k)"
    "\<not> ev_time e \<le> clock_time (clock tc) (ev_idx e)" by blast
  then have "k < 2" by simp
  with k a show ?thesis by blast
qed

text \<open>C29: a non-atomic access that is refused is reported, without a panic, and the report names an access to
  one of its bytes that conflicts with it and did not happen before it.\<close>

theorem race_reports_accurate:
  assumes "race_step\<^sup>*\<^sup>* (sys_init tr wm) s" and "alive (sys_global s) t" "race_detecting (sys_global s)" "in_mem s a off len m"
    and "thread_state (sys_global s) t = (Ok (i, tc) :: (RaceReport, _) outcome)"
  shows "(case write_non_atomic (sys_global s) t False m off len wt ty of
      Ok _ \<Rightarrow> True | Err rep \<Rightarrow> accurate s a off len (clock tc) (NaWrite wt) rep | _ \<Rightarrow> False) \<and>
    (case read_non_atomic (sys_global s) t False m off len rt ty of
      Ok _ \<Rightarrow> True | Err rep \<Rightarrow> accurate s a off len (clock tc) (NaRead rt) rep | _ \<Rightarrow> False)"
proof -
  note inv = reachable_inv [OF assms(1)]
  show ?thesis using write_result [OF inv assms(2-5), of wt ty] read_result [OF inv assms(2-5), of rt ty]
    by (auto split: outcome.splits if_splits)
qed

theorem race_reports_accurate_witness:
  "\<exists>s m i tc rep. race_step\<^sup>*\<^sup>* (sys_init False True) s \<and> in_mem s 7 0 2 m \<and> thread_state (sys_global s) 1 = (Ok (i, tc) :: (RaceReport, _) outcome) \<and>
    write_non_atomic (sys_global s) 1 False m 0 2 PlainWrite False = Err rep \<and> accurate s 7 0 2 (clock tc) (NaWrite PlainWrite) rep"
proof (rule demo_state)
  fix s m i tc
  assume a: "race_step\<^sup>*\<^sup>* (sys_init False True) s" "alive (sys_global s) 1" "race_detecting (sys_global s)"
    "in_mem s 7 2 2 m" "in_mem s 7 0 2 m" "thread_state (sys_global s) 1 = (Ok (i, tc) :: (RaceReport, _) outcome)"
    "is_Ok (write_non_atomic (sys_global s) 1 False m 2 2 PlainWrite False)" "\<not> is_Ok (write_non_atomic (sys_global s) 1 False m 0 2 PlainWrite False)"
  from race_reports_accurate [OF a(1-3,5,6), of PlainWrite False] a(8) obtain rep where
    "write_non_atomic (sys_global s) 1 False m 0 2 PlainWrite False = Err rep" "accurate s 7 0 2 (clock tc) (NaWrite PlainWrite) rep"
    by (cases "write_non_atomic (sys_global s) 1 False m 0 2 PlainWrite False") simp_all
  with a show ?thesis by blast
qed

text \<open>C30: the index of a terminated thread is never given to a new thread, in whatever order the candidates are
  tried, and joining never turns race detection off again: a thread's time advances after its last clock is
  handed out, so no other thread ever reaches it.\<close>

theorem vector_indices_never_reused:
  assumes "race_step\<^sup>*\<^sup>* (sys_init tr wm) s" and "alive (sys_global s) t" "set order \<subseteq> reuse_candidates (sys_global s)"
  shows "find_vector_index_reuse_candidate (sys_global s) order = (Ok (sys_global s, None) :: (RaceReport, _) outcome) \<and>
    (\<forall>live j g. thread_joined (sys_global s) t live j = (Ok g :: (RaceReport, _) outcome) \<longrightarrow>
      multi_threaded g = multi_threaded (sys_global s))"
proof -
  have "race_inv (histories s) (sys_global s)" using reachable_inv [OF assms(1)] by (simp add: sys_inv_def)
  from no_reuse [OF this assms(2,3), where 'e = RaceReport] thread_joined_inv [OF this assms(2), where 'e = RaceReport]
  show ?thesis by blast
qed

text \<open>The main thread starts two threads, of which the first ends.\<close>

definition reuse_run :: "RaceSys hook" where
  "reuse_run = ofold run_step [RunSpawn 0, RunSpawn 0, RunTerminate 1] (sys_init False True)"

lemma reuse_run_facts: "obind reuse_run (\<lambda>s. Ok (alive (sys_global s) 0 \<and> reuse_candidates (sys_global s) = {1})) = Ok True"
  by code_simp

theorem vector_indices_never_reused_witness:
  "\<exists>s. race_step\<^sup>*\<^sup>* (sys_init False True) s \<and> reuse_candidates (sys_global s) = {1} \<and>
    find_vector_index_reuse_candidate (sys_global s) [1] = (Ok (sys_global s, None) :: (RaceReport, _) outcome)"
proof -
  from reuse_run_facts obtain s where run: "reuse_run = Ok s" and f: "alive (sys_global s) 0" "reuse_candidates (sys_global s) = {1}"
    by (auto simp: obind_eq_Ok)
  have reach: "race_step\<^sup>*\<^sup>* (sys_init False True) s" using run unfolding reuse_run_def by (rule run_sound)
  from vector_indices_never_reused [OF reach f(1), of "[1]"] f reach show ?thesis by auto
qed

section \<open>A report that fails\<close>

text \<open>
  Two threads acquire a two-byte store; one of them has also read a single byte of it, so that reads of two
  sizes are not ordered. A fourth thread that has not seen the store reads a byte.
\<close>

definition mixed_run :: "RaceSys hook" where
  "mixed_run = ofold run_step
     [RunAlloc 0 7 2, RunSpawn 0, RunSpawn 0, RunSpawn 0, RunSpawn 0, RunStore 1 7 0 2 WriteRelease,
      RunLoad 2 7 0 2 ReadAcquire, RunLoad 3 7 0 2 ReadAcquire, RunLoad 2 7 0 1 ReadRelaxed] (sys_init False False)"

text \<open>C31: there is an execution in which a racing atomic load is not reported: the detector panics in the
  description of the other access, which it takes to be a load although it is a store.\<close>

theorem mixed_size_report_panics:
  "\<exists>s m. race_step\<^sup>*\<^sup>* (sys_init False False) s \<and> alive (sys_global s) 4 \<and> in_mem s 7 0 1 m \<and>
    validate_atomic_load (sys_global s) 4 m 0 1 ReadRelaxed None = Panic"
proof -
  have "obind mixed_run (\<lambda>s. obind (run_mem s 4 7 0 1) (\<lambda>m.
      Ok (validate_atomic_load (sys_global s) 4 m 0 1 ReadRelaxed None = Panic))) = Ok True" by code_simp
  then obtain s m where run: "mixed_run = Ok s" and m: "run_mem s 4 7 0 1 = Ok m"
    and p: "validate_atomic_load (sys_global s) 4 m 0 1 ReadRelaxed None = Panic" by (auto simp: obind_eq_Ok)
  have "race_step\<^sup>*\<^sup>* (sys_init False False) s" using run unfolding mixed_run_def by (rule run_sound)
  with run_mem_Ok [OF m] p show ?thesis by blast
qed

end
