(* ===== verification/Weak_Theorems.thy ===== *)
theory Weak_Theorems
  imports Weak_Inv Race_Theorems
begin

text \<open>
  What the weak memory emulation guarantees in every execution, and an execution in which a load returns an
  outdated value.
\<close>

section \<open>An execution with an outdated load\<close>

text \<open>A memory of numbers: the contents of a range are forgotten when an overlapping range is written.\<close>

definition demo_interp :: "(AllocRange \<Rightarrow> nat, nat, unit, unit) interp" where
  "demo_interp =
     \<lparr>read_scalar = (\<lambda>m r. if bytes r = 0 then Err () else Ok (m r)),
      write_scalar = (\<lambda>m rng v. Ok (\<lambda>r. if overlap rng r then (if r = rng then v else 0) else m r)),
      binary_op = (\<lambda>_ x y. Ok (x + y)), unary_not = (\<lambda>v. Ok v), lt_op = (\<lambda>x y. Ok (x < y)), eq_op = (\<lambda>x y. Ok (x = y))\<rparr>"

lemma demo_laws: "memory_laws demo_interp"
  by (auto simp: memory_laws_def demo_interp_def overlap_def range_stop_def split: if_splits)

definition demo_place :: AtomicPlace where
  "demo_place = \<lparr>place_range = \<lparr>start = 0, bytes = 4\<rparr>, place_aligned = True, place_read_only = False, place_pointer_size = 8\<rparr>"

text \<open>The main thread allocates and starts a thread, which stores 1.\<close>

definition litmus_race :: "RaceSys hook" where
  "litmus_race = ofold run_step [RunAlloc 0 7 4, RunSpawn 0] (sys_init False True)"

definition litmus_start :: "RaceSys \<Rightarrow> VClockAlloc \<Rightarrow> (AllocRange \<Rightarrow> nat, nat) AtomicState" where
  "litmus_start r m =
     \<lparr>global_state = sys_global r, race_alloc = \<lparr>data_race_clocks = m, alloc_buffers = Some []\<rparr>, memory = (\<lambda>_. 0)\<rparr>"

definition oldest :: "nat \<Rightarrow> nat" where
  "oldest n = n - 1"

definition litmus_check :: "RaceSys \<Rightarrow> VClockAlloc \<Rightarrow> bool" where
  "litmus_check r m \<longleftrightarrow>
     alive (sys_global r) 0 \<and> alive (sys_global r) 1 \<and> DedupRangeMap_size m = 4 \<and>
     (case write_scalar_atomic demo_interp 1 (litmus_start r m) 1 demo_place WriteRelaxed of
        Ok st \<Rightarrow> alive (global_state st) 0 \<and> DedupRangeMap_size (data_race_clocks (race_alloc st)) = 4 \<and>
          is_Ok (sync_clock (data_race_clocks (race_alloc st)) 0 4 :: VClock hook) \<and>
          is_Ok (thread_state (global_state st) 1 :: (unit, _) outcome) \<and>
          (case read_scalar_atomic demo_interp oldest 0 st demo_place ReadRelaxed of
             Ok (st', v) \<Rightarrow> v = 0 \<and> alloc_buffers (race_alloc st') \<noteq> Some [] \<and> alloc_buffers (race_alloc st') \<noteq> None \<and>
               (case alloc_buffers (race_alloc st) of
                  Some [x] \<Rightarrow> obj_range x = place_range demo_place \<and> length (obj_data x) = 2 \<and>
                    (case thread_state (global_state st) 0 of
                       Ok (i, tc) \<Rightarrow> (fetch_store oldest (obj_data x) False tc :: (unit, _) outcome) = Ok (0, Outdated) \<and>
                         (case thread_state (global_state st') 0 of Ok (i', _) \<Rightarrow> i' = i | Err () \<Rightarrow> False | _ \<Rightarrow> False)
                     | Err () \<Rightarrow> False | _ \<Rightarrow> False)
                | _ \<Rightarrow> False)
           | _ \<Rightarrow> False)
      | _ \<Rightarrow> False)"

lemma litmus_runs: "obind litmus_race (\<lambda>r. obind (unwrap (sys_mem r 7)) (\<lambda>m. Ok (litmus_check r m))) = Ok True"
  by code_simp

lemma race_steps_weak:
  "race_step\<^sup>*\<^sup>* r r' \<Longrightarrow> ws_race s = r \<Longrightarrow> (weak_step ip)\<^sup>*\<^sup>* s (s\<lparr>ws_race := r'\<rparr>)"
proof (induction rule: rtranclp_induct)
  case (step r' r'')
  have "weak_step ip (s\<lparr>ws_race := r'\<rparr>) (s\<lparr>ws_race := r'\<rparr>\<lparr>ws_race := r''\<rparr>)" using step.hyps by (intro weak_step.race) simp
  with step show ?case by (auto intro: rtranclp.rtrancl_into_rtrancl)
qed auto

lemma litmus_state:
  obtains s bufs x where "(weak_step demo_interp)\<^sup>*\<^sup>* (weak_init False True (\<lambda>_. 0)) s"
    "\<exists>i n. stores_of (ws_log s 7 (place_range demo_place)) = [WStore 0 0 False (Some 0), WStore i n False (Some 1)]"
    "\<exists>l\<in>loads_of (ws_log s 7 (place_range demo_place)). l_from l = 0 \<and> l_val l = Some 0"
    "ws_buffers s 7 = Some bufs" "x \<in> set bufs"
proof -
  let ?rng = "place_range demo_place" and ?w0 = "weak_init False True (\<lambda>_. 0) :: (AllocRange \<Rightarrow> nat, nat) WeakSys"
  from litmus_runs obtain r m where run: "litmus_race = Ok r" and m: "sys_mem r 7 = Some m" and ck: "litmus_check r m"
    by (auto simp: outcome_eqs unwrap_def split: option.splits)
  from ck obtain st x c i1 tc1 st' i tc0 tc
    where al: "alive (sys_global r) 0" "alive (sys_global r) 1" "DedupRangeMap_size m = 4"
      and wr: "write_scalar_atomic demo_interp 1 (litmus_start r m) 1 demo_place WriteRelaxed = Ok st"
      and al2: "alive (global_state st) 0" "DedupRangeMap_size (data_race_clocks (race_alloc st)) = 4"
      and c: "(sync_clock (data_race_clocks (race_alloc st)) 0 4 :: VClock hook) = Ok c"
      and ts1: "thread_state (global_state st) 1 = (Ok (i1, tc1) :: (unit, _) outcome)"
      and rd: "read_scalar_atomic demo_interp oldest 0 st demo_place ReadRelaxed = Ok (st', 0)"
      and ts: "thread_state (global_state st') 0 = (Ok (i, tc) :: (unit, _) outcome)"
      and ne: "alloc_buffers (race_alloc st') \<noteq> Some []" "alloc_buffers (race_alloc st') \<noteq> None"
      and x: "alloc_buffers (race_alloc st) = Some [x]" "obj_range x = ?rng" "length (obj_data x) = 2"
      and ts0: "thread_state (global_state st) 0 = (Ok (i, tc0) :: (unit, _) outcome)"
      and f: "(fetch_store oldest (obj_data x) False tc0 :: (unit, _) outcome) = Ok (0, Outdated)"
    unfolding litmus_check_def
    by (auto split: outcome.splits option.splits list.splits prod.splits unit.splits elim!: is_Ok.elims)
  define w1 where "w1 = ?w0\<lparr>ws_race := r\<rparr>"
  define w2 where "w2 = w1\<lparr>ws_buffers := (ws_buffers w1)(7 \<mapsto> []), ws_memory := (ws_memory w1)(7 := (\<lambda>_. 0))\<rparr>"
  have "race_step\<^sup>*\<^sup>* (sys_init False True) r" using run unfolding litmus_race_def by (rule run_sound)
  then have 1: "(weak_step demo_interp)\<^sup>*\<^sup>* ?w0 w1" unfolding w1_def by (rule race_steps_weak) (simp add: weak_init_def)
  have 2: "weak_step demo_interp w1 w2"
    using weak_step.alloc [of w1 7 demo_interp "\<lambda>_. 0"] unfolding w2_def StoreBufferAlloc_new_allocation_def RangeObjectMap_new_def
    by (simp add: w1_def weak_init_def)
  have rng: "start ?rng = 0" "bytes ?rng = 4" by (simp_all add: demo_place_def)
  have sees2: "sees w2 1 7 ?rng (litmus_start r m)"
    using al m by (simp add: sees_def w2_def w1_def weak_init_def in_mem_def litmus_start_def rng)
  have log2: "object_log w2 7 ?rng (init_value demo_interp (ws_memory w2 7) ?rng) = [WStore 0 0 False (Some 0)]"
    by (simp add: object_log_def w2_def init_value_def demo_interp_def rng)
  let ?store = "WStore i1 (clock_time (clock tc1) i1) False (Some (1 :: nat))"
  define w3 where "w3 = after_access w2 1 7 ?rng [AtW] st {c} [?store, WStore 0 0 False (Some 0)]"
  have 3: "weak_step demo_interp w2 w3"
    using weak_step.store [OF sees2 refl wr _ ts1, of c, unfolded rng, OF c] by (simp add: w3_def log2)
  have g3: "sys_global (ws_race w3) = global_state st" "sys_mem (ws_race w3) 7 = Some (data_race_clocks (race_alloc st))" "ws_buffers w3 7 = Some [x]"
    "ws_memory w3 7 = memory st" "ws_log w3 7 ?rng = [?store, WStore 0 0 False (Some 0)]"
    by (simp_all add: w3_def after_access_def Let_def x)
  have sees3: "sees w3 0 7 ?rng st" using al2 x by (simp add: sees_def g3 in_mem_def rng)
  let ?load = "WLoad (clock_time (clock tc0)) i (clock_time (clock tc) i) False False 0 (Some 0)"
  define w4 where "w4 = after_access w3 0 7 ?rng [AtR] st' {} (?load # ws_log w3 7 ?rng)"
  have 4: "weak_step demo_interp w3 w4"
    using weak_step.load [OF sees3 refl rd g3(3) _ x(2) _ ts0 _ ts, of 0 Outdated] f x(3) by (simp add: w4_def g3(5))
  have "(weak_step demo_interp)\<^sup>*\<^sup>* ?w0 w4" using 1 2 3 4 by (meson rtranclp.rtrancl_into_rtrancl)
  moreover have "ws_log w4 7 ?rng = [?load, ?store, WStore 0 0 False (Some 0)]" by (simp add: w4_def after_access_def Let_def g3(5))
  moreover obtain y ys where "alloc_buffers (race_alloc st') = Some (y # ys)" using ne by (metis list.exhaust option.exhaust)
  then have "ws_buffers w4 7 = Some (y # ys)" by (simp add: w4_def after_access_def Let_def)
  ultimately show ?thesis using that [of w4 "y # ys" y] by simp
qed

section \<open>Properties\<close>

text \<open>C26: in every execution of atomic and non-atomic accesses, spawned and ended threads, fences and locks, the
  loads of an atomic object are coherent: a load returns the value of a store that exists, never one that is older
  in modification order than a store or a load that happened before it, a sequentially consistent load never goes back
  behind what another one returned, and read-modify-write operations return the most recent store, whatever the
  random number generator chooses.\<close>

theorem weak_memory_coherent:
  assumes "memory_laws ip" "(weak_step ip)\<^sup>*\<^sup>* (weak_init track weak m) s"
  shows "coherent (ws_log s a rng)"
  using weak_reachable [OF assms(2,1)] by (simp add: weak_inv_def)

theorem weak_memory_coherent_witness:
  "\<exists>s. (weak_step demo_interp)\<^sup>*\<^sup>* (weak_init False True (\<lambda>_. 0)) s \<and> coherent (ws_log s 7 (place_range demo_place)) \<and>
    length (stores_of (ws_log s 7 (place_range demo_place))) = 2 \<and>
    (\<exists>l\<in>loads_of (ws_log s 7 (place_range demo_place)). l_from l = 0 \<and> l_val l = Some 0)"
proof (rule litmus_state)
  fix s :: "(AllocRange \<Rightarrow> nat, nat) WeakSys" and bufs x
  assume a: "(weak_step demo_interp)\<^sup>*\<^sup>* (weak_init False True (\<lambda>_. 0)) s"
    "\<exists>i n. stores_of (ws_log s 7 (place_range demo_place)) = [WStore 0 0 False (Some 0), WStore i n False (Some 1)]"
    "\<exists>l\<in>loads_of (ws_log s 7 (place_range demo_place)). l_from l = 0 \<and> l_val l = Some 0"
  with weak_memory_coherent [OF demo_laws a(1), of 7 "place_range demo_place"] show ?thesis by auto
qed

text \<open>C27: the store buffers of a running program hold between one and 128 stores, the last one with the contents
  of the memory, and the search for a store to load from always finds one.\<close>

theorem store_buffers_usable:
  assumes "memory_laws ip" "(weak_step ip)\<^sup>*\<^sup>* (weak_init track weak m) s" "ws_buffers s a = Some bufs" "x \<in> set bufs"
    and "\<And>n. 0 < n \<Longrightarrow> pick n < n"
  shows "length (obj_data x) \<in> {1..128} \<and> (\<forall>v. read_scalar ip (ws_memory s a) (obj_range x) = Ok v \<longrightarrow> val (last (obj_data x)) = Some v) \<and>
    (\<exists>pos recency. fetch_store pick (obj_data x) sc tc = Ok (pos, recency) \<and> pos < length (obj_data x))"
proof -
  have ok: "object_ok (own_time (sys_global (ws_race s))) (sys_released (ws_race s)) (read_scalar ip (ws_memory s a)) (ws_log s a) x"
    using weak_reachable [OF assms(2,1)] assms(3,4) by (simp add: weak_inv_def)
  then have b: "obj_data x \<noteq> []" "length (obj_data x) \<le> 128" by (auto simp: object_ok_def buffer_ok_def STORE_BUFFER_LIMIT_def)
  from fetch_store_Ok [OF b(1) assms(5)] candidates_sound(1)
  have "\<exists>pos recency. fetch_store pick (obj_data x) sc tc = Ok (pos, recency) \<and> pos < length (obj_data x)" by blast
  moreover have "1 \<le> length (obj_data x)" using b(1) by (cases "obj_data x") auto
  ultimately show ?thesis using b ok by (simp add: object_ok_def)
qed

theorem store_buffers_usable_witness:
  "\<exists>s bufs x. (weak_step demo_interp)\<^sup>*\<^sup>* (weak_init False True (\<lambda>_. 0)) s \<and> ws_buffers s 7 = Some bufs \<and> x \<in> set bufs \<and>
    length (obj_data x) \<in> {1..128}"
proof (rule litmus_state)
  fix s bufs x
  assume a: "(weak_step demo_interp)\<^sup>*\<^sup>* (weak_init False True (\<lambda>_. 0)) s" "ws_buffers s 7 = Some bufs" "x \<in> set bufs"
  have "oldest n < n" if "0 < n" for n using that by (simp add: oldest_def)
  from store_buffers_usable [OF demo_laws a this] a show ?thesis by blast
qed

end
