(* ===== verification/Mirch.thy ===== *)
theory Mirch
  imports Prelude
begin

unbundle bit_operations_syntax

text \<open>
  The simulated machine that kernels run on (\<open>src/src/mirch\<close>): the layout of the physical memory
  (\<open>config.rs\<close>), the four-level page table in it (\<open>page_table.rs\<close>) and the states of its pages
  (\<open>physical_mem.rs\<close>). The two static variables are the arguments \<open>cfg\<close> and \<open>pm\<close>.

  The backing buffer is a function from physical addresses to bytes. The code dereferences raw pointers into
  it; where such an access lies outside the buffer or is not aligned, which is undefined behaviour of the
  interpreter itself, the model returns the error \<open>HostFault\<close>. Every allocated page has a shadow, an allocation of
  the compiler's interpreter whose bytes are those of the page and which records the initialized bytes. Its
  operations are the record \<open>shadow_ops\<close>, a parameter; \<open>shadow_laws\<close> are what the compiler documents about them.
\<close>

type_synonym usize = "64 word"

datatype phys_error = PageStateUB | Unsupported | AddressSpaceFull | Int2PtrWithStrictProvenance | HostFault

section \<open>Configuration\<close>

record PhysConfig =
  total_mem_size :: nat
  kernel_code_size :: nat
  kernel_static_size :: nat
  cpu_local_size :: nat
  kernel_code_base_vaddr :: nat
  boot_pt_linear_mapping_base_vaddr :: nat

definition PhysConfig_zero :: PhysConfig where
  "PhysConfig_zero = \<lparr>total_mem_size = 0, kernel_code_size = 0, kernel_static_size = 0, cpu_local_size = 0,
     kernel_code_base_vaddr = 0, boot_pt_linear_mapping_base_vaddr = 0\<rparr>"

definition PhysConfig_default :: PhysConfig where
  "PhysConfig_default = \<lparr>total_mem_size = 0x8000000, kernel_code_size = 0x1000000, kernel_static_size = 0x3f0000, cpu_local_size = 0x10000,
     kernel_code_base_vaddr = 0xffffffff80000000, boot_pt_linear_mapping_base_vaddr = 0xffff800000000000\<rparr>"

definition page_size :: nat where
  "page_size = 0x1000"

definition total_page_num :: "PhysConfig \<Rightarrow> nat" where
  "total_page_num cfg = total_mem_size cfg div page_size"

definition kernel_code_end :: "PhysConfig \<Rightarrow> nat" where
  "kernel_code_end cfg = kernel_code_size cfg"

definition kernel_static_start_addr :: nat where
  "kernel_static_start_addr = 0x10000"

definition kernel_static_end_addr :: "PhysConfig \<Rightarrow> nat" where
  "kernel_static_end_addr cfg = kernel_static_start_addr + kernel_static_size cfg"

definition cpu_local_start_addr :: "PhysConfig \<Rightarrow> nat" where
  "cpu_local_start_addr cfg = kernel_static_end_addr cfg"

definition cpu_local_end_addr :: "PhysConfig \<Rightarrow> nat" where
  "cpu_local_end_addr cfg = cpu_local_start_addr cfg + cpu_local_size cfg"

definition kernel_stack_start_addr :: "PhysConfig \<Rightarrow> nat" where
  "kernel_stack_start_addr cfg = cpu_local_end_addr cfg"

definition kernel_stack_end_addr :: "PhysConfig \<Rightarrow> nat" where
  "kernel_stack_end_addr cfg = kernel_code_end cfg"

text \<open>The assertions of \<open>parse_json_file\<close>.\<close>

definition valid_config :: "PhysConfig \<Rightarrow> bool" where
  "valid_config cfg \<longleftrightarrow> 0 < total_mem_size cfg \<and> kernel_code_size cfg < total_mem_size cfg \<and>
     kernel_static_start_addr + kernel_static_size cfg + cpu_local_size cfg < kernel_code_size cfg \<and>
     boot_pt_linear_mapping_base_vaddr cfg mod 0x40000000 = 0 \<and> kernel_code_base_vaddr cfg mod 0x40000000 = 0"

datatype CodeSection = BootPt | StaticSection | CpuLocal | StackSection

definition CodeSection_paddr :: "PhysConfig \<Rightarrow> nat \<Rightarrow> CodeSection option" where
  "CodeSection_paddr cfg paddr =
     (if paddr < kernel_static_start_addr then Some BootPt
      else if paddr < cpu_local_start_addr cfg then Some StaticSection
      else if paddr < kernel_stack_start_addr cfg then Some CpuLocal
      else if paddr \<le> kernel_stack_end_addr cfg then Some StackSection
      else None)"

definition is_in_cpu_local_section :: "PhysConfig \<Rightarrow> nat \<Rightarrow> bool" where
  "is_in_cpu_local_section cfg paddr \<longleftrightarrow> cpu_local_start_addr cfg \<le> paddr \<and> paddr < cpu_local_end_addr cfg"

section \<open>Physical memory\<close>

datatype TypedKind = Slab | KindPageTable | KindStack | Interpreter

definition TypedKind_from_usize :: "nat \<Rightarrow> TypedKind option" where
  "TypedKind_from_usize value =
     (if value = 1 then Some Slab else if value = 2 then Some KindPageTable
      else if value = 3 then Some KindStack else if value = 4 then Some Interpreter else None)"

datatype PageState = Unused | Untyped | Typed TypedKind nat

text \<open>The reverse map \<open>typed_page_paddr_to_vaddr\<close> is never filled.\<close>

record PageTable =
  root_paddr :: usize

record 's PhysicalMemory =
  mem :: "nat \<Rightarrow> 8 word"
  page_states :: "PageState list"
  init_masks :: "nat \<Rightarrow> 's option"
  page_table :: "PageTable option"

definition PageTable_new :: "usize \<Rightarrow> PageTable" where
  "PageTable_new paddr = \<lparr>root_paddr = paddr\<rparr>"

definition PhysicalMemory_new :: "PhysConfig \<Rightarrow> bool \<Rightarrow> 's PhysicalMemory" where
  "PhysicalMemory_new cfg page_table_enabled =
     \<lparr>mem = (\<lambda>_. 0), page_states = (if page_table_enabled then replicate (total_page_num cfg) Unused else []),
      init_masks = (\<lambda>_. None), page_table = None\<rparr>"

text \<open>Raw accesses to the buffer: aligned machine words, and bytes.\<close>

definition read_usize :: "PhysConfig \<Rightarrow> 's PhysicalMemory \<Rightarrow> nat \<Rightarrow> (phys_error, usize) outcome" where
  "read_usize cfg pm paddr =
     (if paddr + 8 \<le> total_mem_size cfg \<and> paddr mod 8 = 0 then Ok (word_rcat (map (mem pm) (rev [paddr..<paddr + 8]))) else Err HostFault)"

definition put_bytes :: "nat \<Rightarrow> 8 word list \<Rightarrow> (nat \<Rightarrow> 8 word) \<Rightarrow> nat \<Rightarrow> 8 word" where
  "put_bytes paddr bs m = (\<lambda>k. if paddr \<le> k \<and> k < paddr + length bs then bs ! (k - paddr) else m k)"

definition write_mem :: "PhysConfig \<Rightarrow> nat \<Rightarrow> 8 word list \<Rightarrow> 's PhysicalMemory \<Rightarrow> (phys_error, 's PhysicalMemory) outcome" where
  "write_mem cfg paddr bs pm =
     (if paddr + length bs \<le> total_mem_size cfg then Ok (pm\<lparr>mem := put_bytes paddr bs (mem pm)\<rparr>) else Err HostFault)"

definition write_usize :: "PhysConfig \<Rightarrow> nat \<Rightarrow> usize \<Rightarrow> 's PhysicalMemory \<Rightarrow> (phys_error, 's PhysicalMemory) outcome" where
  "write_usize cfg paddr w pm = (if paddr mod 8 = 0 then write_mem cfg paddr (map (\<lambda>i. ucast (drop_bit (8 * i) w)) [0..<8]) pm else Err HostFault)"

definition check_page_state :: "nat \<Rightarrow> PageState \<Rightarrow> 's PhysicalMemory \<Rightarrow> (phys_error, unit) outcome" where
  "check_page_state paddr st pm =
     (let index = paddr div page_size
      in if index < length (page_states pm)
         then (if page_states pm ! index \<noteq> st then Err PageStateUB else Ok ())
         else Err PageStateUB)"

definition set_page_state :: "nat \<Rightarrow> PageState \<Rightarrow> 's PhysicalMemory \<Rightarrow> (phys_error, 's PhysicalMemory) outcome" where
  "set_page_state paddr st pm =
     (let index = paddr div page_size
      in if index < length (page_states pm) then Ok (pm\<lparr>page_states := (page_states pm)[index := st]\<rparr>) else Panic)"

definition PhysicalMemory_remove_init_mask :: "nat \<Rightarrow> 's PhysicalMemory \<Rightarrow> 's PhysicalMemory" where
  "PhysicalMemory_remove_init_mask paddr pm = pm\<lparr>init_masks := (init_masks pm)(paddr := None)\<rparr>"

definition set_page_table :: "PageTable \<Rightarrow> 's PhysicalMemory \<Rightarrow> 's PhysicalMemory" where
  "set_page_table pt pm = pm\<lparr>page_table := Some pt\<rparr>"

definition page_at :: "nat \<Rightarrow> nat \<Rightarrow> (phys_error, nat) outcome" where
  "page_at paddr i = add_u64 paddr (page_size * i)"

definition type_pages_at :: "nat \<Rightarrow> nat \<Rightarrow> nat \<Rightarrow> TypedKind \<Rightarrow> 's PhysicalMemory \<Rightarrow> (phys_error, 's PhysicalMemory) outcome" where
  "type_pages_at paddr count slot_size page_type =
     ofold (\<lambda>page_index pm. obind (page_at paddr page_index) (\<lambda>page_paddr. set_page_state page_paddr (Typed page_type slot_size) pm)) [0..<count]"

section \<open>Page tables\<close>

definition NR_LEVELS :: nat where
  "NR_LEVELS = 4"

definition PTE_SIZE :: nat where
  "PTE_SIZE = 8"

definition PTE_INDEX_BITS :: nat where
  "PTE_INDEX_BITS = 9"

definition LEVEL_MASK :: usize where
  "LEVEL_MASK = 511"

definition HUGE_BIT_MASK :: usize where
  "HUGE_BIT_MASK = push_bit 7 1"

definition PRESENT_BIT_MASK :: usize where
  "PRESENT_BIT_MASK = 1"

definition PTE_MASK :: usize where
  "PTE_MASK = 0xFFFFFFFFFF000"

definition pte_index :: "usize \<Rightarrow> nat \<Rightarrow> usize" where
  "pte_index va level = drop_bit (12 + PTE_INDEX_BITS * (level - 1)) va AND LEVEL_MASK"

text \<open>The loop of \<open>page_walk\<close>: the remaining levels and the address at which it stopped.\<close>

fun walk_loop :: "PhysConfig \<Rightarrow> 's PhysicalMemory \<Rightarrow> usize \<Rightarrow> nat \<Rightarrow> usize \<Rightarrow> (phys_error, (nat \<times> usize) option) outcome" where
  "walk_loop cfg pm vaddr 0 current_paddr = Ok (Some (0, current_paddr))"
| "walk_loop cfg pm vaddr (Suc level) current_paddr =
     obind (read_usize cfg pm (unat current_paddr + PTE_SIZE * unat (pte_index vaddr (Suc level)))) (\<lambda>page_table_entry.
     let current_paddr = page_table_entry AND PTE_MASK
     in if 0 < page_table_entry AND HUGE_BIT_MASK then Ok (Some (level, current_paddr))
        else if page_table_entry AND PRESENT_BIT_MASK = 0 then Ok None
        else walk_loop cfg pm vaddr level current_paddr)"

definition add_usize :: "usize \<Rightarrow> usize \<Rightarrow> ('e, usize) outcome" where
  "add_usize a b = (if unat a + unat b < 2 ^ 64 then Ok (a + b) else Panic)"

definition page_walk :: "PhysConfig \<Rightarrow> 's PhysicalMemory \<Rightarrow> PageTable \<Rightarrow> usize \<Rightarrow> (phys_error, usize option) outcome" where
  "page_walk cfg pm self vaddr =
     obind (walk_loop cfg pm vaddr NR_LEVELS (root_paddr self)) (\<lambda>stop.
     case stop of
       None \<Rightarrow> Ok None
     | Some (current_level, current_paddr) \<Rightarrow>
         let page_offset = vaddr AND (push_bit (current_level * PTE_INDEX_BITS) 0x1000 - 1)
         in obind (add_usize current_paddr page_offset) (\<lambda>paddr. Ok (Some paddr)))"

definition page_walk_or :: "PhysConfig \<Rightarrow> 's PhysicalMemory \<Rightarrow> usize \<Rightarrow> (phys_error, usize) outcome \<Rightarrow> (phys_error, usize option) outcome" where
  "page_walk_or cfg pm vaddr func =
     (case page_table pm of Some pt \<Rightarrow> page_walk cfg pm pt vaddr | None \<Rightarrow> obind func (\<lambda>p. Ok (Some p)))"

definition BOOT_PT_PADDR :: nat where
  "BOOT_PT_PADDR = 0x1000"

definition BOOT_PT_LINEAR_PDPT_PADDR :: nat where
  "BOOT_PT_LINEAR_PDPT_PADDR = 0x2000"

definition BOOT_PT_KERNEL_PDPT_PADDR :: nat where
  "BOOT_PT_KERNEL_PDPT_PADDR = 0x3000"

definition write_pte :: "PhysConfig \<Rightarrow> nat \<Rightarrow> nat \<Rightarrow> usize \<Rightarrow> 's PhysicalMemory \<Rightarrow> (phys_error, 's PhysicalMemory) outcome" where
  "write_pte cfg table index = write_usize cfg (table + PTE_SIZE * index)"

definition init_boot_pt :: "PhysConfig \<Rightarrow> 's PhysicalMemory \<Rightarrow> (phys_error, 's PhysicalMemory \<times> PageTable) outcome" where
  "init_boot_pt cfg pm =
     (let linear = word_of_nat (boot_pt_linear_mapping_base_vaddr cfg); kernel = word_of_nat (kernel_code_base_vaddr cfg)
      in obind (write_pte cfg BOOT_PT_PADDR 0 (word_of_nat BOOT_PT_LINEAR_PDPT_PADDR) pm) (\<lambda>pm.
         obind (write_pte cfg BOOT_PT_PADDR (unat (pte_index linear 4)) (word_of_nat BOOT_PT_LINEAR_PDPT_PADDR) pm) (\<lambda>pm.
         obind (write_pte cfg BOOT_PT_LINEAR_PDPT_PADDR (unat (pte_index linear 3)) HUGE_BIT_MASK pm) (\<lambda>pm.
         obind (write_pte cfg BOOT_PT_PADDR (unat (pte_index kernel 4)) (word_of_nat BOOT_PT_KERNEL_PDPT_PADDR) pm) (\<lambda>pm.
         obind (write_pte cfg BOOT_PT_KERNEL_PDPT_PADDR (unat (pte_index kernel 3)) HUGE_BIT_MASK pm) (\<lambda>pm.
         obind (type_pages_at BOOT_PT_PADDR 3 PTE_SIZE KindPageTable pm) (\<lambda>pm.
         Ok (pm, PageTable_new (word_of_nat BOOT_PT_PADDR)))))))))"

definition kernel_code_paddr_to_vaddr :: "PhysConfig \<Rightarrow> nat \<Rightarrow> (phys_error, nat) outcome" where
  "kernel_code_paddr_to_vaddr cfg paddr = add_u64 paddr (kernel_code_base_vaddr cfg)"

definition try_kernel_code_vaddr_to_paddr :: "PhysConfig \<Rightarrow> nat \<Rightarrow> nat option" where
  "try_kernel_code_vaddr_to_paddr cfg vaddr = (if kernel_code_base_vaddr cfg \<le> vaddr then Some (vaddr - kernel_code_base_vaddr cfg) else None)"

definition try_boot_pt_vaddr_to_paddr :: "PhysConfig \<Rightarrow> nat \<Rightarrow> nat option" where
  "try_boot_pt_vaddr_to_paddr cfg vaddr =
     (if boot_pt_linear_mapping_base_vaddr cfg \<le> vaddr then Some (vaddr - boot_pt_linear_mapping_base_vaddr cfg) else None)"

section \<open>Shadows\<close>

text \<open>Operations of the compiler's \<open>Allocation\<close> on the shadow of a page: the shadow of a page without initialized
  bytes (\<open>from_bytes\<close>, then \<open>write_uninit\<close>), whether it holds provenance, copying a range of the initialization mask
  (\<open>prepare_copy\<close> and \<open>init_mask_apply_copy\<close>), marking a range as overwritten
  (\<open>get_bytes_unchecked_for_overwrite_ptr\<close>), and reading the mask.\<close>

record ('s, 'c) shadow_ops =
  shadow_uninit :: 's
  shadow_has_provenance :: "'s \<Rightarrow> bool"
  shadow_prepare_copy :: "'s \<Rightarrow> nat \<Rightarrow> nat \<Rightarrow> 'c"
  shadow_apply_copy :: "'s \<Rightarrow> 'c \<Rightarrow> nat \<Rightarrow> nat \<Rightarrow> 's"
  shadow_overwrite :: "'s \<Rightarrow> nat \<Rightarrow> nat \<Rightarrow> 's"
  shadow_is_init :: "'s \<Rightarrow> nat \<Rightarrow> bool"

definition shadow_laws :: "('s, 'c) shadow_ops \<Rightarrow> bool" where
  "shadow_laws ops \<longleftrightarrow>
     (\<forall>k. \<not> shadow_is_init ops (shadow_uninit ops) k) \<and> \<not> shadow_has_provenance ops (shadow_uninit ops) \<and>
     (\<forall>s t src dst n k. shadow_is_init ops (shadow_apply_copy ops t (shadow_prepare_copy ops s src n) dst n) k =
        (if dst \<le> k \<and> k < dst + n then shadow_is_init ops s (src + (k - dst)) else shadow_is_init ops t k)) \<and>
     (\<forall>t dst n k. shadow_is_init ops (shadow_overwrite ops t dst n) k \<longleftrightarrow> dst \<le> k \<and> k < dst + n \<or> shadow_is_init ops t k) \<and>
     (\<forall>t c dst n. shadow_has_provenance ops (shadow_apply_copy ops t c dst n) = shadow_has_provenance ops t) \<and>
     (\<forall>t dst n. shadow_has_provenance ops (shadow_overwrite ops t dst n) \<longrightarrow> shadow_has_provenance ops t)"

definition insert_init_mask :: "PhysConfig \<Rightarrow> ('s, 'c) shadow_ops \<Rightarrow> nat \<Rightarrow> 's PhysicalMemory \<Rightarrow> (phys_error, 's PhysicalMemory) outcome" where
  "insert_init_mask cfg ops paddr pm =
     (if paddr + page_size \<le> total_mem_size cfg then Ok (pm\<lparr>init_masks := (init_masks pm)(paddr \<mapsto> shadow_uninit ops)\<rparr>) else Err HostFault)"

section \<open>Copying untyped memory\<close>

text \<open>The checks of one chunk, for the source and then for the destination.\<close>

definition copy_check :: "('s, 'c) shadow_ops \<Rightarrow> 's PhysicalMemory \<Rightarrow> nat \<Rightarrow> (phys_error, 's) outcome" where
  "copy_check ops pm addr =
     (if \<not> (addr div page_size < length (page_states pm) \<and> page_states pm ! (addr div page_size) = Untyped) then Err Unsupported
      else case init_masks pm (addr - addr mod page_size) of
             None \<Rightarrow> Err Unsupported
           | Some allocation \<Rightarrow> if shadow_has_provenance ops allocation then Err Unsupported else Ok allocation)"

text \<open>The bytes of a page's shadow in a range: slicing panics beyond its end.\<close>

definition shadow_bytes :: "'s PhysicalMemory \<Rightarrow> nat \<Rightarrow> nat \<Rightarrow> nat \<Rightarrow> (phys_error, 8 word list) outcome" where
  "shadow_bytes pm page off n = (if off + n \<le> page_size then Ok (map (mem pm) [page + off..<page + off + n]) else Panic)"

definition translate :: "PhysConfig \<Rightarrow> 's PhysicalMemory \<Rightarrow> nat \<Rightarrow> (phys_error, nat) outcome" where
  "translate cfg pm vaddr =
     obind (page_walk_or cfg pm (word_of_nat vaddr) (Ok (word_of_nat vaddr))) (\<lambda>p. case p of None \<Rightarrow> Err Unsupported | Some p \<Rightarrow> Ok (unat p))"

definition copy_chunk :: "nat \<Rightarrow> nat \<Rightarrow> nat \<Rightarrow> nat" where
  "copy_chunk dst src len = min len (min (page_size - dst mod page_size) (page_size - src mod page_size))"

lemma copy_chunk_pos: "len \<noteq> 0 \<Longrightarrow> 0 < copy_chunk dst src len"
  by (simp add: copy_chunk_def page_size_def)

function copy_snapshots ::
  "PhysConfig \<Rightarrow> ('s, 'c) shadow_ops \<Rightarrow> 's PhysicalMemory \<Rightarrow> nat \<Rightarrow> nat \<Rightarrow> nat \<Rightarrow> (phys_error, (nat \<times> 8 word list \<times> 'c) list) outcome" where
  "copy_snapshots cfg ops pm dst src len =
     (if len = 0 then Ok []
      else obind (translate cfg pm dst) (\<lambda>real_dst.
           obind (translate cfg pm src) (\<lambda>real_src.
           let chunk_len = copy_chunk dst src len
           in obind (copy_check ops pm real_src) (\<lambda>source.
              obind (copy_check ops pm real_dst) (\<lambda>_.
              let src_offset = real_src mod page_size
              in obind (shadow_bytes pm (real_src - src_offset) src_offset chunk_len) (\<lambda>bytes.
                 obind (copy_snapshots cfg ops pm (dst + chunk_len) (src + chunk_len) (len - chunk_len)) (\<lambda>rest.
                 Ok ((real_dst, bytes, shadow_prepare_copy ops source src_offset chunk_len) # rest))))))))"
  by pat_completeness auto
termination
  by (relation "measure (\<lambda>(cfg, ops, pm, dst, src, len). len)") (auto simp: copy_chunk_pos)

declare copy_snapshots.simps [simp del]

definition apply_snapshot ::
  "PhysConfig \<Rightarrow> ('s, 'c) shadow_ops \<Rightarrow> nat \<times> 8 word list \<times> 'c \<Rightarrow> 's PhysicalMemory \<Rightarrow> (phys_error, 's PhysicalMemory) outcome" where
  "apply_snapshot cfg ops snapshot pm =
     (case snapshot of (dst, bytes, init_copy) \<Rightarrow>
        let dst_offset = dst mod page_size
        in obind (unwrap (init_masks pm (dst - dst_offset))) (\<lambda>target.
           obind (write_mem cfg dst bytes pm) (\<lambda>pm.
           Ok (pm\<lparr>init_masks := (init_masks pm)(dst - dst_offset \<mapsto> shadow_apply_copy ops target init_copy dst_offset (length bytes))\<rparr>))))"

definition physical_copy ::
  "PhysConfig \<Rightarrow> ('s, 'c) shadow_ops \<Rightarrow> nat \<Rightarrow> nat \<Rightarrow> nat \<Rightarrow> 's PhysicalMemory \<Rightarrow> (phys_error, 's PhysicalMemory) outcome" where
  "physical_copy cfg ops dst src len pm =
     (if 2 ^ 64 \<le> dst + len \<or> 2 ^ 64 \<le> src + len \<or> total_mem_size cfg < len then Err Unsupported
      else obind (copy_snapshots cfg ops pm dst src len) (\<lambda>snapshots. ofold (apply_snapshot cfg ops) snapshots pm))"

section \<open>The memory calls of a kernel\<close>

text \<open>\<open>kern_miri_alloc_pages\<close>, \<open>kern_miri_zero\<close>, \<open>kern_miri_write_bytes\<close> and \<open>kern_miri_retype_pages\<close> of
  \<open>src/src/shims/foreign_items.rs\<close>.\<close>

definition alloc_page :: "PhysConfig \<Rightarrow> ('s, 'c) shadow_ops \<Rightarrow> nat \<Rightarrow> 's PhysicalMemory \<Rightarrow> (phys_error, 's PhysicalMemory) outcome" where
  "alloc_page cfg ops addr pm =
     obind (check_page_state addr Unused pm) (\<lambda>_. obind (set_page_state addr Untyped pm) (insert_init_mask cfg ops addr))"

definition alloc_pages :: "PhysConfig \<Rightarrow> ('s, 'c) shadow_ops \<Rightarrow> nat \<Rightarrow> nat \<Rightarrow> 's PhysicalMemory \<Rightarrow> (phys_error, 's PhysicalMemory) outcome" where
  "alloc_pages cfg ops paddr count = ofold (\<lambda>i pm. obind (page_at paddr i) (\<lambda>addr. alloc_page cfg ops addr pm)) [0..<count]"

definition zero_pages :: "PhysConfig \<Rightarrow> ('s, 'c) shadow_ops \<Rightarrow> nat \<Rightarrow> nat \<Rightarrow> 's PhysicalMemory \<Rightarrow> (phys_error, 's PhysicalMemory) outcome" where
  "zero_pages cfg ops paddr page_count pm =
     obind (ofold (\<lambda>i _. obind (page_at paddr i) (\<lambda>p. if init_masks pm p = None then Err PageStateUB else Ok ())) [0..<page_count] ()) (\<lambda>_.
     obind (write_mem cfg paddr (replicate (page_count * page_size) 0) pm)
     (ofold (\<lambda>i pm. obind (page_at paddr i) (\<lambda>p.
        obind (unwrap (init_masks pm p)) (\<lambda>allocation.
        Ok (pm\<lparr>init_masks := (init_masks pm)(p \<mapsto> shadow_overwrite ops allocation 0 page_size)\<rparr>)))) [0..<page_count]))"

function mark_written :: "('s, 'c) shadow_ops \<Rightarrow> nat \<Rightarrow> nat \<Rightarrow> 's PhysicalMemory \<Rightarrow> (phys_error, 's PhysicalMemory) outcome" where
  "mark_written ops addr remaining pm =
     (if remaining = 0 then Ok pm
      else let offset = addr mod page_size; chunk = min remaining (page_size - offset)
           in obind (unwrap (init_masks pm (addr - offset))) (\<lambda>allocation.
              mark_written ops (addr + chunk) (remaining - chunk)
                (pm\<lparr>init_masks := (init_masks pm)(addr - offset \<mapsto> shadow_overwrite ops allocation offset chunk)\<rparr>)))"
  by pat_completeness auto
termination
  by (relation "measure (\<lambda>(ops, addr, remaining, pm). remaining)") (auto simp: page_size_def)

declare mark_written.simps [simp del]

definition physical_write_bytes ::
  "PhysConfig \<Rightarrow> ('s, 'c) shadow_ops \<Rightarrow> nat \<Rightarrow> 8 word list \<Rightarrow> 's PhysicalMemory \<Rightarrow> (phys_error, 's PhysicalMemory) outcome" where
  "physical_write_bytes cfg ops paddr bs pm = obind (write_mem cfg paddr bs pm) (mark_written ops paddr (length bs))"

definition retype_pages :: "nat \<Rightarrow> nat \<Rightarrow> nat \<Rightarrow> nat \<Rightarrow> 's PhysicalMemory \<Rightarrow> (phys_error, 's PhysicalMemory) outcome" where
  "retype_pages paddr count page_type slot_size pm =
     obind (check (slot_size \<noteq> 0 \<and> page_size mod slot_size = 0)) (\<lambda>_.
     obind (ofold (\<lambda>i _. obind (page_at paddr i) (\<lambda>p. check_page_state p Untyped pm)) [0..<count] ()) (\<lambda>_.
     obind (unwrap (TypedKind_from_usize page_type)) (\<lambda>kind. type_pages_at paddr count slot_size kind pm)))"

end
