(* ===== verification/Page_Walk.thy ===== *)
theory Page_Walk
  imports Mirch
begin

unbundle bit_operations_syntax

text \<open>
  Address translation. \<open>translates\<close> is the reference: a chain of page table entries, each found at the index that
  the virtual address has at its level, down to an entry with the huge bit or to the last level. \<open>page_walk\<close>
  computes it; it maps every page of addresses to a page of addresses; and the table that the interpreter sets
  up at boot maps nothing.
\<close>

section \<open>Machine words in memory\<close>

lemma word_bytes: "word_rcat (rev (map (\<lambda>i. ucast (drop_bit (8 * i) w) :: 8 word) [0..<8])) = (w :: 64 word)"
proof (rule bit_word_eqI)
  fix n
  assume n: "n < LENGTH(64)"
  then have "n div 8 < 8" by simp
  then have "map (\<lambda>i. ucast (drop_bit (8 * i) w) :: 8 word) [0..<8] ! (n div 8) = ucast (drop_bit (8 * (n div 8)) w)" by simp
  then show "bit (word_rcat (rev (map (\<lambda>i. ucast (drop_bit (8 * i) w) :: 8 word) [0..<8])) :: 64 word) n = bit w n"
    using n \<open>n div 8 < 8\<close> 
    by (simp add: word_rcat_def bit_word_of_int_iff bit_horner_sum_uint_exp_iff [where 'a = 8, simplified] bit_ucast_iff bit_drop_bit_eq)
qed

lemma read_write_usize:
  assumes "write_usize cfg p w pm = Ok pm'"
  shows "read_usize cfg pm' q = (if q = p then Ok w else if q mod 8 = 0 then read_usize cfg pm q else Err HostFault)"
    "page_states pm' = page_states pm" "init_masks pm' = init_masks pm" "page_table pm' = page_table pm"
proof -
  let ?bs = "map (\<lambda>i. ucast (drop_bit (8 * i) w) :: 8 word) [0..<8]"
  have p: "p mod 8 = 0" "p + 8 \<le> total_mem_size cfg" and pm': "pm' = pm\<lparr>mem := put_bytes p ?bs (mem pm)\<rparr>"
    using assms by (auto simp: write_usize_def write_mem_def split: if_splits)
  show "page_states pm' = page_states pm" "init_masks pm' = init_masks pm" "page_table pm' = page_table pm" by (simp_all add: pm')
  have at: "map (mem pm') [p..<p + 8] = ?bs" by (rule nth_equalityI) (auto simp: pm' put_bytes_def)
  have other: "map (mem pm') [q..<q + 8] = map (mem pm) [q..<q + 8]" if "q \<noteq> p" "q mod 8 = 0"
  proof (rule map_cong [OF refl])
    fix k
    assume "k \<in> set [q..<q + 8]"
    moreover have "q + 8 \<le> p \<or> p + 8 \<le> q" using that p(1) by presburger
    ultimately show "mem pm' k = mem pm k" by (auto simp: pm' put_bytes_def)
  qed
  show "read_usize cfg pm' q = (if q = p then Ok w else if q mod 8 = 0 then read_usize cfg pm q else Err HostFault)"
  proof (cases "q = p")
    case True
    have "word_rcat (map (mem pm') (rev [p..<p + 8])) = w" unfolding rev_map [symmetric] at by (rule word_bytes)
    then show ?thesis using True p by (simp only: read_usize_def simp_thms if_True)
  next
    case False
    then show ?thesis using other [OF False] unfolding read_usize_def rev_map [symmetric] by (auto simp del: map_eq_conv)
  qed
qed

section \<open>Fields of entries and addresses\<close>

definition frame :: "nat \<Rightarrow> nat" where
  "frame e = e mod 2 ^ 52 div 2 ^ 12 * 2 ^ 12"

lemma frame_less: "frame e < 2 ^ 52"
proof -
  have "frame e \<le> e mod 2 ^ 52" unfolding frame_def by (rule div_times_less_eq_dividend)
  also have "\<dots> < 2 ^ 52" by simp
  finally show ?thesis .
qed

lemma pte_frame: "unat (pte AND PTE_MASK) = frame (unat pte)"
proof -
  have "PTE_MASK = push_bit 12 (mask 40)" by (simp add: PTE_MASK_def mask_eq_exp_minus_1 push_bit_eq_mult)
  then have "pte AND PTE_MASK = push_bit 12 (take_bit 40 (drop_bit 12 pte))"
    by (auto simp: bit_eq_iff bit_and_iff bit_push_bit_iff bit_mask_iff bit_take_bit_iff bit_drop_bit_eq)
  also have "\<dots> = push_bit 12 (drop_bit 12 (take_bit 52 pte))" by (simp add: drop_bit_take_bit)
  finally have "unat (pte AND PTE_MASK) = take_bit 64 (push_bit 12 (drop_bit 12 (take_bit 52 (unat pte))))"
    by (simp add: unsigned_push_bit_eq unsigned_drop_bit_eq unsigned_take_bit_eq)
  also have "push_bit 12 (drop_bit 12 (take_bit 52 (unat pte))) = frame (unat pte)"
    by (simp add: push_bit_eq_mult drop_bit_eq_div take_bit_eq_mod frame_def)
  also have "take_bit 64 (frame (unat pte)) = frame (unat pte)"
    using frame_less [of "unat pte"] by (simp add: take_bit_nat_eq_self_iff)
  finally show ?thesis .
qed

lemma pte_index_nat: "unat (pte_index va (Suc l)) = unat va div 2 ^ (12 + 9 * l) mod 512"
proof -
  have "LEVEL_MASK = mask 9" by (simp add: LEVEL_MASK_def mask_eq_exp_minus_1)
  then have "pte_index va (Suc l) = take_bit 9 (drop_bit (12 + 9 * l) va)"
    by (simp add: pte_index_def PTE_INDEX_BITS_def take_bit_eq_mask)
  then have "unat (pte_index va (Suc l)) = take_bit 9 (drop_bit (12 + 9 * l) (unat va))" by (simp only: unsigned_take_bit_eq unat_drop_bit_eq)
  then show ?thesis by (simp add: take_bit_eq_mod drop_bit_eq_div)
qed

lemma pte_bits: "0 < pte AND HUGE_BIT_MASK \<longleftrightarrow> odd (unat pte div 2 ^ 7)" "pte AND PRESENT_BIT_MASK = 0 \<longleftrightarrow> even (unat pte)"
proof -
  have "bit pte 7 \<longleftrightarrow> bit (unat pte) 7" by (simp add: bit_unsigned_iff)
  then show "0 < pte AND HUGE_BIT_MASK \<longleftrightarrow> odd (unat pte div 2 ^ 7)"
    by (simp add: HUGE_BIT_MASK_def push_bit_eq_mult word_gt_0 and_exp_eq_0_iff_not_bit [of pte 7, simplified] bit_iff_odd)
  have "pte AND 2 ^ 0 = 0 \<longleftrightarrow> \<not> bit pte 0" by (rule and_exp_eq_0_iff_not_bit)
  moreover have "bit pte 0 \<longleftrightarrow> bit (unat pte) 0" by (simp add: bit_unsigned_iff)
  ultimately show "pte AND PRESENT_BIT_MASK = 0 \<longleftrightarrow> even (unat pte)" unfolding PRESENT_BIT_MASK_def power_0 bit_0 by simp
qed

lemma page_offset_nat: "l \<le> 3 \<Longrightarrow> unat ((va :: usize) AND (push_bit (l * PTE_INDEX_BITS) 0x1000 - 1)) = unat va mod 2 ^ (12 + 9 * l)"
proof -
  assume "l \<le> 3"
  have "push_bit (l * PTE_INDEX_BITS) 0x1000 - 1 = (mask (12 + 9 * l) :: 64 word)"
    by (simp add: PTE_INDEX_BITS_def push_bit_eq_mult mask_eq_exp_minus_1 power_add mult.commute)
  then have "va AND (push_bit (l * PTE_INDEX_BITS) 0x1000 - 1) = take_bit (12 + 9 * l) va" by (simp only: take_bit_eq_mask)
  then have "unat (va AND (push_bit (l * PTE_INDEX_BITS) 0x1000 - 1)) = take_bit (12 + 9 * l) (unat va)" by (simp only: unsigned_take_bit_eq)
  then show "unat (va AND (push_bit (l * PTE_INDEX_BITS) 0x1000 - 1)) = unat va mod 2 ^ (12 + 9 * l)" by (simp only: take_bit_eq_mod)
qed

section \<open>The reference\<close>

text \<open>The entry for \<open>v\<close> in a table at level \<open>Suc l\<close>; the translation of \<open>v\<close> from a table of level \<open>l\<close> at \<open>t\<close>.\<close>

definition entry_at :: "nat \<Rightarrow> nat \<Rightarrow> nat \<Rightarrow> nat" where
  "entry_at v l t = t + 8 * (v div 2 ^ (12 + 9 * l) mod 512)"

inductive translates :: "PhysConfig \<Rightarrow> 's PhysicalMemory \<Rightarrow> nat \<Rightarrow> nat \<Rightarrow> nat \<Rightarrow> nat \<Rightarrow> bool" for cfg pm v where
  page: "translates cfg pm v 0 t (t + v mod 2 ^ 12)"
| huge: "read_usize cfg pm (entry_at v l t) = Ok e \<Longrightarrow> odd (unat e div 2 ^ 7) \<Longrightarrow>
    translates cfg pm v (Suc l) t (frame (unat e) + v mod 2 ^ (12 + 9 * l))"
| table: "read_usize cfg pm (entry_at v l t) = Ok e \<Longrightarrow> even (unat e div 2 ^ 7) \<Longrightarrow> odd (unat e) \<Longrightarrow>
    translates cfg pm v l (frame (unat e)) p \<Longrightarrow> translates cfg pm v (Suc l) t p"

inductive_simps translates_0: "translates cfg pm v 0 t p"
inductive_simps translates_Suc: "translates cfg pm v (Suc l) t p"

lemma walk_loop_level: "walk_loop cfg pm va l t = Ok (Some (l', t')) \<Longrightarrow> l' \<le> l"
  by (induction l arbitrary: t) (auto simp: obind_eq_Ok Let_def le_Suc_eq split: if_splits)

lemma walk_loop_translates:
  "(\<exists>l' t'. walk_loop cfg pm va l t = Ok (Some (l', t')) \<and> l' \<le> l \<and> p = unat t' + unat va mod 2 ^ (12 + 9 * l'))
    \<longleftrightarrow> translates cfg pm (unat va) l (unat t) p"
proof (induction l arbitrary: t)
  case 0
  then show ?case by (simp add: translates_0)
next
  case (Suc l)
  let ?at = "unat t + PTE_SIZE * unat (pte_index va (Suc l))"
  have at: "?at = entry_at (unat va) l (unat t)" by (simp add: entry_at_def pte_index_nat PTE_SIZE_def)
  show ?case
  proof (cases "read_usize cfg pm ?at")
    case (Ok e)
    have "walk_loop cfg pm va l (e AND PTE_MASK) = Ok (Some (l', t')) \<Longrightarrow> l' \<le> Suc l \<longleftrightarrow> l' \<le> l" for l' t'
      using walk_loop_level [of cfg pm va l "e AND PTE_MASK" l' t'] by simp
    then show ?thesis unfolding translates_Suc
      using Ok Suc.IH [of "e AND PTE_MASK"]
      by (cases "odd (unat e div 2 ^ 7)"; cases "odd (unat e)") (auto simp: at pte_bits pte_frame)
  qed (auto simp: translates_Suc at)
qed

lemma walk_loop_stop: "walk_loop cfg pm va (Suc l) t = Ok (Some (l', t')) \<Longrightarrow> l' \<le> l \<and> (\<exists>e. t' = e AND PTE_MASK)"
proof (induction l arbitrary: t)
  case 0
  then show ?case by (auto simp: obind_eq_Ok Let_def split: if_splits)
next
  case (Suc l)
  from Suc.prems obtain e where "walk_loop cfg pm va (Suc l) (e AND PTE_MASK) = Ok (Some (l', t')) \<or> (l' = Suc l \<and> t' = e AND PTE_MASK)"
    unfolding walk_loop.simps(2) [of cfg pm va "Suc l"] by (auto simp: obind_eq_Ok Let_def simp del: walk_loop.simps split: if_splits)
  then show ?case using Suc.IH by fastforce
qed

lemma walk_stop:
  assumes "walk_loop cfg pm va 4 t = Ok (Some (l, t'))"
  shows "l \<le> 3" "unat t' + unat va mod 2 ^ (12 + 9 * l) < 2 ^ 64"
proof -
  have "walk_loop cfg pm va (Suc 3) t = Ok (Some (l, t'))" using assms by (simp add: eval_nat_numeral)
  from walk_loop_stop [OF this] obtain e where l: "l \<le> 3" and e: "t' = e AND PTE_MASK" by blast
  show "l \<le> 3" by (rule l)
  have "(2 :: nat) ^ (12 + 9 * l) \<le> 2 ^ 39" using l by (intro power_increasing) auto
  then have "unat va mod 2 ^ (12 + 9 * l) < 2 ^ 39" by (meson mod_less_divisor order_less_le_trans zero_less_numeral zero_less_power)
  then show "unat t' + unat va mod 2 ^ (12 + 9 * l) < 2 ^ 64" using frame_less [of "unat e"] by (simp add: e pte_frame)
qed

lemma walk_loop_outcome: "walk_loop cfg pm va l t = Panic \<longleftrightarrow> False" "walk_loop cfg pm va l t = Diverge \<longleftrightarrow> False"
  by (induction l arbitrary: t) (auto simp: read_usize_def Let_def)

lemma word_of_nat_eq: "n < 2 ^ 64 \<Longrightarrow> word_of_nat n = (w :: usize) \<longleftrightarrow> unat w = n"
  by (auto simp: unat_of_nat)

lemma page_walk_cases:
  "page_walk cfg pm pt va =
    (case walk_loop cfg pm va 4 (root_paddr pt) of
       Ok (Some (l, t)) \<Rightarrow> Ok (Some (word_of_nat (unat t + unat va mod 2 ^ (12 + 9 * l))))
     | Ok None \<Rightarrow> Ok None | Err e \<Rightarrow> Err e | Panic \<Rightarrow> Panic | Diverge \<Rightarrow> Diverge)"
proof (cases "\<exists>l t. walk_loop cfg pm va 4 (root_paddr pt) = Ok (Some (l, t))")
  case True
  then obtain l t where w: "walk_loop cfg pm va 4 (root_paddr pt) = Ok (Some (l, t))" by blast
  note b = walk_stop [OF w]
  have off: "unat (va AND (push_bit (l * PTE_INDEX_BITS) 0x1000 - 1)) = unat va mod 2 ^ (12 + 9 * l)" by (rule page_offset_nat [OF b(1)])
  have "t + (va AND (push_bit (l * PTE_INDEX_BITS) 0x1000 - 1)) = word_of_nat (unat t + unat va mod 2 ^ (12 + 9 * l))"
    unfolding off [symmetric] by simp
  then show ?thesis using w off b(2) by (simp add: page_walk_def NR_LEVELS_def add_usize_def Let_def)
next
  case False
  then show ?thesis by (auto simp: page_walk_def NR_LEVELS_def split: outcome.splits option.splits)
qed

lemma translates_same_page:
  assumes "translates cfg pm v l t p" "v div 2 ^ 12 = v' div 2 ^ 12"
  shows "v mod 2 ^ 12 \<le> p \<and> translates cfg pm v' l t (p - v mod 2 ^ 12 + v' mod 2 ^ 12)"
  using assms
proof (induction rule: translates.induct)
  case (page t)
  then show ?case by (auto simp: translates_0)
next
  case (huge l t e)
  have d: "x div 2 ^ (12 + 9 * l) = x div 2 ^ 12 div 2 ^ (9 * l)" for x :: nat by (simp add: power_add div_mult2_eq)
  have m: "x mod 2 ^ (12 + 9 * l) = 2 ^ 12 * (x div 2 ^ 12 mod 2 ^ (9 * l)) + x mod 2 ^ 12" for x :: nat by (simp add: power_add mod_mult2_eq)
  have e: "entry_at v l t = entry_at v' l t" using huge.prems by (simp add: entry_at_def d)
  have "frame (unat e) + v mod 2 ^ (12 + 9 * l) - v mod 2 ^ 12 + v' mod 2 ^ 12 = frame (unat e) + v' mod 2 ^ (12 + 9 * l)"
    using huge.prems by (simp add: m)
  moreover have "translates cfg pm v' (Suc l) t (frame (unat e) + v' mod 2 ^ (12 + 9 * l))"
    using huge.hyps unfolding e by (rule translates.huge)
  moreover have "v mod 2 ^ 12 \<le> frame (unat e) + v mod 2 ^ (12 + 9 * l)" unfolding m [of v] by simp
  ultimately show ?case by metis
next
  case (table l t e p)
  have d: "x div 2 ^ (12 + 9 * l) = x div 2 ^ 12 div 2 ^ (9 * l)" for x :: nat by (simp add: power_add div_mult2_eq)
  have e: "entry_at v l t = entry_at v' l t" using table.prems by (simp add: entry_at_def d)
  have "v mod 2 ^ 12 \<le> p" "translates cfg pm v' l (frame (unat e)) (p - v mod 2 ^ 12 + v' mod 2 ^ 12)" using table.IH table.prems by auto
  with table.hyps show ?case unfolding e by (blast intro: translates.table)
qed

lemma translates_offset: "translates cfg pm v l t p \<Longrightarrow> l = 0 \<longrightarrow> 2 ^ 12 dvd t \<Longrightarrow> p mod 2 ^ 12 = v mod 2 ^ 12"
proof (induction rule: translates.induct)
  case (page t)
  then have "2 ^ 12 dvd t" by blast
  then obtain k where k: "t = 2 ^ 12 * k" by (rule dvdE)
  show ?case unfolding k by simp
next
  case (huge l t e)
  have f: "frame (unat e) mod 2 ^ 12 = 0" by (simp add: frame_def)
  have v: "v mod 2 ^ (12 + 9 * l) mod 2 ^ 12 = v mod 2 ^ 12" by (rule mod_mod_cancel) (simp add: power_add)
  show ?case unfolding mod_add_eq [symmetric, of "frame (unat e)"] f v by simp
next
  case (table l t e p)
  then show ?case by (simp add: frame_def)
qed

lemma page_walk_iff:
  "page_walk cfg pm pt va = Ok (Some p) \<longleftrightarrow> translates cfg pm (unat va) NR_LEVELS (unat (root_paddr pt)) (unat p)"
proof -
  let ?w = "walk_loop cfg pm va 4 (root_paddr pt)"
  have eq: "word_of_nat (unat t + unat va mod 2 ^ (12 + 9 * l)) = p \<longleftrightarrow> unat p = unat t + unat va mod 2 ^ (12 + 9 * l)"
    if "?w = Ok (Some (l, t))" for l t
    by (rule word_of_nat_eq [OF walk_stop(2) [OF that]])
  have "page_walk cfg pm pt va = Ok (Some p) \<longleftrightarrow> (\<exists>l t. ?w = Ok (Some (l, t)) \<and> l \<le> 4 \<and> unat p = unat t + unat va mod 2 ^ (12 + 9 * l))"
    using eq walk_loop_level unfolding page_walk_cases by (auto split: outcome.splits option.splits)
  then show ?thesis unfolding walk_loop_translates NR_LEVELS_def .
qed

text \<open>Translation is linear inside a page: addresses of one virtual page are translated to the same offsets of one
  physical page, so one walk serves a whole page.\<close>

lemma page_walk_same_page:
  assumes "page_walk cfg pm pt va = Ok (Some p)" "unat va div page_size = unat vb div page_size"
  shows "\<exists>q. page_walk cfg pm pt vb = Ok (Some q) \<and> unat q div page_size = unat p div page_size \<and>
    unat p mod page_size = unat va mod page_size \<and> unat q mod page_size = unat vb mod page_size"
proof -
  let ?tr = "\<lambda>v. translates cfg pm v NR_LEVELS (unat (root_paddr pt))"
  have ps: "page_size = 2 ^ 12" by (simp add: page_size_def)
  have a: "?tr (unat va) (unat p)" using assms(1) unfolding page_walk_iff .
  define q where "q = unat p - unat va mod page_size + unat vb mod page_size"
  have 1: "unat va mod page_size \<le> unat p" "?tr (unat vb) q"
    using translates_same_page [OF a, of "unat vb"] assms(2) unfolding ps q_def by blast+
  have 2: "unat p mod page_size = unat va mod page_size" unfolding ps by (rule translates_offset [OF a]) (simp add: NR_LEVELS_def)
  then have "q = page_size * (unat p div page_size) + unat vb mod page_size" unfolding q_def
    by (metis add_diff_cancel_right' mult.commute div_mult_mod_eq)
  then have 3: "q div page_size = unat p div page_size" "q mod page_size = unat vb mod page_size" by (auto simp: ps)
  have "q div page_size < 2 ^ 52" using 3(1) unsigned_less [of p, where ?'a = nat] by (simp add: ps less_mult_imp_div_less)
  then have "q < 2 ^ 64" by (simp add: ps div_less_iff_less_mult)
  then have "unat (word_of_nat q :: usize) = q" by (simp add: unat_of_nat)
  with 1(2) have "page_walk cfg pm pt vb = Ok (Some (word_of_nat q))" unfolding page_walk_iff by simp
  with 2 3 \<open>unat (word_of_nat q :: usize) = q\<close> show ?thesis by (intro exI [of _ "word_of_nat q"]) simp
qed

section \<open>Properties\<close>

text \<open>C34: walking the page table computes the translation of the reference, a chain of page table entries that ends at
  a huge entry or at the last level, and fails in no other way than by reading an entry outside the physical memory.\<close>

theorem page_walk_exact:
  "(page_walk cfg pm pt va = Ok (Some p) \<longleftrightarrow> translates cfg pm (unat va) NR_LEVELS (unat (root_paddr pt)) (unat p)) \<and>
    page_walk cfg pm pt va \<noteq> Panic \<and> page_walk cfg pm pt va \<noteq> Diverge"
  unfolding page_walk_iff by (auto simp: page_walk_cases walk_loop_outcome split: outcome.splits option.splits)

section \<open>The boot page table\<close>

lemma type_pages_mem: "type_pages_at paddr count slot kind pm = Ok pm' \<Longrightarrow> mem pm' = mem pm"
  unfolding type_pages_at_def
  by (erule ofold_invariant [where P = "\<lambda>pm'. mem pm' = mem pm"]) (auto simp: obind_eq_Ok set_page_state_def Let_def split: if_splits)

lemma read_usize_mem: "mem pm' = mem pm \<Longrightarrow> read_usize cfg pm' q = read_usize cfg pm q"
  by (simp add: read_usize_def)

lemma pte_index_less: "unat (pte_index va l) < 512"
proof -
  have "LEVEL_MASK = mask 9" by (simp add: LEVEL_MASK_def mask_eq_exp_minus_1)
  then have "pte_index va l = take_bit 9 (drop_bit (12 + PTE_INDEX_BITS * (l - 1)) va)" by (simp add: pte_index_def take_bit_eq_mask)
  then have "unat (pte_index va l) = take_bit 9 (unat (drop_bit (12 + PTE_INDEX_BITS * (l - 1)) va))" by (simp only: unsigned_take_bit_eq)
  then show ?thesis using take_bit_nat_less_exp [of 9] by simp
qed

lemma boot_entries:
  fixes pm :: "'s PhysicalMemory"
  assumes "init_boot_pt cfg (PhysicalMemory_new cfg en) = Ok (pm, pt)" "i < 512"
  shows "\<exists>e. read_usize cfg pm (0x1000 + 8 * i) = Ok e \<and> e \<in> {0, 0x2000, 0x3000}" "root_paddr pt = 0x1000"
proof -
  let ?lin = "word_of_nat (boot_pt_linear_mapping_base_vaddr cfg) :: usize" and ?ker = "word_of_nat (kernel_code_base_vaddr cfg) :: usize"
  let ?p0 = "PhysicalMemory_new cfg en :: 's PhysicalMemory" and ?at = "0x1000 + 8 * i"
  from assms(1) obtain p1 p2 p3 p4 p5 where w:
    "write_usize cfg 0x1000 0x2000 ?p0 = Ok p1" "write_usize cfg (0x1000 + 8 * unat (pte_index ?lin 4)) 0x2000 p1 = Ok p2"
    "write_usize cfg (0x2000 + 8 * unat (pte_index ?lin 3)) HUGE_BIT_MASK p2 = Ok p3"
    "write_usize cfg (0x1000 + 8 * unat (pte_index ?ker 4)) 0x3000 p3 = Ok p4"
    "write_usize cfg (0x3000 + 8 * unat (pte_index ?ker 3)) HUGE_BIT_MASK p4 = Ok p5"
    "type_pages_at 0x1000 3 8 KindPageTable p5 = Ok pm" "pt = PageTable_new 0x1000"
    by (auto simp: init_boot_pt_def Let_def obind_eq_Ok write_pte_def BOOT_PT_PADDR_def BOOT_PT_LINEAR_PDPT_PADDR_def
        BOOT_PT_KERNEL_PDPT_PADDR_def PTE_SIZE_def)
  show "root_paddr pt = 0x1000" by (simp add: w(7) PageTable_new_def)
  have "0x3000 \<le> total_mem_size cfg" using w(5) by (auto simp: write_usize_def write_mem_def split: if_splits)
  moreover have "word_rcat (replicate 8 (0 :: 8 word)) = (0 :: usize)" by (simp add: word_rcat_def eval_nat_numeral)
  ultimately have "read_usize cfg ?p0 ?at = Ok 0" using assms(2) by (simp add: read_usize_def PhysicalMemory_new_def map_replicate_const)
  moreover have "?at mod 8 = 0" "?at \<noteq> 0x2000 + 8 * j" "?at \<noteq> 0x3000 + 8 * j" for j using assms(2) by auto
  ultimately show "\<exists>e. read_usize cfg pm ?at = Ok e \<and> e \<in> {0, 0x2000, 0x3000}"
    unfolding read_usize_mem [OF type_pages_mem [OF w(6)]]
    by (simp add: read_write_usize(1) [OF w(5)] read_write_usize(1) [OF w(4)] read_write_usize(1) [OF w(3)]
        read_write_usize(1) [OF w(2)] read_write_usize(1) [OF w(1)])
qed

text \<open>C35: the boot page table maps nothing. Its upper entries lack the present bit, and an entry without it ends the
  walk: every walk of a freshly set up table finds no translation, for the kernel's own addresses as for all others.\<close>

theorem boot_table_maps_nothing:
  assumes "init_boot_pt cfg (PhysicalMemory_new cfg en) = Ok (pm, pt)"
  shows "page_walk cfg pm pt va = Ok None"
proof -
  let ?i = "unat (pte_index va (Suc 3))"
  from boot_entries [OF assms pte_index_less [of va "Suc 3"]] obtain e where
    e: "read_usize cfg pm (0x1000 + 8 * ?i) = Ok e" "e \<in> {0, 0x2000, 0x3000}" and r: "root_paddr pt = 0x1000" by blast
  have "\<not> 0 < e AND HUGE_BIT_MASK" "e AND PRESENT_BIT_MASK = 0" using e(2) by (auto simp: pte_bits)
  with e(1) r have "walk_loop cfg pm va (Suc 3) (root_paddr pt) = Ok None" unfolding walk_loop.simps by (simp add: PTE_SIZE_def)
  then have "walk_loop cfg pm va 4 (root_paddr pt) = Ok None" by (simp add: eval_nat_numeral)
  then show ?thesis by (simp add: page_walk_cases)
qed

definition small_config :: PhysConfig where
  "small_config = \<lparr>total_mem_size = 0x5000, kernel_code_size = 0x4000, kernel_static_size = 0, cpu_local_size = 0,
     kernel_code_base_vaddr = 0xffffffff80000000, boot_pt_linear_mapping_base_vaddr = 0xffff800000000000\<rparr>"

lemma small_boot: "is_Ok (init_boot_pt small_config (PhysicalMemory_new small_config True :: unit PhysicalMemory))"
  by code_simp

theorem boot_table_maps_nothing_witness:
  "\<exists>pm pt. init_boot_pt small_config (PhysicalMemory_new small_config True) = Ok (pm :: unit PhysicalMemory, pt) \<and>
    page_walk small_config pm pt 0xffffffff80000000 = Ok None"
proof -
  obtain pm pt where "init_boot_pt small_config (PhysicalMemory_new small_config True) = Ok (pm :: unit PhysicalMemory, pt)"
    using small_boot by (auto elim!: is_Ok.elims)
  with boot_table_maps_nothing [OF this, of "0xffffffff80000000"] show ?thesis by blast
qed

end
