(* ===== verification/Phys_Copy.thy ===== *)
theory Phys_Copy
  imports Page_Walk
begin

text \<open>
  \<open>physical_copy\<close> works on chunks that stay inside a page, checks and snapshots all of them and then writes. The
  reference is a copy of single bytes, each translated on its own and read from the memory before the copy.
\<close>

section \<open>The reference\<close>

definition copy_bytes :: "(nat \<Rightarrow> nat) \<Rightarrow> (nat \<Rightarrow> nat) \<Rightarrow> nat \<Rightarrow> (nat \<Rightarrow> 'a) \<Rightarrow> (nat \<Rightarrow> 'a) \<Rightarrow> nat \<Rightarrow> 'a" where
  "copy_bytes D S len old = fold (\<lambda>i f. f(D i := old (S i))) [0..<len]"

definition tr :: "PhysConfig \<Rightarrow> 's PhysicalMemory \<Rightarrow> nat \<Rightarrow> nat" where
  "tr cfg pm v = (case translate cfg pm v of Ok p \<Rightarrow> p | Err _ \<Rightarrow> 0 | Panic \<Rightarrow> 0 | Diverge \<Rightarrow> 0)"

definition byte_init :: "('s, 'c) shadow_ops \<Rightarrow> 's PhysicalMemory \<Rightarrow> nat \<Rightarrow> bool" where
  "byte_init ops pm q \<longleftrightarrow> (case init_masks pm (q - q mod page_size) of None \<Rightarrow> False | Some a \<Rightarrow> shadow_is_init ops a (q mod page_size))"

lemma copy_bytes_split:
  assumes "c \<le> len"
  shows "copy_bytes D S len old f = copy_bytes (\<lambda>i. D (c + i)) (\<lambda>i. S (c + i)) (len - c) old (copy_bytes D S c old f)"
proof -
  have "[0..<len] = [0..<c] @ map (\<lambda>i. i + c) [0..<len - c]" using assms upt_split [of 0 c len] by (simp add: map_add_upt)
  then show ?thesis by (simp add: copy_bytes_def fold_map comp_def add.commute)
qed

lemma copy_bytes_block:
  assumes "\<And>i. i < n \<Longrightarrow> D i = a + i"
  shows "copy_bytes D S n old f = (\<lambda>k. if a \<le> k \<and> k < a + n then old (S (k - a)) else f k)"
  using assms
proof (induction n)
  case 0
  then show ?case by (auto simp: copy_bytes_def fun_eq_iff)
next
  case (Suc n)
  have "copy_bytes D S (Suc n) old f = (copy_bytes D S n old f)(a + n := old (S n))" using Suc.prems by (simp add: copy_bytes_def)
  then show ?case using Suc by (auto simp: fun_eq_iff less_Suc_eq)
qed

section \<open>Chunks\<close>

lemma in_page:
  assumes "v mod page_size + j < page_size"
  shows "(v + j) div page_size = v div page_size" "(v + j) mod page_size = v mod page_size + j"
proof -
  have v: "page_size * (v div page_size) + v mod page_size = v" by simp
  have "page_size * (v div page_size) \<le> v + j" "v + j < page_size * Suc (v div page_size)"
    unfolding mult_Suc_right using v assms by linarith+
  then show d: "(v + j) div page_size = v div page_size" by (rule div_nat_eqI)
  show "(v + j) mod page_size = v mod page_size + j" using mult_div_mod_eq [of page_size "v + j"] v unfolding d by linarith
qed

lemma translate_page:
  assumes "translate cfg pm v = Ok p" "j < page_size - v mod page_size" "v + j < 2 ^ 64"
  shows "translate cfg pm (v + j) = Ok (p + j)" "p mod page_size = v mod page_size"
proof -
  let ?v = "word_of_nat v :: usize" and ?w = "word_of_nat (v + j) :: usize"
  have u: "unat ?v = v" "unat ?w = v + j" using word_of_nat_eq [of v ?v] word_of_nat_eq [of "v + j" ?w] assms(3) by auto
  have d: "v div page_size = (v + j) div page_size" and m: "(v + j) mod page_size = v mod page_size + j"
    using in_page [of v j] assms(2) by simp_all
  have "translate cfg pm (v + j) = Ok (p + j) \<and> p mod page_size = v mod page_size"
  proof (cases "page_table pm")
    case None
    then show ?thesis using assms(1) u by (simp add: translate_def page_walk_or_def del: of_nat_add)
  next
    case (Some pt)
    from assms(1) Some obtain w where w: "page_walk cfg pm pt ?v = Ok (Some w)" "p = unat w"
      by (auto simp: translate_def page_walk_or_def obind_eq_Ok split: option.splits)
    from page_walk_same_page [OF w(1), of ?w] u d obtain q where q: "page_walk cfg pm pt ?w = Ok (Some q)"
      "unat q div page_size = p div page_size" "p mod page_size = v mod page_size" "unat q mod page_size = (v + j) mod page_size"
      by (auto simp: w(2) simp del: of_nat_add)
    have "unat q = p + j" using div_mult_mod_eq [of "unat q" page_size] div_mult_mod_eq [of p page_size] q(2-4) m by simp
    then show ?thesis using q Some by (simp add: translate_def page_walk_or_def del: of_nat_add)
  qed
  then show "translate cfg pm (v + j) = Ok (p + j)" "p mod page_size = v mod page_size" by auto
qed

lemma apply_snapshot_Ok:
  assumes laws: "shadow_laws ops" and run: "apply_snapshot cfg ops (dst, bytes, shadow_prepare_copy ops source off (length bytes)) pm = Ok pm'"
    and page: "dst mod page_size + length bytes \<le> page_size"
  shows "mem pm' = (\<lambda>k. if dst \<le> k \<and> k < dst + length bytes then bytes ! (k - dst) else mem pm k)"
    "byte_init ops pm' = (\<lambda>k. if dst \<le> k \<and> k < dst + length bytes then shadow_is_init ops source (off + (k - dst)) else byte_init ops pm k)"
    "page_states pm' = page_states pm" "page_table pm' = page_table pm"
proof -
  let ?base = "dst - dst mod page_size" and ?c = "shadow_prepare_copy ops source off (length bytes)"
  from run obtain target where t: "init_masks pm ?base = Some target" and pm': "pm' = pm\<lparr>mem := put_bytes dst bytes (mem pm),
      init_masks := (init_masks pm)(?base \<mapsto> shadow_apply_copy ops target ?c (dst mod page_size) (length bytes))\<rparr>"
    by (auto simp: apply_snapshot_def obind_eq_Ok write_mem_def Let_def split: if_splits)
  show "page_states pm' = page_states pm" "page_table pm' = page_table pm" by (simp_all add: pm')
  show "mem pm' = (\<lambda>k. if dst \<le> k \<and> k < dst + length bytes then bytes ! (k - dst) else mem pm k)" by (simp add: pm' put_bytes_def)
  have law: "shadow_is_init ops (shadow_apply_copy ops target ?c (dst mod page_size) (length bytes)) k =
      (if dst mod page_size \<le> k \<and> k < dst mod page_size + length bytes then shadow_is_init ops source (off + (k - dst mod page_size))
       else shadow_is_init ops target k)" for k
    using laws unfolding shadow_laws_def by metis
  have same: "k - k mod page_size = ?base \<longleftrightarrow> k div page_size = dst div page_size" for k
    by (metis minus_mod_eq_div_mult div_mult_self_is_m mult.commute nonzero_mult_div_cancel_right page_size_def zero_neq_numeral)
  show "byte_init ops pm' = (\<lambda>k. if dst \<le> k \<and> k < dst + length bytes then shadow_is_init ops source (off + (k - dst)) else byte_init ops pm k)"
  proof
    fix k
    show "byte_init ops pm' k = (if dst \<le> k \<and> k < dst + length bytes then shadow_is_init ops source (off + (k - dst)) else byte_init ops pm k)"
    proof (cases "k div page_size = dst div page_size")
      case True
      have k: "k = page_size * (dst div page_size) + k mod page_size" "dst = page_size * (dst div page_size) + dst mod page_size"
        using True by (metis mult_div_mod_eq)+
      then have "dst \<le> k \<longleftrightarrow> dst mod page_size \<le> k mod page_size" "k < dst + length bytes \<longleftrightarrow> k mod page_size < dst mod page_size + length bytes"
        "k - dst = k mod page_size - dst mod page_size" by linarith+
      moreover have "k - k mod page_size = ?base" using True same by blast
      ultimately show ?thesis using t by (simp add: byte_init_def pm' law)
    next
      case False
      have "\<not> (dst \<le> k \<and> k < dst + length bytes)"
      proof
        assume "dst \<le> k \<and> k < dst + length bytes"
        then have "dst div page_size \<le> k div page_size" "k < page_size * (dst div page_size) + page_size"
          using page mult_div_mod_eq [of page_size dst] by (blast intro: div_le_mono, linarith)
        then show False using False by (simp add: page_size_def)
      qed
      then show ?thesis unfolding if_not_P [OF \<open>\<not> (dst \<le> k \<and> k < dst + length bytes)\<close>] using False same by (simp add: byte_init_def pm')
    qed
  qed
qed

lemma copy_check_Ok:
  "copy_check ops pm addr = Ok a \<Longrightarrow> init_masks pm (addr - addr mod page_size) = Some a \<and> addr div page_size < length (page_states pm) \<and>
    page_states pm ! (addr div page_size) = Untyped"
  by (auto simp: copy_check_def split: if_splits option.splits)

text \<open>One chunk: the source bytes and the mask of the memory at the start, copied as single bytes would be.\<close>

lemma chunk_copied:
  assumes laws: "shadow_laws ops"
    and d: "translate cfg pm dst = Ok rd" "\<And>i. i < n \<Longrightarrow> translate cfg pm (dst + i) = Ok (rd + i)" "rd mod page_size + n \<le> page_size"
    and s: "translate cfg pm src = Ok rs" "\<And>i. i < n \<Longrightarrow> translate cfg pm (src + i) = Ok (rs + i)" "rs mod page_size + n \<le> page_size"
    and a: "init_masks pm (rs - rs mod page_size) = Some a" and bytes: "bytes = map (mem pm) [rs..<rs + n]"
    and run: "apply_snapshot cfg ops (rd, bytes, shadow_prepare_copy ops a (rs mod page_size) n) pm1 = Ok pm2"
  shows "mem pm2 = copy_bytes (\<lambda>i. tr cfg pm (dst + i)) (\<lambda>i. tr cfg pm (src + i)) n (mem pm) (mem pm1)"
    "byte_init ops pm2 = copy_bytes (\<lambda>i. tr cfg pm (dst + i)) (\<lambda>i. tr cfg pm (src + i)) n (byte_init ops pm) (byte_init ops pm1)"
    "page_states pm2 = page_states pm1" "page_table pm2 = page_table pm1"
proof -
  have n: "length bytes = n" by (simp add: bytes)
  note ap = apply_snapshot_Ok [OF laws, where bytes = bytes, unfolded n, OF run d(3)]
  show "page_states pm2 = page_states pm1" "page_table pm2 = page_table pm1" by (rule ap)+
  have D: "tr cfg pm (dst + i) = rd + i" and S: "tr cfg pm (src + i) = rs + i" if "i < n" for i
    using d(2) [OF that] s(2) [OF that] by (simp_all add: tr_def)
  have "bytes ! (k - rd) = mem pm (tr cfg pm (src + (k - rd)))" if "rd \<le> k" "k < rd + n" for k
    using that S [of "k - rd"] by (simp add: bytes)
  then show "mem pm2 = copy_bytes (\<lambda>i. tr cfg pm (dst + i)) (\<lambda>i. tr cfg pm (src + i)) n (mem pm) (mem pm1)"
    unfolding ap(1) by (subst copy_bytes_block [of n _ rd]) (auto simp: D)
  have init: "shadow_is_init ops a (rs mod page_size + i) = byte_init ops pm (tr cfg pm (src + i))" if i: "i < n" for i
  proof -
    have "(rs + i) mod page_size = rs mod page_size + i" using in_page(2) [of rs i] s(3) i by simp
    moreover from this have "rs + i - (rs + i) mod page_size = rs - rs mod page_size" by simp
    ultimately show ?thesis using a S [OF i] by (simp add: byte_init_def)
  qed
  have "shadow_is_init ops a (rs mod page_size + (k - rd)) = byte_init ops pm (tr cfg pm (src + (k - rd)))" if "rd \<le> k" "k < rd + n" for k
    using that by (intro init) simp
  then show "byte_init ops pm2 = copy_bytes (\<lambda>i. tr cfg pm (dst + i)) (\<lambda>i. tr cfg pm (src + i)) n (byte_init ops pm) (byte_init ops pm1)"
    unfolding ap(2) by (subst copy_bytes_block [of n _ rd]) (auto simp: D)
qed

lemma copy_snapshots_step:
  assumes "copy_snapshots cfg ops pm dst src len = Ok snaps" "len \<noteq> 0"
  obtains rd rs a b rest where "translate cfg pm dst = Ok rd" "translate cfg pm src = Ok rs" "copy_check ops pm rs = Ok a" "copy_check ops pm rd = Ok b"
    "rs mod page_size + copy_chunk dst src len \<le> page_size"
    "copy_snapshots cfg ops pm (dst + copy_chunk dst src len) (src + copy_chunk dst src len) (len - copy_chunk dst src len) = Ok rest"
    "snaps = (rd, map (mem pm) [rs..<rs + copy_chunk dst src len], shadow_prepare_copy ops a (rs mod page_size) (copy_chunk dst src len)) # rest"
proof -
  have "rs - rs mod page_size + rs mod page_size = rs" for rs by simp
  with assms that show ?thesis
    unfolding copy_snapshots.simps [of cfg ops pm dst src len] by (auto simp: obind_eq_Ok Let_def shadow_bytes_def split: if_splits)
qed

lemma snapshots_copied:
  assumes "shadow_laws ops" "copy_snapshots cfg ops pm dst src len = Ok snaps" "dst + len < 2 ^ 64" "src + len < 2 ^ 64"
    "ofold (apply_snapshot cfg ops) snaps pm1 = Ok pm2"
  shows "(\<forall>i<len. translate cfg pm (dst + i) = Ok (tr cfg pm (dst + i)) \<and> translate cfg pm (src + i) = Ok (tr cfg pm (src + i))) \<and>
    (\<forall>i<len. page_states pm ! (tr cfg pm (dst + i) div page_size) = Untyped) \<and>
    mem pm2 = copy_bytes (\<lambda>i. tr cfg pm (dst + i)) (\<lambda>i. tr cfg pm (src + i)) len (mem pm) (mem pm1) \<and>
    byte_init ops pm2 = copy_bytes (\<lambda>i. tr cfg pm (dst + i)) (\<lambda>i. tr cfg pm (src + i)) len (byte_init ops pm) (byte_init ops pm1) \<and>
    page_states pm2 = page_states pm1 \<and> page_table pm2 = page_table pm1"
  using assms(2-5)
proof (induction len arbitrary: dst src snaps pm1 rule: less_induct)
  case (less len)
  show ?case
  proof (cases "len = 0")
    case True
    then show ?thesis using less.prems by (simp add: copy_snapshots.simps copy_bytes_def)
  next
    case False
    let ?n = "copy_chunk dst src len"
    have n: "?n \<le> len" "?n \<le> page_size - dst mod page_size" "?n \<le> page_size - src mod page_size" by (auto simp: copy_chunk_def)
    obtain rd rs a b rest where t: "translate cfg pm dst = Ok rd" "translate cfg pm src = Ok rs" and ck: "copy_check ops pm rs = Ok a" "copy_check ops pm rd = Ok b"
      and fit: "rs mod page_size + ?n \<le> page_size" and rest: "copy_snapshots cfg ops pm (dst + ?n) (src + ?n) (len - ?n) = Ok rest"
      and snaps: "snaps = (rd, map (mem pm) [rs..<rs + ?n], shadow_prepare_copy ops a (rs mod page_size) ?n) # rest"
      by (rule copy_snapshots_step [OF less.prems(1) False])
    obtain pm' where ap: "apply_snapshot cfg ops (rd, map (mem pm) [rs..<rs + ?n], shadow_prepare_copy ops a (rs mod page_size) ?n) pm1 = Ok pm'"
      and ap': "ofold (apply_snapshot cfg ops) rest pm' = Ok pm2" using less.prems(4) by (auto simp: snaps obind_eq_Ok)
    have td: "translate cfg pm (dst + i) = Ok (rd + i)" "translate cfg pm (src + i) = Ok (rs + i)" if "i < ?n" for i
      using translate_page(1) [OF t(1), of i] translate_page(1) [OF t(2), of i] that n less.prems(2,3) by simp_all
    have fd: "rd mod page_size + ?n \<le> page_size" using translate_page(2) [OF t(1), of 0] n(2) less.prems(2) by (simp add: page_size_def)
    note ch = chunk_copied [OF assms(1) t(1) td(1) fd t(2) td(2) fit _ refl ap]
    have ch: "mem pm' = copy_bytes (\<lambda>i. tr cfg pm (dst + i)) (\<lambda>i. tr cfg pm (src + i)) ?n (mem pm) (mem pm1)"
      "byte_init ops pm' = copy_bytes (\<lambda>i. tr cfg pm (dst + i)) (\<lambda>i. tr cfg pm (src + i)) ?n (byte_init ops pm) (byte_init ops pm1)"
      "page_states pm' = page_states pm1" "page_table pm' = page_table pm1"
      using copy_check_Ok [OF ck(1)] by (auto intro!: ch)
    have "len - ?n < len" using copy_chunk_pos [OF False, of dst src] False by simp
    note IH = less.IH [OF this rest _ _ ap']
    let ?D = "\<lambda>i. tr cfg pm (dst + i)" and ?S = "\<lambda>i. tr cfg pm (src + i)"
    have split: "(\<forall>i<len. P i) \<longleftrightarrow> (\<forall>i<?n. P i) \<and> (\<forall>i<len - ?n. P (?n + i))" for P
    proof (intro iffI conjI allI impI)
      show "P i" if "(\<forall>i<?n. P i) \<and> (\<forall>i<len - ?n. P (?n + i))" "i < len" for i
        using that by (cases "i < ?n") (simp, metis diff_less_mono le_add_diff_inverse linorder_not_less)
    qed (use n(1) in auto)
    have first: "\<forall>i<?n. translate cfg pm (dst + i) = Ok (?D i) \<and> translate cfg pm (src + i) = Ok (?S i) \<and> page_states pm ! (?D i div page_size) = Untyped"
    proof (intro allI impI)
      fix i
      assume i: "i < ?n"
      have "(rd + i) div page_size = rd div page_size" using in_page(1) [of rd i] fd i by simp
      then show "translate cfg pm (dst + i) = Ok (?D i) \<and> translate cfg pm (src + i) = Ok (?S i) \<and> page_states pm ! (?D i div page_size) = Untyped"
        using td [OF i] copy_check_Ok [OF ck(2)] by (simp add: tr_def)
    qed
    show ?thesis unfolding split copy_bytes_split [OF n(1), of ?D] using first IH less.prems(2,3) n(1) ch by (simp add: add.assoc)
  qed
qed

section \<open>Properties\<close>

text \<open>C36: a copy that succeeds has the effect of copying single bytes in order, each source byte and each destination byte
  translated on its own and every source byte read from the memory before the copy, so overlapping ranges and pages
  that are mapped twice do not disturb it. It copies which bytes are initialized in the same way, writes to untyped
  pages only, and changes nothing else.\<close>

theorem physical_copy_exact:
  assumes "shadow_laws ops" "physical_copy cfg ops dst src len pm = Ok pm'"
  shows "(\<forall>i<len. translate cfg pm (dst + i) = Ok (tr cfg pm (dst + i)) \<and> translate cfg pm (src + i) = Ok (tr cfg pm (src + i))) \<and>
    (\<forall>i<len. page_states pm ! (tr cfg pm (dst + i) div page_size) = Untyped) \<and>
    mem pm' = copy_bytes (\<lambda>i. tr cfg pm (dst + i)) (\<lambda>i. tr cfg pm (src + i)) len (mem pm) (mem pm) \<and>
    byte_init ops pm' = copy_bytes (\<lambda>i. tr cfg pm (dst + i)) (\<lambda>i. tr cfg pm (src + i)) len (byte_init ops pm) (byte_init ops pm) \<and>
    page_states pm' = page_states pm \<and> page_table pm' = page_table pm"
proof -
  from assms(2) obtain snaps where "dst + len < 2 ^ 64" "src + len < 2 ^ 64" "copy_snapshots cfg ops pm dst src len = Ok snaps"
    "ofold (apply_snapshot cfg ops) snaps pm = Ok pm'" by (auto simp: physical_copy_def obind_eq_Ok split: if_splits)
  from snapshots_copied [OF assms(1) this(3,1,2,4)] show ?thesis .
qed

text \<open>Shadows that are sets of initialized offsets.\<close>

definition set_shadows :: "(nat \<Rightarrow> bool, nat \<Rightarrow> bool) shadow_ops" where
  "set_shadows = \<lparr>shadow_uninit = (\<lambda>_. False), shadow_has_provenance = (\<lambda>_. False),
     shadow_prepare_copy = (\<lambda>s src n k. s (src + k)), shadow_apply_copy = (\<lambda>t c dst n k. if dst \<le> k \<and> k < dst + n then c (k - dst) else t k),
     shadow_overwrite = (\<lambda>t dst n k. dst \<le> k \<and> k < dst + n \<or> t k), shadow_is_init = (\<lambda>s. s)\<rparr>"

lemma set_shadows_laws: "shadow_laws set_shadows"
  by (auto simp: shadow_laws_def set_shadows_def)

text \<open>Two bytes written across a page boundary, then an overlapping copy by one byte.\<close>

definition copy_demo :: "(phys_error, (nat \<Rightarrow> bool) PhysicalMemory) outcome" where
  "copy_demo =
     obind (alloc_pages small_config set_shadows 0x1000 2 (PhysicalMemory_new small_config True))
     (physical_write_bytes small_config set_shadows 0x1ffe [1, 2, 3])"

lemma copy_demo_runs: "obind copy_demo (\<lambda>pm. obind (physical_copy small_config set_shadows 0x1fff 0x1ffe 3 pm) (\<lambda>pm'.
    Ok (map (mem pm') [0x1ffe..<0x2002] = [1, 1, 2, 3] \<and> map (byte_init set_shadows pm') [0x1ffd..<0x2003] = [False, True, True, True, True, False]))) = Ok True"
  by code_simp

theorem physical_copy_exact_witness:
  "\<exists>pm pm'. copy_demo = Ok pm \<and> physical_copy small_config set_shadows 0x1fff 0x1ffe 3 pm = Ok pm' \<and>
    map (mem pm') [0x1ffe..<0x2002] = [1, 1, 2, 3] \<and>
    mem pm' = copy_bytes (\<lambda>i. tr small_config pm (0x1fff + i)) (\<lambda>i. tr small_config pm (0x1ffe + i)) 3 (mem pm) (mem pm)"
proof -
  from copy_demo_runs obtain pm pm' where a: "copy_demo = Ok pm" "physical_copy small_config set_shadows 0x1fff 0x1ffe 3 pm = Ok pm'"
    "map (mem pm') [0x1ffe..<0x2002] = [1, 1, 2, 3]" by (auto simp: obind_eq_Ok)
  have "mem pm' = copy_bytes (\<lambda>i. tr small_config pm (0x1fff + i)) (\<lambda>i. tr small_config pm (0x1ffe + i)) 3 (mem pm) (mem pm)"
    using physical_copy_exact [OF set_shadows_laws a(2)] by (elim conjE)
  with a show ?thesis by (intro exI conjI)
qed

end
