(* ===== verification/Reuse_Pool.thy ===== *)
theory Reuse_Pool
  imports Mirch Binary_Search Race_State "HOL-Library.Multiset"
begin

text \<open>
  Base addresses for allocations (\<open>src/src/alloc_addresses/address_generator.rs\<close>) and the pool of addresses that can be
  reused (\<open>reuse_pool.rs\<close>). Draws of the random number generator are arguments: the slack of a new address, whether
  an address is remembered or taken, whether addresses of other threads may be taken, and which of several fitting
  addresses is chosen. The two probabilities of the pool only serve these draws and are left out.
\<close>

section \<open>Fresh addresses\<close>

text \<open>Rounding up: the addition is checked (\<open>strict_add\<close>).\<close>

definition align_addr :: "nat \<Rightarrow> nat \<Rightarrow> ('e, nat) outcome" where
  "align_addr addr align =
     obind (check (align \<noteq> 0)) (\<lambda>_.
     if addr mod align = 0 then Ok addr else obind (add_u64 addr align) (\<lambda>n. Ok (n - addr mod align)))"

definition checked_add :: "nat \<Rightarrow> nat \<Rightarrow> (phys_error, nat) outcome" where
  "checked_add a b = (if a + b < 2 ^ 64 then Ok (a + b) else Err AddressSpaceFull)"

record AddressGenerator =
  next_base_addr :: nat
  gen_end :: nat

definition AddressGenerator_new :: "nat \<Rightarrow> nat \<Rightarrow> AddressGenerator" where
  "AddressGenerator_new a b = \<lparr>next_base_addr = a, gen_end = b\<rparr>"

definition get_remaining :: "AddressGenerator \<Rightarrow> nat \<times> nat" where
  "get_remaining self = (next_base_addr self, gen_end self)"

definition generate :: "nat \<Rightarrow> nat \<Rightarrow> nat \<Rightarrow> AddressGenerator \<Rightarrow> (phys_error, AddressGenerator \<times> nat) outcome" where
  "generate slack sz align self =
     obind (checked_add (next_base_addr self) slack) (\<lambda>base_addr.
     obind (align_addr base_addr align) (\<lambda>base_addr.
     obind (checked_add base_addr (max sz 1)) (\<lambda>next.
     if gen_end self < next then Err AddressSpaceFull else Ok (self\<lparr>next_base_addr := next\<rparr>, base_addr))))"

section \<open>The pool\<close>

definition MAX_POOL_SIZE :: nat where
  "MAX_POOL_SIZE = 64"

text \<open>Entries: address, size, thread and clock of the thread that freed it. Subpool \<open>i\<close> is for alignment \<open>2 ^ i\<close>.\<close>

type_synonym pool_entry = "nat \<times> nat \<times> ThreadId \<times> VClock"

type_synonym ReusePool = "pool_entry list list"

definition ReusePool_new :: ReusePool where
  "ReusePool_new = []"

definition entry_size :: "pool_entry \<Rightarrow> nat" where
  "entry_size e = fst (snd e)"

definition entry_thread :: "pool_entry \<Rightarrow> ThreadId" where
  "entry_thread e = fst (snd (snd e))"

function trailing_zeros :: "nat \<Rightarrow> nat" where
  "trailing_zeros n = (if n = 0 \<or> odd n then 0 else Suc (trailing_zeros (n div 2)))"
  by pat_completeness auto
termination
  by (relation "measure (\<lambda>n. n)") (auto elim!: oddE)

declare trailing_zeros.simps [simp del]

text \<open>\<open>subpool\<close> extends the pool; the subpool itself is the one at the returned index.\<close>

definition subpool :: "ReusePool \<Rightarrow> nat \<Rightarrow> ReusePool \<times> nat" where
  "subpool pool align =
     (let pool_idx = trailing_zeros align
      in (if length pool \<le> pool_idx then pool @ replicate (pool_idx + 1 - length pool) [] else pool, pool_idx))"

text \<open>\<open>slice::partition_point\<close>\<close>

definition partition_point :: "('a \<Rightarrow> bool) \<Rightarrow> 'a list \<Rightarrow> nat" where
  "partition_point P xs = (case binary_search_by (\<lambda>x. if P x then Less else Greater) xs of Inl i \<Rightarrow> i | Inr i \<Rightarrow> i)"

definition pool_before :: "nat \<times> ThreadId \<times> bool \<Rightarrow> pool_entry \<Rightarrow> bool" where
  "pool_before k e \<longleftrightarrow>
     (case k of (sz, thread, cross) \<Rightarrow> entry_size e < sz \<or> (entry_size e = sz \<and> \<not> cross \<and> entry_thread e < thread))"

definition add_addr :: "bool \<Rightarrow> nat \<Rightarrow> nat \<Rightarrow> nat \<Rightarrow> bool \<Rightarrow> ThreadId \<Rightarrow> VClock \<Rightarrow> ReusePool \<Rightarrow> ReusePool" where
  "add_addr remember addr sz align is_stack thread vc pool =
     (if is_stack \<or> \<not> remember then pool
      else let (pool, i) = subpool pool align; sub = pool ! i;
               pos = partition_point (pool_before (sz, thread, False)) sub
           in if length sub \<ge> MAX_POOL_SIZE
              then pool[i := sub[min pos (length sub - 1) := (addr, sz, thread, vc)]]
              else pool[i := take pos sub @ (addr, sz, thread, vc) # drop pos sub])"

text \<open>The scan for the end of the fitting entries, from position \<open>begin\<close>.\<close>

definition fitting :: "nat \<Rightarrow> ThreadId \<Rightarrow> bool \<Rightarrow> pool_entry \<Rightarrow> bool" where
  "fitting sz thread cross e \<longleftrightarrow> entry_size e = sz \<and> (cross \<or> entry_thread e = thread)"

definition fitting_end :: "nat \<Rightarrow> ThreadId \<Rightarrow> bool \<Rightarrow> pool_entry list \<Rightarrow> nat \<Rightarrow> nat" where
  "fitting_end sz thread cross sub b = b + length (takeWhile (fitting sz thread cross) (drop b sub))"

text \<open>\<open>choice\<close> stands for the draw of an index of the range \<open>begin..end\<close>.\<close>

definition take_addr ::
  "bool \<Rightarrow> bool \<Rightarrow> (nat \<Rightarrow> nat \<Rightarrow> nat) \<Rightarrow> nat \<Rightarrow> nat \<Rightarrow> bool \<Rightarrow> ThreadId \<Rightarrow> ReusePool \<Rightarrow> ReusePool \<times> (nat \<times> VClock option) option" where
  "take_addr attempt cross choice sz align is_stack thread pool =
     (if is_stack \<or> \<not> attempt then (pool, None)
      else let (pool, i) = subpool pool align; sub = pool ! i;
               b = partition_point (pool_before (sz, thread, cross)) sub;
               e = fitting_end sz thread cross sub b
           in if e = b then (pool, None)
              else let idx = choice b e; (addr, _, chosen_thread, vc) = sub ! idx
                   in (pool[i := take idx sub @ drop (Suc idx) sub], Some (addr, if chosen_thread = thread then None else Some vc)))"

section \<open>Fresh addresses are apart\<close>

lemma align_addr_Ok:
  assumes "align_addr addr align = Ok a"
  shows "addr \<le> a" "a < addr + align" "align dvd a"
proof -
  have al: "align \<noteq> 0" using assms by (auto simp: align_addr_def split: if_splits)
  have "addr \<le> a \<and> a < addr + align \<and> align dvd a"
  proof (cases "addr mod align = 0")
    case True
    then show ?thesis using assms al by (auto simp: align_addr_def)
  next
    case False
    then have a: "a = addr + align - addr mod align" using assms al by (auto simp: align_addr_def add_u64_def split: if_splits)
    have m: "addr mod align < align" "addr mod align \<le> addr" using al by simp_all
    have "a = addr div align * align + align" unfolding a using m div_mult_mod_eq [of addr align] by linarith
    then show ?thesis using False m a by auto
  qed
  then show "addr \<le> a" "a < addr + align" "align dvd a" by blast+
qed

lemma generate_Ok:
  assumes "generate slack sz align self = Ok (self', a)"
  shows "next_base_addr self \<le> a" "align dvd a" "next_base_addr self' = a + max sz 1" "next_base_addr self' \<le> gen_end self"
    "gen_end self' = gen_end self"
proof -
  from assms have a: "align_addr (next_base_addr self + slack) align = (Ok a :: (phys_error, nat) outcome)" and "self' = self\<lparr>next_base_addr := a + max sz 1\<rparr>" "a + max sz 1 \<le> gen_end self"
    by (auto simp: generate_def checked_add_def obind_eq_Ok split: if_splits)
  then show "next_base_addr self' = a + max sz 1" "next_base_addr self' \<le> gen_end self" "gen_end self' = gen_end self" by simp_all
  show "next_base_addr self \<le> a" "align dvd a" using align_addr_Ok(1,3) [OF a] by auto
qed

text \<open>A sequence of requests and the ranges that they return.\<close>

fun generate_all :: "(nat \<times> nat \<times> nat) list \<Rightarrow> AddressGenerator \<Rightarrow> (phys_error, AddressGenerator \<times> (nat \<times> nat) list) outcome" where
  "generate_all [] self = Ok (self, [])"
| "generate_all ((slack, sz, align) # reqs) self =
     obind (generate slack sz align self) (\<lambda>(self, a).
     obind (generate_all reqs self) (\<lambda>(self, as). Ok (self, (a, max sz 1) # as)))"

lemma generate_all_apart:
  "generate_all reqs self = Ok (self', as) \<Longrightarrow>
    sorted_wrt (\<lambda>(a, n) (b, m). a + n \<le> b) as \<and> (\<forall>(a, n)\<in>set as. next_base_addr self \<le> a \<and> a + n \<le> gen_end self \<and> 0 < n) \<and>
    list_all2 (\<lambda>(slack, sz, align) (a, n). align dvd a \<and> n = max sz 1) reqs as"
proof (induction reqs self arbitrary: self' as rule: generate_all.induct)
  case (2 slack sz align reqs self)
  then obtain self1 a as1 where g: "generate slack sz align self = Ok (self1, a)" "generate_all reqs self1 = Ok (self', as1)"
    and as: "as = (a, max sz 1) # as1" by (auto simp: obind_eq_Ok)
  note a = generate_Ok [OF g(1)]
  from "2.IH" [OF g(1) refl g(2)] a show ?case unfolding as by fastforce
qed simp

section \<open>The order of the pool\<close>

definition entry_le :: "pool_entry \<Rightarrow> pool_entry \<Rightarrow> bool" where
  "entry_le e f \<longleftrightarrow> entry_size e < entry_size f \<or> entry_size e = entry_size f \<and> entry_thread e \<le> entry_thread f"

interpretation pool_slice: ordered_slice "\<lambda>k e. if pool_before k e then Less else Greater" "sorted_wrt entry_le"
proof
  fix xs :: "pool_entry list" and i j k
  assume "sorted_wrt entry_le xs" "i < j" "j < length xs"
  then have "entry_le (xs ! i) (xs ! j)" by (rule sorted_wrt_nth_less)
  then show "(if pool_before k (xs ! i) then Less else Greater) = Less \<or> (if pool_before k (xs ! j) then Less else Greater) = Greater"
    by (auto simp: pool_before_def entry_le_def split: prod.splits)
qed

lemma partition_point_pool:
  assumes "sorted_wrt entry_le sub"
  shows "partition_point (pool_before k) sub \<le> length sub" "j < partition_point (pool_before k) sub \<Longrightarrow> pool_before k (sub ! j)"
    "partition_point (pool_before k) sub \<le> j \<Longrightarrow> j < length sub \<Longrightarrow> \<not> pool_before k (sub ! j)"
proof -
  let ?s = "binary_search_by (\<lambda>x. if pool_before k x then Less else Greater) sub"
  obtain i where s: "?s = Inl i"
  proof (cases ?s)
    case (Inr i)
    from pool_slice.search_found [OF assms this] show ?thesis by (simp split: if_splits)
  qed auto
  from pool_slice.search_not_found [OF assms s] show "partition_point (pool_before k) sub \<le> length sub"
    "j < partition_point (pool_before k) sub \<Longrightarrow> pool_before k (sub ! j)"
    "partition_point (pool_before k) sub \<le> j \<Longrightarrow> j < length sub \<Longrightarrow> \<not> pool_before k (sub ! j)"
    by (auto simp: partition_point_def s split: if_splits)
qed

definition pool_inv :: "ReusePool \<Rightarrow> bool" where
  "pool_inv pool \<longleftrightarrow> (\<forall>i<length pool. sorted_wrt entry_le (pool ! i) \<and> length (pool ! i) \<le> MAX_POOL_SIZE \<and> (\<forall>e\<in>set (pool ! i). 2 ^ i dvd fst e))"

lemma subpool_inv:
  assumes "pool_inv pool" "subpool pool align = (pool', i)"
  shows "pool_inv pool'" "i < length pool'" "i = trailing_zeros align" "concat pool' = concat pool"
proof -
  show i: "i = trailing_zeros align" using assms(2) by (auto simp: subpool_def Let_def)
  have p: "pool' = pool \<or> pool' = pool @ replicate (i + 1 - length pool) []" and len: "i < length pool'"
    using assms(2) by (auto simp: subpool_def Let_def)
  show "i < length pool'" by (rule len)
  show "pool_inv pool'" using assms(1) p by (fastforce simp: pool_inv_def nth_append split: if_splits)
  have "concat (replicate n []) = ([] :: pool_entry list)" for n by (induction n) auto
  then show "concat pool' = concat pool" using p by auto
qed

lemma pool_inv_put:
  assumes "pool_inv pool" "i < length pool" "sorted_wrt entry_le sub" "length sub \<le> MAX_POOL_SIZE" "\<forall>e\<in>set sub. 2 ^ i dvd fst e"
  shows "pool_inv (pool[i := sub])"
  using assms by (auto simp: pool_inv_def nth_list_update)

lemma sorted_insert:
  assumes "sorted_wrt R xs" "\<And>j. j < pos \<Longrightarrow> R (xs ! j) x" "\<And>j. pos \<le> j \<Longrightarrow> j < length xs \<Longrightarrow> R x (xs ! j)" "pos \<le> length xs"
  shows "sorted_wrt R (take pos xs @ x # drop pos xs)"
proof -
  have "sorted_wrt R (take pos xs @ drop pos xs)" using assms(1) by simp
  then have "sorted_wrt R (take pos xs)" "sorted_wrt R (drop pos xs)" "\<forall>a\<in>set (take pos xs). \<forall>b\<in>set (drop pos xs). R a b"
    unfolding sorted_wrt_append by blast+
  moreover have "\<forall>a\<in>set (take pos xs). R a x" using assms(2,4) by (auto simp: in_set_conv_nth)
  moreover have "\<forall>b\<in>set (drop pos xs). R x b" using assms(3) by (auto simp: in_set_conv_nth)
  ultimately show ?thesis unfolding sorted_wrt_append sorted_wrt.simps by auto
qed

lemma sorted_replace:
  assumes "sorted_wrt R xs" "\<And>j. j < pos \<Longrightarrow> R (xs ! j) x" "\<And>j. pos < j \<Longrightarrow> j < length xs \<Longrightarrow> R x (xs ! j)" "pos < length xs"
  shows "sorted_wrt R (xs[pos := x])"
  using assms unfolding sorted_wrt_iff_nth_less by (auto simp: nth_list_update)

lemma add_addr_inv:
  assumes inv: "pool_inv pool" and al: "2 ^ trailing_zeros align dvd addr"
  shows "pool_inv (add_addr remember addr sz align is_stack thread vc pool)"
proof (cases "is_stack \<or> \<not> remember")
  case True
  then show ?thesis using inv by (auto simp: add_addr_def)
next
  case False
  obtain pool' i where sp: "subpool pool align = (pool', i)" by fastforce
  note s = subpool_inv [OF inv sp]
  let ?sub = "pool' ! i" and ?x = "(addr, sz, thread, vc)"
  let ?pos = "partition_point (pool_before (sz, thread, False)) ?sub"
  have sub: "sorted_wrt entry_le ?sub" "length ?sub \<le> MAX_POOL_SIZE" "\<forall>e\<in>set ?sub. 2 ^ i dvd fst e" using s(1,2) by (auto simp: pool_inv_def)
  note pp = partition_point_pool [OF sub(1), where k = "(sz, thread, False)"]
  have le: "entry_le (?sub ! j) ?x" if "j < ?pos" for j
    using pp(2) [OF that] by (auto simp: pool_before_def entry_le_def entry_size_def entry_thread_def)
  have ge: "entry_le ?x (?sub ! j)" if "?pos \<le> j" "j < length ?sub" for j
    using pp(3) [OF that] by (auto simp: pool_before_def entry_le_def entry_size_def entry_thread_def)
  show ?thesis
  proof (cases "length ?sub \<ge> MAX_POOL_SIZE")
    case True
    let ?p = "min ?pos (length ?sub - 1)"
    have "?p < length ?sub" using True by (auto simp: MAX_POOL_SIZE_def)
    then have "sorted_wrt entry_le (?sub[?p := ?x])" using sub(1) le ge by (intro sorted_replace) auto
    moreover have "\<forall>e\<in>set (?sub[?p := ?x]). 2 ^ i dvd fst e" using sub(3) al s(3) set_update_subset_insert [of ?sub ?p ?x] by auto
    ultimately have "pool_inv (pool'[i := ?sub[?p := ?x]])" using s(1,2) sub(2) by (intro pool_inv_put) auto
    then show ?thesis using False True sp by (simp add: add_addr_def Let_def)
  next
    case not_full: False
    have "sorted_wrt entry_le (take ?pos ?sub @ ?x # drop ?pos ?sub)" using sub(1) le ge pp(1) by (intro sorted_insert) auto
    moreover have "\<forall>e\<in>set (take ?pos ?sub @ ?x # drop ?pos ?sub). 2 ^ i dvd fst e"
      using sub(3) al s(3) by (auto dest: in_set_takeD in_set_dropD)
    ultimately have "pool_inv (pool'[i := take ?pos ?sub @ ?x # drop ?pos ?sub])" using s(1,2) not_full by (intro pool_inv_put) auto
    then show ?thesis using False not_full sp by (simp add: add_addr_def Let_def)
  qed
qed

section \<open>Taking an address\<close>

text \<open>The entries between the partition point and the end of the scan are exactly those that fit.\<close>

lemma fitting_slice:
  fixes sz thread cross
  assumes "sorted_wrt entry_le sub"
  defines "b \<equiv> partition_point (pool_before (sz, thread, cross)) sub" and "e \<equiv> fitting_end sz thread cross sub (partition_point (pool_before (sz, thread, cross)) sub)"
  shows "j < length sub \<Longrightarrow> fitting sz thread cross (sub ! j) \<longleftrightarrow> b \<le> j \<and> j < e" "e \<le> length sub"
proof -
  let ?F = "fitting sz thread cross"
  note pp = partition_point_pool [OF assms(1), where k = "(sz, thread, cross)"]
  have e: "e = b + length (takeWhile ?F (drop b sub))" by (simp add: e_def fitting_end_def b_def)
  have "length (takeWhile ?F (drop b sub)) \<le> length (drop b sub)" by (rule length_takeWhile_le)
  then show le: "e \<le> length sub" using pp(1) by (simp add: e b_def)
  show "?F (sub ! j) \<longleftrightarrow> b \<le> j \<and> j < e" if j: "j < length sub"
  proof (cases "b \<le> j")
    case False
    then have "pool_before (sz, thread, cross) (sub ! j)" using pp(2) [of j] by (simp add: b_def)
    then show ?thesis using False by (auto simp: pool_before_def fitting_def)
  next
    case True
    show ?thesis
    proof (cases "j < e")
      case True
      then have "j - b < length (takeWhile ?F (drop b sub))" using \<open>b \<le> j\<close> e by simp
      then have "?F (takeWhile ?F (drop b sub) ! (j - b))" by (metis nth_mem set_takeWhileD)
      moreover have "takeWhile ?F (drop b sub) ! (j - b) = sub ! j"
        using takeWhile_nth [OF \<open>j - b < length (takeWhile ?F (drop b sub))\<close>] \<open>b \<le> j\<close> j by simp
      ultimately show ?thesis using \<open>b \<le> j\<close> True by simp
    next
      case False
      let ?n = "length (takeWhile ?F (drop b sub))"
      have n: "?n < length (drop b sub)" using False j e by simp
      from nth_length_takeWhile [OF n] have no: "\<not> ?F (sub ! e)" using e pp(1) by (simp add: b_def)
      have "e < length sub" "b \<le> e" using n e by simp_all
      then have ge: "\<not> pool_before (sz, thread, cross) (sub ! e)" using pp(3) by (simp add: b_def)
      have "e = j \<or> entry_le (sub ! e) (sub ! j)" using False j sorted_wrt_nth_less [OF assms(1), of e j] by (cases "e = j") auto
      then have "\<not> ?F (sub ! j)" using no ge pp(3) [of j] \<open>b \<le> j\<close> j
        by (cases cross) (auto simp: fitting_def pool_before_def entry_le_def b_def)
      then show ?thesis using False by simp
    qed
  qed
qed

lemma mset_remove: "i < length xs \<Longrightarrow> mset (take i xs @ drop (Suc i) xs) = mset xs - {#xs ! i#}"
  by (metis add_mset_remove_trivial id_take_nth_drop mset_append mset.simps(2) union_mset_add_mset_right)

lemma concat_update:
  "i < length xss \<Longrightarrow> mset (concat (xss[i := ys])) + mset (xss ! i) = mset (concat xss) + mset ys"
proof -
  assume "i < length xss"
  then have x: "xss = take i xss @ xss ! i # drop (Suc i) xss" "xss[i := ys] = take i xss @ ys # drop (Suc i) xss"
    by (rule id_take_nth_drop, rule upd_conv_take_nth_drop)
  have c: "mset (concat (take i xss @ z # drop (Suc i) xss)) = mset (concat (take i xss)) + mset z + mset (concat (drop (Suc i) xss))" for z by simp
  have "mset (concat xss) = mset (concat (take i xss)) + mset (xss ! i) + mset (concat (drop (Suc i) xss))"
    using arg_cong [OF x(1), of "\<lambda>z. mset (concat z)"] unfolding c .
  then show ?thesis unfolding x(2) c by simp
qed

section \<open>What the pool holds\<close>

text \<open>The abstract view of the pool: its entries with their alignment.\<close>

definition tagged :: "ReusePool \<Rightarrow> (nat \<times> pool_entry) list list" where
  "tagged pool = map (\<lambda>i. map (Pair (2 ^ i)) (pool ! i)) [0..<length pool]"

definition pool_entries :: "ReusePool \<Rightarrow> (nat \<times> pool_entry) multiset" where
  "pool_entries pool = mset (concat (tagged pool))"

lemma tagged_update: "i < length pool \<Longrightarrow> tagged (pool[i := ys]) = (tagged pool)[i := map (Pair (2 ^ i)) ys]"
  by (rule nth_equalityI) (auto simp: tagged_def nth_list_update)

lemma pool_entries_update:
  assumes "i < length pool"
  shows "pool_entries (pool[i := ys]) + image_mset (Pair (2 ^ i)) (mset (pool ! i)) = pool_entries pool + image_mset (Pair (2 ^ i)) (mset ys)"
proof -
  have len: "i < length (tagged pool)" and at: "tagged pool ! i = map (Pair (2 ^ i)) (pool ! i)" using assms by (simp_all add: tagged_def)
  show ?thesis using concat_update [OF len, of "map (Pair (2 ^ i)) ys"] by (simp only: pool_entries_def tagged_update [OF assms] at mset_map)
qed

lemma pool_entries_member:
  assumes "i < length pool" "e \<in> set (pool ! i)"
  shows "(2 ^ i, e) \<in># pool_entries pool"
  using assms by (auto simp: pool_entries_def tagged_def)

lemma pool_entries_subpool:
  assumes "subpool pool align = (pool', i)"
  shows "pool_entries pool' = pool_entries pool"
proof -
  have "tagged (pool @ replicate n []) = tagged pool @ replicate n []" for n
    by (rule nth_equalityI) (auto simp: tagged_def nth_append)
  moreover have "concat (replicate n []) = ([] :: (nat \<times> pool_entry) list)" for n by (induction n) auto
  ultimately show ?thesis using assms by (auto simp: subpool_def pool_entries_def Let_def split: if_splits)
qed

lemma trailing_zeros_power [simp]: "trailing_zeros (2 ^ k) = k"
proof (induction k)
  case 0
  show ?case by (subst trailing_zeros.simps) simp
next
  case (Suc k)
  then show ?case by (subst trailing_zeros.simps) simp
qed

lemma pool_entries_add:
  assumes "i < length pool" "mset ys = add_mset x (mset (pool ! i))"
  shows "pool_entries (pool[i := ys]) = add_mset (2 ^ i, x) (pool_entries pool)"
proof -
  let ?F = "image_mset (Pair (2 ^ i)) (mset (pool ! i))"
  have "pool_entries (pool[i := ys]) + ?F = add_mset (2 ^ i, x) (pool_entries pool) + ?F"
    using pool_entries_update [OF assms(1), of ys] unfolding assms(2) by simp
  then show ?thesis by (rule add_right_imp_eq)
qed

lemma pool_entries_remove:
  assumes "i < length pool" "mset (pool ! i) = add_mset x (mset ys)"
  shows "pool_entries (pool[i := ys]) = pool_entries pool - {#(2 ^ i, x)#}" "(2 ^ i, x) \<in># pool_entries pool"
proof -
  let ?F = "image_mset (Pair (2 ^ i)) (mset ys)"
  have "add_mset (2 ^ i, x) (pool_entries (pool[i := ys])) + ?F = pool_entries pool + ?F"
    using pool_entries_update [OF assms(1), of ys] unfolding assms(2) by simp
  then have "pool_entries pool = add_mset (2 ^ i, x) (pool_entries (pool[i := ys]))" by (rule add_right_imp_eq [symmetric])
  then show "pool_entries (pool[i := ys]) = pool_entries pool - {#(2 ^ i, x)#}" "(2 ^ i, x) \<in># pool_entries pool" by simp_all
qed

lemma pool_entries_replace:
  assumes "i < length pool" "j < length (pool ! i)"
  shows "pool_entries (pool[i := (pool ! i)[j := x]]) = add_mset (2 ^ i, x) (pool_entries pool - {#(2 ^ i, pool ! i ! j)#})"
proof -
  let ?ys = "take j (pool ! i) @ drop (Suc j) (pool ! i)" and ?q = "pool[i := take j (pool ! i) @ drop (Suc j) (pool ! i)]"
  have r: "pool_entries ?q = pool_entries pool - {#(2 ^ i, pool ! i ! j)#}"
    using mset_remove [OF assms(2)] assms by (intro pool_entries_remove) (simp_all del: mset_append)
  have "(pool ! i)[j := x] = take j (pool ! i) @ x # drop (Suc j) (pool ! i)" by (rule upd_conv_take_nth_drop [OF assms(2)])
  then have "mset ((pool ! i)[j := x]) = add_mset x (mset (?q ! i))" using assms(1) by simp
  from pool_entries_add [OF _ this] r assms(1) show ?thesis by simp
qed

text \<open>Donating an address adds one entry; if the subpool is full it takes the place of one of the same alignment.\<close>

lemma add_addr_entries:
  fixes addr sz thread :: nat and vc :: VClock and k :: nat
  assumes inv: "pool_inv pool"
  defines "x \<equiv> (2 ^ k, addr, sz, thread, vc)"
  shows "pool_entries (add_addr True addr sz (2 ^ k) False thread vc pool) = add_mset x (pool_entries pool) \<and> \<not> (k < length pool \<and> length (pool ! k) = MAX_POOL_SIZE) \<or>
    (k < length pool \<and> length (pool ! k) = MAX_POOL_SIZE \<and>
      (\<exists>y\<in>set (pool ! k). pool_entries (add_addr True addr sz (2 ^ k) False thread vc pool) = add_mset x (pool_entries pool - {#(2 ^ k, y)#})))"
proof -
  obtain pool' i where sp: "subpool pool (2 ^ k) = (pool', i)" by fastforce
  note s = subpool_inv [OF inv sp]
  have k: "i = k" using s(3) by simp
  let ?sub = "pool' ! k" and ?x = "(addr, sz, thread, vc)"
  let ?pos = "partition_point (pool_before (sz, thread, False)) ?sub"
  have klen: "k < length pool'" using s(2) k by simp
  have sub: "sorted_wrt entry_le ?sub" "length ?sub \<le> MAX_POOL_SIZE" using s(1) klen by (auto simp: pool_inv_def)
  have old: "?sub = (if k < length pool then pool ! k else [])" using sp k by (auto simp: subpool_def Let_def nth_append split: if_splits)
  have ent: "pool_entries pool' = pool_entries pool" by (rule pool_entries_subpool [OF sp])
  show ?thesis
  proof (cases "length ?sub \<ge> MAX_POOL_SIZE")
    case True
    let ?p = "min ?pos (length ?sub - 1)"
    have p: "?p < length ?sub" and kp: "k < length pool" "?sub = pool ! k" using True old by (auto simp: MAX_POOL_SIZE_def split: if_splits)
    have "pool_entries (pool'[k := ?sub[?p := ?x]]) = add_mset x (pool_entries pool - {#(2 ^ k, ?sub ! ?p)#})"
      using pool_entries_replace [OF klen p, of ?x] by (simp add: ent x_def)
    moreover have "add_addr True addr sz (2 ^ k) False thread vc pool = pool'[k := ?sub[?p := ?x]]" using True sp k by (simp add: add_addr_def Let_def)
    moreover have "?sub ! ?p \<in> set (pool ! k)" "length (pool ! k) = MAX_POOL_SIZE" using nth_mem [OF p] kp(2) True sub(2) by simp_all
    ultimately show ?thesis using kp(1) by auto
  next
    case False
    have "mset (take ?pos ?sub @ drop ?pos ?sub) = mset ?sub" by (simp only: append_take_drop_id)
    then have "mset (take ?pos ?sub @ ?x # drop ?pos ?sub) = add_mset ?x (mset ?sub)" by (simp only: mset_append mset.simps union_mset_add_mset_right)
    from pool_entries_add [OF klen this] have "pool_entries (pool'[k := take ?pos ?sub @ ?x # drop ?pos ?sub]) = add_mset x (pool_entries pool)"
      by (simp only: ent x_def)
    moreover have "add_addr True addr sz (2 ^ k) False thread vc pool = pool'[k := take ?pos ?sub @ ?x # drop ?pos ?sub]" using False sp k by (simp add: add_addr_def Let_def)
    moreover have "\<not> (k < length pool \<and> length (pool ! k) = MAX_POOL_SIZE)" using False old by auto
    ultimately show ?thesis by simp
  qed
qed

text \<open>Taking an address removes one entry that fits, if there is one.\<close>

lemma take_addr_entries:
  assumes inv: "pool_inv pool" and ch: "\<forall>b e. b < e \<longrightarrow> b \<le> choice b e \<and> choice b e < e"
    and t: "take_addr attempt cross choice sz (2 ^ k) is_stack thread pool = (pool', taken)"
  shows "pool_inv pool'"
    and "taken = None \<Longrightarrow> pool_entries pool' = pool_entries pool \<and>
      (attempt \<and> \<not> is_stack \<and> k < length pool \<longrightarrow> \<not> list_ex (fitting sz thread cross) (pool ! k))"
    and "taken = Some (addr, sync) \<Longrightarrow> \<exists>e. (2 ^ k, e) \<in># pool_entries pool \<and> pool_entries pool' = pool_entries pool - {#(2 ^ k, e)#} \<and>
      fitting sz thread cross e \<and> addr = fst e \<and> 2 ^ k dvd addr \<and> sync = (if entry_thread e = thread then None else Some (snd (snd (snd e))))"
proof -
  obtain q i where sp: "subpool pool (2 ^ k) = (q, i)" by fastforce
  note s = subpool_inv [OF inv sp]
  have k: "i = k" using s(3) by simp
  let ?sub = "q ! k"
  let ?b = "partition_point (pool_before (sz, thread, cross)) ?sub"
  let ?e = "fitting_end sz thread cross ?sub ?b"
  have klen: "k < length q" using s(2) k by simp
  have sub: "sorted_wrt entry_le ?sub" "length ?sub \<le> MAX_POOL_SIZE" "\<forall>e\<in>set ?sub. 2 ^ k dvd fst e" using s(1) klen by (auto simp: pool_inv_def)
  have ent: "pool_entries q = pool_entries pool" by (rule pool_entries_subpool [OF sp])
  note fit = fitting_slice [OF sub(1), where sz = sz and thread = thread and cross = cross]
  consider (off) "is_stack \<or> \<not> attempt" | (empty) "\<not> is_stack" attempt "?e = ?b" | (hit) "\<not> is_stack" attempt "?e \<noteq> ?b" by blast
  then have "pool_inv pool' \<and> (taken = None \<longrightarrow> pool_entries pool' = pool_entries pool \<and>
      (attempt \<and> \<not> is_stack \<and> k < length pool \<longrightarrow> \<not> list_ex (fitting sz thread cross) (pool ! k))) \<and>
    (taken = Some (addr, sync) \<longrightarrow> (\<exists>e. (2 ^ k, e) \<in># pool_entries pool \<and> pool_entries pool' = pool_entries pool - {#(2 ^ k, e)#} \<and>
      fitting sz thread cross e \<and> addr = fst e \<and> 2 ^ k dvd addr \<and> sync = (if entry_thread e = thread then None else Some (snd (snd (snd e))))))"
  proof cases
    case off
    then have "pool' = pool" "taken = None" using t by (auto simp: take_addr_def)
    then show ?thesis using off inv by auto
  next
    case empty
    then have r: "pool' = q" "taken = None" using t k by (auto simp: take_addr_def sp Let_def)
    have "\<not> list_ex (fitting sz thread cross) ?sub" using fit(1) empty(3) by (auto simp: list_ex_length)
    moreover have "?sub = pool ! k" if "k < length pool" using that sp k by (auto simp: subpool_def Let_def split: if_splits)
    ultimately show ?thesis using s(1) ent r by auto
  next
    case hit
    then have lt: "?b < ?e" by (simp add: fitting_end_def)
    let ?j = "choice ?b ?e"
    let ?x = "?sub ! ?j" and ?rest = "take ?j ?sub @ drop (Suc ?j) ?sub"
    have j: "?j < length ?sub" "fitting sz thread cross ?x" using ch [rule_format, OF lt] fit(2) fit(1) [of ?j] by auto
    have r: "pool' = q[k := ?rest]" "taken = Some (fst ?x, if entry_thread ?x = thread then None else Some (snd (snd (snd ?x))))"
      using t hit k by (auto simp: take_addr_def sp Let_def entry_thread_def case_prod_unfold)
    have "sorted_wrt entry_le (take ?j ?sub @ ?x # drop (Suc ?j) ?sub)" using sub(1) j(1) by (simp add: id_take_nth_drop [symmetric])
    then have "sorted_wrt entry_le ?rest" unfolding sorted_wrt_append by auto
    then have "pool_inv pool'" unfolding r(1) using s(1) klen sub(2,3) by (intro pool_inv_put) (auto dest: in_set_takeD in_set_dropD)
    moreover have "mset ?sub = add_mset ?x (mset ?rest)" using mset_remove [OF j(1)] j(1) by (simp del: mset_append)
    then have "pool_entries pool' = pool_entries pool - {#(2 ^ k, ?x)#}" "(2 ^ k, ?x) \<in># pool_entries pool"
      using pool_entries_remove [OF klen, of ?x ?rest] unfolding r(1) ent by blast+
    moreover have "2 ^ k dvd fst ?x" using sub(3) j(1) by simp
    ultimately show ?thesis using j(2) r(2) by blast
  qed
  then show "pool_inv pool'" "taken = None \<Longrightarrow> pool_entries pool' = pool_entries pool \<and>
      (attempt \<and> \<not> is_stack \<and> k < length pool \<longrightarrow> \<not> list_ex (fitting sz thread cross) (pool ! k))"
    "taken = Some (addr, sync) \<Longrightarrow> \<exists>e. (2 ^ k, e) \<in># pool_entries pool \<and> pool_entries pool' = pool_entries pool - {#(2 ^ k, e)#} \<and>
      fitting sz thread cross e \<and> addr = fst e \<and> 2 ^ k dvd addr \<and> sync = (if entry_thread e = thread then None else Some (snd (snd (snd e))))"
    by blast+
qed

section \<open>Runs of the pool\<close>

text \<open>A pool with the donations that were not handed out again yet: each with its alignment, address, size, thread and clock. Alignments are
  powers of two, donated addresses are aligned.\<close>

inductive pool_run :: "(nat \<times> pool_entry) multiset \<Rightarrow> ReusePool \<Rightarrow> bool" where
  new: "pool_run {#} ReusePool_new"
| donate: "pool_run avail pool \<Longrightarrow> 2 ^ k dvd addr \<Longrightarrow>
    pool_run (if is_stack \<or> \<not> remember then avail else add_mset (2 ^ k, addr, sz, thread, vc) avail)
      (add_addr remember addr sz (2 ^ k) is_stack thread vc pool)"
| take: "pool_run avail pool \<Longrightarrow> \<forall>b e. b < e \<longrightarrow> b \<le> choice b e \<and> choice b e < e \<Longrightarrow>
    take_addr attempt cross choice sz (2 ^ k) is_stack thread pool = (pool', taken) \<Longrightarrow>
    pool_run (avail - (pool_entries pool - pool_entries pool')) pool'"

lemma pool_run_inv: "pool_run avail pool \<Longrightarrow> pool_inv pool \<and> pool_entries pool \<subseteq># avail"
proof (induction rule: pool_run.induct)
  case new
  show ?case by (simp add: pool_inv_def ReusePool_new_def pool_entries_def tagged_def)
next
  case (donate avail pool k addr is_stack remember sz thread vc)
  let ?x = "(2 ^ k, addr, sz, thread, vc)"
  from donate have inv: "pool_inv pool" "pool_entries pool \<subseteq># avail" "pool_inv (add_addr remember addr sz (2 ^ k) is_stack thread vc pool)"
    by (auto intro: add_addr_inv)
  show ?case
  proof (cases "is_stack \<or> \<not> remember")
    case True
    then show ?thesis using inv(1,2) by (auto simp: add_addr_def)
  next
    case False
    have "pool_entries (add_addr True addr sz (2 ^ k) False thread vc pool) \<subseteq># add_mset ?x (pool_entries pool)"
      using add_addr_entries [OF inv(1), of addr sz k thread vc] by (auto intro: diff_subset_eq_self)
    then have "pool_entries (add_addr True addr sz (2 ^ k) False thread vc pool) \<subseteq># add_mset ?x avail"
      using inv(2) by (meson mset_subset_eq_add_mset_cancel subset_mset.order_trans)
    then show ?thesis using False inv(3) by simp
  qed
next
  case (take avail pool choice attempt cross sz k is_stack thread pool' taken)
  from take have inv: "pool_inv pool" "pool_entries pool \<subseteq># avail" by auto
  note t = take_addr_entries [OF inv(1) take(2,3)]
  have le: "pool_entries pool' \<subseteq># pool_entries pool"
  proof (cases taken)
    case None
    then show ?thesis using t(2) by simp
  next
    case (Some x)
    obtain addr sync where "taken = Some (addr, sync)" using Some by (cases x) simp
    from t(3) [OF this] show ?thesis by (metis diff_subset_eq_self)
  qed
  have "pool_entries pool - (pool_entries pool - pool_entries pool') \<subseteq># avail - (pool_entries pool - pool_entries pool')"
    using inv(2) by (auto simp: subseteq_mset_def intro: diff_le_mono)
  moreover have "pool_entries pool - (pool_entries pool - pool_entries pool') = pool_entries pool'" using le by (simp add: multiset_eq_iff subseteq_mset_def)
  ultimately show ?case using t(1) by simp
qed

text \<open>C37: whatever addresses were donated to a pool and taken from it, its subpools are sorted by size and thread and hold at most 64 entries, and every
  entry is a donation that was not handed out yet. A donation adds exactly itself, or in a full subpool takes the place of one entry of the same
  alignment. A request is served exactly if the pool holds an entry that fits, one of the requested alignment and size that was donated by the
  requesting thread or, if the pool may cross threads, by any thread. The address that is handed out is that of such a donation, it leaves the pool, and it comes
  with the clock of the donation if another thread made it.\<close>

theorem reuse_pool_exact:
  assumes run: "pool_run avail pool" and ch: "\<forall>b e. b < e \<longrightarrow> b \<le> choice b e \<and> choice b e < e" and al: "2 ^ k dvd addr"
  shows "(\<forall>sub\<in>set pool. sorted_wrt (\<lambda>e f. entry_size e < entry_size f \<or> entry_size e = entry_size f \<and> entry_thread e \<le> entry_thread f) sub \<and> length sub \<le> 64) \<and>
    pool_entries pool \<subseteq># avail \<and>
    (let pool' = add_addr True addr sz (2 ^ k) False thread vc pool; full = (k < length pool \<and> length (pool ! k) = 64)
     in if full then \<exists>y\<in>set (pool ! k). pool_entries pool' = add_mset (2 ^ k, addr, sz, thread, vc) (pool_entries pool - {#(2 ^ k, y)#})
        else pool_entries pool' = add_mset (2 ^ k, addr, sz, thread, vc) (pool_entries pool)) \<and>
    (case take_addr True cross choice sz (2 ^ k) False thread pool of
       (pool', None) \<Rightarrow> pool_entries pool' = pool_entries pool \<and> (\<forall>e. (2 ^ k, e) \<in># pool_entries pool \<longrightarrow> \<not> fitting sz thread cross e)
     | (pool', Some (a, sync)) \<Rightarrow> \<exists>e. (2 ^ k, e) \<in># avail \<and> fitting sz thread cross e \<and> a = fst e \<and> 2 ^ k dvd a \<and>
         pool_entries pool' = pool_entries pool - {#(2 ^ k, e)#} \<and> sync = (if entry_thread e = thread then None else Some (snd (snd (snd e)))))"
    (is "?sorted \<and> ?held \<and> ?add \<and> ?take")
proof (intro conjI)
  have inv: "pool_inv pool" and held: "pool_entries pool \<subseteq># avail" using pool_run_inv [OF run] by auto
  show ?sorted using inv by (auto simp: pool_inv_def entry_le_def [abs_def] MAX_POOL_SIZE_def in_set_conv_nth)
  show ?held by (rule held)
  show ?add using add_addr_entries [OF inv, of addr sz k thread vc] by (auto simp: MAX_POOL_SIZE_def Let_def)
  show ?take
  proof (cases "take_addr True cross choice sz (2 ^ k) False thread pool")
    case (Pair pool' taken)
    note t = take_addr_entries [OF inv ch Pair]
    show ?thesis
    proof (cases taken)
      case None
      have "\<not> fitting sz thread cross e" if "(2 ^ k, e) \<in># pool_entries pool" for e
      proof -
        from that have "k < length pool" "e \<in> set (pool ! k)" by (auto simp: pool_entries_def tagged_def)
        then show ?thesis using t(2) [OF None] by (auto simp: list_ex_iff)
      qed
      then show ?thesis using t(2) [OF None] None Pair by simp
    next
      case (Some x)
      obtain a sync where x: "x = (a, sync)" by (cases x)
      from t(3) [OF Some [unfolded x]] obtain e where e: "(2 ^ k, e) \<in># pool_entries pool" "pool_entries pool' = pool_entries pool - {#(2 ^ k, e)#}"
        "fitting sz thread cross e" "a = fst e" "2 ^ k dvd a" "sync = (if entry_thread e = thread then None else Some (snd (snd (snd e))))" by blast
      have "(2 ^ k, e) \<in># avail" by (rule mset_subset_eqD [OF held e(1)])
      then show ?thesis unfolding Pair Some x prod.case option.case using e(2-) by blast
    qed
  qed
qed

definition demo_pool :: ReusePool where
  "demo_pool = add_addr True 64 24 (2 ^ 3) False 1 [] (add_addr True 128 24 (2 ^ 3) False 2 [] ReusePool_new)"

lemma demo_pool_run: "pool_run {#(2 ^ 3, 64, 24, 1, []), (2 ^ 3, 128, 24, 2, [])#} demo_pool"
  using pool_run.donate [OF pool_run.donate [OF pool_run.new, of 3 128 False True 24 2 "[]"], of 3 64 False True 24 1 "[]"]
  by (simp add: demo_pool_def)

theorem reuse_pool_exact_witness:
  "\<exists>pool'. take_addr True False (\<lambda>b e. b) 24 (2 ^ 3) False 2 demo_pool = (pool', Some (128, None)) \<and>
    pool_entries pool' = {#(8, 64, 24, 1, [])#}"
proof -
  let ?t = "take_addr True False (\<lambda>b e. b) 24 (2 ^ 3) False 2 demo_pool"
  have t: "snd ?t = Some (128, None)" by code_simp
  have entries: "pool_entries demo_pool = {#(8, 64, 24, 1, []), (8, 128, 24, 2, [])#}"
  proof -
    have "concat (tagged demo_pool) = [(8, 64, 24, 1, []), (8, 128, 24, 2, [])]" by code_simp
    then show ?thesis by (simp add: pool_entries_def)
  qed
  obtain pool' where p: "?t = (pool', Some (128, None))" using t by (cases ?t) auto
  from reuse_pool_exact [OF demo_pool_run, where choice = "\<lambda>b e. b" and cross = False and sz = 24 and k = 3 and thread = 2 and addr = 0 and vc = "[]"]
  obtain e where "(8, e) \<in># {#(8, 64, 24, 1, []), (8, 128, 24, 2, [])#}" "fst e = 128" "pool_entries pool' = pool_entries demo_pool - {#(8, e)#}"
    unfolding p prod.case option.case by auto
  then show ?thesis using p entries by auto
qed

end
