(* ===== verification/Alloc_Addresses.thy ===== *)
theory Alloc_Addresses
  imports Reuse_Pool Borrow_Tracker
begin

text \<open>
  Absolute addresses of allocations and casts between pointers and integers
  (\<open>src/src/alloc_addresses/mod.rs\<close>), with the pages of the simulated machine freed by \<open>dealloc_pages\<close>
  (\<open>src/src/mirch/physical_mem.rs\<close>). The interpreter runs without native libraries and GenMC. What the interpreter knows
  of an allocation is the field \<open>alloc_info\<close>; new allocation ids, the slack of a new address and the draw of the reuse pool are
  arguments. Exposing the root tag of an allocation to the borrow tracker is left out, and so is moving the contents of a stack
  allocation to its physical address.
\<close>

datatype ProvenanceMode = ProvDefault | Permissive | Strict

datatype AllocKind = LiveData | FunctionKind | VTable | VaList | TypeIdKind | Dead

datatype MemKind = StackMem | GlobalMem | OtherMem

datatype Provenance = Concrete AllocId | Wildcard

record AllocInfo =
  info_size :: nat
  info_align :: nat
  info_kind :: AllocKind

record GlobalStateInner =
  int_to_ptr_map :: "(nat \<times> AllocId) list"
  base_paddr :: "AllocId \<Rightarrow> nat option"
  paddr_to_vaddr :: "nat \<Rightarrow> nat option"
  exposed :: "AllocId set"
  provenance_mode :: ProvenanceMode
  reuse :: ReusePool
  next_base_vaddr :: nat
  global_next_stack_vaddr :: nat
  next_cpu_local_paddr :: nat
  next_dyn_vaddr :: nat

text \<open>The field \<open>global_next_stack_vaddr\<close> is \<open>next_stack_vaddr\<close> of the source, which no operation reads: threads have their own.\<close>

text \<open>The parts of the interpreter that address assignment reads: the allocations, the stack of the active thread.\<close>

record 's AddrMachine =
  alloc_addresses :: GlobalStateInner
  physical :: "'s PhysicalMemory"
  alloc_info :: "AllocId \<Rightarrow> AllocInfo"
  cpu_local_alloc_set :: "AllocId set"
  next_stack_vaddr :: nat
  stack_bottom :: nat
  active_thread :: ThreadId
  page_table_enabled :: bool

definition GlobalStateInner_new :: "PhysConfig \<Rightarrow> ProvenanceMode \<Rightarrow> (phys_error, GlobalStateInner) outcome" where
  "GlobalStateInner_new cfg mode =
     obind (kernel_code_paddr_to_vaddr cfg kernel_static_start_addr) (\<lambda>static.
     obind (kernel_code_paddr_to_vaddr cfg (kernel_stack_end_addr cfg)) (\<lambda>stack.
     obind (kernel_code_paddr_to_vaddr cfg (cpu_local_start_addr cfg)) (\<lambda>local.
     obind (kernel_code_paddr_to_vaddr cfg (total_mem_size cfg)) (\<lambda>dyn.
     Ok \<lparr>int_to_ptr_map = [], base_paddr = (\<lambda>_. None), paddr_to_vaddr = (\<lambda>_. None), exposed = {}, provenance_mode = mode,
         reuse = ReusePool_new, next_base_vaddr = static, global_next_stack_vaddr = stack, next_cpu_local_paddr = local, next_dyn_vaddr = dyn\<rparr>))))"

section \<open>The map from addresses to allocations\<close>

definition addr_cmp :: "nat \<Rightarrow> nat \<times> AllocId \<Rightarrow> ordering" where
  "addr_cmp k e = (if fst e < k then Less else if fst e = k then Equal else Greater)"

definition find_addr :: "nat \<Rightarrow> (nat \<times> AllocId) list \<Rightarrow> nat + nat" where
  "find_addr k = binary_search_by (addr_cmp k)"

text \<open>The position for a new address: behind all others, or where the search puts it.\<close>

definition new_addr_pos :: "nat \<Rightarrow> (nat \<times> AllocId) list \<Rightarrow> nat + nat" where
  "new_addr_pos k m = (if m \<noteq> [] \<and> fst (last m) < k then Inl (length m) else find_addr k m)"

definition set_exposed_kernel_padd :: "AllocId \<Rightarrow> nat \<Rightarrow> GlobalStateInner \<Rightarrow> (phys_error, GlobalStateInner) outcome" where
  "set_exposed_kernel_padd alloc_id paddr g =
     (case new_addr_pos paddr (int_to_ptr_map g) of
        Inr _ \<Rightarrow> Panic
      | Inl pos \<Rightarrow>
          obind (vec_insert pos (paddr, alloc_id) (int_to_ptr_map g)) (\<lambda>m.
          Ok (g\<lparr>exposed := insert alloc_id (exposed g), int_to_ptr_map := m, base_paddr := (base_paddr g)(alloc_id \<mapsto> paddr)\<rparr>)))"

definition get_base_addr :: "AllocId \<Rightarrow> GlobalStateInner \<Rightarrow> (phys_error, nat) outcome" where
  "get_base_addr alloc_id g = unwrap (base_paddr g alloc_id)"

definition remove_unreachable_allocs :: "(AllocId \<Rightarrow> bool) \<Rightarrow> GlobalStateInner \<Rightarrow> GlobalStateInner" where
  "remove_unreachable_allocs is_live g = g\<lparr>base_paddr := (\<lambda>a. if is_live a then base_paddr g a else None)\<rparr>"

definition min_allocated_stack_paddr :: "PhysConfig \<Rightarrow> GlobalStateInner \<Rightarrow> (nat \<times> AllocId) option" where
  "min_allocated_stack_paddr cfg g =
     fold (\<lambda>(paddr, alloc_id) best.
       if CodeSection_paddr cfg paddr = Some StackSection
       then (case best of
               Some (addr, _) \<Rightarrow> if addr < paddr then best else Some (paddr, alloc_id)
             | None \<Rightarrow> Some (paddr, alloc_id))
       else best) (int_to_ptr_map g) None"

section \<open>Choosing an address\<close>

definition checked_sub :: "nat \<Rightarrow> nat \<Rightarrow> (phys_error, nat) outcome" where
  "checked_sub a b = (if b \<le> a then Ok (a - b) else Err AddressSpaceFull)"

text \<open>\<open>adjust_stack_addr\<close> of \<open>src/src/helpers.rs\<close>: a subtraction below zero panics.\<close>

definition adjust_stack_addr :: "nat \<Rightarrow> nat \<Rightarrow> nat \<Rightarrow> (phys_error, nat) outcome" where
  "adjust_stack_addr sz align stack_addr =
     obind (check (max sz 1 \<le> stack_addr \<and> align \<noteq> 0)) (\<lambda>_.
     let stack_addr = stack_addr - max sz 1 in Ok (stack_addr - stack_addr mod align))"

definition bump_up :: "nat \<Rightarrow> nat \<Rightarrow> AllocInfo \<Rightarrow> nat \<Rightarrow> (phys_error, nat \<times> nat) outcome" where
  "bump_up slack limit info next_vaddr =
     obind (checked_add next_vaddr slack) (\<lambda>base_vaddr.
     obind (align_addr base_vaddr (info_align info)) (\<lambda>base_vaddr.
     if limit \<le> base_vaddr then Err AddressSpaceFull
     else obind (checked_add base_vaddr (max (info_size info) 1)) (\<lambda>next_vaddr. Ok (base_vaddr, next_vaddr))))"

definition bump_down :: "nat \<Rightarrow> nat \<Rightarrow> AllocInfo \<Rightarrow> nat \<Rightarrow> (phys_error, nat) outcome" where
  "bump_down slack lower info next_vaddr =
     obind (checked_sub next_vaddr slack) (\<lambda>end_vaddr.
     obind (checked_sub end_vaddr (max (info_size info) 1)) (\<lambda>unaligned_base.
     obind (check (info_align info \<noteq> 0)) (\<lambda>_.
     let base_vaddr = unaligned_base - unaligned_base mod info_align info
     in if base_vaddr < lower then Err AddressSpaceFull else Ok base_vaddr)))"

definition addr_from_alloc_id_uncached ::
  "PhysConfig \<Rightarrow> nat \<Rightarrow> AllocId \<Rightarrow> MemKind \<Rightarrow> 's AddrMachine \<Rightarrow> (phys_error, 's AddrMachine \<times> nat) outcome" where
  "addr_from_alloc_id_uncached cfg slack alloc_id kind s =
     (let g = alloc_addresses s; info = alloc_info s alloc_id; local = (alloc_id \<in> cpu_local_alloc_set s)
      in obind (check (info_kind info \<noteq> Dead)) (\<lambda>_.
         if info_kind info = TypeIdKind then Ok (s, 0)
         else if kind = StackMem
         then obind (adjust_stack_addr (info_size info) (info_align info) (next_stack_vaddr s)) (\<lambda>base_vaddr.
              if base_vaddr < stack_bottom s then Err AddressSpaceFull else Ok (s\<lparr>next_stack_vaddr := base_vaddr\<rparr>, base_vaddr))
         else if local
         then obind (kernel_code_paddr_to_vaddr cfg (cpu_local_end_addr cfg)) (\<lambda>limit.
              obind (bump_up slack limit info (next_cpu_local_paddr g)) (\<lambda>(base_vaddr, n).
              Ok (s\<lparr>alloc_addresses := g\<lparr>next_cpu_local_paddr := n\<rparr>\<rparr>, base_vaddr)))
         else if kind = GlobalMem
         then obind (kernel_code_paddr_to_vaddr cfg (kernel_static_end_addr cfg)) (\<lambda>limit.
              obind (bump_up slack limit info (next_base_vaddr g)) (\<lambda>(base_vaddr, n).
              Ok (s\<lparr>alloc_addresses := g\<lparr>next_base_vaddr := n\<rparr>\<rparr>, base_vaddr)))
         else obind (kernel_code_paddr_to_vaddr cfg (kernel_stack_end_addr cfg)) (\<lambda>lower.
              obind (bump_down slack lower info (next_dyn_vaddr g)) (\<lambda>base_vaddr.
              Ok (s\<lparr>alloc_addresses := g\<lparr>next_dyn_vaddr := base_vaddr\<rparr>\<rparr>, base_vaddr)))))"

text \<open>\<open>page_walk_or\<close> with a fallback that is also used if the walk finds nothing.\<close>

definition walk_or_fallback :: "PhysConfig \<Rightarrow> 's PhysicalMemory \<Rightarrow> nat \<Rightarrow> (phys_error, nat) outcome \<Rightarrow> (phys_error, nat) outcome" where
  "walk_or_fallback cfg pm vaddr fallback =
     obind (page_walk_or cfg pm (word_of_nat vaddr) (obind fallback (\<lambda>p. Ok (word_of_nat p)))) (\<lambda>p.
     case p of Some p \<Rightarrow> Ok (unat p) | None \<Rightarrow> fallback)"

text \<open>Storing the base address of an allocation, in \<open>addr_from_alloc_id\<close>.\<close>

definition record_address :: "PhysConfig \<Rightarrow> AllocId \<Rightarrow> nat \<Rightarrow> nat \<Rightarrow> 's AddrMachine \<Rightarrow> (phys_error, 's AddrMachine \<times> nat) outcome" where
  "record_address cfg alloc_id base_vaddr paddr s =
     (let g = alloc_addresses s;
          g = (if active_thread s = 1 then g\<lparr>paddr_to_vaddr := (paddr_to_vaddr g)(paddr \<mapsto> base_vaddr)\<rparr> else g);
          g = g\<lparr>base_paddr := (base_paddr g)(alloc_id \<mapsto> paddr)\<rparr>
      in if paddr = 0 then Ok (s\<lparr>alloc_addresses := g\<rparr>, base_vaddr)
         else case new_addr_pos paddr (int_to_ptr_map g) of
                Inr found \<Rightarrow>
                  obind (vec_get (int_to_ptr_map g) found) (\<lambda>e.
                  obind (check (snd e \<noteq> alloc_id)) (\<lambda>_. Ok (s\<lparr>alloc_addresses := g\<rparr>, paddr)))
              | Inl pos \<Rightarrow>
                  obind (vec_insert pos (paddr, alloc_id) (int_to_ptr_map g)) (\<lambda>m.
                  let g = g\<lparr>int_to_ptr_map := m\<rparr>;
                      g = (if is_in_cpu_local_section cfg paddr then g\<lparr>exposed := insert alloc_id (exposed g)\<rparr> else g)
                  in Ok (s\<lparr>alloc_addresses := g\<rparr>, base_vaddr)))"

definition addr_from_alloc_id ::
  "PhysConfig \<Rightarrow> nat \<Rightarrow> AllocId \<Rightarrow> MemKind option \<Rightarrow> 's AddrMachine \<Rightarrow> (phys_error, 's AddrMachine \<times> nat) outcome" where
  "addr_from_alloc_id cfg slack alloc_id memory_kind s =
     (let g = alloc_addresses s
      in case base_paddr g alloc_id of
           Some paddr \<Rightarrow>
             obind (case paddr_to_vaddr g paddr of Some v \<Rightarrow> Ok v | None \<Rightarrow> kernel_code_paddr_to_vaddr cfg paddr) (\<lambda>v. Ok (s, v))
         | None \<Rightarrow>
             obind (unwrap memory_kind) (\<lambda>kind.
             obind (addr_from_alloc_id_uncached cfg slack alloc_id kind s) (\<lambda>(s, base_vaddr).
             if base_vaddr = 0 then Ok (s, 0)
             else obind (walk_or_fallback cfg (physical s) base_vaddr (unwrap (try_kernel_code_vaddr_to_paddr cfg base_vaddr)))
                    (\<lambda>paddr. record_address cfg alloc_id base_vaddr paddr s))))"

section \<open>Finding an allocation\<close>

definition is_pow2 :: "nat \<Rightarrow> bool" where
  "is_pow2 n \<longleftrightarrow> n \<noteq> 0 \<and> 2 ^ trailing_zeros n = n"

definition kernel_allocation_at :: "PhysConfig \<Rightarrow> AllocId \<Rightarrow> nat \<Rightarrow> nat \<Rightarrow> nat \<Rightarrow> 's AddrMachine \<Rightarrow> (phys_error, 's AddrMachine) outcome" where
  "kernel_allocation_at cfg fresh paddr sz align s =
     obind (check (is_pow2 align)) (\<lambda>_.
     let actual_paddr = paddr - paddr mod align
     in if total_mem_size cfg < actual_paddr + sz then Err HostFault
        else obind (set_exposed_kernel_padd fresh actual_paddr (alloc_addresses s)) (\<lambda>g.
             Ok (s\<lparr>alloc_addresses := g, alloc_info := (alloc_info s)(fresh := \<lparr>info_size = sz, info_align = align, info_kind = LiveData\<rparr>)\<rparr>)))"

definition lazy_alloc_typed_slot_allocation ::
  "PhysConfig \<Rightarrow> AllocId \<Rightarrow> nat \<Rightarrow> 's AddrMachine \<Rightarrow> (phys_error, 's AddrMachine \<times> AllocId option) outcome" where
  "lazy_alloc_typed_slot_allocation cfg fresh paddr s =
     (let page_index = paddr div page_size
      in if page_index < length (page_states (physical s))
         then (case page_states (physical s) ! page_index of
                 Typed _ slot_size \<Rightarrow> obind (kernel_allocation_at cfg fresh paddr slot_size slot_size s) (\<lambda>s. Ok (s, Some fresh))
               | _ \<Rightarrow> Ok (s, None))
         else Ok (s, None))"

text \<open>\<open>kalloc\<close> is the table of kernel allocations of the configuration file: base address, size and alignment.\<close>

definition get_kalloc :: "(nat \<times> nat \<times> nat) list \<Rightarrow> nat \<Rightarrow> (nat \<times> nat \<times> nat) option" where
  "get_kalloc kalloc base = find (\<lambda>k. fst k = base) kalloc"

text \<open>The physical address of a wildcard pointer, and the search for the allocation at it.\<close>

definition wildcard_paddr :: "PhysConfig \<Rightarrow> nat \<Rightarrow> 's AddrMachine \<Rightarrow> (phys_error, nat) outcome" where
  "wildcard_paddr cfg vaddr s =
     (let kernel = try_kernel_code_vaddr_to_paddr cfg vaddr; boot = try_boot_pt_vaddr_to_paddr cfg vaddr
      in if page_table_enabled s
         then obind (page_walk_or cfg (physical s) (word_of_nat vaddr) Panic) (\<lambda>p.
              case p of Some p \<Rightarrow> Ok (unat p) | None \<Rightarrow> (case kernel of Some p \<Rightarrow> Ok p | None \<Rightarrow> unwrap boot))
         else Ok (case kernel of Some p \<Rightarrow> p | None \<Rightarrow> (case boot of Some p \<Rightarrow> p | None \<Rightarrow> vaddr)))"

definition alloc_at_paddr ::
  "PhysConfig \<Rightarrow> (nat \<times> nat \<times> nat) list \<Rightarrow> AllocId \<Rightarrow> nat \<Rightarrow> nat \<Rightarrow> 's AddrMachine \<Rightarrow> (phys_error, 's AddrMachine \<times> AllocId option) outcome" where
  "alloc_at_paddr cfg kalloc fresh paddr adr s =
     (let m = int_to_ptr_map (alloc_addresses s)
      in case find_addr adr m of
           Inr pos \<Rightarrow> obind (vec_get m pos) (\<lambda>e. Ok (s, Some (snd e)))
         | Inl pos \<Rightarrow>
             if pos = 0 then lazy_alloc_typed_slot_allocation cfg fresh paddr s
             else obind (vec_get m (pos - 1)) (\<lambda>(glb, alloc_id).
                  if adr - glb < info_size (alloc_info s alloc_id) then Ok (s, Some alloc_id)
                  else if page_table_enabled s then lazy_alloc_typed_slot_allocation cfg fresh paddr s
                  else case get_kalloc kalloc paddr of
                         None \<Rightarrow> Ok (s, None)
                       | Some (base, n, align) \<Rightarrow> obind (kernel_allocation_at cfg fresh base n align s) (\<lambda>s. Ok (s, Some fresh))))"

definition alloc_id_from_addr ::
  "PhysConfig \<Rightarrow> (nat \<times> nat \<times> nat) list \<Rightarrow> AllocId \<Rightarrow> nat \<Rightarrow> int \<Rightarrow> 's AddrMachine \<Rightarrow> (phys_error, 's AddrMachine \<times> AllocId option) outcome" where
  "alloc_id_from_addr cfg kalloc fresh vaddr sz s =
     obind (check (provenance_mode (alloc_addresses s) \<noteq> Strict)) (\<lambda>_.
     obind (wildcard_paddr cfg vaddr s) (\<lambda>paddr.
     obind (alloc_at_paddr cfg kalloc fresh paddr (if 0 \<le> sz then paddr else paddr - 1) s) (\<lambda>(s, found).
     case found of
       None \<Rightarrow> Ok (s, None)
     | Some alloc_id \<Rightarrow> Ok (s, if alloc_id \<in> exposed (alloc_addresses s) then Some alloc_id else None))))"

text \<open>The offset is a wrapping difference of physical addresses.\<close>

definition ptr_get_alloc ::
  "PhysConfig \<Rightarrow> (nat \<times> nat \<times> nat) list \<Rightarrow> AllocId \<Rightarrow> Provenance \<Rightarrow> nat \<Rightarrow> int \<Rightarrow> 's AddrMachine \<Rightarrow>
     (phys_error, 's AddrMachine \<times> (AllocId \<times> nat) option) outcome" where
  "ptr_get_alloc cfg kalloc fresh prov vaddr sz s =
     obind (case prov of Concrete alloc_id \<Rightarrow> Ok (s, Some alloc_id) | Wildcard \<Rightarrow> alloc_id_from_addr cfg kalloc fresh vaddr sz s) (\<lambda>(s, found).
     case found of
       None \<Rightarrow> Ok (s, None)
     | Some alloc_id \<Rightarrow>
         if info_kind (alloc_info s alloc_id) = TypeIdKind then Ok (s, Some (alloc_id, vaddr))
         else obind (unwrap (base_paddr (alloc_addresses s) alloc_id)) (\<lambda>base.
              obind (walk_or_fallback cfg (physical s) vaddr
                (case try_kernel_code_vaddr_to_paddr cfg vaddr of
                   Some p \<Rightarrow> Ok p
                 | None \<Rightarrow> if info_kind (alloc_info s alloc_id) \<noteq> LiveData then Panic
                     else Ok (case try_boot_pt_vaddr_to_paddr cfg vaddr of Some p \<Rightarrow> p | None \<Rightarrow> vaddr))) (\<lambda>actual.
              Ok (s, Some (alloc_id, (actual + 2 ^ 64 - base) mod 2 ^ 64)))))"

section \<open>Exposing and freeing\<close>

definition expose_provenance :: "Provenance \<Rightarrow> 's AddrMachine \<Rightarrow> 's AddrMachine" where
  "expose_provenance prov s =
     (let g = alloc_addresses s
      in case prov of
           Wildcard \<Rightarrow> s
         | Concrete alloc_id \<Rightarrow>
             if provenance_mode g = Strict then s
             else if info_kind (alloc_info s alloc_id) = Dead then s
             else s\<lparr>alloc_addresses := g\<lparr>exposed := insert alloc_id (exposed g)\<rparr>\<rparr>)"

definition ptr_from_addr_cast :: "nat \<Rightarrow> 's AddrMachine \<Rightarrow> (phys_error, Provenance \<times> nat) outcome" where
  "ptr_from_addr_cast vaddr s =
     (if provenance_mode (alloc_addresses s) = Strict then Err Int2PtrWithStrictProvenance else Ok (Wildcard, vaddr))"

definition vec_remove :: "nat \<Rightarrow> 'a list \<Rightarrow> 'a list" where
  "vec_remove i xs = take i xs @ drop (Suc i) xs"

definition free_alloc_id :: "bool \<Rightarrow> VClock \<Rightarrow> AllocId \<Rightarrow> nat \<Rightarrow> nat \<Rightarrow> MemKind \<Rightarrow> 's AddrMachine \<Rightarrow> (phys_error, 's AddrMachine) outcome" where
  "free_alloc_id remember vc dead_id sz align kind s =
     (let g = alloc_addresses s
      in obind (unwrap (base_paddr g dead_id)) (\<lambda>paddr.
         case find_addr paddr (int_to_ptr_map g) of
           Inl _ \<Rightarrow> Panic
         | Inr pos \<Rightarrow>
             obind (vec_get (int_to_ptr_map g) pos) (\<lambda>removed.
             obind (check (removed = (paddr, dead_id))) (\<lambda>_.
             Ok (s\<lparr>alloc_addresses := g\<lparr>int_to_ptr_map := vec_remove pos (int_to_ptr_map g), exposed := exposed g - {dead_id},
                 reuse := add_addr remember paddr sz align (kind = StackMem) (active_thread s) vc (reuse g)\<rparr>\<rparr>)))))"

definition dealloc_slot :: "nat \<Rightarrow> 's AddrMachine \<Rightarrow> (phys_error, 's AddrMachine) outcome" where
  "dealloc_slot actual_paddr s =
     (let g = alloc_addresses s
      in case find_addr actual_paddr (int_to_ptr_map g) of
           Inl _ \<Rightarrow> Ok s
         | Inr pos \<Rightarrow>
             obind (vec_get (int_to_ptr_map g) pos) (\<lambda>(_, dead_id).
             Ok (s\<lparr>alloc_addresses := g\<lparr>int_to_ptr_map := vec_remove pos (int_to_ptr_map g), exposed := exposed g - {dead_id},
                     base_paddr := (base_paddr g)(dead_id := None)\<rparr>,
                   alloc_info := (alloc_info s)(dead_id := (alloc_info s dead_id)\<lparr>info_kind := Dead\<rparr>)\<rparr>)))"

definition dealloc_page :: "nat \<Rightarrow> 's AddrMachine \<Rightarrow> (phys_error, 's AddrMachine) outcome" where
  "dealloc_page page_paddr s =
     obind (vec_get (page_states (physical s)) (page_paddr div page_size)) (\<lambda>info.
     obind (case info of
              Typed _ slot_size \<Rightarrow>
                obind (check (slot_size \<noteq> 0)) (\<lambda>_. ofold (\<lambda>index. dealloc_slot (page_paddr + index * slot_size)) [0..<page_size div slot_size] s)
            | _ \<Rightarrow> Ok s) (\<lambda>s.
     if info = Unused then Err PageStateUB
     else obind (set_page_state page_paddr Unused (physical s)) (\<lambda>pm.
          Ok (s\<lparr>physical := PhysicalMemory_remove_init_mask page_paddr pm\<rparr>))))"

definition dealloc_pages :: "nat \<Rightarrow> nat \<Rightarrow> 's AddrMachine \<Rightarrow> (phys_error, 's AddrMachine) outcome" where
  "dealloc_pages paddr n = ofold (\<lambda>i s. obind (page_at paddr i) (\<lambda>p. dealloc_page p s)) [0..<n]"

end
