(* ===== verification/Addr_Inv.thy ===== *)
theory Addr_Inv
  imports Alloc_Addresses
begin

text \<open>
  The map from addresses to allocations is strictly sorted and agrees with the base addresses (\<open>addr_inv\<close>); every operation of
  \<open>Alloc_Addresses\<close> keeps this. The binary searches are those of the locale \<open>ordered_slice\<close>.
\<close>

section \<open>The map\<close>

definition addr_sorted :: "(nat \<times> AllocId) list \<Rightarrow> bool" where
  "addr_sorted = sorted_wrt (\<lambda>x y. fst x < fst y)"

interpretation addrs: ordered_slice addr_cmp addr_sorted
proof
  fix xs :: "(nat \<times> AllocId) list" and i j k
  assume "addr_sorted xs" "i < j" "j < length xs"
  then have "fst (xs ! i) < fst (xs ! j)" unfolding addr_sorted_def by (rule sorted_wrt_nth_less)
  then show "addr_cmp k (xs ! i) = Less \<or> addr_cmp k (xs ! j) = Greater" by (auto simp: addr_cmp_def)
qed

lemma addr_cmp_eqs [simp]: "addr_cmp k e = Less \<longleftrightarrow> fst e < k" "addr_cmp k e = Equal \<longleftrightarrow> fst e = k" "addr_cmp k e = Greater \<longleftrightarrow> k < fst e"
  by (auto simp: addr_cmp_def)

lemma find_addr_Inr: "addr_sorted m \<Longrightarrow> find_addr k m = Inr i \<longleftrightarrow> i < length m \<and> fst (m ! i) = k"
  using addrs.search_found [of m k i] addrs.search_complete [of m i k] by (auto simp: find_addr_def)

lemma find_addr_Inl:
  assumes "addr_sorted m" "find_addr k m = Inl i"
  shows "i \<le> length m" "j < i \<Longrightarrow> fst (m ! j) < k" "i \<le> j \<Longrightarrow> j < length m \<Longrightarrow> k < fst (m ! j)"
  using addrs.search_not_found [OF assms(1), of k i] assms(2) by (auto simp: find_addr_def)

lemma new_addr_pos_Inl:
  assumes "addr_sorted m" "new_addr_pos k m = Inl i"
  shows "i \<le> length m" "j < i \<Longrightarrow> fst (m ! j) < k" "i \<le> j \<Longrightarrow> j < length m \<Longrightarrow> k < fst (m ! j)"
proof -
  have "i \<le> length m \<and> (\<forall>j<i. fst (m ! j) < k) \<and> (\<forall>j. i \<le> j \<longrightarrow> j < length m \<longrightarrow> k < fst (m ! j))"
  proof (cases "m \<noteq> [] \<and> fst (last m) < k")
    case True
    then have i: "i = length m" using assms(2) by (simp add: new_addr_pos_def)
    have "fst (m ! j) \<le> fst (last m)" if "j < length m" for j
    proof (cases "j = length m - 1")
      case False
      then have "fst (m ! j) < fst (m ! (length m - 1))"
        using that sorted_wrt_nth_less [OF assms(1) [unfolded addr_sorted_def], of j "length m - 1"] by simp
      then show ?thesis using True by (simp add: last_conv_nth)
    qed (use True in \<open>simp add: last_conv_nth\<close>)
    then show ?thesis using i True by (auto intro: order_le_less_trans)
  next
    case False
    then have "find_addr k m = Inl i" using assms(2) by (auto simp: new_addr_pos_def split: if_splits)
    from find_addr_Inl [OF assms(1) this] show ?thesis by blast
  qed
  then show "i \<le> length m" "j < i \<Longrightarrow> fst (m ! j) < k" "i \<le> j \<Longrightarrow> j < length m \<Longrightarrow> k < fst (m ! j)" by blast+
qed

definition addr_inv :: "GlobalStateInner \<Rightarrow> bool" where
  "addr_inv g \<longleftrightarrow> addr_sorted (int_to_ptr_map g) \<and> distinct (map snd (int_to_ptr_map g)) \<and>
     (\<forall>(p, a)\<in>set (int_to_ptr_map g). base_paddr g a = Some p)"

lemma addr_inv_insert:
  assumes inv: "addr_inv g" and new: "base_paddr g a = None" and pos: "new_addr_pos k (int_to_ptr_map g) = Inl i"
    and m: "vec_insert i (k, a) (int_to_ptr_map g) = (Ok m :: ('e, _) outcome)"
    and g': "int_to_ptr_map g' = m" "base_paddr g' = (base_paddr g)(a \<mapsto> k)"
  shows "addr_inv g'" "set m = insert (k, a) (set (int_to_ptr_map g))"
proof -
  let ?m = "int_to_ptr_map g"
  have s: "addr_sorted ?m" "distinct (map snd ?m)" "\<forall>(p, b)\<in>set ?m. base_paddr g b = Some p" using inv by (auto simp: addr_inv_def)
  note p = new_addr_pos_Inl [OF s(1) pos]
  have meq: "m = take i ?m @ (k, a) # drop i ?m" using m p(1) by simp
  have "addr_sorted m" using s(1) p unfolding meq addr_sorted_def by (intro sorted_insert) auto
  moreover have a: "a \<notin> snd ` set ?m" using s(3) new by fastforce
  have perm: "mset m = add_mset (k, a) (mset ?m)" unfolding meq by (metis append_take_drop_id mset_append mset.simps(2) union_mset_add_mset_right)
  then have "mset (map snd m) = mset (map snd ((k, a) # ?m))" by simp
  then have "distinct (map snd m)" using a s(2) by (metis distinct.simps(2) list.set_map list.simps(9) mset_eq_imp_distinct_iff snd_conv)
  moreover show set: "set m = insert (k, a) (set ?m)" using arg_cong [OF perm, of set_mset] by simp
  moreover have "\<forall>(q, b)\<in>set m. base_paddr g' b = Some q" using s(3) a g'(2) set by force
  ultimately show "addr_inv g'" unfolding addr_inv_def g'(1) by blast
qed

lemma vec_remove_set:
  assumes "addr_sorted m" "i < length m"
  shows "addr_sorted (vec_remove i m)" "set (vec_remove i m) = {x \<in> set m. fst x \<noteq> fst (m ! i)}"
    "distinct (map snd m) \<Longrightarrow> distinct (map snd (vec_remove i m))"
proof -
  have m: "m = take i m @ m ! i # drop (Suc i) m" by (rule id_take_nth_drop [OF assms(2)])
  have s: "sorted_wrt (\<lambda>x y. fst x < fst y) (take i m @ m ! i # drop (Suc i) m)" using assms(1) m by (simp add: addr_sorted_def)
  then have r: "\<forall>x\<in>set (take i m). fst x < fst (m ! i)" "\<forall>x\<in>set (drop (Suc i) m). fst (m ! i) < fst x"
    "sorted_wrt (\<lambda>x y. fst x < fst y) (vec_remove i m)"
    unfolding sorted_wrt_append vec_remove_def by auto
  show "addr_sorted (vec_remove i m)" using r(3) by (simp add: addr_sorted_def)
  have "set m = insert (m ! i) (set (take i m) \<union> set (drop (Suc i) m))" using arg_cong [OF m, of set] by auto
  then show "set (vec_remove i m) = {x \<in> set m. fst x \<noteq> fst (m ! i)}" using r(1,2) unfolding vec_remove_def set_append by auto
  show "distinct (map snd (vec_remove i m))" if "distinct (map snd m)"
  proof -
    have "distinct (map snd (take i m @ m ! i # drop (Suc i) m))" using that m by simp
    then show ?thesis by (auto simp: vec_remove_def)
  qed
qed

section \<open>Operations\<close>

lemma uncached_keeps:
  assumes "addr_from_alloc_id_uncached cfg slack a kind s = Ok (s', v)"
  shows "int_to_ptr_map (alloc_addresses s') = int_to_ptr_map (alloc_addresses s)" "base_paddr (alloc_addresses s') = base_paddr (alloc_addresses s)"
    "paddr_to_vaddr (alloc_addresses s') = paddr_to_vaddr (alloc_addresses s)" "physical s' = physical s"
    "page_table_enabled s' = page_table_enabled s" "alloc_info s' = alloc_info s" "exposed (alloc_addresses s') = exposed (alloc_addresses s)"
    "provenance_mode (alloc_addresses s') = provenance_mode (alloc_addresses s)" "active_thread s' = active_thread s"
  using assms by (auto simp: addr_from_alloc_id_uncached_def Let_def outcome_eqs split: if_splits)

lemma addr_inv_cong:
  "int_to_ptr_map g' = int_to_ptr_map g \<Longrightarrow> base_paddr g' = base_paddr g \<Longrightarrow> addr_inv g' = addr_inv g"
  by (simp add: addr_inv_def)

lemma addr_inv_base:
  assumes "addr_inv g" "base_paddr g a = None" "int_to_ptr_map g' = int_to_ptr_map g" "base_paddr g' = (base_paddr g)(a := q)"
  shows "addr_inv g'"
  using assms by (fastforce simp: addr_inv_def)

lemma record_address_inv:
  assumes inv: "addr_inv (alloc_addresses s)" and new: "base_paddr (alloc_addresses s) a = None" and run: "record_address cfg a b p s = Ok (s', v)"
  shows "addr_inv (alloc_addresses s') \<and> base_paddr (alloc_addresses s') = (base_paddr (alloc_addresses s))(a \<mapsto> p)"
proof -
  define g where "g = (alloc_addresses s)\<lparr>paddr_to_vaddr := (if active_thread s = 1 then (paddr_to_vaddr (alloc_addresses s))(p \<mapsto> b)
      else paddr_to_vaddr (alloc_addresses s)), base_paddr := (base_paddr (alloc_addresses s))(a \<mapsto> p)\<rparr>"
  have g: "int_to_ptr_map g = int_to_ptr_map (alloc_addresses s)" "base_paddr g = (base_paddr (alloc_addresses s))(a \<mapsto> p)" by (simp_all add: g_def)
  have geq: "(if active_thread s = 1 then alloc_addresses s\<lparr>paddr_to_vaddr := (paddr_to_vaddr (alloc_addresses s))(p \<mapsto> b)\<rparr> else alloc_addresses s)
      \<lparr>base_paddr := (base_paddr (if active_thread s = 1 then alloc_addresses s\<lparr>paddr_to_vaddr := (paddr_to_vaddr (alloc_addresses s))(p \<mapsto> b)\<rparr>
         else alloc_addresses s))(a \<mapsto> p)\<rparr> = g" by (simp add: g_def)
  have ginv: "addr_inv g" by (rule addr_inv_base [OF inv new g])
  show ?thesis
  proof (cases "p = 0")
    case True
    then show ?thesis using run ginv g(2) unfolding record_address_def Let_def geq by auto
  next
    case False
    show ?thesis
    proof (cases "new_addr_pos p (int_to_ptr_map g)")
      case (Inl i)
      from run False Inl obtain m where m: "vec_insert i (p, a) (int_to_ptr_map g) = (Ok m :: (phys_error, _) outcome)"
        and s': "int_to_ptr_map (alloc_addresses s') = m" "base_paddr (alloc_addresses s') = base_paddr g"
        unfolding record_address_def Let_def geq by (auto simp: obind_eq_Ok)
      from addr_inv_insert(1) [OF inv new _ _ s'(1), of p i] m Inl s'(2) g show ?thesis by auto
    next
      case (Inr i)
      then show ?thesis using run ginv g(2) False unfolding record_address_def Let_def geq by (auto simp: obind_eq_Ok split: if_splits)
    qed
  qed
qed

lemma addr_from_inv:
  assumes inv: "addr_inv (alloc_addresses s)" and run: "addr_from_alloc_id cfg slack a kind s = Ok (s', v)"
  shows "addr_inv (alloc_addresses s')"
proof (cases "base_paddr (alloc_addresses s) a")
  case (Some p)
  then show ?thesis using inv run by (auto simp: addr_from_alloc_id_def obind_eq_Ok)
next
  case None
  from run None obtain k s1 b where u: "addr_from_alloc_id_uncached cfg slack a k s = Ok (s1, b)"
    and rest: "s' = s1 \<or> (\<exists>p. record_address cfg a b p s1 = Ok (s', v))"
    by (auto simp: addr_from_alloc_id_def obind_eq_Ok Let_def split: if_splits)
  note keep = uncached_keeps [OF u]
  have "addr_inv (alloc_addresses s1)" "base_paddr (alloc_addresses s1) a = None" using inv addr_inv_cong [OF keep(1,2)] keep None by auto
  with rest record_address_inv show ?thesis by blast
qed

lemma set_exposed_inv:
  assumes "addr_inv g" "base_paddr g a = None" "set_exposed_kernel_padd a p g = Ok g'"
  shows "addr_inv g' \<and> set (int_to_ptr_map g') = insert (p, a) (set (int_to_ptr_map g)) \<and> base_paddr g' = (base_paddr g)(a \<mapsto> p) \<and>
    exposed g' = insert a (exposed g)"
proof -
  from assms(3) obtain i m where i: "new_addr_pos p (int_to_ptr_map g) = Inl i" and m: "vec_insert i (p, a) (int_to_ptr_map g) = (Ok m :: (phys_error, _) outcome)"
    and g': "g' = g\<lparr>exposed := insert a (exposed g), int_to_ptr_map := m, base_paddr := (base_paddr g)(a \<mapsto> p)\<rparr>"
    by (auto simp: set_exposed_kernel_padd_def obind_eq_Ok split: sum.splits)
  from addr_inv_insert [OF assms(1,2) i m, of g'] show ?thesis by (simp add: g')
qed

text \<open>What a new kernel allocation changes.\<close>

lemma kernel_allocation_inv:
  assumes "addr_inv (alloc_addresses s)" "base_paddr (alloc_addresses s) fresh = None" "kernel_allocation_at cfg fresh paddr sz align s = Ok s'"
  shows "addr_inv (alloc_addresses s') \<and> (paddr - paddr mod align, fresh) \<in> set (int_to_ptr_map (alloc_addresses s')) \<and>
    fresh \<in> exposed (alloc_addresses s') \<and> info_size (alloc_info s' fresh) = sz"
  using assms set_exposed_inv [OF assms(1,2)] by (auto simp: kernel_allocation_at_def obind_eq_Ok Let_def split: if_splits)

text \<open>The search either finds an entry of the map, or it makes a new kernel allocation, or it fails.\<close>

lemma alloc_at_paddr_cases:
  assumes run: "alloc_at_paddr cfg kalloc fresh paddr adr s = Ok (s', found)" and sorted: "addr_sorted (int_to_ptr_map (alloc_addresses s))"
  obtains (entry) p a where "found = Some a" "s' = s" "(p, a) \<in> set (int_to_ptr_map (alloc_addresses s))" "adr = p \<or> p < adr \<and> adr < p + info_size (alloc_info s a)"
  | (kernel) base n align where "found = Some fresh" "kernel_allocation_at cfg fresh base n align s = Ok s'" "base = paddr"
  | (missing) "found = None" "s' = s"
proof -
  let ?m = "int_to_ptr_map (alloc_addresses s)"
  have lazy: thesis if run: "lazy_alloc_typed_slot_allocation cfg fresh paddr s = Ok (s', found)"
  proof -
    from run have "(found = None \<and> s' = s) \<or> (\<exists>n align. found = Some fresh \<and> kernel_allocation_at cfg fresh paddr n align s = Ok s')"
      by (auto simp: lazy_alloc_typed_slot_allocation_def obind_eq_Ok Let_def split: if_splits PageState.splits)
    then show thesis using kernel [of paddr] missing by auto
  qed
  show thesis
  proof (cases "find_addr adr ?m")
    case (Inr i)
    with find_addr_Inr [OF sorted] have i: "i < length ?m" "fst (?m ! i) = adr" by auto
    then have "(adr, snd (?m ! i)) \<in> set ?m" using nth_mem [OF i(1)] by (metis prod.collapse)
    moreover have "s' = s" "found = Some (snd (?m ! i))" using run Inr i(1) by (auto simp: alloc_at_paddr_def)
    ultimately show thesis using entry [of "snd (?m ! i)" adr] by blast
  next
    case (Inl i)
    note p = find_addr_Inl [OF sorted Inl]
    show thesis
    proof (cases "i = 0")
      case True
      then show thesis using run Inl lazy by (simp add: alloc_at_paddr_def)
    next
      case False
      obtain q a where qa: "?m ! (i - 1) = (q, a)" by fastforce
      have i: "i - 1 < length ?m" "q < adr" using p(1) p(2) [of "i - 1"] False qa by auto
      then have mem: "(q, a) \<in> set ?m" using nth_mem qa by metis
      show thesis
      proof (cases "adr - q < info_size (alloc_info s a)")
        case True
        then show thesis using run Inl False i qa mem entry [of a q] by (simp add: alloc_at_paddr_def)
      next
        case far: False
        show thesis
        proof (cases "page_table_enabled s")
          case True
          then show thesis using run Inl False i qa far lazy by (simp add: alloc_at_paddr_def)
        next
          case no_table: False
          show thesis
          proof (cases "get_kalloc kalloc paddr")
            case None
            then show thesis using run Inl False i qa far no_table missing by (simp add: alloc_at_paddr_def)
          next
            case (Some k)
            obtain base n al where k: "k = (base, n, al)" by (cases k)
            have "fst k = paddr" using Some by (auto simp: get_kalloc_def find_Some_iff)
            then have "base = paddr" using k by simp
            then show thesis using run Inl False i qa far no_table Some k kernel by (auto simp: alloc_at_paddr_def obind_eq_Ok)
          qed
        qed
      qed
    qed
  qed
qed

lemma alloc_id_from_addr_Ok:
  assumes "alloc_id_from_addr cfg kalloc fresh vaddr sz s = Ok (s', r)"
  obtains paddr found where "wildcard_paddr cfg vaddr s = Ok paddr" "alloc_at_paddr cfg kalloc fresh paddr (if 0 \<le> sz then paddr else paddr - 1) s = Ok (s', found)"
    "r = (case found of None \<Rightarrow> None | Some a \<Rightarrow> if a \<in> exposed (alloc_addresses s') then Some a else None)" "provenance_mode (alloc_addresses s) \<noteq> Strict"
  using assms by (auto simp: alloc_id_from_addr_def obind_eq_Ok split: option.splits if_splits)

lemma alloc_id_from_addr_inv:
  assumes inv: "addr_inv (alloc_addresses s)" and fresh: "base_paddr (alloc_addresses s) fresh = None"
    and run: "alloc_id_from_addr cfg kalloc fresh vaddr sz s = Ok (s', r)"
  shows "addr_inv (alloc_addresses s')"
proof -
  have sorted: "addr_sorted (int_to_ptr_map (alloc_addresses s))" using inv by (simp add: addr_inv_def)
  from alloc_id_from_addr_Ok [OF run] obtain paddr found where
    r: "alloc_at_paddr cfg kalloc fresh paddr (if 0 \<le> sz then paddr else paddr - 1) s = Ok (s', found)" by blast
  from r sorted show ?thesis
  proof (cases rule: alloc_at_paddr_cases)
    case (kernel base n align)
    with kernel_allocation_inv [OF inv fresh] show ?thesis by blast
  qed (use inv in simp_all)
qed

lemma remove_inv:
  assumes inv: "addr_inv g" and i: "i < length (int_to_ptr_map g)" and g': "int_to_ptr_map g' = vec_remove i (int_to_ptr_map g)"
    and base: "base_paddr g' = base_paddr g \<or> base_paddr g' = (base_paddr g)(snd (int_to_ptr_map g ! i) := None)"
  shows "addr_inv g'"
proof -
  let ?m = "int_to_ptr_map g"
  have s: "addr_sorted ?m" "distinct (map snd ?m)" "\<forall>(p, a)\<in>set ?m. base_paddr g a = Some p" using inv by (auto simp: addr_inv_def)
  note r = vec_remove_set [OF s(1) i]
  have "base_paddr g' a = Some p" if "(p, a) \<in> set (vec_remove i ?m)" for p a
  proof -
    from that r(2) have x: "(p, a) \<in> set ?m" "p \<noteq> fst (?m ! i)" by auto
    have "a \<noteq> snd (?m ! i)"
    proof
      assume "a = snd (?m ! i)"
      moreover have "base_paddr g a = Some p" using s(3) x(1) by auto
      moreover have "base_paddr g (snd (?m ! i)) = Some (fst (?m ! i))" using bspec [OF s(3) nth_mem [OF i]] by (simp add: case_prod_unfold)
      ultimately show False using x(2) by simp
    qed
    with s(3) x(1) base show ?thesis by auto
  qed
  then show ?thesis using r s(2) by (auto simp: addr_inv_def g')
qed

lemma free_alloc_id_inv:
  assumes "addr_inv (alloc_addresses s)" "free_alloc_id remember vc a sz align kind s = Ok s'"
  shows "addr_inv (alloc_addresses s')"
proof -
  let ?m = "int_to_ptr_map (alloc_addresses s)"
  have sorted: "addr_sorted ?m" using assms(1) by (simp add: addr_inv_def)
  from assms(2) obtain p where p: "base_paddr (alloc_addresses s) a = Some p"
    by (cases "base_paddr (alloc_addresses s) a") (simp_all add: free_alloc_id_def)
  from assms(2) p obtain i where i: "find_addr p ?m = Inr i" by (cases "find_addr p ?m") (auto simp: free_alloc_id_def)
  then have len: "i < length ?m" using find_addr_Inr [OF sorted] by blast
  have "int_to_ptr_map (alloc_addresses s') = vec_remove i ?m" "base_paddr (alloc_addresses s') = base_paddr (alloc_addresses s)"
    using assms(2) p i len by (auto simp: free_alloc_id_def Let_def split: if_splits)
  then show ?thesis using remove_inv [OF assms(1) len] by blast
qed

lemma dealloc_slot_inv:
  assumes "addr_inv (alloc_addresses s)" "dealloc_slot p s = Ok s'"
  shows "addr_inv (alloc_addresses s')"
proof (cases "find_addr p (int_to_ptr_map (alloc_addresses s))")
  case (Inl i)
  then show ?thesis using assms by (simp add: dealloc_slot_def)
next
  case (Inr i)
  have "addr_sorted (int_to_ptr_map (alloc_addresses s))" using assms(1) by (simp add: addr_inv_def)
  with Inr have i: "i < length (int_to_ptr_map (alloc_addresses s))" by (simp add: find_addr_Inr)
  have "int_to_ptr_map (alloc_addresses s') = vec_remove i (int_to_ptr_map (alloc_addresses s))"
    "base_paddr (alloc_addresses s') = (base_paddr (alloc_addresses s))(snd (int_to_ptr_map (alloc_addresses s) ! i) := None)"
    using assms(2) Inr i by (auto simp: dealloc_slot_def Let_def split: prod.splits)
  with remove_inv [OF assms(1) i] show ?thesis by blast
qed

lemma dealloc_pages_inv:
  assumes "addr_inv (alloc_addresses s)" "dealloc_pages paddr n s = Ok s'"
  shows "addr_inv (alloc_addresses s')"
proof -
  have page: "addr_inv (alloc_addresses v)" if "addr_inv (alloc_addresses u)" "dealloc_page p u = Ok v" for p and u v :: "'a AddrMachine"
  proof -
    let ?clear = "case page_states (physical u) ! (p div page_size) of
        Typed _ slot_size \<Rightarrow> obind (check (slot_size \<noteq> 0)) (\<lambda>_. ofold (\<lambda>index. dealloc_slot (p + index * slot_size)) [0..<page_size div slot_size] u)
      | _ \<Rightarrow> Ok u"
    from that(2) obtain w where w: "?clear = Ok w" "alloc_addresses v = alloc_addresses w"
      by (auto simp: dealloc_page_def obind_eq_Ok vec_get_def check_def split: if_splits)
    have "addr_inv (alloc_addresses w)" if "ofold (\<lambda>index. dealloc_slot (p + index * sl)) is u = Ok w" for w :: "'a AddrMachine" and "is" sl
      by (rule ofold_invariant [OF that, where P = "\<lambda>s. addr_inv (alloc_addresses s)"]) (use \<open>addr_inv (alloc_addresses u)\<close> dealloc_slot_inv in auto)
    then have "addr_inv (alloc_addresses w)" using w(1) that(1) by (auto split: PageState.splits if_splits)
    then show ?thesis using w(2) by simp
  qed
  show ?thesis using assms unfolding dealloc_pages_def
    by (elim ofold_invariant [where P = "\<lambda>s. addr_inv (alloc_addresses s)"]) (auto simp: obind_eq_Ok intro: page)
qed

end
