(* ===== verification/Addr_Theorems.thy ===== *)
theory Addr_Theorems
  imports Addr_Inv
begin

text \<open>
  Theorems about the addresses of allocations: the invariant over every sequence of operations, casts of an address back to
  a pointer, and an overlap that the limits of the sections do not prevent.
\<close>

section \<open>Sequences of operations\<close>

text \<open>The ids of lookups are fresh (\<open>reserve_alloc_id\<close>); the collector keeps the allocations that are live, and those of the
  map are. Everything else the machine does leaves the addresses alone.\<close>

inductive addr_step :: "PhysConfig \<Rightarrow> (nat \<times> nat \<times> nat) list \<Rightarrow> 's AddrMachine \<Rightarrow> 's AddrMachine \<Rightarrow> bool"
  for cfg :: PhysConfig and kalloc :: "(nat \<times> nat \<times> nat) list" where
  assign: "addr_from_alloc_id cfg slack a kind s = Ok (s', v) \<Longrightarrow> addr_step cfg kalloc s s'"
| lookup: "base_paddr (alloc_addresses s) fresh = None \<Longrightarrow> alloc_id_from_addr cfg kalloc fresh vaddr sz s = Ok (s', r) \<Longrightarrow> addr_step cfg kalloc s s'"
| expose: "addr_step cfg kalloc s (expose_provenance prov s)"
| free: "free_alloc_id remember vc a sz align mem_kind s = Ok s' \<Longrightarrow> addr_step cfg kalloc s s'"
| dealloc: "dealloc_pages paddr n s = Ok s' \<Longrightarrow> addr_step cfg kalloc s s'"
| collect: "\<forall>(p, a)\<in>set (int_to_ptr_map (alloc_addresses s)). is_live a \<Longrightarrow>
    addr_step cfg kalloc s (s\<lparr>alloc_addresses := remove_unreachable_allocs is_live (alloc_addresses s)\<rparr>)"
| other: "alloc_addresses s' = alloc_addresses s \<Longrightarrow> addr_step cfg kalloc s s'"

lemma addr_step_inv:
  assumes "addr_step cfg kalloc s s'" "addr_inv (alloc_addresses s)"
  shows "addr_inv (alloc_addresses s')"
  using assms
proof cases
  case (assign slack a kind v)
  with assms(2) show ?thesis by (blast intro: addr_from_inv)
next
  case (lookup fresh vaddr sz r)
  with assms(2) show ?thesis by (blast intro: alloc_id_from_addr_inv)
next
  case (expose prov)
  then show ?thesis using assms(2) by (auto simp: expose_provenance_def addr_inv_def Let_def split: Provenance.splits)
next
  case (free remember vc a sz align mem_kind)
  with assms(2) show ?thesis by (blast intro: free_alloc_id_inv)
next
  case (dealloc paddr n)
  with assms(2) show ?thesis by (blast intro: dealloc_pages_inv)
next
  case (collect is_live)
  then show ?thesis using assms(2) by (fastforce simp: addr_inv_def remove_unreachable_allocs_def)
qed (use assms(2) in simp)

lemma new_addr_inv: "GlobalStateInner_new cfg mode = Ok g \<Longrightarrow> addr_inv g"
  by (auto simp: GlobalStateInner_new_def obind_eq_Ok addr_inv_def addr_sorted_def)

lemma reachable_addr_inv:
  assumes "(addr_step cfg kalloc)\<^sup>*\<^sup>* s0 s" "addr_inv (alloc_addresses s0)"
  shows "addr_inv (alloc_addresses s)"
  using assms by induction (auto intro: addr_step_inv)

lemma free_entry:
  assumes inv: "addr_inv (alloc_addresses s)" and mem: "(p, a) \<in> set (int_to_ptr_map (alloc_addresses s))"
  shows "\<exists>s'. free_alloc_id remember vc a sz align kind s = Ok s' \<and>
    set (int_to_ptr_map (alloc_addresses s')) = set (int_to_ptr_map (alloc_addresses s)) - {(p, a)} \<and> a \<notin> exposed (alloc_addresses s')"
proof -
  let ?m = "int_to_ptr_map (alloc_addresses s)"
  have sorted: "addr_sorted ?m" and base: "base_paddr (alloc_addresses s) a = Some p" using inv mem by (auto simp: addr_inv_def)
  from mem obtain i where i: "i < length ?m" "?m ! i = (p, a)" by (auto simp: in_set_conv_nth)
  then have f: "find_addr p ?m = Inr i" by (simp add: find_addr_Inr [OF sorted])
  have "{x \<in> set ?m. fst x \<noteq> p} = set ?m - {(p, a)}"
  proof -
    have eq: "x = (p, a)" if "x \<in> set ?m" "fst x = p" for x
    proof -
      from that(1) obtain j where j: "j < length ?m" "?m ! j = x" by (auto simp: in_set_conv_nth)
      then have "find_addr p ?m = Inr j" using that(2) by (simp add: find_addr_Inr [OF sorted])
      then show ?thesis using f i(2) j(2) by simp
    qed
    have "fst x \<noteq> p \<longleftrightarrow> x \<noteq> (p, a)" if "x \<in> set ?m" for x using eq [OF that] by (cases "fst x = p") auto
    then show ?thesis by blast
  qed
  then show ?thesis using vec_remove_set(2) [OF sorted i(1)] i base f by (simp add: free_alloc_id_def Let_def)
qed

text \<open>C38: whatever sequence of operations runs, the map from physical addresses to allocations is strictly sorted (which the
  binary searches need), it holds no allocation twice, every entry is the base address of its allocation; and an allocation
  that the map holds can be freed without a panic, which removes exactly its entry and makes it unexposed.\<close>

theorem address_map_consistent:
  assumes "GlobalStateInner_new cfg mode = Ok (alloc_addresses s0)" "(addr_step cfg kalloc)\<^sup>*\<^sup>* s0 s"
  shows "sorted_wrt (\<lambda>x y. fst x < fst y) (int_to_ptr_map (alloc_addresses s)) \<and> distinct (map snd (int_to_ptr_map (alloc_addresses s))) \<and>
    (\<forall>(p, a)\<in>set (int_to_ptr_map (alloc_addresses s)). base_paddr (alloc_addresses s) a = Some p \<and>
      (\<exists>s'. free_alloc_id remember vc a sz align kind s = Ok s' \<and>
        set (int_to_ptr_map (alloc_addresses s')) = set (int_to_ptr_map (alloc_addresses s)) - {(p, a)} \<and> a \<notin> exposed (alloc_addresses s')))"
proof -
  have inv: "addr_inv (alloc_addresses s)" using reachable_addr_inv [OF assms(2) new_addr_inv [OF assms(1)]] .
  then show ?thesis using free_entry [OF inv] unfolding addr_inv_def addr_sorted_def by fast
qed

section \<open>Casts\<close>

lemma lookup_entry:
  assumes sorted: "addr_sorted (int_to_ptr_map (alloc_addresses s))" and mem: "(p, a) \<in> set (int_to_ptr_map (alloc_addresses s))"
    and d: "d = 0 \<or> d < info_size (alloc_info s a)" and apart: "\<forall>(q, b)\<in>set (int_to_ptr_map (alloc_addresses s)). q \<le> p \<or> p + d < q"
  shows "alloc_at_paddr cfg kalloc fresh paddr (p + d) s = Ok (s, Some a)"
proof -
  let ?m = "int_to_ptr_map (alloc_addresses s)"
  from mem obtain i where i: "i < length ?m" "?m ! i = (p, a)" by (auto simp: in_set_conv_nth)
  show ?thesis
  proof (cases "d = 0")
    case True
    then have "find_addr (p + d) ?m = Inr i" using i by (simp add: find_addr_Inr [OF sorted])
    then show ?thesis using i by (simp add: alloc_at_paddr_def)
  next
    case False
    have apart': "fst (?m ! j) \<le> p \<or> p + d < fst (?m ! j)" if "j < length ?m" for j
      using apart nth_mem [OF that] by (auto simp: case_prod_unfold)
    obtain k where k: "find_addr (p + d) ?m = Inl k"
    proof (cases "find_addr (p + d) ?m")
      case (Inr j)
      then have "j < length ?m" "fst (?m ! j) = p + d" using find_addr_Inr [OF sorted] by auto
      with apart' [of j] False show ?thesis by auto
    qed
    note pos = find_addr_Inl [OF sorted k]
    have "i < k" using pos(3) [of i] i False by (cases "i < k") auto
    moreover have "k \<le> Suc i"
    proof (rule ccontr)
      assume "\<not> k \<le> Suc i"
      then have j: "i < k - 1" "k - 1 < length ?m" "fst (?m ! (k - 1)) < p + d" using pos(1) pos(2) [of "k - 1"] by auto
      have "p < fst (?m ! (k - 1))" using sorted_wrt_nth_less [OF sorted [unfolded addr_sorted_def] j(1,2)] i(2) by simp
      with apart' [OF j(2)] j(3) show False by linarith
    qed
    ultimately have "k = Suc i" by simp
    then show ?thesis using i k d False by (simp add: alloc_at_paddr_def)
  qed
qed

lemma no_table_walk:
  assumes "page_table pm = None" "p < 2 ^ 64"
  shows "walk_or_fallback cfg pm v (Ok p) = Ok p"
  using assms by (simp add: walk_or_fallback_def page_walk_or_def unat_of_nat)

text \<open>How the machine translates an address: through the page table if there is one, and linearly from the base of the kernel if there is none
  or the table does not map the address.\<close>

definition translates_to :: "PhysConfig \<Rightarrow> 's AddrMachine \<Rightarrow> nat \<Rightarrow> nat \<Rightarrow> bool" where
  "translates_to cfg s v p \<longleftrightarrow> v < 2 ^ 64 \<and>
     (case page_table (physical s) of
        Some pt \<Rightarrow> page_table_enabled s \<and>
          (page_walk cfg (physical s) pt (word_of_nat v) = Ok (Some (word_of_nat p)) \<and> p < 2 ^ 64 \<or>
           page_walk cfg (physical s) pt (word_of_nat v) = Ok None \<and> v = kernel_code_base_vaddr cfg + p)
      | None \<Rightarrow> \<not> page_table_enabled s \<and> v = kernel_code_base_vaddr cfg + p)"

lemma translates_to_paddr:
  assumes "translates_to cfg s v p"
  shows "wildcard_paddr cfg v s = Ok p"
proof (cases "page_table (physical s)")
  case None
  then show ?thesis using assms by (auto simp: translates_to_def wildcard_paddr_def try_kernel_code_vaddr_to_paddr_def)
next
  case (Some pt)
  then show ?thesis using assms
    by (auto simp: translates_to_def wildcard_paddr_def page_walk_or_def try_kernel_code_vaddr_to_paddr_def unat_of_nat)
qed

lemma translates_to_walk:
  assumes "translates_to cfg s v p" "v = kernel_code_base_vaddr cfg + p \<longrightarrow> fallback = Ok p"
  shows "walk_or_fallback cfg (physical s) v fallback = Ok p"
proof (cases "page_table (physical s)")
  case None
  then have "v = kernel_code_base_vaddr cfg + p" "p < 2 ^ 64" using assms(1) by (auto simp: translates_to_def)
  then show ?thesis using no_table_walk [OF None] assms(2) by simp
next
  case (Some pt)
  then show ?thesis using assms by (auto simp: translates_to_def walk_or_fallback_def page_walk_or_def unat_of_nat)
qed

text \<open>C39: Take the address of an exposed allocation, cast it to an integer, move it by an offset and cast it back: accesses through the result reach
  the allocation at that offset. This holds with and without a page table, as long as the machine translates the moved address to the physical
  address of the allocation moved by the same offset, which is inside the allocation (for accesses of negative size: up to its end), no other allocation starts
  between the base of the allocation and that address, and strict provenance does not forbid the cast. (Other
  allocations may start there: sections can overlap, see the next section.)\<close>

theorem exposed_address_casts_back:
  assumes "GlobalStateInner_new cfg mode = Ok (alloc_addresses s0)" "(addr_step cfg kalloc)\<^sup>*\<^sup>* s0 s"
    and mem: "(p, a) \<in> set (int_to_ptr_map (alloc_addresses s))" and exp: "a \<in> exposed (alloc_addresses s)"
    and mode: "provenance_mode (alloc_addresses s) \<noteq> Strict" and kind: "info_kind (alloc_info s a) \<noteq> TypeIdKind"
    and addr: "addr_from_alloc_id cfg slack a memory_kind s = Ok (s', v)" and trans: "translates_to cfg s (v + off) (p + off)"
    and bound: "d = (if 0 \<le> sz then off else off - 1)" "d = 0 \<or> d < info_size (alloc_info s a)" "0 \<le> sz \<or> 0 < off"
    and apart: "\<forall>(q, b)\<in>set (int_to_ptr_map (alloc_addresses s)). q \<le> p \<or> p + d < q"
  shows "s' = s \<and> ptr_from_addr_cast (v + off) s = Ok (Wildcard, v + off) \<and>
    ptr_get_alloc cfg kalloc fresh Wildcard (v + off) sz s = Ok (s, Some (a, off))"
proof -
  have inv: "addr_inv (alloc_addresses s)" using reachable_addr_inv [OF assms(2) new_addr_inv [OF assms(1)]] .
  then have sorted: "addr_sorted (int_to_ptr_map (alloc_addresses s))" and base: "base_paddr (alloc_addresses s) a = Some p"
    using mem by (auto simp: addr_inv_def)
  have s': "s' = s" using addr base by (auto simp: addr_from_alloc_id_def obind_eq_Ok)
  have "wildcard_paddr cfg (v + off) s = Ok (p + off)" by (rule translates_to_paddr [OF trans])
  moreover have "(if 0 \<le> sz then p + off else p + off - 1) = p + d" using bound by auto
  ultimately have lookup: "alloc_id_from_addr cfg kalloc fresh (v + off) sz s = Ok (s, Some a)"
    using lookup_entry [OF sorted mem bound(2) apart] mode exp by (simp add: alloc_id_from_addr_def)
  have "walk_or_fallback cfg (physical s) (v + off)
      (case try_kernel_code_vaddr_to_paddr cfg (v + off) of
         Some p \<Rightarrow> Ok p
       | None \<Rightarrow> if info_kind (alloc_info s a) \<noteq> LiveData then Panic
           else Ok (case try_boot_pt_vaddr_to_paddr cfg (v + off) of Some p \<Rightarrow> p | None \<Rightarrow> v + off)) = Ok (p + off)"
    by (rule translates_to_walk [OF trans]) (simp add: try_kernel_code_vaddr_to_paddr_def)
  moreover have "p + off < 2 ^ 64" using trans by (auto simp: translates_to_def split: option.splits)
  ultimately have "ptr_get_alloc cfg kalloc fresh Wildcard (v + off) sz s = Ok (s, Some (a, off))"
    using lookup kind base by (simp add: ptr_get_alloc_def)
  then show ?thesis using s' mode by (simp add: ptr_from_addr_cast_def)
qed

section \<open>The limits of the sections\<close>

lemma bump_up_Ok:
  assumes "info_align info = 1" "next_vaddr + slack < limit" "next_vaddr + slack + max (info_size info) 1 < 2 ^ 64"
  shows "bump_up slack limit info next_vaddr = Ok (next_vaddr + slack, next_vaddr + slack + max (info_size info) 1)"
  using assms by (simp add: bump_up_def checked_add_def align_addr_def)

lemma record_new_address:
  assumes "p \<noteq> 0" "\<forall>e\<in>set (int_to_ptr_map (alloc_addresses s)). fst e < p"
  shows "\<exists>e v. record_address cfg a b p s = Ok (s\<lparr>alloc_addresses := (alloc_addresses s)\<lparr>int_to_ptr_map := int_to_ptr_map (alloc_addresses s) @ [(p, a)],
     base_paddr := (base_paddr (alloc_addresses s))(a \<mapsto> p), exposed := e, paddr_to_vaddr := v\<rparr>\<rparr>, b)"
proof -
  let ?m = "int_to_ptr_map (alloc_addresses s)"
  have "new_addr_pos p ?m = Inl (length ?m)"
    using assms(2) by (cases "?m = []") (simp_all add: new_addr_pos_def find_addr_def binary_search_by_def)
  then show ?thesis using assms(1)
    by (intro exI [of _ "if is_in_cpu_local_section cfg p then insert a (exposed (alloc_addresses s)) else exposed (alloc_addresses s)"]
          exI [of _ "if active_thread s = 1 then (paddr_to_vaddr (alloc_addresses s))(p \<mapsto> b) else paddr_to_vaddr (alloc_addresses s)"],
        cases "alloc_addresses s") (simp add: record_address_def Let_def)
qed

lemma new_fields:
  assumes "GlobalStateInner_new cfg mode = Ok g"
  shows "int_to_ptr_map g = []" "base_paddr g = (\<lambda>_. None)" "next_base_vaddr g = kernel_code_base_vaddr cfg + kernel_static_start_addr"
    "next_cpu_local_paddr g = kernel_code_base_vaddr cfg + cpu_local_start_addr cfg"
  using assms by (auto simp: GlobalStateInner_new_def obind_eq_Ok kernel_code_paddr_to_vaddr_def add_u64_def split: if_splits)

lemma assign_address:
  assumes u: "addr_from_alloc_id_uncached cfg slack a kind s = Ok (u, kernel_code_base_vaddr cfg + q)"
    and "base_paddr (alloc_addresses s) a = None" "page_table (physical s) = None" "q \<noteq> 0" "kernel_code_base_vaddr cfg + q < 2 ^ 64"
    and last: "\<forall>e\<in>set (int_to_ptr_map (alloc_addresses s)). fst e < q"
  shows "\<exists>e v. addr_from_alloc_id cfg slack a (Some kind) s =
    Ok (u\<lparr>alloc_addresses := (alloc_addresses u)\<lparr>int_to_ptr_map := int_to_ptr_map (alloc_addresses s) @ [(q, a)],
     base_paddr := (base_paddr (alloc_addresses s))(a \<mapsto> q), exposed := e, paddr_to_vaddr := v\<rparr>\<rparr>, kernel_code_base_vaddr cfg + q)"
proof -
  note keep = uncached_keeps [OF u]
  have "walk_or_fallback cfg (physical u) (kernel_code_base_vaddr cfg + q) (unwrap (try_kernel_code_vaddr_to_paddr cfg (kernel_code_base_vaddr cfg + q))) = Ok q"
    using no_table_walk [of "physical u" q] assms(3,5) keep(4) by (simp add: try_kernel_code_vaddr_to_paddr_def)
  then have "addr_from_alloc_id cfg slack a (Some kind) s = record_address cfg a (kernel_code_base_vaddr cfg + q) q u"
    using assms(2,4) u by (simp add: addr_from_alloc_id_def)
  then show ?thesis using record_new_address [of q u cfg a "kernel_code_base_vaddr cfg + q"] assms(4) last keep(1,2) by simp
qed

text \<open>C40: the limit of the static section is checked against the base address of an allocation only. So a static allocation larger than its
  section is placed all the same, and it covers the first CPU-local allocation, which is placed after it.\<close>

theorem static_section_overflows:
  assumes "GlobalStateInner_new cfg mode = Ok (alloc_addresses s0)" "valid_config cfg" "page_table (physical s0) = None"
    and a: "alloc_info s0 a = \<lparr>info_size = sz, info_align = 1, info_kind = LiveData\<rparr>" "a \<notin> cpu_local_alloc_set s0"
    and b: "alloc_info s0 b = \<lparr>info_size = n, info_align = 1, info_kind = LiveData\<rparr>" "b \<in> cpu_local_alloc_set s0"
    and room: "i < kernel_static_size cfg" "j < cpu_local_size cfg" "kernel_static_size cfg + j < sz + i"
      "kernel_code_base_vaddr cfg + kernel_code_size cfg + sz + n < 2 ^ 64"
  shows "\<exists>s1 s2 va vb. addr_from_alloc_id cfg i a (Some GlobalMem) s0 = Ok (s1, va) \<and> addr_from_alloc_id cfg j b (Some GlobalMem) s1 = Ok (s2, vb) \<and>
    va < vb \<and> vb < va + sz"
proof -
  let ?k = "kernel_code_base_vaddr cfg"
  have layout: "kernel_static_start_addr + kernel_static_size cfg + cpu_local_size cfg < kernel_code_size cfg" using assms(2) by (simp add: valid_config_def)
  note g = new_fields [OF assms(1)]
  let ?va = "?k + kernel_static_start_addr + i" and ?vb = "?k + cpu_local_start_addr cfg + j"
  have vt: "kernel_code_paddr_to_vaddr cfg q = (Ok (?k + q) :: (phys_error, nat) outcome)" if "q \<le> kernel_code_size cfg" for q
    using room(4) that by (simp add: kernel_code_paddr_to_vaddr_def add_u64_def add.commute)
  note sections = cpu_local_start_addr_def cpu_local_end_addr_def kernel_static_end_addr_def
  have ends: "kernel_static_end_addr cfg \<le> kernel_code_size cfg" "cpu_local_end_addr cfg \<le> kernel_code_size cfg"
    "kernel_static_start_addr + i < kernel_static_end_addr cfg" "cpu_local_start_addr cfg + j < cpu_local_end_addr cfg"
    using layout room(1,2) by (simp_all add: sections)
  have bounds: "?va + max sz 1 < 2 ^ 64" "?vb + max n 1 < 2 ^ 64" "?k + (cpu_local_start_addr cfg + j) < 2 ^ 64" using ends room layout by (auto simp: sections)
  have ab: "a \<noteq> b" using a b by blast
  define u where "u = s0\<lparr>alloc_addresses := (alloc_addresses s0)\<lparr>next_base_vaddr := ?va + max sz 1\<rparr>\<rparr>"
  have "addr_from_alloc_id_uncached cfg i a GlobalMem s0 = Ok (u, ?va)"
    using a g bump_up_Ok [of "alloc_info s0 a" "?k + kernel_static_start_addr" i "?k + kernel_static_end_addr cfg"] vt [OF ends(1)] ends bounds
    by (simp add: addr_from_alloc_id_uncached_def Let_def u_def)
  then obtain s1 e v where 1: "addr_from_alloc_id cfg i a (Some GlobalMem) s0 = Ok (s1, ?va)"
    and s1: "s1 = u\<lparr>alloc_addresses := (alloc_addresses u)\<lparr>int_to_ptr_map := [(kernel_static_start_addr + i, a)],
       base_paddr := [a \<mapsto> kernel_static_start_addr + i], exposed := e, paddr_to_vaddr := v\<rparr>\<rparr>"
    using assign_address [of cfg i a GlobalMem s0 u "kernel_static_start_addr + i"] assms(3) g bounds by (auto simp: add.assoc kernel_static_start_addr_def)
  define w where "w = s1\<lparr>alloc_addresses := (alloc_addresses s1)\<lparr>next_cpu_local_paddr := ?vb + max n 1\<rparr>\<rparr>"
  have "addr_from_alloc_id_uncached cfg j b GlobalMem s1 = Ok (w, ?vb)"
    using b g bump_up_Ok [of "alloc_info s0 b" "?k + cpu_local_start_addr cfg" j "?k + cpu_local_end_addr cfg"] vt [OF ends(2)] ends bounds
    by (simp add: addr_from_alloc_id_uncached_def Let_def w_def s1 u_def)
  then obtain s2 where 2: "addr_from_alloc_id cfg j b (Some GlobalMem) s1 = Ok (s2, ?vb)"
    using assign_address [of cfg j b GlobalMem s1 w "cpu_local_start_addr cfg + j"] assms(3) ab bounds room(1)
    by (auto simp: add.assoc s1 u_def sections kernel_static_start_addr_def)
  have "?va < ?vb" "?vb < ?va + sz" using room by (simp_all add: sections)
  with 1 2 show ?thesis by blast
qed

section \<open>Witnesses\<close>

definition addr_config :: PhysConfig where
  "addr_config = \<lparr>total_mem_size = 0x21000, kernel_code_size = 0x20000, kernel_static_size = 0x100, cpu_local_size = 0x100,
     kernel_code_base_vaddr = 0x40000000, boot_pt_linear_mapping_base_vaddr = 0x80000000\<rparr>"

definition addr_machine :: "GlobalStateInner \<Rightarrow> unit AddrMachine" where
  "addr_machine g = \<lparr>alloc_addresses = g, physical = PhysicalMemory_new addr_config False,
     alloc_info = (\<lambda>a. \<lparr>info_size = 0xa0, info_align = 8, info_kind = LiveData\<rparr>), cpu_local_alloc_set = {2},
     next_stack_vaddr = 0x40020000, stack_bottom = 0x40010200, active_thread = 0, page_table_enabled = False\<rparr>"

definition addr_start :: "unit AddrMachine" where
  "addr_start = addr_machine \<lparr>int_to_ptr_map = [], base_paddr = (\<lambda>_. None), paddr_to_vaddr = (\<lambda>_. None), exposed = {}, provenance_mode = Permissive,
     reuse = ReusePool_new, next_base_vaddr = 0x40010000, global_next_stack_vaddr = 0x40020000, next_cpu_local_paddr = 0x40010100, next_dyn_vaddr = 0x40021000\<rparr>"

lemma addr_start_new: "GlobalStateInner_new addr_config Permissive = Ok (alloc_addresses addr_start)"
  by (simp add: GlobalStateInner_new_def addr_start_def addr_machine_def addr_config_def kernel_code_paddr_to_vaddr_def add_u64_def
    kernel_static_start_addr_def cpu_local_start_addr_def kernel_static_end_addr_def kernel_stack_end_addr_def kernel_code_end_def)


lemma addr_start_fields [simp]: "alloc_info addr_start a = \<lparr>info_size = 0xa0, info_align = 8, info_kind = LiveData\<rparr>" "cpu_local_alloc_set addr_start = {2}"
  "page_table (physical addr_start) = None" "\<not> page_table_enabled addr_start" "active_thread addr_start = 0" "provenance_mode (alloc_addresses addr_start) = Permissive"
  by (simp_all add: addr_start_def addr_machine_def PhysicalMemory_new_def)

lemma addr_first:
  "\<exists>s1. addr_from_alloc_id addr_config 0 1 (Some GlobalMem) addr_start = Ok (s1, 0x40010000) \<and> int_to_ptr_map (alloc_addresses s1) = [(0x10000, 1)] \<and>
    provenance_mode (alloc_addresses s1) = Permissive \<and> paddr_to_vaddr (alloc_addresses s1) = (\<lambda>_. None) \<and> physical s1 = physical addr_start \<and>
    page_table_enabled s1 = page_table_enabled addr_start \<and> alloc_info s1 = alloc_info addr_start"
  by (simp add: addr_from_alloc_id_def addr_from_alloc_id_uncached_def record_address_def walk_or_fallback_def page_walk_or_def new_addr_pos_def
    find_addr_def binary_search_by_def bump_up_def checked_add_def align_addr_def kernel_code_paddr_to_vaddr_def add_u64_def try_kernel_code_vaddr_to_paddr_def
    addr_start_def addr_machine_def addr_config_def PhysicalMemory_new_def kernel_static_end_addr_def kernel_static_start_addr_def
    is_in_cpu_local_section_def cpu_local_start_addr_def)

lemma addr_reach:
  "\<exists>s. (addr_step addr_config [])\<^sup>*\<^sup>* addr_start s \<and> int_to_ptr_map (alloc_addresses s) = [(0x10000, 1)] \<and> 1 \<in> exposed (alloc_addresses s) \<and>
    provenance_mode (alloc_addresses s) = Permissive \<and> paddr_to_vaddr (alloc_addresses s) = (\<lambda>_. None) \<and> physical s = physical addr_start \<and>
    \<not> page_table_enabled s \<and> alloc_info s = alloc_info addr_start"
proof -
  from addr_first obtain s1 where s1: "addr_from_alloc_id addr_config 0 1 (Some GlobalMem) addr_start = Ok (s1, 0x40010000)"
    "int_to_ptr_map (alloc_addresses s1) = [(0x10000, 1)]" "provenance_mode (alloc_addresses s1) = Permissive" "paddr_to_vaddr (alloc_addresses s1) = (\<lambda>_. None)"
    "physical s1 = physical addr_start" "page_table_enabled s1 = page_table_enabled addr_start" "alloc_info s1 = alloc_info addr_start" by blast
  let ?s = "expose_provenance (Concrete 1) s1"
  have "(addr_step addr_config [])\<^sup>*\<^sup>* addr_start ?s" using addr_step.assign [OF s1(1), of "[]"] addr_step.expose [of addr_config "[]" s1 "Concrete 1"] by auto
  moreover have "?s = s1\<lparr>alloc_addresses := (alloc_addresses s1)\<lparr>exposed := insert 1 (exposed (alloc_addresses s1))\<rparr>\<rparr>"
    using s1 by (simp add: expose_provenance_def Let_def)
  ultimately show ?thesis using s1 by (intro exI [of _ ?s]) simp
qed

theorem address_map_consistent_witness:
  "\<exists>s. (1 :: nat) \<in> snd ` set (int_to_ptr_map (alloc_addresses s)) \<and> sorted_wrt (\<lambda>x y. fst x < fst y) (int_to_ptr_map (alloc_addresses s)) \<and>
    (\<exists>s'. free_alloc_id False ([]) 1 0xa0 8 GlobalMem s = Ok (s' :: unit AddrMachine) \<and> int_to_ptr_map (alloc_addresses s') = [])"
proof -
  from addr_reach obtain s where s: "(addr_step addr_config [])\<^sup>*\<^sup>* addr_start s" "int_to_ptr_map (alloc_addresses s) = [(0x10000, 1)]" by blast
  from address_map_consistent [OF addr_start_new s(1), where remember = False and vc = "[]" and sz = "0xa0" and align = 8 and kind = GlobalMem] s(2)
  show ?thesis by (intro exI [of _ s]) auto
qed

theorem exposed_address_casts_back_witness:
  "\<exists>s :: unit AddrMachine. ptr_get_alloc addr_config [] 7 Wildcard 0x40010010 4 s = Ok (s, Some (1, 0x10)) \<and>
    ptr_get_alloc addr_config [] 7 Wildcard 0x400100a0 (- 1) s = Ok (s, Some (1, 0xa0))"
proof -
  from addr_reach obtain s where s: "(addr_step addr_config [])\<^sup>*\<^sup>* addr_start s" "int_to_ptr_map (alloc_addresses s) = [(0x10000, 1)]" "1 \<in> exposed (alloc_addresses s)"
    "provenance_mode (alloc_addresses s) = Permissive" "paddr_to_vaddr (alloc_addresses s) = (\<lambda>_. None)" "physical s = physical addr_start"
    "\<not> page_table_enabled s" "alloc_info s = alloc_info addr_start" by blast
  have base: "base_paddr (alloc_addresses s) 1 = Some 0x10000"
    using reachable_addr_inv [OF s(1) new_addr_inv [OF addr_start_new]] s(2) by (simp add: addr_inv_def)
  have addr: "addr_from_alloc_id addr_config 0 1 None s = Ok (s, 0x40010000)"
    using base s(5) by (simp add: addr_from_alloc_id_def kernel_code_paddr_to_vaddr_def add_u64_def addr_config_def)
  have trans: "translates_to addr_config s (0x40010000 + off) (0x10000 + off)" if "off < 0x1000" for off
    using s(6,7) that by (simp add: translates_to_def addr_config_def)
  note cast = exposed_address_casts_back [OF addr_start_new s(1), of "0x10000" 1, OF _ _ _ _ addr]
  from cast [OF _ _ _ _ trans [of "0x10"], of "0x10" 4 7] cast [OF _ _ _ _ trans [of "0xa0"], of "0x9f" "- 1" 7] s show ?thesis
    by (intro exI [of _ s]) simp
qed

definition overflow_start :: "unit AddrMachine" where
  "overflow_start = addr_start\<lparr>alloc_info := (\<lambda>a. \<lparr>info_size = 0x200, info_align = 1, info_kind = LiveData\<rparr>)\<rparr>"

theorem static_section_overflows_witness:
  "\<exists>s1 s2 va vb. addr_from_alloc_id addr_config 0 1 (Some GlobalMem) overflow_start = Ok (s1, va) \<and>
    addr_from_alloc_id addr_config 3 2 (Some GlobalMem) s1 = Ok (s2, vb) \<and> va < vb \<and> vb < va + 0x200"
proof -
  have "GlobalStateInner_new addr_config Permissive = Ok (alloc_addresses overflow_start)" using addr_start_new by (simp add: overflow_start_def)
  from static_section_overflows [OF this, of 1 "0x200" 2 "0x200" 0 3] show ?thesis
    by (simp add: overflow_start_def valid_config_def addr_config_def kernel_static_start_addr_def)
qed

end
