(* ===== verification/Spec2Isabelle.thy ===== *)
theory Spec2Isabelle
  imports Dedup_Range_Map Range_Object_Map Borrow_Tracker TB_Termination TB_Retag SB_Retag Tracker Weak_Theorems Phys_Copy Addr_Theorems
begin

text \<open>
  Miri interprets Rust programs and reports undefined behaviour; this version also runs kernels on a simulated machine.
  The interpreter loop itself is the compiler's. What Miri adds are machines that watch the run: every access of the
  interpreted program passes through the borrow tracker, the data race detector and the weak memory emulation, and every
  allocation gets an address from the address allocator, backed by the physical memory of the simulated machine. This development
  models these four parts and proves what a verdict of theirs means. File names below are relative to \<open>src/src/\<close>.

  \<^bold>\<open>Data structures.\<close> \<open>Dedup_Range_Map\<close> (\<open>data_structures/dedup_range_map.rs\<close>) is the vector of adjacent ranges in which
  the trackers and the race detector keep the state of every byte; \<open>Range_Object_Map\<close> (\<open>data_structures/range_object_map.rs\<close>)
  holds the store buffers; \<open>Uni_Map\<close> (\<open>borrow_tracker/tree_borrows/unimap.rs\<close>) hands out the recycled indices of tree nodes;
  \<open>Binary_Search\<close> is the search of the standard library that they call. Shown: mutable iteration covers exactly the requested range
  and keeps the data, merging keeps the data and is complete, the classification of an access by the object map is exact, and the
  index map refines a partial map.

  \<^bold>\<open>Borrow tracker.\<close> \<open>Borrow_Tracker\<close>, \<open>Alloc_State\<close> and \<open>Tracker\<close> model \<open>borrow_tracker/mod.rs\<close>: tags, protectors, call
  frames, the state of an allocation, and the hooks that pass retags, protections and ends of calls on to the selected tracker. Shown: tags are
  never handed out twice, and the map of protected tags always agrees with the lists of the frames on the stack.

  Tree Borrows (\<open>borrow_tracker/tree_borrows/\<close>): \<open>TB_Perms\<close> is the permission state machine and the skipping of accesses (\<open>perms.rs\<close>,
  \<open>foreign_access_skipping.rs\<close>), \<open>TB_Location\<close> the state of one reference at one byte (\<open>LocationState\<close> of \<open>tree.rs\<close>) and
  the history that an error shows (\<open>diagnostics.rs\<close>), \<open>TB_Visitor\<close> the hand-written stack machine for traversals
  (\<open>tree_visitor.rs\<close>), \<open>TB_Tree\<close> the tree of an allocation with wildcard accesses and garbage collection (\<open>tree.rs\<close>,
  \<open>wildcard.rs\<close>), \<open>TB_Retag\<close> retags (\<open>mod.rs\<close>); \<open>TB_Aliasing\<close>, \<open>TB_Shape\<close> and \<open>TB_Termination\<close> hold theorems about whole trees. Shown: the order of
  permissions is reachability, transitions are idempotent, skipped accesses are no-ops over any history, compaction hides no undefined
  behaviour, the traversal visits what its recursive description visits, the links of the nodes always form trees, collection keeps
  live tags and their behaviour, a retag adds one leaf with the intended permissions, and the aliasing rules: conflicting accesses through
  other tags are undefined behaviour, except where the permission is \<open>Cell\<close>. For an error the relevant part of the history
  can always be selected and printed without a panic, and all operations on a tree terminate.

  Stacked Borrows (\<open>borrow_tracker/stacked_borrows/\<close>): \<open>SB_Item\<close> packs an item into a word (\<open>item.rs\<close>), \<open>SB_Stack\<close> is the stack with
  its search cache (\<open>stack.rs\<close>), \<open>SB_Core\<close> and \<open>SB_Retag\<close> the rules and the retags (\<open>mod.rs\<close>), \<open>SB_Discipline\<close> theorems. Shown: the cached
  stack refines the bare one under all operations, the documented stack invariants hold, a \<open>Unique\<close> at the top excludes others, and a
  retagged \<open>&mut\<close> argument is not aliased until the function returns.

  \<^bold>\<open>Concurrency.\<close> \<open>Vector_Clock\<close> (\<open>concurrency/vector_clock.rs\<close>), \<open>Race_Cell\<close> and \<open>Race_State\<close> (\<open>concurrency/data_race.rs\<close>),
  \<open>Store_Buffer\<close> and \<open>Weak_Memory\<close> (\<open>concurrency/weak_memory.rs\<close> and the atomic operations of \<open>data_race.rs\<close>). \<open>Race_History\<close>, \<open>Race_Inv\<close>,
  \<open>Race_System\<close> and \<open>Race_Theorems\<close> run the hooks of the detector in a step relation \<open>race_step\<close> with the full history of every byte
  as a ghost; \<open>Weak_System\<close>, \<open>Weak_Inv\<close> and \<open>Weak_Theorems\<close> do the same for atomic accesses with a log of every object. Shown: clock comparisons are
  pointwise, a non-atomic access is refused exactly if the history holds a conflicting access that did not happen before it, the report
  names such an access, loads are coherent, store buffers stay within their bounds and a load always finds a store. The steps are
  non-atomic and atomic accesses, allocation and freeing, fences, releasing and acquiring of clocks, and the creation, end and joining of threads; the hooks
  for locals outside of memory and for CPU-local memory are definitions, but not steps.

  \<^bold>\<open>Simulated machine and addresses.\<close> \<open>Mirch\<close> (\<open>mirch/config.rs\<close>, \<open>page_table.rs\<close>, \<open>physical_mem.rs\<close> and the shims of
  \<open>shims/foreign_items.rs\<close> that manage pages), \<open>Page_Walk\<close> and \<open>Phys_Copy\<close> with theorems; \<open>Reuse_Pool\<close>
  (\<open>alloc_addresses/address_generator.rs\<close>, \<open>reuse_pool.rs\<close>) and \<open>Alloc_Addresses\<close> (\<open>alloc_addresses/mod.rs\<close>) with \<open>Addr_Inv\<close> and
  \<open>Addr_Theorems\<close>. Shown: the page walk on words computes the arithmetic translation, a copy in chunks equals a copy of single bytes, the
  reuse pool hands out exactly what was donated, the map from addresses to allocations stays sorted and consistent, and an exposed address
  cast back reaches its allocation.

  \<^bold>\<open>How code is modelled.\<close> A fallible operation returns an \<open>outcome\<close> (\<open>Prelude\<close>): \<open>Ok\<close>, an \<open>Err\<close> value of the source, \<open>Panic\<close>
  for a failed assertion, \<open>unwrap\<close>, index or checked overflow, and \<open>Diverge\<close> for a loop of the model that ran out of fuel. State is passed explicitly;
  a mutable reference is the changed state. Integers are words where the code works on bits (items, time stamps, page table entries) and
  natural numbers with explicit checks where it relies on overflow checks. Fuel is used only by the loops of Tree Borrows that follow the links of
  the nodes (one step per node, two for traversals and collection); \<open>TB_Termination\<close> shows that it suffices in every state that the operations of a tree
  reach, so \<open>Diverge\<close> never occurs. All other loops are structural or have a termination proof.

  \<^bold>\<open>Interfaces.\<close> The locale \<open>ordered_slice\<close> is the contract of binary search, interpreted for range elements, objects, addresses and the reuse
  pool; \<open>ranged_state\<close> is a range map as its clients see it, interpreted for plain maps, stacks and location trees; \<open>index_map\<close> is the value
  map of \<open>Uni_Map\<close>; \<open>local_visitor\<close> is what a traversal asks of its visitor, interpreted for normal and wildcard
  accesses; \<open>clock_ops\<close> is the lattice of vector clocks.

  \<^bold>\<open>Parameters.\<close> Code of the compiler is an argument: \<open>interp\<close> reads and writes scalars (\<open>memory_laws\<close>), \<open>shadow_ops\<close> are the
  allocations behind physical pages (\<open>shadow_laws\<close>), records such as \<open>RetagPlace\<close>, \<open>Pointee\<close> and \<open>alloc_info\<close> carry what the compiler says
  of a place, a type or an allocation. Random draws, fresh ids and the iteration order of hash sets are arguments, and the theorems hold for
  all of them. The laws are instantiated where a theorem assumes them.

  \<^bold>\<open>What the theorems show to be wrong.\<close> Vector indices are never reused although the code means to; the report of a race between
  differently sized atomic accesses can fail an assertion; the boot page table maps nothing; a static allocation may leave its
  section; the order of recorded accesses that the comments of Tree Borrows demand is not kept (harmlessly).

  \<^bold>\<open>Not modelled.\<close> The glue to the compiler's interpreter (\<open>machine.rs\<close>, \<open>eval.rs\<close>, \<open>helpers.rs\<close>), intrinsics, shims and native calls, which
  are input and output or work on interpreter values; threads, scheduling and the synchronisation objects (\<open>concurrency/thread.rs\<close>, \<open>sync.rs\<close>),
  whose operations call back into the interpreter; GenMC mode; debugger views, texts and source spans of messages; command line tools.
  In \<open>Alloc_Addresses\<close> the root tag of a kernel allocation is not exposed to the borrow tracker, and the contents of stack allocations are
  not moved to physical memory. The span of an access is not part of a time stamp, so the updates of spans are left out of the race detector. Debug assertions of
  \<open>Item::tag\<close> are replaced by the invariant \<open>Item_inv\<close>.
\<close>

end
